(* ===== verification/Prelude.thy ===== *)
theory Prelude
  imports Main "HOL-Library.Word"
begin

text \<open>
  What the components share: the names of the C types, the error-returning sequencing
  operator, reads that say when they leave a buffer, and little-endian byte strings.
  Every C function that can raise a Lua error is a function into
  \<open>'e + 'a\<close>: \<open>Inl\<close> is the raised error, \<open>Inr\<close> the value returned.
\<close>

unbundle bit_operations_syntax

type_synonym byte = "8 word"
type_synonym u32 = "32 word"
type_synonym u64 = "64 word"

abbreviation INT_MAX :: int where "INT_MAX \<equiv> 2147483647"
abbreviation INT64_MAX :: int where "INT64_MAX \<equiv> 9223372036854775807"
abbreviation INT64_MIN :: int where "INT64_MIN \<equiv> -9223372036854775808"

text \<open>A character constant of the source, as the \<open>int\<close> a C \<open>unsigned char\<close> promotes to.\<close>

abbreviation chr :: "char \<Rightarrow> int" where "chr c \<equiv> of_char c"

named_theorems bytes_simps \<open>lengths and values of byte strings\<close>
named_theorems res_simps \<open>sequencing of operations that may raise\<close>

section \<open>Operations that may raise\<close>

definition ebind :: "'e + 'a \<Rightarrow> ('a \<Rightarrow> 'e + 'b) \<Rightarrow> 'e + 'b" where
  "ebind m f = (case m of Inl e \<Rightarrow> Inl e | Inr x \<Rightarrow> f x)"

lemma ebind_Inl [simp, res_simps]: "ebind (Inl e) f = Inl e"
  by (simp add: ebind_def)

lemma ebind_Inr [simp, res_simps]: "ebind (Inr x) f = f x"
  by (simp add: ebind_def)

lemma ebind_eq_Inr [simp, res_simps]: "ebind m f = Inr y \<longleftrightarrow> (\<exists>x. m = Inr x \<and> f x = Inr y)"
  by (cases m) simp_all

lemma ebind_eq_Inl: "ebind m f = Inl e \<longleftrightarrow> m = Inl e \<or> (\<exists>x. m = Inr x \<and> f x = Inl e)"
  by (cases m) auto

lemma ebind_cong [fundef_cong]:
  "m = m' \<Longrightarrow> (\<And>x. m' = Inr x \<Longrightarrow> f x = f' x) \<Longrightarrow> ebind m f = ebind m' f'"
  by (cases m') simp_all

lemma ebind_assoc: "ebind (ebind m f) g = ebind m (\<lambda>x. ebind (f x) g)"
  by (cases m) simp_all

text \<open>A check that raises when it fails (\<open>luaL_argcheck\<close> and its kin).\<close>

definition require :: "bool \<Rightarrow> 'e \<Rightarrow> 'e + unit" where
  "require b e = (if b then Inr () else Inl e)"

lemma require_simps [simp, res_simps]:
  "require True e = Inr ()" "require False e = Inl e"
  "(require b e = Inr u) = b" "(require b e = Inl e') = (\<not> b \<and> e' = e)"
  by (auto simp: require_def)

section \<open>Little-endian byte strings\<close>

fun le_bytes :: "nat \<Rightarrow> nat \<Rightarrow> byte list" where
  "le_bytes 0 v = []"
| "le_bytes (Suc k) v = word_of_nat v # le_bytes k (v div 256)"

fun le_nat :: "byte list \<Rightarrow> nat" where
  "le_nat [] = 0"
| "le_nat (b # bs) = unat b + 256 * le_nat bs"

lemma length_le_bytes [simp, bytes_simps]: "length (le_bytes k v) = k"
  by (induction k arbitrary: v) auto

lemma unat_byte_less [simp, bytes_simps]: "unat (b :: byte) < 256"
  using unsigned_less [of b, where ?'a = nat] by simp

lemma unat_byte_of_nat [bytes_simps]: "unat (word_of_nat v :: byte) = v mod 256"
  by (simp add: unat_of_nat)

lemma byte_of_nat_mod [bytes_simps]: "(word_of_nat (v mod 256) :: byte) = word_of_nat v"
proof (rule word_unat_eq_iff [THEN iffD2])
  show "unat (word_of_nat (v mod 256) :: byte) = unat (word_of_nat v :: byte)"
    by (simp add: unat_of_nat)
qed

lemma le_nat_less: "le_nat bs < 256 ^ length bs"
proof (induction bs)
  case (Cons b bs)
  have "unat b + 256 * le_nat bs < 256 + 256 * le_nat bs" by simp
  also have "\<dots> = 256 * Suc (le_nat bs)" by simp
  also have "\<dots> \<le> 256 * 256 ^ length bs"
    using Cons.IH by (simp only: Suc_le_eq mult_le_cancel1) simp
  finally show ?case by simp
qed simp

lemma mod_256_Suc: "v mod 256 + 256 * (v div 256 mod 256 ^ k) = v mod 256 ^ Suc k" for v :: nat
  by (simp add: mod_mult2_eq)

lemma le_nat_le_bytes [bytes_simps]: "le_nat (le_bytes k v) = v mod 256 ^ k"
  by (induction k arbitrary: v) (simp_all add: unat_byte_of_nat mod_256_Suc del: power_Suc)

lemma le_bytes_le_nat [bytes_simps]: "le_bytes (length bs) (le_nat bs) = bs"
proof (induction bs)
  case (Cons b bs)
  have "unat (word_of_nat (unat b + 256 * le_nat bs) :: byte) = (unat b + 256 * le_nat bs) mod 256"
    by (rule unat_byte_of_nat)
  then have "(word_of_nat (unat b + 256 * le_nat bs) :: byte) = b"
    by (intro word_unat_eq_iff [THEN iffD2]) (simp del: of_nat_add)
  moreover have "(unat b + 256 * le_nat bs) div 256 = le_nat bs" by simp
  ultimately show ?case using Cons.IH by simp
qed simp

lemma le_bytes_mod: "le_bytes k (v mod 256 ^ k) = le_bytes k v"
proof -
  have "le_bytes k (v mod 256 ^ k) = le_bytes (length (le_bytes k v)) (le_nat (le_bytes k v))"
    by (simp add: le_nat_le_bytes)
  then show ?thesis by (simp only: le_bytes_le_nat)
qed

lemma le_nat_append: "le_nat (xs @ ys) = le_nat xs + 256 ^ length xs * le_nat ys"
  by (induction xs) (auto simp: algebra_simps)

lemma le_bytes_add: "le_bytes (j + k) v = le_bytes j v @ le_bytes k (v div 256 ^ j)"
  by (induction j arbitrary: v) (simp_all add: div_mult2_eq)

lemma le_bytes_replicate: "le_bytes k 0 = replicate k 0"
  by (induction k) simp_all

section \<open>Reads that stay inside a buffer\<close>

text \<open>
  \<open>peek_at bs i\<close> is the C read \<open>bs[i]\<close> of a buffer of \<open>length bs\<close> bytes; an index
  past the end is an explicit \<open>None\<close>, so that a model using it cannot hide an
  out-of-bounds read.
\<close>

definition peek_at :: "byte list \<Rightarrow> nat \<Rightarrow> byte option" where
  "peek_at bs i = (if i < length bs then Some (bs ! i) else None)"

text \<open>\<open>span_at bs i n\<close> is the block of \<open>n\<close> bytes at \<open>bs + i\<close>, if all of it is there.\<close>

definition span_at :: "byte list \<Rightarrow> nat \<Rightarrow> nat \<Rightarrow> byte list option" where
  "span_at bs i n = (if i + n \<le> length bs then Some (take n (drop i bs)) else None)"

lemma span_at_append [simp]: "span_at (xs @ ys @ zs) (length xs) (length ys) = Some ys"
  by (simp add: span_at_def)

lemma span_at_length: "span_at bs i n = Some xs \<Longrightarrow> length xs = n"
  by (auto simp: span_at_def split: if_splits)

section \<open>Integer arithmetic\<close>

lemma div_less_iff_pos: "m div d < c \<longleftrightarrow> m < c * d" if "0 < d" for m d c :: int
proof -
  have "c \<le> m div d \<longleftrightarrow> c * d \<le> m"
  proof
    assume "c \<le> m div d"
    then have "c * d \<le> m div d * d" using that by simp
    also have "\<dots> \<le> m" using that by (simp add: minus_mod_eq_div_mult [symmetric])
    finally show "c * d \<le> m" .
  next
    assume "c * d \<le> m"
    then have "c * d div d \<le> m div d" using that by (intro zdiv_mono1)
    then show "c \<le> m div d" using that by simp
  qed
  then show ?thesis by linarith
qed

section \<open>64-bit integers, two's complement\<close>

lemma sint_u64: "sint (u :: u64) = (if uint u < 2 ^ 63 then uint u else uint u - 2 ^ 64)"
proof -
  have u: "0 \<le> uint u" "uint u < 2 ^ 64" using uint_bounded [of u] by simp_all
  have "sint u = signed_take_bit 63 (uint u)" by (simp add: sint_uint)
  also have "\<dots> = (uint u + 2 ^ 63) mod 2 ^ 64 - 2 ^ 63"
    by (simp only: signed_take_bit_eq_take_bit_shift take_bit_eq_mod Suc_numeral
        semiring_norm)
  also have "\<dots> = (if uint u < 2 ^ 63 then uint u else uint u - 2 ^ 64)"
  proof (cases "uint u < 2 ^ 63")
    case True
    then show ?thesis using u by (simp add: mod_pos_pos_trivial)
  next
    case False
    have "(uint u + 2 ^ 63) mod 2 ^ 64 = (uint u - 2 ^ 63 + 2 ^ 64) mod 2 ^ 64"
      by (rule arg_cong [of _ _ "\<lambda>x. x mod 2 ^ 64"]) simp
    also have "\<dots> = uint u - 2 ^ 63" using u False by (simp only: mod_add_self2) (simp add: mod_pos_pos_trivial)
    finally show ?thesis using False by simp
  qed
  finally show ?thesis .
qed

lemma uint_not_u64: "uint (NOT u :: u64) = 2 ^ 64 - 1 - uint u"
proof -
  have "NOT u = -1 - u" by (simp add: not_eq_complement)
  moreover have "uint (-1 - u) = uint (-1 :: u64) - uint u"
    using word_order.extremum [of u] by (subst uint_sub_lem [symmetric]) (simp add: word_le_def)
  ultimately show ?thesis by (simp add: unsigned_minus_1_eq_mask mask_eq_exp_minus_1)
qed

lemma sint_u64_range: "- (2 ^ 63) \<le> sint (u :: u64)" "sint (u :: u64) < 2 ^ 63"
proof -
  have "- (2 ^ 63) \<le> uint u" by (rule order_trans [of _ 0]) simp_all
  then show "- (2 ^ 63) \<le> sint u" "sint u < 2 ^ 63"
    using uint_bounded [of u] by (auto simp: sint_u64)
qed

lemma sint_u64_of_int: "- (2 ^ 63) \<le> i \<Longrightarrow> i < 2 ^ 63 \<Longrightarrow> sint (word_of_int i :: u64) = i"
  by (simp add: signed_of_int signed_take_bit_int_eq_self)

section \<open>Bytes and lists\<close>

lemma len8_eq: "LENGTH(8) = 8" by simp

lemma uint_byte_eq: "uint (c :: byte) = numeral n \<longleftrightarrow> numeral n < (256 :: int) \<and> c = numeral n"
proof
  assume c: "uint c = numeral n"
  then have "numeral n < (256 :: int)" using uint_bounded [of c] by simp
  moreover have "c = word_of_int (uint c)" by simp
  ultimately show "numeral n < (256 :: int) \<and> c = numeral n" by (simp add: c)
next
  assume "numeral n < (256 :: int) \<and> c = numeral n"
  then have "(numeral n :: int) < 2 ^ 8" "c = word_of_int (numeral n)" by simp_all
  then show "uint c = numeral n"
    by (simp only: uint_word_of_int len8_eq mod_pos_pos_trivial zero_le_numeral)
qed

lemma list_all_takeWhile: "list_all P (takeWhile P xs)"
  by (induction xs) simp_all

lemma takeWhile_append_all:
  assumes "list_all P ds" "takeWhile P r = []"
  shows "takeWhile P (ds @ r) = ds" "dropWhile P (ds @ r) = r"
  using assms by (induction ds) (auto, metis dropWhile.simps(2) list.exhaust list.simps(3) takeWhile.simps(2) dropWhile.simps(1))

lemma uint_u64_of_int: "0 \<le> x \<Longrightarrow> x < 2 ^ 64 \<Longrightarrow> uint (word_of_int x :: u64) = x"
  by (simp add: uint_word_of_int take_bit_eq_mod)

lemma or_32: "(c :: int) OR 32 = (if bit c 5 then c else c + 32)"
  using set_bit_eq_or [of 5 c] set_bit_eq [of 5 c] by (cases "bit c 5") (simp_all add: push_bit_eq_mult)

section \<open>Shifts of 64-bit words as integer arithmetic\<close>

lemma len64_eq: "LENGTH(64) = 64" by simp

lemma uint_u64_less: "uint (x :: u64) < 2 ^ 64"
  using uint_bounded [of x] by simp

lemma u64_mod_eq: "uint (x :: u64) mod 2 ^ LENGTH(64) = uint x"
  by (simp only: len64_eq mod_pos_pos_trivial uint_u64_less unsigned_greater_eq)

lemma uint_push_u64: "uint (push_bit n (x :: u64)) = uint x * 2 ^ n mod 2 ^ 64"
  by (simp only: unsigned_push_bit_eq) (simp only: push_bit_eq_mult take_bit_eq_mod len64_eq)

lemma uint_drop_u64: "uint (drop_bit n (x :: u64)) = uint x div 2 ^ n"
  by (simp only: unsigned_drop_bit_eq) (simp only: drop_bit_eq_div take_bit_eq_mod u64_mod_eq)

lemma pow_ge64: "64 \<le> n \<Longrightarrow> (2 :: int) ^ 64 \<le> 2 ^ n"
  by (rule power_increasing) simp_all

lemma u64_div_ge64: "64 \<le> n \<Longrightarrow> uint (x :: u64) div 2 ^ n = 0"
proof -
  assume "64 \<le> n"
  then have "uint x < 2 ^ n" using pow_ge64 [of n] uint_u64_less [of x] by (simp only: order_less_le_trans)
  then show ?thesis by simp
qed

lemma mult_mod_ge64: "64 \<le> n \<Longrightarrow> v * 2 ^ n mod 2 ^ 64 = (0 :: int)"
  by (rule dvd_imp_mod_0, rule dvd_mult, rule le_imp_power_dvd)

lemma div_pow_not: "(- 1 - a) div 2 ^ n = - 1 - a div 2 ^ n" for a :: int
proof (rule int_div_pos_eq)
  show "- 1 - a = 2 ^ n * (- 1 - a div 2 ^ n) + (2 ^ n - 1 - a mod 2 ^ n)"
    using mult_div_mod_eq [of "2 ^ n" a] by (simp add: algebra_simps)
  have "0 \<le> a mod 2 ^ n" "a mod 2 ^ n < 2 ^ n" by simp_all
  then show "0 \<le> 2 ^ n - 1 - a mod 2 ^ n" "2 ^ n - 1 - a mod 2 ^ n < 2 ^ n" by linarith+
qed

lemma div_pow_neg: "a < 0 \<Longrightarrow> a \<le> a div 2 ^ n \<and> a div 2 ^ n < 0" for a :: int
proof -
  assume "a < 0"
  then have "a * 2 ^ n \<le> a * 1" by (intro mult_left_mono_neg) simp_all
  then have "a * 2 ^ n div 2 ^ n \<le> a div 2 ^ n" by (intro zdiv_mono1) simp_all
  then show ?thesis using \<open>a < 0\<close> by (simp add: div_neg_pos_less0)
qed

lemma sint_u64_uint: "0 \<le> sint x \<Longrightarrow> uint (x :: u64) = sint x" "sint x < 0 \<Longrightarrow> uint (x :: u64) = sint x + 2 ^ 64"
  using uint_u64_less [of x] by (auto simp: sint_u64 split: if_splits)

lemma sint_not_drop: "sint (NOT (drop_bit n (NOT (x :: u64)))) = sint x div 2 ^ n" if "sint x < 0"
proof -
  have d: "uint (drop_bit n (NOT x)) = (- 1 - sint x) div 2 ^ n"
    using that by (simp add: uint_drop_u64 uint_not_u64 sint_u64_uint)
  have n: "uint (NOT (drop_bit n (NOT x))) = 2 ^ 64 + sint x div 2 ^ n"
    by (simp add: uint_not_u64 d div_pow_not)
  have "- (2 ^ 63) \<le> sint x div 2 ^ n" "sint x div 2 ^ n < 0"
    using div_pow_neg [OF that, of n] sint_u64_range [of x] by linarith+
  then show ?thesis by (simp add: sint_u64 n)
qed

lemma sint_drop: "sint (drop_bit n (x :: u64)) = sint x div 2 ^ n" if "0 \<le> sint x"
proof -
  have d: "uint (drop_bit n x) = sint x div 2 ^ n" using that by (simp add: uint_drop_u64 sint_u64_uint)
  have "sint x div 2 ^ n \<le> sint x div 1" using that by (intro zdiv_mono2) simp_all
  then have "sint x div 2 ^ n < 2 ^ 63" using sint_u64_range(2) [of x] by simp
  then show ?thesis by (simp add: sint_u64 d)
qed

lemma sint_div_ge64: "64 \<le> n \<Longrightarrow> sint (x :: u64) div 2 ^ n = (if sint x < 0 then - 1 else 0)"
proof -
  assume n: "64 \<le> n"
  have r: "- (2 ^ n) \<le> sint x" "sint x < 2 ^ n"
    using pow_ge64 [OF n] sint_u64_range [of x] by auto
  show ?thesis
  proof (cases "sint x < 0")
    case True
    have "sint x div 2 ^ n = - 1" using r True by (intro int_div_pos_eq [of _ _ _ "sint x + 2 ^ n"]) auto
    then show ?thesis using True by simp
  qed (use r in simp)
qed

lemma sint_of_uint_small: "uint (x :: u64) < 2 ^ 63 \<Longrightarrow> sint x = uint x"
  by (simp add: sint_u64)

lemma u64_of_int_mod: "(word_of_int (v mod 2 ^ 64) :: u64) = word_of_int v"
  by (simp only: word_uint_eq_iff uint_word_of_int len64_eq mod_mod_trivial)

lemma div_pow_le: "0 \<le> b \<Longrightarrow> b div 2 ^ n \<le> b" for b :: int
  using zdiv_mono2 [of b 1 "2 ^ n"] by simp

section \<open>Object representations\<close>

text \<open>The object representation of an integer of the machine's byte order, computed on words.\<close>

fun word_bytes :: "nat \<Rightarrow> 'a :: len word \<Rightarrow> byte list" where
  "word_bytes 0 w = []"
| "word_bytes (Suc k) w = ucast w # word_bytes k (drop_bit 8 w)"

fun word_of_bytes :: "byte list \<Rightarrow> 'a :: len word" where
  "word_of_bytes [] = 0"
| "word_of_bytes (b # bs) = ucast b + 256 * word_of_bytes bs"

lemma unat_drop8: "unat (drop_bit 8 w) = unat w div 256" for w :: "'a :: len word"
proof -
  have "unat w div 256 < 2 ^ LENGTH('a)"
    by (rule le_less_trans [OF div_le_dividend]) (rule unsigned_less)
  then show ?thesis by (simp only: unsigned_drop_bit_eq) (simp add: drop_bit_eq_div take_bit_eq_mod)
qed

lemma word_bytes_le: "word_bytes k w = le_bytes k (unat w)"
  by (induction k arbitrary: w) (simp_all add: unat_drop8)

lemma word_of_bytes_le: "word_of_bytes bs = word_of_nat (le_nat bs)"
  by (induction bs) simp_all

lemma length_word_bytes [simp, bytes_simps]: "length (word_bytes k w) = k"
  by (simp add: word_bytes_le)

lemma word_of_bytes_word_bytes [bytes_simps]:
  "word_of_bytes (word_bytes k w) = (if LENGTH('a) \<le> 8 * k then w else take_bit (8 * k) w)"
  for w :: "'a :: len word"
proof -
  have "256 ^ k = (2 :: nat) ^ (8 * k)" by (simp add: power_mult)
  then have "(word_of_bytes (word_bytes k w) :: 'a word) = take_bit (8 * k) w"
    by (simp add: word_of_bytes_le word_bytes_le le_nat_le_bytes take_bit_eq_mod [symmetric])
       (metis of_nat_unat take_bit_of_nat ucast_id)
  then show ?thesis by (simp add: take_bit_word_eq_self)
qed

lemma word_bytes_word_of_bytes [bytes_simps]:
  "8 * length bs \<le> LENGTH('a) \<Longrightarrow> word_bytes (length bs) (word_of_bytes bs :: 'a :: len word) = bs"
proof -
  assume l: "8 * length bs \<le> LENGTH('a)"
  have "le_nat bs < 2 ^ (8 * length bs)" using le_nat_less [of bs] by (simp add: power_mult)
  also have "\<dots> \<le> 2 ^ LENGTH('a)" using l by (intro power_increasing) simp_all
  finally have "unat (word_of_bytes bs :: 'a word) = le_nat bs"
    by (simp add: word_of_bytes_le unat_of_nat)
  then show ?thesis by (simp add: word_bytes_le le_bytes_le_nat)
qed

end
