(* ===== verification/Ieee.thy ===== *)
theory Ieee
  imports Prelude Complex_Main
begin

text \<open>
  The C types \<open>double\<close> and \<open>float\<close> of the platform (IEEE 754 binary64 and binary32,
  rounding to nearest, ties to even), as bit patterns: what \<open>memcpy\<close> of a value gives.
  A format is \<open>p\<close> significant bits (the hidden one counted) and \<open>w\<close> exponent bits.
  A pattern decodes to a sign, a mantissa (never negative) and a power of two; an exact result is
  rounded into a format by \<open>fp_round\<close>. The conversions, comparisons and operations the
  sources use are built from these two, so each is executable and correctly rounded by
  construction.
\<close>

type_synonym double = "64 word"
type_synonym float32 = "32 word"

section \<open>Formats\<close>

datatype fpval = FNan | FInf bool | FFin bool int int

definition fp_emin :: "nat \<Rightarrow> nat \<Rightarrow> int" where
  "fp_emin p w = 3 - 2 ^ (w - 1) - int p"

definition fp_decode :: "nat \<Rightarrow> nat \<Rightarrow> int \<Rightarrow> fpval" where
  "fp_decode p w b =
     (let f = b mod 2 ^ (p - 1); e = b div 2 ^ (p - 1) mod 2 ^ w; s = odd (b div 2 ^ (p - 1 + w))
      in if e = 2 ^ w - 1 then (if f = 0 then FInf s else FNan)
         else if e = 0 then FFin s f (fp_emin p w)
         else FFin s (f + 2 ^ (p - 1)) (fp_emin p w + e - 1))"

function nbits :: "int \<Rightarrow> int" where
  "nbits n = (if n \<le> 0 then 0 else 1 + nbits (n div 2))"
  by pat_completeness auto
termination by (relation "measure nat") auto

declare nbits.simps [simp del]

text \<open>Round-half-to-even of \<open>m / d\<close>.\<close>

definition rne :: "int \<Rightarrow> int \<Rightarrow> int" where
  "rne m d =
     (let q = m div d; r = m mod d
      in if 2 * r < d then q else if 2 * r > d then q + 1 else if even q then q else q + 1)"

text \<open>
  The pattern of \<open>m * 2 ^ e\<close> rounded into the format: \<open>k\<close> low bits are dropped
  (\<open>-k\<close> zero bits appended), which leaves at most \<open>2 ^ p\<close>; the bits above the
  \<open>p\<close>-th carry into the exponent field by the addition, a subnormal has no carry, and
  a magnitude past the largest finite one is the infinity.
\<close>

definition fp_k :: "nat \<Rightarrow> nat \<Rightarrow> int \<Rightarrow> int \<Rightarrow> int" where
  "fp_k p w m e = max (nbits m - int p) (fp_emin p w - e)"

definition fp_q :: "nat \<Rightarrow> nat \<Rightarrow> int \<Rightarrow> int \<Rightarrow> int" where
  "fp_q p w m e =
     (let k = fp_k p w m e in if k \<le> 0 then m * 2 ^ nat (- k) else rne m (2 ^ nat k))"

definition fp_round :: "nat \<Rightarrow> nat \<Rightarrow> bool \<Rightarrow> int \<Rightarrow> int \<Rightarrow> int" where
  "fp_round p w s m e =
     (let sb = (if s then 2 ^ (p - 1 + w) else 0); inf = (2 ^ w - 1) * 2 ^ (p - 1);
          mag = (e + fp_k p w m e - fp_emin p w) * 2 ^ (p - 1) + fp_q p w m e
      in if m = 0 then sb else sb + min mag inf)"

section \<open>The values\<close>

definition dval :: "double \<Rightarrow> fpval" where
  "dval d = fp_decode 53 11 (uint d)"

definition mk_double :: "bool \<Rightarrow> int \<Rightarrow> int \<Rightarrow> double" where
  "mk_double s m e = word_of_int (fp_round 53 11 s m e)"

definition fval :: "float32 \<Rightarrow> fpval" where
  "fval f = fp_decode 24 8 (uint f)"

definition mk_float :: "bool \<Rightarrow> int \<Rightarrow> int \<Rightarrow> float32" where
  "mk_float s m e = word_of_int (fp_round 24 8 s m e)"

fun fp_rat :: "fpval \<Rightarrow> rat option" where
  "fp_rat FNan = None"
| "fp_rat (FInf s) = None"
| "fp_rat (FFin s m e) = Some ((if s then -1 else 1) * of_int m * 2 powi e)"

abbreviation d_nan :: double where "d_nan \<equiv> 0xFFF8000000000000"
abbreviation d_inf :: double where "d_inf \<equiv> 0x7FF0000000000000"
abbreviation d_ninf :: double where "d_ninf \<equiv> 0xFFF0000000000000"

definition d_isnan :: "double \<Rightarrow> bool" where
  "d_isnan d = (dval d = FNan)"

definition d_signbit :: "double \<Rightarrow> bool" where
  "d_signbit d = bit d 63"

text \<open>A finite value as an integer multiple of \<open>2 ^ e0\<close>, for \<open>e0\<close> at most its exponent.\<close>

definition scaled :: "bool \<Rightarrow> int \<Rightarrow> int \<Rightarrow> int \<Rightarrow> int" where
  "scaled s m e e0 = (if s then -1 else 1) * m * 2 ^ nat (e - e0)"

section \<open>Comparisons\<close>

fun fp_less :: "fpval \<Rightarrow> fpval \<Rightarrow> bool" where
  "fp_less FNan y = False"
| "fp_less x FNan = False"
| "fp_less (FInf s) (FInf t) = (s \<and> \<not> t)"
| "fp_less (FInf s) (FFin t n f) = s"
| "fp_less (FFin s m e) (FInf t) = (\<not> t)"
| "fp_less (FFin s m e) (FFin t n f) = (scaled s m e (min e f) < scaled t n f (min e f))"

fun fp_eq :: "fpval \<Rightarrow> fpval \<Rightarrow> bool" where
  "fp_eq (FInf s) (FInf t) = (s = t)"
| "fp_eq (FFin s m e) (FFin t n f) = (scaled s m e (min e f) = scaled t n f (min e f))"
| "fp_eq x y = False"

definition d_less :: "double \<Rightarrow> double \<Rightarrow> bool" where
  "d_less a b = fp_less (dval a) (dval b)"

definition d_eq :: "double \<Rightarrow> double \<Rightarrow> bool" where
  "d_eq a b = fp_eq (dval a) (dval b)"

definition d_le :: "double \<Rightarrow> double \<Rightarrow> bool" where
  "d_le a b = (d_less a b \<or> d_eq a b)"

section \<open>Conversions\<close>

text \<open>\<open>(double)i\<close> for an integer of at most 64 bits.\<close>

definition d_of_int :: "int \<Rightarrow> double" where
  "d_of_int i = mk_double (i < 0) \<bar>i\<bar> 0"

text \<open>The integral part, which is what \<open>(int64_t)d\<close> is where C99 6.3.1.4 defines it.\<close>

fun fp_trunc :: "fpval \<Rightarrow> int" where
  "fp_trunc (FFin s m e) =
     (if s then -1 else 1) * (if 0 \<le> e then m * 2 ^ nat e else m div 2 ^ nat (- e))"
| "fp_trunc x = 0"

definition d_trunc :: "double \<Rightarrow> int" where
  "d_trunc d = fp_trunc (dval d)"

text \<open>
  \<open>(float)d\<close> and \<open>(double)f\<close>. A NaN keeps its sign and the high bits of its payload
  and is made quiet, as x86-64's \<open>cvtsd2ss\<close> and \<open>cvtss2sd\<close> do.
\<close>

definition d_to_float :: "double \<Rightarrow> float32" where
  "d_to_float d =
     (case dval d of
        FFin s m e \<Rightarrow> mk_float s m e
      | FInf s \<Rightarrow> (if s then 0xFF800000 else 0x7F800000)
      | FNan \<Rightarrow> word_of_int ((if bit d 63 then 2 ^ 31 else 0) + 0x7F800000
                   + (uint d mod 2 ^ 52 div 2 ^ 29) mod 2 ^ 22 + 2 ^ 22))"

definition float_to_d :: "float32 \<Rightarrow> double" where
  "float_to_d f =
     (case fval f of
        FFin s m e \<Rightarrow> mk_double s m e
      | FInf s \<Rightarrow> (if s then d_ninf else d_inf)
      | FNan \<Rightarrow> word_of_int ((if bit f 31 then 2 ^ 63 else 0) + 0x7FF0000000000000
                   + (uint f mod 2 ^ 22) * 2 ^ 29 + 2 ^ 51))"

section \<open>Arithmetic\<close>

definition d_neg :: "double \<Rightarrow> double" where
  "d_neg d = d XOR 0x8000000000000000"

fun fp_add :: "fpval \<Rightarrow> fpval \<Rightarrow> double" where
  "fp_add (FFin s m e) (FFin t n f) =
     (let e0 = min e f; z = scaled s m e e0 + scaled t n f e0
      in if z = 0 then mk_double (s \<and> t \<and> m = 0 \<and> n = 0) 0 0
         else mk_double (z < 0) \<bar>z\<bar> e0)"
| "fp_add (FInf s) (FInf t) = (if s = t then (if s then d_ninf else d_inf) else d_nan)"
| "fp_add (FInf s) (FFin t n f) = (if s then d_ninf else d_inf)"
| "fp_add (FFin s m e) (FInf t) = (if t then d_ninf else d_inf)"
| "fp_add x y = d_nan"

definition d_add :: "double \<Rightarrow> double \<Rightarrow> double" where
  "d_add a b = fp_add (dval a) (dval b)"

definition d_sub :: "double \<Rightarrow> double \<Rightarrow> double" where
  "d_sub a b = d_add a (d_neg b)"

fun fp_mul :: "fpval \<Rightarrow> fpval \<Rightarrow> double" where
  "fp_mul (FFin s m e) (FFin t n f) = mk_double (s \<noteq> t) (m * n) (e + f)"
| "fp_mul (FInf s) (FInf t) = (if s = t then d_inf else d_ninf)"
| "fp_mul (FInf s) (FFin t n f) = (if n = 0 then d_nan else if s = t then d_inf else d_ninf)"
| "fp_mul (FFin s m e) (FInf t) = (if m = 0 then d_nan else if s = t then d_inf else d_ninf)"
| "fp_mul x y = d_nan"

definition d_mul :: "double \<Rightarrow> double \<Rightarrow> double" where
  "d_mul a b = fp_mul (dval a) (dval b)"

text \<open>The quotient keeps 120 extra bits and a sticky bit, so one rounding is the correct one.\<close>

fun fp_div :: "fpval \<Rightarrow> fpval \<Rightarrow> double" where
  "fp_div (FFin s m e) (FFin t n f) =
     (if n = 0 then (if m = 0 then d_nan else if s = t then d_inf else d_ninf)
      else let z = m * 2 ^ 120
           in mk_double (s \<noteq> t) (2 * (z div n) + (if z mod n = 0 then 0 else 1)) (e - f - 121))"
| "fp_div (FInf s) (FFin t n f) = (if s = t then d_inf else d_ninf)"
| "fp_div (FFin s m e) (FInf t) = mk_double (s \<noteq> t) 0 0"
| "fp_div x y = d_nan"

definition d_div :: "double \<Rightarrow> double \<Rightarrow> double" where
  "d_div a b = fp_div (dval a) (dval b)"

text \<open>\<open>floor\<close> of \<open>math.h\<close>; a zero, an infinity and a NaN are their own floor.\<close>

definition d_floor :: "double \<Rightarrow> double" where
  "d_floor d =
     (case dval d of
        FFin s m e \<Rightarrow> (if m = 0 \<or> 0 \<le> e then d
                      else d_of_int ((if s then -1 else 1) * m div 2 ^ nat (- e)))
      | _ \<Rightarrow> d)"

section \<open>Rounding and decoding\<close>

lemma nbits_0 [simp]: "n \<le> 0 \<Longrightarrow> nbits n = 0"
  by (simp add: nbits.simps)

lemma nbits_nonneg [simp]: "0 \<le> nbits n"
proof (induction n rule: nbits.induct)
  case (1 n)
  then show ?case by (subst nbits.simps) auto
qed

lemma nbits_le_iff: "nbits n \<le> int k \<longleftrightarrow> n < 2 ^ k"
proof (induction n arbitrary: k rule: nbits.induct)
  case (1 n)
  show ?case
  proof (cases "n \<le> 0")
    case True
    then have "n < 2 ^ k" by (rule le_less_trans) simp
    with True show ?thesis by simp
  next
    case False
    show ?thesis
    proof (cases k)
      case 0
      from False have "nbits n = 1 + nbits (n div 2)" by (subst nbits.simps) simp
      moreover have "0 \<le> nbits (n div 2)" by simp
      ultimately have "\<not> nbits n \<le> 0" by linarith
      with False 0 show ?thesis by simp
    next
      case (Suc j)
      from False have "nbits n = 1 + nbits (n div 2)" by (subst nbits.simps) simp
      then have "nbits n \<le> int k \<longleftrightarrow> nbits (n div 2) \<le> int j" using Suc by simp
      also have "\<dots> \<longleftrightarrow> n div 2 < 2 ^ j" using 1 [of j] False by simp
      also have "\<dots> \<longleftrightarrow> n < 2 ^ k" using Suc by auto
      finally show ?thesis .
    qed
  qed
qed

lemma nbits_less: "n < 2 ^ nat (nbits n)"
  using nbits_le_iff [of n "nat (nbits n)"] by simp

lemma nbits_pos: "0 < n \<Longrightarrow> 0 < nbits n"
  using nbits_le_iff [of n 0] by (simp add: not_le [symmetric])

lemma nbits_ge: "0 < n \<Longrightarrow> 2 ^ nat (nbits n - 1) \<le> n"
  using nbits_le_iff [of n "nat (nbits n - 1)"] nbits_pos [of n] by simp

lemma rne_bounds:
  assumes "0 < d"
  shows "m div d \<le> rne m d" "rne m d \<le> m div d + 1"
  by (simp_all add: rne_def Let_def)

lemma rne_exact: "0 < d \<Longrightarrow> rne (q * d) d = q"
  by (simp add: rne_def)

lemma rne_exact_iff:
  assumes "0 < d"
  shows "rne m d * d = m \<longleftrightarrow> d dvd m"
proof
  assume "rne m d * d = m"
  then show "d dvd m" by (metis dvd_triv_right)
next
  assume "d dvd m"
  then obtain q where "m = q * d" by (metis dvd_def mult.commute)
  with assms show "rne m d * d = m" by (simp add: rne_exact)
qed

text \<open>The rounded value is within half a unit of the exact one.\<close>

lemma rne_half:
  assumes "0 < d"
  shows "2 * \<bar>rne m d * d - m\<bar> \<le> d"
proof -
  have m: "m = m div d * d + m mod d" by simp
  have r: "0 \<le> m mod d" "m mod d < d" using assms by simp_all
  show ?thesis
  proof (cases "rne m d = m div d")
    case True
    then have "2 * (m mod d) \<le> d" by (auto simp: rne_def Let_def split: if_splits)
    moreover have "rne m d * d - m = - (m mod d)" using m by (simp only: True)
    ultimately show ?thesis using r by simp
  next
    case False
    then have q: "rne m d = m div d + 1" "d \<le> 2 * (m mod d)"
      by (auto simp: rne_def Let_def split: if_splits)
    have "rne m d * d - m = d - m mod d" using m q(1) by (simp add: algebra_simps)
    with r q(2) show ?thesis by simp
  qed
qed

lemma fp_q_bounds:
  assumes "0 < m" "0 < p"
  shows "0 \<le> fp_q p w m e" "fp_q p w m e \<le> 2 ^ p"
    "fp_emin p w < e + fp_k p w m e \<Longrightarrow> 2 ^ (p - 1) \<le> fp_q p w m e"
proof -
  let ?k = "fp_k p w m e"
  have k1: "nbits m - int p \<le> ?k" by (simp add: fp_k_def)
  have n: "m < 2 ^ nat (nbits m)" "2 ^ nat (nbits m - 1) \<le> m" "0 < nbits m"
    using assms by (auto intro: nbits_less nbits_ge nbits_pos)
  have le: "fp_q p w m e \<le> 2 ^ p \<and> 0 \<le> fp_q p w m e"
  proof (cases "?k \<le> 0")
    case True
    have "m * 2 ^ nat (- ?k) \<le> 2 ^ nat (nbits m) * 2 ^ nat (- ?k)" using n by simp
    also have "\<dots> = 2 ^ (nat (nbits m) + nat (- ?k))" by (simp add: power_add)
    also have "\<dots> \<le> 2 ^ p" using True k1 n(3) by (intro power_increasing) auto
    finally show ?thesis using True assms by (simp add: fp_q_def)
  next
    case False
    have "2 ^ nat (nbits m) \<le> (2::int) ^ (p + nat ?k)" using False k1 by (intro power_increasing) auto
    with n(1) have "m < 2 ^ p * 2 ^ nat ?k" by (simp add: power_add)
    then have "m div 2 ^ nat ?k < 2 ^ p"
      by (simp add: div_less_iff_pos)
    moreover have "0 \<le> m div 2 ^ nat ?k" using assms by (simp add: pos_imp_zdiv_nonneg_iff)
    ultimately show ?thesis using rne_bounds [of "2 ^ nat ?k" m] False by (simp add: fp_q_def)
  qed
  then show "0 \<le> fp_q p w m e" "fp_q p w m e \<le> 2 ^ p" by auto
  assume "fp_emin p w < e + ?k"
  then have k: "?k = nbits m - int p" by (auto simp: fp_k_def)
  show "2 ^ (p - 1) \<le> fp_q p w m e"
  proof (cases "?k \<le> 0")
    case True
    have "(2::int) ^ (p - 1) = 2 ^ (nat (nbits m - 1) + nat (- ?k))"
      using True k n(3) assms by (intro arg_cong2 [where f = "(^)"]) auto
    also have "\<dots> = 2 ^ nat (nbits m - 1) * 2 ^ nat (- ?k)" by (simp add: power_add)
    also have "\<dots> \<le> m * 2 ^ nat (- ?k)" using n by simp
    finally show ?thesis using True by (simp add: fp_q_def)
  next
    case False
    have "(2::int) ^ (p - 1) * 2 ^ nat ?k = 2 ^ nat (nbits m - 1)"
      using False k n(3) assms by (subst power_add [symmetric], intro arg_cong2 [where f = "(^)"]) auto
    with n(2) have "2 ^ (p - 1) * 2 ^ nat ?k \<le> m" by simp
    then have "2 ^ (p - 1) \<le> m div 2 ^ nat ?k" using div_less_iff_pos [of "2 ^ nat ?k" m "2 ^ (p - 1)"] by (simp add: not_less [symmetric])
    with rne_bounds(1) [of "2 ^ nat ?k" m] False show ?thesis by (simp add: fp_q_def)
  qed
qed

lemma fields_of_sum:
  fixes P W c f :: int
  assumes "0 < P" "0 < W" "0 \<le> f" "f < P" "0 \<le> c" "c < W"
  shows "(sb * (P * W) + (c * P + f)) mod P = f"
    "(sb * (P * W) + (c * P + f)) div P mod W = c"
    "(sb * (P * W) + (c * P + f)) div (P * W) = sb"
proof -
  have eq: "sb * (P * W) + (c * P + f) = f + (sb * W + c) * P" by (simp add: algebra_simps)
  show "(sb * (P * W) + (c * P + f)) mod P = f" using assms unfolding eq by simp
  have d: "(sb * (P * W) + (c * P + f)) div P = c + sb * W" using assms unfolding eq by simp
  then show "(sb * (P * W) + (c * P + f)) div P mod W = c" using assms by simp
  have "(sb * (P * W) + (c * P + f)) div (P * W) = (c + sb * W) div W"
    using assms d by (simp add: zdiv_zmult2_eq)
  also have "\<dots> = sb" using assms by simp
  finally show "(sb * (P * W) + (c * P + f)) div (P * W) = sb" .
qed

text \<open>Decoding a rounded pattern gives back the rounded value, unless it overflowed.\<close>

lemma fp_decode_round:
  fixes p w s m e
  defines "x \<equiv> e + fp_k p w m e" and "q \<equiv> fp_q p w m e"
  assumes m: "0 < m" and p: "0 < p"
    and fin: "(x - fp_emin p w) * 2 ^ (p - 1) + q < (2 ^ w - 1) * 2 ^ (p - 1)"
  shows "fp_rat (fp_decode p w (fp_round p w s m e)) =
    Some ((if s then -1 else 1) * of_int q * 2 powi x)"
proof -
  define P :: int where "P = 2 ^ (p - 1)"
  define W :: int where "W = 2 ^ w"
  define c where "c = x - fp_emin p w"
  have pos: "0 < P" "0 < W" by (simp_all add: P_def W_def)
  have PP: "2 ^ p = 2 * P" using p by (simp add: P_def power_eq_if)
  have c0: "0 \<le> c" by (simp add: c_def x_def fp_k_def)
  have qb: "0 \<le> q" "q \<le> 2 * P" "0 < c \<Longrightarrow> P \<le> q"
    using fp_q_bounds [OF m p, of w e] PP by (simp_all add: q_def x_def c_def P_def)
  have fin': "c * P + q < (W - 1) * P" using fin by (simp add: c_def P_def W_def)
  define sb :: int where "sb = of_bool s"
  have PW: "2 ^ (p - 1 + w) = P * W" by (simp add: P_def W_def power_add)
  have r: "fp_round p w s m e = sb * (P * W) + (c * P + q)"
    using m fin' by (simp add: fp_round_def Let_def PW c_def x_def q_def P_def W_def sb_def power_add algebra_simps)
  have key: "fp_rat (fp_decode p w (sb * (P * W) + (d * P + f))) =
      Some ((if s then -1 else 1) * of_int (if d = 0 then f else f + P)
        * 2 powi (if d = 0 then fp_emin p w else fp_emin p w + d - 1))"
    if "0 \<le> d" "d < W - 1" "0 \<le> f" "f < P" for d f
  proof -
    have "fp_decode p w b =
      (let f = b mod P; e = b div P mod W; s = odd (b div (P * W))
       in if e = W - 1 then (if f = 0 then FInf s else FNan)
          else if e = 0 then FFin s f (fp_emin p w)
          else FFin s (f + P) (fp_emin p w + e - 1))" for b
      unfolding fp_decode_def P_def W_def by (simp only: power_add)
    moreover note fields_of_sum [of P W f d sb]
    moreover have "odd sb = s" by (simp add: sb_def)
    ultimately show ?thesis using that pos by simp
  qed
  consider (sub) "q < P" | (norm) "P \<le> q" "q < 2 * P" | (carry) "q = 2 * P"
    using qb by linarith
  then show ?thesis
  proof cases
    case sub
    with qb c0 have "c = 0" by force
    moreover have "(W - 1) * P > 0" using fin' qb(1) c0 \<open>c = 0\<close> by simp
    ultimately show ?thesis using key [of 0 q] qb sub pos r
      by (simp add: c_def zero_less_mult_iff)
  next
    case norm
    have "c * P + q = (c + 1) * P + (q - P)" by (simp add: algebra_simps)
    moreover have "(c + 1) * P < (W - 1) * P" using fin' norm by (simp add: algebra_simps)
    then have "c + 1 < W - 1" using pos by simp
    moreover have r': "fp_round p w s m e = sb * (P * W) + ((c + 1) * P + (q - P))"
      using r by (simp add: algebra_simps)
    ultimately show ?thesis unfolding r' using norm c0 by (subst key) (auto simp: c_def)
  next
    case carry
    have "c * P + q = (c + 2) * P + 0" using carry by (simp add: algebra_simps)
    moreover have "(c + 2) * P < (W - 1) * P" using fin' carry by (simp add: algebra_simps)
    then have "c + 2 < W - 1" using pos by simp
    moreover have "2 powi (1 + x) = 2 * (2 powi x :: rat)" by (simp add: power_int_add)
    moreover have r': "fp_round p w s m e = sb * (P * W) + ((c + 2) * P + 0)"
      using r carry by (simp add: algebra_simps)
    ultimately show ?thesis unfolding r' using carry c0 pos by (subst key) (auto simp: c_def)
  qed
qed


section \<open>Comparisons and truncation, on the values\<close>

lemma scaled_rat:
  assumes "e0 \<le> e"
  shows "of_int (scaled s m e e0) = the (fp_rat (FFin s m e)) * 2 powi (- e0)"
proof -
  have "(2 :: rat) ^ nat (e - e0) = 2 powi (e + (- e0))"
    using assms by (simp add: power_int_def)
  also have "\<dots> = 2 powi e * 2 powi (- e0)" by (rule power_int_add) simp
  finally show ?thesis by (simp add: scaled_def)
qed

lemma scaled_less_iff:
  "scaled s m e (min e f) < scaled t n f (min e f) \<longleftrightarrow>
    the (fp_rat (FFin s m e)) < the (fp_rat (FFin t n f))"
proof -
  have "scaled s m e (min e f) < scaled t n f (min e f) \<longleftrightarrow>
      (of_int (scaled s m e (min e f)) :: rat) < of_int (scaled t n f (min e f))" by simp
  also have "\<dots> \<longleftrightarrow> the (fp_rat (FFin s m e)) * 2 powi (- min e f)
      < the (fp_rat (FFin t n f)) * 2 powi (- min e f)"
    by (simp only: scaled_rat min.cobounded1 min.cobounded2)
  also have "\<dots> \<longleftrightarrow> the (fp_rat (FFin s m e)) < the (fp_rat (FFin t n f))"
    by (subst mult_less_cancel_right_pos) simp_all
  finally show ?thesis .
qed

lemma fp_less_rat: "fp_rat x = Some a \<Longrightarrow> fp_rat y = Some b \<Longrightarrow> fp_less x y \<longleftrightarrow> a < b"
  using scaled_less_iff by (cases x; cases y) auto

lemma fp_eq_rat: "fp_rat x = Some a \<Longrightarrow> fp_rat y = Some b \<Longrightarrow> fp_eq x y \<longleftrightarrow> a = b"
proof -
  have "scaled s m e (min e f) = scaled t n f (min e f) \<longleftrightarrow>
      the (fp_rat (FFin s m e)) = the (fp_rat (FFin t n f))" for s m e t n f
    using scaled_less_iff [of s m e f t n] scaled_less_iff [of t n f e s m]
    by (simp only: min.commute [of f e]) (metis linorder_less_linear less_irrefl)
  then show "fp_rat x = Some a \<Longrightarrow> fp_rat y = Some b \<Longrightarrow> fp_eq x y \<longleftrightarrow> a = b"
    by (cases x; cases y) auto
qed

definition rat_trunc :: "rat \<Rightarrow> int" where
  "rat_trunc r = (if 0 \<le> r then \<lfloor>r\<rfloor> else - \<lfloor>- r\<rfloor>)"

lemma rat_trunc_of_int [simp]: "rat_trunc (of_int i) = i"
  by (simp add: rat_trunc_def)

lemma rat_trunc_minus: "0 \<le> z \<Longrightarrow> rat_trunc (- z) = - \<lfloor>z\<rfloor>"
  by (cases "z = 0") (simp_all add: rat_trunc_def)

lemma fp_trunc_rat:
  assumes "fp_rat x = Some r" "\<And>s m e. x = FFin s m e \<Longrightarrow> 0 \<le> m"
  shows "fp_trunc x = rat_trunc r"
proof (cases x)
  case (FFin s m e)
  have m: "0 \<le> m" using assms FFin by simp
  have fl: "(if 0 \<le> e then m * 2 ^ nat e else m div 2 ^ nat (- e)) = \<lfloor>of_int m * 2 powi e :: rat\<rfloor>"
  proof (cases "0 \<le> e")
    case True
    then have "(of_int m * 2 powi e :: rat) = of_int (m * 2 ^ nat e)" by (simp add: power_int_def)
    then have "\<lfloor>of_int m * 2 powi e :: rat\<rfloor> = m * 2 ^ nat e" by (simp only: floor_of_int)
    with True show ?thesis by simp
  next
    case False
    then have "(of_int m * 2 powi e :: rat) = of_int m / of_int (2 ^ nat (- e))"
      by (simp add: power_int_def field_simps)
    then have "\<lfloor>of_int m * 2 powi e :: rat\<rfloor> = m div 2 ^ nat (- e)" by (simp only: floor_divide_of_int_eq)
    with False show ?thesis by simp
  qed
  have nn: "(0 :: rat) \<le> of_int m * 2 powi e" using m by simp
  show ?thesis
  proof (cases s)
    case True
    then have r: "r = - (of_int m * 2 powi e)" using assms(1) FFin by simp
    then have "rat_trunc r = - \<lfloor>of_int m * 2 powi e :: rat\<rfloor>"
      using nn by (simp only: rat_trunc_minus)
    then show ?thesis using fl True FFin by simp
  next
    case False
    then have r: "r = of_int m * 2 powi e" using assms(1) FFin by simp
    then have "rat_trunc r = \<lfloor>of_int m * 2 powi e :: rat\<rfloor>" using nn by (simp only: rat_trunc_def if_True)
    then show ?thesis using fl False FFin by simp
  qed
qed (use assms in auto)

lemma fp_decode_nonneg: "0 \<le> b \<Longrightarrow> fp_decode p w b = FFin s m e \<Longrightarrow> 0 \<le> m"
  by (auto simp: fp_decode_def Let_def split: if_splits)

lemma dval_nonneg: "dval d = FFin s m e \<Longrightarrow> 0 \<le> m"
  by (auto simp: dval_def dest: fp_decode_nonneg [rotated])

lemma d_trunc_rat: "fp_rat (dval d) = Some r \<Longrightarrow> d_trunc d = rat_trunc r"
  by (auto simp: d_trunc_def intro: fp_trunc_rat dval_nonneg)


section \<open>Integers as doubles\<close>

text \<open>
  \<open>fits53 i\<close>: the integer \<open>i\<close> has at most 53 significant bits, so some double is
  exactly it. \<open>round53 i\<close> is the integer \<open>(double)i\<close> stands for.
\<close>

definition fits53 :: "int \<Rightarrow> bool" where
  "fits53 i = (\<exists>m j. \<bar>m\<bar> < 2 ^ 53 \<and> i = m * 2 ^ j)"

definition round53 :: "int \<Rightarrow> int" where
  "round53 i =
     (let n = nbits \<bar>i\<bar> in if n \<le> 53 then i else sgn i * (rne \<bar>i\<bar> (2 ^ nat (n - 53)) * 2 ^ nat (n - 53)))"

lemma fits53_small: "\<bar>i\<bar> \<le> 2 ^ 53 \<Longrightarrow> fits53 i"
proof (cases "\<bar>i\<bar> = 2 ^ 53")
  case True
  then have "i = sgn i * 2 ^ 53" by (auto simp: sgn_if)
  moreover have "\<bar>sgn i\<bar> < 2 ^ 53" by (simp add: sgn_if)
  ultimately show ?thesis unfolding fits53_def by blast
next
  case False
  assume "\<bar>i\<bar> \<le> 2 ^ 53"
  with False show ?thesis unfolding fits53_def by (intro exI [of _ i] exI [of _ 0]) simp
qed

lemma fits53_iff_dvd:
  assumes n: "53 < nbits \<bar>i\<bar>"
  shows "fits53 i \<longleftrightarrow> 2 ^ nat (nbits \<bar>i\<bar> - 53) dvd i"
proof
  assume "fits53 i"
  then obtain m j where m: "\<bar>m\<bar> < 2 ^ 53" "i = m * 2 ^ j" by (auto simp: fits53_def)
  have "\<bar>i\<bar> < 2 ^ 53 * 2 ^ j" using m by (simp add: abs_mult)
  then have "nbits \<bar>i\<bar> \<le> int (53 + j)" by (simp add: nbits_le_iff power_add del: of_nat_add)
  then have "nat (nbits \<bar>i\<bar> - 53) \<le> j" by simp
  then have "(2::int) ^ nat (nbits \<bar>i\<bar> - 53) dvd 2 ^ j" by (rule le_imp_power_dvd)
  with m show "2 ^ nat (nbits \<bar>i\<bar> - 53) dvd i" by simp
next
  assume "2 ^ nat (nbits \<bar>i\<bar> - 53) dvd i"
  then obtain m where m: "i = m * 2 ^ nat (nbits \<bar>i\<bar> - 53)" by (metis dvd_def mult.commute)
  have "\<bar>i\<bar> < 2 ^ nat (nbits \<bar>i\<bar>)" by (rule nbits_less)
  also have "(2::int) ^ nat (nbits \<bar>i\<bar>) = 2 ^ 53 * 2 ^ nat (nbits \<bar>i\<bar> - 53)"
    using n by (subst power_add [symmetric], intro arg_cong2 [where f = "(^)"]) auto
  finally have "\<bar>m\<bar> * 2 ^ nat (nbits \<bar>i\<bar> - 53) < 2 ^ 53 * 2 ^ nat (nbits \<bar>i\<bar> - 53)"
    by (subst (asm) (1) m) (simp add: abs_mult)
  then have "\<bar>m\<bar> < 2 ^ 53" by simp
  with m show "fits53 i" unfolding fits53_def by blast
qed

lemma round53_eq_iff: "round53 i = i \<longleftrightarrow> fits53 i"
proof (cases "nbits \<bar>i\<bar> \<le> 53")
  case True
  then have "\<bar>i\<bar> < 2 ^ 53" using nbits_le_iff [of "\<bar>i\<bar>" 53] by simp
  with True show ?thesis by (simp add: round53_def fits53_small)
next
  case False
  let ?d = "2 ^ nat (nbits \<bar>i\<bar> - 53) :: int"
  have "round53 i = sgn i * (rne \<bar>i\<bar> ?d * ?d)" using False by (simp add: round53_def Let_def)
  moreover have "i = sgn i * \<bar>i\<bar>" by (simp add: mult_sgn_abs)
  moreover have "sgn i \<noteq> 0" using False by (auto simp: sgn_if)
  ultimately have "round53 i = i \<longleftrightarrow> rne \<bar>i\<bar> ?d * ?d = \<bar>i\<bar>"
    by (metis mult_left_cancel)
  also have "\<dots> \<longleftrightarrow> ?d dvd i" by (simp add: rne_exact_iff)
  also have "\<dots> \<longleftrightarrow> fits53 i" using False by (simp add: fits53_iff_dvd)
  finally show ?thesis .
qed

lemma round53_abs: "\<bar>round53 i\<bar> = round53 \<bar>i\<bar>"
proof -
  have "0 \<le> rne \<bar>i\<bar> d" if "0 < d" for d
    using rne_bounds(1) [OF that, of "\<bar>i\<bar>"] that by (smt (verit) pos_imp_zdiv_nonneg_iff)
  then show ?thesis by (auto simp: round53_def Let_def abs_mult sgn_if)
qed

lemma round53_sgn: "round53 i = sgn i * \<bar>round53 i\<bar>"
  unfolding round53_abs by (simp add: round53_def Let_def mult_sgn_abs sgn_if)

lemma round53_le: "\<bar>i\<bar> \<le> 2 ^ 64 \<Longrightarrow> \<bar>round53 i\<bar> \<le> 2 ^ 64"
proof (cases "nbits \<bar>i\<bar> \<le> 53")
  case True
  moreover assume "\<bar>i\<bar> \<le> 2 ^ 64"
  ultimately show ?thesis by (simp add: round53_def)
next
  case False
  assume i: "\<bar>i\<bar> \<le> 2 ^ 64"
  let ?n = "nat (nbits \<bar>i\<bar> - 53)"
  have q: "rne \<bar>i\<bar> (2 ^ ?n) * 2 ^ ?n \<le> 2 ^ 64"
  proof (cases "\<bar>i\<bar> = 2 ^ 64")
    case True
    have "nbits (2 ^ 64) \<le> int 65" "\<not> nbits (2 ^ 64) \<le> int 64"
      by (simp_all only: nbits_le_iff) simp_all
    then have n: "?n = 12" using True by simp
    have "rne \<bar>i\<bar> (2 ^ 12) * 2 ^ 12 \<le> 2 ^ 64" using rne_exact [of "2 ^ 12" "2 ^ 52"] True by simp
    then show ?thesis by (simp only: n)
  next
    case False
    with i have "\<bar>i\<bar> < 2 ^ 64" by simp
    then have le: "nbits \<bar>i\<bar> \<le> 64" using nbits_le_iff [of "\<bar>i\<bar>" 64] by simp
    have "\<bar>i\<bar> < 2 ^ nat (nbits \<bar>i\<bar>)" by (rule nbits_less)
    also have "(2::int) ^ nat (nbits \<bar>i\<bar>) = 2 ^ 53 * 2 ^ ?n"
      using \<open>\<not> nbits \<bar>i\<bar> \<le> 53\<close> by (subst power_add [symmetric], intro arg_cong2 [where f = "(^)"]) auto
    finally have "\<bar>i\<bar> div 2 ^ ?n < 2 ^ 53" by (simp add: div_less_iff_pos)
    then have "rne \<bar>i\<bar> (2 ^ ?n) \<le> 2 ^ 53" using rne_bounds(2) [of "2 ^ ?n" "\<bar>i\<bar>"] by simp
    then have "rne \<bar>i\<bar> (2 ^ ?n) * 2 ^ ?n \<le> 2 ^ 53 * 2 ^ ?n" by simp
    also have "\<dots> \<le> (2::int) ^ 53 * 2 ^ 11" using le by (intro mult_left_mono power_increasing) auto
    finally show ?thesis by simp
  qed
  have "round53 \<bar>i\<bar> \<le> 2 ^ 64" using q False by (auto simp: round53_def Let_def sgn_if)
  then show ?thesis by (simp add: round53_abs)
qed

text \<open>A rounded pattern fits the width of its format.\<close>

lemma fp_round_range:
  assumes "0 \<le> m" "0 < p"
  shows "0 \<le> fp_round p w s m e" "fp_round p w s m e < 2 ^ (p + w)"
proof -
  have x: "0 \<le> e + fp_k p w m e - fp_emin p w" by (simp add: fp_k_def)
  have q: "0 \<le> fp_q p w m e" if "m \<noteq> 0" using fp_q_bounds(1) [of m p w e] assms that by simp
  have inf: "(2 ^ w - 1) * 2 ^ (p - 1) < (2::int) ^ (p - 1 + w)" "0 \<le> ((2::int) ^ w - 1) * 2 ^ (p - 1)"
    by (simp_all add: power_add algebra_simps)
  have pw: "(2::int) ^ (p + w) = 2 * 2 ^ (p - 1 + w)"
    using assms by (simp add: power_add power_eq_if)
  show "0 \<le> fp_round p w s m e"
    using inf(2) x q by (auto simp: fp_round_def Let_def min_def)
  show "fp_round p w s m e < 2 ^ (p + w)"
  proof -
    define inf where "inf = (2 ^ w - 1) * (2 :: int) ^ (p - 1)"
    define Q where "Q = (2 :: int) ^ (p - 1 + w)"
    have "fp_round p w s m e \<le> (if s then Q else 0) + inf"
      using inf(2) by (simp add: fp_round_def Let_def inf_def Q_def)
    moreover have "inf < Q" "0 < Q" using inf(1) by (simp_all add: inf_def Q_def)
    ultimately show ?thesis unfolding pw Q_def [symmetric] by (simp split: if_splits)
  qed
qed

lemma dval_mk_double: "0 \<le> m \<Longrightarrow> dval (mk_double s m e) = fp_decode 53 11 (fp_round 53 11 s m e)"
  using fp_round_range [of m 53 11 s e] by (simp add: dval_def mk_double_def uint_word_of_int)

theorem d_of_int_rat:
  assumes "\<bar>i\<bar> \<le> 2 ^ 64"
  shows "fp_rat (dval (d_of_int i)) = Some (of_int (round53 i))"
proof (cases "i = 0")
  case True
  have "dval (d_of_int 0) = FFin False 0 (fp_emin 53 11)" by (simp add: d_of_int_def mk_double_def
    fp_round_def dval_def fp_decode_def)
  with True show ?thesis by (simp add: round53_def)
next
  case False
  let ?m = "\<bar>i\<bar>"
  have m: "0 < ?m" using False by simp
  have emin: "fp_emin 53 11 = -1074" by (simp add: fp_emin_def)
  have k: "fp_k 53 11 ?m 0 = nbits ?m - 53"
    using nbits_pos [OF m] by (simp add: fp_k_def emin)
  have nb: "nbits ?m \<le> 65" using assms nbits_le_iff [of ?m 65] by simp
  have qle: "fp_q 53 11 ?m 0 \<le> 2 ^ 53" using fp_q_bounds(2) [OF m, of 53 11 0] by simp
  have fin: "(0 + fp_k 53 11 ?m 0 - fp_emin 53 11) * 2 ^ (53 - 1) + fp_q 53 11 ?m 0
      < (2 ^ 11 - 1) * 2 ^ (53 - 1)"
    using nb qle by (simp add: k emin)
  have val: "of_int (fp_q 53 11 ?m 0) * 2 powi (nbits ?m - 53) = (of_int \<bar>round53 i\<bar> :: rat)"
  proof (cases "nbits ?m \<le> 53")
    case True
    have "(2 :: rat) ^ nat (53 - nbits ?m) * 2 powi (nbits ?m - 53) = 1"
      using True by (auto simp: power_int_def field_simps)
    with True show ?thesis by (simp add: fp_q_def k round53_def mult.assoc)
  next
    case False
    then have "\<bar>round53 i\<bar> = rne ?m (2 ^ nat (nbits ?m - 53)) * 2 ^ nat (nbits ?m - 53)"
      using m by (simp add: round53_abs) (simp add: round53_def Let_def)
    with False show ?thesis by (simp add: fp_q_def k power_int_def)
  qed
  have "fp_rat (dval (d_of_int i)) =
      Some ((if i < 0 then -1 else 1) * of_int (fp_q 53 11 ?m 0) * 2 powi (nbits ?m - 53))"
    using fp_decode_round [OF m _ fin] by (simp add: d_of_int_def dval_mk_double k)
  also have "\<dots> = Some ((if i < 0 then -1 else 1) * of_int \<bar>round53 i\<bar>)"
    by (simp only: val mult.assoc)
  also have "(if i < 0 then -1 else 1) * of_int \<bar>round53 i\<bar> = (of_int (round53 i) :: rat)"
    by (subst (2) round53_sgn) (use False in \<open>simp add: sgn_if\<close>)
  finally show ?thesis .
qed

lemma d_trunc_of_int: "\<bar>i\<bar> \<le> 2 ^ 64 \<Longrightarrow> d_trunc (d_of_int i) = round53 i"
  by (simp add: d_trunc_rat [OF d_of_int_rat])

lemma d_of_int_small_rat: "\<bar>i\<bar> \<le> 2 ^ 63 \<Longrightarrow> fits53 i \<Longrightarrow> fp_rat (dval (d_of_int i)) = Some (of_int i)"
  using d_of_int_rat [of i] by (simp add: round53_eq_iff [symmetric])

lemma fits53_pow: "fits53 (2 ^ 63)" "fits53 (- (2 ^ 63))"
  unfolding fits53_def by (rule exI [of _ 1], rule exI [of _ 63], simp)
    (rule exI [of _ "-1"], rule exI [of _ 63], simp)

lemma d_of_int_2p63: "fp_rat (dval (d_of_int 9223372036854775808)) = Some 9223372036854775808"
  "fp_rat (dval (d_of_int (-9223372036854775808))) = Some (-9223372036854775808)"
  using d_of_int_small_rat [OF _ fits53_pow(1)] d_of_int_small_rat [OF _ fits53_pow(2)] by simp_all

lemma fp_decode_mantissa: "0 < p \<Longrightarrow> fp_decode p w b = FFin s m e \<Longrightarrow> m < 2 ^ p"
proof -
  assume "0 < p"
  then have "(2 :: int) ^ p = 2 * 2 ^ (p - 1)" by (simp add: power_eq_if)
  moreover have "b mod 2 ^ (p - 1) < 2 ^ (p - 1)" "(0 :: int) < 2 ^ (p - 1)" by simp_all
  then have "b mod 2 ^ (p - 1) < 2 * 2 ^ (p - 1)" by linarith
  moreover have "b mod 2 ^ (p - 1) + 2 ^ (p - 1) < 2 * 2 ^ (p - 1)" by simp
  ultimately show "fp_decode p w b = FFin s m e \<Longrightarrow> m < 2 ^ p"
    by (auto simp: fp_decode_def Let_def split: if_splits)
qed

text \<open>A double that is an integer has at most 53 significant bits.\<close>

lemma dval_integral_fits53:
  assumes "fp_rat (dval n) = Some (of_int i)"
  shows "fits53 i"
proof -
  obtain s m e where f: "dval n = FFin s m e" using assms by (cases "dval n") auto
  have m: "m < 2 ^ 53" using fp_decode_mantissa [of 53 11 "uint n" s m e] f by (simp add: dval_def)
  have m0: "0 \<le> m" by (rule dval_nonneg [OF f])
  define sg :: int where "sg = (if s then -1 else 1)"
  have v: "of_int sg * of_int m * 2 powi e = (of_int i :: rat)"
    using assms f by (simp add: sg_def split: if_splits)
  show ?thesis
  proof (cases "0 \<le> e")
    case True
    then have "(of_int (sg * m * 2 ^ nat e) :: rat) = of_int i" using v by (simp add: power_int_def)
    then have "i = (sg * m) * 2 ^ nat e" by (simp only: of_int_eq_iff)
    moreover have "\<bar>sg * m\<bar> < 2 ^ 53" using m m0 by (simp add: sg_def)
    ultimately show ?thesis unfolding fits53_def by blast
  next
    case False
    then have "(of_int (sg * m) :: rat) = of_int (i * 2 ^ nat (- e))"
      using v by (simp add: power_int_def field_simps)
    then have i: "sg * m = i * 2 ^ nat (- e)" by (simp only: of_int_eq_iff)
    have "\<bar>i\<bar> \<le> \<bar>i\<bar> * 2 ^ nat (- e)" by (simp add: mult_le_cancel_left1)
    also have "\<dots> = \<bar>sg * m\<bar>" by (simp add: i abs_mult)
    also have "\<dots> < 2 ^ 53" using m m0 by (simp add: sg_def)
    finally show ?thesis by (simp add: fits53_small)
  qed
qed

lemma rat_trunc_range: "- of_int k \<le> r \<Longrightarrow> r < of_int k \<Longrightarrow> - k \<le> rat_trunc r \<and> rat_trunc r < k"
proof (cases "0 \<le> r")
  case True
  moreover assume "- of_int k \<le> r" "r < of_int k"
  ultimately show ?thesis by (simp add: rat_trunc_def floor_less_iff) (smt (verit) of_int_0_le_iff order_le_less_trans of_int_0_less_iff zero_le_floor)
next
  case False
  moreover assume r: "- of_int k \<le> r" "r < of_int k"
  ultimately have "(0 :: rat) < of_int k" by linarith
  then have "0 < k" by simp
  moreover have "\<lfloor>- r\<rfloor> \<le> k" using r by (simp add: floor_le_iff)
  moreover have "0 \<le> \<lfloor>- r\<rfloor>" using False by simp
  moreover have "rat_trunc r = - \<lfloor>- r\<rfloor>" using False by (simp add: rat_trunc_def)
  ultimately show ?thesis by linarith
qed

lemma d_of_int_rat_small: "\<bar>i\<bar> \<le> 2 ^ 53 \<Longrightarrow> fp_rat (dval (d_of_int i)) = Some (of_int i)"
  by (rule d_of_int_small_rat) (auto intro: fits53_small)

lemma d_trunc_small: "\<bar>i\<bar> \<le> 2 ^ 53 \<Longrightarrow> d_trunc (d_of_int i) = i"
  using d_trunc_rat [OF d_of_int_rat_small] by simp

end
