(* ===== verification/Num53.thy ===== *)
theory Num53
  imports Ieee
begin

text \<open>
  native/luajit/oclj\_num53.h: Lua 5.3.6's reading of a value as an integer, shared by
  string.pack's arguments and the bitwise operators' operands. A string is its bytes
  (\<open>[s, s+len)\<close>). LuaJIT's numeral scanner \<open>lj_strscan_scan\<close> is not in this
  repository; it is the parameter \<open>scan\<close> of \<open>oclj_str2d\<close> (None for STRSCAN\_ERROR).
\<close>

section \<open>The conversions\<close>

text \<open>uint64 to int64, two's complement, without an implementation-defined cast.\<close>

definition oclj_u2s :: "u64 \<Rightarrow> int" where
  "oclj_u2s u = (if uint u \<le> INT64_MAX then uint u else - uint (NOT u) - 1)"

definition oclj_flt2int :: "double \<Rightarrow> int option" where
  "oclj_flt2int n =
     (if \<not> (d_le (d_of_int (-9223372036854775808)) n \<and> d_less n (d_of_int 9223372036854775808))
      then None
      else let p = d_trunc n in if d_eq (d_of_int p) n then Some p else None)"

section \<open>The character classes\<close>

definition oclj_n53_isspace :: "int \<Rightarrow> bool" where
  "oclj_n53_isspace c = (c = chr CHR '' '' \<or> 9 \<le> c \<and> c \<le> 13)"

definition oclj_n53_isdigit :: "int \<Rightarrow> bool" where
  "oclj_n53_isdigit c = (chr CHR ''0'' \<le> c \<and> c \<le> chr CHR ''9'')"

definition oclj_n53_isxdigit :: "int \<Rightarrow> bool" where
  "oclj_n53_isxdigit c =
     (oclj_n53_isdigit c \<or> chr CHR ''a'' \<le> (c OR 0x20) \<and> (c OR 0x20) \<le> chr CHR ''f'')"

definition oclj_n53_hexavalue :: "int \<Rightarrow> int" where
  "oclj_n53_hexavalue c =
     (if oclj_n53_isdigit c then c - chr CHR ''0'' else (c OR 0x20) - chr CHR ''a'' + 10)"

section \<open>l\_str2int\<close>

definition OCLJ_N53_MAXBY10 :: u64 where
  "OCLJ_N53_MAXBY10 = word_of_int (INT64_MAX div 10)"

definition OCLJ_N53_MAXLASTD :: int where
  "OCLJ_N53_MAXLASTD = INT64_MAX mod 10"

fun skip_spaces :: "byte list \<Rightarrow> byte list" where
  "skip_spaces [] = []"
| "skip_spaces (c # s) = (if oclj_n53_isspace (uint c) then skip_spaces s else c # s)"

text \<open>The optional sign: the rest of the string and \<open>neg\<close>.\<close>

fun read_sign :: "byte list \<Rightarrow> byte list \<times> bool" where
  "read_sign [] = ([], False)"
| "read_sign (c # s) =
     (if uint c = chr CHR ''-'' then (s, True)
      else if uint c = chr CHR ''+'' then (s, False) else (c # s, False))"

fun hex_prefix :: "byte list \<Rightarrow> bool" where
  "hex_prefix (c # d # s) =
     (uint c = chr CHR ''0'' \<and> (uint d = chr CHR ''x'' \<or> uint d = chr CHR ''X''))"
| "hex_prefix s = False"

text \<open>The two digit loops: the rest of the string, \<open>a\<close> and \<open>empty\<close>; None is the decimal
  loop's \<open>return 0\<close>.\<close>

fun hex_digits :: "byte list \<Rightarrow> u64 \<Rightarrow> bool \<Rightarrow> byte list \<times> u64 \<times> bool" where
  "hex_digits [] a emp = ([], a, emp)"
| "hex_digits (c # s) a emp =
     (if oclj_n53_isxdigit (uint c)
      then hex_digits s (a * 16 + word_of_int (oclj_n53_hexavalue (uint c))) False
      else (c # s, a, emp))"

fun dec_digits :: "bool \<Rightarrow> byte list \<Rightarrow> u64 \<Rightarrow> bool \<Rightarrow> (byte list \<times> u64 \<times> bool) option" where
  "dec_digits neg [] a emp = Some ([], a, emp)"
| "dec_digits neg (c # s) a emp =
     (if oclj_n53_isdigit (uint c) then
        let d = uint c - chr CHR ''0''
        in if OCLJ_N53_MAXBY10 \<le> a \<and>
              (OCLJ_N53_MAXBY10 < a \<or> d > OCLJ_N53_MAXLASTD + of_bool neg)
           then None
           else dec_digits neg s (a * 10 + word_of_int d) False
      else Some (c # s, a, emp))"

definition oclj_str2int :: "byte list \<Rightarrow> int option" where
  "oclj_str2int s0 =
     (let (s, neg) = read_sign (skip_spaces s0) in
      case (if hex_prefix s then Some (hex_digits (drop 2 s) 0 True)
            else dec_digits neg s 0 True) of
        None \<Rightarrow> None
      | Some (s', a, emp) \<Rightarrow>
          if emp \<or> skip_spaces s' \<noteq> [] then None
          else Some (oclj_u2s (if neg then 0 - a else a)))"

section \<open>l\_str2d\<close>

text \<open>The scan for the first of \<open>.xXnN\<close>: False is the early \<open>return 0\<close>.\<close>

fun str2d_ok :: "byte list \<Rightarrow> bool" where
  "str2d_ok [] = True"
| "str2d_ok (c # s) =
     (if c = 0 then False
      else if uint c = chr CHR ''.'' \<or> uint c = chr CHR ''x'' \<or> uint c = chr CHR ''X'' then True
      else if uint c = chr CHR ''n'' \<or> uint c = chr CHR ''N'' then False
      else str2d_ok s)"

fun bin_prefix :: "byte list \<Rightarrow> bool" where
  "bin_prefix (c # d # s) =
     (uint c = chr CHR ''0'' \<and> (uint d = chr CHR ''b'' \<or> uint d = chr CHR ''B''))"
| "bin_prefix s = False"

definition oclj_str2d :: "(byte list \<Rightarrow> double option) \<Rightarrow> byte list \<Rightarrow> double option" where
  "oclj_str2d scan s =
     (if \<not> str2d_ok s then None
      else if bin_prefix (fst (read_sign (skip_spaces s))) then None
      else scan s)"

section \<open>What the conversions compute\<close>

lemma oclj_u2s_sint: "oclj_u2s u = sint u"
  using uint_bounded [of u] by (auto simp: oclj_u2s_def sint_u64 uint_not_u64)

lemma flt2int_iff:
  "oclj_flt2int n = Some i \<longleftrightarrow> fp_rat (dval n) = Some (of_int i) \<and> - (2 ^ 63) \<le> i \<and> i < 2 ^ 63"
proof (cases "fp_rat (dval n)")
  case None
  let ?lo = "d_of_int (-9223372036854775808)" and ?hi = "d_of_int 9223372036854775808"
  obtain s m e t k f where lohi: "dval ?lo = FFin s m e" "dval ?hi = FFin t k f"
    using d_of_int_2p63 by (cases "dval ?lo"; cases "dval ?hi") auto
  have "\<not> (d_le ?lo n \<and> d_less n ?hi)"
    using None lohi by (cases "dval n") (auto simp: d_le_def d_less_def d_eq_def)
  with None show ?thesis by (simp add: oclj_flt2int_def)
next
  case (Some r)
  have lo: "d_le (d_of_int (-9223372036854775808)) n \<longleftrightarrow> -9223372036854775808 \<le> r"
    using Some d_of_int_2p63 by (auto simp: d_le_def d_less_def d_eq_def fp_less_rat fp_eq_rat)
  have hi: "d_less n (d_of_int 9223372036854775808) \<longleftrightarrow> r < 9223372036854775808"
    using Some d_of_int_2p63 by (simp add: d_less_def fp_less_rat)
  have tr: "d_trunc n = rat_trunc r" using Some by (rule d_trunc_rat)
  show ?thesis
  proof (cases "-9223372036854775808 \<le> r \<and> r < 9223372036854775808")
    case True
    have t: "- (2 ^ 63) \<le> rat_trunc r" "rat_trunc r < 2 ^ 63"
      using rat_trunc_range [of "2 ^ 63" r] True by simp_all
    have rt: "fp_rat (dval (d_of_int (rat_trunc r))) = Some (of_int (round53 (rat_trunc r)))"
      using t by (intro d_of_int_rat) simp
    have eq: "d_eq (d_of_int (rat_trunc r)) n \<longleftrightarrow> of_int (round53 (rat_trunc r)) = r"
      using fp_eq_rat [OF rt Some] by (simp add: d_eq_def)
    have main: "of_int (round53 (rat_trunc r)) = r \<longleftrightarrow> r = of_int (rat_trunc r)"
      using Some dval_integral_fits53 [of n "rat_trunc r"]
      by (metis rat_trunc_of_int round53_eq_iff)
    show ?thesis using True t Some by (auto simp: oclj_flt2int_def Let_def lo hi tr eq main)
  next
    case False
    with Some show ?thesis by (auto simp: oclj_flt2int_def lo hi)
  qed
qed

section \<open>The integer numerals of Lua 5.3\<close>

definition spaces :: "byte list \<Rightarrow> bool" where
  "spaces s = list_all (\<lambda>c. oclj_n53_isspace (uint c)) s"

definition signs :: "bool \<Rightarrow> byte list set" where
  "signs neg = (if neg then {[0x2D]} else {[], [0x2B]})"

abbreviation dec_digit :: "byte \<Rightarrow> bool" where
  "dec_digit c \<equiv> oclj_n53_isdigit (uint c)"

abbreviation hex_digit :: "byte \<Rightarrow> bool" where
  "hex_digit c \<equiv> oclj_n53_isxdigit (uint c)"

definition dec_value :: "int \<Rightarrow> byte list \<Rightarrow> int" where
  "dec_value v ds = foldl (\<lambda>v c. v * 10 + (uint c - 48)) v ds"

definition hex_value :: "int \<Rightarrow> byte list \<Rightarrow> int" where
  "hex_value v ds = foldl (\<lambda>v c. v * 16 + oclj_n53_hexavalue (uint c)) v ds"

definition signed_by :: "bool \<Rightarrow> int \<Rightarrow> int" where
  "signed_by neg v = (if neg then - v else v)"

text \<open>The integer numerals of Lua 5.3 and their values.\<close>

inductive lua_integer :: "byte list \<Rightarrow> int \<Rightarrow> bool" where
  Dec: "spaces sp \<Longrightarrow> sg \<in> signs neg \<Longrightarrow> ds \<noteq> [] \<Longrightarrow> list_all dec_digit ds \<Longrightarrow> spaces sp' \<Longrightarrow>
    INT64_MIN \<le> signed_by neg (dec_value 0 ds) \<Longrightarrow> signed_by neg (dec_value 0 ds) \<le> INT64_MAX \<Longrightarrow>
    lua_integer (sp @ sg @ ds @ sp') (signed_by neg (dec_value 0 ds))"
| Hex: "spaces sp \<Longrightarrow> sg \<in> signs neg \<Longrightarrow> x \<in> {0x78, 0x58} \<Longrightarrow> ds \<noteq> [] \<Longrightarrow> list_all hex_digit ds \<Longrightarrow>
    spaces sp' \<Longrightarrow>
    lua_integer (sp @ sg @ [0x30, x] @ ds @ sp')
      (sint (word_of_int (signed_by neg (hex_value 0 ds)) :: u64))"

lemma skip_spaces_append: "spaces sp \<Longrightarrow> skip_spaces (sp @ s) = skip_spaces s"
  by (induction sp) (simp_all add: spaces_def)

lemma skip_spaces_Nil_iff: "skip_spaces s = [] \<longleftrightarrow> spaces s"
  by (induction s) (simp_all add: spaces_def)

lemma skip_spaces_split: "\<exists>sp. spaces sp \<and> s = sp @ skip_spaces s"
proof (induction s)
  case (Cons c s)
  then obtain sp where "spaces sp" "s = sp @ skip_spaces s" by blast
  then show ?case
    by (cases "oclj_n53_isspace (uint c)") (auto simp: spaces_def intro: exI [of _ "c # sp"])
qed (simp add: spaces_def)

lemma read_sign_signs: "sg \<in> signs neg \<Longrightarrow> s \<noteq> [] \<Longrightarrow> uint (hd s) \<notin> {43, 45} \<Longrightarrow>
  read_sign (sg @ s) = (s, neg)"
  by (cases s) (auto simp: signs_def split: if_splits)

lemma read_sign_split: "read_sign s = (r, neg) \<Longrightarrow> \<exists>sg \<in> signs neg. s = sg @ r"
  by (cases s) (auto simp: signs_def uint_byte_eq split: if_splits)

lemma dec_value_Cons [simp]: "dec_value v (c # ds) = dec_value (v * 10 + (uint c - 48)) ds"
  by (simp add: dec_value_def)

lemma dec_value_Nil [simp]: "dec_value v [] = v"
  by (simp add: dec_value_def)

lemma hex_value_Cons [simp]: "hex_value v (c # ds) = hex_value (v * 16 + oclj_n53_hexavalue (uint c)) ds"
  by (simp add: hex_value_def)

lemma hex_value_Nil [simp]: "hex_value v [] = v"
  by (simp add: hex_value_def)

lemma dec_value_mono: "0 \<le> v \<Longrightarrow> list_all dec_digit ds \<Longrightarrow> v \<le> dec_value v ds"
proof (induction ds arbitrary: v)
  case (Cons c ds)
  have c: "48 \<le> uint c" using Cons.prems by (simp add: oclj_n53_isdigit_def)
  then have "v * 10 + (uint c - 48) \<le> dec_value (v * 10 + (uint c - 48)) ds"
    using Cons by simp
  then show ?case using c Cons.prems by simp
qed simp

lemma chr_0: "chr CHR ''0'' = 48" by simp

lemma uint_MAXBY10: "uint OCLJ_N53_MAXBY10 = 922337203685477580"
  by (simp add: OCLJ_N53_MAXBY10_def)

lemma MAXLASTD_eq: "OCLJ_N53_MAXLASTD = 7"
  by (simp add: OCLJ_N53_MAXLASTD_def)

lemma dec_overflow:
  "0 \<le> d \<Longrightarrow> d \<le> 9 \<Longrightarrow>
   (OCLJ_N53_MAXBY10 \<le> a \<and> (OCLJ_N53_MAXBY10 < a \<or> d > OCLJ_N53_MAXLASTD + of_bool neg))
     \<longleftrightarrow> uint a * 10 + d > INT64_MAX + of_bool neg"
  unfolding word_le_def word_less_def uint_MAXBY10 MAXLASTD_eq by (cases neg) (simp, linarith)+

lemma dec_digits_spec:
  assumes "uint a \<le> INT64_MAX + of_bool neg"
  shows "dec_digits neg s a emp =
    (let ds = takeWhile dec_digit s; v = dec_value (uint a) ds in
     if v \<le> INT64_MAX + of_bool neg
     then Some (dropWhile dec_digit s, word_of_int v, emp \<and> ds = []) else None)"
  using assms
proof (induction s arbitrary: a emp)
  case (Cons c s)
  show ?case
  proof (cases "dec_digit c")
    case True
    let ?d = "uint c - 48"
    have d: "0 \<le> ?d" "?d \<le> 9" using True by (simp_all add: oclj_n53_isdigit_def)
    have a0: "0 \<le> uint a" by simp
    have ovf: "(OCLJ_N53_MAXBY10 \<le> a \<and> (OCLJ_N53_MAXBY10 < a \<or> ?d > OCLJ_N53_MAXLASTD + of_bool neg))
        \<longleftrightarrow> uint a * 10 + ?d > INT64_MAX + of_bool neg"
      using d by (rule dec_overflow)
    show ?thesis
    proof (cases "uint a * 10 + ?d > INT64_MAX + of_bool neg")
      case True
      have "uint a * 10 + ?d \<le> dec_value (uint a * 10 + ?d) (takeWhile dec_digit s)"
        using d a0 by (intro dec_value_mono) (simp_all add: list_all_takeWhile)
      with True have "\<not> dec_value (uint a * 10 + ?d) (takeWhile dec_digit s) \<le> INT64_MAX + of_bool neg"
        by linarith
      with \<open>dec_digit c\<close> True ovf show ?thesis by (simp add: Let_def)
    next
      case False
      have u: "uint (a * 10 + word_of_int ?d) = uint a * 10 + ?d"
      proof -
        have "a * 10 + word_of_int ?d = word_of_int (uint a * 10 + ?d)" by simp
        moreover have "0 \<le> uint a * 10 + ?d" "uint a * 10 + ?d < 2 ^ 64"
          using False d a0 by (cases neg; simp)+
        ultimately show ?thesis by (metis uint_u64_of_int)
      qed
      have step: "dec_digits neg (c # s) a emp = dec_digits neg s (a * 10 + word_of_int ?d) False"
        by (simp only: dec_digits.simps Let_def chr_0 \<open>dec_digit c\<close> ovf False if_True if_False)
      have "dec_digits neg s (a * 10 + word_of_int ?d) False =
        (let ds = takeWhile dec_digit s; v = dec_value (uint a * 10 + ?d) ds in
         if v \<le> INT64_MAX + of_bool neg
         then Some (dropWhile dec_digit s, word_of_int v, False \<and> ds = []) else None)"
        using False Cons.IH [of "a * 10 + word_of_int ?d" False] by (simp only: u not_less)
      then show ?thesis using \<open>dec_digit c\<close> by (simp only: step) (simp add: Let_def)
    qed
  qed (simp add: Cons.prems)
qed (use assms in simp)

lemma hex_digits_spec:
  "hex_digits s a emp = (dropWhile hex_digit s,
     word_of_int (hex_value (uint a) (takeWhile hex_digit s)), emp \<and> takeWhile hex_digit s = [])"
proof (induction s arbitrary: a emp)
  case (Cons c s)
  let ?h = "oclj_n53_hexavalue (uint c)"
  have cong: "(word_of_int (hex_value v ds) :: u64) = word_of_int (hex_value w ds)"
    if "(word_of_int v :: u64) = word_of_int w" for v w ds
    using that
  proof (induction ds arbitrary: v w)
    case (Cons d ds)
    then show ?case by simp
  qed simp
  have "(word_of_int (hex_value (uint (a * 16 + word_of_int ?h)) ds) :: u64)
      = word_of_int (hex_value (uint a * 16 + ?h) ds)" for ds
    by (rule cong) simp
  then show ?case by (simp add: Cons.IH)
qed simp



lemma xdigit_range: "oclj_n53_isxdigit c \<Longrightarrow> 48 \<le> c \<and> c \<le> 57 \<or> 65 \<le> c \<and> c \<le> 70 \<or> 97 \<le> c \<and> c \<le> 102"
  by (auto simp: oclj_n53_isxdigit_def oclj_n53_isdigit_def or_32 split: if_splits)

lemma space_not_digit:
  "oclj_n53_isspace (uint c) \<Longrightarrow> \<not> dec_digit c \<and> \<not> hex_digit c"
  "dec_digit c \<Longrightarrow> hex_digit c"
  "hex_digit c \<Longrightarrow> \<not> oclj_n53_isspace (uint c) \<and> c \<noteq> 0x2B \<and> c \<noteq> 0x2D \<and> c \<noteq> 0x58 \<and> c \<noteq> 0x78"
  by (auto simp: oclj_n53_isspace_def oclj_n53_isdigit_def dest!: xdigit_range)
    (simp add: oclj_n53_isxdigit_def oclj_n53_isdigit_def)

lemma spaces_takeWhile:
  "spaces s \<Longrightarrow> takeWhile dec_digit s = [] \<and> takeWhile hex_digit s = []"
  by (cases s) (simp_all add: spaces_def space_not_digit(1))

lemma signed_word: "oclj_u2s (if neg then 0 - word_of_int v else word_of_int v)
    = sint (word_of_int (signed_by neg v) :: u64)"
  by (simp add: oclj_u2s_sint signed_by_def)

text \<open>The prefix both forms share: what is left after the spaces and the sign.\<close>

lemma str2int_prefix:
  assumes "spaces sp" "sg \<in> signs neg" "list_all hex_digit ds" "ds \<noteq> []"
  shows "read_sign (skip_spaces (sp @ sg @ ds @ r)) = (ds @ r, neg)"
proof -
  obtain c ds' where ds: "ds = c # ds'" "hex_digit c" using assms by (cases ds) auto
  have "skip_spaces (sg @ ds @ r) = sg @ ds @ r"
    using assms ds space_not_digit(3) [of c]
    by (auto simp: signs_def oclj_n53_isspace_def split: if_splits)
  moreover have "read_sign (sg @ ds @ r) = (ds @ r, neg)"
    using assms(2) ds space_not_digit(3) [of c] by (intro read_sign_signs) (auto simp: uint_byte_eq)
  ultimately show ?thesis using assms(1) by (simp add: skip_spaces_append)
qed


lemma hex_prefix_dec: "list_all dec_digit ds \<Longrightarrow> ds \<noteq> [] \<Longrightarrow> spaces r \<Longrightarrow> \<not> hex_prefix (ds @ r)"
proof (induction "ds @ r" rule: hex_prefix.induct)
  case (1 c d s)
  have "oclj_n53_isspace (uint d) \<or> dec_digit d"
    using 1 by (cases ds; cases "tl ds") (auto simp: spaces_def)
  then show ?case
    by (simp only: 1(1) [symmetric] hex_prefix.simps)
      (auto simp: oclj_n53_isspace_def oclj_n53_isdigit_def)
qed (auto, metis hex_prefix.simps(3))

lemma lua_integer_read: "lua_integer s i \<Longrightarrow> oclj_str2int s = Some i"
proof (induction rule: lua_integer.induct)
  case (Dec sp sg neg ds sp')
  have hx: "list_all hex_digit ds" using Dec(4) by (auto simp: list_all_iff space_not_digit(2))
  have rs: "read_sign (skip_spaces (sp @ sg @ ds @ sp')) = (ds @ sp', neg)"
    using Dec hx by (intro str2int_prefix)
  have tw: "takeWhile dec_digit (ds @ sp') = ds" "dropWhile dec_digit (ds @ sp') = sp'"
    using Dec by (simp_all add: takeWhile_append_all spaces_takeWhile)
  have v: "dec_value 0 ds \<le> INT64_MAX + of_bool neg"
    using Dec(6,7) by (cases neg) (simp_all add: signed_by_def)
  have "dec_digits neg (ds @ sp') 0 True = Some (sp', word_of_int (dec_value 0 ds), False)"
    using dec_digits_spec [of 0 neg "ds @ sp'" True] v Dec(3) by (simp add: Let_def tw)
  then have "oclj_str2int (sp @ sg @ ds @ sp')
      = Some (oclj_u2s (if neg then 0 - word_of_int (dec_value 0 ds) else word_of_int (dec_value 0 ds)))"
    using Dec hex_prefix_dec [of ds sp']
    by (simp only: oclj_str2int_def Let_def rs prod.case option.case if_False skip_spaces_Nil_iff) simp
  also have "\<dots> = Some (signed_by neg (dec_value 0 ds))"
    using Dec(6,7) by (simp only: signed_word) (simp add: sint_u64_of_int)
  finally show ?case .
next
  case (Hex sp sg neg x ds sp')
  have hx: "list_all hex_digit [0x30]" by (simp add: oclj_n53_isxdigit_def oclj_n53_isdigit_def)
  have rs: "read_sign (skip_spaces (sp @ sg @ [0x30] @ (x # ds @ sp'))) = ([0x30] @ (x # ds @ sp'), neg)"
    using Hex hx by (intro str2int_prefix) simp_all
  have tw: "takeWhile hex_digit (ds @ sp') = ds" "dropWhile hex_digit (ds @ sp') = sp'"
    using Hex by (simp_all add: takeWhile_append_all spaces_takeWhile)
  have "hex_digits (ds @ sp') 0 True = (sp', word_of_int (hex_value 0 ds), False)"
    using hex_digits_spec [of "ds @ sp'" 0 True] Hex(4) by (simp add: tw)
  moreover have "hex_prefix ([0x30] @ (x # ds @ sp'))" using Hex(3) by auto
  ultimately have "oclj_str2int (sp @ sg @ [0x30] @ (x # ds @ sp'))
      = Some (oclj_u2s (if neg then 0 - word_of_int (hex_value 0 ds) else word_of_int (hex_value 0 ds)))"
    using Hex(6)
    by (simp only: oclj_str2int_def Let_def rs prod.case option.case if_True skip_spaces_Nil_iff) simp
  then show ?case by (simp only: signed_word) simp
qed

lemma read_lua_integer:
  assumes "oclj_str2int s = Some i"
  shows "lua_integer s i"
proof -
  obtain sp where sp: "spaces sp" "s = sp @ skip_spaces s" using skip_spaces_split by blast
  obtain r neg where rs: "read_sign (skip_spaces s) = (r, neg)" by (cases "read_sign (skip_spaces s)")
  then obtain sg where sg: "sg \<in> signs neg" "s = sp @ sg @ r"
    using read_sign_split sp by metis
  show ?thesis
  proof (cases "hex_prefix r")
    case True
    then obtain x t where r: "r = [0x30, x] @ t" "x \<in> {0x78, 0x58}"
      by (cases r rule: hex_prefix.cases) (auto simp: uint_byte_eq)
    define ds where "ds = takeWhile hex_digit t"
    have t: "t = ds @ dropWhile hex_digit t" by (simp add: ds_def)
    have "hex_digits t 0 True = (dropWhile hex_digit t, word_of_int (hex_value 0 ds), ds = [])"
      using hex_digits_spec [of t 0 True] by (simp add: ds_def)
    then have "ds \<noteq> []" "spaces (dropWhile hex_digit t)"
      "i = sint (word_of_int (signed_by neg (hex_value 0 ds)) :: u64)"
      using assms rs True r
      by (simp_all add: oclj_str2int_def signed_word [symmetric] skip_spaces_Nil_iff split: if_splits)
    moreover have "list_all hex_digit ds" by (simp add: ds_def list_all_takeWhile)
    ultimately show ?thesis
      using Hex [OF sp(1) sg(1) r(2), of ds "dropWhile hex_digit t"] sg(2) r(1) t by simp
  next
    case False
    define ds where "ds = takeWhile dec_digit r"
    have t: "r = ds @ dropWhile dec_digit r" by (simp add: ds_def)
    have ld: "list_all dec_digit ds" by (simp add: ds_def list_all_takeWhile)
    have "dec_digits neg r 0 True = (if dec_value 0 ds \<le> INT64_MAX + of_bool neg
      then Some (dropWhile dec_digit r, word_of_int (dec_value 0 ds), ds = []) else None)"
      using dec_digits_spec [of 0 neg r True] by (simp add: ds_def Let_def)
    then have c: "ds \<noteq> []" "spaces (dropWhile dec_digit r)" "dec_value 0 ds \<le> INT64_MAX + of_bool neg"
      "i = sint (word_of_int (signed_by neg (dec_value 0 ds)) :: u64)"
      using assms rs False
      by (simp_all add: oclj_str2int_def signed_word [symmetric] skip_spaces_Nil_iff split: if_splits)
    have "0 \<le> dec_value 0 ds" using dec_value_mono [of 0 ds] ld by simp
    then have b: "INT64_MIN \<le> signed_by neg (dec_value 0 ds)" "signed_by neg (dec_value 0 ds) \<le> INT64_MAX"
      using c(3) by (cases neg; simp add: signed_by_def)+
    then have "i = signed_by neg (dec_value 0 ds)" using c(4) by (simp add: sint_u64_of_int)
    then show ?thesis
      using Dec [OF sp(1) sg(1) c(1) ld c(2) b] sg(2) t by simp
  qed
qed

section \<open>The properties\<close>

text \<open>A double is accepted as an integer exactly when it is one, in [-2^63, 2^63), and the
  integer returned is its value; NaN, the infinities, fractions and 2^63 itself are refused.\<close>

theorem flt2int_exact:
  "oclj_flt2int n = Some i \<longleftrightarrow> fp_rat (dval n) = Some (of_int i) \<and> - (2 ^ 63) \<le> i \<and> i < 2 ^ 63"
  by (rule flt2int_iff)

text \<open>C14: the reading of a string as an integer is exactly Lua 5.3's grammar: spaces, a sign, and
  either decimal digits whose signed value fits int64 (one that does not is refused here, and
  is read as a float) or a hexadecimal numeral of any length, which wraps modulo 2^64.\<close>

theorem str2int_numerals: "oclj_str2int s = Some i \<longleftrightarrow> lua_integer s i"
  by (blast intro: lua_integer_read read_lua_integer)

end
