(* ===== verification/Strpack.thy ===== *)
theory Strpack
  imports Num53
begin

text \<open>
  native/luajit/oclj\_strpack.c: string.pack, string.packsize and string.unpack. The format is the
  bytes not read yet (\<open>[fmt, fe)\<close>); the Lua stack is the list of argument slots, 1-based as
  in the API. What LuaJIT decides is in the record \<open>pk_env\<close>: its numeral scanner, its
  number formatting, a value's \<open>__name\<close>, the interned-string limit, the NaN it pushes, and
  whether an allocation and a stack growth succeed. A C \<open>int\<close> is an \<open>int\<close> (the bounds
  that keep it in range are lemmas), \<open>size_t\<close> positions of unpack are 64-bit words.
\<close>

section \<open>Values, errors, the environment\<close>

datatype lval = LNone | LNil | LNum double | LStr "byte list" | LOther bool string

text \<open>\<open>LOther light tname\<close>: any other value, whether it is a light userdata, and its type name.\<close>

datatype pk_msg =
    Expected string string
  | Msg string
  | SizeLimits int int
  | MissingSize
  | BadNextOption
  | BadOption int
  | BadOptionCode int
  | NotFit int

text \<open>\<open>luaL_argerror\<close>, \<open>luaL_error\<close>, \<open>lua_error\<close> of a plain string, LUA\_ERRMEM, and
  (never raised by the code, see the lemmas) a read outside the data string.\<close>

datatype pk_err = ErrArg int pk_msg | ErrLua pk_msg | ErrRaw pk_msg | ErrMem | OutOfBounds

record pk_env =
  env_scan :: "byte list \<Rightarrow> double option"
  env_tostring :: "double \<Rightarrow> byte list"
  env_name :: "lval \<Rightarrow> string option"
  env_max_str :: int
  env_nan :: double
  env_alloc :: "int \<Rightarrow> bool"
  env_stack :: "int \<Rightarrow> bool"

definition PK_MAXINTSIZE :: int where "PK_MAXINTSIZE = 16"
definition PK_SZINT :: int where "PK_SZINT = 8"
definition PK_MAXSIZE :: int where "PK_MAXSIZE = INT_MAX"
definition PK_STACKBUF :: int where "PK_STACKBUF = 512"
definition PK_MAXALIGN :: int where "PK_MAXALIGN = 8"

text \<open>\<open>PK_MAXALIGN\<close> is the offset of an 8-byte member after a char, on x86\_64; the machine is
  little-endian (\<open>pk_nativeendian\<close>).\<close>

definition pk_nativeendian :: bool where "pk_nativeendian = True"

record pk_header =
  islittle :: bool
  maxalign :: int

datatype pk_koption =
  Kint | Kuint | Kfloat | Kchar | Kstring | Kzstr | Kpadding | Kpaddalign | Knop

section \<open>Argument conversions\<close>

definition arg_at :: "lval list \<Rightarrow> int \<Rightarrow> lval" where
  "arg_at args i = (if 1 \<le> i \<and> i \<le> int (length args) then args ! nat (i - 1) else LNone)"

definition luaL_typename :: "lval \<Rightarrow> string" where
  "luaL_typename v = (case v of LNone \<Rightarrow> ''no value'' | LNil \<Rightarrow> ''nil'' | LNum _ \<Rightarrow> ''number''
     | LStr _ \<Rightarrow> ''string'' | LOther _ t \<Rightarrow> t)"

definition pk_typeerror :: "pk_env \<Rightarrow> lval list \<Rightarrow> int \<Rightarrow> string \<Rightarrow> pk_err" where
  "pk_typeerror env args i tname =
     (let v = arg_at args i in
      ErrArg i (Expected tname
        (case env_name env v of
           Some n \<Rightarrow> n
         | None \<Rightarrow> (case v of LOther True _ \<Rightarrow> ''light userdata'' | _ \<Rightarrow> luaL_typename v))))"

text \<open>\<open>lua_tolstring\<close> converts a number in its stack slot.\<close>

definition pk_checklstring :: "pk_env \<Rightarrow> lval list \<Rightarrow> int \<Rightarrow> pk_err + (byte list \<times> lval list)" where
  "pk_checklstring env args i =
     (case arg_at args i of
        LStr s \<Rightarrow> Inr (s, args)
      | LNum n \<Rightarrow> (let s = env_tostring env n in Inr (s, args[nat (i - 1) := LStr s]))
      | _ \<Rightarrow> Inl (pk_typeerror env args i ''string''))"

datatype pk_num = PkNone | PkInt int | PkFlt double

definition pk_tonum :: "pk_env \<Rightarrow> lval list \<Rightarrow> int \<Rightarrow> pk_num" where
  "pk_tonum env args i =
     (case arg_at args i of
        LNum n \<Rightarrow> PkFlt n
      | LStr s \<Rightarrow>
          (case oclj_str2int s of
             Some j \<Rightarrow> PkInt j
           | None \<Rightarrow> (case oclj_str2d (env_scan env) s of Some n \<Rightarrow> PkFlt n | None \<Rightarrow> PkNone))
      | _ \<Rightarrow> PkNone)"

definition pk_checkint :: "pk_env \<Rightarrow> lval list \<Rightarrow> int \<Rightarrow> pk_err + int" where
  "pk_checkint env args i =
     (case pk_tonum env args i of
        PkInt j \<Rightarrow> Inr j
      | PkFlt n \<Rightarrow>
          (case oclj_flt2int n of
             Some j \<Rightarrow> Inr j
           | None \<Rightarrow> Inl (ErrArg i (Msg ''number has no integer representation'')))
      | PkNone \<Rightarrow> Inl (pk_typeerror env args i ''number''))"

definition pk_checknumber :: "pk_env \<Rightarrow> lval list \<Rightarrow> int \<Rightarrow> pk_err + double" where
  "pk_checknumber env args i =
     (case pk_tonum env args i of
        PkInt j \<Rightarrow> Inr (d_of_int j)
      | PkFlt n \<Rightarrow> Inr n
      | PkNone \<Rightarrow> Inl (pk_typeerror env args i ''number''))"

definition pk_optint :: "pk_env \<Rightarrow> lval list \<Rightarrow> int \<Rightarrow> int \<Rightarrow> pk_err + int" where
  "pk_optint env args i d =
     (case arg_at args i of LNone \<Rightarrow> Inr d | LNil \<Rightarrow> Inr d | _ \<Rightarrow> pk_checkint env args i)"

section \<open>The format language\<close>

definition pk_peek :: "byte list \<Rightarrow> int" where
  "pk_peek fmt = (case fmt of [] \<Rightarrow> 0 | c # _ \<Rightarrow> uint c)"

definition pk_digit :: "int \<Rightarrow> bool" where
  "pk_digit c = (chr CHR ''0'' \<le> c \<and> c \<le> chr CHR ''9'')"

text \<open>The do-while loop of \<open>pk_getnum\<close>: the number and the rest of the format.\<close>

fun pk_getnum_loop :: "byte list \<Rightarrow> int \<Rightarrow> int \<times> byte list" where
  "pk_getnum_loop [] a = (a, [])"
| "pk_getnum_loop (c # fmt) a =
     (let a' = a * 10 + (uint c - chr CHR ''0'') in
      if pk_digit (pk_peek fmt) \<and> a' \<le> (PK_MAXSIZE - 9) div 10 then pk_getnum_loop fmt a'
      else (a', fmt))"

definition pk_getnum :: "byte list \<Rightarrow> int \<Rightarrow> int \<times> byte list" where
  "pk_getnum fmt df = (if \<not> pk_digit (pk_peek fmt) then (df, fmt) else pk_getnum_loop fmt 0)"

definition pk_getnumlimit :: "byte list \<Rightarrow> int \<Rightarrow> pk_err + (int \<times> byte list)" where
  "pk_getnumlimit fmt df =
     (let (sz, fmt') = pk_getnum fmt df in
      if sz > PK_MAXINTSIZE \<or> sz \<le> 0 then Inl (ErrLua (SizeLimits sz PK_MAXINTSIZE))
      else Inr (sz, fmt'))"

definition pk_initheader :: pk_header where
  "pk_initheader = \<lparr>islittle = pk_nativeendian, maxalign = 1\<rparr>"

text \<open>The option read: its kind, its size, the header and the rest of the format. (At the end of the
  format C would read the terminator; the code never calls it there.)\<close>

definition pk_getoption ::
  "pk_header \<Rightarrow> byte list \<Rightarrow> pk_err + (pk_koption \<times> int \<times> pk_header \<times> byte list)" where
  "pk_getoption h fmt0 =
     (let opt = pk_peek fmt0; fmt = tl fmt0;
          is = (\<lambda>c. opt = chr c);
          fixed = (\<lambda>k sz. Inr (k, sz, h, fmt));
          limited = (\<lambda>k df. ebind (pk_getnumlimit fmt df) (\<lambda>(sz, fmt'). Inr (k, sz, h, fmt')))
      in if is CHR ''b'' then fixed Kint 1
         else if is CHR ''B'' then fixed Kuint 1
         else if is CHR ''h'' then fixed Kint 2
         else if is CHR ''H'' then fixed Kuint 2
         else if is CHR ''l'' then fixed Kint PK_SZINT
         else if is CHR ''L'' then fixed Kuint PK_SZINT
         else if is CHR ''j'' then fixed Kint PK_SZINT
         else if is CHR ''J'' then fixed Kuint PK_SZINT
         else if is CHR ''T'' then fixed Kuint 8
         else if is CHR ''f'' then fixed Kfloat 4
         else if is CHR ''d'' then fixed Kfloat 8
         else if is CHR ''n'' then fixed Kfloat 8
         else if is CHR ''i'' then limited Kint 4
         else if is CHR ''I'' then limited Kuint 4
         else if is CHR ''s'' then limited Kstring 8
         else if is CHR ''c'' then
           (let (sz, fmt') = pk_getnum fmt (-1) in
            if sz = -1 then Inl (ErrLua MissingSize)
            else Inr (Kchar, sz, h, fmt'))
         else if is CHR ''z'' then fixed Kzstr 0
         else if is CHR ''x'' then fixed Kpadding 1
         else if is CHR ''X'' then fixed Kpaddalign 0
         else if is CHR '' '' then fixed Knop 0
         else if is CHR ''<'' then Inr (Knop, 0, h\<lparr>islittle := True\<rparr>, fmt)
         else if is CHR ''>'' then Inr (Knop, 0, h\<lparr>islittle := False\<rparr>, fmt)
         else if is CHR ''='' then Inr (Knop, 0, h\<lparr>islittle := pk_nativeendian\<rparr>, fmt)
         else if is CHR ''!'' then
           ebind (pk_getnumlimit fmt PK_MAXALIGN) (\<lambda>(sz, fmt'). Inr (Knop, 0, h\<lparr>maxalign := sz\<rparr>, fmt'))
         else if 0x20 \<le> opt \<and> opt \<le> 0x7e then Inl (ErrLua (BadOption opt))
         else Inl (ErrLua (BadOptionCode opt)))"

text \<open>\<open>pk_getdetails\<close>, in its three steps: the option, the size its alignment follows
  (\<open>X\<close> reads the next option for it), the padding.\<close>

definition pk_getalign ::
  "pk_header \<Rightarrow> pk_koption \<Rightarrow> int \<Rightarrow> byte list \<Rightarrow> pk_err + (int \<times> pk_header \<times> byte list)" where
  "pk_getalign h opt sz fmt =
     (if opt = Kpaddalign then
        if pk_peek fmt = 0 then Inl (ErrArg 1 BadNextOption)
        else ebind (pk_getoption h fmt) (\<lambda>(opt2, align, h, fmt).
               if opt2 = Kchar \<or> align = 0 then Inl (ErrArg 1 BadNextOption)
               else Inr (align, h, fmt))
      else Inr (sz, h, fmt))"

definition pk_ntoalign :: "pk_header \<Rightarrow> pk_koption \<Rightarrow> int \<Rightarrow> int \<Rightarrow> pk_err + int" where
  "pk_ntoalign h opt align0 totalsize =
     (if align0 \<le> 1 \<or> opt = Kchar then Inr 0
      else
        let align = (if align0 > maxalign h then maxalign h else align0) in
        if align AND (align - 1) \<noteq> 0
        then Inl (ErrArg 1 (Msg ''format asks for alignment not power of 2''))
        else Inr ((align - (totalsize AND (align - 1))) AND (align - 1)))"

definition pk_getdetails ::
  "pk_header \<Rightarrow> int \<Rightarrow> byte list \<Rightarrow> pk_err + (pk_koption \<times> int \<times> int \<times> pk_header \<times> byte list)" where
  "pk_getdetails h totalsize fmt =
     ebind (pk_getoption h fmt) (\<lambda>(opt, sz, h, fmt).
     ebind (pk_getalign h opt sz fmt) (\<lambda>(align, h, fmt).
     ebind (pk_ntoalign h opt align totalsize) (\<lambda>na.
     Inr (opt, sz, na, h, fmt))))"

section \<open>pack\<close>

text \<open>The scratch block: its bytes, how many are filled, its size.\<close>

record pk_out =
  out_b :: "byte list"
  out_n :: int
  out_cap :: int

definition mismatch :: pk_err where
  "mismatch = ErrLua (Msg ''string.pack: internal error (output size mismatch)'')"

text \<open>\<open>pk_room\<close> returns the offset of the next \<open>k\<close> bytes; \<open>store\<close> fills bytes there.\<close>

definition pk_room :: "pk_out \<Rightarrow> int \<Rightarrow> pk_err + (int \<times> pk_out)" where
  "pk_room out k =
     (if k > out_cap out - out_n out then Inl mismatch
      else Inr (out_n out, out\<lparr>out_n := out_n out + k\<rparr>))"

definition store :: "pk_out \<Rightarrow> int \<Rightarrow> byte list \<Rightarrow> pk_out" where
  "store out p bs =
     out\<lparr>out_b := take (nat p) (out_b out) @ bs @ drop (nat p + length bs) (out_b out)\<rparr>"

text \<open>Pass 1 has no block (None): nothing is written.\<close>

definition pk_emit :: "pk_out option \<Rightarrow> int \<Rightarrow> byte list \<Rightarrow> pk_err + pk_out option" where
  "pk_emit o1 k bs =
     (case o1 of
        None \<Rightarrow> Inr None
      | Some out \<Rightarrow> ebind (pk_room out k) (\<lambda>(p, out). Inr (Some (store out p bs))))"

text \<open>\<open>pk_packint\<close>: the loop writes byte \<open>i\<close> of the value at index \<open>i\<close> or \<open>size - 1 - i\<close>.\<close>

definition pk_at :: "bool \<Rightarrow> nat \<Rightarrow> nat \<Rightarrow> nat" where
  "pk_at little sz i = (if little then i else sz - 1 - i)"

function pk_packint_loop :: "byte list \<Rightarrow> u64 \<Rightarrow> bool \<Rightarrow> nat \<Rightarrow> nat \<Rightarrow> byte list" where
  "pk_packint_loop buff n little sz i =
     (if i < sz then
        let n = drop_bit 8 n in
        pk_packint_loop (buff[pk_at little sz i := ucast n]) n little sz (Suc i)
      else buff)"
  by auto
termination by (relation "measure (\<lambda>(_, _, _, sz, i). sz - i)") auto

function pk_signext_loop :: "byte list \<Rightarrow> bool \<Rightarrow> nat \<Rightarrow> nat \<Rightarrow> byte list" where
  "pk_signext_loop buff little sz i =
     (if i < sz then pk_signext_loop (buff[pk_at little sz i := 0xFF]) little sz (Suc i)
      else buff)"
  by auto
termination by (relation "measure (\<lambda>(_, _, sz, i). sz - i)") auto

declare pk_packint_loop.simps [simp del] pk_signext_loop.simps [simp del]

definition pk_packint :: "u64 \<Rightarrow> bool \<Rightarrow> nat \<Rightarrow> bool \<Rightarrow> byte list" where
  "pk_packint n little sz neg =
     (let buff = (replicate sz 0)[pk_at little sz 0 := ucast n];
          buff = pk_packint_loop buff n little sz 1
      in if neg \<and> sz > 8 then pk_signext_loop buff little sz 8 else buff)"

definition pk_copywithendian :: "byte list \<Rightarrow> bool \<Rightarrow> byte list" where
  "pk_copywithendian src little = (if little = pk_nativeendian then src else rev src)"

definition bytes_of_double :: "double \<Rightarrow> byte list" where
  "bytes_of_double n = word_bytes 8 n"

definition bytes_of_float :: "float32 \<Rightarrow> byte list" where
  "bytes_of_float f = word_bytes 4 f"

text \<open>The state of \<open>pk_walk\<close>'s loop.\<close>

record pk_state =
  st_h :: pk_header
  st_fmt :: "byte list"
  st_arg :: int
  st_total :: int
  st_args :: "lval list"
  st_out :: "pk_out option"

text \<open>One option of the switch: \<open>arg\<close> is already incremented.\<close>

definition pk_option ::
  "pk_env \<Rightarrow> pk_koption \<Rightarrow> int \<Rightarrow> pk_state \<Rightarrow> pk_err + pk_state" where
  "pk_option env opt sz st =
     (let arg = st_arg st; args = st_args st; little = islittle (st_h st);
          emit = (\<lambda>k bs. ebind (pk_emit (st_out st) k bs) (\<lambda>o1. Inr (st\<lparr>st_out := o1\<rparr>)))
      in case opt of
        Kint \<Rightarrow>
          ebind (pk_checkint env args arg) (\<lambda>n.
          ebind (if sz < PK_SZINT then
                   let lim = 2 ^ nat (sz * 8 - 1)
                   in require (- lim \<le> n \<and> n < lim) (ErrArg arg (Msg ''integer overflow''))
                 else Inr ()) (\<lambda>_.
          emit sz (pk_packint (word_of_int n) little (nat sz) (n < 0))))
      | Kuint \<Rightarrow>
          ebind (pk_checkint env args arg) (\<lambda>n.
          ebind (if sz < PK_SZINT then
                   require ((word_of_int n :: u64) < push_bit (nat (sz * 8)) 1)
                     (ErrArg arg (Msg ''unsigned overflow''))
                 else Inr ()) (\<lambda>_.
          emit sz (pk_packint (word_of_int n) little (nat sz) False)))
      | Kfloat \<Rightarrow>
          ebind (pk_checknumber env args arg) (\<lambda>n.
          emit sz (pk_copywithendian
            (if sz = 4 then bytes_of_float (d_to_float n) else bytes_of_double n) little))
      | Kchar \<Rightarrow>
          ebind (pk_checklstring env args arg) (\<lambda>(s, args).
          ebind (require (int (length s) \<le> sz) (ErrArg arg (Msg ''string longer than given size''))) (\<lambda>_.
          ebind (emit sz (s @ replicate (nat sz - length s) 0)) (\<lambda>st.
          Inr (st\<lparr>st_args := args\<rparr>))))
      | Kstring \<Rightarrow>
          ebind (pk_checklstring env args arg) (\<lambda>(s, args).
          let len = int (length s) in
          ebind (require (sz \<ge> 8 \<or> len < 2 ^ nat (sz * 8))
                   (ErrArg arg (Msg ''string length does not fit in given size''))) (\<lambda>_.
          ebind (emit (sz + len) (pk_packint (word_of_int len) little (nat sz) False @ s)) (\<lambda>st.
          Inr (st\<lparr>st_total := st_total st + len, st_args := args\<rparr>))))
      | Kzstr \<Rightarrow>
          ebind (pk_checklstring env args arg) (\<lambda>(s, args).
          let len = int (length s) in
          ebind (require (0 \<notin> set s) (ErrArg arg (Msg ''string contains zeros''))) (\<lambda>_.
          ebind (emit (len + 1) (s @ [0])) (\<lambda>st.
          Inr (st\<lparr>st_total := st_total st + len + 1, st_args := args\<rparr>))))
      | Kpadding \<Rightarrow> ebind (emit 1 [0]) (\<lambda>st. Inr (st\<lparr>st_arg := arg - 1\<rparr>))
      | Kpaddalign \<Rightarrow> Inr (st\<lparr>st_arg := arg - 1\<rparr>)
      | Knop \<Rightarrow> Inr (st\<lparr>st_arg := arg - 1\<rparr>))"

text \<open>One iteration of \<open>pk_walk\<close>'s loop.\<close>

definition pk_step :: "pk_env \<Rightarrow> pk_state \<Rightarrow> pk_err + pk_state" where
  "pk_step env st =
     ebind (pk_getdetails (st_h st) (st_total st) (st_fmt st)) (\<lambda>(opt, sz, ntoalign, h, fmt).
     ebind (if ntoalign > 0 then pk_emit (st_out st) ntoalign (replicate (nat ntoalign) 0)
            else Inr (st_out st)) (\<lambda>o1.
     pk_option env opt sz
       (st\<lparr>st_h := h, st_fmt := fmt, st_total := st_total st + ntoalign + sz, st_out := o1,
           st_arg := st_arg st + 1\<rparr>)))"

lemma getnum_loop_le: "length (snd (pk_getnum_loop fmt a)) \<le> length fmt"
  by (induction fmt a rule: pk_getnum_loop.induct) (auto simp: Let_def intro: le_SucI)

lemma getnum_le: "pk_getnum fmt df = (v, fmt') \<Longrightarrow> length fmt' \<le> length fmt"
  using getnum_loop_le [of fmt 0] by (auto simp: pk_getnum_def split: if_splits)

lemma getnumlimit_le: "pk_getnumlimit fmt df = Inr (v, fmt') \<Longrightarrow> length fmt' \<le> length fmt"
  by (auto simp: pk_getnumlimit_def Let_def dest: getnum_le split: prod.splits if_splits)

lemma getoption_shorter:
  "pk_getoption h fmt = Inr (opt, sz, h', fmt') \<Longrightarrow> fmt \<noteq> [] \<Longrightarrow> length fmt' < length fmt"
  by (auto simp: pk_getoption_def Let_def less_Suc_eq_le neq_Nil_conv
      dest!: getnum_le getnumlimit_le split: prod.splits if_splits)

lemma getalign_shorter:
  "pk_getalign h opt sz fmt = Inr (align, h', fmt') \<Longrightarrow> length fmt' \<le> length fmt"
  using getoption_shorter [of h fmt]
  by (fastforce simp: pk_getalign_def pk_peek_def split: if_splits list.splits)

lemma getdetails_shorter:
  "pk_getdetails h t fmt = Inr (opt, sz, na, h', fmt') \<Longrightarrow> fmt \<noteq> [] \<Longrightarrow> length fmt' < length fmt"
  by (auto simp: pk_getdetails_def dest!: getoption_shorter getalign_shorter)

lemma pk_option_fmt: "pk_option env opt sz st = Inr st' \<Longrightarrow> st_fmt st' = st_fmt st"
  by (cases opt) (auto simp: pk_option_def Let_def split: prod.splits)

lemma pk_step_shorter:
  "pk_step env st = Inr st' \<Longrightarrow> pk_peek (st_fmt st) \<noteq> 0 \<Longrightarrow> length (st_fmt st') < length (st_fmt st)"
  by (auto simp: pk_step_def pk_peek_def dest!: getdetails_shorter pk_option_fmt split: list.splits)

function pk_loop :: "pk_env \<Rightarrow> pk_state \<Rightarrow> pk_err + pk_state" where
  "pk_loop env st =
     (if pk_peek (st_fmt st) = 0 then Inr st else ebind (pk_step env st) (pk_loop env))"
  by auto
termination by (relation "measure (\<lambda>(_, st). length (st_fmt st))") (auto dest: pk_step_shorter)

declare pk_loop.simps [simp del]

definition pk_walk ::
  "pk_env \<Rightarrow> lval list \<Rightarrow> byte list \<Rightarrow> pk_out option \<Rightarrow> pk_err + (int \<times> lval list \<times> pk_out option)" where
  "pk_walk env args fmt o1 =
     ebind (pk_loop env \<lparr>st_h = pk_initheader, st_fmt = fmt, st_arg = 1, st_total = 0,
                         st_args = args, st_out = o1\<rparr>)
       (\<lambda>st. Inr (st_total st, st_args st, st_out st))"

text \<open>The mark pushed after the arguments, and the block's userdata above it, are stack slots the
  walk could read.\<close>

definition oclj_strpack_pack :: "pk_env \<Rightarrow> lval list \<Rightarrow> pk_err + lval" where
  "oclj_strpack_pack env args0 =
     ebind (pk_checklstring env args0 1) (\<lambda>(fmt, args1).
     ebind (pk_walk env (args1 @ [LNil]) fmt None) (\<lambda>(total, args2, _).
     if total \<ge> env_max_str env then Inl (ErrLua (Msg ''not enough memory for buffer allocation''))
     else
       ebind (if total \<le> PK_STACKBUF then Inr args2
              else ebind (require (env_alloc env total) ErrMem)
                     (\<lambda>_. Inr (args2 @ [LOther False ''userdata'']))) (\<lambda>args3.
       ebind (pk_walk env args3 fmt
                (Some \<lparr>out_b = replicate (nat total) 0, out_n = 0, out_cap = total\<rparr>)) (\<lambda>(_, _, o1).
       case o1 of
         None \<Rightarrow> Inl mismatch
       | Some out \<Rightarrow>
           if out_n out \<noteq> out_cap out then Inl mismatch
           else ebind (require (env_alloc env (out_cap out)) ErrMem) (\<lambda>_. Inr (LStr (out_b out)))))))"

function pk_size_loop :: "pk_header \<Rightarrow> int \<Rightarrow> byte list \<Rightarrow> pk_err + int" where
  "pk_size_loop h totalsize fmt =
     (if pk_peek fmt = 0 then Inr totalsize
      else ebind (pk_getdetails h totalsize fmt) (\<lambda>(opt, sz, ntoalign, h', fmt').
           let sz' = sz + ntoalign in
           if \<not> totalsize \<le> PK_MAXSIZE - sz' then Inl (ErrArg 1 (Msg ''format result too large''))
           else if opt = Kstring \<or> opt = Kzstr then Inl (ErrArg 1 (Msg ''variable-length format''))
           else pk_size_loop h' (totalsize + sz') fmt'))"
  by auto
termination
  by (relation "measure (\<lambda>(_, _, fmt). length fmt)")
    (auto dest!: getdetails_shorter simp: pk_peek_def split: list.splits)

declare pk_size_loop.simps [simp del]

definition lua_pushnumber :: "pk_env \<Rightarrow> double \<Rightarrow> lval" where
  "lua_pushnumber env n = LNum (if d_isnan n then env_nan env else n)"

definition oclj_strpack_packsize :: "pk_env \<Rightarrow> lval list \<Rightarrow> pk_err + lval" where
  "oclj_strpack_packsize env args =
     ebind (pk_checklstring env args 1) (\<lambda>(fmt, _).
     ebind (pk_size_loop pk_initheader 0 fmt) (\<lambda>total.
     Inr (lua_pushnumber env (d_of_int total))))"

section \<open>unpack\<close>

text \<open>The byte loop, from byte \<open>limit - 1\<close> down to 0.\<close>

fun pk_unpack_loop :: "byte list \<Rightarrow> bool \<Rightarrow> nat \<Rightarrow> nat \<Rightarrow> u64 \<Rightarrow> u64" where
  "pk_unpack_loop str little sz 0 res = res"
| "pk_unpack_loop str little sz (Suc i) res =
     pk_unpack_loop str little sz i (push_bit 8 res OR ucast (str ! pk_at little sz i))"

definition pk_unpackint :: "byte list \<Rightarrow> bool \<Rightarrow> nat \<Rightarrow> bool \<Rightarrow> pk_err + int" where
  "pk_unpackint str little sz issigned =
     (let limit = (if sz \<le> 8 then sz else 8);
          res = pk_unpack_loop str little sz limit 0
      in if sz < 8 then
           Inr (oclj_u2s
             (if issigned then let mask = push_bit (sz * 8 - 1) 1 in (res XOR mask) - mask else res))
         else if sz > 8 then
           let mask = (if \<not> issigned \<or> oclj_u2s res \<ge> 0 then 0 else 0xFF) in
           if list_all (\<lambda>i. str ! pk_at little sz i = mask) [limit ..< sz] then Inr (oclj_u2s res)
           else Inl (ErrLua (NotFit (int sz)))
         else Inr (oclj_u2s res))"

definition pk_posrelat :: "int \<Rightarrow> int \<Rightarrow> int" where
  "pk_posrelat pos len =
     (if 0 \<le> pos then pos else if uint (0 - word_of_int pos :: u64) > len then 0 else len + pos + 1)"

text \<open>The reads of the data string: \<open>k\<close> bytes at \<open>pos\<close>.\<close>

definition rd :: "byte list \<Rightarrow> u64 \<Rightarrow> u64 \<Rightarrow> pk_err + byte list" where
  "rd data pos k =
     (case span_at data (unat pos) (unat k) of None \<Rightarrow> Inl OutOfBounds | Some bs \<Rightarrow> Inr bs)"

definition double_of_bytes :: "byte list \<Rightarrow> double" where
  "double_of_bytes bs = word_of_bytes bs"

definition float_of_bytes :: "byte list \<Rightarrow> float32" where
  "float_of_bytes bs = word_of_bytes bs"

record un_state =
  un_h :: pk_header
  un_fmt :: "byte list"
  un_pos :: u64
  un_res :: "lval list"

definition too_short :: pk_err where
  "too_short = ErrArg 2 (Msg ''data string too short'')"

text \<open>The switch: the values pushed, and the position after the item's variable part.\<close>

definition un_option ::
  "pk_env \<Rightarrow> byte list \<Rightarrow> pk_koption \<Rightarrow> nat \<Rightarrow> bool \<Rightarrow> u64 \<Rightarrow> pk_err + (lval list \<times> u64)" where
  "un_option env data opt sz little pos =
     (let ld = word_of_nat (length data); w = word_of_nat sz in
      case opt of
        Kint \<Rightarrow>
          ebind (rd data pos w) (\<lambda>str. ebind (pk_unpackint str little sz True) (\<lambda>res.
          Inr ([lua_pushnumber env (d_of_int res)], pos)))
      | Kuint \<Rightarrow>
          ebind (rd data pos w) (\<lambda>str. ebind (pk_unpackint str little sz False) (\<lambda>res.
          Inr ([lua_pushnumber env (d_of_int res)], pos)))
      | Kfloat \<Rightarrow>
          ebind (rd data pos w) (\<lambda>str.
          Inr ([lua_pushnumber env
                  (if sz = 4 then float_to_d (float_of_bytes (pk_copywithendian str little))
                   else double_of_bytes (pk_copywithendian str little))], pos))
      | Kchar \<Rightarrow> ebind (rd data pos w) (\<lambda>str. Inr ([LStr str], pos))
      | Kstring \<Rightarrow>
          ebind (rd data pos w) (\<lambda>str. ebind (pk_unpackint str little sz False) (\<lambda>n.
          let len = word_of_int n in
          if len > ld - pos - w then
            (if len > - 1 - pos - w then Inl (ErrRaw (Msg ''memory allocation error: block too big''))
             else Inl too_short)
          else ebind (rd data (pos + w) len) (\<lambda>s. Inr ([LStr s], pos + len))))
      | Kzstr \<Rightarrow>
          ebind (rd data pos (ld - pos)) (\<lambda>rest.
          let s = takeWhile (\<lambda>c. c \<noteq> 0) rest in
          Inr ([LStr s], pos + word_of_nat (length s) + 1))
      | Kpadding \<Rightarrow> Inr ([], pos)
      | Kpaddalign \<Rightarrow> Inr ([], pos)
      | Knop \<Rightarrow> Inr ([], pos))"

definition un_step :: "pk_env \<Rightarrow> byte list \<Rightarrow> un_state \<Rightarrow> pk_err + un_state" where
  "un_step env data st =
     ebind (pk_getdetails (un_h st) (uint (un_pos st)) (un_fmt st)) (\<lambda>(opt, sz, ntoalign, h, fmt).
     let pos = un_pos st; a = word_of_int ntoalign; w = word_of_int sz in
     if a + w > NOT pos \<or> pos + a + w > word_of_nat (length data) then Inl too_short
     else if \<not> env_stack env (int (length (un_res st)) + 2) then Inl (ErrLua (Msg ''stack overflow (too many results)''))
     else
       ebind (un_option env data opt (nat sz) (islittle h) (pos + a)) (\<lambda>(vs, pos').
       Inr \<lparr>un_h = h, un_fmt = fmt, un_pos = pos' + w, un_res = un_res st @ vs\<rparr>))"

lemma un_step_shorter:
  "un_step env data st = Inr st' \<Longrightarrow> pk_peek (un_fmt st) \<noteq> 0 \<Longrightarrow> length (un_fmt st') < length (un_fmt st)"
  by (auto simp: un_step_def pk_peek_def Let_def dest!: getdetails_shorter split: list.splits if_splits)

function un_loop :: "pk_env \<Rightarrow> byte list \<Rightarrow> un_state \<Rightarrow> pk_err + un_state" where
  "un_loop env data st =
     (if pk_peek (un_fmt st) = 0 then Inr st else ebind (un_step env data st) (un_loop env data))"
  by auto
termination by (relation "measure (\<lambda>(_, _, st). length (un_fmt st))") (auto dest: un_step_shorter)

declare un_loop.simps [simp del]

definition oclj_strpack_unpack :: "pk_env \<Rightarrow> lval list \<Rightarrow> pk_err + lval list" where
  "oclj_strpack_unpack env args0 =
     ebind (pk_checklstring env args0 1) (\<lambda>(fmt, args1).
     ebind (pk_checklstring env args1 2) (\<lambda>(data, args2).
     ebind (pk_optint env args2 3 1) (\<lambda>i.
     let pos = word_of_int (pk_posrelat i (int (length data))) - 1 in
     ebind (require (pos \<le> word_of_nat (length data))
              (ErrArg 3 (Msg ''initial position out of string''))) (\<lambda>_.
     ebind (un_loop env data \<lparr>un_h = pk_initheader, un_fmt = fmt, un_pos = pos, un_res = []\<rparr>) (\<lambda>st.
     Inr (un_res st @ [lua_pushnumber env (d_of_int (uint (un_pos st + 1)))]))))))"

section \<open>The integer codec\<close>

lemma pk_at_less: "i < sz \<Longrightarrow> pk_at little sz i < sz"
  by (auto simp: pk_at_def)

lemma pk_at_inj: "i < sz \<Longrightarrow> j < sz \<Longrightarrow> pk_at little sz i = pk_at little sz j \<longleftrightarrow> i = j"
  by (auto simp: pk_at_def)

lemma pk_at_nth: "length str = sz \<Longrightarrow> i < sz \<Longrightarrow> str ! pk_at little sz i = (if little then str else rev str) ! i"
  by (simp add: pk_at_def rev_nth)

lemma packint_loop_nth:
  "length buff = sz \<Longrightarrow> length (pk_packint_loop buff n little sz i) = sz \<and>
   (\<forall>j < sz. pk_packint_loop buff n little sz i ! pk_at little sz j =
      (if i \<le> j then ucast (drop_bit (8 * Suc (j - i)) n) else buff ! pk_at little sz j))"
proof (induction buff n little sz i rule: pk_packint_loop.induct)
  case (1 buff n little sz i)
  show ?case
  proof (cases "i < sz")
    case True
    have s: "drop_bit (8 * Suc (j - Suc i)) (drop_bit 8 n) = drop_bit (8 * Suc (j - i)) n" if "i < j" for j
    proof -
      have "8 * Suc (j - Suc i) + 8 = 8 * Suc (j - i)" using that by simp
      then show ?thesis by (simp only: drop_bit_drop_bit)
    qed
    show ?thesis
      using 1 True s
      by (subst (1 2) pk_packint_loop.simps) (auto simp: Let_def nth_list_update pk_at_inj pk_at_less)
  qed (use 1 in \<open>simp add: pk_packint_loop.simps [of buff n little sz i]\<close>)
qed

lemma signext_loop_nth:
  "length buff = sz \<Longrightarrow> length (pk_signext_loop buff little sz i) = sz \<and>
   (\<forall>j < sz. pk_signext_loop buff little sz i ! pk_at little sz j =
      (if i \<le> j then 0xFF else buff ! pk_at little sz j))"
proof (induction buff little sz i rule: pk_signext_loop.induct)
  case (1 buff little sz i)
  show ?case
  proof (cases "i < sz")
    case True
    then show ?thesis using 1
      by (subst (1 2) pk_signext_loop.simps) (auto simp: nth_list_update pk_at_inj pk_at_less)
  qed (use 1 in \<open>simp add: pk_signext_loop.simps [of buff little sz i]\<close>)
qed

definition ext_bytes :: "u64 \<Rightarrow> nat \<Rightarrow> bool \<Rightarrow> byte list" where
  "ext_bytes n sz neg =
     map (\<lambda>j. if neg \<and> 8 \<le> j then 0xFF else ucast (drop_bit (8 * j) n)) [0 ..< sz]"

lemma length_ext_bytes [simp]: "length (ext_bytes n sz neg) = sz"
  by (simp add: ext_bytes_def)

lemma packint_eq:
  assumes "0 < sz"
  shows "pk_packint n little sz neg = (if little then ext_bytes n sz neg else rev (ext_bytes n sz neg))"
proof -
  let ?b = "(replicate sz 0)[pk_at little sz 0 := ucast n]"
  let ?p = "pk_packint_loop ?b n little sz 1"
  have p: "length ?p = sz" "j < sz \<Longrightarrow> ?p ! pk_at little sz j = ucast (drop_bit (8 * j) n)" for j
    using packint_loop_nth [of ?b sz n little 1] assms
    by (auto simp: pk_at_inj pk_at_less Suc_le_eq split: if_splits)
  let ?r = "pk_packint n little sz neg"
  have r: "length ?r = sz \<and> (\<forall>j < sz. ?r ! pk_at little sz j = ext_bytes n sz neg ! j)"
    using p signext_loop_nth [of ?p sz little 8] by (auto simp: pk_packint_def Let_def ext_bytes_def)
  have "(if little then ?r else rev ?r) = ext_bytes n sz neg"
    using r pk_at_nth [of ?r sz _ little] by (intro nth_equalityI) (auto simp: ext_bytes_def)
  then show ?thesis by (metis rev_rev_ident)
qed

lemma length_packint [simp]: "0 < sz \<Longrightarrow> length (pk_packint n little sz neg) = sz"
  by (simp add: packint_eq ext_bytes_def)

lemma word_of_bytes_append:
  "word_of_bytes (xs @ ys) = word_of_bytes xs + 256 ^ length xs * word_of_bytes ys"
  by (induction xs) (simp_all add: algebra_simps)

lemma push_or_byte: "push_bit 8 w OR ucast (b :: byte) = 256 * w + (ucast b :: u64)"
proof -
  have "push_bit 8 w AND (ucast b :: u64) = 0"
    by (rule bit_eqI) (auto simp: bit_simps dest: bit_imp_le_length)
  then have "push_bit 8 w OR ucast b = push_bit 8 w + (ucast b :: u64)" by (rule disjunctive_add_eq_or [symmetric])
  then show ?thesis by (simp add: push_bit_eq_mult)
qed

lemma unpack_loop_eq:
  assumes "length str = sz" "i \<le> sz"
  shows "pk_unpack_loop str little sz i res =
    256 ^ i * res + word_of_bytes (take i (if little then str else rev str))"
  using assms(2)
proof (induction i arbitrary: res)
  case (Suc i)
  let ?bs = "if little then str else rev str"
  have "take (Suc i) ?bs = take i ?bs @ [?bs ! i]" using Suc.prems assms(1)
    by (intro take_Suc_conv_app_nth) simp
  then show ?case using Suc assms
    by (simp add: push_or_byte pk_at_nth word_of_bytes_append algebra_simps)
qed simp


text \<open>The first bytes of the extended value are its low bytes.\<close>

lemma map_drop_bytes: "map (\<lambda>j. ucast (drop_bit (8 * j) n)) [0 ..< k] = word_bytes k (n :: u64)"
proof (induction k arbitrary: n)
  case (Suc k)
  have "map (\<lambda>j. ucast (drop_bit (8 * j) n) :: byte) [Suc 0 ..< Suc k]
      = map (\<lambda>j. ucast (drop_bit (8 * j) (drop_bit 8 n))) [0 ..< k]"
    by (simp only: map_Suc_upt [symmetric] map_map) (simp add: drop_bit_drop_bit add.commute)
  then show ?case using Suc.IH [of "drop_bit 8 n"]
    by (simp add: upt_conv_Cons del: upt_Suc)
qed simp

lemma take_ext_bytes: "k \<le> sz \<Longrightarrow> k \<le> 8 \<Longrightarrow> take k (ext_bytes n sz neg) = word_bytes k n"
  by (simp add: ext_bytes_def take_map take_upt map_drop_bytes [symmetric])

lemma ext_bytes_nth: "8 \<le> j \<Longrightarrow> j < sz \<Longrightarrow> ext_bytes n sz neg ! j = (if neg then 0xFF else 0)"
proof -
  assume j: "8 \<le> j" "j < sz"
  have "drop_bit (8 * j) n = 0"
    by (rule bit_eqI) (use j in \<open>auto simp: bit_simps dest: bit_imp_le_length\<close>)
  then show ?thesis using j by (simp add: ext_bytes_def)
qed

lemma unpack_of_packint:
  assumes "0 < sz"
  shows "pk_unpack_loop (pk_packint n little sz neg) little sz (min sz 8) 0
    = (if sz < 8 then take_bit (8 * sz) n else n)"
  using assms take_ext_bytes [of sz sz n neg] unpack_loop_eq [of "pk_packint n little sz neg" sz "min sz 8" little 0]
  by (auto simp: packint_eq take_ext_bytes word_of_bytes_word_bytes min_def)

text \<open>Sign extension by the xor-and-subtract of the code.\<close>

lemma xor_sub_signext:
  assumes m: "m < 63" and i: "- (2 ^ m) \<le> i" "i < 2 ^ m"
  shows "(take_bit (Suc m) (word_of_int i) XOR push_bit m 1) - push_bit m 1 = (word_of_int i :: u64)"
proof -
  let ?x = "take_bit (Suc m) (word_of_int i) :: u64"
  have x: "?x = word_of_int (i mod 2 ^ Suc m)"
    by (simp only: take_bit_eq_mod [symmetric] take_bit_of_int)
  have pos: "i mod 2 ^ Suc m = (if 0 \<le> i then i else i + 2 ^ Suc m)"
  proof (cases "0 \<le> i")
    case False
    have "i mod 2 ^ Suc m = (i + 2 ^ Suc m) mod 2 ^ Suc m" by simp
    also have "\<dots> = i + 2 ^ Suc m" using i False by (intro mod_pos_pos_trivial) simp_all
    finally show ?thesis using False by simp
  qed (use i in simp)
  have b: "bit ?x m \<longleftrightarrow> i < 0"
  proof -
    have "bit ?x m \<longleftrightarrow> bit (i mod 2 ^ Suc m) m" using m by (simp only: x bit_word_of_int_iff) simp
    also have "\<dots> \<longleftrightarrow> odd ((i mod 2 ^ Suc m) div 2 ^ m)" by (rule bit_iff_odd)
    also have "\<dots> \<longleftrightarrow> i < 0"
    proof (cases "0 \<le> i")
      case False
      have "(i + 2 ^ Suc m) div 2 ^ m = 1" using i False by (intro int_div_pos_eq [of _ _ _ "i + 2 ^ m"]) simp_all
      then show ?thesis using False by (simp only: pos if_False) simp
    qed (use i in \<open>simp add: pos\<close>)
    finally show ?thesis .
  qed
  have fl: "?x XOR push_bit m 1 = ?x + (if bit ?x m then - (push_bit m 1) else push_bit m 1)"
  proof (cases "bit ?x m")
    case True
    have "unset_bit m ?x = ?x - push_bit m 1" using True by (simp add: unset_bit_eq push_bit_eq_mult)
    moreover have "?x XOR push_bit m 1 = unset_bit m ?x"
      using True flip_bit_eq_if [of m ?x] by (simp only: flip_bit_eq_xor if_True)
    ultimately show ?thesis using True by simp
  next
    case False
    have "set_bit m ?x = ?x + push_bit m 1" using False by (simp add: set_bit_eq push_bit_eq_mult)
    moreover have "?x XOR push_bit m 1 = set_bit m ?x"
      using False flip_bit_eq_if [of m ?x] by (simp only: flip_bit_eq_xor if_False)
    ultimately show ?thesis using False by simp
  qed
  show ?thesis
  proof (cases "0 \<le> i")
    case True
    have "?x = word_of_int i" using True by (simp only: x pos if_True)
    then show ?thesis using True b fl by simp
  next
    case False
    have "?x = word_of_int (i + 2 ^ Suc m)" using False by (simp only: x pos if_False)
    then have "?x XOR push_bit m 1 = word_of_int (i + 2 ^ Suc m) - push_bit m 1"
      using False b fl by simp
    then show ?thesis by (simp add: push_bit_eq_mult)
  qed
qed

lemma unpackint_packint_signed:
  assumes "0 < sz" "- (2 ^ 63) \<le> i" "i < 2 ^ 63"
    and "sz < 8 \<Longrightarrow> - (2 ^ (8 * sz - 1)) \<le> i \<and> i < 2 ^ (8 * sz - 1)"
  shows "pk_unpackint (pk_packint (word_of_int i) little sz (i < 0)) little sz True = Inr i"
proof -
  let ?n = "word_of_int i :: u64" and ?b = "pk_packint (word_of_int i) little sz (i < 0)"
  have r: "pk_unpack_loop ?b little sz (min sz 8) 0 = (if sz < 8 then take_bit (8 * sz) ?n else ?n)"
    using assms(1) by (rule unpack_of_packint)
  have s: "oclj_u2s ?n = i" using assms by (simp add: oclj_u2s_sint sint_u64_of_int)
  consider "sz < 8" | "sz = 8" | "8 < sz" by linarith
  then show ?thesis
  proof cases
    case 1
    have "Suc (8 * sz - 1) = 8 * sz" using assms(1) by simp
    then have "(take_bit (8 * sz) ?n XOR push_bit (8 * sz - 1) 1) - push_bit (8 * sz - 1) 1 = ?n"
      using xor_sub_signext [of "8 * sz - 1" i] 1 assms by simp
    then show ?thesis using 1 r s by (simp add: pk_unpackint_def Let_def min_def mult.commute)
  next
    case 2
    then show ?thesis using r s by (simp add: pk_unpackint_def)
  next
    case 3
    have "?b ! pk_at little sz j = (if i < 0 then 0xFF else 0)" if "8 \<le> j" "j < sz" for j
      using that pk_at_nth [of ?b sz j little] by (simp add: packint_eq ext_bytes_nth)
    then show ?thesis using 3 r s by (auto simp: pk_unpackint_def Let_def list_all_iff)
  qed
qed

lemma unpackint_packint_unsigned:
  assumes "0 < sz" "- (2 ^ 63) \<le> i" "i < 2 ^ 63"
    and "sz < 8 \<Longrightarrow> 0 \<le> i \<and> i < 2 ^ (8 * sz)"
  shows "pk_unpackint (pk_packint (word_of_int i) little sz False) little sz False = Inr i"
proof -
  let ?n = "word_of_int i :: u64" and ?b = "pk_packint (word_of_int i) little sz False"
  have r: "pk_unpack_loop ?b little sz (min sz 8) 0 = (if sz < 8 then take_bit (8 * sz) ?n else ?n)"
    using assms(1) by (rule unpack_of_packint)
  have s: "oclj_u2s ?n = i" using assms by (simp add: oclj_u2s_sint sint_u64_of_int)
  consider "sz < 8" | "sz = 8" | "8 < sz" by linarith
  then show ?thesis
  proof cases
    case 1
    have "take_bit (8 * sz) ?n = ?n"
      using 1 assms by (simp add: take_bit_of_int take_bit_int_eq_self)
    then show ?thesis using 1 r s by (simp add: pk_unpackint_def Let_def min_def)
  next
    case 2
    then show ?thesis using r s by (simp add: pk_unpackint_def)
  next
    case 3
    have "?b ! pk_at little sz j = 0" if "8 \<le> j" "j < sz" for j
      using that pk_at_nth [of ?b sz j little] by (simp add: packint_eq ext_bytes_nth)
    then show ?thesis using 3 r s by (auto simp: pk_unpackint_def Let_def list_all_iff)
  qed
qed

section \<open>The format's bounds\<close>

lemma getnum_loop_bounds:
  "0 \<le> a \<Longrightarrow> a \<le> (PK_MAXSIZE - 9) div 10 \<Longrightarrow> pk_digit (pk_peek fmt) \<Longrightarrow>
   0 \<le> fst (pk_getnum_loop fmt a) \<and> fst (pk_getnum_loop fmt a) \<le> 2147483639"
proof (induction fmt a rule: pk_getnum_loop.induct)
  case (2 c fmt a)
  have "48 \<le> uint c" "uint c \<le> 57" using "2.prems" by (simp_all add: pk_digit_def pk_peek_def)
  then have "0 \<le> a * 10 + (uint c - 48)" "a * 10 + (uint c - 48) \<le> 2147483639"
    using "2.prems" by (simp_all add: PK_MAXSIZE_def)
  then show ?case using 2 by (auto simp: Let_def)
qed (simp add: PK_MAXSIZE_def)

lemma getnum_bounds:
  "pk_getnum fmt df = (v, fmt') \<Longrightarrow> v = df \<or> 0 \<le> v \<and> v \<le> 2147483639"
  using getnum_loop_bounds [of 0 fmt] by (auto simp: pk_getnum_def PK_MAXSIZE_def split: if_splits)

lemma getnumlimit_bounds: "pk_getnumlimit fmt df = Inr (v, fmt') \<Longrightarrow> 1 \<le> v \<and> v \<le> 16"
  by (auto simp: pk_getnumlimit_def PK_MAXINTSIZE_def split: prod.splits if_splits)

text \<open>The sizes an option can have, and the maximum alignment a header can hold.\<close>

fun opt_ok :: "pk_koption \<Rightarrow> int \<Rightarrow> bool" where
  "opt_ok Kint sz = (1 \<le> sz \<and> sz \<le> 16)"
| "opt_ok Kuint sz = (1 \<le> sz \<and> sz \<le> 16)"
| "opt_ok Kstring sz = (1 \<le> sz \<and> sz \<le> 16)"
| "opt_ok Kfloat sz = (sz = 4 \<or> sz = 8)"
| "opt_ok Kchar sz = (0 \<le> sz \<and> sz \<le> 2147483639)"
| "opt_ok Kpadding sz = (sz = 1)"
| "opt_ok _ sz = (sz = 0)"

lemma getoption_ok:
  assumes "pk_getoption h fmt = Inr (opt, sz, h', fmt')"
  shows "opt_ok opt sz \<and> (h' = h \<or> (\<exists>l. h' = h\<lparr>islittle := l\<rparr>) \<or> (\<exists>m. 1 \<le> m \<and> m \<le> 16 \<and> h' = h\<lparr>maxalign := m\<rparr>))"
  using assms
  by (auto simp: pk_getoption_def Let_def PK_SZINT_def dest!: getnum_bounds getnumlimit_bounds
      split: prod.splits if_splits)

lemma opt_ok_align: "opt_ok opt sz \<Longrightarrow> opt \<noteq> Kchar \<Longrightarrow> 0 \<le> sz \<and> sz \<le> 16"
  by (cases opt) auto

lemma getoption_hdr: "pk_getoption h fmt = Inr (opt, sz, h', fmt') \<Longrightarrow> 1 \<le> maxalign h \<Longrightarrow> 1 \<le> maxalign h'"
  by (drule getoption_ok) auto

lemma getalign_ok:
  assumes "pk_getalign h opt sz fmt = Inr (align, h', fmt')" "opt_ok opt sz" "1 \<le> maxalign h"
  shows "1 \<le> maxalign h' \<and> (opt = Kchar \<or> align \<le> 16)"
proof (cases "opt = Kpaddalign")
  case True
  then obtain opt2 where g: "pk_getoption h fmt = Inr (opt2, align, h', fmt')" "opt2 \<noteq> Kchar"
    using assms(1) by (auto simp: pk_getalign_def split: if_splits)
  then show ?thesis using getoption_hdr [OF g(1) assms(3)] getoption_ok [OF g(1)] opt_ok_align [of opt2 align] by simp
next
  case False
  then show ?thesis using assms opt_ok_align [of opt sz] by (auto simp: pk_getalign_def)
qed

lemma ntoalign_ok:
  assumes "pk_ntoalign h opt align t = Inr na" "1 \<le> maxalign h" "opt = Kchar \<or> align \<le> 16"
  shows "0 \<le> na \<and> na \<le> 15 \<and> (opt = Kchar \<longrightarrow> na = 0)"
proof -
  have "0 \<le> x AND (a - 1) \<and> x AND (a - 1) \<le> 15" if "1 \<le> a" "a \<le> 16" for x a :: int
    using AND_upper2 [of "a - 1" x] that by (simp add: and_nonnegative_int_iff)
  then show ?thesis using assms by (auto simp: pk_ntoalign_def Let_def split: if_splits)
qed

lemma getdetails_ok:
  assumes "pk_getdetails h t fmt = Inr (opt, sz, na, h', fmt')" "1 \<le> maxalign h"
  shows "opt_ok opt sz" "0 \<le> na" "na \<le> 15" "opt = Kchar \<Longrightarrow> na = 0" "1 \<le> maxalign h'"
proof -
  obtain h1 fmt1 al where
    1: "pk_getoption h fmt = Inr (opt, sz, h1, fmt1)" and
    2: "pk_getalign h1 opt sz fmt1 = Inr (al, h', fmt')" and
    3: "pk_ntoalign h' opt al t = Inr na"
    using assms(1) by (auto simp: pk_getdetails_def)
  show ok: "opt_ok opt sz" using getoption_ok [OF 1] by simp
  have 4: "1 \<le> maxalign h' \<and> (opt = Kchar \<or> al \<le> 16)"
    using getalign_ok [OF 2 ok] getoption_hdr [OF 1 assms(2)] by blast
  then show "1 \<le> maxalign h'" by simp
  show "0 \<le> na" "na \<le> 15" "opt = Kchar \<Longrightarrow> na = 0" using ntoalign_ok [OF 3] 4 by blast+
qed

end
