(* ===== verification/StrpackSpec.thy ===== *)
theory StrpackSpec
  imports Strpack
begin

text \<open>
  What string.pack promises, stated without its buffer, its two passes or its argument stack,
  and the proofs that oclj\_strpack.c keeps it: the packed string is the concatenation of the
  items' encodings, and unpack reads the same items back.
\<close>

section \<open>The specification\<close>

definition int_of_arg :: "pk_env \<Rightarrow> lval \<Rightarrow> int option" where
  "int_of_arg env v =
     (case v of
        LNum n \<Rightarrow> oclj_flt2int n
      | LStr s \<Rightarrow>
          (case oclj_str2int s of
             Some j \<Rightarrow> Some j
           | None \<Rightarrow> (case oclj_str2d (env_scan env) s of Some n \<Rightarrow> oclj_flt2int n | None \<Rightarrow> None))
      | _ \<Rightarrow> None)"

definition num_of_arg :: "pk_env \<Rightarrow> lval \<Rightarrow> double option" where
  "num_of_arg env v =
     (case v of
        LNum n \<Rightarrow> Some n
      | LStr s \<Rightarrow>
          (case oclj_str2int s of Some j \<Rightarrow> Some (d_of_int j) | None \<Rightarrow> oclj_str2d (env_scan env) s)
      | _ \<Rightarrow> None)"

definition str_of_arg :: "pk_env \<Rightarrow> lval \<Rightarrow> byte list option" where
  "str_of_arg env v = (case v of LNum n \<Rightarrow> Some (env_tostring env n) | LStr s \<Rightarrow> Some s | _ \<Rightarrow> None)"

text \<open>One item: its bytes, the value unpack gives for them, and the argument as pack leaves it in its
  stack slot. None: the argument is refused.\<close>

definition pk_enc :: "pk_env \<Rightarrow> pk_koption \<Rightarrow> nat \<Rightarrow> bool \<Rightarrow> lval \<Rightarrow> (byte list \<times> lval \<times> lval) option" where
  "pk_enc env opt sz little v =
     (case opt of
        Kint \<Rightarrow>
          (case int_of_arg env v of None \<Rightarrow> None | Some n \<Rightarrow>
             if sz < 8 \<and> \<not> (- (2 ^ (8 * sz - 1)) \<le> n \<and> n < 2 ^ (8 * sz - 1)) then None
             else Some (pk_packint (word_of_int n) little sz (n < 0), lua_pushnumber env (d_of_int n), v))
      | Kuint \<Rightarrow>
          (case int_of_arg env v of None \<Rightarrow> None | Some n \<Rightarrow>
             if sz < 8 \<and> \<not> (0 \<le> n \<and> n < 2 ^ (8 * sz)) then None
             else Some (pk_packint (word_of_int n) little sz False, lua_pushnumber env (d_of_int n), v))
      | Kfloat \<Rightarrow>
          (case num_of_arg env v of None \<Rightarrow> None | Some n \<Rightarrow>
             Some (pk_copywithendian (if sz = 4 then bytes_of_float (d_to_float n) else bytes_of_double n) little,
                   lua_pushnumber env (if sz = 4 then float_to_d (d_to_float n) else n), v))
      | Kchar \<Rightarrow>
          (case str_of_arg env v of None \<Rightarrow> None | Some s \<Rightarrow>
             if sz < length s then None
             else let p = s @ replicate (sz - length s) 0 in Some (p, LStr p, LStr s))
      | Kstring \<Rightarrow>
          (case str_of_arg env v of None \<Rightarrow> None | Some s \<Rightarrow>
             if sz < 8 \<and> \<not> int (length s) < 2 ^ (8 * sz) then None
             else Some (pk_packint (word_of_nat (length s)) little sz False @ s, LStr s, LStr s))
      | Kzstr \<Rightarrow>
          (case str_of_arg env v of None \<Rightarrow> None | Some s \<Rightarrow>
             if 0 \<in> set s then None else Some (s @ [0], LStr s, LStr s))
      | _ \<Rightarrow> None)"

definition takes_arg :: "pk_koption \<Rightarrow> bool" where
  "takes_arg opt = (opt \<notin> {Kpadding, Kpaddalign, Knop})"

text \<open>\<open>packs env h t fmt vs vs' out rs\<close>: at offset \<open>t\<close> and under header \<open>h\<close>, the rest \<open>fmt\<close> of a format
  packs exactly the values \<open>vs\<close> (left as \<open>vs'\<close>) into \<open>out\<close>, which unpacks as \<open>rs\<close>.\<close>

inductive packs ::
  "pk_env \<Rightarrow> pk_header \<Rightarrow> nat \<Rightarrow> byte list \<Rightarrow> lval list \<Rightarrow> lval list \<Rightarrow> byte list \<Rightarrow> lval list \<Rightarrow> bool"
  for env where
  Done: "pk_peek fmt = 0 \<Longrightarrow> packs env h t fmt [] [] [] []"
| Item: "pk_peek fmt \<noteq> 0 \<Longrightarrow> pk_getdetails h (int t) fmt = Inr (opt, int sz, int na, h', fmt') \<Longrightarrow>
    takes_arg opt \<Longrightarrow> pk_enc env opt sz (islittle h') v = Some (bs, r, v') \<Longrightarrow>
    packs env h' (t + na + length bs) fmt' vs vs' out rs \<Longrightarrow>
    packs env h t fmt (v # vs) (v' # vs') (replicate na 0 @ bs @ out) (r # rs)"
| NoArg: "pk_peek fmt \<noteq> 0 \<Longrightarrow> pk_getdetails h (int t) fmt = Inr (opt, int sz, int na, h', fmt') \<Longrightarrow>
    \<not> takes_arg opt \<Longrightarrow>
    packs env h' (t + na + sz) fmt' vs vs' out rs \<Longrightarrow>
    packs env h t fmt vs vs' (replicate na 0 @ replicate sz 0 @ out) rs"

section \<open>One option of the code against the specification\<close>

lemma checkint_iff: "pk_checkint env args i = Inr n \<longleftrightarrow> int_of_arg env (arg_at args i) = Some n"
  by (auto simp: pk_checkint_def int_of_arg_def pk_tonum_def split: lval.splits option.splits pk_num.splits)

lemma checknumber_iff: "pk_checknumber env args i = Inr n \<longleftrightarrow> num_of_arg env (arg_at args i) = Some n"
  by (auto simp: pk_checknumber_def num_of_arg_def pk_tonum_def split: lval.splits option.splits pk_num.splits)

lemma arg_at_in: "arg_at args i \<noteq> LNone \<Longrightarrow> 1 \<le> i \<and> i \<le> int (length args) \<and> arg_at args i = args ! nat (i - 1)"
  by (auto simp: arg_at_def split: if_splits)

lemma checklstring_iff:
  "pk_checklstring env args i = Inr (s, args') \<longleftrightarrow>
     str_of_arg env (arg_at args i) = Some s \<and> args' = args[nat (i - 1) := LStr s]"
  using arg_at_in [of args i]
  by (auto simp: pk_checklstring_def str_of_arg_def Let_def list_update_same_conv split: lval.splits)

lemma enc_same:
  assumes "pk_enc env opt sz little v = Some (bs, r, v')" "opt \<in> {Kint, Kuint, Kfloat}"
  shows "v' = v \<and> v \<noteq> LNone"
proof -
  have n: "int_of_arg env LNone = None" "num_of_arg env LNone = None"
    by (simp_all add: int_of_arg_def num_of_arg_def)
  consider "opt = Kint" | "opt = Kuint" | "opt = Kfloat" using assms(2) by auto
  then show ?thesis
    by cases (use assms(1) n in \<open>auto simp: pk_enc_def split: option.splits if_splits\<close>)
qed

lemma enc_args: "pk_enc env opt sz little (arg_at args i) = Some (bs, r, v) \<Longrightarrow>
    opt \<in> {Kint, Kuint, Kfloat} \<Longrightarrow> args[nat (i - 1) := v] = args"
  using enc_same [of env opt sz little "arg_at args i" bs r v] arg_at_in [of args i] by auto

lemma uns_fits:
  assumes "n < 2 ^ 63" "- (2 ^ 63) \<le> n" "sz < 8"
  shows "(word_of_int n :: u64) < 2 ^ (8 * sz) \<longleftrightarrow> 0 \<le> n \<and> n < 2 ^ (8 * sz)"
proof -
  have p: "(2 :: int) ^ (8 * sz) \<le> 2 ^ 56" using assms(3) by (intro power_increasing) simp_all
  have "(2 :: u64) ^ (8 * sz) = word_of_int (2 ^ (8 * sz))" by simp
  moreover have "uint (word_of_int (2 ^ (8 * sz)) :: u64) = 2 ^ (8 * sz)"
    using p by (intro uint_u64_of_int) simp_all
  ultimately have u: "uint ((2 :: u64) ^ (8 * sz)) = 2 ^ (8 * sz)" by metis
  show ?thesis
  proof (cases "0 \<le> n")
    case True
    then have "uint (word_of_int n :: u64) = n" using assms(1) by (intro uint_u64_of_int) simp_all
    then show ?thesis using True by (simp only: word_less_def u) simp
  next
    case False
    have "(word_of_int n :: u64) = word_of_int (n + 2 ^ 64)"
      using word_of_int_2p [where 'a = 64] by simp
    moreover have "uint (word_of_int (n + 2 ^ 64) :: u64) = n + 2 ^ 64"
      using False assms(2) by (intro uint_u64_of_int) simp_all
    ultimately have "uint (word_of_int n :: u64) = n + 2 ^ 64" by metis
    then show ?thesis using False p assms(2) by (simp only: word_less_def u) simp
  qed
qed

lemma str2int_range: "oclj_str2int s = Some i \<Longrightarrow> - (2 ^ 63) \<le> i \<and> i < 2 ^ 63"
  using sint_u64_range
  by (auto simp: oclj_str2int_def Let_def oclj_u2s_sint simp del: of_int_minus split: prod.splits option.splits if_splits)

lemma int_of_arg_range: "int_of_arg env v = Some n \<Longrightarrow> - (2 ^ 63) \<le> n \<and> n < 2 ^ 63"
  by (auto simp: int_of_arg_def flt2int_iff split: lval.splits option.splits dest: str2int_range)

lemma uns_fits_arg:
  "int_of_arg env v = Some n \<Longrightarrow> sz < 8 \<Longrightarrow>
   (word_of_int n :: u64) < 2 ^ (8 * sz) \<longleftrightarrow> 0 \<le> n \<and> n < 2 ^ (8 * sz)"
  using int_of_arg_range [of env v n] by (intro uns_fits) simp_all

lemma length_float_bytes: "length (pk_copywithendian bs little) = length bs"
  by (simp add: pk_copywithendian_def)


lemma enc_length:
  assumes "pk_enc env opt sz little v = Some (bs, r, v')" "opt_ok opt (int sz)" "takes_arg opt"
  shows "length bs = (case opt of Kstring \<Rightarrow> sz + length bs - sz | Kzstr \<Rightarrow> length bs | _ \<Rightarrow> sz) \<and> sz \<le> length bs"
  using assms by (cases opt)
    (auto simp: pk_enc_def takes_arg_def length_float_bytes bytes_of_float_def bytes_of_double_def Let_def
      split: option.splits if_splits)


lemma state_same: "st\<lparr>st_out := o1, st_args := st_args st, st_total := st_total st + n - n\<rparr> = st\<lparr>st_out := o1\<rparr>"
  by simp

text \<open>The three options whose argument is a number: nothing but the block changes.\<close>

lemma pk_option_num:
  assumes opt: "opt \<in> {Kint, Kuint, Kfloat}"
    and enc: "\<And>bs r v. pk_enc env opt sz (islittle (st_h st)) (arg_at (st_args st) (st_arg st)) = Some (bs, r, v) \<Longrightarrow>
      length bs = sz"
    and code: "\<And>o1. pk_option env opt (int sz) st = Inr o1 \<longleftrightarrow>
      (\<exists>bs r v o2. pk_enc env opt sz (islittle (st_h st)) (arg_at (st_args st) (st_arg st)) = Some (bs, r, v) \<and>
         pk_emit (st_out st) (int sz) bs = Inr o2 \<and> o1 = st\<lparr>st_out := o2\<rparr>)"
  shows "pk_option env opt (int sz) st = Inr st' \<longleftrightarrow>
    (\<exists>bs r v o1. pk_enc env opt sz (islittle (st_h st)) (arg_at (st_args st) (st_arg st)) = Some (bs, r, v) \<and>
       pk_emit (st_out st) (int (length bs)) bs = Inr o1 \<and>
       st' = st\<lparr>st_out := o1, st_args := (st_args st)[nat (st_arg st - 1) := v],
                st_total := st_total st + int (length bs) - int sz\<rparr>)"
proof -
  have "(pk_enc env opt sz (islittle (st_h st)) (arg_at (st_args st) (st_arg st)) = Some (bs, r, v) \<and>
       pk_emit (st_out st) (int (length bs)) bs = Inr o1 \<and>
       st' = st\<lparr>st_out := o1, st_args := (st_args st)[nat (st_arg st - 1) := v],
                st_total := st_total st + int (length bs) - int sz\<rparr>) \<longleftrightarrow>
     (pk_enc env opt sz (islittle (st_h st)) (arg_at (st_args st) (st_arg st)) = Some (bs, r, v) \<and>
       pk_emit (st_out st) (int sz) bs = Inr o1 \<and> st' = st\<lparr>st_out := o1\<rparr>)" for bs r v o1
    using enc [of bs r v] enc_args [OF _ opt, of env sz _ "st_args st" "st_arg st" bs r v] by auto
  then show ?thesis by (simp only: code)
qed

lemma pk_option_arg:
  assumes ok: "opt_ok opt (int sz)" and t: "takes_arg opt"
  shows "pk_option env opt (int sz) st = Inr st' \<longleftrightarrow>
    (\<exists>bs r v o1. pk_enc env opt sz (islittle (st_h st)) (arg_at (st_args st) (st_arg st)) = Some (bs, r, v) \<and>
       pk_emit (st_out st) (int (length bs)) bs = Inr o1 \<and>
       st' = st\<lparr>st_out := o1, st_args := (st_args st)[nat (st_arg st - 1) := v],
                st_total := st_total st + int (length bs) - int sz\<rparr>)"
proof (cases opt)
  case Kint
  have sz: "nat (int sz * 8 - 1) = 8 * sz - 1" by simp
  show ?thesis unfolding Kint
    by (rule pk_option_num)
      (use enc_length [of env Kint sz] ok Kint in
        \<open>auto simp: takes_arg_def pk_option_def Let_def checkint_iff pk_enc_def PK_SZINT_def sz split: option.splits if_splits\<close>)
next
  case Kuint
  have sz: "nat (int sz * 8) = 8 * sz" by simp
  show ?thesis unfolding Kuint
    by (rule pk_option_num)
      (use enc_length [of env Kuint sz] ok Kuint in
        \<open>auto simp: takes_arg_def pk_option_def Let_def checkint_iff pk_enc_def PK_SZINT_def sz uns_fits_arg
           split: option.splits if_splits\<close>)
next
  case Kfloat
  show ?thesis unfolding Kfloat
    by (rule pk_option_num)
      (use enc_length [of env Kfloat sz] ok Kfloat in
        \<open>auto simp: takes_arg_def pk_option_def Let_def checknumber_iff pk_enc_def split: option.splits if_splits\<close>)
next
  case Kchar
  then show ?thesis
    by (cases st) (auto simp: pk_option_def Let_def checklstring_iff pk_enc_def split: option.splits)
next
  case Kstring
  then show ?thesis using ok
    by (cases st) (auto simp: pk_option_def Let_def checklstring_iff pk_enc_def mult.commute nat_mult_distrib split: option.splits)
next
  case Kzstr
  then show ?thesis using ok
    by (cases st) (auto simp: pk_option_def Let_def checklstring_iff pk_enc_def ac_simps split: option.splits)
qed (use t in \<open>simp_all add: takes_arg_def\<close>)


lemma pk_option_noarg:
  assumes "\<not> takes_arg opt" "opt_ok opt (int sz)"
  shows "pk_option env opt (int sz) st = Inr st' \<longleftrightarrow>
    (\<exists>o1. (if sz = 0 then o1 = st_out st else pk_emit (st_out st) (int sz) (replicate sz 0) = Inr o1) \<and>
       st' = st\<lparr>st_out := o1, st_arg := st_arg st - 1\<rparr>)"
  using assms
  by (cases opt; cases st) (auto simp: takes_arg_def pk_option_def Let_def split: if_splits)

section \<open>Writing the block\<close>

text \<open>What \<open>pk_emit\<close> does to a block filled up to \<open>t\<close>, when there is room.\<close>

definition pk_write :: "pk_out option \<Rightarrow> byte list \<Rightarrow> pk_out option" where
  "pk_write o1 bs = map_option (\<lambda>out. store (out\<lparr>out_n := out_n out + int (length bs)\<rparr>) (out_n out) bs) o1"

definition room_for :: "pk_out option \<Rightarrow> nat \<Rightarrow> nat \<Rightarrow> bool" where
  "room_for o1 t k = (case o1 of None \<Rightarrow> True | Some out \<Rightarrow>
     out_n out = int t \<and> out_cap out = int (length (out_b out)) \<and> t + k \<le> length (out_b out))"

lemma pk_emit_write: "room_for o1 t (length bs) \<Longrightarrow> pk_emit o1 (int (length bs)) bs = Inr (pk_write o1 bs)"
  by (auto simp: pk_emit_def room_for_def pk_write_def pk_room_def split: option.splits)

lemma pk_emit_None: "pk_emit None k bs = Inr None"
  by (simp add: pk_emit_def)

lemma pk_write_None [simp]: "pk_write None bs = None"
  by (simp add: pk_write_def)

lemma room_for_write: "room_for o1 t (length bs + k) \<Longrightarrow> room_for (pk_write o1 bs) (t + length bs) k"
  by (auto simp: room_for_def pk_write_def store_def split: option.splits)

lemma room_for_less: "room_for o1 t k \<Longrightarrow> j \<le> k \<Longrightarrow> room_for o1 t j"
  by (auto simp: room_for_def split: option.splits)

lemma pk_write_append:
  "room_for o1 t (length xs + length ys) \<Longrightarrow> pk_write (pk_write o1 xs) ys = pk_write o1 (xs @ ys)"
  by (auto simp: pk_write_def store_def room_for_def min_def algebra_simps nat_add_distrib split: option.splits)
    (cases xs; simp)

lemma pk_write_Nil: "room_for o1 t 0 \<Longrightarrow> pk_write o1 [] = o1"
  by (auto simp: pk_write_def store_def room_for_def split: option.splits)


section \<open>The passes against the specification\<close>

lemma packs_conv: "packs env h t fmt vs vs' out rs \<Longrightarrow> packs env h t fmt vs' vs' out rs"
proof (induction rule: packs.induct)
  case (Item fmt h t opt sz na h' fmt' v bs r v' vs vs' out rs)
  have "pk_enc env opt sz (islittle h') v' = Some (bs, r, v')"
    using Item.hyps(4)
    by (cases opt) (auto simp: pk_enc_def str_of_arg_def Let_def split: option.splits if_splits)
  then show ?case using Item by (blast intro: packs.Item)
qed (blast intro: packs.intros)+

lemma arg_at_append: "arg_at (pre @ rest) (int (length pre) + 1) = (case rest of [] \<Rightarrow> LNone | v # _ \<Rightarrow> v)"
  by (auto simp: arg_at_def nth_append split: list.splits)

lemma enc_None: "pk_enc env opt sz little LNone = None"
  by (cases opt) (simp_all add: pk_enc_def int_of_arg_def num_of_arg_def str_of_arg_def)

text \<open>One step of the code: the padding, then the option.\<close>

lemma pk_step_getdetails:
  assumes "pk_step env st = Inr st'" "st_total st = int t" "1 \<le> maxalign (st_h st)"
  obtains opt sz na h' fmt' o1 where
    "pk_getdetails (st_h st) (int t) (st_fmt st) = Inr (opt, int sz, int na, h', fmt')"
    "opt_ok opt (int sz)" "1 \<le> maxalign h'"
    "if na > 0 then pk_emit (st_out st) (int na) (replicate na 0) = Inr o1 else o1 = st_out st"
    "pk_option env opt (int sz) (st\<lparr>st_h := h', st_fmt := fmt', st_total := int t + int na + int sz,
       st_out := o1, st_arg := st_arg st + 1\<rparr>) = Inr st'"
proof -
  obtain opt sz na h' fmt' o1 where g:
    "pk_getdetails (st_h st) (int t) (st_fmt st) = Inr (opt, sz, na, h', fmt')" and
    e: "(if na > 0 then pk_emit (st_out st) na (replicate (nat na) 0) else Inr (st_out st)) = Inr o1" and
    p: "pk_option env opt sz (st\<lparr>st_h := h', st_fmt := fmt', st_total := int t + na + sz,
       st_out := o1, st_arg := st_arg st + 1\<rparr>) = Inr st'"
    using assms by (auto simp: pk_step_def)
  note ok = getdetails_ok [OF g assms(3)]
  have "0 \<le> sz" using ok(1) by (cases opt) auto
  then show thesis
    using that [of opt "nat sz" "nat na" h' fmt' o1] g e p ok by (auto split: if_splits)
qed

lemma loop_packs:
  assumes "pk_loop env st = Inr st1" "st_out st = None" "1 \<le> maxalign (st_h st)"
    "st_total st = int t" "st_arg st = int (length pre)" "st_args st = pre @ rest" 
  shows "\<exists>vs vs' post out rs. rest = vs @ post \<and> packs env (st_h st) t (st_fmt st) vs vs' out rs \<and>
    length vs' = length vs \<and>
    st_args st1 = pre @ vs' @ post \<and> st_total st1 = int (t + length out)"
  using assms
proof (induction env st arbitrary: t pre rest rule: pk_loop.induct)
  case (1 env st)
  show ?case
  proof (cases "pk_peek (st_fmt st) = 0")
    case True
    then have "st1 = st" using 1 by (simp add: pk_loop.simps)
    then show ?thesis using 1 True by (force intro: packs.Done)
  next
    case False
    obtain st2 where s: "pk_step env st = Inr st2" "pk_loop env st2 = Inr st1"
      using "1.prems"(1) False by (auto simp: pk_loop.simps [of env st])
    note IH = "1.IH" [OF False s]
    obtain opt sz na h' fmt' o1 where
      g: "pk_getdetails (st_h st) (int t) (st_fmt st) = Inr (opt, int sz, int na, h', fmt')" and
      ok: "opt_ok opt (int sz)" "1 \<le> maxalign h'" and
      e: "if na > 0 then pk_emit (st_out st) (int na) (replicate na 0) = Inr o1 else o1 = st_out st" and
      p: "pk_option env opt (int sz) (st\<lparr>st_h := h', st_fmt := fmt', st_total := int t + int na + int sz,
         st_out := o1, st_arg := st_arg st + 1\<rparr>) = Inr st2"
      using pk_step_getdetails [OF s(1) "1.prems"(4,3)] by blast
    have o1: "o1 = None" using e "1.prems"(2) by (auto simp: pk_emit_None split: if_splits)
    show ?thesis
    proof (cases "takes_arg opt")
      case True
      obtain bs r v' where enc: "pk_enc env opt sz (islittle h') (arg_at (pre @ rest) (int (length pre) + 1)) = Some (bs, r, v')"
        and st2: "st2 = st\<lparr>st_h := h', st_fmt := fmt', st_arg := st_arg st + 1, st_out := None,
          st_args := (pre @ rest)[length pre := v'], st_total := int t + int na + int (length bs)\<rparr>"
        using p ok True "1.prems" by (auto simp: pk_option_arg o1 pk_emit_None)
      obtain v rest' where rest: "rest = v # rest'" using enc arg_at_append [of pre rest]
        by (cases rest) (auto simp: enc_None)
      obtain vs vs' post out rs where ih: "rest' = vs @ post" "packs env h' (t + na + length bs) fmt' vs vs' out rs"
         "length vs' = length vs" "st_args st1 = (pre @ [v']) @ vs' @ post" "st_total st1 = int (t + na + length bs + length out)"
        using IH [of "t + na + length bs" "pre @ [v']" rest'] st2 ok rest "1.prems" by auto
      have "packs env (st_h st) t (st_fmt st) (v # vs) (v' # vs') (replicate na 0 @ bs @ out) (r # rs)"
        using enc rest by (intro packs.Item [OF False g True _ ih(2)]) (simp add: arg_at_append)
      then show ?thesis using ih rest by (intro exI [of _ "v # vs"] exI [of _ "v' # vs'"] exI [of _ post]) auto
    next
      case F: False
      have st2: "st2 = st\<lparr>st_h := h', st_fmt := fmt', st_out := None, st_total := int t + int na + int sz\<rparr>"
        using p ok F "1.prems" by (auto simp: pk_option_noarg o1 pk_emit_None split: if_splits)
      obtain vs vs' post out rs where ih: "rest = vs @ post" "packs env h' (t + na + sz) fmt' vs vs' out rs"
         "length vs' = length vs" "st_args st1 = pre @ vs' @ post" "st_total st1 = int (t + na + sz + length out)"
        using IH [of "t + na + sz" pre rest] st2 ok "1.prems" by auto
      show ?thesis using ih packs.NoArg [OF False g F ih(2)]
        by (intro exI [of _ vs] exI [of _ vs'] exI [of _ post]) auto
    qed
  qed
qed


lemma pk_loop_step: "pk_peek (st_fmt st) \<noteq> 0 \<Longrightarrow> pk_step env st = Inr st2 \<Longrightarrow> pk_loop env st = pk_loop env st2"
  by (simp add: pk_loop.simps [of env st])

lemma packs_loop:
  assumes "packs env h t fmt vs vs' out rs" "1 \<le> maxalign h" "room_for o1 t (length out)"
    "st = \<lparr>st_h = h, st_fmt = fmt, st_arg = int (length pre), st_total = int t,
           st_args = pre @ vs @ post, st_out = o1\<rparr>" 
  shows "\<exists>st1. pk_loop env st = Inr st1 \<and> st_total st1 = int (t + length out) \<and>
    st_args st1 = pre @ vs' @ post \<and> st_out st1 = pk_write o1 out"
  using assms
proof (induction arbitrary: pre o1 st rule: packs.induct)
  case (Done fmt h t)
  then show ?case by (intro exI [of _ st]) (simp add: pk_loop.simps pk_write_Nil)
next
  case (Item fmt h t opt sz na h' fmt' v bs r v' vs vs' out rs)
  note ok = getdetails_ok [OF Item.hyps(2) Item.prems(1)]
  have r: "room_for o1 t (length (replicate na (0 :: byte)) + (length bs + length out))" using Item.prems by simp
  define o2 where "o2 = (if na > 0 then pk_write o1 (replicate na 0) else o1)"
  have w2: "pk_write o1 (replicate na 0) = o2" using pk_write_Nil [of o1 t] r room_for_less [OF r, of 0]
    by (auto simp: o2_def)
  have r2: "room_for o2 (t + na) (length bs + length out)" using room_for_write [OF r] by (simp add: w2)
  have e2: "(if int na > 0 then pk_emit o1 (int na) (replicate (nat (int na)) 0) else Inr o1) = Inr o2"
    using pk_emit_write [of o1 t "replicate na 0"] room_for_less [OF r, of na] by (simp add: o2_def)
  let ?st2 = "st\<lparr>st_h := h', st_fmt := fmt', st_total := int (t + na + length bs), st_arg := int (length (pre @ [v'])),
    st_args := (pre @ [v']) @ vs @ post, st_out := pk_write o2 bs\<rparr>"
  have "pk_step env st = Inr ?st2"
    using Item.prems(3) Item.hyps ok e2 pk_emit_write [of o2 "t + na" bs] room_for_less [OF r2, of "length bs"]
    by (auto simp: pk_step_def pk_option_arg arg_at_append)
  moreover obtain st1 where st1: "pk_loop env ?st2 = Inr st1" "st_total st1 = int (t + na + length bs + length out)"
    "st_args st1 = (pre @ [v']) @ vs' @ post" "st_out st1 = pk_write (pk_write o2 bs) out"
    using Item.IH [of "pk_write o2 bs" ?st2 "pre @ [v']"] ok room_for_write [OF r2] Item.prems(3) by auto
  moreover have "pk_peek (st_fmt st) \<noteq> 0" using Item.hyps(1) Item.prems(3) by simp
  ultimately have "pk_loop env st = Inr st1" by (metis pk_loop_step)
  moreover have "st_out st1 = pk_write o1 (replicate na 0 @ bs @ out)"
    using st1(4) pk_write_append [OF r2] r by (simp add: w2 [symmetric] pk_write_append [of o1 t])
  ultimately show ?case using st1 by (intro exI [of _ st1]) simp
next
  case (NoArg fmt h t opt sz na h' fmt' vs vs' out rs)
  note ok = getdetails_ok [OF NoArg.hyps(2) NoArg.prems(1)]
  have r: "room_for o1 t (length (replicate na (0 :: byte)) + (length (replicate sz (0 :: byte)) + length out))"
    using NoArg.prems by simp
  define o2 where "o2 = (if na > 0 then pk_write o1 (replicate na 0) else o1)"
  have w2: "pk_write o1 (replicate na 0) = o2" using pk_write_Nil [of o1 t] r room_for_less [OF r, of 0]
    by (auto simp: o2_def)
  have r2: "room_for o2 (t + na) (length (replicate sz (0 :: byte)) + length out)"
    using room_for_write [OF r] by (simp add: w2)
  have e2: "(if int na > 0 then pk_emit o1 (int na) (replicate (nat (int na)) 0) else Inr o1) = Inr o2"
    using pk_emit_write [of o1 t "replicate na 0"] room_for_less [OF r, of na] by (simp add: o2_def)
  have w3: "sz = 0 \<Longrightarrow> pk_write o2 (replicate sz 0) = o2"
    using pk_write_Nil [of o2 "t + na"] room_for_less [OF r2, of 0] by simp
  let ?st2 = "st\<lparr>st_h := h', st_fmt := fmt', st_total := int (t + na + sz), st_out := pk_write o2 (replicate sz 0)\<rparr>"
  have "pk_step env st = Inr ?st2"
    using NoArg.prems(3) NoArg.hyps ok e2 w3 pk_emit_write [of o2 "t + na" "replicate sz 0"] room_for_less [OF r2, of sz]
    by (auto simp: pk_step_def pk_option_noarg)
  moreover obtain st1 where st1: "pk_loop env ?st2 = Inr st1" "st_total st1 = int (t + na + sz + length out)"
    "st_args st1 = pre @ vs' @ post" "st_out st1 = pk_write (pk_write o2 (replicate sz 0)) out"
    using NoArg.IH [of "pk_write o2 (replicate sz 0)" ?st2 pre] ok room_for_write [OF r2] NoArg.prems(3) by auto
  moreover have "pk_peek (st_fmt st) \<noteq> 0" using NoArg.hyps(1) NoArg.prems(3) by simp
  ultimately have "pk_loop env st = Inr st1" by (metis pk_loop_step)
  moreover have "st_out st1 = pk_write o1 (replicate na 0 @ replicate sz 0 @ out)"
    using st1(4) pk_write_append [OF r2] r by (simp add: w2 [symmetric] pk_write_append [of o1 t])
  ultimately show ?case using st1 by (intro exI [of _ st1]) simp
qed

section \<open>string.pack\<close>

lemma enc_Nil: "pk_enc env opt sz little LNil = None"
  by (cases opt) (simp_all add: pk_enc_def int_of_arg_def num_of_arg_def str_of_arg_def)

lemma packs_no_nil: "packs env h t fmt vs vs' out rs \<Longrightarrow> LNil \<notin> set vs"
  by (induction rule: packs.induct) (auto simp: enc_Nil)

lemma mark_split: "vs @ post = args @ [m] \<Longrightarrow> m \<notin> set vs \<Longrightarrow> \<exists>post'. args = vs @ post' \<and> post = post' @ [m]"
  by (cases post rule: rev_cases) auto

lemma packs_length: "packs env h t fmt vs vs' out rs \<Longrightarrow> length vs' = length vs \<and> length rs = length vs"
  by (induction rule: packs.induct) auto

text \<open>Pass 2 over the converted arguments fills exactly the block pass 1 measured.\<close>

lemma pass2:
  assumes "packs env pk_initheader 0 fmt vs vs' out rs"
  shows "pk_walk env (f # vs @ post) fmt
      (Some \<lparr>out_b = replicate (length out) 0, out_n = 0, out_cap = int (length out)\<rparr>)
    = Inr (int (length out), f # vs' @ post,
        Some \<lparr>out_b = out, out_n = int (length out), out_cap = int (length out)\<rparr>)"
proof -
  let ?o = "Some \<lparr>out_b = replicate (length out) 0, out_n = 0, out_cap = int (length out)\<rparr>"
  let ?st = "\<lparr>st_h = pk_initheader, st_fmt = fmt, st_arg = 1, st_total = 0, st_args = f # vs @ post, st_out = ?o\<rparr>"
  obtain st1 where st1: "pk_loop env ?st = Inr st1" "st_total st1 = int (length out)"
      "st_args st1 = f # vs' @ post" "st_out st1 = pk_write ?o out"
    using packs_loop [OF assms, of ?o ?st "[f]" post] by (auto simp: pk_initheader_def room_for_def)
  have "pk_write ?o out = Some \<lparr>out_b = out, out_n = int (length out), out_cap = int (length out)\<rparr>"
    by (simp add: pk_write_def store_def)
  with st1 show ?thesis by (simp add: pk_walk_def)
qed

lemma pass1:
  "pk_walk env (f # rest) fmt None = Inr (tot, args, o1) \<longleftrightarrow>
    (\<exists>vs vs' post out rs. rest = vs @ post \<and> packs env pk_initheader 0 fmt vs vs' out rs \<and>
       args = f # vs' @ post \<and> tot = int (length out) \<and> o1 = None)" (is "?l \<longleftrightarrow> ?r")
proof
  let ?st = "\<lparr>st_h = pk_initheader, st_fmt = fmt, st_arg = 1, st_total = 0, st_args = f # rest, st_out = None\<rparr>"
  {
    assume ?l
    then obtain st1 where l: "pk_loop env ?st = Inr st1" "tot = st_total st1" "args = st_args st1" "o1 = st_out st1"
      by (auto simp: pk_walk_def)
    obtain vs vs' post out rs where p: "rest = vs @ post" "packs env pk_initheader 0 fmt vs vs' out rs"
        "st_args st1 = f # vs' @ post" "st_total st1 = int (length out)"
      using loop_packs [OF l(1), of 0 "[f]" rest] by (auto simp: pk_initheader_def)
    obtain st2 where "pk_loop env ?st = Inr st2" "st_out st2 = None"
      using packs_loop [OF p(2), of None ?st "[f]" post] p(1) by (auto simp: pk_initheader_def room_for_def)
    with l p have "tot = int (length out)" "args = f # vs' @ post" "o1 = None" by simp_all
    with p(1,2) show ?r by blast
  }
  assume ?r
  then obtain vs vs' post out rs where p: "rest = vs @ post" "packs env pk_initheader 0 fmt vs vs' out rs"
        "args = f # vs' @ post" "tot = int (length out)" "o1 = None" by blast
  then show ?l
    using packs_loop [OF p(2), of None ?st "[f]" post] by (auto simp: pk_walk_def pk_initheader_def room_for_def)
qed

lemma arg_at_1: "arg_at (v # args) 1 = v"
  by (simp add: arg_at_def)

lemma checklstring_fmt: "pk_checklstring env (LStr fmt # args) 1 = Inr (fmt, LStr fmt # args)"
  by (simp add: pk_checklstring_def arg_at_1)

lemma pack_from_walks:
  assumes c: "pk_checklstring env args0 1 = Inr (fmt, args1)"
    and w1: "pk_walk env (args1 @ [LNil]) fmt None = Inr (tot, args2, o1)"
    and w2: "\<And>xs. \<exists>a. pk_walk env (args2 @ xs) fmt
      (Some \<lparr>out_b = replicate (nat tot) 0, out_n = 0, out_cap = tot\<rparr>)
      = Inr (tot, a, Some \<lparr>out_b = out, out_n = tot, out_cap = tot\<rparr>)"
  shows "oclj_strpack_pack env args0 =
    (if tot \<ge> env_max_str env then Inl (ErrLua (Msg ''not enough memory for buffer allocation''))
     else if \<not> env_alloc env tot then Inl ErrMem else Inr (LStr out))"
proof -
  obtain a where a: "pk_walk env args2 fmt (Some \<lparr>out_b = replicate (nat tot) 0, out_n = 0, out_cap = tot\<rparr>)
      = Inr (tot, a, Some \<lparr>out_b = out, out_n = tot, out_cap = tot\<rparr>)"
    using w2 [of "[]"] by auto
  obtain b where b: "pk_walk env (args2 @ [LOther False ''userdata'']) fmt
      (Some \<lparr>out_b = replicate (nat tot) 0, out_n = 0, out_cap = tot\<rparr>)
      = Inr (tot, b, Some \<lparr>out_b = out, out_n = tot, out_cap = tot\<rparr>)"
    using w2 by blast
  show ?thesis
    by (cases "tot \<le> PK_STACKBUF"; cases "env_alloc env tot")
      (simp_all add: oclj_strpack_pack_def c w1 a b)
qed

lemma pack_iff:
  "oclj_strpack_pack env (LStr fmt # args) = Inr (LStr s) \<longleftrightarrow>
     (\<exists>vs vs' post rs. args = vs @ post \<and> packs env pk_initheader 0 fmt vs vs' s rs) \<and>
     int (length s) < env_max_str env \<and> env_alloc env (int (length s))"
proof (cases "\<exists>tot args2 o1. pk_walk env (LStr fmt # args @ [LNil]) fmt None = Inr (tot, args2, o1)")
  case True
  then obtain tot args2 o1 where w1: "pk_walk env (LStr fmt # args @ [LNil]) fmt None = Inr (tot, args2, o1)" by blast
  then obtain vs vs' post0 out rs where p: "args @ [LNil] = vs @ post0" "packs env pk_initheader 0 fmt vs vs' out rs"
     "args2 = LStr fmt # vs' @ post0" "tot = int (length out)" "o1 = None"
    unfolding pass1 by blast
  obtain post where post: "args = vs @ post" "post0 = post @ [LNil]"
    using mark_split [OF p(1) [symmetric] packs_no_nil [OF p(2)]] by blast
  have w2: "\<exists>a. pk_walk env (args2 @ xs) fmt
      (Some \<lparr>out_b = replicate (nat tot) 0, out_n = 0, out_cap = tot\<rparr>)
    = Inr (tot, a, Some \<lparr>out_b = out, out_n = tot, out_cap = tot\<rparr>)" for xs
    using pass2 [OF packs_conv [OF p(2)], of "LStr fmt" "post0 @ xs"] by (simp add: p(3,4))
  have det: "s = out" if "args = vs2 @ post2" "packs env pk_initheader 0 fmt vs2 vs2' s rs2" for vs2 post2 vs2' rs2
  proof -
    have "pk_walk env (LStr fmt # args @ [LNil]) fmt None = Inr (int (length s), LStr fmt # vs2' @ post2 @ [LNil], None)"
      unfolding pass1 using that by (intro exI [of _ vs2] exI [of _ vs2'] exI [of _ "post2 @ [LNil]"]) auto
    then have "int (length s) = int (length out)" "vs2' @ post2 @ [LNil] = vs' @ post @ [LNil]"
      using w1 p post by simp_all
    then have l: "length s = length out" and a: "vs2' @ post2 = vs' @ post" by simp_all
    have x: "pk_walk env (LStr fmt # vs2' @ post2) fmt (Some \<lparr>out_b = replicate (length s) 0, out_n = 0, out_cap = int (length s)\<rparr>)
      = Inr (int (length s), LStr fmt # vs2' @ post2, Some \<lparr>out_b = s, out_n = int (length s), out_cap = int (length s)\<rparr>)"
      using pass2 [OF packs_conv [OF that(2)]] .
    have y: "pk_walk env (LStr fmt # vs' @ post) fmt (Some \<lparr>out_b = replicate (length out) 0, out_n = 0, out_cap = int (length out)\<rparr>)
      = Inr (int (length out), LStr fmt # vs' @ post, Some \<lparr>out_b = out, out_n = int (length out), out_cap = int (length out)\<rparr>)"
      using pass2 [OF packs_conv [OF p(2)]] .
    show "s = out" using trans [OF x [unfolded l a, symmetric] y] by simp
  qed
  have c: "pk_checklstring env (LStr fmt # args) 1 = Inr (fmt, LStr fmt # args)"
    by (rule checklstring_fmt)
  have w1': "pk_walk env ((LStr fmt # args) @ [LNil]) fmt None = Inr (tot, args2, o1)" using w1 by simp
  note pk = pack_from_walks [OF c w1' w2]
  have "oclj_strpack_pack env (LStr fmt # args) = Inr (LStr s) \<longleftrightarrow>
     s = out \<and> int (length s) < env_max_str env \<and> env_alloc env (int (length s))"
    unfolding pk p(4) by (cases "s = out") (simp_all split: if_splits)
  moreover have "(\<exists>vs vs' post rs. args = vs @ post \<and> packs env pk_initheader 0 fmt vs vs' s rs) \<longleftrightarrow> s = out"
    (is "?E \<longleftrightarrow> _")
  proof
    assume ?E
    then obtain vs2 vs2' post2 rs2 where "args = vs2 @ post2" "packs env pk_initheader 0 fmt vs2 vs2' s rs2" by blast
    then show "s = out" by (rule det)
  qed (use p(2) post(1) in blast)
  ultimately show ?thesis by simp
next
  case False
  have "\<not> (\<exists>vs vs' post rs. args = vs @ post \<and> packs env pk_initheader 0 fmt vs vs' s rs)"
  proof
    assume "\<exists>vs vs' post rs. args = vs @ post \<and> packs env pk_initheader 0 fmt vs vs' s rs"
    then obtain vs vs' post rs where "args = vs @ post" "packs env pk_initheader 0 fmt vs vs' s rs" by blast
    then have "pk_walk env (LStr fmt # args @ [LNil]) fmt None = Inr (int (length s), LStr fmt # vs' @ post @ [LNil], None)"
      unfolding pass1 by (intro exI [of _ vs] exI [of _ vs'] exI [of _ "post @ [LNil]"]) auto
    then show False using False by blast
  qed
  moreover have "oclj_strpack_pack env (LStr fmt # args) \<noteq> Inr (LStr s)"
    using False by (auto simp: oclj_strpack_pack_def checklstring_fmt)
  ultimately show ?thesis by blast
qed

section \<open>string.unpack reads what pack wrote\<close>

lemma unat_u64: "n < 2 ^ 64 \<Longrightarrow> unat (word_of_nat n :: u64) = n"
  by (simp add: unat_of_nat)

lemma uint_u64_nat: "n < 2 ^ 64 \<Longrightarrow> uint (word_of_nat n :: u64) = int n"
  by (simp add: uint_nat unat_of_nat)

lemma u64_less_nat: "m < 2 ^ 64 \<Longrightarrow> n < 2 ^ 64 \<Longrightarrow> (word_of_nat m :: u64) < word_of_nat n \<longleftrightarrow> m < n"
  by (simp add: word_less_nat_alt unat_of_nat)

lemma u64_sub_nat: "n \<le> m \<Longrightarrow> (word_of_nat m - word_of_nat n :: u64) = word_of_nat (m - n)"
  by (simp add: of_nat_diff)

lemma rd_span:
  assumes "data = pre @ bs @ post" "length data < 2 ^ 64"
  shows "rd data (word_of_nat (length pre)) (word_of_nat (length bs)) = Inr bs"
proof -
  have "unat (word_of_nat (length pre) :: u64) = length pre" "unat (word_of_nat (length bs) :: u64) = length bs"
    using assms by (auto intro!: unat_u64)
  then show ?thesis by (simp add: rd_def assms(1))
qed

lemma copy_twice [simp]: "pk_copywithendian (pk_copywithendian bs little) little = bs"
  by (simp add: pk_copywithendian_def)

lemma double_roundtrip [simp]: "double_of_bytes (bytes_of_double n) = n"
  by (simp add: double_of_bytes_def bytes_of_double_def word_of_bytes_word_bytes)

lemma float_roundtrip [simp]: "float_of_bytes (bytes_of_float n) = n"
  by (simp add: float_of_bytes_def bytes_of_float_def word_of_bytes_word_bytes)

lemma takeWhile_z: "0 \<notin> set s \<Longrightarrow> takeWhile (\<lambda>c. c \<noteq> 0) (s @ 0 # post) = (s :: byte list)"
  by (induction s) auto

lemma un_option_roundtrip:
  assumes enc: "pk_enc env opt sz little v = Some (bs, r, v')"
    and ok: "opt_ok opt (int sz)" "takes_arg opt"
    and data: "data = pre @ bs @ post" "length data < 2 ^ 62"
  shows "un_option env data opt sz little (word_of_nat (length pre))
    = Inr ([r], word_of_nat (length pre) + word_of_nat (length bs) - word_of_nat sz)"
proof (cases opt)
  case Kint
  then obtain n where n: "int_of_arg env v = Some n" "bs = pk_packint (word_of_int n) little sz (n < 0)"
    "r = lua_pushnumber env (d_of_int n)" "sz < 8 \<Longrightarrow> - (2 ^ (8 * sz - 1)) \<le> n \<and> n < 2 ^ (8 * sz - 1)"
    using enc by (auto simp: pk_enc_def split: option.splits if_splits)
  have sz: "0 < sz" "length bs = sz" using ok Kint n(2) by simp_all
  then show ?thesis using rd_span [OF data(1)] data(2) n int_of_arg_range [OF n(1)] Kint
    by (simp add: un_option_def unpackint_packint_signed)
next
  case Kuint
  then obtain n where n: "int_of_arg env v = Some n" "bs = pk_packint (word_of_int n) little sz False"
    "r = lua_pushnumber env (d_of_int n)" "sz < 8 \<Longrightarrow> 0 \<le> n \<and> n < 2 ^ (8 * sz)"
    using enc by (auto simp: pk_enc_def split: option.splits if_splits)
  have sz: "0 < sz" "length bs = sz" using ok Kuint n(2) by simp_all
  then show ?thesis using rd_span [OF data(1)] data(2) n int_of_arg_range [OF n(1)] Kuint
    by (simp add: un_option_def unpackint_packint_unsigned)
next
  case Kfloat
  then have l: "length bs = sz" using enc_length [OF enc ok] by simp
  have sz: "sz = 4 \<or> sz = 8" using ok Kfloat by simp
  show ?thesis using enc rd_span [OF data(1)] data(2) Kfloat l sz
    by (auto simp: pk_enc_def un_option_def split: option.splits if_splits)
next
  case Kchar
  then have l: "length bs = sz" using enc_length [OF enc ok] by simp
  show ?thesis using enc rd_span [OF data(1)] data(2) Kchar l
    by (auto simp: pk_enc_def un_option_def Let_def split: option.splits if_splits)
next
  case Kstring
  then obtain s where s: "bs = pk_packint (word_of_nat (length s)) little sz False @ s" "r = LStr s"
    "sz < 8 \<Longrightarrow> int (length s) < 2 ^ (8 * sz)"
    using enc by (auto simp: pk_enc_def split: option.splits if_splits)
  let ?p = "pk_packint (word_of_nat (length s)) little sz False"
  have sz: "0 < sz" "sz \<le> 16" "length ?p = sz" using ok Kstring by simp_all
  have 1: "rd data (word_of_nat (length pre)) (word_of_nat sz) = Inr ?p"
    using rd_span [of data pre ?p "s @ post"] data s sz by simp
  have 2: "rd data (word_of_nat (length pre) + word_of_nat sz) (word_of_nat (length s)) = Inr s"
    using rd_span [of data "pre @ ?p" s post] data s sz by simp
  have 3: "pk_unpackint ?p little sz False = Inr (int (length s))"
    using unpackint_packint_unsigned [of sz "int (length s)" little] s(1,3) sz data by simp
  have 4: "\<not> (word_of_nat (length s) :: u64) > word_of_nat (length data) - word_of_nat (length pre) - word_of_nat sz"
  proof -
    have "(word_of_nat (length data) - word_of_nat (length pre) - word_of_nat sz :: u64)
        = word_of_nat (length s + length post)" using data s sz by simp
    then show ?thesis using u64_less_nat [of "length s + length post" "length s"] data s by simp
  qed
  show ?thesis using Kstring 1 2 3 4 s sz by (simp add: un_option_def Let_def)
next
  case Kzstr
  then obtain s where s: "bs = s @ [0]" "r = LStr s" "0 \<notin> set s"
    using enc by (auto simp: pk_enc_def split: option.splits if_splits)
  have sub: "(word_of_nat (length data) - word_of_nat (length pre) :: u64) = word_of_nat (length (bs @ post))"
    using data by simp
  have 1: "rd data (word_of_nat (length pre)) (word_of_nat (length data) - word_of_nat (length pre)) = Inr (bs @ post)"
    unfolding sub using rd_span [of data pre "bs @ post" "[]"] data by simp
  have "sz = 0" using ok Kzstr by simp
  then show ?thesis using Kzstr 1 s takeWhile_z [OF s(3), of post] by (simp add: un_option_def Let_def)
qed (use ok in \<open>simp_all add: takes_arg_def\<close>)


text \<open>The overflow-safe check of the code: when it passes, the item lies inside the data,
  whatever the position was.\<close>

lemma un_check:
  fixes pos :: u64
  assumes "0 \<le> na" "na \<le> 15" "0 \<le> sz" "sz \<le> 2 ^ 31" "ld < 2 ^ 62"
  shows "word_of_int na + word_of_int sz > NOT pos \<or> pos + word_of_int na + word_of_int sz > word_of_nat ld
    \<longleftrightarrow> \<not> uint pos + na + sz \<le> int ld"
proof -
  have p: "0 \<le> uint pos" "uint pos < 2 ^ 64" using uint_u64_less [of pos] by simp_all
  have s: "uint (word_of_int na + word_of_int sz :: u64) = na + sz"
    using uint_u64_of_int [of "na + sz"] assms by simp
  have n: "uint (NOT pos) = 2 ^ 64 - 1 - uint pos" by (rule uint_not_u64)
  have l: "uint (word_of_nat ld :: u64) = int ld" using assms(5) by (intro uint_u64_nat) simp
  show ?thesis
  proof (cases "uint pos + na + sz < 2 ^ 64")
    case True
    have "pos + word_of_int na + word_of_int sz = word_of_int (uint pos + na + sz)" by simp
    then have "uint (pos + word_of_int na + word_of_int sz) = uint pos + na + sz"
      using True p assms by (simp only: uint_u64_of_int)
    then show ?thesis using True by (simp only: word_less_def s n l) auto
  next
    case False
    then have "\<not> uint pos + na + sz \<le> int ld" using assms(5) by simp
    moreover have "NOT pos < word_of_int na + word_of_int sz"
      using False by (simp only: word_less_def s n)
    ultimately show ?thesis by blast
  qed
qed

lemma opt_ok_range: "opt_ok opt sz \<Longrightarrow> 0 \<le> sz \<and> sz \<le> 2 ^ 31"
  by (cases opt) auto

lemma un_step_item:
  assumes st: "st = \<lparr>un_h = h, un_fmt = fmt, un_pos = word_of_nat (length pre), un_res = res\<rparr>"
    and g: "pk_getdetails h (int (length pre)) fmt = Inr (opt, int sz, int na, h', fmt')"
    and ok: "opt_ok opt (int sz)" "na \<le> 15"
    and data: "data = pre @ replicate na 0 @ bs @ post" "length data < 2 ^ 62" "sz \<le> length bs"
    and o: "un_option env data opt sz (islittle h') (word_of_nat (length pre + na))
      = Inr (vs, word_of_nat (length pre + na) + word_of_nat (length bs) - word_of_nat sz)"
    and stack: "env_stack env (int (length res) + 2)"
  shows "un_step env data st = Inr \<lparr>un_h = h', un_fmt = fmt',
     un_pos = word_of_nat (length (pre @ replicate na (0 :: byte) @ bs)), un_res = res @ vs\<rparr>"
proof -
  have p: "uint (word_of_nat (length pre) :: u64) = int (length pre)" using data by (intro uint_u64_nat) simp
  have c: "\<not> (word_of_int (int na) + word_of_int (int sz) > NOT (word_of_nat (length pre) :: u64) \<or>
     word_of_nat (length pre) + word_of_int (int na) + word_of_int (int sz) > (word_of_nat (length data) :: u64))"
    using un_check [of "int na" "int sz" "length data" "word_of_nat (length pre)"] ok opt_ok_range [OF ok(1)] data p
    by simp
  show ?thesis using c o stack g p by (simp add: st un_step_def Let_def)
qed

lemma un_loop_packs:
  assumes "packs env h t fmt vs vs' out rs" "1 \<le> maxalign h"
    "data = pre @ out @ post" "length pre = t" "length data < 2 ^ 62" "\<And>n. env_stack env n"
  shows "\<exists>h'. un_loop env data \<lparr>un_h = h, un_fmt = fmt, un_pos = word_of_nat t, un_res = res\<rparr>
    = Inr \<lparr>un_h = fst h', un_fmt = snd h', un_pos = word_of_nat (t + length out), un_res = res @ rs\<rparr>"
  using assms(1-5)
proof (induction arbitrary: pre res rule: packs.induct)
  case (Done fmt h t)
  then show ?case by (intro exI [of _ "(h, fmt)"]) (simp add: un_loop.simps)
next
  case (Item fmt h t opt sz na h' fmt' v bs r v' vs vs' out rs)
  note ok = getdetails_ok [OF Item.hyps(2) Item.prems(1)]
  have o: "un_option env data opt sz (islittle h') (word_of_nat (length pre + na))
      = Inr ([r], word_of_nat (length pre + na) + word_of_nat (length bs) - word_of_nat sz)"
    using un_option_roundtrip [OF Item.hyps(4) ok(1) Item.hyps(3), of data "pre @ replicate na 0" "out @ post"] Item.prems
    by simp
  have "sz \<le> length bs" using enc_length [OF Item.hyps(4) ok(1) Item.hyps(3)] by simp
  then have "un_step env data \<lparr>un_h = h, un_fmt = fmt, un_pos = word_of_nat t, un_res = res\<rparr>
     = Inr \<lparr>un_h = h', un_fmt = fmt', un_pos = word_of_nat (t + na + length bs), un_res = res @ [r]\<rparr>"
    using un_step_item [OF refl, of h pre fmt opt sz na h' fmt' data bs "out @ post" env "[r]" res]
      Item.hyps(2) Item.prems ok o assms(6) by (simp add: add.assoc)
  then show ?case
    using Item.IH [of "pre @ replicate na 0 @ bs" "res @ [r]"] Item.prems Item.hyps(1) ok
    by (subst un_loop.simps) (simp add: add.assoc)
next
  case (NoArg fmt h t opt sz na h' fmt' vs vs' out rs)
  note ok = getdetails_ok [OF NoArg.hyps(2) NoArg.prems(1)]
  have o: "un_option env data opt sz (islittle h') (word_of_nat (length pre + na))
      = Inr ([], word_of_nat (length pre + na) + word_of_nat (length (replicate sz (0 :: byte))) - word_of_nat sz)"
    using NoArg.hyps(3) by (cases opt) (simp_all add: takes_arg_def un_option_def)
  have "un_step env data \<lparr>un_h = h, un_fmt = fmt, un_pos = word_of_nat t, un_res = res\<rparr>
     = Inr \<lparr>un_h = h', un_fmt = fmt', un_pos = word_of_nat (t + na + sz), un_res = res\<rparr>"
    using un_step_item [OF refl, of h pre fmt opt sz na h' fmt' data "replicate sz 0" "out @ post" env "[]" res]
      NoArg.hyps(2) NoArg.prems ok o assms(6) by (simp add: add.assoc)
  then show ?case
    using NoArg.IH [of "pre @ replicate na 0 @ replicate sz 0" "res"] NoArg.prems NoArg.hyps(1) ok
    by (subst un_loop.simps) (simp add: add.assoc)
qed

section \<open>unpack never reads outside its data\<close>

lemma rd_ok: "uint pos + uint k \<le> int (length data) \<Longrightarrow> rd data pos k \<noteq> Inl OutOfBounds"
proof -
  assume "uint pos + uint k \<le> int (length data)"
  then have "unat pos + unat k \<le> length data"
    by (simp only: uint_nat of_nat_add [symmetric] of_nat_le_iff)
  then show ?thesis by (simp add: rd_def span_at_def)
qed

lemma unpackint_no_oob: "pk_unpackint s l sz g \<noteq> Inl OutOfBounds"
  by (simp add: pk_unpackint_def Let_def)

lemma ebind_no_oob: "m \<noteq> Inl OutOfBounds \<Longrightarrow> (\<And>x. m = Inr x \<Longrightarrow> f x \<noteq> Inl OutOfBounds) \<Longrightarrow> ebind m f \<noteq> Inl OutOfBounds"
  by (cases m) simp_all

lemma un_option_no_oob:
  assumes i: "uint pos + int sz \<le> int (length data)" "length data < 2 ^ 62" "opt_ok opt (int sz)"
  shows "un_option env data opt sz little pos \<noteq> Inl OutOfBounds"
proof -
  have w: "uint (word_of_nat sz :: u64) = int sz" "uint (word_of_nat (length data) :: u64) = int (length data)"
    using i opt_ok_range [OF i(3)] by (auto intro!: uint_u64_nat)
  have r: "rd data pos (word_of_nat sz) \<noteq> Inl OutOfBounds" using i w by (intro rd_ok) simp
  have ple: "uint pos \<le> int (length data)" using i by simp
  have d: "uint (word_of_nat (length data) - pos) = int (length data) - uint pos"
    using ple by (simp add: uint_sub_lem [THEN iffD1] w)
  have rz: "rd data pos (word_of_nat (length data) - pos) \<noteq> Inl OutOfBounds"
    using d by (intro rd_ok) simp
  have d2: "uint (word_of_nat (length data) - pos - word_of_nat sz) = int (length data) - uint pos - int sz"
    using i d by (simp add: uint_sub_lem [THEN iffD1] w)
  have p2: "uint (pos + word_of_nat sz) = uint pos + int sz"
    using i by (simp add: uint_add_lem [THEN iffD1] w)
  have rs: "rd data (pos + word_of_nat sz) len \<noteq> Inl OutOfBounds"
    if "\<not> len > word_of_nat (length data) - pos - word_of_nat sz" for len
    using that d2 p2 by (intro rd_ok) (simp add: word_less_def)
  show ?thesis using r rz rs
    by (cases opt) (auto simp: un_option_def Let_def too_short_def unpackint_no_oob ebind_eq_Inl split: if_splits)
qed

lemma getdetails_no_oob: "pk_getdetails h t fmt \<noteq> Inl OutOfBounds"
proof -
  have 0: "pk_getoption h fmt \<noteq> Inl OutOfBounds" for h fmt
    by (auto simp: pk_getoption_def pk_getnumlimit_def Let_def ebind_eq_Inl split: prod.splits if_splits)
  show ?thesis
    by (auto simp: pk_getdetails_def pk_getalign_def pk_ntoalign_def Let_def 0 ebind_eq_Inl split: if_splits)
qed

lemma un_step_no_oob:
  assumes "1 \<le> maxalign (un_h st)" "length data < 2 ^ 62"
  shows "un_step env data st \<noteq> Inl OutOfBounds"
proof (cases "pk_getdetails (un_h st) (uint (un_pos st)) (un_fmt st)")
  case (Inl e)
  then show ?thesis using getdetails_no_oob [of "un_h st" "uint (un_pos st)" "un_fmt st"] by (simp add: un_step_def)
next
  case (Inr a)
  obtain opt sz na h fmt where a: "a = (opt, sz, na, h, fmt)" by (cases a)
  note g = Inr [unfolded a]
  note ok = getdetails_ok [OF g assms(1)]
  have sz: "0 \<le> sz" "sz \<le> 2 ^ 31" using opt_ok_range [OF ok(1)] by simp_all
  show ?thesis
  proof (cases "uint (un_pos st) + na + sz \<le> int (length data)")
    case False
    then show ?thesis using un_check [OF ok(2,3) sz assms(2), of "un_pos st"]
      by (simp add: un_step_def g Let_def too_short_def)
  next
    case True
    have "uint (word_of_int na :: u64) = na" using ok by (intro uint_u64_of_int) simp_all
    then have "uint (un_pos st + word_of_int na) = uint (un_pos st) + na"
      using True sz assms(2) by (simp add: uint_add_lem [THEN iffD1])
    then have "un_option env data opt (nat sz) (islittle h) (un_pos st + word_of_int na) \<noteq> Inl OutOfBounds"
      using True sz assms(2) ok by (intro un_option_no_oob) simp_all
    then show ?thesis by (auto simp: un_step_def g Let_def too_short_def ebind_eq_Inl split: if_splits)
  qed
qed

lemma un_step_hdr: "un_step env data st = Inr st' \<Longrightarrow> 1 \<le> maxalign (un_h st) \<Longrightarrow> 1 \<le> maxalign (un_h st')"
  by (auto simp: un_step_def Let_def dest: getdetails_ok(5) split: if_splits)

lemma un_loop_no_oob:
  "1 \<le> maxalign (un_h st) \<Longrightarrow> length data < 2 ^ 62 \<Longrightarrow> un_loop env data st \<noteq> Inl OutOfBounds"
proof (induction env data st rule: un_loop.induct)
  case (1 env data st)
  show ?case
  proof (cases "pk_peek (un_fmt st) = 0")
    case False
    have "ebind (un_step env data st) (un_loop env data) \<noteq> Inl OutOfBounds"
      using 1 False un_step_no_oob un_step_hdr by (intro ebind_no_oob) blast+
    then show ?thesis using False by (simp add: un_loop.simps [of env data st])
  qed (simp add: un_loop.simps)
qed

section \<open>The remaining errors and packsize\<close>

lemma pk_err_not_mismatch:
  "pk_getdetails h t fmt \<noteq> Inl mismatch"
proof -
  have 0: "pk_getoption h fmt \<noteq> Inl mismatch" for h fmt
    by (auto simp: pk_getoption_def pk_getnumlimit_def mismatch_def Let_def ebind_eq_Inl split: prod.splits if_splits)
  show ?thesis
    by (auto simp: pk_getdetails_def pk_getalign_def pk_ntoalign_def mismatch_def Let_def
        0 [unfolded mismatch_def] ebind_eq_Inl split: if_splits)
qed

lemma pk_option_not_mismatch: "st_out st = None \<Longrightarrow> pk_option env opt sz st \<noteq> Inl mismatch"
proof -
  have c: "pk_checkint env args i \<noteq> Inl mismatch" "pk_checknumber env args i \<noteq> Inl mismatch"
    "pk_checklstring env args i \<noteq> Inl mismatch" for args i
    by (auto simp: pk_checkint_def pk_checknumber_def pk_checklstring_def pk_typeerror_def mismatch_def Let_def
        split: pk_num.splits option.splits lval.splits)
  assume "st_out st = None"
  then show ?thesis
    by (cases opt) (auto simp: pk_option_def Let_def pk_emit_None ebind_eq_Inl c
        mismatch_def c [unfolded mismatch_def] split: if_splits)
qed

lemma pk_step_None: "st_out st = None \<Longrightarrow> pk_step env st \<noteq> Inl mismatch \<and>
    (\<forall>st'. pk_step env st = Inr st' \<longrightarrow> st_out st' = None)"
proof -
  assume n: "st_out st = None"
  have o: "pk_option env opt sz st0 = Inr st' \<Longrightarrow> st_out st0 = None \<Longrightarrow> st_out st' = None" for opt sz st0 st'
    by (cases opt) (auto simp: pk_option_def Let_def pk_emit_None)
  show ?thesis
    using n o by (auto simp: pk_step_def ebind_eq_Inl pk_err_not_mismatch pk_emit_None pk_option_not_mismatch)
qed

lemma pk_loop_not_mismatch: "st_out st = None \<Longrightarrow> pk_loop env st \<noteq> Inl mismatch"
proof (induction env st rule: pk_loop.induct)
  case (1 env st)
  then show ?case using pk_step_None [OF "1.prems", of env]
    by (subst pk_loop.simps) (auto simp: ebind_eq_Inl)
qed

lemma pack_not_mismatch: "oclj_strpack_pack env (LStr fmt # args) \<noteq> Inl mismatch"
proof (cases "pk_walk env (LStr fmt # args @ [LNil]) fmt None")
  case (Inl e)
  have "pk_walk env (LStr fmt # args @ [LNil]) fmt None \<noteq> Inl mismatch"
    by (simp add: pk_walk_def ebind_eq_Inl pk_loop_not_mismatch)
  then show ?thesis using Inl by (simp add: oclj_strpack_pack_def checklstring_fmt)
next
  case (Inr a)
  obtain tot args2 o1 where a: "a = (tot, args2, o1)" by (cases a)
  obtain vs vs' post out rs where p: "packs env pk_initheader 0 fmt vs vs' out rs"
     "args2 = LStr fmt # vs' @ post" "tot = int (length out)"
    using Inr unfolding a pass1 by blast
  have w2: "\<exists>a. pk_walk env (args2 @ xs) fmt
      (Some \<lparr>out_b = replicate (nat tot) 0, out_n = 0, out_cap = tot\<rparr>)
    = Inr (tot, a, Some \<lparr>out_b = out, out_n = tot, out_cap = tot\<rparr>)" for xs
    using pass2 [OF packs_conv [OF p(1)], of "LStr fmt" "post @ xs"] by (simp add: p(2,3))
  have w1: "pk_walk env ((LStr fmt # args) @ [LNil]) fmt None = Inr (tot, args2, o1)" using Inr a by simp
  show ?thesis
    by (simp add: pack_from_walks [OF checklstring_fmt w1 w2] mismatch_def)
qed

lemma size_loop_packs:
  assumes "packs env h t fmt vs vs' out rs" "pk_size_loop h (int t) fmt = Inr tot" "1 \<le> maxalign h"
  shows "tot = int (t + length out)"
  using assms
proof (induction arbitrary: tot rule: packs.induct)
  case (Done fmt h t)
  then show ?case by (simp add: pk_size_loop.simps)
next
  case (Item fmt h t opt sz na h' fmt' v bs r v' vs vs' out rs)
  note ok = getdetails_ok [OF Item.hyps(2) Item.prems(2)]
  have "opt \<noteq> Kstring \<and> opt \<noteq> Kzstr" "pk_size_loop h' (int t + (int sz + int na)) fmt' = Inr tot"
    using Item.prems(1) Item.hyps(1,2) by (auto simp: pk_size_loop.simps [of h] Let_def split: if_splits)
  moreover have "length bs = sz" using enc_length [OF Item.hyps(4) ok(1) Item.hyps(3)] calculation(1)
    by (cases opt) auto
  ultimately show ?case using Item.IH [of tot] ok by (simp add: ac_simps)
next
  case (NoArg fmt h t opt sz na h' fmt' vs vs' out rs)
  note ok = getdetails_ok [OF NoArg.hyps(2) NoArg.prems(2)]
  have "pk_size_loop h' (int t + (int sz + int na)) fmt' = Inr tot"
    using NoArg.prems(1) NoArg.hyps(1,2) by (auto simp: pk_size_loop.simps [of h] Let_def split: if_splits)
  then show ?case using NoArg.IH [of tot] ok by (simp add: ac_simps)
qed

section \<open>The properties\<close>

text \<open>C8: string.pack returns exactly the concatenation of its items' encodings, and in every other
  case raises: the two passes, the measured block and the converted argument slots implement the
  specification.\<close>

theorem pack_refines_spec:
  "oclj_strpack_pack env (LStr fmt # args) = Inr (LStr s) \<longleftrightarrow>
     (\<exists>vs vs' post rs. args = vs @ post \<and> packs env pk_initheader 0 fmt vs vs' s rs) \<and>
     int (length s) < env_max_str env \<and> env_alloc env (int (length s))"
  by (rule pack_iff)

text \<open>The internal error of pack (pass 2 wanting more, or fewer, bytes than pass 1 measured) is
  unreachable, whatever the format and the arguments.\<close>

theorem pack_passes_agree:
  "oclj_strpack_pack env (LStr fmt # args)
     \<noteq> Inl (ErrLua (Msg ''string.pack: internal error (output size mismatch)''))"
  using pack_not_mismatch by (simp add: mismatch_def)

text \<open>C9: unpack with the same format gives back every packed value (a c field with its padding, a
  float at its precision, a NaN as the VM's NaN) and the position after the string.\<close>

theorem unpack_pack:
  assumes "oclj_strpack_pack env (LStr fmt # args) = Inr (LStr s)"
    and "env_max_str env \<le> 2 ^ 31" "\<And>n. env_stack env n"
  shows "\<exists>vs vs' post rs. args = vs @ post \<and> packs env pk_initheader 0 fmt vs vs' s rs \<and>
    oclj_strpack_unpack env [LStr fmt, LStr s]
      = Inr (rs @ [lua_pushnumber env (d_of_int (int (length s) + 1))])"
proof -
  obtain vs vs' post rs where p: "args = vs @ post" "packs env pk_initheader 0 fmt vs vs' s rs"
    and l: "int (length s) < env_max_str env"
    using assms(1) unfolding pack_iff by blast
  have ls: "length s < 2 ^ 62" using l assms(2) by simp
  obtain h' where u: "un_loop env s \<lparr>un_h = pk_initheader, un_fmt = fmt, un_pos = 0, un_res = []\<rparr>
    = Inr \<lparr>un_h = fst h', un_fmt = snd h', un_pos = word_of_nat (length s), un_res = rs\<rparr>"
    using un_loop_packs [OF p(2), of s "[]" "[]" "[]"] ls assms(3) by (auto simp: pk_initheader_def)
  have n: "uint (word_of_nat (length s) + 1 :: u64) = int (length s) + 1"
    using uint_u64_nat [of "Suc (length s)"] ls by (simp add: ac_simps)
  have "oclj_strpack_unpack env [LStr fmt, LStr s]
      = Inr (rs @ [lua_pushnumber env (d_of_int (int (length s) + 1))])"
    using u n by (simp add: oclj_strpack_unpack_def pk_checklstring_def arg_at_def pk_optint_def pk_posrelat_def
        Let_def numeral_2_eq_2)
  with p show ?thesis by blast
qed

text \<open>Every integer that a field of 1 to 16 bytes accepts is read back from it, in both byte
  orders; a field wider than 8 bytes holds the sign extension.\<close>

theorem int_field_roundtrip:
  assumes "0 < sz" "- (2 ^ 63) \<le> i" "i < 2 ^ 63"
    and "sz < 8 \<Longrightarrow> (if sgnd then - (2 ^ (8 * sz - 1)) \<le> i \<and> i < 2 ^ (8 * sz - 1) else 0 \<le> i \<and> i < 2 ^ (8 * sz))"
  shows "pk_unpackint (pk_packint (word_of_int i) little sz (sgnd \<and> i < 0)) little sz sgnd = Inr i"
  using assms unpackint_packint_signed [of sz i little] unpackint_packint_unsigned [of sz i little]
  by (cases sgnd) simp_all

theorem int_field_roundtrip_witness:
  "pk_unpackint (pk_packint (word_of_int (-5)) False 11 True) False 11 True = Inr (-5)"
  using int_field_roundtrip [of 11 "-5" True False] by simp

text \<open>C10: unpack never reads outside the data string, whatever the format and the start position:
  after an unterminated z the position is one past the end, and the next check still holds.\<close>

theorem unpack_in_bounds:
  assumes "length data < 2 ^ 62"
  shows "oclj_strpack_unpack env (LStr fmt # LStr data # rest) \<noteq> Inl OutOfBounds"
proof -
  have a: "arg_at (LStr fmt # LStr data # rest) 2 = LStr data" by (simp add: arg_at_def)
  have c: "pk_checklstring env (LStr fmt # LStr data # rest) 2 = Inr (data, LStr fmt # LStr data # rest)"
    by (simp add: pk_checklstring_def a)
  have o: "pk_optint env args i d \<noteq> Inl OutOfBounds" for args i d
    by (auto simp: pk_optint_def pk_checkint_def pk_typeerror_def Let_def split: lval.splits pk_num.splits option.splits)
  show ?thesis using un_loop_no_oob [OF _ assms] o
    by (auto simp: oclj_strpack_unpack_def checklstring_fmt c ebind_eq_Inl Let_def pk_initheader_def)
qed

text \<open>Packsize is the length of what pack returns for the same format.\<close>

theorem packsize_is_length:
  assumes "oclj_strpack_packsize env [LStr fmt] = Inr v"
    and "oclj_strpack_pack env (LStr fmt # args) = Inr (LStr s)"
  shows "v = lua_pushnumber env (d_of_int (int (length s)))"
proof -
  obtain vs vs' post rs where p: "packs env pk_initheader 0 fmt vs vs' s rs"
    using assms(2) unfolding pack_iff by blast
  obtain tot where t: "pk_size_loop pk_initheader 0 fmt = Inr tot" "v = lua_pushnumber env (d_of_int tot)"
    using assms(1) by (auto simp: oclj_strpack_packsize_def checklstring_fmt)
  show ?thesis using size_loop_packs [OF p, of tot] t by (simp add: pk_initheader_def)
qed

text \<open>The numbers in a format cannot overflow a C int: whatever digits follow, the value read is
  at most 2147483639, and the sizes and alignments the walk adds are at most 16 but for c.\<close>

theorem format_numbers_bounded:
  assumes "pk_getdetails h t fmt = Inr (opt, sz, na, h', fmt')" "1 \<le> maxalign h"
  shows "0 \<le> sz \<and> 0 \<le> na \<and> sz + na \<le> 2147483639 \<and> (opt \<noteq> Kchar \<longrightarrow> sz \<le> 16 \<and> na \<le> 15)"
  using getdetails_ok [OF assms] opt_ok_align [of opt sz] by (cases "opt = Kchar") auto

theorem format_numbers_bounded_witness:
  "0 \<le> (2147483639 :: int) \<and> (2147483639 :: int) + 0 \<le> 2147483639 \<and>
   pk_getdetails pk_initheader 0 (map of_char ''c21474836399'') = Inr (Kchar, 2147483639, 0, pk_initheader, map of_char ''9'')"
proof -
  have g: "pk_getdetails pk_initheader 0 (map of_char ''c21474836399'') = Inr (Kchar, 2147483639, 0, pk_initheader, map of_char ''9'')"
    by code_simp
  show ?thesis using format_numbers_bounded [OF g] g by (simp add: pk_initheader_def)
qed


text \<open>An environment for the concrete instances: a scanner that reads nothing, no memory limit
  below LuaJIT's.\<close>

definition env0 :: pk_env where
  "env0 = \<lparr>env_scan = (\<lambda>_. None), env_tostring = (\<lambda>_. []), env_name = (\<lambda>_. None),
     env_max_str = 2147483392, env_nan = d_nan, env_alloc = (\<lambda>_. True), env_stack = (\<lambda>_. True)\<rparr>"

lemma env0_pack: "oclj_strpack_pack env0 [LStr (map of_char ''<i2z''), LNum (d_of_int 258), LStr (map of_char ''ab'')]
   = Inr (LStr [2, 1, 97, 98, 0])"
  by code_simp

theorem unpack_pack_witness:
  "oclj_strpack_unpack env0 [LStr (map of_char ''<i2z''), LStr [2, 1, 97, 98, 0]]
     = Inr [LNum (d_of_int 258), LStr (map of_char ''ab''), LNum (d_of_int 6)] \<and>
   (\<exists>rs. oclj_strpack_unpack env0 [LStr (map of_char ''<i2z''), LStr [2, 1, 97, 98, 0]]
     = Inr (rs @ [lua_pushnumber env0 (d_of_int 6)]))"
proof
  show "oclj_strpack_unpack env0 [LStr (map of_char ''<i2z''), LStr [2, 1, 97, 98, 0]]
     = Inr [LNum (d_of_int 258), LStr (map of_char ''ab''), LNum (d_of_int 6)]" by code_simp
  show "\<exists>rs. oclj_strpack_unpack env0 [LStr (map of_char ''<i2z''), LStr [2, 1, 97, 98, 0]]
     = Inr (rs @ [lua_pushnumber env0 (d_of_int 6)])"
    using unpack_pack [OF env0_pack] by (auto simp: env0_def)
qed

theorem unpack_in_bounds_witness:
  "oclj_strpack_unpack env0 [LStr (map of_char ''zs1''), LStr [97], LNum (d_of_int 1)] \<noteq> Inl OutOfBounds"
  using unpack_in_bounds [of "[97]" env0 "map of_char ''zs1''" "[LNum (d_of_int 1)]"] by simp

theorem packsize_is_length_witness:
  "oclj_strpack_packsize env0 [LStr (map of_char ''<!4i1i4'')] = Inr (LNum (d_of_int 8)) \<and>
   oclj_strpack_pack env0 [LStr (map of_char ''<!4i1i4''), LNum (d_of_int 1), LNum (d_of_int 2)]
     = Inr (LStr [1, 0, 0, 0, 2, 0, 0, 0]) \<and>
   LNum (d_of_int 8) = lua_pushnumber env0 (d_of_int 8)"
proof -
  have 1: "oclj_strpack_packsize env0 [LStr (map of_char ''<!4i1i4'')] = Inr (LNum (d_of_int 8))" by code_simp
  have 2: "oclj_strpack_pack env0 [LStr (map of_char ''<!4i1i4''), LNum (d_of_int 1), LNum (d_of_int 2)]
     = Inr (LStr [1, 0, 0, 0, 2, 0, 0, 0])" by code_simp
  show ?thesis using packsize_is_length [OF 1 2] 1 2 by simp
qed

end
