(* ===== verification/Bitop.thy ===== *)
theory Bitop
  imports Num53
begin

text \<open>
  native/luajit/oclj\_bitop.h and oclj\_bitop\_meta.c: Lua 5.3.6's bitwise operators on a VM whose
  numbers are all doubles. The first section is the rules every back end shares, the second
  the interpreter's slow path with its coercions and errors. LuaJIT's debug information
  (\<open>lj_debug_slotname\<close>) and numeral scanner (\<open>lj_strscan_scan\<close>) are parameters.
\<close>

section \<open>The rules\<close>

text \<open>The operators, in the bytecode order BC\_BNOT .. BC\_BSAR.\<close>

datatype bitop = BNOT | BAND | BOR | BXOR | BSHL | BSHR | BSAR

definition oclj_shiftl :: "u64 \<Rightarrow> int \<Rightarrow> u64" where
  "oclj_shiftl x y =
     (if y < 0 then if y \<le> -64 then 0 else drop_bit (nat (- y)) x
      else if 64 \<le> y then 0 else push_bit (nat y) x)"

definition oclj_shiftar :: "u64 \<Rightarrow> int \<Rightarrow> u64" where
  "oclj_shiftar x y =
     (if y < 0 then if y \<le> -64 then 0 else push_bit (nat (- y)) x
      else if 64 \<le> y then if sint x < 0 then NOT 0 else 0
      else if sint x < 0 then NOT (drop_bit (nat y) (NOT x)) else drop_bit (nat y) x)"

text \<open>\<open>b\<close> and \<open>c\<close> are \<open>int64_t\<close>s; the cast to \<open>uint64_t\<close> is \<open>word_of_int\<close>.\<close>

definition oclj_bitop64 :: "bitop \<Rightarrow> int \<Rightarrow> int \<Rightarrow> u64" where
  "oclj_bitop64 p b c =
     (let x = word_of_int b; y = word_of_int c in
      case p of
        BNOT \<Rightarrow> NOT x
      | BAND \<Rightarrow> x AND y
      | BOR \<Rightarrow> x OR y
      | BXOR \<Rightarrow> x XOR y
      | BSHL \<Rightarrow> oclj_shiftl x c
      | BSHR \<Rightarrow> oclj_shiftl x (if c = INT64_MIN then INT64_MIN else - c)
      | BSAR \<Rightarrow> oclj_shiftar x c)"

definition oclj_bit2num :: "u64 \<Rightarrow> double option" where
  "oclj_bit2num r =
     (let i = oclj_u2s r; n = d_of_int i in
      if d_le (d_of_int 9223372036854775808) n then None
      else if d_trunc n = i then Some n else None)"

section \<open>The interpreter's slow path\<close>

text \<open>An operand slot: a number, a string, or a value of another type with its type name.\<close>

datatype tvalue = TvNum double | TvStr "byte list" | TvOther string

definition lj_typename :: "tvalue \<Rightarrow> string" where
  "lj_typename v = (case v of TvNum _ \<Rightarrow> ''number'' | TvStr _ \<Rightarrow> ''string'' | TvOther t \<Rightarrow> t)"

text \<open>What 5.3.6 sees in an operand: an integer or a float (None is the code's 0).\<close>

datatype tonum = NInt int | NFlt double

definition ob_tonum :: "(byte list \<Rightarrow> double option) \<Rightarrow> tvalue \<Rightarrow> tonum option" where
  "ob_tonum scan v =
     (case v of
        TvNum n \<Rightarrow> Some (NFlt n)
      | TvStr s \<Rightarrow>
          (case oclj_str2int s of
             Some i \<Rightarrow> Some (NInt i)
           | None \<Rightarrow> (case oclj_str2d scan s of Some n \<Rightarrow> Some (NFlt n) | None \<Rightarrow> None))
      | TvOther _ \<Rightarrow> None)"

definition ob_toint :: "(byte list \<Rightarrow> double option) \<Rightarrow> tvalue \<Rightarrow> int option" where
  "ob_toint scan v =
     (case ob_tonum scan v of
        Some (NInt i) \<Rightarrow> Some i
      | Some (NFlt n) \<Rightarrow> oclj_flt2int n
      | None \<Rightarrow> None)"

text \<open>
  The errors, by the format they are raised with: LuaJIT's BADOPRT and BADOPRV (verb, the slot's
  kind and name, type name) and this file's own three. \<open>slot\<close> is \<open>lj_debug_slotname\<close>
  of the operand in a Lua function, None where the code passes no name.
\<close>

datatype bit_err =
    ErrBadOprT string string string string
  | ErrBadOprV string string
  | ErrNoIntNamed string string
  | ErrNoInt
  | ErrInexact string

datatype operand = OpB | OpC

type_synonym slotname = "operand \<Rightarrow> (string \<times> string) option"

definition OB_VERB :: string where
  "OB_VERB = ''perform bitwise operation on''"

definition ob_err_type :: "slotname \<Rightarrow> operand \<Rightarrow> tvalue \<Rightarrow> bit_err" where
  "ob_err_type slot w v =
     (case slot w of
        Some (kind, oname) \<Rightarrow> ErrBadOprT OB_VERB kind oname (lj_typename v)
      | None \<Rightarrow> ErrBadOprV OB_VERB (lj_typename v))"

definition ob_err_noint :: "slotname \<Rightarrow> operand \<Rightarrow> bit_err" where
  "ob_err_noint slot w =
     (case slot w of Some (kind, oname) \<Rightarrow> ErrNoIntNamed kind oname | None \<Rightarrow> ErrNoInt)"

definition ob_err_inexact :: "bitop \<Rightarrow> bit_err" where
  "ob_err_inexact p = ErrInexact
     (case p of BNOT \<Rightarrow> ''~'' | BAND \<Rightarrow> ''&'' | BOR \<Rightarrow> ''|'' | BXOR \<Rightarrow> ''~''
      | BSHL \<Rightarrow> ''<<'' | BSHR \<Rightarrow> ''>>'' | BSAR \<Rightarrow> ''~>>'')"

definition oclj_meta_bitop ::
  "(byte list \<Rightarrow> double option) \<Rightarrow> slotname \<Rightarrow> bitop \<Rightarrow> tvalue \<Rightarrow> tvalue \<Rightarrow> bit_err + double" where
  "oclj_meta_bitop scan slot p rb rc =
     (case (ob_toint scan rb, ob_toint scan rc) of
        (Some b, Some c) \<Rightarrow>
          (case oclj_bit2num (oclj_bitop64 p b c) of
             None \<Rightarrow> Inl (ob_err_inexact p)
           | Some n \<Rightarrow> Inr n)
      | _ \<Rightarrow>
          if ob_tonum scan rb \<noteq> None \<and> ob_tonum scan rc \<noteq> None
          then Inl (ob_err_noint slot (if ob_toint scan rb \<noteq> None then OpC else OpB))
          else Inl (if ob_tonum scan rb \<noteq> None then ob_err_type slot OpC rc
                    else ob_err_type slot OpB rb))"

section \<open>What the rules compute\<close>

lemma bit2num_eq: "oclj_bit2num r = (if fits53 (sint r) then Some (d_of_int (sint r)) else None)"
proof -
  let ?i = "sint r"
  have i: "\<bar>?i\<bar> \<le> 2 ^ 63" "\<bar>?i\<bar> \<le> 2 ^ 64" using sint_u64_range [of r] by auto
  have t: "d_trunc (d_of_int ?i) = round53 ?i" using i by (intro d_trunc_of_int)
  have v: "fp_rat (dval (d_of_int ?i)) = Some (of_int (round53 ?i))" using i by (intro d_of_int_rat)
  have "d_le (d_of_int 9223372036854775808) (d_of_int ?i) \<longleftrightarrow> 9223372036854775808 \<le> round53 ?i"
    using v d_of_int_2p63 by (auto simp: d_le_def d_less_def d_eq_def fp_less_rat fp_eq_rat)
  then show ?thesis using t sint_u64_range(2) [of r]
    by (auto simp: oclj_bit2num_def Let_def oclj_u2s_sint round53_eq_iff [symmetric])
qed

lemma uint_shiftl: "uint (oclj_shiftl x y) =
    (if 0 \<le> y then uint x * 2 ^ nat y mod 2 ^ 64 else uint x div 2 ^ nat (- y))"
proof (cases "0 \<le> y")
  case True
  then show ?thesis
    by (cases "64 \<le> y") (simp_all only: oclj_shiftl_def not_less [symmetric] if_True if_False uint_push_u64 mult_mod_ge64 nat_le_eq_zle, simp_all)
next
  case False
  then show ?thesis
    by (cases "y \<le> -64") (simp_all add: oclj_shiftl_def uint_drop_u64 u64_div_ge64)
qed

lemma sint_shiftar: "sint (oclj_shiftar x y) =
   (if 0 \<le> y then sint x div 2 ^ nat y else sint (word_of_int (uint x * 2 ^ nat (- y)) :: u64))"
proof (cases "0 \<le> y")
  case True
  then show ?thesis
    by (cases "64 \<le> y") (simp_all add: oclj_shiftar_def sint_not_drop sint_drop sint_div_ge64)
next
  case False
  have "push_bit n x = word_of_int (uint x * 2 ^ n)" for n
    by (simp add: push_bit_eq_mult)
  moreover have "(word_of_int (uint x * 2 ^ n) :: u64) = 0" if "64 \<le> n" for n
    using that mult_mod_ge64 [of n "uint x"]
    by (metis len64_eq of_int_0 word_uint_eq_iff uint_word_of_int unsigned_0)
  ultimately show ?thesis using False
    by (cases "y \<le> -64") (simp_all only: oclj_shiftar_def if_True if_False, simp_all del: of_int_mult)
qed

section \<open>Exact results, errors\<close>

lemma fits53_small_uint: "uint (x :: u64) < 2 ^ 53 \<Longrightarrow> fits53 (sint x)"
  by (simp add: sint_of_uint_small fits53_small)

lemma fits53_shifted:
  assumes "0 \<le> b" "b < 2 ^ 32"
  shows "fits53 (sint (word_of_int (b * 2 ^ n) :: u64))"
proof (cases "n \<le> 21")
  case True
  have "(2 :: int) ^ n \<le> 2 ^ 21" using True by (rule power_increasing) simp
  then have "b * 2 ^ n < 2 ^ 32 * 2 ^ 21" using assms by (intro mult_less_le_imp_less) simp_all
  then have "uint (word_of_int (b * 2 ^ n) :: u64) < 2 ^ 53" using assms
    by (subst uint_u64_of_int) simp_all
  then show ?thesis by (rule fits53_small_uint)
next
  case False
  let ?v = "sint (word_of_int (b * 2 ^ n) :: u64)"
  show ?thesis
  proof (cases "64 \<le> n")
    case True
    then have "uint (word_of_int (b * 2 ^ n) :: u64) = 0"
      using mult_mod_ge64 [of n b] by (simp only: uint_word_of_int len64_eq)
    then show ?thesis by (intro fits53_small_uint) simp
  next
    case F64: False
    have d64: "(2 :: int) ^ n dvd 2 ^ 64" using F64 by (intro le_imp_power_dvd) simp
    have "uint (word_of_int (b * 2 ^ n) :: u64) = b * 2 ^ n mod 2 ^ 64" by (simp only: uint_word_of_int len64_eq)
    then have "2 ^ n dvd uint (word_of_int (b * 2 ^ n) :: u64)"
      using d64 by (simp only: dvd_mod_iff dvd_triv_right)
    then have "2 ^ n dvd ?v" using d64 by (simp only: sint_u64 split: if_splits) (simp add: dvd_diff del: power_numeral)
    then obtain m where m: "?v = 2 ^ n * m" by (elim dvdE)
    have "\<bar>m\<bar> < 2 ^ 53"
    proof (rule ccontr)
      assume "\<not> \<bar>m\<bar> < 2 ^ 53"
      moreover have "(2 :: int) ^ 22 \<le> 2 ^ n" using False by (intro power_increasing) simp_all
      ultimately have "(2 :: int) ^ 22 * 2 ^ 53 \<le> 2 ^ n * \<bar>m\<bar>" by (intro mult_mono) simp_all
      then have "2 ^ 75 \<le> \<bar>?v\<bar>" by (simp only: m abs_mult) simp
      moreover have "- (2 ^ 63) \<le> ?v" "?v < 2 ^ 63" by (rule sint_u64_range)+
      ultimately show False by (simp del: of_int_mult)
    qed
    then show ?thesis unfolding fits53_def using m by (auto intro!: exI [of _ m] exI [of _ n])
  qed
qed

lemma fits53_dropped:
  assumes "0 \<le> b" "b < 2 ^ 32"
  shows "fits53 (b div 2 ^ n)"
proof -
  have "b div 2 ^ n \<le> b div 1" using assms by (intro zdiv_mono2) simp_all
  moreover have "0 \<le> b div 2 ^ n" using assms by (simp add: pos_imp_zdiv_nonneg_iff)
  ultimately show ?thesis using assms by (intro fits53_small) simp
qed

lemma shiftl_word: "oclj_shiftl x y =
    (if 0 \<le> y then word_of_int (uint x * 2 ^ nat y) else word_of_int (uint x div 2 ^ nat (- y)))"
proof -
  have "oclj_shiftl x y = word_of_int (uint (oclj_shiftl x y))" by simp
  then show ?thesis
    by (cases "0 \<le> y") (simp_all only: uint_shiftl u64_of_int_mod if_True if_False)
qed

lemma fits53_shiftl:
  assumes "0 \<le> b" "b < 2 ^ 32"
  shows "fits53 (sint (oclj_shiftl (word_of_int b) y))"
proof (cases "0 \<le> y")
  case True
  have b: "uint (word_of_int b :: u64) = b" using assms by (simp add: uint_u64_of_int)
  then show ?thesis using fits53_shifted [OF assms] True by (simp only: shiftl_word if_True b)
next
  case False
  have b: "uint (word_of_int b :: u64) = b" using assms by (simp add: uint_u64_of_int)
  then have "uint (oclj_shiftl (word_of_int b) y) \<le> b"
    using False div_pow_le [OF assms(1)] by (simp only: uint_shiftl b if_False)
  then show ?thesis using assms by (intro fits53_small_uint) simp
qed

lemma fits53_masked:
  assumes b: "0 \<le> b" "b < 2 ^ 32"
    and c: "p \<in> {BAND, BOR, BXOR} \<Longrightarrow> 0 \<le> c \<and> c < 2 ^ 32"
  shows "fits53 (sint (oclj_bitop64 p b c))"
proof -
  have ub: "uint (word_of_int b :: u64) = b" using b by (simp add: uint_u64_of_int)
  have uc: "uint (word_of_int c :: u64) = c" if "p \<in> {BAND, BOR, BXOR}"
    using c [OF that] by (simp add: uint_u64_of_int)
  show ?thesis
  proof (cases p)
    case BNOT
    have "sint (NOT (word_of_int b :: u64)) = - 1 - b" using b by (simp add: sint_u64 uint_not_u64 ub)
    then show ?thesis using BNOT b by (simp add: oclj_bitop64_def fits53_small)
  next
    case BAND
    have "b AND c < 2 ^ 32" using b c BAND by (meson AND_upper1 order_le_less_trans)
    then show ?thesis using BAND ub uc
      by (simp add: oclj_bitop64_def unsigned_and_eq fits53_small_uint)
  next
    case BOR
    have "b OR c < 2 ^ 32" using b c BOR by (intro OR_upper) simp_all
    then show ?thesis using BOR ub uc
      by (simp add: oclj_bitop64_def unsigned_or_eq fits53_small_uint)
  next
    case BXOR
    have "b XOR c < 2 ^ 32" using b c BXOR by (intro XOR_upper) simp_all
    then show ?thesis using BXOR ub uc
      by (simp add: oclj_bitop64_def unsigned_xor_eq fits53_small_uint)
  next
    case BSAR
    show ?thesis
    proof (cases "0 \<le> c")
      case True
      have "sint (word_of_int b :: u64) = b" using b by (simp add: sint_u64_of_int)
      then show ?thesis using BSAR True fits53_dropped [OF b]
        by (simp add: oclj_bitop64_def sint_shiftar)
    next
      case False
      then show ?thesis using BSAR fits53_shifted [OF b]
        by (simp only: oclj_bitop64_def Let_def bitop.case sint_shiftar if_False ub)
    qed
  qed (simp_all add: oclj_bitop64_def fits53_shiftl [OF b] del: of_int_minus)
qed

lemma meta_bitop_Inr:
  "oclj_meta_bitop scan slot p rb rc = Inr n \<longleftrightarrow>
     (\<exists>b c. ob_toint scan rb = Some b \<and> ob_toint scan rc = Some c \<and>
        fits53 (sint (oclj_bitop64 p b c)) \<and> n = d_of_int (sint (oclj_bitop64 p b c)))"
  by (auto simp: oclj_meta_bitop_def bit2num_eq split: option.splits)

lemma ob_toint_tonum: "ob_toint scan v \<noteq> None \<Longrightarrow> ob_tonum scan v \<noteq> None"
  by (auto simp: ob_toint_def split: option.splits)

text \<open>Which error: the operand it blames is the first one that fails.\<close>

lemma meta_bitop_errors:
  "oclj_meta_bitop scan slot p rb rc = Inl e \<longleftrightarrow>
     (if ob_tonum scan rb = None then e = ob_err_type slot OpB rb
      else if ob_tonum scan rc = None then e = ob_err_type slot OpC rc
      else if ob_toint scan rb = None then e = ob_err_noint slot OpB
      else if ob_toint scan rc = None then e = ob_err_noint slot OpC
      else \<not> fits53 (sint (oclj_bitop64 p (the (ob_toint scan rb)) (the (ob_toint scan rc))))
        \<and> e = ob_err_inexact p)"
  using ob_toint_tonum [of scan rb] ob_toint_tonum [of scan rc]
  by (auto simp: oclj_meta_bitop_def bit2num_eq split: option.splits)

lemma toint_of_int:
  assumes "fits53 i" "- (2 ^ 63) \<le> i" "i < 2 ^ 63"
  shows "ob_toint scan (TvNum (d_of_int i)) = Some i"
  using assms d_of_int_small_rat [of i]
  by (simp add: ob_toint_def ob_tonum_def flt2int_iff)

lemma meta_bitop_ints:
  assumes "fits53 b" "- (2 ^ 63) \<le> b" "b < 2 ^ 63" "fits53 c" "- (2 ^ 63) \<le> c" "c < 2 ^ 63"
    and "sint (oclj_bitop64 p b c) = r" "fits53 r"
  shows "oclj_meta_bitop scan slot p (TvNum (d_of_int b)) (TvNum (d_of_int c)) = Inr (d_of_int r)"
  using assms by (simp add: meta_bitop_Inr toint_of_int)

lemma INT64_MIN_le: "0 \<le> i \<Longrightarrow> INT64_MIN \<le> i"
  by simp

lemma sint_u64_nonneg: "0 \<le> i \<Longrightarrow> i < 2 ^ 63 \<Longrightarrow> sint (word_of_int i :: u64) = i"
  by (rule sint_u64_of_int) simp_all

lemma sint_bitop_and: "0 \<le> b \<Longrightarrow> b < 2 ^ 63 \<Longrightarrow> 0 \<le> c \<Longrightarrow> c < 2 ^ 63 \<Longrightarrow>
    sint (oclj_bitop64 BAND b c) = b AND c"
  using AND_upper1 [of b c]
  by (simp add: oclj_bitop64_def sint_of_uint_small unsigned_and_eq uint_u64_of_int)

lemma sint_bitop_or: "0 \<le> b \<Longrightarrow> b < 2 ^ 63 \<Longrightarrow> 0 \<le> c \<Longrightarrow> c < 2 ^ 63 \<Longrightarrow>
    sint (oclj_bitop64 BOR b c) = b OR c"
  using OR_upper [of b 63 c]
  by (simp add: oclj_bitop64_def sint_of_uint_small unsigned_or_eq uint_u64_of_int)

lemma sint_bitop_shl: "0 \<le> b \<Longrightarrow> 0 \<le> n \<Longrightarrow> b * 2 ^ nat n < 2 ^ 63 \<Longrightarrow> b < 2 ^ 63 \<Longrightarrow>
    sint (oclj_bitop64 BSHL b n) = push_bit (nat n) b"
  by (simp add: oclj_bitop64_def shiftl_word uint_u64_of_int sint_u64_of_int push_bit_eq_mult
      del: of_int_mult)
    (subst sint_u64_nonneg, simp_all)

lemma sint_bitop_shr: "0 \<le> b \<Longrightarrow> 0 < n \<Longrightarrow> b < 2 ^ 63 \<Longrightarrow> n < 2 ^ 63 \<Longrightarrow>
    sint (oclj_bitop64 BSHR b n) = drop_bit (nat n) b"
  using div_pow_le [of b "nat n"]
  by (simp add: oclj_bitop64_def shiftl_word uint_u64_of_int  drop_bit_eq_div)
    (subst sint_u64_nonneg, simp_all add: pos_imp_zdiv_nonneg_iff)

lemma rotate_bits:
  assumes "0 \<le> x" "x < 2 ^ 32" "0 < n" "n < 32"
  shows "uint (word_rotr n (word_of_int x :: u32)) =
    drop_bit n x OR (push_bit (32 - n) x AND mask 32)"
proof -
  have x: "uint (word_of_int x :: u32) = x" using assms by (simp add: uint_word_of_int take_bit_eq_mod)
  have t: "take_bit (32 - n) (drop_bit n x) = drop_bit n x"
    using assms by (simp add: take_bit_drop_bit take_bit_int_eq_self)
  have u: "uint (take_bit n (word_of_int x :: u32)) = take_bit n x"
    using assms by (simp add: unsigned_take_bit_eq x)
  show ?thesis using assms
    by (simp add: uint_word_rotr_eq x u concat_bit_def t take_bit_eq_mask [symmetric] take_bit_push_bit)
qed


section \<open>The properties\<close>

text \<open>The shifts are the arithmetic of 5.3.6 for every count: a left shift is multiplication
  modulo 2^64, a right shift the floor of a division (of the unsigned value for \<open>>>\<close>, of
  the signed one for \<open>~>>\<close>), and a negative count shifts the other way.\<close>

theorem shifts_arithmetic:
  "uint (oclj_shiftl x y) =
     (if 0 \<le> y then uint x * 2 ^ nat y mod 2 ^ 64 else uint x div 2 ^ nat (- y)) \<and>
   sint (oclj_shiftar x y) =
     (if 0 \<le> y then sint x div 2 ^ nat y else sint (word_of_int (uint x * 2 ^ nat (- y)) :: u64))"
  by (simp only: uint_shiftl sint_shiftar)

text \<open>A result is returned exactly when its int64 has at most 53 significant bits, and the
  double returned then equals it: no operator returns a rounded value.\<close>

theorem bit2num_exact:
  assumes "oclj_bit2num r = d"
  shows "(d = None) = (\<not> fits53 (sint r)) \<and>
    (case d of None \<Rightarrow> True | Some n \<Rightarrow> fp_rat (dval n) = Some (of_int (sint r)))"
proof -
  have "\<bar>sint r\<bar> \<le> 2 ^ 63" using sint_u64_range [of r] by auto
  then show ?thesis using assms d_of_int_small_rat [of "sint r"]
    by (auto simp: bit2num_eq split: if_splits)
qed

theorem bit2num_exact_witness:
  "oclj_bit2num 0x8000000000000000 = Some (d_of_int (- (2 ^ 63))) \<and>
   fp_rat (dval (d_of_int (- (2 ^ 63)))) = Some (- (2 ^ 63)) \<and>
   oclj_bit2num 0x20000000000001 = None \<and> \<not> fits53 0x20000000000001"
proof -
  have 1: "oclj_bit2num 0x8000000000000000 = Some (d_of_int (- (2 ^ 63)))" by code_simp
  have 2: "oclj_bit2num 0x20000000000001 = None" by code_simp
  have s: "sint (0x8000000000000000 :: u64) = - (2 ^ 63)" "sint (0x20000000000001 :: u64) = 0x20000000000001"
    by code_simp+
  show ?thesis using bit2num_exact [OF 1] bit2num_exact [OF 2] 1 2 s by simp
qed

text \<open>C13: the slow path's whole result. It returns a number exactly when both operands have an
  integer value and the 64-bit result fits a double; otherwise it raises, blaming the first
  operand that is not a number or numeric string, else the first without an integer
  representation, else the result.\<close>

theorem meta_bitop_result:
  "oclj_meta_bitop scan slot p rb rc =
     (case (ob_toint scan rb, ob_toint scan rc) of
        (Some b, Some c) \<Rightarrow>
          if fits53 (sint (oclj_bitop64 p b c)) then Inr (d_of_int (sint (oclj_bitop64 p b c)))
          else Inl (ob_err_inexact p)
      | _ \<Rightarrow> Inl (if ob_tonum scan rb = None then ob_err_type slot OpB rb
                  else if ob_tonum scan rc = None then ob_err_type slot OpC rc
                  else if ob_toint scan rb = None then ob_err_noint slot OpB
                  else ob_err_noint slot OpC))"
  using ob_toint_tonum [of scan rb] ob_toint_tonum [of scan rc]
  by (auto simp: oclj_meta_bitop_def bit2num_eq split: option.splits)

text \<open>The remedy the error message names: an operand masked to 32 bits (and, for
  \<open>& | ~\<close>, both) never raises, whatever the shift count.\<close>

theorem masked_never_raises:
  assumes "0 \<le> b" "b < 2 ^ 32" "p \<in> {BAND, BOR, BXOR} \<Longrightarrow> 0 \<le> c \<and> c < 2 ^ 32"
    "fits53 c" "- (2 ^ 63) \<le> c" "c < 2 ^ 63"
  shows "\<exists>n. oclj_meta_bitop scan slot p (TvNum (d_of_int b)) (TvNum (d_of_int c)) = Inr n"
  using assms fits53_masked [of b p c] fits53_small [of b]
  by (auto simp: meta_bitop_Inr toint_of_int)

theorem masked_never_raises_witness:
  "\<exists>n. oclj_meta_bitop (\<lambda>_. None) (\<lambda>_. None) BSHL (TvNum (d_of_int 0xFFFFFFFF)) (TvNum (d_of_int 37)) = Inr n"
  using masked_never_raises [of "0xFFFFFFFF" BSHL 37] fits53_small [of 37] by simp

text \<open>The 32-bit rotate with each half masked, \<open>(x >> n) | ((x << (32 - n)) & 0xFFFFFFFF)\<close>,
  raises at no step and is the rotation of the 32-bit word.\<close>

theorem rotate_remedy:
  assumes "0 \<le> x" "x < 2 ^ 32" "0 < n" "n < 32"
  shows "\<exists>a b c.
    oclj_meta_bitop scan slot BSHR (TvNum (d_of_int x)) (TvNum (d_of_int (int n))) = Inr a \<and>
    oclj_meta_bitop scan slot BSHL (TvNum (d_of_int x)) (TvNum (d_of_int (32 - int n))) = Inr b \<and>
    oclj_meta_bitop scan slot BAND (TvNum b) (TvNum (d_of_int 0xFFFFFFFF)) = Inr c \<and>
    oclj_meta_bitop scan slot BOR (TvNum a) (TvNum c)
      = Inr (d_of_int (uint (word_rotr n (word_of_int x :: u32))))"
proof -
  let ?a = "drop_bit n x" and ?b = "push_bit (32 - n) x"
  let ?c = "?b AND mask 32"
  have p: "(2 :: int) ^ (32 - n) \<le> 2 ^ 31" using assms by (intro power_increasing) simp_all
  then have "x * 2 ^ (32 - n) < 2 ^ 32 * 2 ^ 31" using assms by (intro mult_less_le_imp_less) simp_all
  then have b: "0 \<le> ?b" "?b < 2 ^ 63" using assms by (simp_all add: push_bit_eq_mult)
  have b': "- (2 ^ 63) \<le> ?b" by (rule order_trans [OF _ b(1)]) simp
  have a: "0 \<le> ?a" "?a < 2 ^ 32"
    using assms div_pow_le [of x n] by (simp_all add: drop_bit_eq_div pos_imp_zdiv_nonneg_iff)
  have c: "0 \<le> ?c" "?c < 2 ^ 32"
    using take_bit_int_less_exp [of 32 ?b] by (simp_all add: take_bit_eq_mask [symmetric])
  have fx: "fits53 x" "fits53 (int n)" "fits53 (32 - int n)" "fits53 0xFFFFFFFF" "fits53 ?a" "fits53 ?c"
    using assms a c by (auto intro!: fits53_small)
  have fb: "fits53 ?b"
    using fits53_shifted [of x "32 - n"] assms b
    by (simp add: sint_u64_nonneg push_bit_eq_mult del: of_int_mult)
  have d: "?a OR ?c < 2 ^ 32" "0 \<le> ?a OR ?c" using OR_upper [of ?a 32 ?c] a c by simp_all
  have 1: "oclj_meta_bitop scan slot BSHR (TvNum (d_of_int x)) (TvNum (d_of_int (int n))) = Inr (d_of_int ?a)"
    using fx assms by (intro meta_bitop_ints) (simp_all add: sint_bitop_shr)
  have 2: "oclj_meta_bitop scan slot BSHL (TvNum (d_of_int x)) (TvNum (d_of_int (32 - int n))) = Inr (d_of_int ?b)"
    using fx fb assms b by (intro meta_bitop_ints) (simp_all add: sint_bitop_shl nat_diff_distrib push_bit_eq_mult)
  have 3: "oclj_meta_bitop scan slot BAND (TvNum (d_of_int ?b)) (TvNum (d_of_int 0xFFFFFFFF)) = Inr (d_of_int ?c)"
    using fx fb assms b b' by (intro meta_bitop_ints) (simp_all add: sint_bitop_and mask_eq_exp_minus_1)
  have 4: "oclj_meta_bitop scan slot BOR (TvNum (d_of_int ?a)) (TvNum (d_of_int ?c)) = Inr (d_of_int (?a OR ?c))"
    using fx a c d by (intro meta_bitop_ints) (simp_all add: sint_bitop_or fits53_small INT64_MIN_le)
  show ?thesis using 1 2 3 4 rotate_bits [OF assms] by metis
qed

theorem rotate_remedy_witness:
  "\<exists>a b c.
    oclj_meta_bitop (\<lambda>_. None) (\<lambda>_. None) BSHR (TvNum (d_of_int 0x80000001)) (TvNum (d_of_int 4)) = Inr a \<and>
    oclj_meta_bitop (\<lambda>_. None) (\<lambda>_. None) BSHL (TvNum (d_of_int 0x80000001)) (TvNum (d_of_int 28)) = Inr b \<and>
    oclj_meta_bitop (\<lambda>_. None) (\<lambda>_. None) BAND (TvNum b) (TvNum (d_of_int 0xFFFFFFFF)) = Inr c \<and>
    oclj_meta_bitop (\<lambda>_. None) (\<lambda>_. None) BOR (TvNum a) (TvNum c) = Inr (d_of_int 0x18000000)"
proof -
  have "uint (word_rotr 4 (word_of_int 0x80000001 :: u32)) = 0x18000000" by code_simp
  then show ?thesis
    using rotate_remedy [of "0x80000001" 4 "\<lambda>_. None" "\<lambda>_. None"] by simp
qed

text \<open>Masking after the halves are joined is what the comment in the code warns of.\<close>

lemma rotate_unmasked_raises:
  "oclj_bit2num (oclj_bitop64 BOR (sint (oclj_bitop64 BSHR 0x80000010 4))
     (sint (oclj_bitop64 BSHL 0x80000010 28))) = None"
  by code_simp

end
