(* ===== verification/BitJit.thy ===== *)
theory BitJit
  imports Bitop
begin

text \<open>
  native/luajit/oclj\_bitop\_rec.c and oclj\_bitop\_fold.c: how the trace compiler records the
  bitwise operators as int64 IR, and the bound its fold rules drop conversions by. The first
  section is the IR the two files read and write, with the meaning their comments give it; the
  second the recorder, the third the bound. LuaJIT's \<open>emitir\<close>, with every fold rule behind it,
  is a parameter: \<open>emitter\<close> is what the recorder relies on, that the reference it gives back
  holds the value of the instruction asked for, and that a guard it drops could not fail.
\<close>

section \<open>The IR\<close>

text \<open>The types the two files tell apart; \<open>IRT_STR\<close> stands for every type that is not a number.\<close>

datatype irtype = IRT_NUM | IRT_INT | IRT_I64 | IRT_STR

text \<open>A CONV's mode word: source type, SEXT, IRCONV\_CHECK (IRCONV\_ANY where not) and
  OCLJ\_IRCONV\_EXACT.\<close>

record irmode =
  m_src :: irtype
  m_sext :: bool
  m_check :: bool
  m_exact :: bool

text \<open>The opcodes; the constants carry their value, and \<open>IR_SLOAD\<close> stands for every
  instruction whose value these files know only by its type.\<close>

datatype irop = IR_KINT "32 word" | IR_KINT64 u64 | IR_KNUM double | IR_SLOAD | IR_CONV
  | IR_BNOT | IR_BAND | IR_BOR | IR_BXOR | IR_BSHL | IR_BSHR | IR_BSAR | IR_ADD | IR_EQ | IR_ULT

text \<open>Only a CONV's second operand is a mode word; another instruction's is a reference.\<close>

datatype irop2 = Ref nat | Mode irmode

record irins =
  ir_o :: irop
  ir_t :: irtype
  ir_g :: bool
  ir_op1 :: nat
  ir_op2 :: irop2

definition IRT :: "irop \<Rightarrow> irtype \<Rightarrow> nat \<Rightarrow> irop2 \<Rightarrow> irins" where
  "IRT p t a b = \<lparr>ir_o = p, ir_t = t, ir_g = False, ir_op1 = a, ir_op2 = b\<rparr>"

definition IRTG :: "irop \<Rightarrow> irtype \<Rightarrow> nat \<Rightarrow> irop2 \<Rightarrow> irins" where
  "IRTG p t a b = \<lparr>ir_o = p, ir_t = t, ir_g = True, ir_op1 = a, ir_op2 = b\<rparr>"

definition kint :: "int \<Rightarrow> irins" where
  "kint k = IRT (IR_KINT (word_of_int k)) IRT_INT 0 (Ref 0)"

definition kint64 :: "u64 \<Rightarrow> irins" where
  "kint64 k = IRT (IR_KINT64 k) IRT_I64 0 (Ref 0)"

definition tref_isk :: "irins \<Rightarrow> bool" where
  "tref_isk i = (case ir_o i of IR_KINT _ \<Rightarrow> True | IR_KINT64 _ \<Rightarrow> True | IR_KNUM _ \<Rightarrow> True | _ \<Rightarrow> False)"

text \<open>A trace is its instructions in order; a reference is a position in it. \<open>J ! r\<close> is the
  code's \<open>IR(ref)\<close>.\<close>

type_synonym trace = "irins list"

subsection \<open>What a trace computes\<close>

datatype irval = VNum double | VInt "32 word" | VI64 u64 | VOther

fun val_type :: "irval \<Rightarrow> irtype" where
  "val_type (VNum _) = IRT_NUM"
| "val_type (VInt _) = IRT_INT"
| "val_type (VI64 _) = IRT_I64"
| "val_type VOther = IRT_STR"

text \<open>One run of a trace: the value each instruction that reads the outside finds, by its
  position, and whether a 32-bit register an int64 operation reads is sign-extended.\<close>

record menv =
  e_in :: "nat \<Rightarrow> irval"
  e_sext :: bool

text \<open>x64's cvttsd2si: truncation when that is an int64, else the indefinite integer.\<close>

definition cvttsd2si :: "double \<Rightarrow> int" where
  "cvttsd2si x =
     (case dval x of
        FFin _ _ _ \<Rightarrow> let t = d_trunc x in
          if INT64_MIN \<le> t \<and> t \<le> INT64_MAX then t else INT64_MIN
      | _ \<Rightarrow> INT64_MIN)"

definition int_of_num :: "double \<Rightarrow> 32 word option" where
  "int_of_num x =
     (let t = cvttsd2si x; i = word_of_int t in
      if d_eq (d_of_int (sint (i :: 32 word))) x then Some i else None)"

definition val64 :: "menv \<Rightarrow> irval list \<Rightarrow> nat \<Rightarrow> u64 option" where
  "val64 e vs r =
     (if r < length vs then
        (case vs ! r of
           VI64 y \<Rightarrow> Some y
         | VInt i \<Rightarrow> Some (if e_sext e then scast i else ucast i)
         | _ \<Rightarrow> None)
      else None)"

definition val32 :: "irval list \<Rightarrow> nat \<Rightarrow> 32 word option" where
  "val32 vs r = (if r < length vs then (case vs ! r of VInt i \<Rightarrow> Some i | _ \<Rightarrow> None) else None)"

definition valnum :: "irval list \<Rightarrow> nat \<Rightarrow> double option" where
  "valnum vs r = (if r < length vs then (case vs ! r of VNum x \<Rightarrow> Some x | _ \<Rightarrow> None) else None)"

definition conv_value :: "menv \<Rightarrow> irval list \<Rightarrow> irins \<Rightarrow> irmode \<Rightarrow> irval option" where
  "conv_value e vs i m =
     (case (ir_t i, m_src m) of
        (IRT_I64, IRT_INT) \<Rightarrow>
          map_option (\<lambda>n. VI64 (if m_sext m then scast n else ucast n)) (val32 vs (ir_op1 i))
      | (IRT_I64, IRT_NUM) \<Rightarrow>
          map_option (\<lambda>x. VI64 (word_of_int (cvttsd2si x))) (valnum vs (ir_op1 i))
      | (IRT_NUM, IRT_I64) \<Rightarrow> map_option (\<lambda>y. VNum (d_of_int (sint y))) (val64 e vs (ir_op1 i))
      | (IRT_NUM, IRT_INT) \<Rightarrow> map_option (\<lambda>n. VNum (d_of_int (sint n))) (val32 vs (ir_op1 i))
      | (IRT_INT, IRT_I64) \<Rightarrow> map_option (\<lambda>y. VInt (ucast y)) (val64 e vs (ir_op1 i))
      | (IRT_INT, IRT_NUM) \<Rightarrow>
          if m_check m then Option.bind (valnum vs (ir_op1 i)) (\<lambda>x. map_option VInt (int_of_num x))
          else map_option (\<lambda>x. VInt (word_of_int (cvttsd2si x))) (valnum vs (ir_op1 i))
      | _ \<Rightarrow> None)"

definition shift_count :: "irval list \<Rightarrow> nat \<Rightarrow> nat option" where
  "shift_count vs r = map_option (\<lambda>n. unat (n AND 63)) (val32 vs r)"

text \<open>The value of one instruction, None where its guard leaves the trace.\<close>

definition map2_option :: "('a \<Rightarrow> 'b \<Rightarrow> 'c) \<Rightarrow> 'a option \<Rightarrow> 'b option \<Rightarrow> 'c option" where
  "map2_option f a b = (case (a, b) of (Some x, Some y) \<Rightarrow> Some (f x y) | _ \<Rightarrow> None)"

definition ir_value :: "menv \<Rightarrow> irval list \<Rightarrow> irins \<Rightarrow> irval option" where
  "ir_value e vs i =
     (let input = (if val_type (e_in e (length vs)) = ir_t i then Some (e_in e (length vs)) else None);
          un = (\<lambda>f. if ir_t i = IRT_I64 then map_option (VI64 \<circ> f) (val64 e vs (ir_op1 i)) else input);
          bin = (\<lambda>f. case (ir_t i, ir_op2 i) of
              (IRT_I64, Ref r) \<Rightarrow> map2_option (\<lambda>x y. VI64 (f x y)) (val64 e vs (ir_op1 i)) (val64 e vs r)
            | _ \<Rightarrow> input);
          shift = (\<lambda>f. case (ir_t i, ir_op2 i) of
              (IRT_I64, Ref r) \<Rightarrow> map2_option (\<lambda>x n. VI64 (f n x)) (val64 e vs (ir_op1 i)) (shift_count vs r)
            | _ \<Rightarrow> input);
          guard = (\<lambda>b. if b then Some VOther else None) in
      case ir_o i of
        IR_KINT k \<Rightarrow> Some (VInt k)
      | IR_KINT64 k \<Rightarrow> Some (VI64 k)
      | IR_KNUM x \<Rightarrow> Some (VNum x)
      | IR_SLOAD \<Rightarrow> input
      | IR_CONV \<Rightarrow> (case ir_op2 i of Mode m \<Rightarrow> conv_value e vs i m | _ \<Rightarrow> None)
      | IR_BNOT \<Rightarrow> un (\<lambda>x. NOT x)
      | IR_BAND \<Rightarrow> bin (\<lambda>x y. x AND y)
      | IR_BOR \<Rightarrow> bin (\<lambda>x y. x OR y)
      | IR_BXOR \<Rightarrow> bin (\<lambda>x y. x XOR y)
      | IR_ADD \<Rightarrow> bin (\<lambda>x y. x + y)
      | IR_BSHL \<Rightarrow> shift push_bit
      | IR_BSHR \<Rightarrow> shift drop_bit
      | IR_BSAR \<Rightarrow> shift signed_drop_bit
      | IR_EQ \<Rightarrow> (case (ir_t i, ir_op2 i) of
            (IRT_NUM, Ref r) \<Rightarrow>
              Option.bind (map2_option d_eq (valnum vs (ir_op1 i)) (valnum vs r)) guard
          | (IRT_I64, Ref r) \<Rightarrow>
              Option.bind (map2_option (=) (val64 e vs (ir_op1 i)) (val64 e vs r)) guard
          | _ \<Rightarrow> None)
      | IR_ULT \<Rightarrow> (case (ir_t i, ir_op2 i) of
            (IRT_INT, Ref r) \<Rightarrow>
              Option.bind (map2_option (<) (val32 vs (ir_op1 i)) (val32 vs r)) guard
          | _ \<Rightarrow> None))"

fun ir_run :: "menv \<Rightarrow> trace \<Rightarrow> irval list \<Rightarrow> irval list option" where
  "ir_run e [] vs = Some vs"
| "ir_run e (i # J) vs =
     (case ir_value e vs i of None \<Rightarrow> None | Some v \<Rightarrow> ir_run e J (vs @ [v]))"

definition ir_exec :: "menv \<Rightarrow> trace \<Rightarrow> irval list option" where
  "ir_exec e J = ir_run e J []"

section \<open>The recorder\<close>

datatype trerr = LJ_TRERR_BADTYPE | LJ_TRERR_OTHER

type_synonym emitir = "trace \<Rightarrow> irins \<Rightarrow> trerr + (trace \<times> nat)"

text \<open>The modes of the conversions the recorder asks for.\<close>

definition CONV_I64_INT :: irmode where
  "CONV_I64_INT = \<lparr>m_src = IRT_INT, m_sext = True, m_check = False, m_exact = False\<rparr>"

definition CONV_I64_NUM :: irmode where
  "CONV_I64_NUM = \<lparr>m_src = IRT_NUM, m_sext = False, m_check = False, m_exact = False\<rparr>"

definition CONV_NUM_I64_EXACT :: irmode where
  "CONV_NUM_I64_EXACT = \<lparr>m_src = IRT_I64, m_sext = False, m_check = False, m_exact = True\<rparr>"

definition CONV_I64_NUM_EXACT :: irmode where
  "CONV_I64_NUM_EXACT = \<lparr>m_src = IRT_NUM, m_sext = False, m_check = False, m_exact = True\<rparr>"

definition CONV_INT_NUM_CHECK :: irmode where
  "CONV_INT_NUM_CHECK = \<lparr>m_src = IRT_NUM, m_sext = False, m_check = True, m_exact = False\<rparr>"

definition oclj_rec_bitval :: "tvalue \<Rightarrow> trerr + int" where
  "oclj_rec_bitval tv =
     (case tv of
        TvNum x \<Rightarrow> (case oclj_flt2int x of Some k \<Rightarrow> Inr k | None \<Rightarrow> Inl LJ_TRERR_BADTYPE)
      | _ \<Rightarrow> Inl LJ_TRERR_BADTYPE)"

definition tref_isnumber :: "irins \<Rightarrow> bool" where
  "tref_isnumber i = (ir_t i = IRT_INT \<or> ir_t i = IRT_NUM)"

definition oclj_rec_bitcount :: "trace \<Rightarrow> nat \<Rightarrow> tvalue \<Rightarrow> trerr + int" where
  "oclj_rec_bitcount J tr tv =
     (if \<not> tref_isnumber (J ! tr) then Inl LJ_TRERR_BADTYPE else oclj_rec_bitval tv)"

definition oclj_rec_bitarg :: "emitir \<Rightarrow> trace \<Rightarrow> nat \<Rightarrow> tvalue \<Rightarrow> trerr + (trace \<times> nat)" where
  "oclj_rec_bitarg emit J tr tv =
     (if ir_t (J ! tr) = IRT_INT then emit J (IRT IR_CONV IRT_I64 tr (Mode CONV_I64_INT))
      else if ir_t (J ! tr) \<noteq> IRT_NUM then Inl LJ_TRERR_BADTYPE
      else ebind (oclj_rec_bitval tv) (\<lambda>k.
        if tref_isk (J ! tr) then emit J (kint64 (word_of_int k))
        else
          ebind (emit J (IRT IR_CONV IRT_I64 tr (Mode CONV_I64_NUM))) (\<lambda>(J1, i).
          ebind (emit J1 (IRT IR_CONV IRT_NUM i (Mode CONV_NUM_I64_EXACT))) (\<lambda>(J2, back).
          ebind (emit J2 (IRTG IR_EQ IRT_NUM back (Ref tr))) (\<lambda>(J3, _).
          Inr (J3, i))))))"

text \<open>The IR opcode of an operator: the code's \<open>op - BC_BAND + IR_BAND\<close>, and its choice among
  the shifts.\<close>

definition ir_of_op :: "bitop \<Rightarrow> irop" where
  "ir_of_op p =
     (case p of BNOT \<Rightarrow> IR_BNOT | BAND \<Rightarrow> IR_BAND | BOR \<Rightarrow> IR_BOR | BXOR \<Rightarrow> IR_BXOR
      | BSHL \<Rightarrow> IR_BSHL | BSHR \<Rightarrow> IR_BSHR | BSAR \<Rightarrow> IR_BSAR)"

text \<open>A shift of \<open>a\<close> by a constant, given as the opcode and its int constant.\<close>

definition rec_shift_by :: "emitir \<Rightarrow> trace \<Rightarrow> irop \<Rightarrow> nat \<Rightarrow> int \<Rightarrow> trerr + (trace \<times> nat)" where
  "rec_shift_by emit J p a k =
     ebind (emit J (kint k)) (\<lambda>(J1, n). emit J1 (IRT p IRT_I64 a (Ref n)))"

definition rec_shift_const :: "emitir \<Rightarrow> trace \<Rightarrow> bitop \<Rightarrow> nat \<Rightarrow> int \<Rightarrow> trerr + (trace \<times> nat)" where
  "rec_shift_const emit J p a k =
     (if p = BSAR then
        (if 64 \<le> k then rec_shift_by emit J IR_BSAR a 63
         else if 0 \<le> k then rec_shift_by emit J IR_BSAR a k
         else if - 64 < k then rec_shift_by emit J IR_BSHL a (- k)
         else emit J (kint64 0))
      else
        (let s = (if p = BSHL then k else if k = INT64_MIN then INT64_MIN else - k) in
         if 64 \<le> s \<or> s \<le> - 64 then emit J (kint64 0)
         else rec_shift_by emit J (if 0 \<le> s then IR_BSHL else IR_BSHR) a (if 0 \<le> s then s else - s)))"

definition rec_shift_var ::
  "emitir \<Rightarrow> trace \<Rightarrow> bitop \<Rightarrow> nat \<Rightarrow> nat \<Rightarrow> int \<Rightarrow> trerr + (trace \<times> nat)" where
  "rec_shift_var emit J p a rc k =
     (if k < 0 \<or> 63 < k then Inl LJ_TRERR_BADTYPE
      else
        ebind (if ir_t (J ! rc) = IRT_INT then Inr (J, rc)
               else emit J (IRTG IR_CONV IRT_INT rc (Mode CONV_INT_NUM_CHECK))) (\<lambda>(J1, cnt).
        ebind (emit J1 (kint 64)) (\<lambda>(J2, n).
        ebind (emit J2 (IRTG IR_ULT IRT_INT cnt (Ref n))) (\<lambda>(J3, _).
        emit J3 (IRT (ir_of_op p) IRT_I64 a (Ref cnt))))))"

text \<open>The operator itself: operands, then the int64 result \<open>res\<close>.\<close>

definition rec_int64 ::
  "emitir \<Rightarrow> trace \<Rightarrow> bitop \<Rightarrow> nat \<Rightarrow> nat \<Rightarrow> tvalue \<Rightarrow> tvalue \<Rightarrow> trerr + (trace \<times> nat)" where
  "rec_int64 emit J p rb rc rbv rcv =
     (if p = BNOT then
        ebind (oclj_rec_bitarg emit J rc rcv) (\<lambda>(J1, a). emit J1 (IRT IR_BNOT IRT_I64 a (Ref 0)))
      else if p \<in> {BAND, BOR, BXOR} then
        ebind (oclj_rec_bitarg emit J rb rbv) (\<lambda>(J1, a).
        ebind (oclj_rec_bitarg emit J1 rc rcv) (\<lambda>(J2, b).
        emit J2 (IRT (ir_of_op p) IRT_I64 a (Ref b))))
      else
        ebind (oclj_rec_bitcount J rc rcv) (\<lambda>k.
        ebind (oclj_rec_bitarg emit J rb rbv) (\<lambda>(J1, a).
        if tref_isk (J1 ! rc) then rec_shift_const emit J1 p a k
        else rec_shift_var emit J1 p a rc k)))"

text \<open>The record-time decision: a result that raises now is not recorded.\<close>

definition rec_decide :: "bitop \<Rightarrow> tvalue \<Rightarrow> tvalue \<Rightarrow> trerr + unit" where
  "rec_decide p rbv rcv =
     (let fit = (\<lambda>r. require (oclj_bit2num r \<noteq> None) LJ_TRERR_BADTYPE) in
      if p = BNOT then ebind (oclj_rec_bitval rcv) (\<lambda>c. fit (oclj_bitop64 BNOT c 0))
      else ebind (oclj_rec_bitval rbv) (\<lambda>b. ebind (oclj_rec_bitval rcv) (\<lambda>c.
        fit (oclj_bitop64 p b c))))"

text \<open>The result's double and the guard that it is exact.\<close>

definition rec_result :: "emitir \<Rightarrow> trace \<Rightarrow> nat \<Rightarrow> trerr + (trace \<times> nat)" where
  "rec_result emit J res =
     ebind (emit J (IRT IR_CONV IRT_NUM res (Mode CONV_NUM_I64_EXACT))) (\<lambda>(J1, d).
     if tref_isk (J ! res) then Inr (J1, d)
     else
       ebind (emit J1 (IRT IR_CONV IRT_I64 d (Mode CONV_I64_NUM_EXACT))) (\<lambda>(J2, back).
       ebind (emit J2 (IRTG IR_EQ IRT_I64 back (Ref res))) (\<lambda>(J3, _).
       Inr (J3, d))))"

definition oclj_rec_bitop ::
  "emitir \<Rightarrow> trace \<Rightarrow> bitop \<Rightarrow> nat \<Rightarrow> nat \<Rightarrow> tvalue \<Rightarrow> tvalue \<Rightarrow> trerr + (trace \<times> nat)" where
  "oclj_rec_bitop emit J p rb rc rbv rcv =
     ebind (rec_decide p rbv rcv) (\<lambda>_.
     ebind (rec_int64 emit J p rb rc rbv rcv) (\<lambda>(J1, res).
     rec_result emit J1 res))"

section \<open>The bound\<close>

lemma drop1_less: "(u :: u64) \<noteq> 0 \<Longrightarrow> nat (uint (drop_bit (Suc 0) u)) < nat (uint u)"
proof -
  assume "u \<noteq> 0"
  then have "uint u \<noteq> 0" by (simp add: unsigned_eq_0_iff)
  then have "0 < uint u" by (simp add: order_less_le)
  then have "uint u div 2 < uint u" by simp
  then have "uint (drop_bit (Suc 0) u) < uint u" using uint_drop_u64 [of "Suc 0" u] by simp
  then show ?thesis using \<open>0 < uint u\<close> by (simp only: nat_mono_iff)
qed

function kwidth_loop :: "u64 \<Rightarrow> int \<Rightarrow> int" where
  "kwidth_loop u w = (if u = 0 then w else kwidth_loop (drop_bit (Suc 0) u) (w + 1))"
  by pat_completeness auto

termination
  by (relation "measure (\<lambda>(u, _). nat (uint u))") (simp_all only: wf_measure in_measure case_prod_conv not_False_eq_True drop1_less)

declare kwidth_loop.simps [simp del]

definition oclj_kwidth :: "u64 \<Rightarrow> int" where
  "oclj_kwidth k = kwidth_loop (if sint k < 0 then NOT k else k) 1"

text \<open>The switch over the opcodes; \<open>w\<close> is the bound of an operand, one deeper.\<close>

definition bitwidth_op :: "trace \<Rightarrow> (nat \<Rightarrow> int) \<Rightarrow> irins \<Rightarrow> int" where
  "bitwidth_op J w i =
     (let const = (\<lambda>r. case ir_o (J ! r) of IR_KINT n \<Rightarrow> Some (uint (n AND 63)) | _ \<Rightarrow> None);
          wa = w (ir_op1 i) in
      case ir_op2 i of
        Mode m \<Rightarrow>
          (case ir_o i of
             IR_CONV \<Rightarrow> if m_src m = IRT_INT then if m_sext m then 32 else 33 else 64
           | IR_BNOT \<Rightarrow> wa
           | _ \<Rightarrow> 64)
      | Ref r2 \<Rightarrow>
          (case ir_o i of
             IR_BAND \<Rightarrow>
               (case ir_o (J ! r2) of
                  IR_KINT64 k \<Rightarrow> if 0 \<le> sint k then oclj_kwidth k else max wa (w r2)
                | _ \<Rightarrow> max wa (w r2))
           | IR_BOR \<Rightarrow> max wa (w r2)
           | IR_BXOR \<Rightarrow> max wa (w r2)
           | IR_BNOT \<Rightarrow> wa
           | IR_ADD \<Rightarrow> min 64 (max wa (w r2) + 1)
           | IR_BSHL \<Rightarrow> (case const r2 of Some n \<Rightarrow> min 64 (wa + n) | None \<Rightarrow> 64)
           | IR_BSHR \<Rightarrow> (case const r2 of Some n \<Rightarrow> if 1 \<le> n then 65 - n else 64 | None \<Rightarrow> 64)
           | IR_BSAR \<Rightarrow> (case const r2 of Some n \<Rightarrow> max 1 (wa - n) | None \<Rightarrow> 64)
           | _ \<Rightarrow> 64))"

function oclj_bitwidth :: "trace \<Rightarrow> nat \<Rightarrow> nat \<Rightarrow> int" where
  "oclj_bitwidth J r depth =
     (case ir_o (J ! r) of
        IR_KINT64 k \<Rightarrow> oclj_kwidth k
      | _ \<Rightarrow>
        if ir_t (J ! r) = IRT_INT then 33
        else if ir_t (J ! r) \<noteq> IRT_I64 \<or> 6 < depth then 64
        else bitwidth_op J (\<lambda>a. oclj_bitwidth J a (depth + 1)) (J ! r))"
  by pat_completeness auto

termination
  by (relation "measure (\<lambda>(_, _, d). 7 - d)") auto

declare oclj_bitwidth.simps [simp del]

definition oclj_isnumconv :: "trace \<Rightarrow> nat \<Rightarrow> bool" where
  "oclj_isnumconv J r =
     (let i = J ! r in
      ir_o i = IR_CONV \<and> ir_t i = IRT_I64 \<and> \<not> ir_g i \<and>
      (case ir_op2 i of Mode m \<Rightarrow> m_src m = IRT_NUM | _ \<Rightarrow> False))"

section \<open>Runs of a trace\<close>

lemma ir_run_append: "ir_run e (J @ K) vs = Option.bind (ir_run e J vs) (ir_run e K)"
  by (induction J arbitrary: vs) (auto split: option.splits)

lemma ir_run_length: "ir_run e J vs = Some ws \<Longrightarrow> \<exists>us. ws = vs @ us \<and> length us = length J"
  by (induction J arbitrary: vs) (fastforce split: option.splits)+

lemma exec_length: "ir_exec e J = Some vs \<Longrightarrow> length vs = length J"
  using ir_run_length [of e J "[]" vs] by (auto simp: ir_exec_def)

lemma exec_append_None: "ir_exec e J = None \<Longrightarrow> ir_exec e (J @ K) = None"
  by (simp add: ir_exec_def ir_run_append)

lemma exec_append_Some:
  assumes "ir_exec e (J @ K) = Some ws" "ir_exec e J = Some vs"
  shows "\<exists>us. ws = vs @ us"
  using assms ir_run_length [of e K vs ws] by (auto simp: ir_exec_def ir_run_append)

lemma exec_prefix: "ir_exec e (J @ K) = Some ws \<Longrightarrow> \<exists>vs. ir_exec e J = Some vs"
  by (cases "ir_exec e J") (auto simp: exec_append_None)

lemma exec_value:
  assumes "ir_exec e J = Some vs" "r < length J"
  shows "ir_value e (take r vs) (J ! r) = Some (vs ! r)"
proof -
  let ?A = "take r J" and ?B = "drop (Suc r) J"
  have J: "J = ?A @ (J ! r # ?B)" using assms(2) by (simp add: id_take_nth_drop)
  then obtain ws where ws: "ir_exec e ?A = Some ws" using assms(1) exec_prefix [of e ?A] by metis
  then have l: "length ws = r" using exec_length assms(2) by fastforce
  have "ir_run e (J ! r # ?B) ws = Some vs"
    using assms(1) ws J by (metis ir_exec_def ir_run_append bind.bind_lunit)
  then obtain v where v: "ir_value e ws (J ! r) = Some v" "ir_run e ?B (ws @ [v]) = Some vs"
    by (auto split: option.splits)
  then obtain us where "vs = (ws @ [v]) @ us" using ir_run_length by blast
  then show ?thesis using v l by (simp add: nth_append)
qed

lemma exec_const:
  assumes "ir_exec e J = Some vs" "ir_exec e' J = Some ws" "r < length J" "tref_isk (J ! r)"
  shows "vs ! r = ws ! r"
  using exec_value [OF assms(1,3)] exec_value [OF assms(2,3)] assms(4)
  by (auto simp: ir_value_def tref_isk_def Let_def split: irop.splits)

section \<open>What the recorder relies on\<close>

definition ir_check :: "irins \<Rightarrow> bool" where
  "ir_check i = (ir_o i = IR_EQ \<or> ir_o i = IR_ULT)"

text \<open>The operands of an instruction are there.\<close>

definition ir_refs :: "trace \<Rightarrow> irins \<Rightarrow> bool" where
  "ir_refs J i = (tref_isk i \<or>
     (ir_op1 i < length J \<and> (case ir_op2 i of Ref r \<Rightarrow> r < length J | Mode _ \<Rightarrow> True)))"

text \<open>Asking for an instruction adds to the trace; a run that got this far goes on exactly when the
  instruction lets it, and the reference returned then holds its value (a comparison's is not used).\<close>

definition emitter :: "emitir \<Rightarrow> bool" where
  "emitter emit = (\<forall>J i J' r. emit J i = Inr (J', r) \<longrightarrow> ir_refs J i \<longrightarrow>
     (\<exists>K. J' = J @ K) \<and> r < length J' \<and>
     (\<forall>e vs. ir_exec e J = Some vs \<longrightarrow>
       (case ir_value e vs i of
          None \<Rightarrow> ir_exec e J' = None
        | Some v \<Rightarrow> \<exists>us. ir_exec e J' = Some (vs @ us) \<and> (ir_check i \<or> (vs @ us) ! r = v))))"

text \<open>The plain emitter, which folds nothing, is one.\<close>

definition emit_plain :: emitir where
  "emit_plain J i = Inr (J @ [i], length J)"

lemma emitter_plain: "emitter emit_plain"
proof -
  have "ir_exec e (J @ [i]) = (case ir_value e vs i of None \<Rightarrow> None | Some v \<Rightarrow> Some (vs @ [v]))"
    if "ir_exec e J = Some vs" for e J i vs
    using that by (simp add: ir_exec_def ir_run_append split: option.split)
  then show ?thesis
    by (auto simp: emitter_def emit_plain_def exec_length nth_append split: option.split)
qed

lemma emit_ext:
  assumes "emitter emit" "emit J i = Inr (J', r)" "ir_refs J i"
  shows "\<exists>K. J' = J @ K" "r < length J'"
  using assms by (auto simp: emitter_def)

lemma emitterD:
  assumes "emitter emit" "emit J i = Inr (J', r)" "ir_refs J i" "ir_exec e J = Some vs"
  shows "case ir_value e vs i of
      None \<Rightarrow> ir_exec e J' = None
    | Some v \<Rightarrow> \<exists>us. ir_exec e J' = Some (vs @ us) \<and> (ir_check i \<or> (vs @ us) ! r = v)"
  by (rule assms(1) [unfolded emitter_def, rule_format, OF assms(2,3), THEN conjunct2, THEN conjunct2,
        rule_format, OF assms(4)])

text \<open>A part of the recorder, seen from one run: it goes on to values \<open>us\<close> with \<open>r\<close> holding
  \<open>v\<close>, or it stops.\<close>

definition goes :: "menv \<Rightarrow> irval list \<Rightarrow> trace \<Rightarrow> nat \<Rightarrow> irval option \<Rightarrow> bool" where
  "goes e vs J' r q =
     (case q of
        None \<Rightarrow> ir_exec e J' = None
      | Some v \<Rightarrow> \<exists>us. ir_exec e J' = Some (vs @ us) \<and> (vs @ us) ! r = v)"

lemma goes_simps [simp]:
  "goes e vs J r None = (ir_exec e J = None)"
  "goes e vs J r (Some v) = (\<exists>us. ir_exec e J = Some (vs @ us) \<and> (vs @ us) ! r = v)"
  by (simp_all add: goes_def)

lemma emit_goes:
  assumes "emitter emit" "emit J i = Inr (J', r)" "ir_refs J i" "\<not> ir_check i" "ir_exec e J = Some vs"
  shows "goes e vs J' r (ir_value e vs i)"
  using emitterD [OF assms(1-3,5)] assms(4) by (cases "ir_value e vs i") auto

lemma emit_guards:
  assumes "emitter emit" "emit J i = Inr (J', r)" "ir_refs J i" "ir_exec e J = Some vs"
  shows "if ir_value e vs i = None then ir_exec e J' = None else \<exists>us. ir_exec e J' = Some (vs @ us)"
  using emitterD [OF assms(1-4)] by (cases "ir_value e vs i") auto

text \<open>What a value is to the interpreter, and its integer.\<close>

fun tval :: "irval \<Rightarrow> tvalue" where
  "tval (VNum x) = TvNum x"
| "tval (VInt i) = TvNum (d_of_int (sint i))"
| "tval _ = TvOther ''other''"

fun op_int :: "irval \<Rightarrow> int option" where
  "op_int (VNum x) = oclj_flt2int x"
| "op_int (VInt i) = Some (sint i)"
| "op_int _ = None"

lemma sint_u32_range: "- (2 ^ 31) \<le> sint (i :: 32 word)" "sint (i :: 32 word) < 2 ^ 31"
  using sint_greater_eq [of i] sint_less [of i] by simp_all

lemma flt2int_of_int:
  assumes "fits53 i" "- (2 ^ 63) \<le> i" "i < 2 ^ 63"
  shows "oclj_flt2int (d_of_int i) = Some i"
  using assms d_of_int_small_rat [of i] by (simp add: flt2int_iff)

lemma flt2int_int32: "oclj_flt2int (d_of_int (sint (i :: 32 word))) = Some (sint i)"
  using sint_u32_range [of i] by (intro flt2int_of_int fits53_small) auto

lemma bitval_tval: "oclj_rec_bitval (tval v) = (case op_int v of Some k \<Rightarrow> Inr k | None \<Rightarrow> Inl LJ_TRERR_BADTYPE)"
  by (cases v) (simp_all add: oclj_rec_bitval_def flt2int_int32)

lemma toint_tval: "ob_toint scan (tval v) = op_int v"
  by (cases v) (simp_all add: ob_toint_def ob_tonum_def flt2int_int32)

section \<open>The operand's conversion and its guard\<close>

lemma cvttsd2si_range: "- (2 ^ 63) \<le> cvttsd2si x" "cvttsd2si x < 2 ^ 63"
  by (auto simp: cvttsd2si_def Let_def split: fpval.splits)

lemma flt2int_cvt:
  "oclj_flt2int x = (if d_eq (d_of_int (cvttsd2si x)) x then Some (cvttsd2si x) else None)"
proof (cases "fp_rat (dval x)")
  case None
  then have "\<not> d_eq (d_of_int (cvttsd2si x)) x"
    using d_of_int_rat [of "cvttsd2si x"] cvttsd2si_range [of x] abs_le_iff [of "cvttsd2si x" "2 ^ 64"]
    by (cases "dval x"; cases "dval (d_of_int (cvttsd2si x))") (auto simp: d_eq_def)
  moreover have "oclj_flt2int x = None"
    using None flt2int_iff [of x] by (cases "oclj_flt2int x") auto
  ultimately show ?thesis by simp
next
  case (Some q)
  let ?c = "cvttsd2si x"
  have v: "fp_rat (dval (d_of_int ?c)) = Some (of_int (round53 ?c))"
    using cvttsd2si_range [of x] by (intro d_of_int_rat) auto
  have e: "d_eq (d_of_int ?c) x \<longleftrightarrow> of_int (round53 ?c) = q"
    using v Some by (simp add: d_eq_def fp_eq_rat)
  obtain s m k where d: "dval x = FFin s m k" using Some by (cases "dval x") auto
  have c: "?c = (if - (2 ^ 63) \<le> rat_trunc q \<and> rat_trunc q < 2 ^ 63 then rat_trunc q else - (2 ^ 63))"
    using d d_trunc_rat [OF Some] by (auto simp: cvttsd2si_def Let_def)
  show ?thesis
  proof (cases "oclj_flt2int x")
    case None
    have "of_int (round53 ?c) \<noteq> q"
    proof
      assume q: "of_int (round53 ?c) = q"
      then have t: "rat_trunc q = round53 ?c" by (metis rat_trunc_of_int)
      have "round53 (- (2 ^ 63)) = - (2 ^ 63)" using fits53_pow round53_eq_iff by blast
      then have r: "- (2 ^ 63) \<le> rat_trunc q \<and> rat_trunc q < 2 ^ 63" using c t by (auto split: if_splits)
      then have "q = of_int (rat_trunc q)" using q t by simp
      then have "oclj_flt2int x = Some (rat_trunc q)" using Some r flt2int_iff by simp
      then show False using None by simp
    qed
    then show ?thesis using e None by simp
  next
    case i: (Some i)
    then have i': "q = of_int i" "- (2 ^ 63) \<le> i" "i < 2 ^ 63" using flt2int_iff [of x i] Some by auto
    then have "?c = i" using c by simp
    moreover have "fits53 i" using i' Some d dval_integral_fits53 by metis
    ultimately show ?thesis using e i i' round53_eq_iff by simp
  qed
qed

end
