(* ===== verification/BitRec.thy ===== *)
theory BitRec
  imports BitJit
begin

text \<open>
  native/luajit/oclj\_bitop\_rec.c, proved: the trace the recorder adds for an operator computes what the
  interpreter computes, or leaves at a guard. One lemma for each part of the recorder says where
  a run of the trace goes (\<open>goes\<close>).
\<close>

section \<open>The recorded instructions\<close>

named_theorems ir_vals \<open>values of the instructions the recorder asks for\<close>

lemma kint_value [ir_vals]: "ir_value e vs (kint k) = Some (VInt (word_of_int k))"
  "ir_value e vs (kint64 u) = Some (VI64 u)"
  by (simp_all add: ir_value_def kint_def kint64_def IRT_def)

lemma conv_values [ir_vals]:
  "r < length vs \<Longrightarrow> vs ! r = VInt n \<Longrightarrow>
     ir_value e vs (IRT IR_CONV IRT_I64 r (Mode CONV_I64_INT)) = Some (VI64 (scast n))"
  "r < length vs \<Longrightarrow> vs ! r = VNum x \<Longrightarrow>
     ir_value e vs (IRT IR_CONV IRT_I64 r (Mode CONV_I64_NUM)) = Some (VI64 (word_of_int (cvttsd2si x)))"
  "r < length vs \<Longrightarrow> vs ! r = VNum x \<Longrightarrow>
     ir_value e vs (IRT IR_CONV IRT_I64 r (Mode CONV_I64_NUM_EXACT)) = Some (VI64 (word_of_int (cvttsd2si x)))"
  "r < length vs \<Longrightarrow> vs ! r = VI64 y \<Longrightarrow>
     ir_value e vs (IRT IR_CONV IRT_NUM r (Mode CONV_NUM_I64_EXACT)) = Some (VNum (d_of_int (sint y)))"
  "r < length vs \<Longrightarrow> vs ! r = VNum x \<Longrightarrow>
     ir_value e vs (IRTG IR_CONV IRT_INT r (Mode CONV_INT_NUM_CHECK)) = map_option VInt (int_of_num x)"
  by (simp_all add: ir_value_def conv_value_def IRT_def IRTG_def val32_def valnum_def val64_def
      CONV_I64_INT_def CONV_I64_NUM_def CONV_I64_NUM_EXACT_def CONV_NUM_I64_EXACT_def CONV_INT_NUM_CHECK_def)

lemma guard_values [ir_vals]:
  "a < length vs \<Longrightarrow> vs ! a = VNum x \<Longrightarrow> b < length vs \<Longrightarrow> vs ! b = VNum z \<Longrightarrow>
     (ir_value e vs (IRTG IR_EQ IRT_NUM a (Ref b)) = None) = (\<not> d_eq x z)"
  "a < length vs \<Longrightarrow> vs ! a = VI64 y \<Longrightarrow> b < length vs \<Longrightarrow> vs ! b = VI64 w \<Longrightarrow>
     (ir_value e vs (IRTG IR_EQ IRT_I64 a (Ref b)) = None) = (y \<noteq> w)"
  "a < length vs \<Longrightarrow> vs ! a = VInt m \<Longrightarrow> b < length vs \<Longrightarrow> vs ! b = VInt n \<Longrightarrow>
     (ir_value e vs (IRTG IR_ULT IRT_INT a (Ref b)) = None) = (\<not> m < n)"
  by (simp_all add: ir_value_def IRTG_def val32_def valnum_def val64_def map2_option_def)

lemma op_values [ir_vals]:
  "a < length vs \<Longrightarrow> vs ! a = VI64 y \<Longrightarrow>
     ir_value e vs (IRT IR_BNOT IRT_I64 a (Ref b)) = Some (VI64 (NOT y))"
  "a < length vs \<Longrightarrow> vs ! a = VI64 y \<Longrightarrow> b < length vs \<Longrightarrow> vs ! b = VI64 z \<Longrightarrow>
     ir_value e vs (IRT IR_BAND IRT_I64 a (Ref b)) = Some (VI64 (y AND z)) \<and>
     ir_value e vs (IRT IR_BOR IRT_I64 a (Ref b)) = Some (VI64 (y OR z)) \<and>
     ir_value e vs (IRT IR_BXOR IRT_I64 a (Ref b)) = Some (VI64 (y XOR z))"
  "a < length vs \<Longrightarrow> vs ! a = VI64 y \<Longrightarrow> b < length vs \<Longrightarrow> vs ! b = VInt n \<Longrightarrow>
     ir_value e vs (IRT IR_BSHL IRT_I64 a (Ref b)) = Some (VI64 (push_bit (unat (n AND 63)) y)) \<and>
     ir_value e vs (IRT IR_BSHR IRT_I64 a (Ref b)) = Some (VI64 (drop_bit (unat (n AND 63)) y)) \<and>
     ir_value e vs (IRT IR_BSAR IRT_I64 a (Ref b)) = Some (VI64 (signed_drop_bit (unat (n AND 63)) y))"
  by (simp_all add: ir_value_def IRT_def val32_def val64_def map2_option_def shift_count_def)

lemma refs_simps [simp]:
  "ir_refs J (kint k)" "ir_refs J (kint64 u)"
  "p \<in> {IR_CONV, IR_BNOT, IR_BAND, IR_BOR, IR_BXOR, IR_BSHL, IR_BSHR, IR_BSAR, IR_EQ, IR_ULT} \<Longrightarrow>
    ir_refs J (IRT p t a b) = (a < length J \<and> (case b of Ref r \<Rightarrow> r < length J | Mode _ \<Rightarrow> True))"
  "p \<in> {IR_CONV, IR_BNOT, IR_BAND, IR_BOR, IR_BXOR, IR_BSHL, IR_BSHR, IR_BSAR, IR_EQ, IR_ULT} \<Longrightarrow>
    ir_refs J (IRTG p t a b) = (a < length J \<and> (case b of Ref r \<Rightarrow> r < length J | Mode _ \<Rightarrow> True))"
  by (auto simp: ir_refs_def tref_isk_def kint_def kint64_def IRT_def IRTG_def)

lemma check_simps [simp]:
  "\<not> ir_check (kint k)" "\<not> ir_check (kint64 u)"
  "ir_check (IRT p t a b) = (p = IR_EQ \<or> p = IR_ULT)" "ir_check (IRTG p t a b) = (p = IR_EQ \<or> p = IR_ULT)"
  by (auto simp: ir_check_def kint_def kint64_def IRT_def IRTG_def)

section \<open>The operands\<close>

text \<open>A reference whose value always has the type its instruction says.\<close>

definition operand_ok :: "trace \<Rightarrow> nat \<Rightarrow> bool" where
  "operand_ok J r = (r < length J \<and>
     (\<forall>e vs. ir_exec e J = Some vs \<longrightarrow> val_type (vs ! r) = ir_t (J ! r)))"

lemma operand_ext: "operand_ok J r \<Longrightarrow> operand_ok (J @ K) r"
  unfolding operand_ok_def
  by (metis exec_append_Some exec_length exec_prefix length_append nth_append trans_less_add1)

lemma val_type_cases:
  "val_type v = IRT_INT \<longleftrightarrow> (\<exists>i. v = VInt i)" "val_type v = IRT_NUM \<longleftrightarrow> (\<exists>x. v = VNum x)"
  by (cases v; simp)+

lemma exec_ext_nth:
  assumes "ir_exec e J = Some vs" "r < length J"
  shows "(vs @ us) ! r = vs ! r" "r < length (vs @ us)"
  using assms by (simp_all add: exec_length nth_append)

lemma bitarg_ext:
  assumes "emitter emit" "tr < length J" "oclj_rec_bitarg emit J tr tv = Inr (J', a)"
  shows "(\<exists>K. J' = J @ K) \<and> a < length J'"
proof (cases "ir_t (J ! tr) = IRT_INT \<or> tref_isk (J ! tr)")
  case True
  then show ?thesis using assms emit_ext [OF assms(1)]
    by (fastforce simp: oclj_rec_bitarg_def split: if_splits)
next
  case False
  with assms(3) obtain k J1 J2 bk c where s: "emit J (IRT IR_CONV IRT_I64 tr (Mode CONV_I64_NUM)) = Inr (J1, a)"
    "emit J1 (IRT IR_CONV IRT_NUM a (Mode CONV_NUM_I64_EXACT)) = Inr (J2, bk)"
    "emit J2 (IRTG IR_EQ IRT_NUM bk (Ref tr)) = Inr (J', c)"
    by (auto simp: oclj_rec_bitarg_def split: if_splits)
  obtain K1 where 1: "J1 = J @ K1" "a < length J1" using emit_ext [OF assms(1) s(1)] assms(2) by auto
  obtain K2 where 2: "J2 = J1 @ K2" "bk < length J2" using emit_ext [OF assms(1) s(2)] 1 by auto
  obtain K3 where 3: "J' = J2 @ K3" using emit_ext [OF assms(1) s(3)] 1 2 assms(2) by auto
  show ?thesis using 1 2 3 by simp
qed

lemma bitarg_goes:
  assumes em: "emitter emit" and op: "operand_ok J tr" and e0: "ir_exec e0 J = Some vs0"
    and rec: "oclj_rec_bitarg emit J tr (tval (vs0 ! tr)) = Inr (J', a)" and e: "ir_exec e J = Some vs"
  shows "goes e vs J' a (map_option (\<lambda>k. VI64 (word_of_int k)) (op_int (vs ! tr)))"
proof -
  have tr: "tr < length J" "tr < length vs" using op exec_length [OF e] by (auto simp: operand_ok_def)
  have ty: "val_type (vs ! tr) = ir_t (J ! tr)" using op e by (simp add: operand_ok_def)
  consider (i) "ir_t (J ! tr) = IRT_INT" | (c) "ir_t (J ! tr) = IRT_NUM" "tref_isk (J ! tr)"
    | (n) "ir_t (J ! tr) = IRT_NUM" "\<not> tref_isk (J ! tr)"
    using rec by (auto simp: oclj_rec_bitarg_def split: if_splits)
  then show ?thesis
  proof cases
    case i
    then obtain n where n: "vs ! tr = VInt n" using ty val_type_cases by metis
    have r: "emit J (IRT IR_CONV IRT_I64 tr (Mode CONV_I64_INT)) = Inr (J', a)"
      using i rec by (simp add: oclj_rec_bitarg_def)
    have "goes e vs J' a (ir_value e vs (IRT IR_CONV IRT_I64 tr (Mode CONV_I64_INT)))"
      by (rule emit_goes [OF em r _ _ e]) (simp_all add: tr)
    then show ?thesis using n tr by (simp add: ir_vals)
  next
    case c
    have v: "vs ! tr = vs0 ! tr" by (rule exec_const [OF e e0 tr(1) c(2)])
    with rec c obtain k where k: "op_int (vs ! tr) = Some k" "emit J (kint64 (word_of_int k)) = Inr (J', a)"
      by (auto simp: oclj_rec_bitarg_def bitval_tval split: option.splits)
    have "goes e vs J' a (ir_value e vs (kint64 (word_of_int k)))"
      by (rule emit_goes [OF em k(2) _ _ e]) simp_all
    then show ?thesis using k by (simp add: ir_vals)
  next
    case n
    then obtain x where x: "vs ! tr = VNum x" using ty val_type_cases by metis
    from n rec obtain k J1 J2 bk c
      where s: "emit J (IRT IR_CONV IRT_I64 tr (Mode CONV_I64_NUM)) = Inr (J1, a)"
        "emit J1 (IRT IR_CONV IRT_NUM a (Mode CONV_NUM_I64_EXACT)) = Inr (J2, bk)"
        "emit J2 (IRTG IR_EQ IRT_NUM bk (Ref tr)) = Inr (J', c)"
      by (auto simp: oclj_rec_bitarg_def split: if_splits)
    let ?c = "cvttsd2si x"
    have "goes e vs J1 a (ir_value e vs (IRT IR_CONV IRT_I64 tr (Mode CONV_I64_NUM)))"
      by (rule emit_goes [OF em s(1) _ _ e]) (simp_all add: tr)
    then obtain us where 1: "ir_exec e J1 = Some (vs @ us)" "(vs @ us) ! a = VI64 (word_of_int ?c)"
      using x tr by (auto simp: ir_vals)
    have a: "a < length J1" "a < length (vs @ us)"
      using emit_ext(2) [OF em s(1)] tr exec_length [OF 1(1)] by auto
    have sc: "sint (word_of_int ?c :: u64) = ?c" using cvttsd2si_range by (intro sint_u64_of_int)
    have "goes e (vs @ us) J2 bk (ir_value e (vs @ us) (IRT IR_CONV IRT_NUM a (Mode CONV_NUM_I64_EXACT)))"
      by (rule emit_goes [OF em s(2) _ _ 1(1)]) (simp_all add: a)
    then obtain us' where 2: "ir_exec e J2 = Some ((vs @ us) @ us')"
      "((vs @ us) @ us') ! bk = VNum (d_of_int ?c)"
      using conv_values(4) [OF a(2) 1(2)] sc by auto
    have b: "bk < length J2" "bk < length ((vs @ us) @ us')"
      using emit_ext(2) [OF em s(2)] a exec_length [OF 2(1)] by auto
    have l: "tr < length ((vs @ us) @ us')" "((vs @ us) @ us') ! tr = VNum x" using tr x by (simp_all add: nth_append)
    have r: "ir_refs J2 (IRTG IR_EQ IRT_NUM bk (Ref tr))" using b l exec_length [OF 2(1)] by simp
    have g: "if \<not> d_eq (d_of_int ?c) x then ir_exec e J' = None
        else \<exists>ws. ir_exec e J' = Some (((vs @ us) @ us') @ ws)"
      using emit_guards [OF em s(3) r 2(1)] guard_values(1) [OF b(2) 2(2) l] by simp
    have "(((vs @ us) @ us') @ ws) ! a = VI64 (word_of_int ?c)" for ws
      using a(2) 1(2) by (simp only: nth_append length_append) simp
    then show ?thesis using g x by (auto simp: flt2int_cvt split: if_splits)
  qed
qed

section \<open>The shifts\<close>

lemma sint_eqI: "sint (x :: u64) = sint y \<Longrightarrow> x = y"
  by (rule signed_word_eqI)

lemma sint_signed_drop: "sint (signed_drop_bit n (x :: u64)) = sint x div 2 ^ n"
  by (simp only: sint_signed_drop_bit_eq) (simp only: drop_bit_eq_div)

lemma shiftar_signed_drop:
  "0 \<le> k \<Longrightarrow> k < 64 \<Longrightarrow> signed_drop_bit (nat k) x = oclj_shiftar x k"
  "64 \<le> k \<Longrightarrow> signed_drop_bit 63 x = oclj_shiftar x k"
proof -
  assume "0 \<le> k" then show "signed_drop_bit (nat k) x = oclj_shiftar x k"
    by (intro sint_eqI) (simp only: sint_signed_drop sint_shiftar if_True)
next
  assume "64 \<le> k"
  moreover have "sint x div 2 ^ 63 = (if sint x < 0 then - 1 else 0)"
    using sint_u64_range [of x] by (auto intro!: div_pos_pos_trivial div_neg_neg_trivial
        simp: div_pos_neg_trivial div_eq_minus1)
  ultimately show "signed_drop_bit 63 x = oclj_shiftar x k"
    by (intro sint_eqI) (simp only: sint_signed_drop sint_shiftar, simp add: sint_div_ge64)
qed

lemma count_bits: "0 \<le> k \<Longrightarrow> k < 64 \<Longrightarrow> unat ((word_of_int k :: 32 word) AND 63) = nat k"
proof -
  assume k: "0 \<le> k" "k < 64"
  have "(word_of_int k :: 32 word) AND 63 = word_of_int (k AND 63)" by (rule bit_word_eqI) (simp add: bit_simps)
  moreover have "k AND 63 = k" using k take_bit_int_eq_self [of k 6] by (simp add: take_bit_eq_mask mask_eq_exp_minus_1)
  ultimately show ?thesis using k by (simp add: unat_eq_nat_uint uint_word_of_int take_bit_int_eq_self)
qed

lemma word_count: "(n :: 32 word) < 64 \<longleftrightarrow> 0 \<le> sint n \<and> sint n \<le> 63"
  "0 \<le> sint n \<Longrightarrow> sint n \<le> 63 \<Longrightarrow> unat (n AND 63) = nat (sint n)"
proof -
  have u: "uint n = sint n mod 2 ^ 32" by (simp add: uint_sint take_bit_eq_mod)
  have "sint n mod 2 ^ 32 = (if 0 \<le> sint n then sint n else sint n + 2 ^ 32)"
    using sint_u32_range [of n] mod_pos_pos_trivial [of "sint n + 2 ^ 32" "2 ^ 32"] by simp
  then have s: "uint n = (if 0 \<le> sint n then sint n else sint n + 2 ^ 32)" using u by simp
  show "n < 64 \<longleftrightarrow> 0 \<le> sint n \<and> sint n \<le> 63" using s sint_u32_range [of n] by (auto simp: word_less_def split: if_splits)
  show "unat (n AND 63) = nat (sint n)" if "0 \<le> sint n" "sint n \<le> 63"
    using count_bits [OF that(1)] that(2) by simp
qed

lemma d_eq_rat: "fp_rat (dval a) = Some q \<Longrightarrow> d_eq a x \<longleftrightarrow> fp_rat (dval x) = Some q"
proof (cases "fp_rat (dval x)")
  case None
  assume "fp_rat (dval a) = Some q"
  then show ?thesis using None by (cases "dval a"; cases "dval x") (simp_all add: d_eq_def)
next
  case (Some r)
  assume a: "fp_rat (dval a) = Some q"
  show ?thesis using fp_eq_rat [OF a Some] Some by (auto simp: d_eq_def)
qed

lemma int_of_num_iff: "int_of_num x = Some i \<longleftrightarrow> oclj_flt2int x = Some (sint i)"
proof
  assume "int_of_num x = Some i"
  then have "d_eq (d_of_int (sint i)) x" by (auto simp: int_of_num_def Let_def split: if_splits)
  moreover have "fp_rat (dval (d_of_int (sint i))) = Some (of_int (sint i))"
    using sint_u32_range [of i] by (intro d_of_int_rat_small) auto
  ultimately have "fp_rat (dval x) = Some (of_int (sint i))"
    using d_eq_rat by blast
  then show "oclj_flt2int x = Some (sint i)" using sint_u32_range [of i] by (simp add: flt2int_iff)
next
  assume "oclj_flt2int x = Some (sint i)"
  then have "cvttsd2si x = sint i" "d_eq (d_of_int (sint i)) x" by (auto simp: flt2int_cvt split: if_splits)
  then show "int_of_num x = Some i" by (simp add: int_of_num_def)
qed

section \<open>The int64 result\<close>

lemma shift_by_goes:
  assumes em: "emitter emit" and a: "a < length J" and rec: "rec_shift_by emit J p a k = Inr (J', r)"
    and k: "0 \<le> k" "k < 64" and p: "p \<in> {IR_BSHL, IR_BSHR, IR_BSAR}"
  shows "(\<exists>K. J' = J @ K) \<and> r < length J'"
    and "ir_exec e J = Some vs \<Longrightarrow> vs ! a = VI64 y \<Longrightarrow> goes e vs J' r (Some (VI64
      ((if p = IR_BSHL then push_bit else if p = IR_BSHR then drop_bit else signed_drop_bit) (nat k) y)))"
proof -
  from rec obtain J1 n where s: "emit J (kint k) = Inr (J1, n)" "emit J1 (IRT p IRT_I64 a (Ref n)) = Inr (J', r)"
    by (auto simp: rec_shift_by_def)
  obtain K1 where 1: "J1 = J @ K1" "n < length J1" using emit_ext [OF em s(1)] by auto
  have ref: "ir_refs J1 (IRT p IRT_I64 a (Ref n))" using 1 a p by auto
  show "(\<exists>K. J' = J @ K) \<and> r < length J'" using emit_ext [OF em s(2) ref] 1 by auto
  assume e: "ir_exec e J = Some vs" and y: "vs ! a = VI64 y"
  have "goes e vs J1 n (ir_value e vs (kint k))" by (rule emit_goes [OF em s(1) _ _ e]) simp_all
  then obtain us where u: "ir_exec e J1 = Some (vs @ us)" "(vs @ us) ! n = VInt (word_of_int k)"
    by (auto simp: ir_vals)
  have n: "n < length (vs @ us)" using 1 exec_length [OF u(1)] by simp
  note ay = exec_ext_nth [OF e a, of us, unfolded y]
  have "goes e (vs @ us) J' r (ir_value e (vs @ us) (IRT p IRT_I64 a (Ref n)))"
    by (rule emit_goes [OF em s(2) ref _ u(1)]) (use p in auto)
  then show "goes e vs J' r (Some (VI64
      ((if p = IR_BSHL then push_bit else if p = IR_BSHR then drop_bit else signed_drop_bit) (nat k) y)))"
    using op_values(3) [OF ay(2,1) n u(2)] p k by (auto simp: count_bits)
qed

lemma kint64_goes:
  assumes em: "emitter emit" and rec: "emit J (kint64 u) = Inr (J', r)"
  shows "(\<exists>K. J' = J @ K) \<and> r < length J'"
    and "ir_exec e J = Some vs \<Longrightarrow> goes e vs J' r (Some (VI64 u))"
  using emit_ext [OF em rec] emit_goes [OF em rec, of e vs] by (simp_all add: ir_vals)

lemma shift_const_goes:
  assumes em: "emitter emit" and a: "a < length J" and rec: "rec_shift_const emit J p a k = Inr (J', r)"
    and p: "p \<in> {BSHL, BSHR, BSAR}"
  shows "(\<exists>K. J' = J @ K) \<and> r < length J'"
    and "ir_exec e J = Some vs \<Longrightarrow> vs ! a = VI64 (word_of_int b) \<Longrightarrow>
      goes e vs J' r (Some (VI64 (oclj_bitop64 p b k)))"
proof -
  note sb = shift_by_goes [OF em a] and c = kint64_goes [OF em]
  show "(\<exists>K. J' = J @ K) \<and> r < length J'"
    using rec by (auto simp: rec_shift_const_def Let_def split: if_splits dest: sb(1) c(1))
  assume e: "ir_exec e J = Some vs" and y: "vs ! a = VI64 (word_of_int b)"
  show "goes e vs J' r (Some (VI64 (oclj_bitop64 p b k)))"
    using rec p by (auto simp: rec_shift_const_def Let_def oclj_bitop64_def oclj_shiftl_def oclj_shiftar_def shiftar_signed_drop
        split: if_splits dest!: sb(2) [OF _ _ _ _ e y] c(2) [OF _ e] simp del: goes_simps)
qed

text \<open>A variable count: the trace goes on exactly for a count of 0 to 63.\<close>

lemma exec_step:
  assumes "ir_exec e J = Some (vs @ us)" "goes e (vs @ us) J' r q"
  shows "goes e vs J' r q"
  using assms(2) by (cases q) (auto simp: ac_simps)

lemma cnt_goes:
  assumes em: "emitter emit" and op: "operand_ok J rc"
    and ty: "ir_t (J ! rc) = IRT_INT \<or> ir_t (J ! rc) = IRT_NUM"
    and rec: "(if ir_t (J ! rc) = IRT_INT then Inr (J, rc)
        else emit J (IRTG IR_CONV IRT_INT rc (Mode CONV_INT_NUM_CHECK))) = Inr (J1, cnt)"
  shows "(\<exists>K. J1 = J @ K) \<and> cnt < length J1"
    and "ir_exec e J = Some vs \<Longrightarrow> goes e vs J1 cnt
      (case op_int (vs ! rc) of
         Some c \<Rightarrow> if - (2 ^ 31) \<le> c \<and> c < 2 ^ 31 then Some (VInt (word_of_int c)) else None
       | None \<Rightarrow> None)"
proof -
  have rc: "rc < length J" using op by (simp add: operand_ok_def)
  show "(\<exists>K. J1 = J @ K) \<and> cnt < length J1"
    using rec rc emit_ext [OF em] by (fastforce split: if_splits)
  assume e: "ir_exec e J = Some vs"
  have tv: "val_type (vs ! rc) = ir_t (J ! rc)" "rc < length vs"
    using op e exec_length [OF e] by (auto simp: operand_ok_def)
  show "goes e vs J1 cnt
      (case op_int (vs ! rc) of
         Some c \<Rightarrow> if - (2 ^ 31) \<le> c \<and> c < 2 ^ 31 then Some (VInt (word_of_int c)) else None
       | None \<Rightarrow> None)"
  proof (cases "ir_t (J ! rc) = IRT_INT")
    case True
    then obtain n where "vs ! rc = VInt n" using tv val_type_cases by metis
    then show ?thesis using True rec e sint_u32_range [of n] by auto
  next
    case False
    with ty tv obtain x where x: "vs ! rc = VNum x" using val_type_cases by metis
    have s: "emit J (IRTG IR_CONV IRT_INT rc (Mode CONV_INT_NUM_CHECK)) = Inr (J1, cnt)" using False rec by simp
    have "goes e vs J1 cnt (map_option VInt (int_of_num x))"
      using emit_goes [OF em s _ _ e] conv_values(5) [OF tv(2) x] rc by simp
    moreover have "map_option VInt (int_of_num x) =
        (case oclj_flt2int x of
           Some c \<Rightarrow> if - (2 ^ 31) \<le> c \<and> c < 2 ^ 31 then Some (VInt (word_of_int c)) else None
         | None \<Rightarrow> None)"
    proof (cases "int_of_num x")
      case None
      have "\<not> (- (2 ^ 31) \<le> c \<and> c < 2 ^ 31)" if "oclj_flt2int x = Some c" for c
      proof
        assume "- (2 ^ 31) \<le> c \<and> c < 2 ^ 31"
        then have "sint (word_of_int c :: 32 word) = c"
          by (simp add: signed_of_int signed_take_bit_int_eq_self)
        then show False using int_of_num_iff [of x "word_of_int c"] that None by simp
      qed
      then show ?thesis using None by (auto split: option.split)
    next
      case (Some i)
      then show ?thesis using int_of_num_iff [of x i] sint_u32_range [of i] by simp
    qed
    ultimately show ?thesis using x by simp
  qed
qed

lemma shift_var_goes:
  assumes em: "emitter emit" and op: "operand_ok J rc" and a: "a < length J"
    and ty: "ir_t (J ! rc) = IRT_INT \<or> ir_t (J ! rc) = IRT_NUM"
    and rec: "rec_shift_var emit J p a rc k = Inr (J', r)" and p: "p \<in> {BSHL, BSHR, BSAR}"
  shows "(\<exists>K. J' = J @ K) \<and> r < length J'"
    and "ir_exec e J = Some vs \<Longrightarrow> vs ! a = VI64 (word_of_int b) \<Longrightarrow> goes e vs J' r
      (case op_int (vs ! rc) of
         Some c \<Rightarrow> if 0 \<le> c \<and> c \<le> 63 then Some (VI64 (oclj_bitop64 p b c)) else None
       | None \<Rightarrow> None)"
proof -
  from rec obtain J1 cnt J2 n J3 g where
    s1: "(if ir_t (J ! rc) = IRT_INT then Inr (J, rc)
        else emit J (IRTG IR_CONV IRT_INT rc (Mode CONV_INT_NUM_CHECK))) = Inr (J1, cnt)" and
    s2: "emit J1 (kint 64) = Inr (J2, n)" and s3: "emit J2 (IRTG IR_ULT IRT_INT cnt (Ref n)) = Inr (J3, g)" and
    s4: "emit J3 (IRT (ir_of_op p) IRT_I64 a (Ref cnt)) = Inr (J', r)"
    by (auto simp: rec_shift_var_def simp del: refs_simps split: if_splits)
  note c1 = cnt_goes [OF em op ty s1]
  obtain K1 where 1: "J1 = J @ K1" "cnt < length J1" using c1(1) by auto
  obtain K2 where 2: "J2 = J1 @ K2" "n < length J2" using emit_ext [OF em s2] by auto
  have r3: "ir_refs J2 (IRTG IR_ULT IRT_INT cnt (Ref n))" using 1 2 by simp
  obtain K3 where 3: "J3 = J2 @ K3" using emit_ext(1) [OF em s3 r3] by auto
  have r4: "ir_refs J3 (IRT (ir_of_op p) IRT_I64 a (Ref cnt))" using 1 2 3 a p by (auto simp: ir_of_op_def)
  obtain K4 where 4: "J' = J3 @ K4" "r < length J'" using emit_ext [OF em s4 r4] by auto
  show "(\<exists>K. J' = J @ K) \<and> r < length J'" using 1 2 3 4 by simp
  assume e: "ir_exec e J = Some vs" and y: "vs ! a = VI64 (word_of_int b)"
  have late: "ir_exec e J' = None" if "ir_exec e J1 = None"
    using that 2 3 4 by (simp add: exec_append_None)
  show "goes e vs J' r
      (case op_int (vs ! rc) of
         Some c \<Rightarrow> if 0 \<le> c \<and> c \<le> 63 then Some (VI64 (oclj_bitop64 p b c)) else None
       | None \<Rightarrow> None)"
  proof (cases "op_int (vs ! rc)")
    case None
    then show ?thesis using c1(2) [OF e] late by simp
  next
    case (Some c)
    show ?thesis
    proof (cases "- (2 ^ 31) \<le> c \<and> c < 2 ^ 31")
      case False
      then have "\<not> (0 \<le> c \<and> c \<le> 63)" by auto
      then show ?thesis using c1(2) [OF e] late Some False by (simp only: option.case if_False goes_simps)
    next
      case True
      define m where "m = (word_of_int c :: 32 word)"
      have m: "sint m = c" using True by (simp add: m_def signed_of_int signed_take_bit_int_eq_self)
      obtain us where u: "ir_exec e J1 = Some (vs @ us)" "(vs @ us) ! cnt = VInt m"
        using c1(2) [OF e] Some True by (auto simp: m_def)
      have "goes e (vs @ us) J2 n (ir_value e (vs @ us) (kint 64))"
        by (rule emit_goes [OF em s2 _ _ u(1)]) simp_all
      then obtain us2 where u2: "ir_exec e J2 = Some ((vs @ us) @ us2)" "((vs @ us) @ us2) ! n = VInt 64"
        by (auto simp: ir_vals)
      note cnt = exec_ext_nth [OF u(1) 1(2), of us2, unfolded u(2)]
      have n: "n < length ((vs @ us) @ us2)" using 2 exec_length [OF u2(1)] by simp
      have g: "if \<not> m < 64 then ir_exec e J3 = None else \<exists>us3. ir_exec e J3 = Some (((vs @ us) @ us2) @ us3)"
        using emit_guards [OF em s3 r3 u2(1)] guard_values(3) [OF cnt(2,1) n u2(2)] by simp
      show ?thesis
      proof (cases "0 \<le> c \<and> c \<le> 63")
        case False
        then show ?thesis using g word_count(1) [of m] m Some 4 by (simp add: exec_append_None)
      next
        case c: True
        then obtain us3 where u3: "ir_exec e J3 = Some (((vs @ us) @ us2) @ us3)"
          using g word_count(1) [of m] m by auto
        let ?vs = "((vs @ us) @ us2) @ us3"
        have l: "a < length ?vs" "?vs ! a = VI64 (word_of_int b)" "cnt < length ?vs" "?vs ! cnt = VInt m"
          using exec_ext_nth [OF e a, of "us @ us2 @ us3"] exec_ext_nth [OF u(1) 1(2), of "us2 @ us3"] y u(2)
          by simp_all
        have "goes e ?vs J' r (ir_value e ?vs (IRT (ir_of_op p) IRT_I64 a (Ref cnt)))"
          by (rule emit_goes [OF em s4 r4 _ u3]) (use p in \<open>auto simp: ir_of_op_def\<close>)
        moreover have "ir_value e ?vs (IRT (ir_of_op p) IRT_I64 a (Ref cnt)) = Some (VI64 (oclj_bitop64 p b c))"
          using op_values(3) [OF l] p c word_count(2) [of m] m
          by (cases "c = 0") (auto simp: ir_of_op_def oclj_bitop64_def oclj_shiftl_def oclj_shiftar_def shiftar_signed_drop Let_def)
        ultimately show ?thesis using Some c by (auto simp: ac_simps)
      qed
    qed
  qed
qed

text \<open>What the trace computes as an int64, where it goes on.\<close>

definition bitop_int64 :: "bitop \<Rightarrow> bool \<Rightarrow> irval \<Rightarrow> irval \<Rightarrow> u64 option" where
  "bitop_int64 p kc vb vc =
     (case (op_int (if p = BNOT then vc else vb), op_int vc) of
        (Some b, Some c) \<Rightarrow>
          if p \<in> {BSHL, BSHR, BSAR} \<and> \<not> kc \<and> \<not> (0 \<le> c \<and> c \<le> 63) then None
          else Some (oclj_bitop64 p b c)
      | _ \<Rightarrow> None)"


lemma int64_goes:
  assumes em: "emitter emit" and oc: "operand_ok J rc" and ob: "p \<noteq> BNOT \<Longrightarrow> operand_ok J rb"
    and e0: "ir_exec e0 J = Some vs0"
    and rec: "rec_int64 emit J p rb rc (tval (vs0 ! rb)) (tval (vs0 ! rc)) = Inr (J', r)"
    and b0: "p \<noteq> BNOT \<Longrightarrow> op_int (vs0 ! rb) \<noteq> None"
  shows "(\<exists>K. J' = J @ K) \<and> r < length J'"
    and "ir_exec e J = Some vs \<Longrightarrow>
      goes e vs J' r (map_option VI64 (bitop_int64 p (tref_isk (J ! rc)) (vs ! rb) (vs ! rc)))"
proof -
  have rc: "rc < length J" and rb: "p \<noteq> BNOT \<Longrightarrow> rb < length J" using oc ob by (auto simp: operand_ok_def)
  have "((\<exists>K. J' = J @ K) \<and> r < length J') \<and> (\<forall>e vs. ir_exec e J = Some vs \<longrightarrow>
      goes e vs J' r (map_option VI64 (bitop_int64 p (tref_isk (J ! rc)) (vs ! rb) (vs ! rc))))"
  proof (cases "p = BNOT")
    case True
    then obtain J1 a where s: "oclj_rec_bitarg emit J rc (tval (vs0 ! rc)) = Inr (J1, a)"
        "emit J1 (IRT IR_BNOT IRT_I64 a (Ref 0)) = Inr (J', r)"
      using rec by (auto simp: rec_int64_def)
    obtain K1 where 1: "J1 = J @ K1" "a < length J1" using bitarg_ext [OF em rc s(1)] by auto
    have r2: "ir_refs J1 (IRT IR_BNOT IRT_I64 a (Ref 0))" using 1 by auto
    obtain K2 where 2: "J' = J1 @ K2" "r < length J'" using emit_ext [OF em s(2) r2] by auto
    have "goes e vs J' r (map_option VI64 (bitop_int64 p k v0 (vs ! rc)))" if e: "ir_exec e J = Some vs" for e vs k v0
    proof (cases "op_int (vs ! rc)")
      case None
      then show ?thesis using bitarg_goes [OF em oc e0 s(1) e] 2 True by (simp add: bitop_int64_def exec_append_None)
    next
      case (Some c)
      then obtain us where u: "ir_exec e J1 = Some (vs @ us)" "(vs @ us) ! a = VI64 (word_of_int c)"
        using bitarg_goes [OF em oc e0 s(1) e] by auto
      have al: "a < length (vs @ us)" using 1 exec_length [OF u(1)] by simp
      have "goes e (vs @ us) J' r (ir_value e (vs @ us) (IRT IR_BNOT IRT_I64 a (Ref 0)))"
        by (rule emit_goes [OF em s(2) r2 _ u(1)]) simp
      then show ?thesis using op_values(1) [OF al u(2)] Some True
        by (auto simp: bitop_int64_def oclj_bitop64_def ac_simps)
    qed
    then show ?thesis using 1 2 by simp
  next
    case False
    note ob = ob [OF False] and rb = rb [OF False]
    show ?thesis
    proof (cases "p \<in> {BAND, BOR, BXOR}")
      case True
      with False rec obtain J1 a J2 b where s: "oclj_rec_bitarg emit J rb (tval (vs0 ! rb)) = Inr (J1, a)"
          "oclj_rec_bitarg emit J1 rc (tval (vs0 ! rc)) = Inr (J2, b)"
          "emit J2 (IRT (ir_of_op p) IRT_I64 a (Ref b)) = Inr (J', r)"
        by (auto simp: rec_int64_def simp del: refs_simps)
      obtain K1 where 1: "J1 = J @ K1" "a < length J1" using bitarg_ext [OF em rb s(1)] by auto
      have rc1: "rc < length J1" "operand_ok J1 rc" using rc 1 operand_ext [OF oc] by simp_all
      obtain K2 where 2: "J2 = J1 @ K2" "b < length J2" using bitarg_ext [OF em rc1(1) s(2)] by auto
      have r3: "ir_refs J2 (IRT (ir_of_op p) IRT_I64 a (Ref b))" using 1 2 True by (auto simp: ir_of_op_def)
      obtain K3 where 3: "J' = J2 @ K3" "r < length J'" using emit_ext [OF em s(3) r3] by auto
      obtain us0 where e01: "ir_exec e0 J1 = Some (vs0 @ us0)"
        using bitarg_goes [OF em ob e0 s(1) e0] b0 [OF False] by auto
      have v0: "(vs0 @ us0) ! rc = vs0 ! rc" using exec_ext_nth [OF e0 rc] by simp
      have "goes e vs J' r (map_option VI64 (bitop_int64 p k (vs ! rb) (vs ! rc)))" if e: "ir_exec e J = Some vs" for e vs k
      proof (cases "op_int (vs ! rb)")
        case None
        then show ?thesis using bitarg_goes [OF em ob e0 s(1) e] 2 3 False by (simp add: bitop_int64_def exec_append_None)
      next
        case (Some x)
        then obtain us where u: "ir_exec e J1 = Some (vs @ us)" "(vs @ us) ! a = VI64 (word_of_int x)"
          using bitarg_goes [OF em ob e0 s(1) e] by auto
        have vc: "(vs @ us) ! rc = vs ! rc" using exec_ext_nth [OF e rc] by simp
        note g2 = bitarg_goes [OF em rc1(2) e01 s(2) [folded v0] u(1), unfolded vc]
        show ?thesis
        proof (cases "op_int (vs ! rc)")
          case None
          then show ?thesis using g2 3 by (simp add: bitop_int64_def exec_append_None split: option.split)
        next
          case y: (Some z)
          then obtain us2 where u2: "ir_exec e J2 = Some ((vs @ us) @ us2)" "((vs @ us) @ us2) ! b = VI64 (word_of_int z)"
            using g2 by auto
          note la = exec_ext_nth [OF u(1) 1(2), of us2, unfolded u(2)]
          have lb: "b < length ((vs @ us) @ us2)" using 2 exec_length [OF u2(1)] by simp
          have "goes e ((vs @ us) @ us2) J' r (ir_value e ((vs @ us) @ us2) (IRT (ir_of_op p) IRT_I64 a (Ref b)))"
            by (rule emit_goes [OF em s(3) r3 _ u2(1)]) (use True in \<open>auto simp: ir_of_op_def\<close>)
          then show ?thesis using op_values(2) [OF la(2,1) lb u2(2)] Some y True
            by (auto simp: bitop_int64_def oclj_bitop64_def ir_of_op_def ac_simps)
        qed
      qed
      then show ?thesis using 1 2 3 by simp
    next
      case notl: False
      then have sh: "p \<in> {BSHL, BSHR, BSAR}" using False by (cases p) auto
      from notl False rec obtain k J1 a where s: "oclj_rec_bitcount J rc (tval (vs0 ! rc)) = Inr k"
          "oclj_rec_bitarg emit J rb (tval (vs0 ! rb)) = Inr (J1, a)"
          "(if tref_isk (J1 ! rc) then rec_shift_const emit J1 p a k else rec_shift_var emit J1 p a rc k) = Inr (J', r)"
        by (auto simp: rec_int64_def)
      obtain K1 where 1: "J1 = J @ K1" "a < length J1" using bitarg_ext [OF em rb s(2)] by auto
      have rc1: "rc < length J1" "operand_ok J1 rc" "J1 ! rc = J ! rc"
        using rc 1 operand_ext [OF oc] by (simp_all add: nth_append)
      have ty: "ir_t (J1 ! rc) = IRT_INT \<or> ir_t (J1 ! rc) = IRT_NUM" and k: "op_int (vs0 ! rc) = Some k"
        using s(1) rc1 by (auto simp: oclj_rec_bitcount_def tref_isnumber_def bitval_tval split: if_splits option.splits)
      have ext: "(\<exists>K. J' = J @ K) \<and> r < length J'"
        using s(3) 1 shift_const_goes(1) [OF em 1(2) _ sh] shift_var_goes(1) [OF em rc1(2) 1(2) ty _ sh]
        by (fastforce split: if_splits)
      have ext1: "\<exists>K. J' = J1 @ K"
        using s(3) shift_const_goes(1) [OF em 1(2) _ sh] shift_var_goes(1) [OF em rc1(2) 1(2) ty _ sh]
        by (fastforce split: if_splits)
      have "goes e vs J' r (map_option VI64 (bitop_int64 p (tref_isk (J ! rc)) (vs ! rb) (vs ! rc)))"
        if e: "ir_exec e J = Some vs" for e vs
      proof (cases "op_int (vs ! rb)")
        case None
        then show ?thesis using bitarg_goes [OF em ob e0 s(2) e] ext1 False by (auto simp: bitop_int64_def exec_append_None)
      next
        case (Some x)
        then obtain us where u: "ir_exec e J1 = Some (vs @ us)" "(vs @ us) ! a = VI64 (word_of_int x)"
          using bitarg_goes [OF em ob e0 s(2) e] by auto
        have vc: "(vs @ us) ! rc = vs ! rc" using exec_ext_nth [OF e rc] by simp
        show ?thesis
        proof (cases "tref_isk (J ! rc)")
          case True
          have "op_int (vs ! rc) = Some k" using exec_const [OF e e0 rc True] k by simp
          moreover have "rec_shift_const emit J1 p a k = Inr (J', r)" using s(3) rc1 True by simp
          from shift_const_goes(2) [OF em 1(2) this sh u] have "goes e vs J' r (Some (VI64 (oclj_bitop64 p x k)))"
            by (rule exec_step [OF u(1)])
          ultimately show ?thesis using Some True False by (simp add: bitop_int64_def del: goes_simps)
        next
          case vr: False
          have sv: "rec_shift_var emit J1 p a rc k = Inr (J', r)" using s(3) rc1 vr by simp
          have "goes e vs J' r
            (case op_int (vs ! rc) of
               Some c \<Rightarrow> if 0 \<le> c \<and> c \<le> 63 then Some (VI64 (oclj_bitop64 p x c)) else None
             | None \<Rightarrow> None)"
            using shift_var_goes(2) [OF em rc1(2) 1(2) ty sv sh u, unfolded vc] by (rule exec_step [OF u(1)])
          moreover have "map_option VI64 (bitop_int64 p (tref_isk (J ! rc)) (vs ! rb) (vs ! rc)) =
            (case op_int (vs ! rc) of
               Some c \<Rightarrow> if 0 \<le> c \<and> c \<le> 63 then Some (VI64 (oclj_bitop64 p x c)) else None
             | None \<Rightarrow> None)"
            using Some vr False sh by (simp add: bitop_int64_def split: option.split)
          ultimately show ?thesis by (simp only:)
        qed
      qed
      then show ?thesis using ext by simp
    qed
  qed
  then show "(\<exists>K. J' = J @ K) \<and> r < length J'"
    "ir_exec e J = Some vs \<Longrightarrow>
      goes e vs J' r (map_option VI64 (bitop_int64 p (tref_isk (J ! rc)) (vs ! rb) (vs ! rc)))"
    by blast+
qed


section \<open>The result and its guard\<close>

lemma back_exact: "word_of_int (cvttsd2si (d_of_int (sint y))) = y \<longleftrightarrow> fits53 (sint (y :: u64))"
proof -
  let ?i = "sint y"
  have c: "sint (word_of_int (cvttsd2si (d_of_int ?i)) :: u64) = cvttsd2si (d_of_int ?i)"
    using cvttsd2si_range by (intro sint_u64_of_int)
  have i: "\<bar>?i\<bar> \<le> 2 ^ 64" using sint_u64_range [of y] by auto
  have "d_eq (d_of_int (cvttsd2si (d_of_int ?i))) (d_of_int ?i) \<and> cvttsd2si (d_of_int ?i) = ?i \<longleftrightarrow> fits53 ?i"
  proof
    assume "d_eq (d_of_int (cvttsd2si (d_of_int ?i))) (d_of_int ?i) \<and> cvttsd2si (d_of_int ?i) = ?i"
    then have "oclj_flt2int (d_of_int ?i) = Some ?i" unfolding flt2int_cvt by (elim conjE) (simp only: if_True)
    then show "fits53 ?i" using flt2int_iff dval_integral_fits53 by blast
  next
    assume "fits53 ?i"
    then have "oclj_flt2int (d_of_int ?i) = Some ?i" using sint_u64_range [of y] by (intro flt2int_of_int)
    then show "d_eq (d_of_int (cvttsd2si (d_of_int ?i))) (d_of_int ?i) \<and> cvttsd2si (d_of_int ?i) = ?i"
      by (auto simp: flt2int_cvt split: if_splits)
  qed
  moreover have "d_eq (d_of_int ?i) (d_of_int ?i)" using d_of_int_rat [OF i] d_eq_rat by blast
  ultimately have "cvttsd2si (d_of_int ?i) = ?i \<longleftrightarrow> fits53 ?i" by auto
  then show ?thesis using c sint_eqI [of "word_of_int (cvttsd2si (d_of_int ?i))" y] by auto
qed

lemma result_goes:
  assumes em: "emitter emit" and res: "res < length J" and rec: "rec_result emit J res = Inr (J', d)"
  shows "(\<exists>K. J' = J @ K) \<and> d < length J'"
    and "ir_exec e J = Some vs \<Longrightarrow> vs ! res = VI64 y \<Longrightarrow> (tref_isk (J ! res) \<Longrightarrow> fits53 (sint y)) \<Longrightarrow>
      goes e vs J' d (if fits53 (sint y) then Some (VNum (d_of_int (sint y))) else None)"
proof -
  obtain J1 where s1: "emit J (IRT IR_CONV IRT_NUM res (Mode CONV_NUM_I64_EXACT)) = Inr (J1, d)"
    and rest: "(if tref_isk (J ! res) then Inr (J1, d)
      else ebind (emit J1 (IRT IR_CONV IRT_I64 d (Mode CONV_I64_NUM_EXACT))) (\<lambda>(J2, back).
        ebind (emit J2 (IRTG IR_EQ IRT_I64 back (Ref res))) (\<lambda>(J3, _). Inr (J3, d)))) = Inr (J', d)"
    using rec by (auto simp: rec_result_def split: if_splits)
  obtain K1 where 1: "J1 = J @ K1" "d < length J1" using emit_ext [OF em s1] res by auto
  have goes1: "goes e vs J1 d (Some (VNum (d_of_int (sint y))))" if e: "ir_exec e J = Some vs" and y: "vs ! res = VI64 y" for e vs y
    using emit_goes [OF em s1 _ _ e] conv_values(4) [OF _ y] res exec_length [OF e] by simp
  have "((\<exists>K. J' = J @ K) \<and> d < length J') \<and> (\<forall>e vs y. ir_exec e J = Some vs \<longrightarrow> vs ! res = VI64 y \<longrightarrow>
      (tref_isk (J ! res) \<longrightarrow> fits53 (sint y)) \<longrightarrow>
      goes e vs J' d (if fits53 (sint y) then Some (VNum (d_of_int (sint y))) else None))"
  proof (cases "tref_isk (J ! res)")
    case True
    then show ?thesis using rest 1 goes1 by auto
  next
    case False
    with rest obtain J2 bk g where s2: "emit J1 (IRT IR_CONV IRT_I64 d (Mode CONV_I64_NUM_EXACT)) = Inr (J2, bk)"
      and s3: "emit J2 (IRTG IR_EQ IRT_I64 bk (Ref res)) = Inr (J', g)" by auto
    obtain K2 where 2: "J2 = J1 @ K2" "bk < length J2" using emit_ext [OF em s2] 1 by auto
    have r3: "ir_refs J2 (IRTG IR_EQ IRT_I64 bk (Ref res))" using 1 2 res by simp
    obtain K3 where 3: "J' = J2 @ K3" using emit_ext(1) [OF em s3 r3] by auto
    have "goes e vs J' d (if fits53 (sint y) then Some (VNum (d_of_int (sint y))) else None)"
      if e: "ir_exec e J = Some vs" and y: "vs ! res = VI64 y" for e vs y
    proof -
      obtain us where u: "ir_exec e J1 = Some (vs @ us)" "(vs @ us) ! d = VNum (d_of_int (sint y))"
        using goes1 [OF e y] by auto
      have dl: "d < length (vs @ us)" using 1 exec_length [OF u(1)] by simp
      have "goes e (vs @ us) J2 bk (ir_value e (vs @ us) (IRT IR_CONV IRT_I64 d (Mode CONV_I64_NUM_EXACT)))"
        by (rule emit_goes [OF em s2 _ _ u(1)]) (simp_all add: 1(2))
      then obtain us2 where u2: "ir_exec e J2 = Some ((vs @ us) @ us2)"
          "((vs @ us) @ us2) ! bk = VI64 (word_of_int (cvttsd2si (d_of_int (sint y))))"
        using conv_values(3) [OF dl u(2)] by auto
      have bl: "bk < length ((vs @ us) @ us2)" using 2 exec_length [OF u2(1)] by simp
      have rl: "res < length ((vs @ us) @ us2)" "((vs @ us) @ us2) ! res = VI64 y"
        using exec_ext_nth [OF e res, of "us @ us2"] y by simp_all
      have "if \<not> fits53 (sint y) then ir_exec e J' = None else \<exists>us3. ir_exec e J' = Some (((vs @ us) @ us2) @ us3)"
        using emit_guards [OF em s3 r3 u2(1)] guard_values(2) [OF bl u2(2) rl] back_exact [of y] by simp
      moreover have "(((vs @ us) @ us2) @ us3) ! d = VNum (d_of_int (sint y))" for us3
        using exec_ext_nth [OF u(1) 1(2), of "us2 @ us3"] u(2) by simp
      ultimately show ?thesis by (auto simp: ac_simps)
    qed
    then show ?thesis using 1 2 3 by simp
  qed
  then show "(\<exists>K. J' = J @ K) \<and> d < length J'"
    "ir_exec e J = Some vs \<Longrightarrow> vs ! res = VI64 y \<Longrightarrow> (tref_isk (J ! res) \<Longrightarrow> fits53 (sint y)) \<Longrightarrow>
      goes e vs J' d (if fits53 (sint y) then Some (VNum (d_of_int (sint y))) else None)"
    by blast+
qed

lemma rec_decide_fits:
  assumes "rec_decide p (tval vb) (tval vc) = Inr u"
  shows "p \<noteq> BNOT \<Longrightarrow> op_int vb \<noteq> None" "\<exists>b c. op_int (if p = BNOT then vc else vb) = Some b \<and> op_int vc = Some c \<and>
    fits53 (sint (oclj_bitop64 p b c))"
  using assms by (auto simp: rec_decide_def bitval_tval bit2num_eq oclj_bitop64_def Let_def split: if_splits option.splits)

lemma int64_recorded:
  assumes "emitter emit" "rb < length J" "rc < length J" "p \<in> {BSHL, BSHR, BSAR}" "\<not> tref_isk (J ! rc)"
    and "rec_int64 emit J p rb rc rbv (tval v) = Inr (J', r)" "op_int v = Some c"
  shows "0 \<le> c \<and> c \<le> 63"
proof -
  obtain J1 a where s: "oclj_rec_bitcount J rc (tval v) = Inr c" "oclj_rec_bitarg emit J rb rbv = Inr (J1, a)"
      "(if tref_isk (J1 ! rc) then rec_shift_const emit J1 p a c else rec_shift_var emit J1 p a rc c) = Inr (J', r)"
    using assms(4,6,7) by (auto simp: rec_int64_def oclj_rec_bitcount_def bitval_tval split: if_splits)
  obtain K where "J1 = J @ K" using bitarg_ext [OF assms(1,2) s(2)] by blast
  then show ?thesis using s(3) assms(3,5) by (auto simp: nth_append rec_shift_var_def split: if_splits)
qed

lemma bitop_goes:
  assumes em: "emitter emit" and oc: "operand_ok J rc" and ob: "p \<noteq> BNOT \<Longrightarrow> operand_ok J rb"
    and e0: "ir_exec e0 J = Some vs0"
    and rec: "oclj_rec_bitop emit J p rb rc (tval (vs0 ! rb)) (tval (vs0 ! rc)) = Inr (J', d)"
    and e: "ir_exec e J = Some vs"
  shows "(\<exists>K. J' = J @ K) \<and> d < length J' \<and> goes e vs J' d
    (case bitop_int64 p (tref_isk (J ! rc)) (vs ! rb) (vs ! rc) of
       Some y \<Rightarrow> if fits53 (sint y) then Some (VNum (d_of_int (sint y))) else None
     | None \<Rightarrow> None)"
proof -
  from rec obtain u J1 res where d: "rec_decide p (tval (vs0 ! rb)) (tval (vs0 ! rc)) = Inr u"
    and s1: "rec_int64 emit J p rb rc (tval (vs0 ! rb)) (tval (vs0 ! rc)) = Inr (J1, res)"
    and s2: "rec_result emit J1 res = Inr (J', d)"
    by (auto simp: oclj_rec_bitop_def)
  note f = rec_decide_fits [OF d]
  have "(\<exists>K. J1 = J @ K) \<and> res < length J1"
    by (rule int64_goes(1) [OF em oc _ e0 s1]) (use ob f(1) in auto)
  then obtain K1 where 1: "J1 = J @ K1" "res < length J1" by auto
  have g: "goes e vs J1 res (map_option VI64 (bitop_int64 p (tref_isk (J ! rc)) (vs ! rb) (vs ! rc)))"
    if "ir_exec e J = Some vs" for e vs
    by (rule int64_goes(2) [OF em oc _ e0 s1 _ that]) (use ob f(1) in auto)
  obtain K2 where 2: "J' = J1 @ K2" "d < length J'" using result_goes(1) [OF em 1(2) s2] by auto
  show ?thesis
  proof (cases "bitop_int64 p (tref_isk (J ! rc)) (vs ! rb) (vs ! rc)")
    case None
    then show ?thesis using g [OF e] 1 2 exec_append_None [of e J1 K2] by simp
  next
    case (Some y)
    then obtain us where u: "ir_exec e J1 = Some (vs @ us)" "(vs @ us) ! res = VI64 y" using g [OF e] by auto
    have "fits53 (sint y)" if k: "tref_isk (J1 ! res)"
    proof -
      obtain b c where bc: "op_int (if p = BNOT then vs0 ! rc else vs0 ! rb) = Some b" "op_int (vs0 ! rc) = Some c"
          "fits53 (sint (oclj_bitop64 p b c))" using f(2) by auto
      have "bitop_int64 p (tref_isk (J ! rc)) (vs0 ! rb) (vs0 ! rc) = Some (oclj_bitop64 p b c)"
        using int64_recorded [OF em _ _ _ _ s1 bc(2)] ob oc bc(1,2) by (auto simp: bitop_int64_def operand_ok_def)
      then obtain us0 where u0: "ir_exec e0 J1 = Some (vs0 @ us0)" "(vs0 @ us0) ! res = VI64 (oclj_bitop64 p b c)"
        using g [OF e0] by auto
      then show ?thesis using exec_const [OF u(1) u0(1) 1(2) k] u(2) bc(3) by simp
    qed
    from result_goes(2) [OF em 1(2) s2 u this] show ?thesis using 1 2 Some exec_step [OF u(1)] by simp
  qed
qed

lemma recorded_result:
  assumes em: "emitter emit" and oc: "operand_ok J rc" and ob: "p \<noteq> BNOT \<Longrightarrow> operand_ok J rb"
    and e0: "ir_exec e0 J = Some vs0"
    and rec: "oclj_rec_bitop emit J p rb rc (tval (vs0 ! rb)) (tval (vs0 ! rc)) = Inr (J', d)"
  shows "\<exists>y. bitop_int64 p (tref_isk (J ! rc)) (vs0 ! rb) (vs0 ! rc) = Some y \<and> fits53 (sint y)"
proof -
  from rec obtain u J1 res where d: "rec_decide p (tval (vs0 ! rb)) (tval (vs0 ! rc)) = Inr u"
    and s1: "rec_int64 emit J p rb rc (tval (vs0 ! rb)) (tval (vs0 ! rc)) = Inr (J1, res)"
    by (auto simp: oclj_rec_bitop_def)
  obtain b c where bc: "op_int (if p = BNOT then vs0 ! rc else vs0 ! rb) = Some b" "op_int (vs0 ! rc) = Some c"
      "fits53 (sint (oclj_bitop64 p b c))" using rec_decide_fits(2) [OF d] by auto
  have "bitop_int64 p (tref_isk (J ! rc)) (vs0 ! rb) (vs0 ! rc) = Some (oclj_bitop64 p b c)"
    using int64_recorded [OF em _ _ _ _ s1 bc(2)] ob oc bc(1,2) by (auto simp: bitop_int64_def operand_ok_def)
  then show ?thesis using bc(3) by auto
qed

section \<open>The properties\<close>

text \<open>What the interpreter makes of the operands a run finds.\<close>

definition interpreted :: "(byte list \<Rightarrow> double option) \<Rightarrow> slotname \<Rightarrow> bitop \<Rightarrow> irval \<Rightarrow> irval \<Rightarrow> bit_err + double" where
  "interpreted scan slot p vb vc = oclj_meta_bitop scan slot p (tval (if p = BNOT then vc else vb)) (tval vc)"

text \<open>A shift by a variable count is recorded for counts of 0 to 63 only.\<close>

definition specialised :: "bitop \<Rightarrow> bool \<Rightarrow> irval \<Rightarrow> bool" where
  "specialised p const vc = (p \<in> {BSHL, BSHR, BSAR} \<longrightarrow> const \<or>
     (case op_int vc of Some c \<Rightarrow> 0 \<le> c \<and> c \<le> 63 | None \<Rightarrow> False))"

lemma interpreted_goes:
  "(case bitop_int64 p k vb vc of
      Some y \<Rightarrow> if fits53 (sint y) then Some (VNum (d_of_int (sint y))) else None
    | None \<Rightarrow> None) =
   (case interpreted scan slot p vb vc of
      Inr n \<Rightarrow> if specialised p k vc then Some (VNum n) else None
    | Inl _ \<Rightarrow> None)"
  by (auto simp: bitop_int64_def interpreted_def specialised_def oclj_meta_bitop_def toint_tval bit2num_eq
      split: option.split)

text \<open>C11: the compiled code and the interpreter agree. From a trace recorded at any values, run on
  any others: it reaches the end of the operator exactly when the interpreter's slow path returns
  a number for those operands (and a variable shift count is one the trace was specialised to),
  with exactly that number; in every other case, an error included, it leaves at a guard. On the
  values it was recorded with it stays.\<close>

theorem rec_bitop_exact:
  assumes "emitter emit" "operand_ok J rc" "p \<noteq> BNOT \<Longrightarrow> operand_ok J rb" "ir_exec e0 J = Some vs0"
    and "oclj_rec_bitop emit J p rb rc (tval (vs0 ! rb)) (tval (vs0 ! rc)) = Inr (J', d)"
    and "ir_exec e J = Some vs"
  shows "(case interpreted scan slot p (vs ! rb) (vs ! rc) of
      Inr n \<Rightarrow>
        if specialised p (tref_isk (J ! rc)) (vs ! rc)
        then \<exists>us. ir_exec e J' = Some (vs @ us) \<and> (vs @ us) ! d = VNum n
        else ir_exec e J' = None
    | Inl err \<Rightarrow> ir_exec e J' = None) \<and> ir_exec e0 J' \<noteq> None"
proof -
  have g: "goes e vs J' d (case bitop_int64 p (tref_isk (J ! rc)) (vs ! rb) (vs ! rc) of
       Some y \<Rightarrow> if fits53 (sint y) then Some (VNum (d_of_int (sint y))) else None
     | None \<Rightarrow> None)" if "ir_exec e J = Some vs" for e vs
    using bitop_goes [OF assms(1,2) _ assms(4,5) that] assms(3) by simp
  have "goes e vs J' d (case interpreted scan slot p (vs ! rb) (vs ! rc) of
      Inr n \<Rightarrow> if specialised p (tref_isk (J ! rc)) (vs ! rc) then Some (VNum n) else None
    | Inl _ \<Rightarrow> None)"
    using g [OF assms(6)] by (simp only: interpreted_goes [of _ _ _ _ scan slot])
  moreover have "ir_exec e0 J' \<noteq> None"
    using g [OF assms(4)] recorded_result [OF assms(1,2) _ assms(4,5)] assms(3) by auto
  ultimately show ?thesis by (auto split: sum.splits if_splits)
qed


text \<open>A recorded trace and two runs of it: \<open>x << n\<close> recorded at 3 and 4, run again at
  2^40 and 63, where the exact result needs 41 bits and lies past an int64.\<close>

definition shl_trace :: trace where
  "shl_trace = [IRT IR_SLOAD IRT_NUM 0 (Ref 0), IRT IR_SLOAD IRT_NUM 0 (Ref 0)]"

definition shl_env :: "double \<Rightarrow> double \<Rightarrow> menv" where
  "shl_env x n = \<lparr>e_in = (\<lambda>i. if i = 0 then VNum x else VNum n), e_sext = False\<rparr>"

definition shl_recorded :: trace where
  "shl_recorded =
     (case oclj_rec_bitop emit_plain shl_trace BSHL 0 1 (TvNum (d_of_int 3)) (TvNum (d_of_int 4)) of
        Inr (J, _) \<Rightarrow> J | Inl _ \<Rightarrow> [])"

lemma shl_exec: "ir_exec (shl_env x n) shl_trace = Some [VNum x, VNum n]"
  by (simp add: ir_exec_def shl_trace_def ir_value_def IRT_def shl_env_def)

lemma shl_operand: "r < 2 \<Longrightarrow> operand_ok shl_trace r"
proof -
  assume r: "r < 2"
  have "ir_t (shl_trace ! r) = IRT_NUM" "ir_o (shl_trace ! r) = IR_SLOAD" "r < length shl_trace"
    using r by (auto simp: shl_trace_def IRT_def less_2_cases_iff)
  then show ?thesis
    using exec_value [of _ shl_trace _ r]
    by (fastforce simp: operand_ok_def ir_value_def Let_def split: if_splits)
qed

lemma shl_rec: "\<exists>d. oclj_rec_bitop emit_plain shl_trace BSHL 0 1 (TvNum (d_of_int 3)) (TvNum (d_of_int 4)) = Inr (shl_recorded, d)"
proof -
  have "\<not> isl (oclj_rec_bitop emit_plain shl_trace BSHL 0 1 (TvNum (d_of_int 3)) (TvNum (d_of_int 4)))"
    by code_simp
  then show ?thesis
    by (cases "oclj_rec_bitop emit_plain shl_trace BSHL 0 1 (TvNum (d_of_int 3)) (TvNum (d_of_int 4))")
      (auto simp: shl_recorded_def)
qed

theorem rec_bitop_exact_witness:
  "ir_exec (shl_env (d_of_int 3) (d_of_int 4)) shl_recorded \<noteq> None \<and>
   (\<exists>us d. ir_exec (shl_env (d_of_int 5) (d_of_int 40)) shl_recorded = Some us \<and>
     us ! d = VNum (d_of_int (5 * 2 ^ 40))) \<and>
   ir_exec (shl_env (d_of_int 5) (d_of_int 64)) shl_recorded = None"
proof -
  obtain d where rec: "oclj_rec_bitop emit_plain shl_trace BSHL 0 1 (TvNum (d_of_int 3)) (TvNum (d_of_int 4))
      = Inr (shl_recorded, d)" using shl_rec by blast
  have run: "(case interpreted (\<lambda>_. None) (\<lambda>_. None) BSHL ([VNum x, VNum n] ! 0) ([VNum x, VNum n] ! 1) of
      Inr m \<Rightarrow>
        if specialised BSHL (tref_isk (shl_trace ! 1)) ([VNum x, VNum n] ! 1)
        then \<exists>us. ir_exec (shl_env x n) shl_recorded = Some ([VNum x, VNum n] @ us) \<and> ([VNum x, VNum n] @ us) ! d = VNum m
        else ir_exec (shl_env x n) shl_recorded = None
    | Inl err \<Rightarrow> ir_exec (shl_env x n) shl_recorded = None) \<and>
    ir_exec (shl_env (d_of_int 3) (d_of_int 4)) shl_recorded \<noteq> None" for x n
    using rec_bitop_exact [of emit_plain shl_trace 1 BSHL 0 "shl_env (d_of_int 3) (d_of_int 4)"
        "[VNum (d_of_int 3), VNum (d_of_int 4)]" shl_recorded d "shl_env x n" "[VNum x, VNum n]"
        "\<lambda>_. None" "\<lambda>_. None"] emitter_plain shl_operand shl_exec rec by simp
  have i: "interpreted (\<lambda>_. None) (\<lambda>_. None) BSHL (VNum (d_of_int 5)) (VNum (d_of_int 40)) = Inr (d_of_int (5 * 2 ^ 40))"
    "interpreted (\<lambda>_. None) (\<lambda>_. None) BSHL (VNum (d_of_int 5)) (VNum (d_of_int 64)) = Inr (d_of_int 0)"
    by code_simp+
  have c: "specialised BSHL (tref_isk (shl_trace ! 1)) (VNum (d_of_int 40))"
    "\<not> specialised BSHL (tref_isk (shl_trace ! 1)) (VNum (d_of_int 64))" by code_simp+
  show ?thesis using run [of "d_of_int 5" "d_of_int 40"] run [of "d_of_int 5" "d_of_int 64"] i c by auto
qed

end
