(* ===== verification/BitWidth.thy ===== *)
theory BitWidth
  imports BitRec
begin

text \<open>
  native/luajit/oclj\_bitop\_fold.c, proved: \<open>oclj_bitwidth\<close> bounds the int64 a reference holds in every run, and
  the conversions the fold rules drop by it give back what they are given.
\<close>

section \<open>Soundness of the bound\<close>

definition in_bits :: "int \<Rightarrow> int \<Rightarrow> bool" where
  "in_bits w x = (1 \<le> w \<and> w \<le> 64 \<and> - (2 ^ nat (w - 1)) \<le> x \<and> x < 2 ^ nat (w - 1))"

named_theorems width_intros \<open>the width of a result from the widths of the operands\<close>

lemma in_bits_64 [width_intros]: "in_bits 64 (sint (y :: u64))"
  using sint_u64_range [of y] by (simp add: in_bits_def)

lemma in_bits_mono: "in_bits v x \<Longrightarrow> v \<le> w \<Longrightarrow> w \<le> 64 \<Longrightarrow> in_bits w x"
proof -
  assume a: "in_bits v x" "v \<le> w" "w \<le> 64"
  then have "(2 :: int) ^ nat (v - 1) \<le> 2 ^ nat (w - 1)" by (intro power_increasing) (auto simp: in_bits_def)
  then show ?thesis using a unfolding in_bits_def by linarith
qed

lemma in_bits_signed: "in_bits w x \<longleftrightarrow> 1 \<le> w \<and> w \<le> 64 \<and> signed_take_bit (nat (w - 1)) x = x"
  using signed_take_bit_int_eq_self_iff [of "nat (w - 1)" x] by (auto simp: in_bits_def)

lemma in_bits_max: "in_bits v x \<Longrightarrow> in_bits w y \<Longrightarrow> in_bits (max v w) x \<and> in_bits (max v w) y"
  using in_bits_mono [of v x w] in_bits_mono [of w y v] by (auto simp: max_def in_bits_def [of v] in_bits_def [of w])

lemma signed_take_bits:
  "signed_take_bit n (a AND b :: int) = signed_take_bit n a AND signed_take_bit n b"
  "signed_take_bit n (a OR b :: int) = signed_take_bit n a OR signed_take_bit n b"
  "signed_take_bit n (a XOR b :: int) = signed_take_bit n a XOR signed_take_bit n b"
  by (auto intro!: bit_eqI simp: bit_simps)

lemma width_bits [width_intros]:
  assumes "in_bits v (sint (x :: u64))" "in_bits w (sint y)"
  shows "in_bits (max v w) (sint (x AND y))" "in_bits (max v w) (sint (x OR y))" "in_bits (max v w) (sint (x XOR y))"
  using in_bits_max [OF assms]
  by (auto simp: in_bits_signed signed_and_eq signed_or_eq signed_xor_eq
      signed_take_bits)

lemma sint_not_u64: "sint (NOT x :: u64) = - 1 - sint x"
  using uint_u64_less [of x] by (simp add: sint_u64 uint_not_u64)

lemma width_not [width_intros]: "in_bits w (sint (x :: u64)) \<Longrightarrow> in_bits w (sint (NOT x))"
  by (auto simp: in_bits_def sint_not_u64)

lemma div_pow_lower: "- a * 2 ^ n \<le> x \<Longrightarrow> - a \<le> x div 2 ^ n" for a x :: int
proof -
  assume "- a * 2 ^ n \<le> x"
  then have "- a * 2 ^ n div 2 ^ n \<le> x div 2 ^ n" by (intro zdiv_mono1) simp_all
  then show ?thesis by (subst (asm) nonzero_mult_div_cancel_right) simp_all
qed

lemma sint_small: "in_bits w i \<Longrightarrow> sint (word_of_int i :: u64) = i"
  using in_bits_mono [of w i 64] by (intro sint_u64_of_int) (auto simp: in_bits_def)

lemma width_add [width_intros]:
  assumes "in_bits v (sint (x :: u64))" "in_bits w (sint y)"
  shows "in_bits (min 64 (max v w + 1)) (sint (x + y))"
proof (cases "max v w + 1 \<le> 64")
  case True
  have m: "in_bits (max v w) (sint x)" "in_bits (max v w) (sint y)" using in_bits_max [OF assms] by auto
  have p: "(2 :: int) ^ nat (max v w + 1 - 1) = 2 * 2 ^ nat (max v w - 1)"
    using m by (simp add: in_bits_def power_Suc [symmetric] Suc_nat_eq_nat_zadd1 del: power_Suc)
  have s: "in_bits (max v w + 1) (sint x + sint y)" using m True unfolding in_bits_def p by auto
  have "x + y = word_of_int (sint x + sint y)" by simp
  then have "sint (x + y) = sint x + sint y" using sint_small [OF s] by metis
  then show ?thesis using s True by simp
qed (simp only: min_def not_le in_bits_64 order_less_imp_le if_True)

lemma width_shl [width_intros]:
  assumes "in_bits w (sint (x :: u64))" "0 \<le> n" "n < 64"
  shows "in_bits (min 64 (w + n)) (sint (push_bit (nat n) x))"
proof (cases "w + n \<le> 64")
  case True
  have w: "1 \<le> w" using assms by (simp add: in_bits_def)
  have "nat (w + n - 1) = nat (w - 1) + nat n" using w assms(2) by (simp add: nat_add_distrib [symmetric])
  then have p: "(2 :: int) ^ nat (w + n - 1) = 2 ^ nat (w - 1) * 2 ^ nat n" by (simp add: power_add)
  have "- (2 ^ nat (w - 1)) * 2 ^ nat n \<le> sint x * 2 ^ nat n" "sint x * 2 ^ nat n < 2 ^ nat (w - 1) * 2 ^ nat n"
    using assms by (intro mult_right_mono mult_strict_right_mono; simp add: in_bits_def)+
  then have s: "in_bits (w + n) (sint x * 2 ^ nat n)" using True w assms p by (simp add: in_bits_def)
  have "push_bit (nat n) x = word_of_int (sint x * 2 ^ nat n)" by (simp add: push_bit_eq_mult)
  then have "sint (push_bit (nat n) x) = sint x * 2 ^ nat n" using sint_small [OF s] by metis
  then show ?thesis using s True by simp
qed (simp only: min_def not_le in_bits_64 order_less_imp_le if_True)

lemma width_shr [width_intros]:
  assumes "1 \<le> n" "n < 64"
  shows "in_bits (65 - n) (sint (drop_bit (nat n) (x :: u64)))"
proof -
  let ?q = "uint x div 2 ^ nat n"
  have "(2 :: int) ^ 64 = 2 ^ nat (64 - n) * 2 ^ nat n" using assms by (simp add: power_add [symmetric] nat_add_distrib [symmetric])
  then have q: "0 \<le> ?q" "?q < 2 ^ nat (64 - n)"
    using uint_u64_less [of x] by (simp_all add: div_less_iff_pos pos_imp_zdiv_nonneg_iff)
  then have s: "in_bits (65 - n) ?q" using assms by (auto simp: in_bits_def intro: order_trans [of _ 0])
  have "uint (drop_bit (nat n) x) = ?q" by (rule uint_drop_u64)
  then have "sint (drop_bit (nat n) x) = ?q" using sint_small [OF s] by (metis word_of_int_uint)
  then show ?thesis using s by simp
qed

lemma width_sar [width_intros]:
  assumes "in_bits w (sint (x :: u64))" "0 \<le> n" "n < 64"
  shows "in_bits (max 1 (w - n)) (sint (signed_drop_bit (nat n) x))"
proof -
  let ?q = "sint x div 2 ^ nat n"
  have w: "1 \<le> w" "w \<le> 64" "- (2 ^ nat (w - 1)) \<le> sint x" "sint x < 2 ^ nat (w - 1)" using assms(1) by (auto simp: in_bits_def)
  have "in_bits (max 1 (w - n)) ?q"
  proof (cases "1 \<le> w - n")
    case True
    have "nat (w - 1) = nat (w - n - 1) + nat n" using True assms(2) by (simp add: nat_add_distrib [symmetric])
    then have p: "(2 :: int) ^ nat (w - 1) = 2 ^ nat (w - n - 1) * 2 ^ nat n" by (simp add: power_add)
    have "?q < 2 ^ nat (w - n - 1)" using w p by (simp add: div_less_iff_pos)
    moreover have "- (2 ^ nat (w - n - 1)) \<le> ?q" using w p by (intro div_pow_lower) simp
    ultimately show ?thesis using True w assms(2) by (simp add: in_bits_def)
  next
    case False
    have p: "(2 :: int) ^ nat (w - 1) \<le> 2 ^ nat n" using False by (intro power_increasing) simp_all
    have x: "- 1 * 2 ^ nat n \<le> sint x" "sint x < 2 ^ nat n" using w p by linarith+
    then have "?q < 1" by (simp add: div_less_iff_pos)
    moreover have "- 1 \<le> ?q" using x(1) by (rule div_pow_lower)
    ultimately show ?thesis using False by (simp add: in_bits_def)
  qed
  then show ?thesis by (simp only: sint_signed_drop)
qed

lemma kwidth_loop_eq: "kwidth_loop u w = w + nbits (uint u)"
proof (induction u w rule: kwidth_loop.induct)
  case (1 u w)
  have d: "uint (drop_bit (Suc 0) u) = uint u div 2" using uint_drop_u64 [of "Suc 0" u] by simp
  show ?case
  proof (cases "u = 0")
    case True
    then show ?thesis by (simp add: kwidth_loop.simps)
  next
    case False
    then have "uint u \<noteq> 0" by (simp add: unsigned_eq_0_iff)
    then have "0 < uint u" by (simp add: order_less_le)
    then show ?thesis using 1 [OF False] False d kwidth_loop.simps [of u w] nbits.simps [of "uint u"] by simp
  qed
qed

lemma width_k: "in_bits (oclj_kwidth k) (sint k)"
proof -
  define u where "u = (if sint k < 0 then NOT k else k)"
  have k: "oclj_kwidth k = 1 + nbits (uint u)" by (simp add: oclj_kwidth_def kwidth_loop_eq u_def)
  have s: "sint k = (if sint k < 0 then - 1 - uint u else uint u)"
    by (auto simp: u_def uint_not_u64 sint_u64_uint)
  have "uint u < 2 ^ 63" using s sint_u64_range [of k] by (auto split: if_splits)
  then have "nbits (uint u) \<le> 63" using nbits_le_iff [of "uint u" 63] by simp
  moreover have "uint u < 2 ^ nat (nbits (uint u))" by (rule nbits_less)
  moreover have "- (2 ^ nat (nbits (uint u))) \<le> uint u" by (rule order_trans [of _ 0]) simp_all
  moreover have "nat (oclj_kwidth k - 1) = nat (nbits (uint u))" "0 \<le> nbits (uint u)" using k by simp_all
  ultimately show ?thesis using s k unfolding in_bits_def by (simp only: split: if_splits) (linarith | simp)+
qed

lemma width_nonneg: "0 \<le> i \<Longrightarrow> i \<le> j \<Longrightarrow> in_bits w j \<Longrightarrow> in_bits w i"
  by (auto simp: in_bits_def intro: order_trans [of _ 0])

lemma width_and_k:
  assumes "0 \<le> sint k"
  shows "in_bits (oclj_kwidth k) (sint ((x :: u64) AND k))"
proof -
  have e: "sint (x AND k) = sint x AND sint k" by (simp add: signed_and_eq)
  have "0 \<le> sint x AND sint k" "sint x AND sint k \<le> sint k" using assms AND_upper2' by auto
  then show ?thesis using width_nonneg [OF _ _ width_k] e by metis
qed

lemma width_int32: "in_bits 32 (sint (scast (i :: 32 word) :: u64))" "in_bits 33 (sint (ucast (i :: 32 word) :: u64))"
proof -
  have "sint (scast i :: u64) = sint i"
    using sint_u32_range [of i] by (simp add: signed_scast_eq signed_take_bit_int_eq_self)
  then show "in_bits 32 (sint (scast i :: u64))" using sint_u32_range [of i] by (simp add: in_bits_def)
  have i: "uint i < 2 ^ 32" "0 \<le> uint i" using uint_bounded [of i] by simp_all
  then have u: "uint (ucast i :: u64) = uint i" by (simp add: unsigned_ucast_eq take_bit_int_eq_self)
  then show "in_bits 33 (sint (ucast i :: u64))" using u i sint_of_uint_small [of "ucast i :: u64"]
    by (auto simp: in_bits_def intro: order_trans [of _ 0])
qed


text \<open>A value read by a later instruction is the value it has in the whole run.\<close>

lemma val64_take: "r \<le> length vs \<Longrightarrow> val64 e (take r vs) a = Some y \<Longrightarrow> val64 e vs a = Some y \<and> a < r"
  by (auto simp: val64_def split: if_splits)

lemma val32_take: "r \<le> length vs \<Longrightarrow> val32 (take r vs) a = Some y \<Longrightarrow> vs ! a = VInt y \<and> a < r"
  by (auto simp: val32_def split: if_splits irval.splits)

definition bounded :: "menv \<Rightarrow> irval list \<Rightarrow> int \<Rightarrow> nat \<Rightarrow> bool" where
  "bounded e vs w r = (\<forall>y. val64 e vs r = Some y \<longrightarrow> in_bits w (sint y))"

lemma bounded_64: "bounded e vs 64 r"
  by (simp add: bounded_def in_bits_64)

lemma const_value: "ir_exec e J = Some vs \<Longrightarrow> r < length J \<Longrightarrow> ir_o (J ! r) = IR_KINT n \<Longrightarrow> vs ! r = VInt n"
  "ir_exec e J = Some vs \<Longrightarrow> r < length J \<Longrightarrow> ir_o (J ! r) = IR_KINT64 k \<Longrightarrow> vs ! r = VI64 k"
  using exec_value [of e J vs r] by (auto simp: ir_value_def Let_def)

lemma val64_VI64: "val64 e vs r = Some y \<Longrightarrow> vs ! r = VI64 z \<Longrightarrow> y = z"
  by (auto simp: val64_def split: if_splits)

lemma map2_Some: "map2_option f a b = Some z \<longleftrightarrow> (\<exists>x y. a = Some x \<and> b = Some y \<and> z = f x y)"
  by (auto simp: map2_option_def split: option.splits)

lemma shift_count_D:
  assumes "shift_count (take r vs) r2 = Some n" "r \<le> length vs"
  shows "\<exists>m. vs ! r2 = VInt m \<and> r2 < r \<and> n = nat (uint (m AND 63)) \<and> uint (m AND 63) < 64"
proof -
  from assms obtain m where m: "val32 (take r vs) r2 = Some m" "n = unat (m AND 63)"
    by (auto simp: shift_count_def)
  have "uint (m AND 63) = uint m AND 63" by (simp add: unsigned_and_eq)
  also have "\<dots> = take_bit 6 (uint m)" by (simp add: take_bit_eq_mask mask_eq_exp_minus_1)
  finally have "uint (m AND 63) < 64" using take_bit_int_less_exp [of 6 "uint m"] by simp
  then show ?thesis using val32_take [OF assms(2) m(1)] m(2) by auto
qed

lemma op_bounded:
  assumes e: "ir_exec e J = Some vs" and r: "r < length J" and t: "ir_t (J ! r) = IRT_I64"
    and w: "\<And>a. a < r \<Longrightarrow> bounded e vs (w a) a"
    and nk: "\<And>k. ir_o (J ! r) \<noteq> IR_KINT64 k"
  shows "bounded e vs (bitwidth_op J w (J ! r)) r"
  unfolding bounded_def
proof (intro allI impI)
  fix y
  assume y: "val64 e vs r = Some y"
  have l: "r \<le> length vs" "length vs = length J" using r exec_length [OF e] by simp_all
  have v: "ir_value e (take r vs) (J ! r) = Some (vs ! r)" by (rule exec_value [OF e r])
  let ?i = "J ! r"
  have vi: "y = z" if "vs ! r = VI64 z" for z using val64_VI64 [OF y that] .
  have wa: "in_bits (w a) (sint x)" if "val64 e (take r vs) a = Some x" for a x
    using val64_take [OF l(1) that] w unfolding bounded_def by blast
  have any: "in_bits (bitwidth_op J w ?i) (sint y)" if "bitwidth_op J w ?i = 64"
    using that in_bits_64 by simp
  have bnot: "in_bits (w (ir_op1 ?i)) (sint y)" if nt: "ir_o ?i = IR_BNOT"
  proof -
    obtain x where "val64 e (take r vs) (ir_op1 ?i) = Some x" "vs ! r = VI64 (NOT x)"
      using v t nt by (auto simp: ir_value_def Let_def)
    then show ?thesis using wa width_not vi by blast
  qed
  show "in_bits (bitwidth_op J w ?i) (sint y)"
  proof (cases "ir_op2 ?i")
    case (Mode m)
    have "(ir_o ?i = IR_CONV \<and> m_src m = IRT_INT) \<or> ir_o ?i = IR_BNOT \<or> bitwidth_op J w ?i = 64"
      using Mode by (cases "ir_o ?i") (simp_all add: bitwidth_op_def Let_def)
    then consider "ir_o ?i = IR_CONV" "m_src m = IRT_INT" | "ir_o ?i = IR_BNOT" | "bitwidth_op J w ?i = 64" by blast
    then show ?thesis
    proof cases
      case 1
      then have "map_option (\<lambda>n :: 32 word. VI64 (if m_sext m then scast n else ucast n)) (val32 (take r vs) (ir_op1 ?i)) = Some (vs ! r)"
        using v t Mode by (simp add: ir_value_def conv_value_def Let_def)
      then obtain n :: "32 word" where "VI64 (if m_sext m then scast n else ucast n) = vs ! r"
        unfolding map_option_eq_Some by blast
      then have "y = (if m_sext m then scast n else ucast n)" by (intro vi) (simp only:)
      then show ?thesis using 1 Mode width_int32 by (simp add: bitwidth_op_def Let_def)
    next
      case 2
      then show ?thesis using bnot Mode by (simp add: bitwidth_op_def Let_def)
    qed (rule any)
  next
    case (Ref r2)
    have bin: "\<exists>x z. val64 e (take r vs) (ir_op1 ?i) = Some x \<and> val64 e (take r vs) r2 = Some z \<and> y = f x z"
      if "ir_value e (take r vs) ?i =
        map2_option (\<lambda>x y. VI64 (f x y)) (val64 e (take r vs) (ir_op1 ?i)) (val64 e (take r vs) r2)" for f
      using v that vi by (auto simp: map2_Some)
    have shift: "\<exists>x m. val64 e (take r vs) (ir_op1 ?i) = Some x \<and> vs ! r2 = VInt m \<and> r2 < r \<and>
        y = f (nat (uint (m AND 63))) x \<and> uint (m AND 63) < 64"
      if "ir_value e (take r vs) ?i =
        map2_option (\<lambda>x n. VI64 (f n x)) (val64 e (take r vs) (ir_op1 ?i)) (shift_count (take r vs) r2)" for f
      using v that vi shift_count_D [OF _ l(1)] by (fastforce simp: map2_Some)
    have cnt: "n = uint (m AND 63)" if "vs ! r2 = VInt m" "r2 < r"
        "(case ir_o (J ! r2) of IR_KINT n \<Rightarrow> Some (uint (n AND 63)) | _ \<Rightarrow> None) = Some n" for m n
      using that const_value(1) [OF e, of r2] r by (auto split: irop.splits)
    show ?thesis
    proof (cases "ir_o ?i")
      case IR_BAND
      obtain x z where x: "val64 e (take r vs) (ir_op1 ?i) = Some x" "val64 e (take r vs) r2 = Some z" "y = x AND z"
        using bin [of "(AND)"] IR_BAND Ref t by (auto simp: ir_value_def Let_def)
      have m: "in_bits (max (w (ir_op1 ?i)) (w r2)) (sint y)" using width_bits(1) [OF wa wa, OF x(1,2)] x(3) by simp
      show ?thesis
      proof (cases "\<exists>k. ir_o (J ! r2) = IR_KINT64 k \<and> 0 \<le> sint k")
        case True
        then obtain k where k: "ir_o (J ! r2) = IR_KINT64 k" "0 \<le> sint k" by auto
        have "z = k" using const_value(2) [OF e _ k(1)] val64_take [OF l(1) x(2)] r val64_VI64 by auto
        then show ?thesis using width_and_k [OF k(2), of x] k x(3) IR_BAND Ref by (simp add: bitwidth_op_def Let_def)
      next
        case False
        then show ?thesis using m IR_BAND Ref by (auto simp: bitwidth_op_def Let_def split: irop.split)
      qed
    next
      case IR_BOR
      obtain x z where "val64 e (take r vs) (ir_op1 ?i) = Some x" "val64 e (take r vs) r2 = Some z" "y = x OR z"
        using bin [of "(OR)"] IR_BOR Ref t by (auto simp: ir_value_def Let_def)
      then show ?thesis using width_bits(2) [OF wa wa] IR_BOR Ref by (simp add: bitwidth_op_def Let_def)
    next
      case IR_BXOR
      obtain x z where "val64 e (take r vs) (ir_op1 ?i) = Some x" "val64 e (take r vs) r2 = Some z" "y = x XOR z"
        using bin [of "(XOR)"] IR_BXOR Ref t by (auto simp: ir_value_def Let_def)
      then show ?thesis using width_bits(3) [OF wa wa] IR_BXOR Ref by (simp add: bitwidth_op_def Let_def)
    next
      case IR_ADD
      obtain x z where "val64 e (take r vs) (ir_op1 ?i) = Some x" "val64 e (take r vs) r2 = Some z" "y = x + z"
        using bin [of "(+)"] IR_ADD Ref t by (auto simp: ir_value_def Let_def)
      then show ?thesis using width_add [OF wa wa] IR_ADD Ref by (simp add: bitwidth_op_def Let_def)
    next
      case IR_BSHL
      obtain x m where x: "val64 e (take r vs) (ir_op1 ?i) = Some x" "vs ! r2 = VInt m" "r2 < r"
          "y = push_bit (nat (uint (m AND 63))) x" "uint (m AND 63) < 64"
        using shift [of push_bit] IR_BSHL Ref t by (auto simp: ir_value_def Let_def)
      then show ?thesis using width_shl [OF wa [OF x(1)], of "uint (m AND 63)"] IR_BSHL Ref cnt [OF x(2,3)] in_bits_64
        by (auto simp: bitwidth_op_def Let_def split: option.split)
    next
      case IR_BSHR
      obtain x m where x: "val64 e (take r vs) (ir_op1 ?i) = Some x" "vs ! r2 = VInt m" "r2 < r"
          "y = drop_bit (nat (uint (m AND 63))) x" "uint (m AND 63) < 64"
        using shift [of drop_bit] IR_BSHR Ref t by (auto simp: ir_value_def Let_def)
      then show ?thesis using width_shr [of "uint (m AND 63)" x] IR_BSHR Ref cnt [OF x(2,3)] in_bits_64
        by (auto simp: bitwidth_op_def Let_def split: option.split)
    next
      case IR_BSAR
      obtain x m where x: "val64 e (take r vs) (ir_op1 ?i) = Some x" "vs ! r2 = VInt m" "r2 < r"
          "y = signed_drop_bit (nat (uint (m AND 63))) x" "uint (m AND 63) < 64"
        using shift [of signed_drop_bit] IR_BSAR Ref t by (auto simp: ir_value_def Let_def)
      then show ?thesis using width_sar [OF wa [OF x(1)], of "uint (m AND 63)"] IR_BSAR Ref cnt [OF x(2,3)] in_bits_64
        by (auto simp: bitwidth_op_def Let_def split: option.split)
    next
      case IR_BNOT
      then show ?thesis using bnot Ref by (simp add: bitwidth_op_def Let_def)
    qed (use any Ref in \<open>simp_all add: bitwidth_op_def Let_def\<close>)
  qed
qed

lemma int_value:
  assumes "ir_value e vs i = Some u" "ir_t i = IRT_INT" "\<And>k. ir_o i \<noteq> IR_KINT64 k"
  shows "val_type u \<noteq> IRT_I64"
  using assms by (cases "ir_o i")
    (auto simp: ir_value_def conv_value_def Let_def bind_eq_Some_conv
      split: irop2.splits irtype.splits if_splits)

lemma int_bounded:
  assumes e: "ir_exec e J = Some vs" and r: "r < length J" and t: "ir_t (J ! r) = IRT_INT"
    and nk: "\<And>k. ir_o (J ! r) \<noteq> IR_KINT64 k"
  shows "bounded e vs 33 r"
  unfolding bounded_def
proof (intro allI impI)
  fix y
  assume y: "val64 e vs r = Some y"
  have v: "ir_value e (take r vs) (J ! r) = Some (vs ! r)" by (rule exec_value [OF e r])
  have "val_type (vs ! r) \<noteq> IRT_I64" using int_value [OF v t nk] by simp
  then obtain n where "y = (if e_sext e then scast n else ucast (n :: 32 word))"
    using y by (cases "vs ! r") (auto simp: val64_def split: if_splits)
  then show "in_bits 33 (sint y)"
    using width_int32 [of n] in_bits_mono [of 32 _ 33] by (auto split: if_splits)
qed

lemma bitwidth_bounded:
  assumes e: "ir_exec e J = Some vs"
  shows "r < length J \<Longrightarrow> bounded e vs (oclj_bitwidth J r depth) r"
proof (induction "7 - depth" arbitrary: r depth rule: less_induct)
  case less
  show ?case
  proof (cases "\<exists>k. ir_o (J ! r) = IR_KINT64 k")
    case True
    then obtain k where k: "ir_o (J ! r) = IR_KINT64 k" by auto
    then have "vs ! r = VI64 k" using const_value(2) [OF e less.prems] by simp
    then show ?thesis using k width_k [of k] val64_VI64 [of e vs r _ k]
      by (auto simp: bounded_def oclj_bitwidth.simps [of J r])
  next
    case False
    then have b: "oclj_bitwidth J r depth =
        (if ir_t (J ! r) = IRT_INT then 33
         else if ir_t (J ! r) \<noteq> IRT_I64 \<or> 6 < depth then 64
         else bitwidth_op J (\<lambda>a. oclj_bitwidth J a (depth + 1)) (J ! r))"
      by (cases "ir_o (J ! r)") (simp_all add: oclj_bitwidth.simps [of J r depth])
    have "bounded e vs (bitwidth_op J (\<lambda>a. oclj_bitwidth J a (depth + 1)) (J ! r)) r"
      if "ir_t (J ! r) = IRT_I64" "depth \<le> 6"
    proof (rule op_bounded [OF e less.prems that(1)])
      show "bounded e vs (oclj_bitwidth J a (depth + 1)) a" if "a < r" for a
        using less.hyps [of "depth + 1" a] less.prems that \<open>depth \<le> 6\<close> by simp
      show "ir_o (J ! r) \<noteq> IR_KINT64 k" for k using False by blast
    qed
    then show ?thesis using b int_bounded [OF e less.prems] False by (auto simp: bounded_64)
  qed
qed

section \<open>The folds\<close>

lemma isnumconv_value:
  assumes "ir_exec e J = Some vs" "r < length J" "oclj_isnumconv J r"
  shows "\<exists>x. vs ! r = VI64 (word_of_int (cvttsd2si x))"
  using exec_value [OF assms(1,2)] assms(3)
  by (auto simp: oclj_isnumconv_def ir_value_def conv_value_def Let_def split: irop2.splits) metis

lemma fits53_cvttsd2si: "fits53 (cvttsd2si x)"
proof (cases "dval x")
  case (FFin s m k)
  have m: "0 \<le> m" "m < 2 ^ 53"
    using dval_nonneg [OF FFin] fp_decode_mantissa [of 53 11 "uint x" s m k] FFin by (simp_all add: dval_def)
  have "fits53 (d_trunc x)"
  proof (cases "0 \<le> k")
    case True
    have "d_trunc x = ((if s then - 1 else 1) * m) * 2 ^ nat k" using FFin True by (simp add: d_trunc_def)
    then show ?thesis using m unfolding fits53_def
      by (intro exI [of _ "(if s then - 1 else 1) * m"] exI [of _ "nat k"]) auto
  next
    case False
    have "0 \<le> m div 2 ^ nat (- k)" "m div 2 ^ nat (- k) \<le> m"
      using m div_pow_le [of m "nat (- k)"] by (simp_all add: pos_imp_zdiv_nonneg_iff)
    then show ?thesis using FFin False m by (auto simp: d_trunc_def intro!: fits53_small)
  qed
  then show ?thesis using FFin fits53_pow(2) by (simp add: cvttsd2si_def Let_def)
qed (use fits53_pow(2) in \<open>simp_all add: cvttsd2si_def\<close>)

lemma narrow_value:
  assumes "in_bits 32 (sint (y :: u64))"
  shows "int_of_num (d_of_int (sint y)) = Some (ucast y)"
proof -
  have r: "- (2 ^ 31) \<le> sint y" "sint y < 2 ^ 31" using assms by (simp_all add: in_bits_def)
  have "sint (ucast y :: 32 word) = sint y"
  proof -
    have "(ucast y :: 32 word) = word_of_int (sint y)" by (rule bit_word_eqI) (simp add: bit_simps min_def)
    moreover have "sint (word_of_int i :: 32 word) = i" if "- (2 ^ 31) \<le> i" "i < 2 ^ 31" for i
      using that by (simp add: signed_of_int signed_take_bit_int_eq_self)
    ultimately show ?thesis using r by metis
  qed
  then show ?thesis using r flt2int_of_int [of "sint y"] by (simp add: int_of_num_iff fits53_small)
qed

section \<open>The property\<close>

text \<open>C12: the bound is a bound. For every run of every trace, the int64 a reference holds lies in
  the signed range of \<open>oclj_bitwidth\<close> bits, whatever the values; so a conversion to a double and back
  gives it again where the bound is 54 or less or the value is a converted double, and where the
  bound is 32 or less the checked conversion of its double to an int passes and is its low word.\<close>

theorem bitwidth_sound:
  assumes "ir_exec e J = Some vs" "r < length J" "val64 e vs r = Some y"
  shows "(let w = oclj_bitwidth J r 0 in
      1 \<le> w \<and> w \<le> 64 \<and> - (2 ^ nat (w - 1)) \<le> sint y \<and> sint y < 2 ^ nat (w - 1) \<and>
      (w \<le> 54 \<or> oclj_isnumconv J r \<longrightarrow> word_of_int (cvttsd2si (d_of_int (sint y))) = y) \<and>
      (w \<le> 32 \<longrightarrow> int_of_num (d_of_int (sint y)) = Some (ucast y)))"
proof -
  have b: "in_bits (oclj_bitwidth J r 0) (sint y)"
    using bitwidth_bounded [OF assms(1,2)] assms(3) by (simp add: bounded_def)
  have "int_of_num (d_of_int (sint y)) = Some (ucast y)" if "oclj_bitwidth J r 0 \<le> 32"
    by (rule narrow_value) (use in_bits_mono [OF b that] in simp)
  moreover have "word_of_int (cvttsd2si (d_of_int (sint y))) = y"
    if "oclj_bitwidth J r 0 \<le> 54 \<or> oclj_isnumconv J r"
    using that unfolding back_exact
  proof
    assume "oclj_bitwidth J r 0 \<le> 54"
    then have "in_bits 54 (sint y)" using in_bits_mono [OF b] by simp
    then show "fits53 (sint y)" by (intro fits53_small) (auto simp: in_bits_def)
  next
    assume "oclj_isnumconv J r"
    then obtain x where "y = word_of_int (cvttsd2si x)"
      using isnumconv_value [OF assms(1,2)] val64_VI64 [OF assms(3)] by blast
    moreover have "sint (word_of_int (cvttsd2si x) :: u64) = cvttsd2si x"
      using cvttsd2si_range by (intro sint_u64_of_int)
    ultimately show "fits53 (sint y)" using fits53_cvttsd2si by simp
  qed
  ultimately show ?thesis using b by (simp add: in_bits_def Let_def)
qed

text \<open>\<open>(i64)x & 0xFF\<close> shifted left by 4: a bound of 13 bits, for \<open>x = 2^40 + 171\<close>.\<close>

definition and_trace :: trace where
  "and_trace =
     [IRT IR_SLOAD IRT_NUM 0 (Ref 0), IRT IR_CONV IRT_I64 0 (Mode CONV_I64_NUM), kint64 0xFF,
      IRT IR_BAND IRT_I64 1 (Ref 2), kint 4, IRT IR_BSHL IRT_I64 3 (Ref 4)]"

theorem bitwidth_sound_witness:
  "oclj_bitwidth and_trace 5 0 = 13 \<and>
   word_of_int (cvttsd2si (d_of_int 0xAB0)) = (0xAB0 :: u64) \<and> int_of_num (d_of_int 0xAB0) = Some 0xAB0"
proof -
  let ?e = "shl_env (d_of_int (2 ^ 40 + 0xAB)) 0"
  let ?vs = "[VNum (d_of_int (2 ^ 40 + 0xAB)), VI64 (2 ^ 40 + 0xAB), VI64 0xFF, VI64 0xAB, VInt 4, VI64 0xAB0]"
  have 1: "ir_exec ?e and_trace = Some ?vs" by code_simp
  have w: "oclj_bitwidth and_trace 5 0 = 13" by code_simp
  have v: "val64 ?e ?vs 5 = Some 0xAB0" by (simp add: val64_def)
  have s: "sint (0xAB0 :: u64) = 0xAB0" "(ucast (0xAB0 :: u64) :: 32 word) = 0xAB0" by code_simp+
  show ?thesis using bitwidth_sound [OF 1 _ v] w s by (simp add: and_trace_def Let_def)
qed

end
