(* ===== verification/IeeeArith.thy ===== *)
theory IeeeArith
  imports Ieee
begin

text \<open>
  Arithmetic on doubles is exact where the result has a double: the sum, the product with and the
  quotient by a power of two, the negation and the floor. Elsewhere it is within half a unit in the
  last place: the product, and the quotient by a thousand.
\<close>

definition has_double :: "rat \<Rightarrow> bool" where
  "has_double q = (\<exists>c f. \<bar>c\<bar> < 2 ^ 53 \<and> - 1074 \<le> f \<and> f \<le> 900 \<and> q = of_int c * 2 powi f)"

lemma has_doubleI: "\<bar>c\<bar> < 2 ^ 53 \<Longrightarrow> - 1074 \<le> f \<Longrightarrow> f \<le> 900 \<Longrightarrow> q = of_int c * 2 powi f \<Longrightarrow> has_double q"
  unfolding has_double_def by blast

lemma powi_split: "(2 :: rat) powi (a + b) = 2 powi a * 2 powi b"
  by (rule power_int_add) simp

lemma powi_nat: "0 \<le> k \<Longrightarrow> (2 :: rat) powi k = of_int (2 ^ nat k)"
  by (simp add: power_int_def)

lemma mk_double_zero: "fp_rat (dval (mk_double s 0 e)) = Some 0"
  by (cases s) (simp_all add: mk_double_def fp_round_def dval_def fp_decode_def)

theorem mk_double_exact:
  assumes m: "0 \<le> m" and h: "has_double (of_int m * 2 powi e)"
  shows "fp_rat (dval (mk_double s m e)) = Some ((if s then - 1 else 1) * of_int m * 2 powi e)"
proof (cases "m = 0")
  case True
  then show ?thesis by (simp add: mk_double_zero)
next
  case False
  then have m: "0 < m" using m by simp
  obtain c f where c: "\<bar>c\<bar> < 2 ^ 53" "- 1074 \<le> f" "f \<le> 900" and r: "of_int m * 2 powi e = (of_int c * 2 powi f :: rat)"
    using h by (auto simp: has_double_def)
  have emin: "fp_emin 53 11 = - 1074" by (simp add: fp_emin_def)
  define k where "k = fp_k 53 11 m e"
  have kd: "k = max (nbits m - 53) (- 1074 - e)" by (simp add: k_def fp_k_def emin)
  have exp: "m = c * 2 ^ nat (f - e)" if "e \<le> f"
  proof -
    have "of_int m * 2 powi e = (of_int c * 2 powi (f - e) * 2 powi e :: rat)"
      using r powi_split [of "f - e" e] by simp
    then have "(of_int m :: rat) = of_int c * of_int (2 ^ nat (f - e))"
      using that powi_nat [of "f - e"] by simp
    then show ?thesis by (metis of_int_eq_iff of_int_mult)
  qed
  have exp': "c = m * 2 ^ nat (e - f)" if "f \<le> e"
  proof -
    have "of_int m * 2 powi (e - f) * 2 powi f = (of_int c * 2 powi f :: rat)"
      using r powi_split [of "e - f" f] by simp
    then have "(of_int c :: rat) = of_int m * of_int (2 ^ nat (e - f))"
      using that powi_nat [of "e - f"] by simp
    then show ?thesis by (metis of_int_eq_iff of_int_mult)
  qed
  have q: "of_int (fp_q 53 11 m e) * 2 powi (e + k) = (of_int m * 2 powi e :: rat)"
  proof (cases "k \<le> 0")
    case True
    have "(of_int (m * 2 ^ nat (- k)) :: rat) * 2 powi (e + k) = of_int m * (2 powi (- k) * 2 powi (e + k))"
      using True powi_nat [of "- k"] by simp
    also have "2 powi (- k) * 2 powi (e + k) = (2 powi e :: rat)"
      using powi_split [of "- k" "e + k"] by simp
    finally show ?thesis using True by (simp add: fp_q_def k_def [symmetric] Let_def)
  next
    case False
    have "2 ^ nat k dvd m"
    proof (cases "e \<le> f")
      case True
      have mc: "m = c * 2 ^ nat (f - e)" using exp [OF True] .
      show ?thesis
      proof (cases "k = - 1074 - e")
        case True
        then have "nat k \<le> nat (f - e)" using c by simp
        then show ?thesis using mc le_imp_power_dvd dvd_mult by metis
      next
        case False
        then have k': "k = nbits m - 53" "53 < nbits \<bar>m\<bar>" using kd \<open>\<not> k \<le> 0\<close> m by auto
        have "fits53 m" using mc c(1) unfolding fits53_def by blast
        then show ?thesis using fits53_iff_dvd [OF k'(2)] k'(1) m by simp
      qed
    next
      case False
      then have cm: "c = m * 2 ^ nat (e - f)" using exp' by simp
      have "m \<le> \<bar>c\<bar>" using m cm by (simp add: abs_mult mult_le_cancel_left1)
      then have "nbits m \<le> 53" using c(1) nbits_le_iff [of m 53] by simp
      moreover have "- 1074 - e \<le> 0" using False c by simp
      ultimately show ?thesis using kd \<open>\<not> k \<le> 0\<close> by simp
    qed
    then obtain z where z: "m = z * 2 ^ nat k" by (metis dvd_def mult.commute)
    have "fp_q 53 11 m e = rne m (2 ^ nat k)"
      using False unfolding fp_q_def k_def [symmetric] Let_def by simp
    also have "\<dots> = z" unfolding z by (rule rne_exact) simp
    finally have fq: "fp_q 53 11 m e = z" .
    have "(of_int m :: rat) = of_int z * 2 powi k" using False powi_nat [of k] by (subst z) simp
    then show ?thesis using fq powi_split [of e k] by simp
  qed
  have fin: "(e + fp_k 53 11 m e - fp_emin 53 11) * 2 ^ (53 - 1) + fp_q 53 11 m e < (2 ^ 11 - 1) * 2 ^ (53 - 1)"
  proof -
    have qle: "fp_q 53 11 m e \<le> 2 ^ 53" using fp_q_bounds(2) [OF m, of 53 11 e] by simp
    have ek: "e + k \<le> 900"
    proof (cases "k = - 1074 - e")
      case False
      then have k': "k = nbits m - 53" using kd by auto
      show ?thesis
      proof (cases "e \<le> f")
        case True
        have "m < 2 ^ 53 * 2 ^ nat (f - e)" using exp [OF True] c(1) m by (simp add: mult_strict_right_mono)
        also have "\<dots> = 2 ^ (53 + nat (f - e))" by (simp add: power_add)
        finally have "nbits m \<le> int (53 + nat (f - e))" by (simp only: nbits_le_iff)
        then show ?thesis using k' True c by simp
      next
        case False
        define n where "n = nat (e - f)"
        have cm: "m * 2 ^ n < 2 ^ 53" using exp' False c(1) m by (simp add: n_def abs_mult)
        have "1 * 2 ^ n \<le> m * 2 ^ n" using m by (intro mult_right_mono) simp_all
        then have "(2 :: int) ^ n < 2 ^ 53" using cm by linarith
        then have n: "n < 53" by (rule power_less_imp_less_exp [rotated]) simp
        then have "(2 :: int) ^ 53 = 2 ^ (53 - n) * 2 ^ n" by (simp add: power_add [symmetric])
        then have "m * 2 ^ n < 2 ^ (53 - n) * 2 ^ n" using cm by (simp only:)
        then have "m < 2 ^ (53 - n)" by (rule mult_right_less_imp_less) simp
        then have "nbits m \<le> int (53 - n)" by (simp only: nbits_le_iff)
        then show ?thesis using k' n False c by (simp add: n_def)
      qed
    qed simp
    then show ?thesis using qle by (simp add: k_def emin)
  qed
  show ?thesis using fp_decode_round [OF m _ fin] m q by (simp add: dval_mk_double k_def mult.assoc)
qed


lemma has_double_uminus [simp]: "has_double (- q) = has_double q"
proof -
  have "has_double (- r)" if "has_double r" for r
  proof -
    obtain c f where c: "\<bar>c\<bar> < 2 ^ 53" "- 1074 \<le> f" "f \<le> 900" "r = of_int c * 2 powi f"
      using \<open>has_double r\<close> by (auto simp: has_double_def)
    show ?thesis by (rule has_doubleI [of "- c" f]) (use c in simp_all)
  qed
  from this [of q] this [of "- q"] show ?thesis by auto
qed

lemma has_double_abs: "has_double q \<Longrightarrow> has_double \<bar>q\<bar>"
  by (simp add: abs_if)

lemma scaled_value: "e0 \<le> e \<Longrightarrow> fp_rat (FFin s m e) = Some q \<Longrightarrow> of_int (scaled s m e e0) * 2 powi e0 = q"
  using scaled_rat [of e0 e s m] powi_split [of "- e0" e0] by (simp add: mult.assoc)

lemma mk_double_signed:
  assumes "of_int z * 2 powi e = q" "has_double q"
  shows "fp_rat (dval (mk_double (z < 0) \<bar>z\<bar> e)) = Some q"
proof -
  have "of_int \<bar>z\<bar> * 2 powi e = \<bar>q\<bar>" using assms(1) by (auto simp: abs_mult)
  then have "fp_rat (dval (mk_double (z < 0) \<bar>z\<bar> e)) = Some ((if z < 0 then - 1 else 1) * of_int \<bar>z\<bar> * 2 powi e)"
    using has_double_abs [OF assms(2)] by (intro mk_double_exact) simp_all
  then show ?thesis using assms(1) by (auto split: if_splits)
qed

lemma d_add_exact:
  assumes "fp_rat (dval a) = Some p" "fp_rat (dval b) = Some q" "has_double (p + q)"
  shows "fp_rat (dval (d_add a b)) = Some (p + q)"
proof -
  obtain s m e where a: "dval a = FFin s m e" using assms(1) by (cases "dval a") auto
  obtain t n f where b: "dval b = FFin t n f" using assms(2) by (cases "dval b") auto
  let ?e = "min e f" and ?z = "scaled s m e (min e f) + scaled t n f (min e f)"
  have z: "of_int ?z * 2 powi ?e = p + q"
    using scaled_value [of ?e e s m p] scaled_value [of ?e f t n q] assms a b by (simp add: distrib_right)
  show ?thesis
  proof (cases "?z = 0")
    case True
    then have "p + q = 0" using z by simp
    then show ?thesis using True a b by (simp add: d_add_def Let_def mk_double_zero)
  next
    case False
    then show ?thesis using mk_double_signed [OF z assms(3)] a b by (simp add: d_add_def Let_def)
  qed
qed

lemma d_mul_exact:
  assumes "fp_rat (dval a) = Some p" "fp_rat (dval b) = Some q" "has_double (p * q)"
  shows "fp_rat (dval (d_mul a b)) = Some (p * q)"
proof -
  obtain s m e where a: "dval a = FFin s m e" using assms(1) by (cases "dval a") auto
  obtain t n f where b: "dval b = FFin t n f" using assms(2) by (cases "dval b") auto
  have mn: "0 \<le> m" "0 \<le> n" using dval_nonneg [OF a] dval_nonneg [OF b] by simp_all
  have v: "p * q = (if s \<noteq> t then - 1 else 1) * of_int (m * n) * 2 powi (e + f)"
    using assms(1,2) a b powi_split [of e f] by (auto simp: mult.commute mult.left_commute mult.assoc)
  then have "has_double (of_int (m * n) * 2 powi (e + f))" using assms(3) by (auto split: if_splits)
  then have "fp_rat (dval (mk_double (s \<noteq> t) (m * n) (e + f))) =
      Some ((if s \<noteq> t then - 1 else 1) * of_int (m * n) * 2 powi (e + f))"
    using mn by (intro mk_double_exact) simp_all
  then show ?thesis using a b v by (simp add: d_mul_def)
qed

text \<open>A quotient by a power of two, as the code divides.\<close>

lemma d_div_exact:
  assumes "fp_rat (dval a) = Some p" "dval b = FFin False (2 ^ k) f" "has_double (p / (2 ^ k * 2 powi f))" "k \<le> 120"
  shows "fp_rat (dval (d_div a b)) = Some (p / (2 ^ k * 2 powi f))"
proof -
  obtain s m e where a: "dval a = FFin s m e" using assms(1) by (cases "dval a") auto
  have m: "0 \<le> m" using dval_nonneg [OF a] by simp
  have d: "m * 2 ^ 120 = m * 2 ^ (120 - k) * 2 ^ k" using assms(4) by (simp add: power_add [symmetric] mult.assoc)
  then have z: "m * 2 ^ 120 div 2 ^ k = m * 2 ^ (120 - k)" "m * 2 ^ 120 mod 2 ^ k = 0"
    by (simp_all only: nonzero_mult_div_cancel_right mod_mult_self2_is_0 power_not_zero zero_neq_numeral [symmetric] not_False_eq_True)
  have "(2 :: rat) * 2 ^ (120 - k) = 2 ^ Suc (120 - k)" by (rule power_Suc [symmetric])
  also have "\<dots> = 2 powi int (121 - k)" using assms(4) by (simp only: power_int_of_nat Suc_diff_le [symmetric]) simp
  finally have pw: "(2 :: rat) * 2 ^ (120 - k) * 2 powi (e - f - 121) = 2 powi (e - f - int k)"
    using assms(4) powi_split [of "int (121 - k)" "e - f - 121"] by (simp add: of_nat_diff)
  have v: "(if s then - 1 else 1) * of_int (2 * (m * 2 ^ (120 - k))) * 2 powi (e - f - 121) = p / (2 ^ k * 2 powi f)"
    using assms(1) a pw by (simp add: power_int_diff divide_simps ac_simps)
  then have "of_int (2 * (m * 2 ^ (120 - k))) * 2 powi (e - f - 121) =
      (if s then - (p / (2 ^ k * 2 powi f)) else p / (2 ^ k * 2 powi f))" by (auto split: if_splits)
  then have "has_double (of_int (2 * (m * 2 ^ (120 - k))) * 2 powi (e - f - 121))"
    using assms(3) by (cases s) (simp_all only: has_double_uminus if_True if_False)
  then have "fp_rat (dval (mk_double s (2 * (m * 2 ^ (120 - k))) (e - f - 121))) =
      Some ((if s then - 1 else 1) * of_int (2 * (m * 2 ^ (120 - k))) * 2 powi (e - f - 121))"
    using m by (intro mk_double_exact) simp_all
  then show ?thesis using a assms(2) v z by (simp add: d_div_def Let_def)
qed

lemma mod_mult_div: "0 < P \<Longrightarrow> 0 \<le> Q \<Longrightarrow> y mod (P * Q) div P = y div P mod Q" for y P Q :: int
  by (simp add: zmod_zmult2_eq)

lemma d_neg_exact: "fp_rat (dval (d_neg a)) = map_option uminus (fp_rat (dval a))"
proof -
  let ?b = "uint a" and ?c = "uint (d_neg a)"
  have x: "?c = ?b XOR 2 ^ 63" by (simp add: d_neg_def unsigned_xor_eq)
  have "take_bit 63 ?c = take_bit 63 ?b" unfolding x by (rule bit_eqI) (auto simp: bit_simps)
  then have lo: "?c mod 2 ^ 63 = ?b mod 2 ^ 63" by (simp add: take_bit_eq_mod)
  have "bit ?c 63 = (\<not> bit ?b 63)" unfolding x by (simp add: bit_simps)
  then have s: "odd (?c div 2 ^ 63) = (\<not> odd (?b div 2 ^ 63))" by (simp add: bit_iff_odd)
  have f: "y mod 2 ^ 52 = y mod 2 ^ 63 mod 2 ^ 52" "y div 2 ^ 52 mod 2 ^ 11 = y mod 2 ^ 63 div 2 ^ 52" for y :: int
  proof -
    show "y mod 2 ^ 52 = y mod 2 ^ 63 mod 2 ^ 52" by (simp add: mod_mod_cancel)
    have "(2 :: int) ^ 52 * 2 ^ 11 = 2 ^ 63" by simp
    then show "y div 2 ^ 52 mod 2 ^ 11 = y mod 2 ^ 63 div 2 ^ 52" using mod_mult_div [of "2 ^ 52" "2 ^ 11" y] by (simp only:) simp
  qed
  have "?c mod 2 ^ 52 = ?b mod 2 ^ 52" "?c div 2 ^ 52 mod 2 ^ 11 = ?b div 2 ^ 52 mod 2 ^ 11"
    using f lo by metis+
  moreover have n: "(53 :: nat) - 1 = 52" "(52 :: nat) + 11 = 63" by simp_all
  ultimately have "dval (d_neg a) =
      (case dval a of FNan \<Rightarrow> FNan | FInf s \<Rightarrow> FInf (\<not> s) | FFin s m e \<Rightarrow> FFin (\<not> s) m e)"
    unfolding dval_def fp_decode_def Let_def n s
    by (cases "?b div 2 ^ 52 mod 2 ^ 11 = 2 ^ 11 - 1"; cases "?b div 2 ^ 52 mod 2 ^ 11 = 0"; cases "?b mod 2 ^ 52 = 0")
      (simp_all only: if_True if_False fpval.case simp_thms)
  then show ?thesis by (cases "dval a") auto
qed

lemma d_sub_exact:
  assumes "fp_rat (dval a) = Some p" "fp_rat (dval b) = Some q" "has_double (p - q)"
  shows "fp_rat (dval (d_sub a b)) = Some (p - q)"
  using d_add_exact [of a p "d_neg b" "- q"] d_neg_exact [of b] assms by (simp add: d_sub_def)

lemma abs_div_le:
  fixes z d k :: int
  assumes "\<bar>z\<bar> \<le> k" "0 < d"
  shows "\<bar>z div d\<bar> \<le> k"
proof -
  have "0 \<le> k" using assms(1) by linarith
  then have k: "k \<le> k * d" using assms(2) by (simp add: mult_le_cancel_left1)
  then have "- k * d div d \<le> z div d" using assms by (intro zdiv_mono1) auto
  then have "- k \<le> z div d" using assms(2) by (subst (asm) nonzero_mult_div_cancel_right) simp_all
  moreover have "z div d \<le> k * d div d" using assms k by (intro zdiv_mono1) auto
  then have "z div d \<le> k" using assms(2) by (subst (asm) nonzero_mult_div_cancel_right) simp_all
  ultimately show ?thesis by simp
qed

lemma d_floor_exact:
  assumes q: "fp_rat (dval a) = Some q"
  shows "fp_rat (dval (d_floor a)) = Some (of_int \<lfloor>q\<rfloor>)"
proof -
  obtain s m e where a: "dval a = FFin s m e" using q by (cases "dval a") auto
  have m: "0 \<le> m" "m < 2 ^ 53"
    using dval_nonneg [OF a] fp_decode_mantissa [of 53 11 "uint a" s m e] a by (simp_all add: dval_def)
  show ?thesis
  proof (cases "m = 0 \<or> 0 \<le> e")
    case True
    have "q = of_int ((if s then - 1 else 1) * m * 2 ^ nat e)"
      using q a True powi_nat [of e] by auto
    then show ?thesis using True a q by (simp add: d_floor_def del: of_int_mult)
  next
    case False
    let ?z = "(if s then - 1 else 1) * m"
    have "q = of_int ?z / of_int (2 ^ nat (- e))"
      using q a False by (auto simp: power_int_def divide_simps)
    then have f: "\<lfloor>q\<rfloor> = ?z div 2 ^ nat (- e)" by (simp only: floor_divide_of_int_eq)
    have "\<bar>?z div 2 ^ nat (- e)\<bar> \<le> 2 ^ 53" by (rule abs_div_le) (use m in auto)
    then have "fp_rat (dval (d_of_int (?z div 2 ^ nat (- e)))) = Some (of_int (?z div 2 ^ nat (- e)))"
      by (intro d_of_int_rat_small)
    then show ?thesis using False a f by (simp add: d_floor_def)
  qed
qed

section \<open>Near\<close>

lemma rne_error: "0 < d \<Longrightarrow> 2 * \<bar>rne m d * d - m\<bar> \<le> d"
proof -
  assume d: "0 < d"
  define q r where "q = m div d" and "r = m mod d"
  have m: "m = q * d + r" and r: "0 \<le> r" "r < d" using d by (simp_all add: q_def r_def)
  have n: "rne m d = (if 2 * r < d then q else if 2 * r > d then q + 1 else if even q then q else q + 1)"
    by (simp add: rne_def q_def r_def Let_def)
  show ?thesis unfolding n using r by (auto simp: m algebra_simps)
qed

text \<open>Any rounding is within half a unit in the last place.\<close>

lemma mk_double_near:
  assumes m: "0 < m" and v: "of_int m * 2 powi e \<le> (2 ^ 64 :: rat)"
  obtains y where "fp_rat (dval (mk_double s m e)) = Some ((if s then - 1 else 1) * y)" "0 \<le> y"
    "\<bar>y - of_int m * 2 powi e\<bar> \<le> of_int m * 2 powi e / 2 ^ 53 + 2 powi (- 1075)"
proof -
  define k where "k = fp_k 53 11 m e"
  define q where "q = fp_q 53 11 m e"
  have emin: "fp_emin 53 11 = - 1074" by (simp add: fp_emin_def)
  have kd: "k = max (nbits m - 53) (- 1074 - e)" by (simp add: k_def fp_k_def emin)
  have top: "2 powi (nbits m - 1 + e) \<le> (of_int m * 2 powi e :: rat)"
  proof -
    have "(2 :: rat) powi (nbits m - 1) = of_int (2 ^ nat (nbits m - 1))" using nbits_pos [OF m] by (intro powi_nat) simp
    also have "\<dots> \<le> of_int m" using nbits_ge [OF m] by (simp only: of_int_le_iff)
    finally show ?thesis by (simp add: powi_split mult_right_mono)
  qed
  have "(2 :: rat) powi (nbits m - 1 + e) \<le> 2 powi 64" using top v by simp
  then have b: "nbits m - 1 + e \<le> 64" using power_int_le_imp_le_exp [of "2 :: rat" "nbits m - 1 + e" 64] by simp
  have ek: "e + k \<le> 900" using b kd by auto
  have qb: "0 \<le> q" "q \<le> 2 ^ 53" using fp_q_bounds(1,2) [OF m, of 53 11 e] by (simp_all add: q_def)
  have fin: "(e + fp_k 53 11 m e - fp_emin 53 11) * 2 ^ (53 - 1) + fp_q 53 11 m e < (2 ^ 11 - 1) * 2 ^ (53 - 1)"
    using ek qb by (simp add: k_def [symmetric] q_def [symmetric] emin)
  have val: "fp_rat (dval (mk_double s m e)) = Some ((if s then - 1 else 1) * (of_int q * 2 powi (e + k)))"
    using fp_decode_round [OF m _ fin] m by (simp add: dval_mk_double k_def q_def mult.assoc)
  have "\<bar>of_int q * 2 powi (e + k) - of_int m * 2 powi e\<bar> \<le> (of_int m * 2 powi e / 2 ^ 53 + 2 powi (- 1075) :: rat)"
  proof (cases "k \<le> 0")
    case True
    have "(of_int (m * 2 ^ nat (- k)) :: rat) * 2 powi (e + k) = of_int m * (2 powi (- k) * 2 powi (e + k))"
      using True powi_nat [of "- k"] by simp
    also have "2 powi (- k) * 2 powi (e + k) = (2 powi e :: rat)" using powi_split [of "- k" "e + k"] by simp
    finally have "(of_int q :: rat) * 2 powi (e + k) = of_int m * 2 powi e"
      using True by (simp add: q_def fp_q_def k_def [symmetric] Let_def)
    then show ?thesis using m by simp
  next
    case False
    have q: "q = rne m (2 ^ nat k)" using False by (simp add: q_def fp_q_def k_def [symmetric] Let_def)
    have pk: "(2 :: rat) powi k = of_int (2 ^ nat k)" using False by (intro powi_nat) simp
    have "2 * \<bar>q * 2 ^ nat k - m\<bar> \<le> 2 ^ nat k" unfolding q by (rule rne_error) simp
    then have "(of_int (2 * \<bar>q * 2 ^ nat k - m\<bar>) :: rat) \<le> of_int (2 ^ nat k)" by (simp only: of_int_le_iff)
    then have err: "2 * \<bar>of_int q * 2 powi k - of_int m\<bar> \<le> (2 powi k :: rat)" by (simp add: pk)
    have "of_int q * 2 powi (e + k) - of_int m * 2 powi e = ((of_int q * 2 powi k - of_int m) * 2 powi e :: rat)"
      by (simp add: powi_split algebra_simps)
    then have "\<bar>of_int q * 2 powi (e + k) - of_int m * 2 powi e\<bar> = (\<bar>of_int q * 2 powi k - of_int m\<bar> * 2 powi e :: rat)"
      by (simp add: abs_mult)
    also have "\<dots> \<le> 2 powi k / 2 * 2 powi e" using err by (intro mult_right_mono) simp_all
    also have "\<dots> = 2 powi (e + k - 1)" by (simp add: powi_split power_int_diff)
    also have "\<dots> \<le> of_int m * 2 powi e / 2 ^ 53 + 2 powi (- 1075)"
    proof (cases "k = - 1074 - e")
      case True
      then show ?thesis using m by simp
    next
      case no: False
      then have "e + k - 1 = nbits m - 1 + e - 53" using kd by auto
      then have "(2 :: rat) powi (e + k - 1) = 2 powi ((nbits m - 1 + e) - 53)" by (simp only:)
      also have "\<dots> = 2 powi (nbits m - 1 + e) / 2 ^ 53"
        using power_int_diff [of "2 :: rat" "nbits m - 1 + e" 53] by (simp del: power_int_diff)
      finally have "(2 :: rat) powi (e + k - 1) = 2 powi (nbits m - 1 + e) / 2 ^ 53" .
      then have "(2 :: rat) powi (e + k - 1) \<le> of_int m * 2 powi e / 2 ^ 53" using top by (simp add: divide_right_mono)
      then show ?thesis by (simp add: add_increasing2)
    qed
    finally show ?thesis .
  qed
  then show ?thesis using that val qb(1) by simp
qed


lemma tiny: "(2 :: rat) powi (- 1075) \<le> 1 / 10 ^ 9" "0 < (2 :: rat) powi (- 1075)"
proof -
  have "(2 :: rat) powi (- 1075) \<le> 2 powi (- 30)" by (rule power_int_increasing) simp_all
  also have "(2 :: rat) powi (- 30) = 1 / 2 ^ 30" by (simp add: power_int_def field_simps)
  finally show "(2 :: rat) powi (- 1075) \<le> 1 / 10 ^ 9" by simp
qed simp

text \<open>A product, when it is not large.\<close>

lemma d_mul_near:
  assumes a: "fp_rat (dval a) = Some p" and b: "fp_rat (dval b) = Some q" and pq: "0 < q" "\<bar>p\<bar> * q \<le> 2 ^ 64"
  obtains y where "fp_rat (dval (d_mul a b)) = Some (if p < 0 then - y else y)" "0 \<le> y" "y \<le> \<bar>p\<bar> * q * (1 + 1 / 2 ^ 53) + 2 powi (- 1075)"
proof -
  obtain s m e where A: "dval a = FFin s m e" using a by (cases "dval a") auto
  obtain t n f where B: "dval b = FFin t n f" using b by (cases "dval b") auto
  have mn: "0 \<le> m" "0 \<le> n" using dval_nonneg [OF A] dval_nonneg [OF B] by simp_all
  have p: "p = (if s then - 1 else 1) * of_int m * 2 powi e" and q: "q = (if t then - 1 else 1) * of_int n * 2 powi f"
    using a b A B by simp_all
  have t: "\<not> t" "0 < n"
  proof -
    have "0 \<le> of_int n * (2 :: rat) powi f" using mn by simp
    then show "\<not> t" using q pq(1) by auto
    then show "0 < n" using q pq(1) mn by (cases "n = 0") auto
  qed
  show ?thesis
  proof (cases "m = 0")
    case True
    then show ?thesis using that [of 0] p A B t tiny(2) by (simp add: d_mul_def mk_double_zero less_imp_le)
  next
    case False
    then have m: "0 < m * n" using mn t by simp
    have s: "s \<longleftrightarrow> p < 0" and ap: "\<bar>p\<bar> = of_int m * 2 powi e"
    proof -
      have "0 < of_int m * (2 :: rat) powi e" using False mn by simp
      then show "s \<longleftrightarrow> p < 0" "\<bar>p\<bar> = of_int m * 2 powi e" using p by auto
    qed
    have v: "of_int (m * n) * 2 powi (e + f) = \<bar>p\<bar> * q" using ap q t by (simp add: powi_split ac_simps)
    obtain y where y: "fp_rat (dval (mk_double (s \<noteq> t) (m * n) (e + f))) = Some ((if s \<noteq> t then - 1 else 1) * y)" "0 \<le> y"
        "\<bar>y - of_int (m * n) * 2 powi (e + f)\<bar> \<le> of_int (m * n) * 2 powi (e + f) / 2 ^ 53 + 2 powi (- 1075)"
      using mk_double_near [OF m, of "e + f" "s \<noteq> t"] v pq(2) by metis
    show ?thesis
    proof (rule that [of y])
      show "fp_rat (dval (d_mul a b)) = Some (if p < 0 then - y else y)" using y(1) A B t s by (simp add: d_mul_def)
      have "y \<le> \<bar>p\<bar> * q + (\<bar>p\<bar> * q / 2 ^ 53 + 2 powi (- 1075))" using y(3) unfolding v by linarith
      then show "y \<le> \<bar>p\<bar> * q * (1 + 1 / 2 ^ 53) + 2 powi (- 1075)" by (simp only: distrib_left mult_1_right times_divide_eq_right)
    qed (rule y(2))
  qed
qed

text \<open>The quotient by a thousand of what is at most \<open>2 ^ 40\<close>.\<close>

lemma d_of_int_1000: "dval (d_of_int 1000) = FFin False (1000 * 2 ^ 43) (- 43)"
  by code_simp

lemma d_div_1000_near:
  assumes a: "fp_rat (dval a) = Some p" and p: "0 \<le> p" "p \<le> 2 ^ 40"
  obtains y where "fp_rat (dval (d_div a (d_of_int 1000))) = Some y" "0 \<le> y" "1000 * y \<le> p * (1 + 1 / 2 ^ 52) + 1 / 10 ^ 6"
proof -
  obtain s m e where A: "dval a = FFin s m e" using a by (cases "dval a") auto
  have m: "0 \<le> m" using dval_nonneg [OF A] .
  show ?thesis
  proof (cases "m = 0")
    case True
    then show ?thesis using that [of 0] a A p by (simp add: d_div_def d_of_int_1000 Let_def mk_double_zero)
  next
    case False
    then have pos: "0 < of_int m * (2 :: rat) powi e" using m by simp
    then have s: "\<not> s" and pv: "p = of_int m * 2 powi e" using a A p by (auto split: if_splits)
    define n :: int where "n = 1000 * 2 ^ 43"
    define z where "z = m * 2 ^ 120"
    define c where "c = 2 * (z div n) + (if z mod n = 0 then 0 else 1)"
    have d: "d_div a (d_of_int 1000) = mk_double False c (e - 78)"
      using s A by (simp add: d_div_def d_of_int_1000 Let_def c_def z_def n_def)
    have n: "0 < n" "n < 2 ^ 120" by (simp_all add: n_def)
    have "1 * 2 ^ 120 \<le> z" using False m unfolding z_def by (intro mult_right_mono) simp_all
    then have "n div n \<le> z div n" using n by (intro zdiv_mono1) linarith+
    then have c0: "0 < c" using n by (simp add: c_def)
    have zd: "z div n * n \<le> z" using n by (metis mult.commute div_mult_mod_eq pos_mod_sign le_add_same_cancel1 zle_iff_zadd add_increasing2 order_refl)
    have "c * n \<le> 2 * z + n"
    proof -
      have "c \<le> 2 * (z div n) + 1" by (simp add: c_def)
      then have "c * n \<le> (2 * (z div n) + 1) * n" using n by (intro mult_right_mono) simp_all
      also have "\<dots> = 2 * (z div n * n) + n" by (simp add: algebra_simps)
      finally show ?thesis using zd by linarith
    qed
    then have "(of_int (c * n) :: rat) \<le> of_int (2 * z + n)" by (simp only: of_int_le_iff)
    then have cr: "of_int c * (1000 * 2 ^ 43) \<le> (2 * (of_int m * 2 ^ 120) + 1000 * 2 ^ 43 :: rat)"
      by (simp add: n_def z_def)
    have x: "(2 :: rat) powi (e - 78) = 2 powi e / 2 ^ 78" by (simp add: power_int_diff)
    define v :: rat where "v = of_int c * 2 powi (e - 78)"
    have "of_int c * (1000 * 2 ^ 43) * 2 powi e \<le> (2 * (of_int m * 2 ^ 120) + 1000 * 2 ^ 43) * (2 powi e :: rat)"
      using cr by (rule mult_right_mono) simp
    then have "1000 * v \<le> p + 1000 * 2 powi e / 2 ^ 78" by (simp add: v_def x pv field_simps)
    moreover have "2 powi e \<le> p"
    proof -
      have "1 * 2 powi e \<le> of_int m * (2 :: rat) powi e" using False m by (intro mult_right_mono) simp_all
      then show ?thesis by (simp add: pv)
    qed
    ultimately have v: "1000 * v \<le> p + 1000 * p / 2 ^ 78" by (simp add: field_simps)
    have v0: "0 \<le> v" using c0 by (simp add: v_def)
    have "v \<le> 2 ^ 64" using v p by (simp add: field_simps)
    then obtain y where y: "fp_rat (dval (mk_double False c (e - 78))) = Some y" "0 \<le> y" "\<bar>y - v\<bar> \<le> v / 2 ^ 53 + 2 powi (- 1075)"
      using mk_double_near [OF c0, of "e - 78" False] by (auto simp: v_def)
    show ?thesis
    proof (rule that [of y])
      have "y \<le> v + v / 2 ^ 53 + 1 / 10 ^ 9" using y(3) tiny(1) by linarith
      then show "1000 * y \<le> p * (1 + 1 / 2 ^ 52) + 1 / 10 ^ 6" using v p by (simp add: field_simps)
    qed (use d y in simp_all)
  qed
qed


lemma rat_trunc_le: "rat_trunc y \<le> 0 \<or> of_int (rat_trunc y) \<le> y"
  by (simp add: rat_trunc_def)

lemma has_double_rest:
  assumes a: "fp_rat (dval a) = Some p" and p: "0 \<le> p" "p \<le> 2 ^ 40" and k: "0 \<le> k" "\<bar>p - of_int (1000 * k)\<bar> \<le> p"
  shows "has_double (p - of_int (1000 * k))"
proof -
  obtain s m e where A: "dval a = FFin s m e" using a by (cases "dval a") auto
  have m: "0 \<le> m" "m < 2 ^ 53" and e: "- 1074 \<le> e"
    using dval_nonneg [OF A] fp_decode_mantissa [of 53 11 "uint a" s m e] A
    by (auto simp: dval_def fp_decode_def fp_emin_def Let_def split: if_splits)
  have pv: "p = (if s then - 1 else 1) * of_int m * 2 powi e" using a A by simp
  define z where "z = (if s then - 1 else 1) * m"
  have pz: "p = of_int z * 2 powi e" by (simp add: pv z_def)
  show ?thesis
  proof (cases "0 \<le> e")
    case True
    then have r: "p - of_int (1000 * k) = of_int (z * 2 ^ nat e - 1000 * k)" by (simp add: pz powi_nat)
    then have "\<bar>(of_int (z * 2 ^ nat e - 1000 * k) :: rat)\<bar> \<le> 2 ^ 40" using k(2) p(2) by simp
    then have "\<bar>z * 2 ^ nat e - 1000 * k\<bar> \<le> 2 ^ 40"
      by (metis (mono_tags, lifting) of_int_abs of_int_le_iff of_int_numeral of_int_power)
    then show ?thesis by (intro has_doubleI [of "z * 2 ^ nat e - 1000 * k" 0]) (use r in simp_all)
  next
    case False
    let ?c = "z - 1000 * k * 2 ^ nat (- e)"
    have pe: "(2 :: rat) ^ nat (- e) * 2 powi e = 1"
      using False powi_nat [of "- e"] powi_split [of "- e" e] by simp
    have r: "p - of_int (1000 * k) = of_int ?c * 2 powi e"
      using pe by (simp add: pz left_diff_distrib mult.assoc)
    have "\<bar>(of_int ?c :: rat)\<bar> * 2 powi e \<le> \<bar>of_int z\<bar> * 2 powi e"
      using k(2) p(1) unfolding r by (simp add: pz abs_mult)
    then have "\<bar>(of_int ?c :: rat)\<bar> \<le> \<bar>of_int z\<bar>" by (rule mult_right_le_imp_le) simp
    then have "\<bar>?c\<bar> \<le> \<bar>z\<bar>" by (simp only: of_int_abs [symmetric] of_int_le_iff)
    then show ?thesis by (intro has_doubleI [of ?c e]) (use r m e False in \<open>simp_all add: z_def split: if_splits\<close>)
  qed
qed

end
