(* ===== verification/ShimBit32.thy ===== *)
theory ShimBit32
  imports IeeeArith Bitop
begin

text \<open>
  native/lj52shim.c, bit32: Lua 5.2's 32-bit library and the unsigned accessors of the C API. A call's Lua
  arguments are a list, 1-based as in C; \<open>luaL_checknumber\<close> of a string is LuaJIT's conversion,
  a parameter. Where C leaves a value undefined, a cast of a double no int holds, the negation or
  sum of ints past their range, a shift by 32 or more, the result is the error \<open>B32Undefined\<close>.
\<close>

section \<open>Arguments\<close>

text \<open>The errors: a bad argument (number expected), \<open>luaL_argcheck\<close>, \<open>luaL_error\<close>, and no value in C.\<close>

datatype b32_err =
    B32NoNumber int
  | B32Arg int string
  | B32Error string
  | B32Undefined string

definition arg_n :: "tvalue list \<Rightarrow> int \<Rightarrow> tvalue option" where
  "arg_n xs i = (if 1 \<le> i \<and> nat i \<le> length xs then Some (xs ! nat (i - 1)) else None)"

definition luaL_checknumber :: "(byte list \<Rightarrow> double option) \<Rightarrow> tvalue list \<Rightarrow> int \<Rightarrow> b32_err + double" where
  "luaL_checknumber str xs i =
     (case arg_n xs i of
        Some (TvNum d) \<Rightarrow> Inr d
      | Some (TvStr s) \<Rightarrow> (case str s of Some d \<Rightarrow> Inr d | None \<Rightarrow> Inl (B32NoNumber i))
      | _ \<Rightarrow> Inl (B32NoNumber i))"

definition luaL_optnumber ::
  "(byte list \<Rightarrow> double option) \<Rightarrow> tvalue list \<Rightarrow> int \<Rightarrow> double \<Rightarrow> b32_err + double" where
  "luaL_optnumber str xs i d =
     (case arg_n xs i of
        None \<Rightarrow> Inr d
      | Some v \<Rightarrow> if v = TvOther ''nil'' then Inr d else luaL_checknumber str xs i)"

text \<open>\<open>(int)d\<close>.\<close>

definition c_int :: "double \<Rightarrow> b32_err + int" where
  "c_int d =
     (case dval d of
        FFin _ _ _ \<Rightarrow>
          if - INT_MAX - 1 \<le> d_trunc d \<and> d_trunc d \<le> INT_MAX then Inr (d_trunc d)
          else Inl (B32Undefined ''cast'')
      | _ \<Rightarrow> Inl (B32Undefined ''cast''))"

text \<open>The conversion modulo 2^32, of \<open>b32arg\<close> and \<open>lua_tounsigned\<close>.\<close>

definition d_2p32 :: double where "d_2p32 = d_of_int 4294967296"

definition unsigned_of :: "double \<Rightarrow> u32" where
  "unsigned_of d =
     (if \<not> (d_less (d_of_int (- 9000000000000000000)) d \<and> d_less d (d_of_int 9000000000000000000)) then 0
      else let r = d_sub d (d_mul (d_floor (d_div d d_2p32)) d_2p32)
        in word_of_int (uint (word_of_int (d_trunc r) :: u64)))"

definition b32arg :: "(byte list \<Rightarrow> double option) \<Rightarrow> tvalue list \<Rightarrow> int \<Rightarrow> b32_err + u32" where
  "b32arg str xs i = ebind (luaL_checknumber str xs i) (\<lambda>d. Inr (unsigned_of d))"

text \<open>\<open>lua_pushnumber(L, (lua_Number)r)\<close> of an unsigned.\<close>

definition push_u :: "u32 \<Rightarrow> double" where
  "push_u r = d_of_int (uint r)"

text \<open>\<open>lua_pushunsigned\<close> and \<open>lua_tounsigned\<close>; \<open>lua_tonumber\<close> is 0 for what is no number.\<close>

definition lua_pushunsigned :: "u32 \<Rightarrow> tvalue" where
  "lua_pushunsigned n = TvNum (d_of_int (uint n))"

definition lua_tounsigned :: "(byte list \<Rightarrow> double option) \<Rightarrow> tvalue list \<Rightarrow> int \<Rightarrow> u32" where
  "lua_tounsigned str xs i =
     unsigned_of (case luaL_checknumber str xs i of Inr d \<Rightarrow> d | Inl _ \<Rightarrow> d_of_int 0)"

section \<open>The library\<close>

text \<open>The loop over all arguments, the first bad one raising.\<close>

function b32_loop ::
  "(byte list \<Rightarrow> double option) \<Rightarrow> (u32 \<Rightarrow> u32 \<Rightarrow> u32) \<Rightarrow> tvalue list \<Rightarrow> int \<Rightarrow> u32 \<Rightarrow> b32_err + u32" where
  "b32_loop str f xs i r =
     (if i \<le> int (length xs) then ebind (b32arg str xs i) (\<lambda>a. b32_loop str f xs (i + 1) (f r a)) else Inr r)"
  by pat_completeness auto

termination
  by (relation "measure (\<lambda>(_, _, xs, i, _). nat (int (length xs) + 1 - i))") auto

declare b32_loop.simps [simp del]

definition b32_band :: "(byte list \<Rightarrow> double option) \<Rightarrow> tvalue list \<Rightarrow> b32_err + double" where
  "b32_band str xs = ebind (b32_loop str (\<lambda>r a. r AND a) xs 1 0xFFFFFFFF) (\<lambda>r. Inr (push_u r))"

definition b32_bor :: "(byte list \<Rightarrow> double option) \<Rightarrow> tvalue list \<Rightarrow> b32_err + double" where
  "b32_bor str xs = ebind (b32_loop str (\<lambda>r a. r OR a) xs 1 0) (\<lambda>r. Inr (push_u r))"

definition b32_bxor :: "(byte list \<Rightarrow> double option) \<Rightarrow> tvalue list \<Rightarrow> b32_err + double" where
  "b32_bxor str xs = ebind (b32_loop str (\<lambda>r a. r XOR a) xs 1 0) (\<lambda>r. Inr (push_u r))"

definition b32_btest :: "(byte list \<Rightarrow> double option) \<Rightarrow> tvalue list \<Rightarrow> b32_err + bool" where
  "b32_btest str xs = ebind (b32_loop str (\<lambda>r a. r AND a) xs 1 0xFFFFFFFF) (\<lambda>r. Inr (r \<noteq> 0))"

definition b32_bnot :: "(byte list \<Rightarrow> double option) \<Rightarrow> tvalue list \<Rightarrow> b32_err + double" where
  "b32_bnot str xs = ebind (b32arg str xs 1) (\<lambda>a. Inr (push_u (NOT a AND 0xFFFFFFFF)))"

text \<open>\<open>i = -i\<close>.\<close>

definition c_neg :: "int \<Rightarrow> b32_err + int" where
  "c_neg i = (if i = - INT_MAX - 1 then Inl (B32Undefined ''negation'') else Inr (- i))"

definition b32_lshift :: "(byte list \<Rightarrow> double option) \<Rightarrow> tvalue list \<Rightarrow> b32_err + double" where
  "b32_lshift str xs =
     ebind (b32arg str xs 1) (\<lambda>r.
     ebind (ebind (luaL_checknumber str xs 2) c_int) (\<lambda>i.
     if i < 0 then
       ebind (c_neg i) (\<lambda>i. Inr (push_u (if 32 \<le> i then 0 else drop_bit (nat i) r AND 0xFFFFFFFF)))
     else Inr (push_u (if 32 \<le> i then 0 else push_bit (nat i) r AND 0xFFFFFFFF))))"

definition b32_rshift :: "(byte list \<Rightarrow> double option) \<Rightarrow> tvalue list \<Rightarrow> b32_err + double" where
  "b32_rshift str xs =
     ebind (b32arg str xs 1) (\<lambda>r.
     ebind (ebind (luaL_checknumber str xs 2) c_int) (\<lambda>i.
     if i < 0 then
       ebind (c_neg i) (\<lambda>i. Inr (push_u (if 32 \<le> i then 0 else push_bit (nat i) r AND 0xFFFFFFFF)))
     else Inr (push_u (if 32 \<le> i then 0 else drop_bit (nat i) r AND 0xFFFFFFFF))))"

definition b32_arshift :: "(byte list \<Rightarrow> double option) \<Rightarrow> tvalue list \<Rightarrow> b32_err + double" where
  "b32_arshift str xs =
     ebind (b32arg str xs 1) (\<lambda>r.
     ebind (ebind (luaL_checknumber str xs 2) c_int) (\<lambda>i.
     if i < 0 then
       ebind (c_neg i) (\<lambda>i. Inr (push_u (if 32 \<le> i then 0 else push_bit (nat i) r AND 0xFFFFFFFF)))
     else
       let neg = r AND 0x80000000 \<noteq> 0 in
       Inr (push_u
         (if 32 \<le> i then if neg then 0xFFFFFFFF else 0
          else if i = 0 then r
          else let res = drop_bit (nat i) r in
            if neg then res OR (push_bit (nat (32 - i)) 0xFFFFFFFF AND 0xFFFFFFFF) else res))))"

definition b32_lrotate :: "(byte list \<Rightarrow> double option) \<Rightarrow> tvalue list \<Rightarrow> b32_err + double" where
  "b32_lrotate str xs =
     ebind (b32arg str xs 1) (\<lambda>r.
     ebind (ebind (luaL_checknumber str xs 2) c_int) (\<lambda>d.
     let i = d AND 31 in
     Inr (push_u ((push_bit (nat i) r OR drop_bit (nat ((32 - i) AND 31)) r) AND 0xFFFFFFFF))))"

definition b32_rrotate :: "(byte list \<Rightarrow> double option) \<Rightarrow> tvalue list \<Rightarrow> b32_err + double" where
  "b32_rrotate str xs =
     ebind (b32arg str xs 1) (\<lambda>r.
     ebind (ebind (luaL_checknumber str xs 2) c_int) (\<lambda>d.
     let i = d AND 31 in
     Inr (push_u ((drop_bit (nat i) r OR push_bit (nat ((32 - i) AND 31)) r) AND 0xFFFFFFFF))))"

text \<open>The field of extract and replace: its position and width.\<close>

definition b32field :: "(byte list \<Rightarrow> double option) \<Rightarrow> tvalue list \<Rightarrow> int \<Rightarrow> b32_err + int \<times> int" where
  "b32field str xs i =
     ebind (ebind (luaL_checknumber str xs i) c_int) (\<lambda>f.
     ebind (ebind (luaL_optnumber str xs (i + 1) (d_of_int 1)) c_int) (\<lambda>w.
     ebind (require (0 \<le> f) (B32Arg i ''field cannot be negative'')) (\<lambda>_.
     ebind (require (0 < w) (B32Arg (i + 1) ''width must be positive'')) (\<lambda>_.
     ebind (require (f + w \<le> INT_MAX) (B32Undefined ''sum'')) (\<lambda>_.
     ebind (require (f + w \<le> 32) (B32Error ''trying to access non-existent bits'')) (\<lambda>_.
     Inr (f, w)))))))"

definition b32_extract :: "(byte list \<Rightarrow> double option) \<Rightarrow> tvalue list \<Rightarrow> b32_err + double" where
  "b32_extract str xs =
     ebind (b32arg str xs 1) (\<lambda>v.
     ebind (b32field str xs 2) (\<lambda>(f, w).
     Inr (push_u (drop_bit (nat f) v AND drop_bit (nat (32 - w)) 0xFFFFFFFF))))"

definition b32_replace :: "(byte list \<Rightarrow> double option) \<Rightarrow> tvalue list \<Rightarrow> b32_err + double" where
  "b32_replace str xs =
     ebind (b32arg str xs 1) (\<lambda>v.
     ebind (b32arg str xs 2) (\<lambda>r.
     ebind (b32field str xs 3) (\<lambda>(f, w).
     let m = drop_bit (nat (32 - w)) 0xFFFFFFFF in
     Inr (push_u (((v AND NOT (push_bit (nat f) m)) OR push_bit (nat f) (r AND m)) AND 0xFFFFFFFF)))))"

section \<open>The conversion modulo 2^32\<close>

lemma double_fraction:
  assumes "fp_rat (dval d) = Some q" "q * 2 ^ 20 = of_int i" "\<bar>q\<bar> < 2 ^ 64"
  shows "\<exists>c f. \<bar>c\<bar> < 2 ^ 53 \<and> - 20 \<le> f \<and> f \<le> 64 \<and> q = of_int c * 2 powi f"
proof -
  obtain s m e where d: "dval d = FFin s m e" using assms(1) by (cases "dval d") auto
  have m: "0 \<le> m" "m < 2 ^ 53"
    using dval_nonneg [OF d] fp_decode_mantissa [of 53 11 "uint d" s m e] d by (simp_all add: dval_def)
  define c where "c = (if s then - m else m)"
  have c: "\<bar>c\<bar> < 2 ^ 53" and q: "q = of_int c * 2 powi e" using m assms(1) d by (auto simp: c_def)
  consider "m = 0" | "e < - 20" | "m \<noteq> 0" "- 20 \<le> e" by linarith
  then show ?thesis
  proof cases
    case 1
    then have "q = 0" using q by (simp add: c_def)
    then show ?thesis by (intro exI [of _ 0]) auto
  next
    case 2
    have p20: "(2 :: rat) ^ 20 = 2 powi 20" by (simp add: power_int_def)
    have "of_int i * 2 powi (- 20 - e) = of_int c * (2 powi e * 2 powi 20 * 2 powi (- 20 - e) :: rat)"
      using assms(2) unfolding q p20 by (simp only: mult.assoc [symmetric])
    also have "2 powi e * 2 powi 20 * 2 powi (- 20 - e) = (1 :: rat)"
      using powi_split [of e 20] powi_split [of "e + 20" "- 20 - e"] by simp
    finally have "of_int c = (of_int i * 2 powi (- 20 - e) :: rat)" by simp
    then have "c = i * 2 ^ nat (- 20 - e)"
      using 2 powi_nat [of "- 20 - e"] by (metis of_int_eq_iff of_int_mult diff_ge_0_iff_ge less_imp_le)
    then have "\<bar>i\<bar> \<le> \<bar>c\<bar>" by (simp add: abs_mult mult_le_cancel_left1)
    then have "\<bar>i\<bar> < 2 ^ 53" using c by simp
    moreover have "q = of_int i * 2 powi - 20" using assms(2) by (simp add: power_int_def field_simps)
    ultimately show ?thesis by (intro exI [of _ i] exI [of _ "- 20"]) simp
  next
    case 3
    have "e \<le> 64"
    proof (rule ccontr)
      assume "\<not> e \<le> 64"
      then have "(2 :: rat) powi 64 \<le> 2 powi e" by (intro power_int_increasing) simp_all
      moreover have "1 \<le> \<bar>of_int c :: rat\<bar>" using 3 by (simp add: c_def)
      ultimately have "(2 :: rat) ^ 64 \<le> \<bar>of_int c\<bar> * 2 powi e"
        using mult_mono [of 1 "\<bar>of_int c :: rat\<bar>" "2 ^ 64" "2 powi e"] by (simp add: power_int_def)
      then show False using assms(3) q by (simp add: abs_mult)
    qed
    then show ?thesis using 3 c q by blast
  qed
qed

lemma d_2p32_val: "dval d_2p32 = FFin False (2 ^ 52) (- 20)" "fp_rat (dval d_2p32) = Some (2 ^ 32)"
  by code_simp (simp add: d_2p32_def d_of_int_rat_small)

lemma fits53_9e18: "fits53 9000000000000000000" "fits53 (- 9000000000000000000)"
  unfolding fits53_def
  by (rule exI [of _ 34332275390625], rule exI [of _ 18], simp)
    (rule exI [of _ "- 34332275390625"], rule exI [of _ 18], simp)

lemma unsigned_guard:
  assumes "fp_rat (dval d) = Some q"
  shows "d_less (d_of_int (- 9000000000000000000)) d \<longleftrightarrow> - 9000000000000000000 < q"
    "d_less d (d_of_int 9000000000000000000) \<longleftrightarrow> q < 9000000000000000000"
  using fp_less_rat [OF d_of_int_small_rat [OF _ fits53_9e18(2)] assms]
    fp_less_rat [OF assms d_of_int_small_rat [OF _ fits53_9e18(1)]]
  by (simp_all add: d_less_def)

theorem unsigned_of_floor:
  assumes q: "fp_rat (dval d) = Some q" "- 9000000000000000000 < q" "q < 9000000000000000000"
    and i: "q * 2 ^ 20 = of_int i"
  shows "unsigned_of d = word_of_int \<lfloor>q\<rfloor>"
proof -
  define k where "k = \<lfloor>q / 2 ^ 32\<rfloor>"
  have k: "of_int k \<le> q / 2 ^ 32" "q / 2 ^ 32 < of_int k + 1" unfolding k_def
    by (simp_all only: of_int_floor_le floor_correct [THEN conjunct2, unfolded of_int_add of_int_1])
  have "\<bar>q\<bar> < 2 ^ 64" using q by simp
  then obtain c f where c: "\<bar>c\<bar> < 2 ^ 53" "- 20 \<le> f" "f \<le> 64" "q = of_int c * 2 powi f"
    using double_fraction [OF q(1) i] by blast
  have "(2 :: rat) ^ 52 * 2 powi - 20 = 2 ^ 32" using powi_split [of 52 "- 20"] by simp
  then have p: "p / (2 ^ 52 * 2 powi - 20) = p / 2 ^ 32" for p :: rat by simp
  have "has_double (q / 2 ^ 32)"
    by (rule has_doubleI [of c "f - 32"]) (use c in \<open>simp_all add: power_int_diff\<close>)
  then have 1: "fp_rat (dval (d_div d d_2p32)) = Some (q / 2 ^ 32)"
    using d_div_exact [OF q(1) d_2p32_val(1)] by (simp add: p)
  then have 2: "fp_rat (dval (d_floor (d_div d d_2p32))) = Some (of_int k)"
    unfolding k_def by (rule d_floor_exact)
  have "(of_int k :: rat) < of_int (2 ^ 32)" "(of_int (- (2 ^ 32)) :: rat) < of_int k"
    using k q(2,3) by simp_all
  then have kb: "k < 2 ^ 32" "- (2 ^ 32) < k" by (simp_all only: of_int_less_iff)
  have "has_double (of_int k * 2 ^ 32)"
    by (rule has_doubleI [of k 32]) (use kb in \<open>auto simp: power_int_def\<close>)
  then have 3: "fp_rat (dval (d_mul (d_floor (d_div d d_2p32)) d_2p32)) = Some (of_int k * 2 ^ 32)"
    by (rule d_mul_exact [OF 2 d_2p32_val(2)])
  let ?r = "q - of_int k * 2 ^ 32"
  have r: "0 \<le> ?r" "?r < 2 ^ 32" using k by (simp_all add: field_simps)
  have rz: "?r * 2 ^ 20 = of_int (i - k * 2 ^ 52)" using i by (simp add: left_diff_distrib)
  have "has_double ?r"
  proof (rule has_doubleI [of "i - k * 2 ^ 52" "- 20"])
    have "0 \<le> (of_int (i - k * 2 ^ 52) :: rat)" "(of_int (i - k * 2 ^ 52) :: rat) < of_int (2 ^ 52)"
      using r rz [symmetric] by simp_all
    then show "\<bar>i - k * 2 ^ 52\<bar> < 2 ^ 53" by (simp only: of_int_0_le_iff of_int_less_iff) simp
    show "?r = of_int (i - k * 2 ^ 52) * 2 powi - 20" using rz by (simp add: power_int_def field_simps)
  qed simp_all
  then have 4: "fp_rat (dval (d_sub d (d_mul (d_floor (d_div d d_2p32)) d_2p32))) = Some ?r"
    by (rule d_sub_exact [OF q(1) 3])
  have "?r = q - of_int (k * 2 ^ 32)" by simp
  then have fl: "\<lfloor>?r\<rfloor> = \<lfloor>q\<rfloor> - k * 2 ^ 32" by (metis floor_diff_of_int)
  have t: "d_trunc (d_sub d (d_mul (d_floor (d_div d d_2p32)) d_2p32)) = \<lfloor>?r\<rfloor>"
    using d_trunc_rat [OF 4] r by (simp only: rat_trunc_def if_True)
  have u: "0 \<le> \<lfloor>?r\<rfloor>" "\<lfloor>?r\<rfloor> < 2 ^ 32" using r by (simp_all add: floor_less_iff)
  have "uint (word_of_int \<lfloor>?r\<rfloor> :: u64) = \<lfloor>?r\<rfloor>" by (rule uint_u64_of_int [OF u(1) order.strict_trans [OF u(2)]]) simp
  then have "unsigned_of d = word_of_int \<lfloor>?r\<rfloor>"
    using unsigned_guard [OF q(1)] q(2,3) t
    by (simp only: unsigned_of_def Let_def if_False simp_thms)
  also have "\<dots> = word_of_int \<lfloor>q\<rfloor>"
    unfolding fl by (rule word_of_int_eq_iff [THEN iffD2]) (simp add: take_bit_eq_mod mod_diff_eq [symmetric, of "\<lfloor>q\<rfloor>" "k * 4294967296"])
  finally show ?thesis .
qed

lemma unsigned_of_int:
  assumes "fits53 i" "\<bar>i\<bar> < 9000000000000000000"
  shows "unsigned_of (d_of_int i) = word_of_int i"
proof -
  have "fp_rat (dval (d_of_int i)) = Some (of_int i)" using assms by (intro d_of_int_small_rat) auto
  moreover have "of_int i * 2 ^ 20 = (of_int (i * 2 ^ 20) :: rat)" by simp
  ultimately show ?thesis using unsigned_of_floor [of "d_of_int i" "of_int i" "i * 2 ^ 20"] assms(2)
    by (simp add: abs_less_iff)
qed

lemma unsigned_of_other:
  assumes "\<nexists>q. fp_rat (dval d) = Some q \<and> - 9000000000000000000 < q \<and> q < 9000000000000000000"
  shows "unsigned_of d = 0"
proof (cases "fp_rat (dval d)")
  case (Some q)
  then show ?thesis using assms unsigned_guard [OF Some] by (auto simp: unsigned_of_def)
next
  case None
  have h: "fp_rat (dval (d_of_int 9000000000000000000)) \<noteq> None" "fp_rat (dval (d_of_int (- 9000000000000000000))) \<noteq> None"
    using d_of_int_small_rat [OF _ fits53_9e18(1)] d_of_int_small_rat [OF _ fits53_9e18(2)] by simp_all
  then have "\<not> (d_less (d_of_int (- 9000000000000000000)) d \<and> d_less d (d_of_int 9000000000000000000))"
    using None by (cases "dval d"; cases "dval (d_of_int 9000000000000000000)"; cases "dval (d_of_int (- 9000000000000000000))")
      (auto simp: d_less_def)
  then show ?thesis by (simp add: unsigned_of_def)
qed


text \<open>Integer arguments, which the examples below use.\<close>

lemma b32arg_int:
  "arg_n xs k = Some (TvNum (d_of_int i)) \<Longrightarrow> \<bar>i\<bar> \<le> 2 ^ 53 \<Longrightarrow> b32arg str xs k = Inr (word_of_int i)"
  using unsigned_of_int [of i] fits53_small [of i] by (simp add: b32arg_def luaL_checknumber_def)

lemma c_int_of_int: "\<bar>i\<bar> \<le> INT_MAX \<Longrightarrow> c_int (d_of_int i) = Inr i"
proof -
  assume i: "\<bar>i\<bar> \<le> INT_MAX"
  then obtain s m e where "dval (d_of_int i) = FFin s m e"
    using d_of_int_rat_small [of i] by (cases "dval (d_of_int i)") auto
  then show ?thesis using i d_trunc_small [of i] by (auto simp: c_int_def)
qed

lemma int_arg:
  "arg_n xs k = Some (TvNum (d_of_int i)) \<Longrightarrow> \<bar>i\<bar> \<le> INT_MAX \<Longrightarrow> ebind (luaL_checknumber str xs k) c_int = Inr i"
  "arg_n xs k = Some (TvNum (d_of_int i)) \<Longrightarrow> \<bar>i\<bar> \<le> INT_MAX \<Longrightarrow>
    ebind (luaL_optnumber str xs k d) c_int = Inr i"
  "arg_n xs k = None \<Longrightarrow> ebind (luaL_optnumber str xs k (d_of_int 1)) c_int = Inr 1"
  by (simp_all only: luaL_checknumber_def luaL_optnumber_def option.case tvalue.case tvalue.distinct if_False
      ebind_Inr c_int_of_int)

section \<open>The operations on words\<close>

lemma mask32: "(x :: u32) AND 0xFFFFFFFF = x"
proof -
  have "(0xFFFFFFFF :: u32) = - 1" by simp
  then show ?thesis by (simp only: and.right_neutral)
qed

lemma push_32: "32 \<le> n \<Longrightarrow> push_bit n (r :: u32) = 0" "32 \<le> n \<Longrightarrow> drop_bit n (r :: u32) = 0"
  by (rule bit_word_eqI; simp add: bit_simps bit_imp_le_length not_less)+

lemma shl32: "0 \<le> i \<Longrightarrow> (if 32 \<le> i then 0 else push_bit (nat i) (r :: u32)) = word_of_int (uint r * 2 ^ nat i)"
proof -
  assume "0 \<le> i"
  then have "(if 32 \<le> i then 0 else push_bit (nat i) r) = push_bit (nat i) r" by (simp add: push_32)
  also have "\<dots> = word_of_int (uint r * 2 ^ nat i)" by (simp add: push_bit_eq_mult)
  finally show ?thesis .
qed

lemma uint_drop32: "uint (drop_bit n (r :: u32)) = uint r div 2 ^ n"
  by (simp only: unsigned_drop_bit_eq) (simp add: drop_bit_eq_div take_bit_int_eq_self uint_bounded [of r, simplified])

lemma shr32: "0 \<le> i \<Longrightarrow> (if 32 \<le> i then 0 else drop_bit (nat i) (r :: u32)) = word_of_int (uint r div 2 ^ nat i)"
proof -
  assume "0 \<le> i"
  then have "(if 32 \<le> i then 0 else drop_bit (nat i) r) = drop_bit (nat i) r" by (simp add: push_32)
  also have "\<dots> = word_of_int (uint r div 2 ^ nat i)" by (metis uint_drop32 word_of_int_uint)
  finally show ?thesis .
qed

lemma sign_bit: "(r :: u32) AND 0x80000000 \<noteq> 0 \<longleftrightarrow> bit r 31"
proof -
  have x: "(0x80000000 :: u32) = push_bit 31 1" by simp
  have b: "bit (push_bit 31 1 :: u32) n \<longleftrightarrow> n = 31" for n
    by (simp only: bit_push_bit_iff bit_1_iff) auto
  have "r AND push_bit 31 1 = 0 \<longleftrightarrow> (\<forall>n. \<not> (bit r n \<and> bit (push_bit 31 1 :: u32) n))"
    by (simp only: bit_eq_iff bit_and_iff bit_0_eq bot_apply simp_thms) auto
  then show ?thesis unfolding x b by blast
qed

lemma sar_bits: "j < 32 \<Longrightarrow>
    (if bit r 31 then drop_bit j r OR push_bit (32 - j) (- 1) else drop_bit j r) = (signed_drop_bit j r :: u32)"
proof (rule bit_word_eqI)
  fix n
  assume j: "j < 32" and "n < LENGTH(32)"
  then have n: "n < 32" by simp
  have hi: "\<not> bit r k" if "32 \<le> k" for k using that bit_imp_le_length [of r k] by auto
  show "bit (if bit r 31 then drop_bit j r OR push_bit (32 - j) (- 1) else drop_bit j r) n = bit (signed_drop_bit j r) n"
  proof (cases "n < 32 - j")
    case True
    then show ?thesis using n by (simp add: bit_or_iff bit_drop_bit_eq bit_push_bit_iff bit_signed_drop_bit_iff bit_not_iff bit_mask_iff)
  next
    case False
    then have "32 \<le> j + n" using j by simp
    then show ?thesis using False n hi [of "j + n"]
      by (simp add: bit_or_iff bit_drop_bit_eq bit_push_bit_iff bit_signed_drop_bit_iff bit_not_iff bit_mask_iff del: One_nat_def)
  qed
qed

lemma sar32:
  assumes "0 \<le> i"
  shows "(if 32 \<le> i then if r AND 0x80000000 \<noteq> 0 then 0xFFFFFFFF else 0
    else if i = 0 then r
    else if r AND 0x80000000 \<noteq> 0 then drop_bit (nat i) r OR (push_bit (nat (32 - i)) 0xFFFFFFFF AND 0xFFFFFFFF)
    else drop_bit (nat i) r)
    = (word_of_int (sint r div 2 ^ nat i) :: u32)" (is "?e = _")
proof -
  have m: "(0xFFFFFFFF :: u32) = - 1" by simp
  have "?e = signed_drop_bit (nat i) r"
  proof (cases "32 \<le> i")
    case True
    then have "LENGTH(32) - 1 \<le> nat i" by simp
    then show ?thesis using True signed_drop_bit_beyond [of "nat i" r] unfolding sign_bit m by simp
  next
    case False
    then show ?thesis using sar_bits [of "nat i" r] assms unfolding sign_bit mask32 m
      by (auto simp: nat_diff_distrib)
  qed
  also have "\<dots> = word_of_int (sint (signed_drop_bit (nat i) r))" by simp
  also have "\<dots> = word_of_int (sint r div 2 ^ nat i)" by (simp only: sint_signed_drop_bit_eq drop_bit_eq_div)
  finally show ?thesis .
qed

lemma rot_count: "nat ((d :: int) AND 31) = nat (d mod 32)" "0 \<le> (d :: int) AND 31" "(d :: int) AND 31 < 32"
  "(32 - ((d :: int) AND 31)) AND 31 = (if d mod 32 = 0 then 0 else 32 - d mod 32)"
proof -
  have e: "x AND 31 = x mod 32" for x :: int
    using take_bit_eq_mask [of 5 x] by (simp add: take_bit_eq_mod mask_eq_exp_minus_1)
  show "nat (d AND 31) = nat (d mod 32)" "0 \<le> d AND 31" "d AND 31 < 32" by (simp_all add: e)
  show "(32 - (d AND 31)) AND 31 = (if d mod 32 = 0 then 0 else 32 - d mod 32)"
    unfolding e using mod_pos_pos_trivial [of "32 - d mod 32" 32] pos_mod_bound [of 32 d] pos_mod_sign [of 32 d] by auto
qed

lemma rotl32: "n < 32 \<Longrightarrow> push_bit n (r :: u32) OR drop_bit (if n = 0 then 0 else 32 - n) r = word_rotl n r"
proof (rule bit_word_eqI)
  fix k
  assume n: "n < 32" and "k < LENGTH(32)"
  then have k: "k < 32" by simp
  have hi: "\<not> bit r j" if "32 \<le> j" for j using that bit_imp_le_length [of r j] by auto
  have "bit (word_rotl n r) k = bit r ((k + (32 - n)) mod 32)" using k n by (simp add: bit_word_rotl_iff)
  also have "\<dots> = (if n = 0 then bit r k else if k < n then bit r (32 + k - n) else bit r (k - n))"
    using n k by (auto simp: mod_if add.commute)
  finally show "bit (push_bit n r OR drop_bit (if n = 0 then 0 else 32 - n) r) k = bit (word_rotl n r) k"
    using n k hi [of "32 + k - n"] by (auto simp: bit_or_iff bit_drop_bit_eq bit_push_bit_iff)
qed

lemma rotr32: "n < 32 \<Longrightarrow> drop_bit n (r :: u32) OR push_bit (if n = 0 then 0 else 32 - n) r = word_rotr n r"
proof (rule bit_word_eqI)
  fix k
  assume n: "n < 32" and "k < LENGTH(32)"
  then have k: "k < 32" by simp
  have hi: "\<not> bit r j" if "32 \<le> j" for j using that bit_imp_le_length [of r j] by auto
  have "bit (word_rotr n r) k = bit r ((k + n) mod 32)" using k by (simp add: bit_word_rotr_iff)
  also have "\<dots> = (if k + n < 32 then bit r (n + k) else bit r (k - (32 - n)))"
    using n k by (auto simp: mod_if add.commute)
  finally show "bit (drop_bit n r OR push_bit (if n = 0 then 0 else 32 - n) r) k = bit (word_rotr n r) k"
    using n k hi [of "n + k"] by (auto simp: bit_or_iff bit_drop_bit_eq bit_push_bit_iff)
qed

section \<open>The properties\<close>

lemma c_neg_Inr: "- INT_MAX \<le> i \<Longrightarrow> c_neg i = Inr (- i)"
  by (simp add: c_neg_def)

text \<open>C23: the displacements of bit32. Every displacement an int can negate gives the arithmetic of Lua
  5.2: a shift multiplies or divides by a power of two modulo 2^32 (0 past 32 bits), an arithmetic
  right shift divides the signed value, a negative displacement goes the other way, and the
  rotations are those of the 32-bit word by the displacement modulo 32.\<close>

theorem bit32_shifts:
  assumes "b32arg str xs 1 = Inr r" "ebind (luaL_checknumber str xs 2) c_int = Inr i" "- INT_MAX \<le> i"
  shows "b32_lshift str xs = Inr (push_u (word_of_int
      (if 0 \<le> i then uint r * 2 ^ nat i else uint r div 2 ^ nat (- i)))) \<and>
    b32_rshift str xs = Inr (push_u (word_of_int
      (if 0 \<le> i then uint r div 2 ^ nat i else uint r * 2 ^ nat (- i)))) \<and>
    b32_arshift str xs = Inr (push_u (word_of_int
      (if 0 \<le> i then sint r div 2 ^ nat i else uint r * 2 ^ nat (- i)))) \<and>
    b32_lrotate str xs = Inr (push_u (word_rotl (nat (i mod 32)) r)) \<and>
    b32_rrotate str xs = Inr (push_u (word_rotr (nat (i mod 32)) r))"
proof (intro conjI)
  note n = c_neg_Inr [OF assms(3)]
  show "b32_lshift str xs = Inr (push_u (word_of_int
      (if 0 \<le> i then uint r * 2 ^ nat i else uint r div 2 ^ nat (- i))))"
    unfolding b32_lshift_def assms(1,2) ebind_Inr mask32
    using shl32 [of i r] shr32 [of "- i" r] n by (cases "0 \<le> i") (simp_all add: mask32)
  show "b32_rshift str xs = Inr (push_u (word_of_int
      (if 0 \<le> i then uint r div 2 ^ nat i else uint r * 2 ^ nat (- i))))"
    unfolding b32_rshift_def assms(1,2) ebind_Inr mask32
    using shr32 [of i r] shl32 [of "- i" r] n by (cases "0 \<le> i") (simp_all add: mask32)
  show "b32_arshift str xs = Inr (push_u (word_of_int
      (if 0 \<le> i then sint r div 2 ^ nat i else uint r * 2 ^ nat (- i))))"
  proof (cases "0 \<le> i")
    case True
    then show ?thesis using sar32 [OF True, of r] unfolding b32_arshift_def assms(1,2) ebind_Inr Let_def
      by (simp only: not_less [symmetric] simp_thms if_False if_True)
  next
    case False
    then show ?thesis using shl32 [of "- i" r] n unfolding b32_arshift_def assms(1,2) ebind_Inr
      by (cases "32 \<le> - i") (simp_all add: mask32)
  qed
  have c: "nat (i mod 32) < 32" by simp
  show "b32_lrotate str xs = Inr (push_u (word_rotl (nat (i mod 32)) r))"
    using rotl32 [OF c, of r] rot_count [of i] pos_mod_sign [of 32 i] unfolding b32_lrotate_def assms(1,2) ebind_Inr mask32
    by (auto simp: Let_def nat_diff_distrib split: if_splits)
  show "b32_rrotate str xs = Inr (push_u (word_rotr (nat (i mod 32)) r))"
    using rotr32 [OF c, of r] rot_count [of i] pos_mod_sign [of 32 i] unfolding b32_rrotate_def assms(1,2) ebind_Inr mask32
    by (auto simp: Let_def nat_diff_distrib split: if_splits)
qed


theorem bit32_shifts_witness:
  "b32_arshift (\<lambda>_. None) [TvNum (d_of_int (- 8)), TvNum (d_of_int 2)] = Inr (push_u 0xFFFFFFFE) \<and>
   b32_lrotate (\<lambda>_. None) [TvNum (d_of_int (- 8)), TvNum (d_of_int 2)] = Inr (push_u 0xFFFFFFE3)"
proof -
  let ?s = "\<lambda>_. None" and ?a = "[TvNum (d_of_int (- 8)), TvNum (d_of_int 2)]"
  have a: "b32arg ?s ?a 1 = Inr 0xFFFFFFF8" using b32arg_int [of ?a 1 "- 8" ?s] by (simp add: arg_n_def)
  have i: "ebind (luaL_checknumber ?s ?a 2) c_int = Inr 2" by (rule int_arg) (simp_all add: arg_n_def)
  have "word_of_int (sint (0xFFFFFFF8 :: u32) div 2 ^ nat 2) = (0xFFFFFFFE :: u32)"
    "word_rotl (nat (2 mod 32)) (0xFFFFFFF8 :: u32) = 0xFFFFFFE3" by code_simp+
  then show ?thesis using bit32_shifts [OF a i] by (simp only: if_True zero_le_numeral)
qed

text \<open>A number argument of bit32 (and of \<open>lua_tounsigned\<close>) is its floor modulo 2^32 wherever the
  floating-point steps are exact: for every integer, and every fraction in 2^-20ths; a NaN, an
  infinity and what is past 9e18 are 0. What is pushed reads back.\<close>

theorem b32arg_floor:
  assumes "arg_n xs i = Some (TvNum d)"
    "\<And>q. fp_rat (dval d) = Some q \<Longrightarrow> - 9000000000000000000 < q \<Longrightarrow> q < 9000000000000000000 \<Longrightarrow>
      q * 2 ^ 20 \<in> \<int>"
  shows "b32arg str xs i = Inr
      (case fp_rat (dval d) of
         Some q \<Rightarrow> if - 9000000000000000000 < q \<and> q < 9000000000000000000 then word_of_int \<lfloor>q\<rfloor> else 0
       | None \<Rightarrow> 0) \<and>
    lua_tounsigned str [lua_pushunsigned u] 1 = u"
proof -
  have "unsigned_of d =
      (case fp_rat (dval d) of
         Some q \<Rightarrow> if - 9000000000000000000 < q \<and> q < 9000000000000000000 then word_of_int \<lfloor>q\<rfloor> else 0
       | None \<Rightarrow> 0)"
  proof (cases "\<exists>q. fp_rat (dval d) = Some q \<and> - 9000000000000000000 < q \<and> q < 9000000000000000000")
    case True
    then obtain q where q: "fp_rat (dval d) = Some q" "- 9000000000000000000 < q" "q < 9000000000000000000" by blast
    then obtain i where "q * 2 ^ 20 = of_int i" using assms(2) by (auto elim: Ints_cases)
    then show ?thesis using unsigned_of_floor [OF q] q by simp
  next
    case False
    then show ?thesis using unsigned_of_other [OF False] by (auto split: option.split)
  qed
  moreover have "unsigned_of (d_of_int (uint u)) = u"
  proof -
    have "uint u < 2 ^ 32" using uint_bounded [of u] by simp
    then show ?thesis using unsigned_of_int [of "uint u"] fits53_small [of "uint u"] by simp
  qed
  ultimately show ?thesis using assms(1)
    by (simp add: b32arg_def luaL_checknumber_def lua_tounsigned_def lua_pushunsigned_def arg_n_def)
qed

theorem b32arg_floor_witness:
  "b32arg (\<lambda>_. None) [TvNum (d_div (d_of_int (- 7)) (d_of_int 2))] 1 = Inr 0xFFFFFFFC"
proof -
  let ?d = "d_div (d_of_int (- 7)) (d_of_int 2)"
  have q: "fp_rat (dval ?d) = Some (- 7 / 2)" by code_simp
  have "(- 7 / 2 :: rat) * 2 ^ 20 = of_int (- 3670016)" by simp
  then have "(- 7 / 2 :: rat) * 2 ^ 20 \<in> \<int>" by (metis Ints_of_int)
  moreover have "\<lfloor>- 7 / 2 :: rat\<rfloor> = - 4" by (simp add: floor_eq_iff)
  ultimately show ?thesis
    using b32arg_floor [of "[TvNum ?d]" 1 ?d "\<lambda>_. None"] q by (simp add: arg_n_def)
qed

section \<open>Fields\<close>

lemma field_mask: "1 \<le> w \<Longrightarrow> w \<le> 32 \<Longrightarrow> drop_bit (nat (32 - w)) (0xFFFFFFFF :: u32) = mask (nat w)"
proof -
  assume w: "1 \<le> w" "w \<le> 32"
  have m: "(0xFFFFFFFF :: u32) = - 1" by simp
  show ?thesis unfolding m using w by (intro bit_word_eqI) (auto simp: bit_drop_bit_eq bit_mask_iff nat_diff_distrib)
qed

lemma b32field_Inr: "b32field str xs i = Inr (f, w) \<Longrightarrow> 0 \<le> f \<and> 1 \<le> w \<and> f + w \<le> 32"
  by (auto simp: b32field_def)

lemma drop_mask: "drop_bit n (v :: u32) AND mask m = word_of_int (uint v div 2 ^ n mod 2 ^ m)"
proof -
  have "uint (take_bit m (drop_bit n v)) = uint v div 2 ^ n mod 2 ^ m"
    by (simp only: unsigned_take_bit_eq uint_drop32) (simp only: take_bit_eq_mod)
  then show ?thesis by (metis take_bit_eq_mask word_of_int_uint)
qed

text \<open>C24: bit32.extract, whole: the error for each bad field, in the order they are checked, and for a
  good one the field itself. A position and a width whose sum no int holds pass neither check
  nor error in C: their sum is undefined there.\<close>

theorem bit32_extract:
  assumes "b32arg str xs 1 = Inr v" "ebind (luaL_checknumber str xs 2) c_int = Inr f"
    and "ebind (luaL_optnumber str xs 3 (d_of_int 1)) c_int = Inr w"
  shows "b32_extract str xs =
    (if f < 0 then Inl (B32Arg 2 ''field cannot be negative'')
     else if w \<le> 0 then Inl (B32Arg 3 ''width must be positive'')
     else if INT_MAX < f + w then Inl (B32Undefined ''sum'')
     else if 32 < f + w then Inl (B32Error ''trying to access non-existent bits'')
     else Inr (push_u (word_of_int (uint v div 2 ^ nat f mod 2 ^ nat w))))"
proof -
  have w3: "ebind (luaL_optnumber str xs (2 + 1) (d_of_int 1)) c_int = Inr w" using assms(3) by simp
  show ?thesis
    unfolding b32_extract_def b32field_def assms(1,2) w3 ebind_Inr
    by (auto simp: require_def field_mask drop_mask)
qed

theorem bit32_extract_witness:
  "b32_extract (\<lambda>_. None) [TvNum (d_of_int 0xABCD), TvNum (d_of_int 4), TvNum (d_of_int 8)] = Inr (push_u 0xBC) \<and>
   b32_extract (\<lambda>_. None) [TvNum (d_of_int 1), TvNum (d_of_int 2147483647)] = Inl (B32Undefined ''sum'')"
proof -
  let ?s = "\<lambda>_. None" and ?a = "[TvNum (d_of_int 0xABCD), TvNum (d_of_int 4), TvNum (d_of_int 8)]"
    and ?b = "[TvNum (d_of_int 1), TvNum (d_of_int 2147483647)]"
  have a1: "b32arg ?s ?a 1 = Inr 0xABCD" using b32arg_int [of ?a 1 "0xABCD" ?s] by (simp add: arg_n_def)
  have b1: "b32arg ?s ?b 1 = Inr 1" using b32arg_int [of ?b 1 1 ?s] by (simp add: arg_n_def)
  have a: "ebind (luaL_checknumber ?s ?a 2) c_int = Inr 4" "ebind (luaL_optnumber ?s ?a 3 (d_of_int 1)) c_int = Inr 8"
    by (rule int_arg; simp add: arg_n_def)+
  have b: "ebind (luaL_checknumber ?s ?b 2) c_int = Inr 2147483647" "ebind (luaL_optnumber ?s ?b 3 (d_of_int 1)) c_int = Inr 1"
    by (rule int_arg; simp add: arg_n_def)+
  have "uint (0xABCD :: u32) div 2 ^ nat 4 mod 2 ^ nat 8 = 0xBC" by code_simp
  then show ?thesis using bit32_extract [OF a1 a] bit32_extract [OF b1 b] by simp
qed

lemma check_arg: "arg_n xs i = arg_n ys j \<Longrightarrow> luaL_checknumber str xs i = Inr d \<Longrightarrow> luaL_checknumber str ys j = Inr d"
  by (auto simp: luaL_checknumber_def split: option.splits tvalue.splits)

lemma opt_arg: "arg_n xs i = arg_n ys j \<Longrightarrow> luaL_optnumber str xs i e = Inr d \<Longrightarrow> luaL_optnumber str ys j e = Inr d"
  using check_arg [of xs i ys j] by (auto simp: luaL_optnumber_def split: option.splits if_splits)

lemma b32arg_arg: "arg_n xs i = arg_n ys j \<Longrightarrow> b32arg str xs i = Inr d \<Longrightarrow> b32arg str ys j = Inr d"
  using check_arg [of xs i ys j] by (fastforce simp: b32arg_def)

lemma b32field_arg:
  assumes "arg_n xs i = arg_n ys j" "arg_n xs (i + 1) = arg_n ys (j + 1)" "b32field str xs i = Inr fw"
  shows "b32field str ys j = Inr fw"
proof -
  from assms(3) obtain df dw f w where d: "luaL_checknumber str xs i = Inr df" "c_int df = Inr f"
      "luaL_optnumber str xs (i + 1) (d_of_int 1) = Inr dw" "c_int dw = Inr w" and
    c: "0 \<le> f" "0 < w" "f + w \<le> INT_MAX" "f + w \<le> 32" "fw = (f, w)"
    by (auto simp: b32field_def)
  then show ?thesis using check_arg [OF assms(1) d(1)] opt_arg [OF assms(2) d(3)]
    by (simp add: b32field_def require_def)
qed

lemma push_u_arg: "b32arg str (TvNum (push_u u) # xs) 1 = Inr u"
proof -
  have "uint u < 2 ^ 32" using uint_bounded [of u] by simp
  then show ?thesis using unsigned_of_int [of "uint u"] fits53_small [of "uint u"]
    by (simp add: b32arg_def luaL_checknumber_def arg_n_def push_u_def)
qed

lemma replace_bits:
  fixes v r :: u32
  assumes "f + w \<le> 32"
  defines "m \<equiv> push_bit f (mask w)"
  defines "x \<equiv> (v AND NOT m) OR push_bit f (r AND mask w)"
  shows "drop_bit f x AND mask w = take_bit w r" "x AND NOT m = v AND NOT m"
  using assms(1)
  by (auto simp: x_def m_def bit_and_iff bit_or_iff bit_not_iff bit_push_bit_iff bit_drop_bit_eq bit_mask_iff bit_take_bit_iff
      intro!: bit_word_eqI)

text \<open>Bit32.replace puts back what extract takes: after a replace that succeeds, extracting the same
  field gives the low bits of the value put there, and no bit outside the field has changed.\<close>

theorem replace_extract:
  assumes "b32_replace str [V, R, F, W] = Inr x" "b32arg str [V] 1 = Inr v" "b32arg str [R] 1 = Inr r"
  shows "\<exists>f w u. b32field str [V, F, W] 2 = Inr (f, w) \<and> x = push_u u \<and>
    b32_extract str [TvNum x, F, W] = Inr (push_u (take_bit (nat w) r)) \<and>
    u AND NOT (push_bit (nat f) (mask (nat w))) = v AND NOT (push_bit (nat f) (mask (nat w)))"
proof -
  have a: "b32arg str [V, R, F, W] 1 = Inr v" "b32arg str [V, R, F, W] 2 = Inr r"
    using b32arg_arg [OF _ assms(2), of "[V, R, F, W]" 1] b32arg_arg [OF _ assms(3), of "[V, R, F, W]" 2]
    by (simp_all add: arg_n_def)
  obtain f w where fw: "b32field str [V, R, F, W] 3 = Inr (f, w)"
    using assms(1) a by (auto simp: b32_replace_def)
  note b = b32field_Inr [OF fw]
  let ?m = "push_bit (nat f) (mask (nat w)) :: u32"
  define u where "u = (v AND NOT ?m) OR push_bit (nat f) (r AND mask (nat w))"
  have x: "x = push_u u"
    using assms(1) a fw field_mask [of w] b by (simp add: b32_replace_def mask32 u_def Let_def)
  have e: "b32field str [TvNum x, F, W] 2 = Inr (f, w)" "b32field str [V, F, W] 2 = Inr (f, w)"
    by (rule b32field_arg [OF _ _ fw]; simp add: arg_n_def nat_add_distrib)+
  have "b32_extract str [TvNum x, F, W] = Inr (push_u (drop_bit (nat f) u AND mask (nat w)))"
    using e(1) push_u_arg [of str u "[F, W]"] x field_mask [of w] b by (simp add: b32_extract_def)
  then show ?thesis using replace_bits [of "nat f" "nat w" v r] b e(2) x unfolding u_def by auto
qed

theorem replace_extract_witness:
  "\<exists>x. b32_replace (\<lambda>_. None) [TvNum (d_of_int 0xABCD), TvNum (d_of_int 0x123), TvNum (d_of_int 4), TvNum (d_of_int 8)] = Inr x \<and>
    b32_extract (\<lambda>_. None) [TvNum x, TvNum (d_of_int 4), TvNum (d_of_int 8)] = Inr (push_u 0x23)"
proof -
  let ?s = "\<lambda>_. None" and ?F = "TvNum (d_of_int 4)" and ?W = "TvNum (d_of_int 8)"
  let ?xs = "[TvNum (d_of_int 0xABCD), TvNum (d_of_int 0x123), ?F, ?W]" and ?ys = "[TvNum (d_of_int 0xABCD), ?F, ?W]"
  have xs: "b32arg ?s ?xs 1 = Inr 0xABCD" "b32arg ?s ?xs 2 = Inr 0x123"
    using b32arg_int [of ?xs 1 "0xABCD" ?s] b32arg_int [of ?xs 2 "0x123" ?s] by (simp_all add: arg_n_def)
  have a: "b32arg ?s [TvNum (d_of_int 0xABCD)] 1 = Inr 0xABCD" "b32arg ?s [TvNum (d_of_int 0x123)] 1 = Inr 0x123"
    using b32arg_int [of "[TvNum (d_of_int 0xABCD)]" 1 "0xABCD" ?s] b32arg_int [of "[TvNum (d_of_int 0x123)]" 1 "0x123" ?s]
    by (simp_all add: arg_n_def)
  have i: "ebind (luaL_checknumber ?s ?xs 3) c_int = Inr 4" "ebind (luaL_optnumber ?s ?xs 4 (d_of_int 1)) c_int = Inr 8"
    "ebind (luaL_checknumber ?s ?ys 2) c_int = Inr 4" "ebind (luaL_optnumber ?s ?ys 3 (d_of_int 1)) c_int = Inr 8"
    by (rule int_arg; simp add: arg_n_def)+
  have f: "b32field ?s ?ys 2 = Inr (4, 8)" "b32field ?s ?xs 3 = Inr (4, 8)"
    unfolding b32field_def using i by (simp_all add: require_def del: ebind_eq_Inr)
  have "(((0xABCD :: u32) AND NOT (push_bit (nat 4) (drop_bit (nat 24) 0xFFFFFFFF))) OR
      push_bit (nat 4) (0x123 AND drop_bit (nat 24) 0xFFFFFFFF)) AND 0xFFFFFFFF = 0xA23D" by code_simp
  then have x: "b32_replace ?s ?xs = Inr (push_u 0xA23D)"
    unfolding b32_replace_def xs f ebind_Inr by (simp add: Let_def)
  have t: "take_bit (nat 8) (0x123 :: u32) = 0x23" by code_simp
  show ?thesis using replace_extract [OF x a] x f(1) t by auto
qed

end
