(* ===== verification/Machine.thy ===== *)
theory Machine
  imports Main
begin

text \<open>
  The shared interface of the components that run as a sequence of steps: an initial condition, a step
  relation, and an invariant every step keeps. What holds of all reachable states is proved here
  once.
\<close>

inductive reachable :: "('s \<Rightarrow> bool) \<Rightarrow> ('s \<Rightarrow> 's \<Rightarrow> bool) \<Rightarrow> 's \<Rightarrow> bool" for init step where
  Init: "init s \<Longrightarrow> reachable init step s"
| Step: "reachable init step s \<Longrightarrow> step s t \<Longrightarrow> reachable init step t"

locale machine =
  fixes init :: "'s \<Rightarrow> bool" and step :: "'s \<Rightarrow> 's \<Rightarrow> bool" and inv :: "'s \<Rightarrow> bool"
  assumes init_inv: "init s \<Longrightarrow> inv s"
    and step_inv: "inv s \<Longrightarrow> step s t \<Longrightarrow> inv t"
begin

lemma reachable_inv: "reachable init step s \<Longrightarrow> inv s"
  by (induction rule: reachable.induct) (auto intro: init_inv step_inv)

lemma steps_inv: "step\<^sup>*\<^sup>* s t \<Longrightarrow> inv s \<Longrightarrow> inv t"
  by (induction rule: rtranclp_induct) (auto intro: step_inv)

end

text \<open>Two invariants of one machine hold together.\<close>

lemma machine_conj:
  assumes "machine init step inv1" "machine init step inv2"
  shows "machine init step (\<lambda>s. inv1 s \<and> inv2 s)"
  using assms unfolding machine_def by blast

end
