(* ===== verification/ShimMem.thy ===== *)
theory ShimMem
  imports Prelude Machine
begin

text \<open>
  native/lj52shim.c: the accounting allocator (\<open>lj52_alloc\<close>), the credit, the window and the
  reserve past a machine's cap, and the emergency collector's arming and disarming
  (\<open>lj52_gc_pressure\<close> and its kin). A machine's record \<open>lj52_mem\<close> is the record \<open>mem\<close>
  (the fields of this section), the part of LuaJIT's \<open>global_State\<close> the code reads and writes is
  \<open>gstate\<close>, and jnlua's two Java figures are \<open>jmem\<close>. C's \<open>long long\<close> is \<open>int\<close> and its
  arithmetic right shift is \<open>div\<close>. What the backing store answers (\<open>lj52_back\<close>, LuaJIT's
  arena or the C library) is an argument of the allocator's definition.
\<close>

section \<open>Constants\<close>

definition LJ52_GC_WMIN :: int where "LJ52_GC_WMIN = 128 * 1024"
definition LJ52_GC_ARMCAP :: int where "LJ52_GC_ARMCAP = 65536"
definition LJ52_GC_ODMIN :: int where "LJ52_GC_ODMIN = 32 * 1024"
definition LJ52_GC_ODMAX :: int where "LJ52_GC_ODMAX = 512 * 1024"
definition LJ52_GC_KSLICE :: int where "LJ52_GC_KSLICE = 16 * 1024"
definition LJ52_GC_LEND :: int where "LJ52_GC_LEND = 4 * 1024"
definition LJ52_GC_RSV :: int where "LJ52_GC_RSV = 8 * 1024"

lemmas gc_consts =
  LJ52_GC_WMIN_def LJ52_GC_ARMCAP_def LJ52_GC_ODMIN_def LJ52_GC_ODMAX_def LJ52_GC_KSLICE_def
  LJ52_GC_LEND_def LJ52_GC_RSV_def

text \<open>\<open>LJ52_GP_*\<close>, \<open>LJ52_OD_*\<close>, \<open>LJ52_ARM_*\<close>, and \<open>gc_win\<close>'s 0, 1, 2.\<close>

datatype gp_kind = GpFree | GpGrow | GpTry
datatype od_tier = OdBurst | OdReserve
datatype arm_why = ArmGate | ArmWall | ArmFlush
datatype gc_window = WinShut | WinOpen | WinVerdict

section \<open>State\<close>

record gstate =
  hook_gc :: bool
  hook_vmevent :: bool
  gcs_pause :: bool
  currentwhite :: int
  stepmul :: int
  threshold :: int
  gc_total :: int
  cur_L :: nat
  lj_max_mem :: int

record jmem =
  j_total :: int
  j_used :: int

record mem =
  m_accounting :: bool
  m_norefuse :: int
  m_pending :: int
  m_bound :: bool
  m_gg_seen :: int
  m_used :: int
  m_total :: int
  m_csync :: bool
  m_reads :: int
  m_calls :: int
  m_jni :: int
  m_L :: bool
  m_depth :: nat
  m_by0 :: nat
  gc_armed :: bool
  gc_busy :: bool
  gc_savedmul :: int
  gc_white :: int
  gc_armedcalls :: int
  gc_arms :: int
  gc_collects :: int
  gc_bailouts :: int
  gc_refusals :: int
  gc_moved :: bool
  gc_parkresets :: int
  gc_odstate :: od_tier
  gc_armby :: arm_why
  gc_hyst :: bool
  gc_low :: int
  gc_seentotal :: int
  gc_overdrafts :: int
  gc_odpeak :: int
  gc_win :: gc_window
  gc_grown :: int
  gc_rsv :: int
  gc_lends :: int
  gc_refdelta :: int
  gc_flush_wanted :: bool
  gc_traceflushes :: int
  gc_flushrefusals :: int
  gc_flushbytes :: int

text \<open>\<open>m_bound\<close>: jnlua has bound the Java state and its thread has a JNIEnv (\<open>javaref\<close> and
  \<open>envfn\<close>); \<open>m_L\<close>: \<open>M->L\<close> is set; \<open>m_depth\<close>, \<open>m_by0\<close>: the watchdog's \<open>wd_depth\<close> and
  \<open>wd_by[0]\<close>, which tell the kernel's thread. \<open>lj_max_mem\<close> is LuaJIT's LJ\_MAX\_MEM, where a
  finalizer or a stopped collector parks the threshold.\<close>

section \<open>The collector's arming\<close>

definition lj52_gc_arm :: "mem \<Rightarrow> gstate \<Rightarrow> arm_why \<Rightarrow> mem \<times> gstate" where
  "lj52_gc_arm M g why =
     (M\<lparr>gc_armby := why, gc_savedmul := stepmul g, gc_white := currentwhite g,
        gc_moved := \<not> gcs_pause g, gc_armed := True, gc_armedcalls := 0, gc_arms := gc_arms M + 1\<rparr>,
      g\<lparr>stepmul := 0, threshold := gc_total g\<rparr>)"

definition lj52_gc_odmax :: "int \<Rightarrow> int" where
  "lj52_gc_odmax total0 =
     (let t = total0 div 16 in
      if t < LJ52_GC_ODMIN then LJ52_GC_ODMIN else if t > LJ52_GC_ODMAX then LJ52_GC_ODMAX else t)"

definition lj52_gc_reserve :: "mem \<Rightarrow> int \<Rightarrow> int \<Rightarrow> bool \<times> mem" where
  "lj52_gc_reserve M total0 used =
     (if gc_odstate M = OdReserve then (True, M)
      else if \<not> gc_hyst M \<and> gc_win M = WinShut \<and> used > total0 + lj52_gc_odmax total0 div 2
      then (True, M\<lparr>gc_odstate := OdReserve, gc_rsv := lj52_gc_odmax total0\<rparr>)
      else (False, M))"

definition lj52_gc_rsvcredit :: "mem \<Rightarrow> int \<Rightarrow> int" where
  "lj52_gc_rsvcredit M g =
     (if gc_rsv M < g div 2 then g div 2 else if gc_rsv M > g then g else gc_rsv M)"

definition lj52_gc_kernel :: "mem \<Rightarrow> gstate \<Rightarrow> bool" where
  "lj52_gc_kernel M g = (m_depth M = 0 \<or> cur_L g = m_by0 M)"

text \<open>The two states in which the VM owns the threshold, and a third that counts as a finalizer.\<close>

definition gc_owned :: "gstate \<Rightarrow> bool" where
  "gc_owned g = (hook_gc g \<or> threshold g = lj_max_mem g)"

definition lj52_gc_credit :: "mem \<Rightarrow> gstate \<Rightarrow> int \<Rightarrow> int \<Rightarrow> int \<times> mem" where
  "lj52_gc_credit M g total0 used =
     (if \<not> m_L M \<or> total0 \<le> 0 then (0, M)
      else if gc_owned g then (0, M)
      else if hook_vmevent g then (0, M)
      else
        let c = lj52_gc_odmax total0;
            (r, M) = lj52_gc_reserve M total0 used;
            c = (if r then lj52_gc_rsvcredit M c else c div 2);
            c = (if lj52_gc_kernel M g then c + LJ52_GC_KSLICE else c)
        in (c, M))"

text \<open>The top a window and the cadence read: the tier's credit past the cap.\<close>

definition tier_top :: "mem \<Rightarrow> int \<Rightarrow> int" where
  "tier_top M total0 =
     total0 + (if gc_odstate M = OdReserve then lj52_gc_rsvcredit M (lj52_gc_odmax total0)
               else lj52_gc_odmax total0 div 2)"

definition watermark :: "int \<Rightarrow> int" where
  "watermark total0 = (let w = total0 div 4 in if w < LJ52_GC_WMIN then LJ52_GC_WMIN else w)"

text \<open>The armed branch of \<open>lj52_gc_pressure\<close>: the proof of a completed cycle, the park reset, the
  valve.\<close>

definition restore_stepmul :: "mem \<Rightarrow> gstate \<Rightarrow> gstate" where
  "restore_stepmul M g = (if stepmul g = 0 then g\<lparr>stepmul := gc_savedmul M\<rparr> else g)"

definition gc_proof :: "mem \<Rightarrow> int \<Rightarrow> int \<Rightarrow> mem" where
  "gc_proof M total0 used =
     (let M = M\<lparr>gc_armed := False, gc_collects := gc_collects M + 1, gc_hyst := True, gc_low := used\<rparr>;
          M = (if used \<le> total0 then M\<lparr>gc_odstate := OdBurst\<rparr> else M);
          M = (if gc_win M \<noteq> WinShut then
                 let top = tier_top M total0 in
                 M\<lparr>gc_win := (if used \<le> top then WinShut
                              else if used - gc_grown M > top then WinVerdict else WinOpen)\<rparr>
               else M);
          M = M\<lparr>gc_grown := 0\<rparr>
      in if gc_armby M \<noteq> ArmFlush \<and> total0 - used < watermark total0 div 2
         then M\<lparr>gc_flush_wanted := True\<rparr> else M)"

definition gc_park_reset :: "mem \<Rightarrow> gstate \<Rightarrow> mem \<times> gstate" where
  "gc_park_reset M g =
     (if gc_moved M \<and> gcs_pause g \<and> threshold g > gc_total g
      then (M\<lparr>gc_moved := False, gc_parkresets := gc_parkresets M + 1\<rparr>, g\<lparr>threshold := gc_total g\<rparr>)
      else (M, g))"

definition gc_valve :: "mem \<Rightarrow> gstate \<Rightarrow> gp_kind \<Rightarrow> mem \<times> gstate" where
  "gc_valve M g kind =
     (if kind = GpFree then (M, g)
      else
        let M = M\<lparr>gc_armedcalls := gc_armedcalls M + 1\<rparr> in
        if gc_armedcalls M > LJ52_GC_ARMCAP
        then (M\<lparr>gc_armed := False, gc_bailouts := gc_bailouts M + 1\<rparr>, restore_stepmul M g)
        else (M, g))"

definition pressure_armed :: "mem \<Rightarrow> gstate \<Rightarrow> int \<Rightarrow> int \<Rightarrow> gp_kind \<Rightarrow> mem \<times> gstate" where
  "pressure_armed M g total0 used kind =
     (let M = (if \<not> gcs_pause g then M\<lparr>gc_moved := True\<rparr> else M) in
      if currentwhite g \<noteq> gc_white M \<and> gcs_pause g
      then (gc_proof M total0 used, restore_stepmul M g)
      else let (M, g) = gc_park_reset M g in gc_valve M g kind)"

text \<open>The cadence: whether an unarmed collector is armed now.\<close>

definition cadence :: "mem \<Rightarrow> gstate \<Rightarrow> int \<Rightarrow> int \<Rightarrow> bool" where
  "cadence M g total0 used =
     (let w = watermark total0 in
      if \<not> gc_hyst M then total0 - used < w
      else if gc_low M < total0 then
        let gate = (total0 - gc_low M) div 2; gate = (if gate > w then w else gate)
        in used > total0 \<or> total0 - used < gate
      else
        let top = tier_top M total0;
            top = (if lj52_gc_kernel M g then top + LJ52_GC_KSLICE else top)
        in top - used < (top - gc_low M) div 2)"

definition lj52_gc_pressure :: "mem \<Rightarrow> gstate \<Rightarrow> int \<Rightarrow> int \<Rightarrow> gp_kind \<Rightarrow> mem \<times> gstate" where
  "lj52_gc_pressure M g total0 used kind =
     (if gc_busy M \<or> m_norefuse M > 0 \<or> \<not> m_L M \<or> total0 \<le> 0 then (M, g)
      else if gc_owned g then (M, g)
      else
        let M = M\<lparr>gc_seentotal := total0\<rparr>;
            M = (if kind = GpGrow \<and> used > total0 then
                   M\<lparr>gc_overdrafts := gc_overdrafts M + 1,
                     gc_odpeak := (if used - total0 > gc_odpeak M then used - total0 else gc_odpeak M)\<rparr>
                 else M)
        in if gc_armed M then pressure_armed M g total0 used kind
           else
             let M = (if gc_hyst M \<and> used < gc_low M then M\<lparr>gc_low := used\<rparr> else M)
             in if cadence M g total0 used
                then lj52_gc_arm M g (if used > total0 then ArmWall else ArmGate)
                else (M, g))"

section \<open>At the wall\<close>

definition lj52_gc_look :: "mem \<Rightarrow> gstate \<Rightarrow> int \<Rightarrow> int \<Rightarrow> mem \<times> gstate" where
  "lj52_gc_look M g total0 used =
     (if gc_armed M then lj52_gc_pressure M g total0 used GpFree else (M, g))"

definition lj52_gc_lend :: "mem \<Rightarrow> gstate \<Rightarrow> int \<Rightarrow> int \<Rightarrow> int \<Rightarrow> bool \<times> mem \<times> gstate" where
  "lj52_gc_lend M g total0 used delta =
     (if \<not> m_L M \<or> total0 \<le> 0 then (False, M, g)
      else if gc_owned g \<or> lj52_gc_kernel M g then (False, M, g)
      else if hook_vmevent g then (False, M, g)
      else
        let (c, M) = lj52_gc_credit M g total0 used; top = total0 + c in
        if used + delta > top + LJ52_GC_LEND then (False, M, g)
        else if gc_win M = WinVerdict \<and> gc_low M > top then (False, M, g)
        else
          let M = M\<lparr>gc_win := WinOpen, gc_lends := gc_lends M + 1\<rparr>;
              (M, g) = (if \<not> gc_armed M then lj52_gc_arm M g ArmWall else (M, g))
          in (True, M, g))"

definition lj52_gc_refused :: "mem \<Rightarrow> gstate \<Rightarrow> int \<Rightarrow> int \<Rightarrow> mem \<times> gstate" where
  "lj52_gc_refused M g total0 used =
     (let M = M\<lparr>gc_refusals := gc_refusals M + 1\<rparr>;
          (M, g) = lj52_gc_pressure M g total0 used GpTry
      in if gc_busy M \<or> m_norefuse M > 0 \<or> \<not> m_L M \<or> total0 \<le> 0 then (M, g)
         else if gc_owned g then (M, g)
         else if hook_vmevent g then (M, g)
         else
           let M = (if gc_odstate M \<noteq> OdReserve then
                      let odmax = lj52_gc_odmax total0; over = used - total0;
                          over = (if over < odmax div 2 then odmax div 2 else over)
                      in M\<lparr>gc_rsv := over + LJ52_GC_RSV\<rparr>
                    else M);
               M = M\<lparr>gc_odstate := OdReserve, gc_win := WinShut\<rparr>
           in if gc_armed M then (M\<lparr>gc_armby := ArmWall\<rparr>, g) else lj52_gc_arm M g ArmWall)"

section \<open>The trace flush at the safe point\<close>

text \<open>What one resident trace holds: its IR instructions, snapshots and snapshot-map entries; the
  sizes of LuaJIT's structures are a parameter. \<open>mode_ok\<close> is \<open>luaJIT_setmode\<close>'s answer.\<close>

record trace_info =
  t_nins :: int
  t_nsnap :: int
  t_nsnapmap :: int

record lj_sizes =
  sz_trace :: int
  sz_ins :: int
  sz_snap :: int
  sz_snapentry :: int

definition trace_bytes :: "lj_sizes \<Rightarrow> trace_info option \<Rightarrow> int" where
  "trace_bytes z t =
     (case t of None \<Rightarrow> 0
      | Some T \<Rightarrow> ((sz_trace z + 7) AND NOT 7) + t_nins T * sz_ins z + t_nsnap T * sz_snap z
                 + t_nsnapmap T * sz_snapentry z)"

definition lj52_gc_flushtraces ::
  "lj_sizes \<Rightarrow> trace_info option list \<Rightarrow> bool \<Rightarrow> mem \<Rightarrow> gstate \<Rightarrow> mem \<times> gstate" where
  "lj52_gc_flushtraces z traces mode_ok M g =
     (let M = M\<lparr>gc_flush_wanted := False\<rparr>;
          bytes = sum_list (map (trace_bytes z) (drop 1 traces))
      in if bytes = 0 then (M, g)
         else if hook_gc g \<or> \<not> mode_ok then (M\<lparr>gc_flushrefusals := gc_flushrefusals M + 1\<rparr>, g)
         else
           let M = M\<lparr>gc_traceflushes := gc_traceflushes M + 1, gc_flushbytes := gc_flushbytes M + bytes\<rparr>
           in if \<not> gc_armed M \<and> threshold g \<noteq> lj_max_mem g then lj52_gc_arm M g ArmFlush else (M, g))"

section \<open>The allocator\<close>

definition lj52_clampi :: "int \<Rightarrow> int" where
  "lj52_clampi v = (if v > 2147483647 then 2147483647 else if v < - 2147483648 then - 2147483648 else v)"

text \<open>A pointer is an address or None (NULL). \<open>bp\<close> is what the backing store answers to an
  allocation or a resize; a free always succeeds.\<close>

type_synonym ptr = "nat option"

definition alloc_delta :: "ptr \<Rightarrow> int \<Rightarrow> int \<Rightarrow> int" where
  "alloc_delta p osize nsize =
     (if nsize = 0 then - osize else if p = None then nsize else nsize - osize)"

text \<open>The growth the wall judges, in both modes: the window's look, then, unless it fits or must not
  be refused, the credit and the lend. The answer says whether it is granted.\<close>

definition wall :: "mem \<Rightarrow> gstate \<Rightarrow> int \<Rightarrow> int \<Rightarrow> int \<Rightarrow> bool \<times> mem \<times> gstate" where
  "wall M g total0 used delta =
     (if m_norefuse M \<noteq> 0 \<or> total0 - used \<ge> delta then (True, M, g)
      else
        let (c, M) = lj52_gc_credit M g total0 used in
        if total0 + c - used \<ge> delta then (True, M, g)
        else lj52_gc_lend M g total0 used delta)"

text \<open>C mode: the figures are the record's.\<close>

definition alloc_csync :: "mem \<Rightarrow> gstate \<Rightarrow> ptr \<Rightarrow> int \<Rightarrow> int \<Rightarrow> ptr \<Rightarrow> ptr \<times> mem \<times> gstate" where
  "alloc_csync M g p osize nsize bp =
     (let delta = alloc_delta p osize nsize; acct = (m_accounting M \<and> m_total M > 0) in
      if nsize = 0 then
        let (M, g) = (if acct then lj52_gc_pressure M g (m_total M) (m_used M + delta) GpFree else (M, g))
        in (None, M\<lparr>m_used := m_used M + delta\<rparr>, g)
      else
        let (M, g) = (if acct \<and> delta > 0 \<and> m_total M - m_used M < delta
                      then lj52_gc_look M g (m_total M) (m_used M) else (M, g));
            (ok, M, g) = (if acct \<and> delta > 0 then wall M g (m_total M) (m_used M) delta else (True, M, g))
        in if \<not> ok then
             let (M, g) = lj52_gc_refused (M\<lparr>gc_refdelta := delta\<rparr>) g (m_total M) (m_used M)
             in (None, M, g)
           else if bp = None then (None, M, g)
           else
             let M = M\<lparr>m_used := m_used M + delta\<rparr>;
                 M = (if delta > 0 then M\<lparr>gc_grown := gc_grown M + delta\<rparr> else M);
                 (M, g) = (if acct then lj52_gc_pressure M g (m_total M) (m_used M)
                                          (if delta > 0 then GpGrow else GpFree)
                           else (M, g))
             in (bp, M, g))"

text \<open>Legacy mode: the figures are Java's, read and written on every chargeable call; bytes that move
  before the binding exists are banked.\<close>

definition alloc_legacy ::
  "mem \<Rightarrow> gstate \<Rightarrow> jmem \<Rightarrow> ptr \<Rightarrow> int \<Rightarrow> int \<Rightarrow> ptr \<Rightarrow> ptr \<times> mem \<times> gstate \<times> jmem" where
  "alloc_legacy M g J p osize nsize bp =
     (let delta = alloc_delta p osize nsize in
      if \<not> (m_accounting M \<and> m_bound M) then
        let r = (if nsize = 0 then None else bp) in
        if r \<noteq> None \<or> nsize = 0
        then (r, M\<lparr>m_pending := m_pending M + delta, m_used := m_used M + delta\<rparr>, g, J)
        else (r, M, g, J)
      else
        let M = M\<lparr>m_jni := m_jni M + 1\<rparr>;
            total0 = j_total J; used = j_used J;
            (used, M, J) = (if m_pending M \<noteq> 0
              then (used + m_pending M, M\<lparr>m_pending := 0\<rparr>, J\<lparr>j_used := lj52_clampi (used + m_pending M)\<rparr>)
              else (used, M, J))
        in if nsize = 0 then
             let (M, g) = lj52_gc_pressure M g total0 (used + delta) GpFree
             in (None, M\<lparr>m_used := m_used M + delta\<rparr>, g, J\<lparr>j_used := lj52_clampi (used + delta)\<rparr>)
           else
             let (M, g) = (if delta > 0 \<and> total0 - used < delta then lj52_gc_look M g total0 used else (M, g));
                 (ok, M, g) = (if total0 \<le> 0 \<or> delta \<le> 0 then (True, M, g)
                               else wall M g total0 used delta)
             in if \<not> ok then
                  let (M, g) = lj52_gc_refused (M\<lparr>gc_refdelta := delta\<rparr>) g total0 used in (None, M, g, J)
                else if bp = None then (None, M, g, J)
                else
                  let M = M\<lparr>m_used := m_used M + delta\<rparr>;
                      M = (if delta > 0 then M\<lparr>gc_grown := gc_grown M + delta\<rparr> else M);
                      (M, g) = lj52_gc_pressure M g total0 (used + delta)
                                 (if delta > 0 then GpGrow else GpFree)
                  in (bp, M, g, J\<lparr>j_used := lj52_clampi (used + delta)\<rparr>))"

definition lj52_alloc ::
  "mem \<Rightarrow> gstate \<Rightarrow> jmem \<Rightarrow> ptr \<Rightarrow> int \<Rightarrow> int \<Rightarrow> ptr \<Rightarrow> ptr \<times> mem \<times> gstate \<times> jmem" where
  "lj52_alloc M g J p osize nsize bp =
     (let M = (if m_calls M = 0 \<and> p = None then M\<lparr>m_gg_seen := nsize\<rparr> else M);
          M = M\<lparr>m_calls := m_calls M + 1\<rparr>
      in if m_csync M then
           let (r, M, g) = alloc_csync M g p osize nsize bp in (r, M, g, J)
         else alloc_legacy M g J p osize nsize bp)"

definition lj52_mem_used :: "mem \<Rightarrow> int \<times> mem" where
  "lj52_mem_used M = (if \<not> m_csync M then (- 1, M) else (m_used M, M\<lparr>m_reads := m_reads M + 1\<rparr>))"

definition lj52_mem_settotal :: "mem \<Rightarrow> int \<Rightarrow> mem" where
  "lj52_mem_settotal M total0 = M\<lparr>m_total := total0, m_csync := True\<rparr>"


text \<open>jnlua's \<open>lua_setallocf\<close> sites only raise or lower the accounting flag, its registry write
  binds the Java state, and \<open>lj52_pushcfunction\<close> holds \<open>norefuse\<close> while it pushes.\<close>

definition lj52_setallocf :: "bool \<Rightarrow> mem \<Rightarrow> mem" where
  "lj52_setallocf ud_given M = M\<lparr>m_accounting := ud_given\<rparr>"

definition lj52_setfield :: "bool \<Rightarrow> bool \<Rightarrow> mem \<Rightarrow> mem" where
  "lj52_setfield key_is_jskey value_is_userdata M =
     (if key_is_jskey then M\<lparr>m_bound := value_is_userdata\<rparr> else M)"

definition with_norefuse :: "(mem \<Rightarrow> mem) \<Rightarrow> mem \<Rightarrow> mem" where
  "with_norefuse body M =
     (let M = body (M\<lparr>m_norefuse := m_norefuse M + 1\<rparr>) in M\<lparr>m_norefuse := m_norefuse M - 1\<rparr>)"

section \<open>Frames\<close>

text \<open>What the collector's functions leave alone: the accounting figures, and the VM's own fields.\<close>

definition acct_frame where
  "acct_frame M = (m_accounting M, m_norefuse M, m_pending M, m_bound M, m_used M, m_total M,
     m_csync M, m_calls M, m_jni M, m_L M, m_depth M, m_by0 M, gc_busy M)"

definition vm_frame where
  "vm_frame g = (hook_gc g, hook_vmevent g, gcs_pause g, currentwhite g, gc_total g, cur_L g, lj_max_mem g)"

lemma acct_frame_upd [simp]:
  "acct_frame (M\<lparr>gc_armed := x_armed\<rparr>) = acct_frame M"
  "acct_frame (M\<lparr>gc_savedmul := x_savedmul\<rparr>) = acct_frame M"
  "acct_frame (M\<lparr>gc_white := x_white\<rparr>) = acct_frame M"
  "acct_frame (M\<lparr>gc_armedcalls := x_armedcalls\<rparr>) = acct_frame M"
  "acct_frame (M\<lparr>gc_arms := x_arms\<rparr>) = acct_frame M"
  "acct_frame (M\<lparr>gc_collects := x_collects\<rparr>) = acct_frame M"
  "acct_frame (M\<lparr>gc_bailouts := x_bailouts\<rparr>) = acct_frame M"
  "acct_frame (M\<lparr>gc_refusals := x_refusals\<rparr>) = acct_frame M"
  "acct_frame (M\<lparr>gc_moved := x_moved\<rparr>) = acct_frame M"
  "acct_frame (M\<lparr>gc_parkresets := x_parkresets\<rparr>) = acct_frame M"
  "acct_frame (M\<lparr>gc_odstate := x_odstate\<rparr>) = acct_frame M"
  "acct_frame (M\<lparr>gc_armby := x_armby\<rparr>) = acct_frame M"
  "acct_frame (M\<lparr>gc_hyst := x_hyst\<rparr>) = acct_frame M"
  "acct_frame (M\<lparr>gc_low := x_low\<rparr>) = acct_frame M"
  "acct_frame (M\<lparr>gc_seentotal := x_seentotal\<rparr>) = acct_frame M"
  "acct_frame (M\<lparr>gc_overdrafts := x_overdrafts\<rparr>) = acct_frame M"
  "acct_frame (M\<lparr>gc_odpeak := x_odpeak\<rparr>) = acct_frame M"
  "acct_frame (M\<lparr>gc_win := x_win\<rparr>) = acct_frame M"
  "acct_frame (M\<lparr>gc_grown := x_grown\<rparr>) = acct_frame M"
  "acct_frame (M\<lparr>gc_rsv := x_rsv\<rparr>) = acct_frame M"
  "acct_frame (M\<lparr>gc_lends := x_lends\<rparr>) = acct_frame M"
  "acct_frame (M\<lparr>gc_refdelta := x_refdelta\<rparr>) = acct_frame M"
  "acct_frame (M\<lparr>gc_flush_wanted := x_flush_wanted\<rparr>) = acct_frame M"
  "acct_frame (M\<lparr>gc_traceflushes := x_traceflushes\<rparr>) = acct_frame M"
  "acct_frame (M\<lparr>gc_flushrefusals := x_flushrefusals\<rparr>) = acct_frame M"
  "acct_frame (M\<lparr>gc_flushbytes := x_flushbytes\<rparr>) = acct_frame M"
  by (simp_all add: acct_frame_def)

lemma vm_frame_upd [simp]:
  "vm_frame (g\<lparr>stepmul := x\<rparr>) = vm_frame g" "vm_frame (g\<lparr>threshold := y\<rparr>) = vm_frame g"
  by (simp_all add: vm_frame_def)

lemmas frame_eqs = acct_frame_def vm_frame_def

named_theorems acct_frames \<open>the accounting figures are left alone\<close>
named_theorems vm_frames \<open>the fields only the VM writes are left alone\<close>

lemma arm_acct [acct_frames]: "acct_frame (fst (lj52_gc_arm M g why)) = acct_frame M"
  by (simp add: lj52_gc_arm_def)

lemma arm_vm [vm_frames]: "vm_frame (snd (lj52_gc_arm M g why)) = vm_frame g"
  by (simp add: lj52_gc_arm_def)

lemma reserve_acct [acct_frames]: "acct_frame (snd (lj52_gc_reserve M t u)) = acct_frame M"
  by (simp add: lj52_gc_reserve_def)

lemma credit_acct [acct_frames]: "acct_frame (snd (lj52_gc_credit M g t u)) = acct_frame M"
  by (simp add: lj52_gc_credit_def Let_def case_prod_beta acct_frames vm_frames)

lemma restore_vm [vm_frames]: "vm_frame (restore_stepmul M g) = vm_frame g"
  by (simp add: restore_stepmul_def)

lemma proof_acct [acct_frames]: "acct_frame (gc_proof M t u) = acct_frame M"
  by (simp add: gc_proof_def Let_def)

lemma park_acct [acct_frames]: "acct_frame (fst (gc_park_reset M g)) = acct_frame M"
  by (simp add: gc_park_reset_def)

lemma park_vm [vm_frames]: "vm_frame (snd (gc_park_reset M g)) = vm_frame g"
  by (simp add: gc_park_reset_def)

lemma valve_acct [acct_frames]: "acct_frame (fst (gc_valve M g k)) = acct_frame M"
  by (simp add: gc_valve_def Let_def acct_frames vm_frames)

lemma valve_vm [vm_frames]: "vm_frame (snd (gc_valve M g k)) = vm_frame g"
  by (simp add: gc_valve_def Let_def acct_frames vm_frames)

lemma pressure_acct [acct_frames]: "acct_frame (fst (lj52_gc_pressure M g t u k)) = acct_frame M"
  by (simp add: lj52_gc_pressure_def pressure_armed_def Let_def case_prod_beta acct_frames vm_frames)

lemma pressure_vm [vm_frames]: "vm_frame (snd (lj52_gc_pressure M g t u k)) = vm_frame g"
  by (simp add: lj52_gc_pressure_def pressure_armed_def Let_def case_prod_beta acct_frames vm_frames)

lemma look_acct [acct_frames]: "acct_frame (fst (lj52_gc_look M g t u)) = acct_frame M"
  by (simp add: lj52_gc_look_def acct_frames vm_frames)

lemma look_vm [vm_frames]: "vm_frame (snd (lj52_gc_look M g t u)) = vm_frame g"
  by (simp add: lj52_gc_look_def acct_frames vm_frames)

lemma lend_acct [acct_frames]: "acct_frame (fst (snd (lj52_gc_lend M g t u d))) = acct_frame M"
  by (simp add: lj52_gc_lend_def Let_def case_prod_beta acct_frames vm_frames)

lemma lend_vm [vm_frames]: "vm_frame (snd (snd (lj52_gc_lend M g t u d))) = vm_frame g"
  by (simp add: lj52_gc_lend_def Let_def case_prod_beta acct_frames vm_frames)

lemma refused_acct [acct_frames]: "acct_frame (fst (lj52_gc_refused M g t u)) = acct_frame M"
  by (simp add: lj52_gc_refused_def Let_def case_prod_beta acct_frames vm_frames)

lemma refused_vm [vm_frames]: "vm_frame (snd (lj52_gc_refused M g t u)) = vm_frame g"
  by (simp add: lj52_gc_refused_def Let_def case_prod_beta acct_frames vm_frames)

lemma wall_acct [acct_frames]: "acct_frame (fst (snd (wall M g t u d))) = acct_frame M"
  by (simp add: wall_def Let_def case_prod_beta acct_frames vm_frames)

lemma wall_vm [vm_frames]: "vm_frame (snd (snd (wall M g t u d))) = vm_frame g"
  by (simp add: wall_def Let_def case_prod_beta acct_frames vm_frames)

lemma flush_acct [acct_frames]: "acct_frame (fst (lj52_gc_flushtraces z ts ok M g)) = acct_frame M"
  by (simp add: lj52_gc_flushtraces_def Let_def acct_frames vm_frames)

lemma flush_vm [vm_frames]: "vm_frame (snd (lj52_gc_flushtraces z ts ok M g)) = vm_frame g"
  by (simp add: lj52_gc_flushtraces_def Let_def acct_frames vm_frames)

text \<open>A frame equation read field by field.\<close>

lemma acct_frame_eqD:
  assumes "acct_frame M' = acct_frame M"
  shows "m_accounting M' = m_accounting M" "m_norefuse M' = m_norefuse M" "m_pending M' = m_pending M"
    "m_bound M' = m_bound M" "m_used M' = m_used M" "m_total M' = m_total M" "m_csync M' = m_csync M"
    "m_L M' = m_L M" "m_depth M' = m_depth M" "m_by0 M' = m_by0 M" "gc_busy M' = gc_busy M"
  using assms by (simp_all add: acct_frame_def)

lemma vm_frame_eqD:
  assumes "vm_frame g' = vm_frame g"
  shows "hook_gc g' = hook_gc g" "hook_vmevent g' = hook_vmevent g" "cur_L g' = cur_L g" "lj_max_mem g' = lj_max_mem g"
  using assms by (simp_all add: vm_frame_def)

section \<open>The bound past the cap\<close>

lemma odmax_bounds: "LJ52_GC_ODMIN \<le> lj52_gc_odmax t" "lj52_gc_odmax t \<le> LJ52_GC_ODMAX"
  by (simp_all add: lj52_gc_odmax_def Let_def gc_consts)

lemma half_le: "0 \<le> g \<Longrightarrow> g div 2 \<le> (g :: int)"
  by presburger

lemma rsvcredit_le: "0 \<le> g \<Longrightarrow> lj52_gc_rsvcredit M g \<le> g"
  by (simp add: lj52_gc_rsvcredit_def half_le)

lemma kernel_frame: "acct_frame M' = acct_frame M \<Longrightarrow> vm_frame g' = vm_frame g \<Longrightarrow> lj52_gc_kernel M' g' = lj52_gc_kernel M g"
  by (simp add: lj52_gc_kernel_def acct_frame_def vm_frame_def)

text \<open>The credit never exceeds G, plus the kernel's slice on its own thread.\<close>

lemma credit_bound:
  "fst (lj52_gc_credit M g t u) \<le> lj52_gc_odmax t + (if lj52_gc_kernel M g then LJ52_GC_KSLICE else 0)"
proof -
  have g: "0 \<le> lj52_gc_odmax t" using odmax_bounds(1) [of t] by (simp add: gc_consts)
  have k: "lj52_gc_kernel (snd (lj52_gc_reserve M t u)) g = lj52_gc_kernel M g"
    by (rule kernel_frame) (simp_all add: acct_frames vm_frames)
  have "0 \<le> LJ52_GC_KSLICE" by (simp add: gc_consts)
  then show ?thesis using g rsvcredit_le [OF g] k
    by (auto simp: lj52_gc_credit_def Let_def case_prod_beta)
qed

lemma lend_bound:
  "fst (lj52_gc_lend M g t u d) \<Longrightarrow> \<not> lj52_gc_kernel M g \<and> u + d \<le> t + lj52_gc_odmax t + LJ52_GC_LEND"
  using credit_bound [of M g t u]
  by (auto simp: lj52_gc_lend_def Let_def case_prod_beta split: if_splits)

lemma wall_bound:
  assumes "fst (wall M g t u d)" "m_norefuse M = 0"
  shows "u + d \<le> t + lj52_gc_odmax t + (if lj52_gc_kernel M g then LJ52_GC_KSLICE else LJ52_GC_LEND)"
proof -
  have k: "lj52_gc_kernel (snd (lj52_gc_credit M g t u)) g = lj52_gc_kernel M g"
    by (rule kernel_frame) (simp_all add: acct_frames vm_frames)
  have o: "0 \<le> lj52_gc_odmax t" using odmax_bounds(1) [of t] by (simp add: gc_consts)
  have c: "0 \<le> LJ52_GC_KSLICE" "0 \<le> LJ52_GC_LEND" by (simp_all add: gc_consts)
  consider "d \<le> t - u" | "d \<le> t + fst (lj52_gc_credit M g t u) - u"
    | "fst (lj52_gc_lend (snd (lj52_gc_credit M g t u)) g t u d)"
    using assms by (auto simp: wall_def Let_def case_prod_beta split: if_splits)
  then show ?thesis
  proof cases
    case 1
    then show ?thesis using o c by auto
  next
    case 2
    then show ?thesis using credit_bound [of M g t u] c by (auto split: if_splits)
  next
    case 3
    then show ?thesis using lend_bound k c by fastforce
  qed
qed


section \<open>One allocator call, in C mode\<close>

text \<open>What a call does to the figures: a refusal and a failed resize change nothing, everything else
  moves \<open>used\<close> by exactly the delta.\<close>

lemmas frame_used [simp] = acct_frames [THEN acct_frame_eqD(5)]
lemmas frame_total [simp] = acct_frames [THEN acct_frame_eqD(6)]

lemma alloc_csync_used:
  "m_used (fst (snd (alloc_csync M g p osize nsize bp))) =
     m_used M + (if nsize = 0 \<or> fst (alloc_csync M g p osize nsize bp) \<noteq> None then alloc_delta p osize nsize else 0)"
  by (cases bp) (simp_all add: alloc_csync_def Let_def case_prod_beta)

lemma alloc_csync_result:
  "fst (alloc_csync M g p osize nsize bp) = None \<or>
   fst (alloc_csync M g p osize nsize bp) = bp \<and> nsize \<noteq> 0"
  by (simp add: alloc_csync_def Let_def case_prod_beta)

text \<open>A shrink or a free is never refused.\<close>

lemma alloc_csync_shrink:
  "nsize \<noteq> 0 \<Longrightarrow> alloc_delta p osize nsize \<le> 0 \<Longrightarrow> fst (alloc_csync M g p osize nsize bp) = bp"
  by (simp add: alloc_csync_def Let_def case_prod_beta)

section \<open>The collector's bookkeeping\<close>

text \<open>\<open>m0\<close> is the \<open>gc.stepmul\<close> LuaJIT started with.\<close>

definition gc_ok :: "int \<Rightarrow> mem \<Rightarrow> gstate \<Rightarrow> bool" where
  "gc_ok m0 M g =
     (gc_arms M = gc_collects M + gc_bailouts M + of_bool (gc_armed M) \<and> 0 \<le> gc_armedcalls M \<and>
      (gc_armed M \<longrightarrow> gc_armedcalls M \<le> LJ52_GC_ARMCAP \<and> gc_savedmul M = m0 \<and> stepmul g = 0) \<and>
      (\<not> gc_armed M \<longrightarrow> stepmul g = m0))"

named_theorems gc_keeps \<open>functions that keep the bookkeeping\<close>

lemma arm_ok: "gc_ok m0 M g \<Longrightarrow> \<not> gc_armed M \<Longrightarrow> gc_ok m0 (fst (lj52_gc_arm M g why)) (snd (lj52_gc_arm M g why))"
  by (simp add: gc_ok_def lj52_gc_arm_def gc_consts)

lemma reserve_ok [gc_keeps]: "gc_ok m0 (snd (lj52_gc_reserve M t u)) g = gc_ok m0 M g"
  by (simp add: lj52_gc_reserve_def gc_ok_def)

lemma credit_ok [gc_keeps]: "gc_ok m0 (snd (lj52_gc_credit M g t u)) g' = gc_ok m0 M g'"
  by (simp add: lj52_gc_credit_def Let_def case_prod_beta gc_keeps)

lemma proof_ok: "gc_ok m0 M g \<Longrightarrow> gc_armed M \<Longrightarrow> gc_ok m0 (gc_proof M t u) (restore_stepmul M g)"
  by (simp add: gc_ok_def gc_proof_def Let_def restore_stepmul_def)

lemma park_ok: "gc_ok m0 M g \<Longrightarrow> gc_ok m0 (fst (gc_park_reset M g)) (snd (gc_park_reset M g))"
  by (simp add: gc_ok_def gc_park_reset_def)

lemma park_armed [simp]: "gc_armed (fst (gc_park_reset M g)) = gc_armed M"
  by (simp add: gc_park_reset_def)

lemma valve_ok: "gc_ok m0 M g \<Longrightarrow> gc_armed M \<Longrightarrow> gc_ok m0 (fst (gc_valve M g k)) (snd (gc_valve M g k))"
  by (simp add: gc_ok_def gc_valve_def Let_def restore_stepmul_def)

lemma pressure_armed_ok:
  "gc_ok m0 M g \<Longrightarrow> gc_armed M \<Longrightarrow> gc_ok m0 (fst (pressure_armed M g t u k)) (snd (pressure_armed M g t u k))"
proof -
  assume ok: "gc_ok m0 M g" "gc_armed M"
  define M1 where "M1 = (if \<not> gcs_pause g then M\<lparr>gc_moved := True\<rparr> else M)"
  have 1: "gc_ok m0 M1 g" "gc_armed M1" using ok by (simp_all add: M1_def gc_ok_def)
  show ?thesis
    using proof_ok [OF 1] valve_ok [OF park_ok [OF 1(1)]] 1(2)
    by (simp add: pressure_armed_def Let_def M1_def [symmetric] case_prod_beta)
qed

lemma pressure_ok [gc_keeps]:
  assumes "gc_ok m0 M g"
  shows "gc_ok m0 (fst (lj52_gc_pressure M g t u k)) (snd (lj52_gc_pressure M g t u k))"
proof -
  define M1 where "M1 = (let M = M\<lparr>gc_seentotal := t\<rparr> in if k = GpGrow \<and> u > t then
     M\<lparr>gc_overdrafts := gc_overdrafts M + 1, gc_odpeak := (if u - t > gc_odpeak M then u - t else gc_odpeak M)\<rparr> else M)"
  define M2 where "M2 = (if gc_hyst M1 \<and> u < gc_low M1 then M1\<lparr>gc_low := u\<rparr> else M1)"
  have 1: "gc_ok m0 M1 g" "gc_ok m0 M2 g" "gc_armed M2 = gc_armed M1"
    using assms by (simp_all add: M1_def M2_def gc_ok_def Let_def)
  have p: "lj52_gc_pressure M g t u k =
    (if gc_busy M \<or> m_norefuse M > 0 \<or> \<not> m_L M \<or> t \<le> 0 then (M, g)
     else if gc_owned g then (M, g)
     else if gc_armed M1 then pressure_armed M1 g t u k
     else if cadence M2 g t u then lj52_gc_arm M2 g (if u > t then ArmWall else ArmGate) else (M2, g))"
    by (simp only: lj52_gc_pressure_def Let_def M1_def M2_def)
  show ?thesis using assms 1 pressure_armed_ok [OF 1(1)] arm_ok [OF 1(2)] by (simp add: p)
qed

lemma look_ok [gc_keeps]:
  "gc_ok m0 M g \<Longrightarrow> gc_ok m0 (fst (lj52_gc_look M g t u)) (snd (lj52_gc_look M g t u))"
  by (simp add: lj52_gc_look_def pressure_ok)

lemma lend_ok [gc_keeps]:
  assumes "gc_ok m0 M g"
  shows "gc_ok m0 (fst (snd (lj52_gc_lend M g t u d))) (snd (snd (lj52_gc_lend M g t u d)))"
proof -
  let ?M = "snd (lj52_gc_credit M g t u)"
  have 1: "gc_ok m0 (?M\<lparr>gc_win := WinOpen, gc_lends := gc_lends ?M + 1\<rparr>) g"
    using assms credit_ok [of m0 M g t u g] by (simp add: gc_ok_def)
  show ?thesis
    using assms 1 arm_ok [OF 1] credit_ok [of m0 M g t u g]
    by (simp add: lj52_gc_lend_def Let_def case_prod_beta)
qed

lemma refused_ok [gc_keeps]:
  assumes "gc_ok m0 M g"
  shows "gc_ok m0 (fst (lj52_gc_refused M g t u)) (snd (lj52_gc_refused M g t u))"
proof -
  have 0: "gc_ok m0 (M\<lparr>gc_refusals := gc_refusals M + 1\<rparr>) g" using assms by (simp add: gc_ok_def)
  let ?P = "lj52_gc_pressure (M\<lparr>gc_refusals := gc_refusals M + 1\<rparr>) g t u GpTry"
  have 1: "gc_ok m0 (fst ?P) (snd ?P)" using 0 by (rule pressure_ok)
  have 2: "gc_ok m0 (M'\<lparr>gc_rsv := x\<rparr>) g' = gc_ok m0 M' g'" "gc_ok m0 (M'\<lparr>gc_odstate := y\<rparr>) g' = gc_ok m0 M' g'"
    "gc_ok m0 (M'\<lparr>gc_win := z\<rparr>) g' = gc_ok m0 M' g'" "gc_ok m0 (M'\<lparr>gc_armby := w\<rparr>) g' = gc_ok m0 M' g'"
    for M' g' x y z w by (simp_all add: gc_ok_def)
  show ?thesis
    using 1 by (simp add: lj52_gc_refused_def Let_def case_prod_beta 2 arm_ok)
qed

lemma wall_ok [gc_keeps]:
  "gc_ok m0 M g \<Longrightarrow> gc_ok m0 (fst (snd (wall M g t u d))) (snd (snd (wall M g t u d)))"
  using lend_ok [of m0 "snd (lj52_gc_credit M g t u)" g] credit_ok [of m0 M g t u g]
  by (simp add: wall_def Let_def case_prod_beta)

lemma flush_ok [gc_keeps]:
  assumes "gc_ok m0 M g"
  shows "gc_ok m0 (fst (lj52_gc_flushtraces z ts b M g)) (snd (lj52_gc_flushtraces z ts b M g))"
proof -
  have 2: "gc_ok m0 (M'\<lparr>gc_flush_wanted := x\<rparr>) g' = gc_ok m0 M' g'" "gc_ok m0 (M'\<lparr>gc_traceflushes := y\<rparr>) g' = gc_ok m0 M' g'"
    "gc_ok m0 (M'\<lparr>gc_flushrefusals := y\<rparr>) g' = gc_ok m0 M' g'" "gc_ok m0 (M'\<lparr>gc_flushbytes := y\<rparr>) g' = gc_ok m0 M' g'"
    for M' g' x y by (simp_all add: gc_ok_def)
  show ?thesis using assms by (simp add: lj52_gc_flushtraces_def Let_def 2 arm_ok)
qed

lemma gc_ok_acct [simp]:
  "gc_ok m0 (M\<lparr>m_used := a\<rparr>) g = gc_ok m0 M g" "gc_ok m0 (M\<lparr>m_pending := a\<rparr>) g = gc_ok m0 M g"
  "gc_ok m0 (M\<lparr>m_jni := a\<rparr>) g = gc_ok m0 M g" "gc_ok m0 (M\<lparr>m_calls := a\<rparr>) g = gc_ok m0 M g"
  "gc_ok m0 (M\<lparr>m_gg_seen := a\<rparr>) g = gc_ok m0 M g" "gc_ok m0 (M\<lparr>gc_grown := a\<rparr>) g = gc_ok m0 M g"
  "gc_ok m0 (M\<lparr>gc_refdelta := a\<rparr>) g = gc_ok m0 M g" "gc_ok m0 (M\<lparr>m_total := a\<rparr>) g = gc_ok m0 M g"
  "gc_ok m0 (M\<lparr>m_csync := b\<rparr>) g = gc_ok m0 M g" "gc_ok m0 (M\<lparr>m_accounting := b\<rparr>) g = gc_ok m0 M g"
  "gc_ok m0 (M\<lparr>m_bound := b\<rparr>) g = gc_ok m0 M g" "gc_ok m0 (M\<lparr>m_norefuse := a\<rparr>) g = gc_ok m0 M g"
  "gc_ok m0 (M\<lparr>m_depth := n\<rparr>) g = gc_ok m0 M g" "gc_ok m0 (M\<lparr>m_by0 := n\<rparr>) g = gc_ok m0 M g"
  "gc_ok m0 (M\<lparr>m_reads := a\<rparr>) g = gc_ok m0 M g"
  by (simp_all add: gc_ok_def)

lemma alloc_csync_ok:
  "gc_ok m0 M g \<Longrightarrow> gc_ok m0 (fst (snd (alloc_csync M g p os ns bp))) (snd (snd (alloc_csync M g p os ns bp)))"
  by (simp add: alloc_csync_def Let_def case_prod_beta gc_keeps)

lemma alloc_legacy_ok:
  "gc_ok m0 M g \<Longrightarrow> gc_ok m0 (fst (snd (alloc_legacy M g J p os ns bp))) (fst (snd (snd (alloc_legacy M g J p os ns bp))))"
  by (simp add: alloc_legacy_def Let_def case_prod_beta gc_keeps)

lemma alloc_ok:
  "gc_ok m0 M g \<Longrightarrow> gc_ok m0 (fst (snd (lj52_alloc M g J p os ns bp))) (fst (snd (snd (lj52_alloc M g J p os ns bp))))"
  by (simp add: lj52_alloc_def Let_def case_prod_beta alloc_csync_ok alloc_legacy_ok)

section \<open>The machine\<close>

type_synonym mstate = "mem \<times> gstate \<times> jmem"

text \<open>The zeroed record of \<open>lj52_newstate\<close>.\<close>

definition mem0 :: mem where
  "mem0 = \<lparr>m_accounting = False, m_norefuse = 0, m_pending = 0, m_bound = False, m_gg_seen = 0, m_used = 0,
     m_total = 0, m_csync = False, m_reads = 0, m_calls = 0, m_jni = 0, m_L = False, m_depth = 0, m_by0 = 0,
     gc_armed = False, gc_busy = False, gc_savedmul = 0, gc_white = 0, gc_armedcalls = 0, gc_arms = 0,
     gc_collects = 0, gc_bailouts = 0, gc_refusals = 0, gc_moved = False, gc_parkresets = 0,
     gc_odstate = OdBurst, gc_armby = ArmGate, gc_hyst = False, gc_low = 0, gc_seentotal = 0,
     gc_overdrafts = 0, gc_odpeak = 0, gc_win = WinShut, gc_grown = 0, gc_rsv = 0, gc_lends = 0,
     gc_refdelta = 0, gc_flush_wanted = False, gc_traceflushes = 0, gc_flushrefusals = 0, gc_flushbytes = 0\<rparr>"

text \<open>The steps: an allocator call, the VM running (everything of its state may change but
  \<open>gc.stepmul\<close>, which only the shim writes), the handover, jnlua's bindings, the windows in
  which nothing is refused, the watchdog's stack, and the flush.\<close>

inductive other_step :: "mstate \<Rightarrow> mstate \<Rightarrow> bool" where
  Vm: "stepmul g' = stepmul g \<Longrightarrow> other_step (M, g, J) (M, g', J)"
| SetTotal: "other_step (M, g, J) (lj52_mem_settotal M t, g, J)"
| SetAllocf: "other_step (M, g, J) (lj52_setallocf b M, g, J)"
| SetField: "other_step (M, g, J) (lj52_setfield k b M, g, J)"
| PushBegin: "other_step (M, g, J) (M\<lparr>m_norefuse := m_norefuse M + 1\<rparr>, g, J)"
| PushEnd: "other_step (M, g, J) (M\<lparr>m_norefuse := m_norefuse M - 1\<rparr>, g, J)"
| Watchdog: "other_step (M, g, J) (M\<lparr>m_depth := d, m_by0 := b\<rparr>, g, J)"
| NewState: "other_step (M, g, J) (M\<lparr>m_L := True\<rparr>, g, J)"
| Flush: "lj52_gc_flushtraces z ts b M g = (M', g') \<Longrightarrow> other_step (M, g, J) (M', g', J)"

inductive mem_step :: "mstate \<Rightarrow> mstate \<Rightarrow> bool" where
  Alloc: "lj52_alloc M g J p os ns bp = (r, M', g', J') \<Longrightarrow> mem_step (M, g, J) (M', g', J')"
| Other: "other_step s t \<Longrightarrow> mem_step s t"

definition mem_init :: "int \<Rightarrow> mstate \<Rightarrow> bool" where
  "mem_init m0 = (\<lambda>(M, g, J). M = mem0 \<and> stepmul g = m0)"

definition gc_inv :: "int \<Rightarrow> mstate \<Rightarrow> bool" where
  "gc_inv m0 = (\<lambda>(M, g, J). gc_ok m0 M g)"

lemma gc_inv_other: "other_step s t \<Longrightarrow> gc_inv m0 s \<Longrightarrow> gc_inv m0 t"
proof (induction rule: other_step.induct)
  case (Flush z ts b M g M' g' J)
  then show ?case using flush_ok [of m0 M g z ts b] by (simp add: gc_inv_def)
qed (simp_all add: gc_inv_def lj52_mem_settotal_def lj52_setallocf_def lj52_setfield_def gc_ok_def)

lemma gc_inv_step: "mem_step s t \<Longrightarrow> gc_inv m0 s \<Longrightarrow> gc_inv m0 t"
proof (induction rule: mem_step.induct)
  case (Alloc M g J p os ns bp r M' g' J')
  then show ?case using alloc_ok [of m0 M g J p os ns bp] by (simp add: gc_inv_def)
qed (rule gc_inv_other)

interpretation gc_machine: machine "mem_init m0" mem_step "gc_inv m0" for m0
proof
  show "mem_init m0 s \<Longrightarrow> gc_inv m0 s" for s
    by (auto simp: mem_init_def gc_inv_def gc_ok_def mem0_def split: prod.splits)
qed (rule gc_inv_step)

section \<open>The figures\<close>

lemma legacy_used:
  "m_used (fst (snd (alloc_legacy M g J p os ns bp))) =
     m_used M + (if ns = 0 \<or> fst (alloc_legacy M g J p os ns bp) \<noteq> None then alloc_delta p os ns else 0)"
  by (cases bp) (simp_all add: alloc_legacy_def Let_def case_prod_beta)

lemma legacy_result: "fst (alloc_legacy M g J p os ns bp) = None \<or> fst (alloc_legacy M g J p os ns bp) = bp \<and> ns \<noteq> 0"
  by (simp add: alloc_legacy_def Let_def case_prod_beta)

text \<open>In both modes \<open>used\<close> moves by exactly what was allocated, resized or freed.\<close>

lemma alloc_used:
  "m_used (fst (snd (lj52_alloc M g J p os ns bp))) =
     m_used M + (if ns = 0 \<or> fst (lj52_alloc M g J p os ns bp) \<noteq> None then alloc_delta p os ns else 0)"
  by (simp add: lj52_alloc_def Let_def case_prod_beta alloc_csync_used legacy_used)

lemma alloc_result: "fst (lj52_alloc M g J p os ns bp) = None \<or> fst (lj52_alloc M g J p os ns bp) = bp \<and> ns \<noteq> 0"
  using alloc_csync_result legacy_result
  by (simp add: lj52_alloc_def Let_def case_prod_beta)

text \<open>The live blocks, the abstract heap of a state: every address with its size.\<close>

type_synonym heap = "nat \<Rightarrow> int option"

definition heap_bytes :: "heap \<Rightarrow> int" where
  "heap_bytes h = (\<Sum>a\<in>dom h. the (h a))"

definition drop_block :: "heap \<Rightarrow> ptr \<Rightarrow> heap" where
  "drop_block h p = (case p of None \<Rightarrow> h | Some a \<Rightarrow> h(a := None))"

definition heap_call :: "heap \<Rightarrow> ptr \<Rightarrow> int \<Rightarrow> ptr \<Rightarrow> heap" where
  "heap_call h p ns r =
     (if ns = 0 then drop_block h p else case r of None \<Rightarrow> h | Some q \<Rightarrow> (drop_block h p)(q \<mapsto> ns))"

text \<open>LuaJIT's calls: the old size is the block's, and the backing store answers with the same block
  or a fresh one.\<close>

definition heap_call_ok :: "heap \<Rightarrow> ptr \<Rightarrow> int \<Rightarrow> ptr \<Rightarrow> bool" where
  "heap_call_ok h p os bp =
     ((case p of None \<Rightarrow> os = 0 | Some a \<Rightarrow> h a = Some os) \<and>
      (case bp of None \<Rightarrow> True | Some q \<Rightarrow> p = Some q \<or> h q = None))"

lemma heap_bytes_remove: "finite (dom h) \<Longrightarrow> h a = Some n \<Longrightarrow> heap_bytes (h(a := None)) = heap_bytes h - n"
proof -
  assume f: "finite (dom h)" "h a = Some n"
  have "heap_bytes h = the (h a) + (\<Sum>x\<in>dom h - {a}. the (h x))"
    unfolding heap_bytes_def using f by (intro sum.remove) auto
  moreover have "(\<Sum>x\<in>dom h - {a}. the (h x)) = heap_bytes (h(a := None))"
    unfolding heap_bytes_def by (rule sum.cong) auto
  ultimately show ?thesis using f by simp
qed

lemma heap_bytes_insert: "finite (dom h) \<Longrightarrow> h q = None \<Longrightarrow> heap_bytes (h(q \<mapsto> n)) = heap_bytes h + n"
  using heap_bytes_remove [of "h(q \<mapsto> n)" q n] by (simp add: fun_upd_idem)

lemma heap_call_bytes:
  assumes "finite (dom h)" "heap_call_ok h p os bp" "r = None \<or> r = bp \<and> ns \<noteq> 0"
  shows "finite (dom (heap_call h p ns r)) \<and>
    heap_bytes (heap_call h p ns r) = heap_bytes h + (if ns = 0 \<or> r \<noteq> None then alloc_delta p os ns else 0)"
proof -
  have d: "finite (dom (drop_block h p)) \<and> heap_bytes (drop_block h p) = heap_bytes h - os"
    using assms(1,2) heap_bytes_remove by (auto simp: drop_block_def heap_call_ok_def split: option.splits)
  have i: "drop_block h p q = None" if "r = Some q" for q
    using assms(2,3) that by (auto simp: drop_block_def heap_call_ok_def split: option.splits)
  show ?thesis using assms d i heap_bytes_insert [of "drop_block h p"]
    by (auto simp: heap_call_def alloc_delta_def heap_call_ok_def split: option.splits)
qed

inductive heap_step :: "heap \<times> mstate \<Rightarrow> heap \<times> mstate \<Rightarrow> bool" where
  Call: "heap_call_ok h p os bp \<Longrightarrow> lj52_alloc M g J p os ns bp = (r, M', g', J') \<Longrightarrow>
    heap_step (h, M, g, J) (heap_call h p ns r, M', g', J')"
| Rest: "other_step s t \<Longrightarrow> heap_step (h, s) (h, t)"

definition heap_init :: "heap \<times> mstate \<Rightarrow> bool" where
  "heap_init = (\<lambda>(h, M, g, J). h = Map.empty \<and> M = mem0)"

definition used_inv :: "heap \<times> mstate \<Rightarrow> bool" where
  "used_inv = (\<lambda>(h, M, g, J). finite (dom h) \<and> m_used M = heap_bytes h)"

lemma other_step_used: "other_step s t \<Longrightarrow> m_used (fst t) = m_used (fst s)"
proof (induction rule: other_step.induct)
  case (Flush z ts b M g M' g' J)
  then show ?case using frame_used(12) [of z ts b M g] by simp
qed (simp_all add: lj52_mem_settotal_def lj52_setallocf_def lj52_setfield_def)

interpretation used_machine: machine heap_init heap_step used_inv
proof
  show "heap_init s \<Longrightarrow> used_inv s" for s
    by (auto simp: heap_init_def used_inv_def heap_bytes_def mem0_def)
  show "used_inv t" if "used_inv s" "heap_step s t" for s t
    using that(2,1)
  proof (induction rule: heap_step.induct)
    case (Call h p os bp M g J ns r M' g' J')
    then show ?case using heap_call_bytes [of h p os bp r ns] alloc_used [of M g J p os ns bp] alloc_result [of M g J p os ns bp]
      by (simp add: used_inv_def)
  next
    case (Rest s t h)
    then show ?case using other_step_used [OF Rest(1)] by (auto simp: used_inv_def split: prod.splits)
  qed
qed

section \<open>At a refusal\<close>

lemma refused_arms:
  assumes "\<not> gc_busy M" "m_norefuse M = 0" "m_L M" "0 < t" "\<not> gc_owned g" "\<not> hook_vmevent g"
    "gc_total g \<noteq> lj_max_mem g"
  shows "gc_armed (fst (lj52_gc_refused M g t u)) \<and> gc_odstate (fst (lj52_gc_refused M g t u)) = OdReserve \<and>
    gc_win (fst (lj52_gc_refused M g t u)) = WinShut"
proof -
  define P where "P = lj52_gc_pressure (M\<lparr>gc_refusals := gc_refusals M + 1\<rparr>) g t u GpTry"
  have f: "acct_frame (fst P) = acct_frame M" "vm_frame (snd P) = vm_frame g"
    by (simp_all add: P_def acct_frames vm_frames)
  have th: "threshold (snd P) = threshold g \<or> threshold (snd P) = gc_total g"
    by (simp add: P_def lj52_gc_pressure_def pressure_armed_def Let_def case_prod_beta lj52_gc_arm_def gc_park_reset_def
        gc_valve_def restore_stepmul_def)
  have "\<not> gc_owned (snd P)" "\<not> hook_vmevent (snd P)"
    using th assms vm_frame_eqD [OF f(2)] by (auto simp: gc_owned_def)
  then show ?thesis
    using assms acct_frame_eqD [OF f(1)]
    by (simp add: lj52_gc_refused_def Let_def case_prod_beta P_def [symmetric] lj52_gc_arm_def)
qed

section \<open>Java's figure before the handover\<close>

definition in_jint :: "int \<Rightarrow> bool" where
  "in_jint v = (- 2147483648 \<le> v \<and> v \<le> 2147483647)"

lemma clampi_id: "in_jint v \<Longrightarrow> lj52_clampi v = v"
  by (simp add: in_jint_def lj52_clampi_def)

lemmas frame_pending = acct_frames [THEN acct_frame_eqD(3)]

lemma legacy_figures:
  assumes "j_used J + m_pending M = m_used M" "in_jint (m_used M)"
    "in_jint (m_used (fst (snd (alloc_legacy M g J p os ns bp))))"
  shows "j_used (snd (snd (snd (alloc_legacy M g J p os ns bp))))
      + m_pending (fst (snd (alloc_legacy M g J p os ns bp)))
    = m_used (fst (snd (alloc_legacy M g J p os ns bp)))"
proof (cases "m_accounting M \<and> m_bound M")
  case False
  then show ?thesis using assms(1) by (simp add: alloc_legacy_def Let_def)
next
  case True
  have s: "lj52_clampi (j_used J + m_pending M) = m_used M" using assms(1,2) by (simp add: clampi_id)
  have c: "ns = 0 \<or> fst (alloc_legacy M g J p os ns bp) \<noteq> None \<Longrightarrow>
      lj52_clampi (m_used M + alloc_delta p os ns) = m_used M + alloc_delta p os ns"
    using assms(3) by (simp add: legacy_used clampi_id)
  show ?thesis
    using True assms(1) c s
    by (cases bp) (auto simp: alloc_legacy_def Let_def case_prod_beta frame_pending)
qed


lemma pressure_threshold:
  "threshold (snd (lj52_gc_pressure M g t u k)) = threshold g \<or>
   threshold (snd (lj52_gc_pressure M g t u k)) = gc_total g"
  by (simp add: lj52_gc_pressure_def pressure_armed_def Let_def case_prod_beta lj52_gc_arm_def gc_park_reset_def
      gc_valve_def restore_stepmul_def)

lemma lend_refused_vm: "\<not> fst (lj52_gc_lend M g t u d) \<Longrightarrow> snd (snd (lj52_gc_lend M g t u d)) = g"
  by (auto simp: lj52_gc_lend_def Let_def case_prod_beta split: if_splits)

lemma wall_refused_vm: "\<not> fst (wall M g t u d) \<Longrightarrow> snd (snd (wall M g t u d)) = g"
  using lend_refused_vm by (auto simp: wall_def Let_def case_prod_beta split: if_splits)

section \<open>What judges a growth\<close>

text \<open>The cap and the figure a growth is judged by, if anything judges it: the record's in C mode, Java's
  with the banked bytes before.\<close>

definition judged :: "mem \<Rightarrow> jmem \<Rightarrow> (int \<times> int) option" where
  "judged M J =
     (if m_csync M then if m_accounting M \<and> 0 < m_total M then Some (m_total M, m_used M) else None
      else if m_accounting M \<and> m_bound M \<and> 0 < j_total J then Some (j_total J, j_used J + m_pending M) else None)"

text \<open>The window's look and the wall, and what a refusal then does.\<close>

definition judge :: "mem \<Rightarrow> gstate \<Rightarrow> int \<Rightarrow> int \<Rightarrow> int \<Rightarrow> bool \<times> mem \<times> gstate" where
  "judge M g t u d = (let L = (if t - u < d then lj52_gc_look M g t u else (M, g)) in wall (fst L) (snd L) t u d)"

definition after_refusal :: "bool \<times> mem \<times> gstate \<Rightarrow> int \<Rightarrow> int \<Rightarrow> int \<Rightarrow> mem \<times> gstate" where
  "after_refusal w t u d = lj52_gc_refused ((fst (snd w))\<lparr>gc_refdelta := d\<rparr>) (snd (snd w)) t u"

definition mem_core where
  "mem_core M = (m_norefuse M, m_csync M, m_used M, m_L M, m_depth M, m_by0 M, gc_busy M, gc_armed M, gc_odstate M, gc_refusals M)"

lemma csync_judged:
  fixes g :: gstate
  assumes "m_accounting M" "0 < m_total M" "nsize \<noteq> 0" "0 < alloc_delta p osize nsize"
  defines "w \<equiv> judge M g (m_total M) (m_used M) (alloc_delta p osize nsize)"
  shows "fst w \<Longrightarrow> fst (alloc_csync M g p osize nsize bp) = bp"
    and "\<not> fst w \<Longrightarrow> alloc_csync M g p osize nsize bp
      = (None, after_refusal w (m_total M) (m_used M) (alloc_delta p osize nsize))"
proof -
  have f: "m_used (fst (if b then lj52_gc_look M g t u else (M, g))) = m_used M"
    "m_total (fst (if b then lj52_gc_look M g t u else (M, g))) = m_total M" for b t u by simp_all
  show "fst w \<Longrightarrow> fst (alloc_csync M g p osize nsize bp) = bp"
    using assms(1-4) f by (simp add: alloc_csync_def w_def judge_def Let_def case_prod_beta)
  show "\<not> fst w \<Longrightarrow> alloc_csync M g p osize nsize bp
      = (None, after_refusal w (m_total M) (m_used M) (alloc_delta p osize nsize))"
    using assms(1-4) f by (simp add: alloc_csync_def w_def judge_def after_refusal_def Let_def case_prod_beta)
qed

lemma legacy_judged:
  fixes g :: gstate
  assumes "m_accounting M" "m_bound M" "0 < j_total J" "nsize \<noteq> 0" "0 < alloc_delta p osize nsize"
  defines "u \<equiv> j_used J + m_pending M" and "Ma \<equiv> M\<lparr>m_jni := m_jni M + 1, m_pending := 0\<rparr>"
  defines "w \<equiv> judge Ma g (j_total J) u (alloc_delta p osize nsize)"
  shows "fst w \<Longrightarrow> fst (alloc_legacy M g J p osize nsize bp) = bp
      \<and> (bp \<noteq> None \<longrightarrow> j_used (snd (snd (snd (alloc_legacy M g J p osize nsize bp)))) = lj52_clampi (u + alloc_delta p osize nsize))"
    and "\<not> fst w \<Longrightarrow> \<exists>J'. alloc_legacy M g J p osize nsize bp
      = (None, fst (after_refusal w (j_total J) u (alloc_delta p osize nsize)),
           snd (after_refusal w (j_total J) u (alloc_delta p osize nsize)), J')"
proof -
  define Jx where "Jx = (if m_pending M \<noteq> 0 then J\<lparr>j_used := lj52_clampi u\<rparr> else J)"
  have z: "M\<lparr>m_jni := x\<rparr> = M\<lparr>m_jni := x, m_pending := 0\<rparr>" if "m_pending M = 0" for x using that by (cases M) simp
  have "(let M = M\<lparr>m_jni := m_jni M + 1\<rparr> in
      if m_pending M \<noteq> 0 then (j_used J + m_pending M, M\<lparr>m_pending := 0\<rparr>, J\<lparr>j_used := lj52_clampi (j_used J + m_pending M)\<rparr>)
      else (j_used J, M, J)) = (u, Ma, Jx)"
    using z by (cases "m_pending M = 0") (simp_all add: u_def Ma_def Jx_def Let_def)
  then have e: "alloc_legacy M g J p osize nsize bp =
     (let d = alloc_delta p osize nsize; w = judge Ma g (j_total J) u d in
        if \<not> fst w then (None, fst (after_refusal w (j_total J) u d), snd (after_refusal w (j_total J) u d), Jx)
        else if bp = None then (None, fst (snd w), snd (snd w), Jx)
        else let M = (fst (snd w))\<lparr>m_used := m_used (fst (snd w)) + d\<rparr>; M = M\<lparr>gc_grown := gc_grown M + d\<rparr>;
                 P = lj52_gc_pressure M (snd (snd w)) (j_total J) (u + d) GpGrow
             in (bp, fst P, snd P, Jx\<lparr>j_used := lj52_clampi (u + d)\<rparr>))"
    using assms(1-5)
    by (cases "j_total J - u < alloc_delta p osize nsize")
      (simp_all add: alloc_legacy_def judge_def after_refusal_def Let_def case_prod_beta)
  show "fst w \<Longrightarrow> fst (alloc_legacy M g J p osize nsize bp) = bp
      \<and> (bp \<noteq> None \<longrightarrow> j_used (snd (snd (snd (alloc_legacy M g J p osize nsize bp)))) = lj52_clampi (u + alloc_delta p osize nsize))"
    by (simp add: e w_def Let_def)
  show "\<not> fst w \<Longrightarrow> \<exists>J'. alloc_legacy M g J p osize nsize bp
      = (None, fst (after_refusal w (j_total J) u (alloc_delta p osize nsize)),
           snd (after_refusal w (j_total J) u (alloc_delta p osize nsize)), J')"
    by (simp add: e w_def Let_def)
qed

lemma mem_core_eqD:
  assumes "mem_core M' = mem_core M"
  shows "m_norefuse M' = m_norefuse M" "m_csync M' = m_csync M" "m_used M' = m_used M" "m_L M' = m_L M"
    "gc_busy M' = gc_busy M" "gc_armed M' = gc_armed M" "gc_odstate M' = gc_odstate M" "gc_refusals M' = gc_refusals M"
    "lj52_gc_kernel M' g = lj52_gc_kernel M g"
  using assms by (simp_all add: mem_core_def lj52_gc_kernel_def)

text \<open>An allocator call, in either mode: a growth that is judged is granted or refused as \<open>judge\<close> says.\<close>

lemma alloc_judged:
  assumes "lj52_alloc M g J p osize nsize bp = (r, M', g', J')" "judged M J = Some (t, u)" "nsize \<noteq> 0"
    and "0 < alloc_delta p osize nsize"
  obtains Ma where "mem_core Ma = mem_core M"
    and "fst (judge Ma g t u (alloc_delta p osize nsize)) \<Longrightarrow> r = bp \<and> (bp \<noteq> None \<longrightarrow>
      (if m_csync M then m_used M' = u + alloc_delta p osize nsize else j_used J' = lj52_clampi (u + alloc_delta p osize nsize)))"
    and "\<not> fst (judge Ma g t u (alloc_delta p osize nsize)) \<Longrightarrow>
      r = None \<and> (M', g') = after_refusal (judge Ma g t u (alloc_delta p osize nsize)) t u (alloc_delta p osize nsize)"
proof -
  define M1 where "M1 = (let M = (if m_calls M = 0 \<and> p = None then M\<lparr>m_gg_seen := nsize\<rparr> else M) in M\<lparr>m_calls := m_calls M + 1\<rparr>)"
  have m: "mem_core M1 = mem_core M" "m_accounting M1 = m_accounting M" "m_bound M1 = m_bound M" "m_pending M1 = m_pending M"
    "m_used M1 = m_used M" "m_total M1 = m_total M"
    by (simp_all add: M1_def mem_core_def Let_def)
  show ?thesis
  proof (cases "m_csync M")
    case True
    then have j: "m_accounting M1" "0 < m_total M1" and t: "t = m_total M1" "u = m_used M1"
      using assms(2) m by (auto simp: judged_def split: if_splits)
    have e: "alloc_csync M1 g p osize nsize bp = (r, M', g')"
      using assms(1) True by (auto simp: lj52_alloc_def M1_def Let_def case_prod_beta)
    show ?thesis
      using that [of M1] m(1) csync_judged [OF j assms(3,4), where g = g and bp = bp] e t True
        alloc_csync_used [of M1 g p osize nsize bp] by auto
  next
    case False
    then have j: "m_accounting M1" "m_bound M1" "0 < j_total J" and t: "t = j_total J" "u = j_used J + m_pending M1"
      using assms(2) m by (auto simp: judged_def split: if_splits)
    have e: "alloc_legacy M1 g J p osize nsize bp = (r, M', g', J')"
      using assms(1) False by (auto simp: lj52_alloc_def M1_def Let_def)
    show ?thesis
      using that [of "M1\<lparr>m_jni := m_jni M1 + 1, m_pending := 0\<rparr>"] m(1)
        legacy_judged [OF j assms(3,4), where g = g and bp = bp] e t False by (auto simp: mem_core_def)
  qed
qed

lemma alloc_unjudged:
  assumes "lj52_alloc M g J p osize nsize bp = (r, M', g', J')" "nsize \<noteq> 0"
    and "judged M J = None \<or> alloc_delta p osize nsize \<le> 0"
  shows "r = bp"
proof (cases "m_csync M")
  case True
  then have "r = fst (alloc_csync (let M = (if m_calls M = 0 \<and> p = None then M\<lparr>m_gg_seen := nsize\<rparr> else M)
      in M\<lparr>m_calls := m_calls M + 1\<rparr>) g p osize nsize bp)"
    using assms(1) by (auto simp: lj52_alloc_def Let_def case_prod_beta)
  then show ?thesis using assms(2,3) True
    by (auto simp: alloc_csync_def judged_def Let_def case_prod_beta split: if_splits)
next
  case False
  then have "r = fst (alloc_legacy (let M = (if m_calls M = 0 \<and> p = None then M\<lparr>m_gg_seen := nsize\<rparr> else M)
      in M\<lparr>m_calls := m_calls M + 1\<rparr>) g J p osize nsize bp)"
    using assms(1) by (auto simp: lj52_alloc_def Let_def case_prod_beta)
  then show ?thesis using assms(2,3) False
    by (auto simp: alloc_legacy_def judged_def Let_def case_prod_beta split: if_splits)
qed

lemma judge_bound:
  assumes "fst (judge M g t u d)" "m_norefuse M = 0"
  shows "u + d \<le> t + lj52_gc_odmax t + (if lj52_gc_kernel M g then LJ52_GC_KSLICE else LJ52_GC_LEND)"
proof -
  define L where "L = (if t - u < d then lj52_gc_look M g t u else (M, g))"
  have f: "acct_frame (fst L) = acct_frame M" "vm_frame (snd L) = vm_frame g" by (simp_all add: L_def acct_frames vm_frames)
  have "fst (wall (fst L) (snd L) t u d)" using assms(1) by (simp add: judge_def L_def Let_def)
  then show ?thesis
    using wall_bound [of "fst L" "snd L" t u d] kernel_frame [OF f] acct_frame_eqD(2) [OF f(1)] assms(2) by simp
qed

lemma judge_refused:
  assumes "\<not> fst (judge M g t u d)" "0 < t"
  defines "R \<equiv> after_refusal (judge M g t u d) t u d"
  shows "m_norefuse M = 0" and "m_used (fst R) = m_used M"
    and "\<not> gc_busy M \<Longrightarrow> m_L M \<Longrightarrow> \<not> gc_owned g \<Longrightarrow> \<not> hook_vmevent g \<Longrightarrow> gc_total g \<noteq> lj_max_mem g \<Longrightarrow>
      gc_armed (fst R) \<and> gc_odstate (fst R) = OdReserve \<and> gc_win (fst R) = WinShut"
    and "gc_owned g \<Longrightarrow> snd R = g \<and> gc_armed (fst R) = gc_armed M \<and> gc_odstate (fst R) = gc_odstate M
      \<and> gc_refusals (fst R) = gc_refusals M + 1"
proof -
  define L where "L = (if t - u < d then lj52_gc_look M g t u else (M, g))"
  define W where "W = wall (fst L) (snd L) t u d"
  have f: "acct_frame (fst L) = acct_frame M" "vm_frame (snd L) = vm_frame g"
    by (simp_all add: L_def acct_frames vm_frames)
  have th: "threshold (snd L) = threshold g \<or> threshold (snd L) = gc_total g"
    by (simp add: L_def lj52_gc_look_def pressure_threshold)
  have c: "\<not> fst W" and R: "R = lj52_gc_refused ((fst (snd W))\<lparr>gc_refdelta := d\<rparr>) (snd (snd W)) t u"
    using assms(1) by (simp_all add: judge_def L_def W_def R_def after_refusal_def Let_def)
  have g: "snd (snd W) = snd L" using c by (simp add: W_def wall_refused_vm)
  have fw: "acct_frame ((fst (snd W))\<lparr>gc_refdelta := d\<rparr>) = acct_frame M" using f by (simp add: W_def acct_frames)
  show n: "m_norefuse M = 0" using c acct_frame_eqD(2) [OF f(1)] by (cases "m_norefuse M = 0") (simp_all add: W_def wall_def)
  show "m_used (fst R) = m_used M" using acct_frame_eqD(5) [OF fw] by (simp add: R)
  show "gc_armed (fst R) \<and> gc_odstate (fst R) = OdReserve \<and> gc_win (fst R) = WinShut"
    if a: "\<not> gc_busy M" "m_L M" "\<not> gc_owned g" "\<not> hook_vmevent g" "gc_total g \<noteq> lj_max_mem g"
  proof -
    have o: "\<not> gc_owned (snd L)" "\<not> hook_vmevent (snd L)" "gc_total (snd L) \<noteq> lj_max_mem (snd L)"
      using th a vm_frame_eqD [OF f(2)] f(2) by (auto simp: gc_owned_def vm_frame_def)
    show ?thesis
      using refused_arms [of "(fst (snd W))\<lparr>gc_refdelta := d\<rparr>" t "snd L" u] acct_frame_eqD [OF fw] a n o assms(2)
      by (simp add: R g)
  qed
  show "snd R = g \<and> gc_armed (fst R) = gc_armed M \<and> gc_odstate (fst R) = gc_odstate M \<and> gc_refusals (fst R) = gc_refusals M + 1"
    if o: "gc_owned g"
  proof -
    have p: "lj52_gc_pressure K g x y k = (K, g)" for K x y k using o by (simp add: lj52_gc_pressure_def)
    have L: "L = (M, g)" using p by (simp add: L_def lj52_gc_look_def)
    have cr: "lj52_gc_credit M g t u = (0, M)" using o by (simp add: lj52_gc_credit_def)
    have ln: "lj52_gc_lend M g t u d = (False, M, g)" using o by (simp add: lj52_gc_lend_def)
    have "W = (False, M, g)" using c n unfolding W_def L fst_conv snd_conv wall_def cr Let_def prod.case ln by (auto split: if_splits)
    then show ?thesis using p o by (simp add: R lj52_gc_refused_def Let_def)
  qed
qed

section \<open>The properties\<close>

text \<open>C25: the excursion past a cap is bounded by a constant that no history moves. In either mode, a growth
  that \<open>lj52_alloc\<close> grants while something judges it (accounting on, a cap set, in legacy mode Java's
  state bound) and no no-refuse window is open leaves the machine at most G + LJ52\_GC\_LEND past its cap
  on a sandbox thread and G + LJ52\_GC\_KSLICE on the kernel's, whatever the collector, the credit's
  tier and the window were doing; and the figure kept for it, the record's or Java's, is the one
  judged plus the growth, Java's clamped to its int. What is allocated inside a no-refuse window is
  charged and not judged; the overrun those windows allow is the subject of
  \<open>ShimApi.pushes_never_refused\<close>.\<close>

theorem cap_excursion_bounded:
  assumes "lj52_alloc M g J p osize nsize bp = (Some q, M', g', J')" "judged M J = Some (t, u)"
    "m_norefuse M = 0" "nsize \<noteq> 0" "0 < alloc_delta p osize nsize"
  shows "u + alloc_delta p osize nsize \<le> t + lj52_gc_odmax t
      + (if lj52_gc_kernel M g then LJ52_GC_KSLICE else LJ52_GC_LEND)
    \<and> (if m_csync M then m_used M' = u + alloc_delta p osize nsize
        else j_used J' = lj52_clampi (u + alloc_delta p osize nsize))"
proof -
  obtain Ma where m: "mem_core Ma = mem_core M"
    and y: "fst (judge Ma g t u (alloc_delta p osize nsize)) \<Longrightarrow> Some q = bp \<and> (bp \<noteq> None \<longrightarrow>
      (if m_csync M then m_used M' = u + alloc_delta p osize nsize else j_used J' = lj52_clampi (u + alloc_delta p osize nsize)))"
    and n: "\<not> fst (judge Ma g t u (alloc_delta p osize nsize)) \<Longrightarrow> Some q = None"
    using alloc_judged [OF assms(1,2,4,5)] by metis
  have j: "fst (judge Ma g t u (alloc_delta p osize nsize))" using n by blast
  show ?thesis using judge_bound [OF j] y [OF j] mem_core_eqD [OF m] assms(3) by auto
qed

definition g_idle :: gstate where
  "g_idle = \<lparr>hook_gc = False, hook_vmevent = False, gcs_pause = True, currentwhite = 1, stepmul = 200,
     threshold = 600000, gc_total = 500000, cur_L = 1, lj_max_mem = 2 ^ 47\<rparr>"

definition m_full :: mem where
  "m_full = mem0\<lparr>m_accounting := True, m_total := 524288, m_used := 524000, m_csync := True, m_L := True\<rparr>"

theorem cap_excursion_bounded_witness:
  "\<exists>M' g' J'. lj52_alloc m_full g_idle \<lparr>j_total = 0, j_used = 0\<rparr> None 0 20000 (Some 4096) = (Some 4096, M', g', J') \<and>
     524288 < m_used M' \<and> m_used M' \<le> 524288 + 32768 + 16384"
proof -
  let ?A = "lj52_alloc m_full g_idle \<lparr>j_total = 0, j_used = 0\<rparr> None 0 20000 (Some 4096)"
  obtain q M' g' J' where r: "?A = (q, M', g', J')" by (cases ?A)
  have "fst ?A = Some 4096" by code_simp
  then have q: "q = Some 4096" using r by simp
  have o: "lj52_gc_odmax 524288 = 32768" by code_simp
  have "524000 + alloc_delta None 0 20000 \<le> 524288 + lj52_gc_odmax 524288
      + (if lj52_gc_kernel m_full g_idle then LJ52_GC_KSLICE else LJ52_GC_LEND)
    \<and> (if m_csync m_full then m_used M' = 524000 + alloc_delta None 0 20000
        else j_used J' = lj52_clampi (524000 + alloc_delta None 0 20000))"
    by (rule cap_excursion_bounded [OF r [unfolded q]]) (simp_all add: judged_def m_full_def mem0_def alloc_delta_def)
  then have "m_used M' = 544000 \<and> m_used M' \<le> 524288 + 32768 + 16384"
    by (simp add: o gc_consts alloc_delta_def m_full_def split: if_splits)
  then show ?thesis using r q by simp
qed

text \<open>C26: in every reachable state the figure a machine is charged is exactly the sum of its live
  blocks, in legacy mode, across the handover and in C mode, through refusals, failed resizes and
  everything the collector does.\<close>

theorem used_is_live_bytes:
  assumes "reachable heap_init heap_step (h, M, g, J)"
  shows "m_used M = heap_bytes h"
  using used_machine.reachable_inv [OF assms] by (simp add: used_inv_def)

theorem used_is_live_bytes_witness:
  "\<exists>M' g' J'. lj52_alloc mem0 g_idle \<lparr>j_total = 0, j_used = 0\<rparr> None 0 64 (Some 8) = (Some 8, M', g', J') \<and>
     m_used M' = 64 \<and> heap_bytes [8 \<mapsto> 64] = 64"
proof -
  obtain q M' g' J' where r: "lj52_alloc mem0 g_idle \<lparr>j_total = 0, j_used = 0\<rparr> None 0 64 (Some 8) = (q, M', g', J')"
    by (cases "lj52_alloc mem0 g_idle \<lparr>j_total = 0, j_used = 0\<rparr> None 0 64 (Some 8)")
  have "fst (lj52_alloc mem0 g_idle \<lparr>j_total = 0, j_used = 0\<rparr> None 0 64 (Some 8)) = Some 8" by code_simp
  then have q: "q = Some 8" using r by simp
  have "reachable heap_init heap_step (Map.empty, mem0, g_idle, \<lparr>j_total = 0, j_used = 0\<rparr>)"
    by (rule reachable.Init) (simp add: heap_init_def)
  moreover have "heap_step (Map.empty, mem0, g_idle, \<lparr>j_total = 0, j_used = 0\<rparr>) (heap_call Map.empty None 64 q, M', g', J')"
    by (rule heap_step.Call [OF _ r]) (simp add: heap_call_ok_def)
  ultimately have "reachable heap_init heap_step ([8 \<mapsto> 64], M', g', J')"
    by (auto simp: heap_call_def q drop_block_def intro: reachable.Step)
  from used_is_live_bytes [OF this] have "m_used M' = heap_bytes [8 \<mapsto> 64]" .
  then show ?thesis using r q by (simp add: heap_bytes_def)
qed

text \<open>The emergency collector's bookkeeping in every reachable state: each cycle it demanded was
  proven, abandoned by the valve, or is the one armed now; while none is armed LuaJIT's own
  \<open>gc.stepmul\<close> is back, while one is armed it is saved; and an armed window never outlives
  LJ52\_GC\_ARMCAP attempts to grow.\<close>

theorem collector_bookkeeping:
  assumes "reachable (mem_init m0) mem_step (M, g, J)"
  shows "gc_arms M = gc_collects M + gc_bailouts M + of_bool (gc_armed M) \<and>
    (if gc_armed M then stepmul g = 0 \<and> gc_savedmul M = m0 \<and> gc_armedcalls M \<le> LJ52_GC_ARMCAP
     else stepmul g = m0)"
  using gc_machine.reachable_inv [OF assms] by (auto simp: gc_inv_def gc_ok_def)

theorem collector_bookkeeping_witness:
  "gc_armed (fst (lj52_gc_flushtraces \<lparr>sz_trace = 112, sz_ins = 8, sz_snap = 12, sz_snapentry = 4\<rparr>
      [None, Some \<lparr>t_nins = 10, t_nsnap = 1, t_nsnapmap = 3\<rparr>] True mem0 g_idle)) \<and>
   stepmul (snd (lj52_gc_flushtraces \<lparr>sz_trace = 112, sz_ins = 8, sz_snap = 12, sz_snapentry = 4\<rparr>
      [None, Some \<lparr>t_nins = 10, t_nsnap = 1, t_nsnapmap = 3\<rparr>] True mem0 g_idle)) = 0"
proof -
  let ?F = "lj52_gc_flushtraces \<lparr>sz_trace = 112, sz_ins = 8, sz_snap = 12, sz_snapentry = 4\<rparr>
      [None, Some \<lparr>t_nins = 10, t_nsnap = 1, t_nsnapmap = 3\<rparr>] True mem0 g_idle"
  let ?J = "\<lparr>j_total = 0, j_used = 0\<rparr>"
  have a: "gc_armed (fst ?F)" by code_simp
  have "reachable (mem_init 200) mem_step (mem0, g_idle, ?J)"
    by (rule reachable.Init) (simp add: mem_init_def g_idle_def)
  moreover have "mem_step (mem0, g_idle, ?J) (fst ?F, snd ?F, ?J)"
    by (rule mem_step.Other, rule other_step.Flush) simp
  ultimately have "reachable (mem_init 200) mem_step (fst ?F, snd ?F, ?J)" by (rule reachable.Step)
  from collector_bookkeeping [OF this] a show ?thesis by simp
qed

text \<open>C27: a request that \<open>lj52_alloc\<close> refuses although the backing store would serve it, in either mode, is a
  judged growth outside every no-refuse window; it is charged nothing. The refusal arms the collector,
  opens the reserve tier and shuts the window, from any headroom, provided the record has its Lua
  state and is not inside the collector's own code, no finalizer and no VM event is running, and
  neither the threshold nor the heap stands at LuaJIT's maximum. While a finalizer runs or the
  threshold is parked, the collector is the VM's: the refusal is counted and nothing else changes.\<close>

theorem refusal_arms_collector:
  assumes "lj52_alloc M g J p osize nsize (Some b) = (None, M', g', J')" "nsize \<noteq> 0"
  shows "judged M J \<noteq> None \<and> 0 < alloc_delta p osize nsize \<and> m_norefuse M = 0 \<and> m_used M' = m_used M
    \<and> (\<not> gc_busy M \<and> m_L M \<and> \<not> gc_owned g \<and> \<not> hook_vmevent g \<and> gc_total g \<noteq> lj_max_mem g \<longrightarrow>
        gc_armed M' \<and> gc_odstate M' = OdReserve \<and> gc_win M' = WinShut)
    \<and> (gc_owned g \<longrightarrow> g' = g \<and> gc_armed M' = gc_armed M \<and> gc_odstate M' = gc_odstate M \<and> gc_refusals M' = gc_refusals M + 1)"
proof -
  let ?d = "alloc_delta p osize nsize"
  have "\<not> (judged M J = None \<or> ?d \<le> 0)" using alloc_unjudged [OF assms] by blast
  then have d: "0 < ?d" and "judged M J \<noteq> None" by auto
  then obtain t u where j: "judged M J = Some (t, u)" by auto
  have t: "0 < t" using j by (auto simp: judged_def split: if_splits)
  obtain Ma where m: "mem_core Ma = mem_core M" and y: "fst (judge Ma g t u ?d) \<Longrightarrow> None = Some b"
    and n: "\<not> fst (judge Ma g t u ?d) \<Longrightarrow> (M', g') = after_refusal (judge Ma g t u ?d) t u ?d"
    using alloc_judged [OF assms(1) j assms(2) d] by metis
  have r: "\<not> fst (judge Ma g t u ?d)" using y by blast
  have e: "M' = fst (after_refusal (judge Ma g t u ?d) t u ?d)" "g' = snd (after_refusal (judge Ma g t u ?d) t u ?d)"
    using n [OF r] by (metis fst_conv, metis snd_conv)
  show ?thesis using judge_refused [OF r t] mem_core_eqD [OF m] d j e by auto
qed

theorem refusal_arms_collector_witness:
  "gc_armed (fst (snd (lj52_alloc m_full g_idle \<lparr>j_total = 0, j_used = 0\<rparr> None 0 200000 (Some 4096)))) \<and>
   fst (lj52_alloc m_full g_idle \<lparr>j_total = 0, j_used = 0\<rparr> None 0 200000 (Some 4096)) = None"
proof -
  let ?A = "lj52_alloc m_full g_idle \<lparr>j_total = 0, j_used = 0\<rparr> None 0 200000 (Some 4096)"
  have n: "fst ?A = None" by code_simp
  then have e: "?A = (None, fst (snd ?A), fst (snd (snd ?A)), snd (snd (snd ?A)))" by (metis prod.collapse)
  have "\<not> gc_busy m_full \<and> m_L m_full \<and> \<not> gc_owned g_idle \<and> \<not> hook_vmevent g_idle \<and> gc_total g_idle \<noteq> lj_max_mem g_idle"
    by (simp add: m_full_def mem0_def g_idle_def gc_owned_def)
  then show ?thesis using refusal_arms_collector [OF e] n by simp
qed

text \<open>A free, a shrink, and any request while \<open>norefuse\<close> is held are never refused: what they
  return is what the backing store returned.\<close>

theorem never_refused:
  assumes "nsize \<noteq> 0" "alloc_delta p osize nsize \<le> 0 \<or> m_norefuse M \<noteq> 0"
  shows "fst (alloc_csync M g p osize nsize bp) = bp"
proof -
  have "m_norefuse (fst (lj52_gc_look M g t u)) = m_norefuse M" for t u
    by (rule acct_frame_eqD(2) [OF look_acct])
  then show ?thesis using assms by (auto simp: alloc_csync_def Let_def case_prod_beta wall_def)
qed

theorem never_refused_witness:
  "fst (alloc_csync (m_full\<lparr>m_norefuse := 1\<rparr>) g_idle None 0 200000 (Some 4096)) = Some 4096"
  using never_refused [of 200000 None 0 "m_full\<lparr>m_norefuse := 1\<rparr>" g_idle "Some 4096"] by simp

text \<open>Until the handover Java's figure plus the bytes not yet reported is the record's figure, so
  the figure handed over is the one Java had; an allocator call keeps this while the figure fits
  Java's int.\<close>

theorem java_figure_agrees:
  assumes "lj52_alloc M g J p os ns bp = (r, M', g', J')" "\<not> m_csync M"
    "j_used J + m_pending M = m_used M" "in_jint (m_used M)" "in_jint (m_used M')"
  shows "j_used J' + m_pending M' = m_used M'"
proof -
  define M1 where "M1 = (let M = (if m_calls M = 0 \<and> p = None then M\<lparr>m_gg_seen := ns\<rparr> else M) in M\<lparr>m_calls := m_calls M + 1\<rparr>)"
  have e: "alloc_legacy M1 g J p os ns bp = (r, M', g', J')" using assms(1,2)
    by (auto simp: lj52_alloc_def Let_def M1_def split: if_splits)
  have m: "m_pending M1 = m_pending M" "m_used M1 = m_used M" by (simp_all add: M1_def Let_def)
  show ?thesis using legacy_figures [of J M1 g p os ns bp] assms(3-5) by (simp add: e m)
qed

theorem java_figure_agrees_witness:
  "j_used (snd (snd (snd (lj52_alloc (mem0\<lparr>m_accounting := True, m_bound := True, m_pending := 100, m_used := 100\<rparr>)
       g_idle \<lparr>j_total = 0, j_used = 0\<rparr> None 0 50 (Some 8))))) = 150"
proof -
  let ?M = "mem0\<lparr>m_accounting := True, m_bound := True, m_pending := 100, m_used := 100\<rparr>"
  let ?A = "lj52_alloc ?M g_idle \<lparr>j_total = 0, j_used = 0\<rparr> None 0 50 (Some 8)"
  have v: "m_used (fst (snd ?A)) = 150" "m_pending (fst (snd ?A)) = 0" by code_simp+
  have "j_used (snd (snd (snd ?A))) + m_pending (fst (snd ?A)) = m_used (fst (snd ?A))"
    by (rule java_figure_agrees [of ?M g_idle "\<lparr>j_total = 0, j_used = 0\<rparr>" None 0 50 "Some 8" "fst ?A" _ "fst (snd (snd ?A))"])
      (simp_all add: v in_jint_def, simp_all add: mem0_def)
  then show ?thesis by (simp add: v)
qed

end
