(* ===== verification/ShimStats.thy ===== *)
theory ShimStats
  imports ShimMem
begin

text \<open>
  native/lj52shim.c: the read-only instruments \<open>_OCLJ_JITSTATS\<close>, \<open>_OCLJ_GCSTATS\<close> and
  \<open>_OCLJ_WALLSTATS\<close>. Each is a list of what it pushes, in order, integers before their conversion
  to double; None stands for a state with no record. The fields of LuaJIT's \<open>jit_State\<close> they read
  are \<open>jitst\<close>.
\<close>

section \<open>The instruments\<close>

datatype stat = SInt int | SBool bool

record jitst =
  js_trace :: "nat option list"
  js_szallmcarea :: int
  js_maxmcode :: int
  js_freetrace :: int
  js_on :: bool

definition lj52_jitstats :: "jitst \<Rightarrow> stat list" where
  "lj52_jitstats J =
     [SInt (js_szallmcarea J), SInt (js_maxmcode J * 1024),
      SInt (if js_freetrace J \<noteq> 0 then js_freetrace J - 1 else 0), SBool (js_on J),
      SInt (int (length (filter (\<lambda>t. t \<noteq> None) (drop 1 (js_trace J)))))]"

text \<open>\<open>gcs\<close> is \<open>gc.state\<close> as a number, \<open>heap\<close> whether the record has an arena.\<close>

definition lj52_gcstats :: "mem option \<Rightarrow> bool \<Rightarrow> gstate \<Rightarrow> int \<Rightarrow> stat list" where
  "lj52_gcstats m heap g gcs =
     (let i = (\<lambda>f. SInt (case m of None \<Rightarrow> - 1 | Some M \<Rightarrow> f M));
          b = (\<lambda>f. SBool (case m of None \<Rightarrow> False | Some M \<Rightarrow> f M))
      in [i gc_arms, i gc_collects, i gc_bailouts, i gc_refusals, b gc_armed,
          SInt (gc_total g), SInt (threshold g), SInt (stepmul g), SInt gcs,
          i gc_traceflushes, b gc_flush_wanted, i gc_flushrefusals, i gc_flushbytes, i (\<lambda>_. of_bool heap),
          i m_total, i m_used, i (\<lambda>M. of_bool (m_csync M)), i m_reads, i m_calls, i m_jni])"

definition od_num :: "od_tier \<Rightarrow> int" where
  "od_num t = (case t of OdBurst \<Rightarrow> 0 | OdReserve \<Rightarrow> 1)"

definition arm_num :: "arm_why \<Rightarrow> int" where
  "arm_num a = (case a of ArmGate \<Rightarrow> 0 | ArmWall \<Rightarrow> 1 | ArmFlush \<Rightarrow> 2)"

definition win_num :: "gc_window \<Rightarrow> int" where
  "win_num x = (case x of WinShut \<Rightarrow> 0 | WinOpen \<Rightarrow> 1 | WinVerdict \<Rightarrow> 2)"

text \<open>The sandbox's credit in its tier as it stands.\<close>

definition wall_tier :: "mem \<Rightarrow> int" where
  "wall_tier M =
     (if gc_seentotal M \<le> 0 then - 1
      else if gc_odstate M = OdReserve then lj52_gc_rsvcredit M (lj52_gc_odmax (gc_seentotal M))
      else lj52_gc_odmax (gc_seentotal M) div 2)"

definition lj52_wallstats :: "mem option \<Rightarrow> stat list" where
  "lj52_wallstats m =
     map (\<lambda>f. SInt (case m of None \<Rightarrow> - 1 | Some M \<Rightarrow> f M))
       [gc_overdrafts, gc_odpeak, \<lambda>M. od_num (gc_odstate M), gc_parkresets,
        \<lambda>M. if gc_seentotal M > 0 then lj52_gc_odmax (gc_seentotal M) else 0, \<lambda>_. LJ52_GC_KSLICE,
        gc_low, \<lambda>M. arm_num (gc_armby M), \<lambda>M. of_bool (gc_hyst M), \<lambda>_. LJ52_GC_LEND,
        gc_lends, \<lambda>M. win_num (gc_win M), gc_refdelta, wall_tier]"

section \<open>What is read is what holds\<close>

lemma odmax_nonneg: "0 \<le> lj52_gc_odmax t" by (simp add: lj52_gc_odmax_def gc_consts Let_def)

lemma rsv_range: "lj52_gc_odmax t div 2 \<le> lj52_gc_rsvcredit M (lj52_gc_odmax t) \<and>
    lj52_gc_rsvcredit M (lj52_gc_odmax t) \<le> lj52_gc_odmax t"
  using odmax_nonneg [of t] by (auto simp: lj52_gc_rsvcredit_def)

lemma reserve_tier:
  assumes "lj52_gc_reserve M t used = (r, M')"
  shows "(r \<longleftrightarrow> gc_odstate M' = OdReserve) \<and> gc_seentotal M' = gc_seentotal M \<and> lj52_gc_kernel M' g = lj52_gc_kernel M g"
proof (cases "gc_odstate M = OdReserve")
  case True
  then show ?thesis using assms by (simp add: lj52_gc_reserve_def)
next
  case False
  show ?thesis
  proof (cases "\<not> gc_hyst M \<and> gc_win M = WinShut \<and> used > t + lj52_gc_odmax t div 2")
    case True
    then show ?thesis using assms False by (auto simp: lj52_gc_reserve_def lj52_gc_kernel_def)
  next
    case no: False
    then have "lj52_gc_reserve M t used = (False, M)" using False by (simp only: lj52_gc_reserve_def if_False)
    then show ?thesis using assms False by simp
  qed
qed

lemma credit_tier:
  assumes "lj52_gc_credit M g t used = (c, M')" "\<not> lj52_gc_kernel M g" "gc_seentotal M = t"
  shows "(c = 0 \<or> c = wall_tier M') \<and> gc_seentotal M' = t \<and> \<not> lj52_gc_kernel M' g \<and> (t \<le> 0 \<longrightarrow> c = 0)"
proof (cases "\<not> m_L M \<or> t \<le> 0 \<or> gc_owned g \<or> hook_vmevent g")
  case True
  then have "lj52_gc_credit M g t used = (0, M)" by (elim disjE) (simp_all add: lj52_gc_credit_def)
  then show ?thesis using assms by simp
next
  case False
  obtain r M1 where r: "lj52_gc_reserve M t used = (r, M1)" by (cases "lj52_gc_reserve M t used")
  note rt = reserve_tier [OF r, of g]
  have k: "lj52_gc_kernel M1 g = lj52_gc_kernel M g" using rt by blast
  have "lj52_gc_credit M g t used = (if r then lj52_gc_rsvcredit M1 (lj52_gc_odmax t) else lj52_gc_odmax t div 2, M1)"
    using False assms(2) k r by (simp add: lj52_gc_credit_def Let_def)
  then have c: "c = (if r then lj52_gc_rsvcredit M1 (lj52_gc_odmax t) else lj52_gc_odmax t div 2) \<and> M' = M1"
    using assms(1) by simp
  have r': "r = (gc_odstate M1 = OdReserve)" using rt by blast
  note M' = conjunct2 [OF c] and c' = conjunct1 [OF c, unfolded r']
  have "gc_seentotal M1 = t" "\<not> lj52_gc_kernel M1 g" using rt assms(2,3) by simp_all
  moreover have "c = wall_tier M1" using False calculation(1) unfolding c' wall_tier_def by simp
  ultimately show ?thesis using M' False by simp
qed

lemma arm_tier [simp]: "wall_tier (fst (lj52_gc_arm M g a)) = wall_tier M" "gc_seentotal (fst (lj52_gc_arm M g a)) = gc_seentotal M"
  by (simp_all add: lj52_gc_arm_def wall_tier_def lj52_gc_rsvcredit_def)

text \<open>Asking for the credit twice, as the wall and then the lend do, asks once.\<close>

lemma reserve_cases:
  assumes "lj52_gc_reserve M t used = (r, M')"
  obtains "r" "M' = M" "gc_odstate M = OdReserve"
    | "r" "M' = M\<lparr>gc_odstate := OdReserve, gc_rsv := lj52_gc_odmax t\<rparr>"
    | "\<not> r" "M' = M" "gc_odstate M \<noteq> OdReserve" "\<not> (\<not> gc_hyst M \<and> gc_win M = WinShut \<and> used > t + lj52_gc_odmax t div 2)"
proof (cases "gc_odstate M = OdReserve")
  case True
  then show ?thesis using assms that(1) by (simp add: lj52_gc_reserve_def)
next
  case False
  then show ?thesis using assms that(2,3)
    by (cases "\<not> gc_hyst M \<and> gc_win M = WinShut \<and> used > t + lj52_gc_odmax t div 2") (simp_all add: lj52_gc_reserve_def)
qed

lemma reserve_again:
  assumes "lj52_gc_reserve M t used = (r, M')"
  shows "lj52_gc_reserve M' t used = (r, M')" "m_L M' = m_L M"
proof -
  from assms show "lj52_gc_reserve M' t used = (r, M')"
    by (cases rule: reserve_cases) (simp_all add: lj52_gc_reserve_def)
  from assms show "m_L M' = m_L M" by (cases rule: reserve_cases) simp_all
qed

lemma credit_again:
  assumes "lj52_gc_credit M g t used = (c, M')"
  shows "lj52_gc_credit M' g t used = (c, M')"
proof (cases "\<not> m_L M \<or> t \<le> 0 \<or> gc_owned g \<or> hook_vmevent g")
  case True
  then have "lj52_gc_credit M g t used = (0, M)" by (elim disjE) (simp_all add: lj52_gc_credit_def)
  then show ?thesis using assms by simp
next
  case False
  obtain r M1 where r: "lj52_gc_reserve M t used = (r, M1)" by (cases "lj52_gc_reserve M t used")
  have M': "M' = M1" using assms False r by (simp add: lj52_gc_credit_def Let_def)
  show ?thesis using assms False r reserve_again [OF r] unfolding M' by (simp add: lj52_gc_credit_def Let_def lj52_gc_kernel_def)
qed

text \<open>The lend, on the figures as the wall leaves them.\<close>

abbreviation lend_ok :: "mem \<Rightarrow> int \<Rightarrow> int \<Rightarrow> int \<Rightarrow> bool" where
  "lend_ok M t used d \<equiv>
     used + d \<le> t + wall_tier M + LJ52_GC_LEND \<and> \<not> (gc_win M = WinVerdict \<and> gc_low M > t + wall_tier M)"

lemma arm_window [simp]: "gc_win (fst (lj52_gc_arm M g a)) = gc_win M"
  by (simp add: lj52_gc_arm_def)

lemma lend_exact:
  assumes "lj52_gc_lend M g t used d = (ok, M', g')" "lj52_gc_credit M g t used = (wall_tier M, M)"
    and "m_L M" "0 < t" "\<not> gc_owned g" "\<not> hook_vmevent g" "\<not> lj52_gc_kernel M g"
  shows "(ok \<longleftrightarrow> lend_ok M' t used d) \<and> wall_tier M' = wall_tier M \<and> gc_seentotal M' = gc_seentotal M"
proof (cases "lend_ok M t used d")
  case False
  then have "\<not> ok \<and> M' = M" using assms by (auto simp: lj52_gc_lend_def Let_def split: if_splits)
  then show ?thesis using False by simp
next
  case True
  let ?M = "M\<lparr>gc_win := WinOpen, gc_lends := gc_lends M + 1\<rparr>"
  have M': "ok \<and> M' = (if \<not> gc_armed M then fst (lj52_gc_arm ?M g ArmWall) else ?M)"
    using True assms by (auto simp: lj52_gc_lend_def Let_def split: if_splits prod.splits)
  have "wall_tier ?M = wall_tier M" by (simp add: wall_tier_def lj52_gc_rsvcredit_def)
  then have "wall_tier M' = wall_tier M \<and> gc_win M' = WinOpen \<and> gc_seentotal M' = gc_seentotal M" by (simp add: M')
  then show ?thesis using M' True by simp
qed

text \<open>Where the VM owns the threshold, or there is no state or no cap to credit, the wall grants nothing.\<close>

lemma wall_shut:
  assumes "wall M g t used d = (ok, M', g')" "m_norefuse M = 0" "t - used < d"
    and "\<not> m_L M \<or> t \<le> 0 \<or> gc_owned g \<or> hook_vmevent g"
  shows "\<not> ok \<and> M' = M"
proof -
  have c: "lj52_gc_credit M g t used = (0, M)" using assms(4) by (elim disjE) (simp_all add: lj52_gc_credit_def)
  have l: "lj52_gc_lend M g t used d = (False, M, g)" using assms(4) by (elim disjE) (simp_all add: lj52_gc_lend_def)
  have "wall M g t used d = (False, M, g)" unfolding wall_def c Let_def prod.case l using assms(2,3) by simp
  then show ?thesis using assms(1) by simp
qed

lemma credit_open:
  assumes "lj52_gc_credit M g t used = (c, M')" "\<not> lj52_gc_kernel M g" "gc_seentotal M = t"
    and "m_L M" "0 < t" "\<not> gc_owned g" "\<not> hook_vmevent g"
  shows "c = wall_tier M' \<and> m_L M' = m_L M"
proof -
  obtain r M1 where r: "lj52_gc_reserve M t used = (r, M1)" by (cases "lj52_gc_reserve M t used")
  note rt = reserve_tier [OF r, of g]
  have "\<not> lj52_gc_kernel M1 g" using rt assms(2) by simp
  then have "lj52_gc_credit M g t used = (if r then lj52_gc_rsvcredit M1 (lj52_gc_odmax t) else lj52_gc_odmax t div 2, M1)"
    using assms(4-7) r by (simp add: lj52_gc_credit_def Let_def)
  then have "c = (if r then lj52_gc_rsvcredit M1 (lj52_gc_odmax t) else lj52_gc_odmax t div 2)" "M' = M1"
    using assms(1) by simp_all
  then show ?thesis using rt reserve_again(2) [OF r] assms(3,5) by (auto simp: wall_tier_def)
qed

lemma wall_open:
  assumes "wall M g t used d = (ok, M', g')" "m_norefuse M = 0" "t - used < d" "\<not> lj52_gc_kernel M g" "gc_seentotal M = t"
    and "m_L M" "0 < t" "\<not> gc_owned g" "\<not> hook_vmevent g"
  shows "(ok \<longleftrightarrow> used + d \<le> t + wall_tier M' \<or> lend_ok M' t used d) \<and> gc_seentotal M' = t"
proof -
  obtain c M1 where c: "lj52_gc_credit M g t used = (c, M1)" by (cases "lj52_gc_credit M g t used")
  note ct = credit_tier [OF c assms(4,5)]
  note tier = conjunct1 [OF credit_open [OF c assms(4-9)]] and L = conjunct2 [OF credit_open [OF c assms(4-9)]]
  show ?thesis
  proof (cases "used + d \<le> t + c")
    case True
    then have "wall M g t used d = (True, M1, g)" using assms(2,3) c by (simp add: wall_def)
    then show ?thesis using assms(1) True tier ct by simp
  next
    case False
    then have l: "lj52_gc_lend M1 g t used d = (ok, M', g')" using assms(1-3) c by (simp add: wall_def)
    have "(ok \<longleftrightarrow> lend_ok M' t used d) \<and> wall_tier M' = wall_tier M1 \<and> gc_seentotal M' = gc_seentotal M1"
      using lend_exact [OF l credit_again [OF c, unfolded tier]] L ct assms(6-9) by simp
    then show ?thesis using False tier ct by auto
  qed
qed

text \<open>C22: the ceiling the instrument publishes is the one the wall keeps, and exactly. Past the cap, for
  a thread of the sandbox outside the no-refuse window, a growth is granted when and only when it ends
  at or below the cap plus the tier \<open>_OCLJ_WALLSTATS\<close> then reports, or at or below that plus the window
  it reports, unless the window's verdict has been given (2) with the low point it reports still above
  the tier; and nothing is granted without a Lua state and a cap, or while a finalizer, a VM event or
  a parked threshold owns the collector. The tier is between half its published limit and the limit.\<close>

theorem wallstats_ceiling:
  assumes "wall M g t used d = (ok, M', g')" "m_norefuse M = 0" "t - used < d"
    and "\<not> lj52_gc_kernel M g" "gc_seentotal M = t"
  shows "\<exists>tier lim win low verdict. lj52_wallstats (Some M') ! 13 = SInt tier \<and> lj52_wallstats (Some M') ! 4 = SInt lim \<and>
    lj52_wallstats (Some M') ! 9 = SInt win \<and> lj52_wallstats (Some M') ! 6 = SInt low \<and>
    lj52_wallstats (Some M') ! 11 = SInt verdict \<and>
    (ok \<longleftrightarrow> m_L M \<and> 0 < t \<and> \<not> gc_owned g \<and> \<not> hook_vmevent g
       \<and> (used + d \<le> t + tier \<or> used + d \<le> t + tier + win \<and> \<not> (verdict = 2 \<and> low > t + tier))) \<and>
    (0 < t \<longrightarrow> lim div 2 \<le> tier \<and> tier \<le> lim)"
proof -
  have "gc_seentotal M' = t \<and> (ok \<longleftrightarrow> m_L M \<and> 0 < t \<and> \<not> gc_owned g \<and> \<not> hook_vmevent g
      \<and> (used + d \<le> t + wall_tier M' \<or> lend_ok M' t used d))"
    using wall_open [OF assms] wall_shut [OF assms(1-3)] assms(5) by (cases "m_L M \<and> 0 < t \<and> \<not> gc_owned g \<and> \<not> hook_vmevent g") auto
  moreover have "lj52_gc_odmax t div 2 \<le> wall_tier M' \<and> wall_tier M' \<le> lj52_gc_odmax t" if "0 < t" "gc_seentotal M' = t"
    using that rsv_range [of t M'] odmax_nonneg [of t] by (auto simp: wall_tier_def)
  moreover have "win_num x = 2 \<longleftrightarrow> x = WinVerdict" for x by (cases x) (simp_all add: win_num_def)
  ultimately show ?thesis by (auto simp: lj52_wallstats_def)
qed

text \<open>The example: a megabyte's machine, four kilobytes below its cap, asks for sixteen.\<close>

definition m_wall :: mem where
  "m_wall = mem0\<lparr>m_accounting := True, m_total := 1048576, m_used := 1044480, m_csync := True, m_L := True,
     m_depth := 1, m_by0 := 1, gc_seentotal := 1048576\<rparr>"

definition g_wall :: gstate where
  "g_wall = g_idle\<lparr>cur_L := 2\<rparr>"

theorem wallstats_ceiling_witness:
  "\<exists>M' g' tier win. wall m_wall g_wall 1048576 1044480 16384 = (True, M', g') \<and>
    lj52_wallstats (Some M') ! 13 = SInt tier \<and> lj52_wallstats (Some M') ! 9 = SInt win \<and>
    (1044480 + 16384 \<le> 1048576 + tier \<or> 1044480 + 16384 \<le> 1048576 + tier + win)"
proof -
  obtain b M' g' where w: "wall m_wall g_wall 1048576 1044480 16384 = (b, M', g')"
    by (cases "wall m_wall g_wall 1048576 1044480 16384")
  have "fst (wall m_wall g_wall 1048576 1044480 16384)" by code_simp
  then have b: "wall m_wall g_wall 1048576 1044480 16384 = (True, M', g')" using w by simp
  have "m_norefuse m_wall = 0" "\<not> lj52_gc_kernel m_wall g_wall" "gc_seentotal m_wall = 1048576"
    by (simp_all add: m_wall_def g_wall_def mem0_def g_idle_def lj52_gc_kernel_def)
  from wallstats_ceiling [OF b this(1) _ this(2,3)] b show ?thesis by auto
qed

text \<open>The counts of \<open>_OCLJ_GCSTATS\<close> balance in every reachable state: what it reports armed is what was
  armed and neither proven nor given up.\<close>

lemma gcstats_balance:
  assumes "reachable (mem_init m0) mem_step (M, g, J)"
  shows "\<exists>a c b. lj52_gcstats (Some M) heap g n ! 0 = SInt a \<and> lj52_gcstats (Some M) heap g n ! 1 = SInt c \<and>
    lj52_gcstats (Some M) heap g n ! 2 = SInt b \<and> lj52_gcstats (Some M) heap g n ! 4 = SBool (a = c + b + 1)"
proof -
  have "gc_arms M = gc_collects M + gc_bailouts M + of_bool (gc_armed M)"
    using gc_machine.reachable_inv [OF assms] by (auto simp: gc_inv_def gc_ok_def)
  then show ?thesis by (simp add: lj52_gcstats_def)
qed

end
