(* ===== verification/ShimWd.thy ===== *)
theory ShimWd
  imports ShimMem IeeeArith Machine
begin

text \<open>
  native/lj52shim.c: the deadline watchdog, on its pthread backend. \<open>wd\<close> holds the record's
  \<open>wd_*\<close> fields, the part of \<open>global_State\<close> that says which hook is installed, and the registry
  slot of the armed function; the timer thread is where it is in its loop (\<open>tmode\<close>), and a pass
  of the loop is one step, as the mutex it holds makes it. The clock's readings are arguments, in
  the order the code takes them. A Lua thread is a number, a Lua function too.
\<close>

section \<open>Constants and state\<close>

definition LJ52_WD_MAXDEPTH :: nat where "LJ52_WD_MAXDEPTH = 256"
definition LJ52_WD_SKIPMAX :: nat where "LJ52_WD_SKIPMAX = 64"
definition LJ52_WD_REFIRE_MS :: int where "LJ52_WD_REFIRE_MS = 50"
definition LJ52_WD_MAXMS :: double where "LJ52_WD_MAXMS = d_of_int 4294967000"
definition LJ52_WD_MAXWAIT_MS :: double where "LJ52_WD_MAXWAIT_MS = d_of_int 3600000"

abbreviation d_zero :: double where "d_zero \<equiv> 0"

text \<open>The hook of \<open>g->hookf\<close>: none, the watchdog's, or another's.\<close>

datatype hookf = HookNone | HookWd | HookOther nat

text \<open>No thread yet; about to take a pass of the loop; in \<open>pthread_cond_wait\<close>; in
  \<open>pthread_cond_timedwait\<close> until the given second and nanosecond; returned.\<close>

datatype tmode = TNone | TAwake | TParked | TSleeping int int | TExited

record wd =
  wd_due :: double
  wd_wake :: double
  wd_mtx :: bool
  wd_cv :: bool
  wd_thread :: tmode
  wd_started :: bool
  wd_quit :: bool
  wd_depth :: nat
  wd_stack :: "nat \<Rightarrow> double"
  wd_for :: "nat \<Rightarrow> nat"
  wd_by :: "nat \<Rightarrow> nat"
  wd_skip :: "nat \<Rightarrow> nat"
  wd_fired :: bool
  wd_fires :: int
  wd_refires :: int
  wd_filtered :: int
  wd_degraded :: bool
  hk_f :: hookf
  hk_count :: int
  hk_mask :: bool
  reg_fn :: "nat option"

text \<open>\<open>wd_mtx\<close>, \<open>wd_cv\<close>: the primitive is initialised. \<open>hk_mask\<close>: LUA\_MASKCOUNT is
  set in \<open>g->hookmask\<close>.\<close>

text \<open>\<open>lua_sethook(L, lj52_wd_hook, LUA_MASKCOUNT, n)\<close> and \<open>lua_sethook(L, NULL, 0, 0)\<close>.\<close>

definition sethook_wd :: "int \<Rightarrow> wd \<Rightarrow> wd" where
  "sethook_wd n W = W\<lparr>hk_f := HookWd, hk_count := n, hk_mask := True\<rparr>"

definition sethook_none :: "wd \<Rightarrow> wd" where
  "sethook_none W = W\<lparr>hk_f := HookNone, hk_count := 0, hk_mask := False\<rparr>"

definition lj52_wd_now :: "int \<Rightarrow> int \<Rightarrow> double" where
  "lj52_wd_now tv_sec tv_nsec =
     d_add (d_mul (d_of_int tv_sec) (d_of_int 1000)) (d_div (d_of_int tv_nsec) (d_of_int 1000000))"

section \<open>The hook\<close>

datatype hook_answer = Skipped | Called nat | NotAFunction

text \<open>The first live entry the running thread armed.\<close>

definition armed_entry :: "nat \<Rightarrow> wd \<Rightarrow> nat option" where
  "armed_entry L W = find (\<lambda>i. wd_by W i = L) [0..<wd_depth W]"

definition lj52_wd_hook :: "nat \<Rightarrow> wd \<Rightarrow> hook_answer \<times> wd" where
  "lj52_wd_hook L W =
     (let fire = ((case reg_fn W of Some f \<Rightarrow> Called f | None \<Rightarrow> NotAFunction), W) in
      if wd_depth W > 0 \<and> wd_for W (wd_depth W - 1) \<noteq> L then
        (case armed_entry L W of
           None \<Rightarrow> fire
         | Some i \<Rightarrow>
             if wd_skip W i < LJ52_WD_SKIPMAX
             then (Skipped, W\<lparr>wd_skip := (wd_skip W)(i := wd_skip W i + 1),
                              wd_filtered := wd_filtered W + 1\<rparr>)
             else fire)
      else fire)"

definition lj52_wd_inject :: "wd \<Rightarrow> wd" where
  "lj52_wd_inject W = W\<lparr>hk_f := HookWd, hk_count := 1, hk_mask := True\<rparr>"

section \<open>The timer thread\<close>

definition lj52_wd_wait_until :: "double \<Rightarrow> double \<Rightarrow> wd \<Rightarrow> wd" where
  "lj52_wd_wait_until now due W =
     (let ms = (if d_less (d_add now LJ52_WD_MAXWAIT_MS) due then d_add now LJ52_WD_MAXWAIT_MS else due);
          sec = d_floor (d_div ms (d_of_int 1000));
          tv_nsec = d_trunc (d_mul (d_sub ms (d_mul sec (d_of_int 1000))) (d_of_int 1000000));
          tv_nsec = (if tv_nsec < 0 then 0 else tv_nsec);
          tv_nsec = (if tv_nsec > 999999999 then 999999999 else tv_nsec)
      in W\<lparr>wd_wake := ms, wd_thread := TSleeping (d_trunc sec) tv_nsec\<rparr>)"

text \<open>One pass of the loop; \<open>now2\<close> is \<open>lj52_wd_wait_until\<close>'s own reading.\<close>

definition lj52_wd_pass :: "double \<Rightarrow> double \<Rightarrow> wd \<Rightarrow> wd" where
  "lj52_wd_pass now now2 W =
     (if wd_quit W then W\<lparr>wd_wake := d_zero, wd_thread := TExited\<rparr>
      else if d_eq (wd_due W) d_zero then W\<lparr>wd_wake := d_zero, wd_thread := TParked\<rparr>
      else if d_less now (wd_due W) then lj52_wd_wait_until now2 (wd_due W) W
      else
        let W = (if \<not> wd_fired W then W\<lparr>wd_fired := True, wd_fires := wd_fires W + 1\<rparr>
                 else W\<lparr>wd_refires := wd_refires W + 1\<rparr>);
            W = lj52_wd_inject W
        in W\<lparr>wd_due := d_add now (d_of_int LJ52_WD_REFIRE_MS)\<rparr>)"

text \<open>The end of either wait: a signal, the time reached, or spuriously.\<close>

definition wd_wakeup :: "wd \<Rightarrow> wd" where
  "wd_wakeup W =
     (case wd_thread W of
        TParked \<Rightarrow> W\<lparr>wd_thread := TAwake\<rparr>
      | TSleeping s n \<Rightarrow> W\<lparr>wd_thread := TAwake\<rparr>
      | _ \<Rightarrow> W)"

section \<open>Cancelling and programming\<close>

definition lj52_wd_cancel :: "wd \<Rightarrow> wd" where
  "lj52_wd_cancel W = (if \<not> wd_started W then W else W\<lparr>wd_due := d_zero\<rparr>)"

definition wd_top :: "wd \<Rightarrow> double" where
  "wd_top W = wd_stack W (wd_depth W - 1)"

definition lj52_wd_program :: "double \<Rightarrow> wd \<Rightarrow> wd" where
  "lj52_wd_program now W =
     (let remaining = d_sub (wd_top W) now; W = W\<lparr>wd_fired := False\<rparr> in
      if \<not> d_less d_zero remaining then sethook_wd 1 W
      else if \<not> d_less remaining LJ52_WD_MAXMS then W
      else if \<not> wd_started W then sethook_wd 1000 (W\<lparr>wd_degraded := True\<rparr>)
      else
        let W = W\<lparr>wd_due := d_add (wd_top W) (d_of_int 5)\<rparr>;
            W = (if d_eq (wd_wake W) d_zero \<or> d_less (wd_due W) (wd_wake W) then wd_wakeup W else W)
        in W\<lparr>wd_degraded := False\<rparr>)"

section \<open>Starting and stopping the thread\<close>

text \<open>What the pthread calls answer (true: 0).\<close>

record pth =
  p_mutex_init :: bool
  p_condattr_init :: bool
  p_setclock :: bool
  p_cond_init :: bool
  p_attr_init :: bool
  p_create :: bool

definition wd_start_err_mtx :: "wd \<Rightarrow> wd" where
  "wd_start_err_mtx W = W\<lparr>wd_mtx := False, wd_degraded := True\<rparr>"

definition wd_start_err_cv :: "wd \<Rightarrow> wd" where
  "wd_start_err_cv W = wd_start_err_mtx (W\<lparr>wd_cv := False\<rparr>)"

definition lj52_wd_start :: "pth \<Rightarrow> wd \<Rightarrow> wd" where
  "lj52_wd_start P W =
     (let W = W\<lparr>wd_quit := False\<rparr> in
      if \<not> p_mutex_init P then W
      else let W = W\<lparr>wd_mtx := True\<rparr> in
      if \<not> p_condattr_init P then wd_start_err_mtx W
      else if \<not> p_setclock P then wd_start_err_mtx W
      else if \<not> p_cond_init P then wd_start_err_mtx W
      else let W = W\<lparr>wd_cv := True\<rparr> in
      if \<not> p_attr_init P then wd_start_err_cv W
      else if \<not> p_create P then wd_start_err_cv W
      else W\<lparr>wd_thread := TAwake, wd_started := True, wd_degraded := False\<rparr>)"

text \<open>\<open>pthread_join\<close> returns when the thread has: after the pass the quit flag ends, if the
  thread is there to take it. None is a join that does not return.\<close>

definition lj52_wd_stop :: "wd \<Rightarrow> wd option" where
  "lj52_wd_stop W =
     (if \<not> wd_started W then Some W
      else
        let W = wd_wakeup (W\<lparr>wd_quit := True, wd_due := d_zero\<rparr>);
            W = (if wd_thread W = TAwake then lj52_wd_pass d_zero d_zero W else W)
        in if wd_thread W = TExited
           then Some (W\<lparr>wd_cv := False, wd_mtx := False, wd_started := False\<rparr>)
           else None)"

section \<open>The Lua functions\<close>

datatype wd_err = ErrNumber | ErrFunction | ErrNotLj52 | ErrMem | ErrBounds nat

text \<open>\<open>arm(secs, fn, outermost, protects)\<close>: \<open>secs\<close> and \<open>fn\<close> are None where their
  checks raise. \<open>reg_ok\<close>: the VM found the memory the registry write needs for a key it
  does not hold yet (assigning to a key that is there allocates nothing). \<open>ErrBounds\<close>
  is a write past the four arrays, which C does not define.\<close>

record arm_args =
  a_secs :: "double option"
  a_fn :: "nat option"
  a_outermost :: bool
  a_protects :: "nat option"

record wd_env =
  e_sizes :: lj_sizes
  e_traces :: "trace_info option list"
  e_mode_ok :: bool
  e_reg_ok :: bool

text \<open>The two fields the collector reads of the watchdog.\<close>

definition wd_mirror :: "wd \<Rightarrow> mem \<Rightarrow> mem" where
  "wd_mirror W M = M\<lparr>m_depth := wd_depth W, m_by0 := wd_by W 0\<rparr>"

definition wd_heal :: "wd \<Rightarrow> wd" where
  "wd_heal W = (let W = W\<lparr>wd_depth := 0\<rparr> in if hk_f W \<noteq> HookNone then sethook_none W else W)"

definition wd_push :: "double \<Rightarrow> nat \<Rightarrow> nat \<Rightarrow> wd \<Rightarrow> wd" where
  "wd_push deadline co L W =
     (let d = wd_depth W in
      W\<lparr>wd_stack := (wd_stack W)(d := deadline), wd_for := (wd_for W)(d := co),
        wd_by := (wd_by W)(d := L), wd_skip := (wd_skip W)(d := 0), wd_depth := d + 1\<rparr>)"

definition arm_secs :: "double \<Rightarrow> double" where
  "arm_secs secs = (if \<not> d_le d_zero secs then d_zero else secs)"

definition wd_arm_push ::
  "bool \<Rightarrow> nat \<Rightarrow> double \<Rightarrow> double \<Rightarrow> double \<Rightarrow> nat \<Rightarrow> nat \<Rightarrow> wd \<Rightarrow> (wd_err + nat) \<times> wd" where
  "wd_arm_push reg_ok L now now2 secs f co W =
     (if \<not> reg_ok \<and> reg_fn W = None then (Inl ErrMem, W)
      else if LJ52_WD_MAXDEPTH \<le> wd_depth W then (Inl (ErrBounds (wd_depth W)), W)
      else
        let W = W\<lparr>reg_fn := Some f\<rparr>;
            W = wd_push (d_add now (d_mul secs (d_of_int 1000))) co L W;
            W = lj52_wd_program now2 W
        in (Inr (wd_depth W), W))"

definition lj52_wd_arm ::
  "wd_env \<Rightarrow> nat \<Rightarrow> arm_args \<Rightarrow> double \<Rightarrow> double \<Rightarrow> wd option \<times> mem \<times> gstate \<Rightarrow>
     (wd_err + nat) \<times> wd option \<times> mem \<times> gstate" where
  "lj52_wd_arm E L A now now2 =
     (\<lambda>(W0, M, g).
        case a_secs A of None \<Rightarrow> (Inl ErrNumber, W0, M, g)
        | Some secs0 \<Rightarrow>
            case a_fn A of None \<Rightarrow> (Inl ErrFunction, W0, M, g)
            | Some f \<Rightarrow>
                case W0 of None \<Rightarrow> (Inl ErrNotLj52, W0, M, g)
                | Some W \<Rightarrow>
                    let secs = arm_secs secs0;
                        co = (case a_protects A of Some t \<Rightarrow> t | None \<Rightarrow> L);
                        (M, g) = (if gc_flush_wanted M
                                  then lj52_gc_flushtraces (e_sizes E) (e_traces E) (e_mode_ok E) M g
                                  else (M, g))
                    in if \<not> a_outermost A \<and> wd_depth W \<ge> LJ52_WD_MAXDEPTH
                       then (Inr (wd_depth W + 1), Some W, M, g)
                       else
                         let W = lj52_wd_cancel W;
                             W = (if a_outermost A then wd_heal W else W);
                             (r, W) = wd_arm_push (e_reg_ok E) L now now2 secs f co W
                         in (r, Some W, wd_mirror W M, g))"

text \<open>\<open>disarm(token)\<close>: no token, a value \<open>luaL_checkinteger\<close> refuses, or a \<open>lua_Integer\<close>, cut
  to a C int.\<close>

datatype token = NoToken | BadToken | Token int

definition disarm_to :: "token \<Rightarrow> wd \<Rightarrow> int option" where
  "disarm_to tok W =
     (case tok of
        NoToken \<Rightarrow> Some (int (wd_depth W) - 1)
      | BadToken \<Rightarrow> None
      | Token t \<Rightarrow> Some (signed_take_bit 31 t - 1))"

definition lj52_wd_disarm :: "double \<Rightarrow> token \<Rightarrow> wd option \<Rightarrow> (wd_err + unit) \<times> wd option" where
  "lj52_wd_disarm now tok W0 =
     (case W0 of None \<Rightarrow> (Inr (), W0)
      | Some W \<Rightarrow>
          case disarm_to tok W of None \<Rightarrow> (Inl ErrNumber, W0)
          | Some to \<Rightarrow>
              let to = (if to < 0 then 0 else to);
                  W = lj52_wd_cancel W;
                  W = (if hk_f W \<noteq> HookNone then sethook_none W else W);
                  W = (if to < int (wd_depth W) then W\<lparr>wd_depth := nat to\<rparr> else W);
                  W = (if wd_depth W = 0 then W\<lparr>reg_fn := None\<rparr> else lj52_wd_program now W)
              in (Inr (), Some W))"

definition lj52_wd_depth :: "wd option \<Rightarrow> int" where
  "lj52_wd_depth W = (case W of Some W \<Rightarrow> int (wd_depth W) | None \<Rightarrow> -1)"

definition lj52_wd_stats :: "wd option \<Rightarrow> bool \<Rightarrow> int \<times> int \<times> int \<times> int \<times> bool" where
  "lj52_wd_stats W hooked =
     (case W of
        Some W \<Rightarrow> (wd_fires W, wd_refires W, wd_filtered W, int (wd_depth W), hk_f W \<noteq> HookNone)
      | None \<Rightarrow> (-1, -1, -1, -1, hooked))"

text \<open>The zeroed record.\<close>

definition wd0 :: wd where
  "wd0 = \<lparr>wd_due = 0, wd_wake = 0, wd_mtx = False, wd_cv = False, wd_thread = TNone,
     wd_started = False, wd_quit = False, wd_depth = 0, wd_stack = (\<lambda>i. 0), wd_for = (\<lambda>i. 0),
     wd_by = (\<lambda>i. 0), wd_skip = (\<lambda>i. 0), wd_fired = False, wd_fires = 0, wd_refires = 0,
     wd_filtered = 0, wd_degraded = False, hk_f = HookNone, hk_count = 0, hk_mask = False,
     reg_fn = None\<rparr>"

section \<open>Order of the clock's readings\<close>

lemma fp_less_irrefl [simp]: "\<not> fp_less x x"
  by (cases x) simp_all

lemma fp_less_asym: "fp_less x y \<Longrightarrow> \<not> fp_less y x"
  by (cases x; cases y) (auto simp: min.commute)

lemma d_less_irrefl [simp]: "\<not> d_less a a"
  by (simp add: d_less_def)

lemma d_less_asym: "d_less a b \<Longrightarrow> \<not> d_less b a"
  by (simp add: d_less_def fp_less_asym)

lemma dval_zero: "dval d_zero = FFin False 0 (-1074)"
  by (simp add: dval_def fp_decode_def fp_emin_def)

lemma d_eq_zero [simp]: "d_eq d_zero d_zero"
  by (simp add: d_eq_def dval_zero)

text \<open>Comparisons with zero need no scaling.\<close>

lemma d_zero_less:
  "d_less d_zero a = (case dval a of FFin s m e \<Rightarrow> scaled s m 0 0 > 0 | FInf s \<Rightarrow> \<not> s | FNan \<Rightarrow> False)"
  by (cases "dval a") (auto simp: d_less_def dval_zero scaled_def zero_less_mult_iff)

lemma d_eq_zero_iff: "d_eq a d_zero = (case dval a of FFin s m e \<Rightarrow> m = 0 | _ \<Rightarrow> False)"
  by (cases "dval a") (auto simp: d_eq_def dval_zero scaled_def)

section \<open>The end of a sleep\<close>

text \<open>The time a sleep until \<open>ms\<close> milliseconds is given to \<open>pthread_cond_timedwait\<close> as, and that it is at most a
  quarter of a microsecond after \<open>ms\<close>, the error of the roundings, for the first \<open>2 ^ 40\<close>
  milliseconds (35 years) of the clock.\<close>

definition timespec :: "double \<Rightarrow> int \<times> int" where
  "timespec ms =
     (let sec = d_floor (d_div ms (d_of_int 1000));
          n = d_trunc (d_mul (d_sub ms (d_mul sec (d_of_int 1000))) (d_of_int 1000000))
      in (d_trunc sec, if n < 0 then 0 else if n > 999999999 then 999999999 else n))"

lemma timespec_bound:
  assumes a: "fp_rat (dval ms) = Some p" and p: "0 \<le> p" "p \<le> 2 ^ 40"
  shows "of_int (fst (timespec ms)) * 10 ^ 9 + of_int (snd (timespec ms)) \<le> p * 10 ^ 6 + 250"
proof -
  obtain y where y: "fp_rat (dval (d_div ms (d_of_int 1000))) = Some y" "0 \<le> y" "1000 * y \<le> p * (1 + 1 / 2 ^ 52) + 1 / 10 ^ 6"
    using d_div_1000_near [OF a p] .
  define k where "k = \<lfloor>y\<rfloor>"
  have k: "0 \<le> k" "of_int k \<le> y" using y(2) by (simp_all add: k_def)
  define sec where "sec = d_floor (d_div ms (d_of_int 1000))"
  have sec: "fp_rat (dval sec) = Some (of_int k)" using d_floor_exact [OF y(1)] by (simp add: sec_def k_def)
  have over: "1000 * of_int k \<le> p + (246 / 10 ^ 6 :: rat)" using k y(3) p by (simp add: field_simps)
  have small: "1000 * k < 2 ^ 53"
  proof -
    have "(of_int (1000 * k) :: rat) < of_int (2 ^ 53)" using over p by simp
    then show ?thesis by (simp only: of_int_less_iff)
  qed
  have num: "fp_rat (dval (d_of_int 1000)) = Some 1000" "fp_rat (dval (d_of_int 1000000)) = Some 1000000"
    using d_of_int_rat_small [of 1000] d_of_int_rat_small [of 1000000] by simp_all
  have sm: "fp_rat (dval (d_mul sec (d_of_int 1000))) = Some (of_int (1000 * k))"
  proof -
    have "has_double (of_int k * 1000)" by (rule has_doubleI [of "1000 * k" 0]) (use small k in simp_all)
    then show ?thesis using d_mul_exact [OF sec num(1)] by (simp add: mult.commute)
  qed
  define r where "r = p - of_int (1000 * k)"
  have rp: "\<bar>r\<bar> \<le> p" "- (246 / 10 ^ 6) \<le> r"
  proof -
    show l: "- (246 / 10 ^ 6) \<le> r" using over by (simp add: r_def)
    show "\<bar>r\<bar> \<le> p"
    proof (cases "k = 0")
      case True
      then show ?thesis using p by (simp add: r_def)
    next
      case False
      then have "(1000 :: rat) \<le> 1000 * of_int k" using k(1) by simp
      then have "1 \<le> p" using over by simp
      then show ?thesis using l k(1) by (auto simp: r_def abs_le_iff)
    qed
  qed
  have rd: "fp_rat (dval (d_sub ms (d_mul sec (d_of_int 1000)))) = Some r"
    using d_sub_exact [OF a sm] has_double_rest [OF a p k(1)] rp by (simp add: r_def)
  have "\<bar>r\<bar> * 1000000 \<le> 2 ^ 64" using rp(1) p by simp
  then obtain w where w: "fp_rat (dval (d_mul (d_sub ms (d_mul sec (d_of_int 1000))) (d_of_int 1000000))) = Some (if r < 0 then - w else w)"
      "0 \<le> w" "w \<le> \<bar>r\<bar> * 1000000 * (1 + 1 / 2 ^ 53) + 2 powi (- 1075)"
    using d_mul_near [OF rd num(2)] by auto
  define n where "n = d_trunc (d_mul (d_sub ms (d_mul sec (d_of_int 1000))) (d_of_int 1000000))"
  have nt: "n = rat_trunc (if r < 0 then - w else w)" using d_trunc_rat [OF w(1)] by (simp add: n_def)
  have ts: "timespec ms = (k, if n < 0 then 0 else if n > 999999999 then 999999999 else n)"
    using d_trunc_rat [OF sec] by (simp add: timespec_def n_def sec_def Let_def)
  have n0: "(if n < 0 then 0 else if n > 999999999 then 999999999 else n) \<le> max 0 n" by simp
  have m0: "(of_int (max 0 n) :: rat) \<le> max 0 r * 1000000 * (1 + 1 / 2 ^ 53) + 1 / 10 ^ 9"
  proof (cases "0 < n")
    case False
    then show ?thesis by simp
  next
    case True
    then have "of_int n \<le> (if r < 0 then - w else w)" using rat_trunc_le [of "if r < 0 then - w else w"] unfolding nt by linarith
    moreover have "\<not> r < 0"
    proof
      assume "r < 0"
      then have "(of_int n :: rat) \<le> 0" using calculation w(2) by simp
      then show False using True by simp
    qed
    ultimately show ?thesis using w(3) tiny(1) True by simp
  qed
  have b: "(of_int (if n < 0 then 0 else if n > 999999999 then 999999999 else n) :: rat)
      \<le> max 0 r * 1000000 * (1 + 1 / 2 ^ 53) + 1 / 10 ^ 9"
    by (rule order_trans [OF iffD2 [OF of_int_le_iff n0] m0])
  have mr: "max 0 r \<le> r + 246 / 10 ^ 6" "max 0 r \<le> 2 ^ 40" using rp p by (auto simp: max_def)
  show ?thesis unfolding ts fst_conv snd_conv using b mr p over
    by (cases "0 \<le> r") (simp_all add: r_def max_def field_simps)
qed

definition sleep_ends_by :: "int \<Rightarrow> int \<Rightarrow> double \<Rightarrow> bool" where
  "sleep_ends_by s n ms =
     (case fp_rat (dval ms) of
        None \<Rightarrow> True
      | Some p \<Rightarrow> 0 \<le> p \<and> p \<le> 2 ^ 40 \<longrightarrow> of_int s * 10 ^ 9 + of_int n \<le> p * 10 ^ 6 + 250)"

text \<open>A sleep that ends by a time which is no later than the deadline ends by the deadline.\<close>

lemma sleep_by_due:
  assumes "sleep_ends_by s n wake" "\<not> d_less due wake" "fp_rat (dval wake) = Some p" "fp_rat (dval due) = Some q"
    and "0 \<le> p" "q \<le> 2 ^ 40"
  shows "of_int s * 10 ^ 9 + of_int n \<le> q * 10 ^ 6 + (250 :: rat)"
proof -
  have "p \<le> q" using assms(2) fp_less_rat [OF assms(4,3)] by (simp add: d_less_def)
  moreover have "of_int s * 10 ^ 9 + of_int n \<le> p * 10 ^ 6 + (250 :: rat)"
    using assms(1,3,5,6) calculation by (simp add: sleep_ends_by_def)
  ultimately show ?thesis by simp
qed

lemma wait_until_sleep:
  "\<exists>s n. wd_thread (lj52_wd_wait_until now due W) = TSleeping s n
     \<and> sleep_ends_by s n (wd_wake (lj52_wd_wait_until now due W))"
proof -
  let ?ms = "if d_less (d_add now LJ52_WD_MAXWAIT_MS) due then d_add now LJ52_WD_MAXWAIT_MS else due"
  have "wd_thread (lj52_wd_wait_until now due W) = TSleeping (fst (timespec ?ms)) (snd (timespec ?ms))"
    "wd_wake (lj52_wd_wait_until now due W) = ?ms"
    by (simp_all add: lj52_wd_wait_until_def timespec_def Let_def)
  moreover have "sleep_ends_by (fst (timespec ?ms)) (snd (timespec ?ms)) ?ms"
    using timespec_bound [of ?ms] by (auto simp: sleep_ends_by_def split: option.splits)
  ultimately show ?thesis by simp
qed

section \<open>The invariant\<close>

text \<open>The thread exists exactly while \<open>wd_started\<close>; parked it owes nothing, asleep its sleep ends by
  \<open>wd_wake\<close>, which is no later than the deadline; a hook bit implies a hook function; a live entry has its function in the
  registry.\<close>

fun thread_ok :: "tmode \<Rightarrow> double \<Rightarrow> double \<Rightarrow> bool" where
  "thread_ok TAwake wake due = True"
| "thread_ok TParked wake due = (d_eq wake d_zero \<and> d_eq due d_zero)"
| "thread_ok (TSleeping s n) wake due = (sleep_ends_by s n wake \<and> (d_eq due d_zero \<or> \<not> d_less due wake))"
| "thread_ok TNone wake due = False"
| "thread_ok TExited wake due = False"

definition wd_ok :: "wd \<Rightarrow> bool" where
  "wd_ok W =
     (wd_depth W \<le> LJ52_WD_MAXDEPTH \<and> (\<forall>i. wd_skip W i \<le> LJ52_WD_SKIPMAX)
      \<and> wd_mtx W = wd_started W \<and> wd_cv W = wd_started W
      \<and> (if wd_started W then \<not> wd_quit W \<and> thread_ok (wd_thread W) (wd_wake W) (wd_due W) else wd_thread W = TNone)
      \<and> (hk_mask W \<longrightarrow> hk_f W \<noteq> HookNone) \<and> (wd_depth W > 0 \<longrightarrow> reg_fn W \<noteq> None))"

lemma thread_ok_cancel: "thread_ok t wake due \<Longrightarrow> thread_ok t wake d_zero"
  by (cases t) auto

named_theorems wd_keeps \<open>operations that keep the watchdog's invariant\<close>

lemmas wd_defs = sethook_wd_def sethook_none_def lj52_wd_inject_def wd_wakeup_def wd_push_def wd_heal_def

lemma hook_ok [wd_keeps]: "wd_ok W \<Longrightarrow> wd_ok (snd (lj52_wd_hook L W))"
  by (auto simp: lj52_wd_hook_def wd_ok_def Let_def split: option.splits)

lemma wakeup_ok [wd_keeps]: "wd_ok W \<Longrightarrow> wd_ok (wd_wakeup W)"
  by (auto simp: wd_ok_def wd_wakeup_def split: tmode.splits if_splits)

lemma cancel_ok [wd_keeps]: "wd_ok W \<Longrightarrow> wd_ok (lj52_wd_cancel W)"
  by (auto simp: wd_ok_def lj52_wd_cancel_def intro: thread_ok_cancel)

lemma heal_ok [wd_keeps]: "wd_ok W \<Longrightarrow> wd_ok (wd_heal W)"
  by (auto simp: wd_ok_def wd_heal_def Let_def sethook_none_def split: tmode.splits)

lemma wait_until_wake:
  "\<not> d_less due (wd_wake (lj52_wd_wait_until now due W))"
  by (auto simp: lj52_wd_wait_until_def Let_def dest: d_less_asym)

lemma wait_until_frame:
  "lj52_wd_wait_until now due W =
     W\<lparr>wd_wake := wd_wake (lj52_wd_wait_until now due W),
       wd_thread := wd_thread (lj52_wd_wait_until now due W)\<rparr>"
  by (simp add: lj52_wd_wait_until_def Let_def)

lemma wait_until_ok: "wd_ok W \<Longrightarrow> wd_started W \<Longrightarrow> wd_ok (lj52_wd_wait_until now (wd_due W) W)"
  using wait_until_wake [of "wd_due W" now W] wait_until_sleep [of now "wd_due W" W]
  by (subst wait_until_frame) (auto simp: wd_ok_def)

lemma pass_ok [wd_keeps]: "wd_ok W \<Longrightarrow> wd_thread W = TAwake \<Longrightarrow> wd_ok (lj52_wd_pass now now2 W)"
  using wait_until_ok [of W now2]
  by (auto simp: lj52_wd_pass_def wd_ok_def Let_def lj52_wd_inject_def split: if_splits)

lemma program_ok [wd_keeps]: "wd_ok W \<Longrightarrow> wd_ok (lj52_wd_program now W)"
  by (auto simp: lj52_wd_program_def wd_ok_def wd_wakeup_def sethook_wd_def Let_def
      split: tmode.splits if_splits)

lemma push_ok:
  "wd_ok W \<Longrightarrow> wd_depth W < LJ52_WD_MAXDEPTH \<Longrightarrow> reg_fn W \<noteq> None \<Longrightarrow> wd_ok (wd_push dl co L W)"
  by (auto simp: wd_push_def wd_ok_def Let_def)

lemma reg_ok: "wd_ok W \<Longrightarrow> wd_ok (W\<lparr>reg_fn := Some f\<rparr>)"
  by (simp add: wd_ok_def)

lemma arm_push_ok: "wd_ok W \<Longrightarrow> wd_ok (snd (wd_arm_push ok L now now2 secs f co W))"
  by (simp add: wd_arm_push_def Let_def program_ok push_ok reg_ok)

lemma arm_push_bounds:
  "wd_depth W < LJ52_WD_MAXDEPTH \<Longrightarrow> fst (wd_arm_push ok L now now2 secs f co W) \<noteq> Inl (ErrBounds d)"
  by (simp add: wd_arm_push_def Let_def)

section \<open>The steps\<close>

text \<open>A Lua call of arm or disarm, the hook running on a thread, a pass of the timer thread, the end of
  its wait, \<open>debug.sethook\<close> of the host's, and the race the code describes: a plain
  read-modify-write of the Lua thread drops the count bit.\<close>

type_synonym wstate = "wd \<times> mem \<times> gstate"

inductive timer_step :: "wd \<Rightarrow> wd \<Rightarrow> bool" where
  Pass: "wd_thread W = TAwake \<Longrightarrow> timer_step W (lj52_wd_pass now now2 W)"
| Wakeup: "timer_step W (wd_wakeup W)"

inductive wd_step :: "wstate \<Rightarrow> wstate \<Rightarrow> bool" where
  Arm: "lj52_wd_arm E L A now now2 (Some W, M, g) = (r, Some W', M', g') \<Longrightarrow> wd_step (W, M, g) (W', M', g')"
| Disarm: "lj52_wd_disarm now tok (Some W) = (r, Some W') \<Longrightarrow>
    wd_step (W, M, g) (W', wd_mirror W' M, g)"
| Hook: "lj52_wd_hook L W = (a, W') \<Longrightarrow> wd_step (W, M, g) (W', M, g)"
| Timer: "timer_step W W' \<Longrightarrow> wd_step (W, M, g) (W', M, g)"
| Sethook: "f \<noteq> HookNone \<Longrightarrow> wd_step (W, M, g) (W\<lparr>hk_f := f, hk_count := n, hk_mask := b\<rparr>, M, g)"
| LostBit: "wd_step (W, M, g) (W\<lparr>hk_mask := False\<rparr>, M, g)"
| Machine: "m_depth M' = m_depth M \<Longrightarrow> m_by0 M' = m_by0 M \<Longrightarrow> wd_step (W, M, g) (W, M', g')"

inductive_cases timer_stepE: "timer_step W W'"
inductive_simps wd_step_simps: "wd_step (W, M, g) (W', M', g')"

definition wd_init :: "wstate \<Rightarrow> bool" where
  "wd_init = (\<lambda>(W, M, g). \<exists>P. W = lj52_wd_start P wd0 \<and> M = mem0\<lparr>m_L := True\<rparr>)"

definition wd_inv :: "wstate \<Rightarrow> bool" where
  "wd_inv = (\<lambda>(W, M, g). wd_ok W \<and> m_depth M = wd_depth W \<and> (wd_depth W > 0 \<longrightarrow> m_by0 M = wd_by W 0))"

lemma timer_ok: "timer_step W W' \<Longrightarrow> wd_ok W \<Longrightarrow> wd_ok W'"
  by (auto elim!: timer_stepE intro: wd_keeps)

lemma timer_frame:
  "timer_step W W' \<Longrightarrow> wd_depth W' = wd_depth W \<and> wd_by W' = wd_by W \<and> wd_stack W' = wd_stack W
     \<and> wd_for W' = wd_for W \<and> wd_started W' = wd_started W \<and> reg_fn W' = reg_fn W"
  by (erule timer_stepE)
     (auto simp: lj52_wd_pass_def wd_wakeup_def lj52_wd_inject_def lj52_wd_wait_until_def Let_def split: tmode.splits)

lemma start_ok: "wd_ok (lj52_wd_start P wd0)"
  by (simp add: lj52_wd_start_def wd0_def wd_ok_def wd_start_err_mtx_def wd_start_err_cv_def Let_def
      LJ52_WD_MAXDEPTH_def LJ52_WD_SKIPMAX_def)

lemma start_depth: "wd_depth (lj52_wd_start P wd0) = 0"
  by (simp add: lj52_wd_start_def wd0_def wd_start_err_mtx_def wd_start_err_cv_def Let_def)

lemma cancel_frame [simp]:
  "wd_depth (lj52_wd_cancel W) = wd_depth W" "reg_fn (lj52_wd_cancel W) = reg_fn W"
  "wd_by (lj52_wd_cancel W) = wd_by W" "wd_started (lj52_wd_cancel W) = wd_started W"
  "wd_stack (lj52_wd_cancel W) = wd_stack W" "wd_for (lj52_wd_cancel W) = wd_for W"
  "hk_f (lj52_wd_cancel W) = hk_f W" "hk_mask (lj52_wd_cancel W) = hk_mask W"
  "wd_skip (lj52_wd_cancel W) = wd_skip W" "wd_fires (lj52_wd_cancel W) = wd_fires W"
  by (simp_all add: lj52_wd_cancel_def)

lemma heal_frame [simp]:
  "wd_depth (wd_heal W) = 0" "reg_fn (wd_heal W) = reg_fn W" "wd_started (wd_heal W) = wd_started W"
  "wd_by (wd_heal W) = wd_by W" "wd_due (wd_heal W) = wd_due W"
  by (simp_all add: wd_heal_def Let_def sethook_none_def)

lemma program_frame [simp]:
  "wd_depth (lj52_wd_program now W) = wd_depth W" "reg_fn (lj52_wd_program now W) = reg_fn W"
  "wd_by (lj52_wd_program now W) = wd_by W" "wd_started (lj52_wd_program now W) = wd_started W"
  "wd_stack (lj52_wd_program now W) = wd_stack W" "wd_for (lj52_wd_program now W) = wd_for W"
  "wd_skip (lj52_wd_program now W) = wd_skip W"
  by (simp_all add: lj52_wd_program_def Let_def sethook_wd_def wd_wakeup_def split: tmode.split)


section \<open>Every step keeps it\<close>

lemma fst_arm_push_Inr:
  "fst (wd_arm_push ok L now now2 secs f co W) = Inr n \<Longrightarrow>
     wd_depth W < LJ52_WD_MAXDEPTH \<and> n = wd_depth W + 1 \<and>
     snd (wd_arm_push ok L now now2 secs f co W) =
       lj52_wd_program now2 (wd_push (d_add now (d_mul secs (d_of_int 1000))) co L (W\<lparr>reg_fn := Some f\<rparr>))"
  by (auto simp: wd_arm_push_def Let_def wd_push_def split: if_splits)

text \<open>What an arm with good arguments does, and what one with bad ones does not.\<close>

definition arm_flush :: "wd_env \<Rightarrow> mem \<Rightarrow> gstate \<Rightarrow> mem \<times> gstate" where
  "arm_flush E M g = (if gc_flush_wanted M then lj52_gc_flushtraces (e_sizes E) (e_traces E) (e_mode_ok E) M g
                      else (M, g))"

definition arm_for :: "arm_args \<Rightarrow> nat \<Rightarrow> nat" where
  "arm_for A L = (case a_protects A of Some t \<Rightarrow> t | None \<Rightarrow> L)"

definition arm_cleared :: "bool \<Rightarrow> wd \<Rightarrow> wd" where
  "arm_cleared outermost W = (if outermost then wd_heal (lj52_wd_cancel W) else lj52_wd_cancel W)"

lemma arm_unfold:
  assumes "a_secs A = Some s" "a_fn A = Some f"
  shows "lj52_wd_arm E L A now now2 (Some W, M, g) =
    (if \<not> a_outermost A \<and> LJ52_WD_MAXDEPTH \<le> wd_depth W
     then (Inr (wd_depth W + 1), Some W, arm_flush E M g)
     else
       let p = wd_arm_push (e_reg_ok E) L now now2 (arm_secs s) f (arm_for A L) (arm_cleared (a_outermost A) W)
       in (fst p, Some (snd p), wd_mirror (snd p) (fst (arm_flush E M g)), snd (arm_flush E M g)))"
  using assms by (simp add: lj52_wd_arm_def arm_flush_def arm_for_def arm_cleared_def Let_def case_prod_beta)

lemma arm_flush_frame:
  "m_depth (fst (arm_flush E M g)) = m_depth M" "m_by0 (fst (arm_flush E M g)) = m_by0 M"
  by (simp_all add: arm_flush_def flush_acct [THEN acct_frame_eqD(9)] flush_acct [THEN acct_frame_eqD(10)])

lemma arm_cleared_ok: "wd_ok W \<Longrightarrow> wd_ok (arm_cleared b W)"
  by (simp add: arm_cleared_def heal_ok cancel_ok)

lemma arm_cleared_depth: "wd_depth (arm_cleared b W) = (if b then 0 else wd_depth W)"
  by (simp add: arm_cleared_def)

lemma mirror_inv: "wd_ok W \<Longrightarrow> wd_inv (W, wd_mirror W M, g)"
  by (simp add: wd_inv_def wd_mirror_def)

lemma arm_inv:
  assumes "wd_inv (W, M, g)"
  shows "\<exists>W'. fst (snd (lj52_wd_arm E L A now now2 (Some W, M, g))) = Some W' \<and>
    wd_inv (W', snd (snd (lj52_wd_arm E L A now now2 (Some W, M, g))))"
    and "fst (lj52_wd_arm E L A now now2 (Some W, M, g)) \<noteq> Inl (ErrBounds d)"
proof -
  have ok: "wd_ok W" using assms by (simp add: wd_inv_def)
  have pos: "0 < LJ52_WD_MAXDEPTH" by (simp add: LJ52_WD_MAXDEPTH_def)
  consider "a_secs A = None" | "a_fn A = None" "a_secs A \<noteq> None"
    | s f where "a_secs A = Some s" "a_fn A = Some f" by (cases "a_secs A"; cases "a_fn A") auto
  then have "(\<exists>W'. fst (snd (lj52_wd_arm E L A now now2 (Some W, M, g))) = Some W' \<and>
      wd_inv (W', snd (snd (lj52_wd_arm E L A now now2 (Some W, M, g))))) \<and>
      fst (lj52_wd_arm E L A now now2 (Some W, M, g)) \<noteq> Inl (ErrBounds d)"
  proof cases
    case 3
    show ?thesis
    proof (cases "\<not> a_outermost A \<and> LJ52_WD_MAXDEPTH \<le> wd_depth W")
      case True
      then show ?thesis using assms
        by (cases "arm_flush E M g")
           (use arm_flush_frame [of E M g] in \<open>auto simp: arm_unfold [OF 3] wd_inv_def\<close>)
    next
      case False
      then have "wd_depth (arm_cleared (a_outermost A) W) < LJ52_WD_MAXDEPTH"
        using pos by (auto simp: arm_cleared_depth)
      then show ?thesis
        using False arm_push_ok [OF arm_cleared_ok [OF ok]]
        by (auto simp: arm_unfold [OF 3] Let_def arm_push_bounds mirror_inv)
    qed
  qed (use assms in \<open>auto simp: lj52_wd_arm_def\<close>)
  then show "\<exists>W'. fst (snd (lj52_wd_arm E L A now now2 (Some W, M, g))) = Some W' \<and>
      wd_inv (W', snd (snd (lj52_wd_arm E L A now now2 (Some W, M, g))))"
    and "fst (lj52_wd_arm E L A now now2 (Some W, M, g)) \<noteq> Inl (ErrBounds d)" by blast+
qed

text \<open>\<open>disarm\<close> in one expression: what it cuts the depth to, the hook cleared, the deadline of the
  level below programmed.\<close>

definition disarm_cut :: "int \<Rightarrow> wd \<Rightarrow> wd" where
  "disarm_cut to W =
     (let to = (if to < 0 then 0 else to);
          W = lj52_wd_cancel W;
          W = (if hk_f W \<noteq> HookNone then sethook_none W else W)
      in if to < int (wd_depth W) then W\<lparr>wd_depth := nat to\<rparr> else W)"

lemma disarm_unfold:
  "lj52_wd_disarm now tok (Some W) =
     (case disarm_to tok W of None \<Rightarrow> (Inl ErrNumber, Some W)
      | Some to \<Rightarrow>
          let C = disarm_cut to W
          in (Inr (), Some (if wd_depth C = 0 then C\<lparr>reg_fn := None\<rparr> else lj52_wd_program now C)))"
  by (simp add: lj52_wd_disarm_def disarm_cut_def Let_def split: option.split)

lemma disarm_cut_frame [simp]:
  "wd_depth (disarm_cut to W) = min (wd_depth W) (nat to)" "wd_by (disarm_cut to W) = wd_by W"
  "wd_stack (disarm_cut to W) = wd_stack W" "wd_for (disarm_cut to W) = wd_for W"
  "wd_skip (disarm_cut to W) = wd_skip W" "hk_f (disarm_cut to W) = HookNone"
  "reg_fn (disarm_cut to W) = reg_fn W" "wd_started (disarm_cut to W) = wd_started W"
  by (auto simp: disarm_cut_def Let_def sethook_none_def)

lemma disarm_cut_hook: "wd_ok W \<Longrightarrow> \<not> hk_mask (disarm_cut to W)"
  by (auto simp: disarm_cut_def Let_def sethook_none_def wd_ok_def lj52_wd_cancel_def)

lemma disarm_cut_due: "wd_started W \<Longrightarrow> wd_due (disarm_cut to W) = d_zero"
  by (simp add: disarm_cut_def Let_def sethook_none_def lj52_wd_cancel_def)

lemma disarm_cut_ok: "wd_ok W \<Longrightarrow> wd_ok (disarm_cut to W)"
  using cancel_ok [of W] by (auto simp: disarm_cut_def Let_def sethook_none_def wd_ok_def)

lemma disarm_ok:
  "wd_ok W \<Longrightarrow> snd (lj52_wd_disarm now tok (Some W)) = Some W' \<Longrightarrow> wd_ok W'"
  using disarm_cut_ok [of W]
  by (auto simp: disarm_unfold Let_def program_ok wd_ok_def [of "_\<lparr>reg_fn := _\<rparr>"] wd_ok_def [of "disarm_cut _ _"]
      split: option.splits if_splits)

lemma wd_init_inv: "wd_init s \<Longrightarrow> wd_inv s"
  by (auto simp: wd_init_def wd_inv_def start_ok start_depth mem0_def)

lemma wd_inv_step: "wd_step s t \<Longrightarrow> wd_inv s \<Longrightarrow> wd_inv t"
proof (induction rule: wd_step.induct)
  case (Arm E L A now now2 W M g r W' M' g')
  then show ?case using arm_inv(1) [of W M g E L A now now2] by simp
next
  case (Disarm now tok W r W' M g)
  then show ?case using disarm_ok [of W now tok W'] by (simp add: wd_inv_def wd_mirror_def)
next
  case (Hook L W a W' M g)
  then have "W' = snd (lj52_wd_hook L W)" by simp
  moreover have "wd_depth (snd (lj52_wd_hook L W)) = wd_depth W \<and> wd_by (snd (lj52_wd_hook L W)) = wd_by W"
    by (simp add: lj52_wd_hook_def Let_def split: option.split)
  ultimately show ?case using Hook hook_ok [of W L] by (simp add: wd_inv_def)
next
  case (Timer W W' M g)
  then show ?case using timer_ok [of W W'] timer_frame [of W W'] by (simp add: wd_inv_def)
qed (simp_all add: wd_inv_def wd_ok_def)

interpretation wdm: machine wd_init wd_step wd_inv
  by unfold_locales (auto intro: wd_init_inv wd_inv_step)


section \<open>Properties\<close>

lemma reachable_ok: "reachable wd_init wd_step (W, M, g) \<Longrightarrow> wd_ok W"
  using wdm.reachable_inv by (fastforce simp: wd_inv_def)

text \<open>C32: the four arrays of a machine's record are never written past their end: in every reachable
  state the nesting is at most \<open>LJ52_WD_MAXDEPTH\<close>, no arm, whatever its arguments, writes
  outside, no skip count passes its budget, and the collector reads the watchdog's own depth and
  arming thread.\<close>

theorem watchdog_bounds:
  assumes "reachable wd_init wd_step (W, M, g)"
  shows "wd_depth W \<le> 256 \<and> (\<forall>i. wd_skip W i \<le> 64)
    \<and> (\<forall>E L A now now2 d. fst (lj52_wd_arm E L A now now2 (Some W, M, g)) \<noteq> Inl (ErrBounds d))
    \<and> m_depth M = wd_depth W \<and> (wd_depth W > 0 \<longrightarrow> m_by0 M = wd_by W 0)"
  using wdm.reachable_inv [OF assms] arm_inv(2) [of W M g]
  by (auto simp: wd_inv_def wd_ok_def LJ52_WD_MAXDEPTH_def LJ52_WD_SKIPMAX_def)

definition pth_ok :: pth where
  "pth_ok = \<lparr>p_mutex_init = True, p_condattr_init = True, p_setclock = True, p_cond_init = True,
     p_attr_init = True, p_create = True\<rparr>"

definition wd_started0 :: wd where "wd_started0 = lj52_wd_start pth_ok wd0"
definition mem_started0 :: mem where "mem_started0 = mem0\<lparr>m_L := True\<rparr>"

definition env0 :: wd_env where
  "env0 = \<lparr>e_sizes = \<lparr>sz_trace = 0, sz_ins = 0, sz_snap = 0, sz_snapentry = 0\<rparr>, e_traces = [],
     e_mode_ok = True, e_reg_ok = True\<rparr>"

definition arm1 :: arm_args where
  "arm1 = \<lparr>a_secs = Some (d_of_int 1), a_fn = Some 7, a_outermost = True, a_protects = Some 2\<rparr>"

abbreviation t1000 :: double where "t1000 \<equiv> d_of_int 1000"

lemma reachable_start: "reachable wd_init wd_step (wd_started0, mem_started0, g)"
  by (rule reachable.Init) (auto simp: wd_init_def wd_started0_def mem_started0_def)

theorem watchdog_bounds_witness:
  "wd_depth wd_started0 \<le> 256 \<and>
   fst (lj52_wd_arm env0 1 arm1 t1000 t1000 (Some wd_started0, mem_started0, g_idle)) \<noteq> Inl (ErrBounds 256)"
  using watchdog_bounds [OF reachable_start [of g_idle]] by blast

text \<open>C28: no wake-up is lost: whenever a deadline is programmed in a reachable state with a timer thread,
  the thread is about to take a pass of its loop or asleep, and then the time it handed to
  \<open>pthread_cond_timedwait\<close> (\<open>s\<close> seconds and \<open>n\<close> nanoseconds) is by \<open>wd_wake\<close>, which is no later
  than the deadline: in nanoseconds it exceeds the deadline by at most 250, what the roundings of the
  conversion cost in the first \<open>2 ^ 40\<close> milliseconds of the clock. A pass at or after the deadline
  installs the hook on every instruction and owes its re-fire, even if the Lua thread's
  read-modify-write dropped the bit before.\<close>

theorem deadline_not_lost:
  assumes "reachable wd_init wd_step (W, M, g)" "wd_started W" "\<not> d_eq (wd_due W) d_zero"
  shows "(wd_thread W = TAwake \<or> (\<exists>s n. wd_thread W = TSleeping s n \<and> \<not> d_less (wd_due W) (wd_wake W)
        \<and> (\<forall>p q. fp_rat (dval (wd_wake W)) = Some p \<and> fp_rat (dval (wd_due W)) = Some q \<and> 0 \<le> p \<and> q \<le> 2 ^ 40 \<longrightarrow>
             of_int s * 10 ^ 9 + of_int n \<le> p * 10 ^ 6 + 250 \<and> of_int s * 10 ^ 9 + of_int n \<le> q * 10 ^ 6 + 250)))
    \<and> wd_thread (wd_wakeup W) = TAwake
    \<and> (\<not> d_less now (wd_due W) \<longrightarrow>
         (let W' = lj52_wd_pass now now2 (wd_wakeup W)
          in hk_f W' = HookWd \<and> hk_count W' = 1 \<and> hk_mask W' \<and> wd_thread W' = TAwake
             \<and> wd_due W' = d_add now (d_of_int 50)
             \<and> wd_fires W' + wd_refires W' = wd_fires W + wd_refires W + 1))"
proof -
  note ok = reachable_ok [OF assms(1)]
  have fire: "wd_thread (wd_wakeup W) = TAwake
    \<and> (\<not> d_less now (wd_due W) \<longrightarrow>
         (let W' = lj52_wd_pass now now2 (wd_wakeup W)
          in hk_f W' = HookWd \<and> hk_count W' = 1 \<and> hk_mask W' \<and> wd_thread W' = TAwake
             \<and> wd_due W' = d_add now (d_of_int 50)
             \<and> wd_fires W' + wd_refires W' = wd_fires W + wd_refires W + 1))"
    using ok assms(2,3)
    by (cases "wd_thread W")
       (auto simp: wd_ok_def wd_wakeup_def lj52_wd_pass_def lj52_wd_inject_def Let_def LJ52_WD_REFIRE_MS_def)
  show ?thesis
  proof (cases "wd_thread W = TAwake")
    case True
    then show ?thesis using fire by blast
  next
    case False
    then obtain s n where t: "wd_thread W = TSleeping s n" "sleep_ends_by s n (wd_wake W)" "\<not> d_less (wd_due W) (wd_wake W)"
      using ok assms(2,3) by (cases "wd_thread W") (auto simp: wd_ok_def)
    have "of_int s * 10 ^ 9 + of_int n \<le> p * 10 ^ 6 + (250 :: rat) \<and> of_int s * 10 ^ 9 + of_int n \<le> q * 10 ^ 6 + (250 :: rat)"
      if "fp_rat (dval (wd_wake W)) = Some p \<and> fp_rat (dval (wd_due W)) = Some q \<and> 0 \<le> p \<and> q \<le> 2 ^ 40" for p q
      using sleep_by_due [OF t(2,3), of p q] sleep_by_due [OF t(2) d_less_irrefl, of p p] that
        fp_less_rat [of "dval (wd_due W)" q "dval (wd_wake W)" p] t(3) by (auto simp: d_less_def)
    then show ?thesis using fire t(1,3) by blast
  qed
qed

lemma arm1_args: "a_secs arm1 = Some (d_of_int 1)" "a_fn arm1 = Some 7"
  by (simp_all add: arm1_def)

text \<open>The machine after one arm of a second at time 0.\<close>

definition after_arm1 :: "(wd_err + nat) \<times> wd option \<times> mem \<times> gstate" where
  "after_arm1 = lj52_wd_arm env0 1 arm1 t1000 t1000 (Some wd_started0, mem_started0, g_idle)"

definition wd_armed1 :: wd where "wd_armed1 = the (fst (snd after_arm1))"

lemma after_arm1: "after_arm1 = (fst after_arm1, Some wd_armed1, snd (snd after_arm1))"
  using arm_inv(1) [of wd_started0 mem_started0 g_idle env0 1 arm1 t1000 t1000]
    wdm.reachable_inv [OF reachable_start [of g_idle]]
  by (auto simp: after_arm1_def wd_armed1_def prod_eq_iff)

lemma reachable_armed1: "\<exists>M g. reachable wd_init wd_step (wd_armed1, M, g)"
  using reachable.Step [OF reachable_start [of g_idle] wd_step.Arm] after_arm1
  by (metis after_arm1_def prod.collapse)

lemma armed1_state: "wd_started wd_armed1" "wd_due wd_armed1 = d_of_int 2005" "\<not> d_eq (wd_due wd_armed1) d_zero"
  "wd_depth wd_armed1 = 1" "wd_thread wd_armed1 = TAwake" "hk_f wd_armed1 = HookNone"
proof -
  have v: "wd_armed1 = snd (wd_arm_push True 1 t1000 t1000 (arm_secs (d_of_int 1)) 7 2 (arm_cleared True wd_started0))"
    by (simp add: wd_armed1_def after_arm1_def arm_unfold [OF arm1_args] Let_def arm_for_def) (simp add: arm1_def env0_def)
  have st: "arm_cleared True wd_started0 = wd_started0"
    by (simp add: arm_cleared_def wd_started0_def lj52_wd_start_def wd0_def pth_ok_def lj52_wd_cancel_def wd_heal_def Let_def)
  have f: "d_add t1000 (d_mul (arm_secs (d_of_int 1)) t1000) = d_of_int 2000"
    by (simp add: arm_secs_def d_le_def d_zero_less) code_simp
  have g: "d_sub (d_of_int 2000) t1000 = t1000" "d_less t1000 LJ52_WD_MAXMS"
    "d_add (d_of_int 2000) (d_of_int 5) = d_of_int 2005" by code_simp+
  have z: "d_less d_zero t1000" "\<not> d_eq (d_of_int 2005) d_zero"
    by (simp_all only: d_zero_less d_eq_zero_iff) code_simp+
  note w = v [unfolded st] wd_arm_push_def wd_push_def lj52_wd_program_def wd_top_def f g z wd_started0_def
    lj52_wd_start_def wd0_def pth_ok_def Let_def LJ52_WD_MAXDEPTH_def wd_wakeup_def
  show "wd_started wd_armed1" "wd_due wd_armed1 = d_of_int 2005" "\<not> d_eq (wd_due wd_armed1) d_zero"
    "wd_depth wd_armed1 = 1" "wd_thread wd_armed1 = TAwake" "hk_f wd_armed1 = HookNone"
    by (simp_all add: w)
qed

theorem deadline_not_lost_witness:
  "hk_f (lj52_wd_pass (d_of_int 2005) 0 (wd_wakeup wd_armed1)) = HookWd"
proof -
  have "\<not> d_less (d_of_int 2005) (wd_due wd_armed1)" by (simp add: armed1_state)
  then show ?thesis
    using deadline_not_lost [OF _ armed1_state(1) armed1_state(3), of _ _ "d_of_int 2005" 0] reachable_armed1
    by (auto simp: Let_def)
qed

lemma hook_skipped:
  "fst (lj52_wd_hook L W) = Skipped \<Longrightarrow>
     \<exists>i. armed_entry L W = Some i \<and> wd_skip W i < LJ52_WD_SKIPMAX \<and>
       snd (lj52_wd_hook L W) = W\<lparr>wd_skip := (wd_skip W)(i := wd_skip W i + 1), wd_filtered := wd_filtered W + 1\<rparr>"
  by (auto simp: lj52_wd_hook_def Let_def split: option.splits if_splits)

lemma hook_answers:
  assumes "reg_fn W = Some f"
  shows "fst (lj52_wd_hook L W) = Called f \<or> fst (lj52_wd_hook L W) = Skipped"
  using assms by (auto simp: lj52_wd_hook_def Let_def split: option.splits)

lemma hook_calls_within:
  assumes "reg_fn W = Some f"
    and "case armed_entry L W of None \<Rightarrow> True | Some i \<Rightarrow> LJ52_WD_SKIPMAX \<le> wd_skip W i + n"
  shows "\<exists>k \<le> n. fst (lj52_wd_hook L (((\<lambda>V. snd (lj52_wd_hook L V)) ^^ k) W)) = Called f"
  using assms
proof (induction n arbitrary: W)
  case 0
  then show ?case using hook_answers [OF 0(1), of L] hook_skipped [of L W] by (fastforce split: option.splits)
next
  case (Suc n)
  show ?case
  proof (cases "fst (lj52_wd_hook L W) = Called f")
    case True
    then show ?thesis by (intro exI [of _ 0]) simp
  next
    case False
    then obtain i where i: "armed_entry L W = Some i"
      "snd (lj52_wd_hook L W) = W\<lparr>wd_skip := (wd_skip W)(i := wd_skip W i + 1), wd_filtered := wd_filtered W + 1\<rparr>"
      using hook_answers [OF Suc.prems(1), of L] hook_skipped [of L W] by blast
    let ?V = "snd (lj52_wd_hook L W)"
    have "armed_entry L ?V = Some i" using i by (simp add: armed_entry_def)
    then have "\<exists>k \<le> n. fst (lj52_wd_hook L (((\<lambda>V. snd (lj52_wd_hook L V)) ^^ k) ?V)) = Called f"
      using Suc.prems i by (intro Suc.IH) (simp_all add: i(2))
    then show ?thesis by (metis Suc_le_mono funpow_Suc_right comp_apply)
  qed
qed

text \<open>C31: while a parent only waits to disarm, the fires that reach it are skipped, but a leaked entry
  cannot make it uninterruptible: on any thread, from any reachable state with an armed entry, the
  armed function is called within the first 65 runs of the hook; and it is called at once on the thread
  the top entry protects and on a thread that armed nothing.\<close>

theorem hook_fires:
  assumes "reachable wd_init wd_step (W, M, g)" "wd_depth W > 0"
  shows "\<exists>f. reg_fn W = Some f
    \<and> (\<exists>k \<le> 64. fst (lj52_wd_hook L (((\<lambda>V. snd (lj52_wd_hook L V)) ^^ k) W)) = Called f)
    \<and> (wd_for W (wd_depth W - 1) = L \<or> (\<forall>i < wd_depth W. wd_by W i \<noteq> L) \<longrightarrow> fst (lj52_wd_hook L W) = Called f)"
proof -
  obtain f where f: "reg_fn W = Some f"
    using reachable_ok [OF assms(1)] assms(2) by (auto simp: wd_ok_def)
  have "\<exists>k \<le> 64. fst (lj52_wd_hook L (((\<lambda>V. snd (lj52_wd_hook L V)) ^^ k) W)) = Called f"
    by (rule hook_calls_within [OF f]) (auto simp: LJ52_WD_SKIPMAX_def split: option.split)
  moreover have "armed_entry L W = None" if "\<forall>i < wd_depth W. wd_by W i \<noteq> L"
    using that by (auto simp: armed_entry_def find_None_iff)
  ultimately show ?thesis using f by (auto simp: lj52_wd_hook_def Let_def)
qed

theorem hook_fires_witness: "\<exists>f. reg_fn wd_armed1 = Some f
    \<and> (\<exists>k \<le> 64. fst (lj52_wd_hook 1 (((\<lambda>V. snd (lj52_wd_hook 1 V)) ^^ k) wd_armed1)) = Called f)"
  proof -
  have "wd_depth wd_armed1 > 0" by (simp add: armed1_state)
  then show ?thesis using reachable_armed1 hook_fires [of wd_armed1 _ _ 1] by blast
qed

definition quiet :: "wd \<Rightarrow> bool" where
  "quiet W = (hk_f W = HookNone \<and> \<not> hk_mask W \<and> (d_eq (wd_due W) d_zero \<or> wd_thread W = TNone))"

lemma pass_parks:
  "d_eq (wd_due W) d_zero \<Longrightarrow>
     lj52_wd_pass now now2 W = W\<lparr>wd_wake := d_zero, wd_thread := (if wd_quit W then TExited else TParked)\<rparr>"
  by (simp add: lj52_wd_pass_def)

lemma quiet_step: "timer_step W W' \<Longrightarrow> quiet W \<Longrightarrow> quiet W' \<and> wd_fires W' = wd_fires W \<and> wd_refires W' = wd_refires W"
  by (auto elim!: timer_stepE simp: quiet_def pass_parks wd_wakeup_def split: tmode.splits)

lemma quiet_steps: "timer_step\<^sup>*\<^sup>* W W' \<Longrightarrow> quiet W \<Longrightarrow> quiet W' \<and> wd_fires W' = wd_fires W \<and> wd_refires W' = wd_refires W"
  by (induction rule: rtranclp_induct) (auto dest: quiet_step)

text \<open>After a disarm to the bottom nothing fires: the hook is clear, the armed function is forgotten,
  and whatever the timer thread then does, and however often, it installs no hook and counts no
  fire.\<close>

theorem disarm_quiet:
  assumes "reachable wd_init wd_step (W, M, g)" "lj52_wd_disarm now tok (Some W) = (Inr (), Some V)"
    "wd_depth V = 0" "timer_step\<^sup>*\<^sup>* V V'"
  shows "hk_f V' = HookNone \<and> \<not> hk_mask V' \<and> reg_fn V = None
    \<and> wd_fires V' = wd_fires V \<and> wd_refires V' = wd_refires V"
proof -
  have ok: "wd_ok W" by (rule reachable_ok [OF assms(1)])
  obtain to where V: "V = (disarm_cut to W)\<lparr>reg_fn := None\<rparr>"
    using assms(2,3) by (auto simp: disarm_unfold Let_def split: option.splits if_splits)
  have "quiet V"
    using disarm_cut_hook [OF ok, of to] disarm_cut_due [of W to] disarm_cut_ok [OF ok, of to] ok
    by (auto simp: V quiet_def wd_ok_def)
  then show ?thesis using quiet_steps [OF assms(4)] by (auto simp: V quiet_def)
qed

theorem disarm_quiet_witness:
  "hk_f (wd_wakeup (the (snd (lj52_wd_disarm 0 NoToken (Some wd_armed1))))) = HookNone"
proof -
  let ?V = "the (snd (lj52_wd_disarm 0 NoToken (Some wd_armed1)))"
  have d: "lj52_wd_disarm 0 NoToken (Some wd_armed1) = (Inr (), Some ?V)"
    by (simp add: disarm_unfold disarm_to_def Let_def)
  have z: "wd_depth ?V = 0"
    by (simp add: disarm_unfold disarm_to_def Let_def armed1_state)
  have "timer_step\<^sup>*\<^sup>* ?V (wd_wakeup ?V)" by (rule r_into_rtranclp) (rule timer_step.Wakeup)
  then show ?thesis using reachable_armed1 disarm_quiet [OF _ d z] by blast
qed

definition defended :: "double \<Rightarrow> wd \<Rightarrow> bool" where
  "defended now W =
     (let remaining = d_sub (wd_top W) now
      in if \<not> d_less d_zero remaining then hk_f W = HookWd \<and> hk_mask W \<and> hk_count W = 1
         else if \<not> d_less remaining LJ52_WD_MAXMS then True
         else if \<not> wd_started W then hk_f W = HookWd \<and> hk_mask W \<and> hk_count W = 1000
         else wd_due W = d_add (wd_top W) (d_of_int 5) \<and> thread_ok (wd_thread W) (wd_wake W) (wd_due W)
           \<and> (wd_thread W = TParked \<longrightarrow> False))"

lemma program_defended: "wd_ok W \<Longrightarrow> defended now (lj52_wd_program now W)"
  by (auto simp: defended_def lj52_wd_program_def Let_def wd_top_def sethook_wd_def wd_ok_def wd_wakeup_def
      split: tmode.splits)

lemma program_top [simp]: "wd_top (lj52_wd_program now W) = wd_top W"
  by (simp add: wd_top_def)

text \<open>C29: an arm leaves no window: an outermost arm from any reachable state answers the token 1 with
  exactly one entry, whatever resumes before it leaked, and a nested one answers one more than the
  depth; its entry has a fresh skip budget and every enclosing entry is as it was; and the new
  deadline is defended, by the count hook at once (a deadline already past, a NaN) or the standing
  hook (no timer thread), or by the timer programmed 5 ms past the deadline with its thread woken in
  time, unless the deadline is 49 days away or more.\<close>

theorem arm_defends:
  assumes "reachable wd_init wd_step (W, M, g)" "a_secs A = Some s" "a_fn A = Some f"
    "a_outermost A \<or> wd_depth W < 256" "e_reg_ok E"
    "lj52_wd_arm E L A now now2 (Some W, M, g) = (r, Some V, M', g')"
  shows "r = Inr (wd_depth V) \<and> wd_depth V = (if a_outermost A then 1 else wd_depth W + 1)
    \<and> reg_fn V = Some f \<and> wd_by V (wd_depth V - 1) = L \<and> wd_skip V (wd_depth V - 1) = 0
    \<and> wd_for V (wd_depth V - 1) = (case a_protects A of Some t \<Rightarrow> t | None \<Rightarrow> L)
    \<and> wd_top V = d_add now (d_mul (arm_secs s) (d_of_int 1000))
    \<and> (\<forall>i. i + 1 < wd_depth V \<longrightarrow> wd_stack V i = wd_stack W i \<and> wd_for V i = wd_for W i \<and> wd_by V i = wd_by W i
         \<and> wd_skip V i = wd_skip W i)
    \<and> defended now2 V"
proof -
  let ?C = "arm_cleared (a_outermost A) W"
  let ?P = "wd_push (d_add now (d_mul (arm_secs s) (d_of_int 1000))) (arm_for A L) L (?C\<lparr>reg_fn := Some f\<rparr>)"
  have ok: "wd_ok ?C" by (rule arm_cleared_ok [OF reachable_ok [OF assms(1)]])
  have lt: "wd_depth ?C < LJ52_WD_MAXDEPTH"
    using assms(4) by (auto simp: arm_cleared_depth LJ52_WD_MAXDEPTH_def)
  have V: "r = Inr (wd_depth V)" "V = lj52_wd_program now2 ?P"
    using assms(4,5,6) lt
    by (auto simp: arm_unfold [OF assms(2,3)] wd_arm_push_def Let_def LJ52_WD_MAXDEPTH_def split: if_splits)
  have "wd_ok ?P" using ok lt by (intro push_ok reg_ok) simp_all
  then have "defended now2 V" by (simp add: V(2) program_defended)
  moreover have "wd_depth ?P = wd_depth ?C + 1" by (simp add: wd_push_def Let_def)
  moreover have "\<not> a_outermost A \<Longrightarrow> wd_stack ?C = wd_stack W \<and> wd_for ?C = wd_for W \<and> wd_by ?C = wd_by W \<and> wd_skip ?C = wd_skip W"
    by (simp add: arm_cleared_def)
  ultimately show ?thesis using V(1)
    by (auto simp: V(2) arm_cleared_depth wd_push_def Let_def wd_top_def arm_for_def)
qed

theorem arm_defends_witness:
  "\<exists>V M' g'. lj52_wd_arm env0 1 arm1 t1000 t1000 (Some wd_started0, mem_started0, g_idle) = (Inr 1, Some V, M', g')
     \<and> wd_depth V = 1 \<and> defended t1000 V"
proof -
  obtain r V M' g' where a: "lj52_wd_arm env0 1 arm1 t1000 t1000 (Some wd_started0, mem_started0, g_idle) = (r, Some V, M', g')"
    using arm_inv(1) [of wd_started0 mem_started0 g_idle env0 1 arm1 t1000 t1000]
      wdm.reachable_inv [OF reachable_start [of g_idle]]
    by (metis prod.collapse)
  show ?thesis
    using arm_defends [OF reachable_start, of arm1 "d_of_int 1" 7 env0 1 t1000 t1000 g_idle r V M' g'] a
    by (simp add: arm1_def env0_def)
qed

lemma token_small: "n \<le> 257 \<Longrightarrow> signed_take_bit 31 (int n) = int n"
  by (rule signed_take_bit_int_eq_self) simp_all

lemma disarm_token:
  assumes "n \<le> 256" "lj52_wd_disarm now (Token (int n + 1)) (Some V) = (r, Some U)"
  shows "wd_depth U = min n (wd_depth V)" "wd_stack U = wd_stack V" "wd_by U = wd_by V" "wd_for U = wd_for V"
    "wd_depth U > 0 \<Longrightarrow> wd_ok V \<Longrightarrow> defended now U"
proof -
  have t: "signed_take_bit 31 (int n + 1) = int n + 1"
    using token_small [of "n + 1"] assms(1) by (simp add: add.commute)
  have U: "U = (if wd_depth (disarm_cut (int n) V) = 0 then (disarm_cut (int n) V)\<lparr>reg_fn := None\<rparr>
      else lj52_wd_program now (disarm_cut (int n) V))"
    using assms(2) by (simp add: disarm_unfold disarm_to_def t Let_def)
  show "wd_depth U = min n (wd_depth V)" by (simp add: U min.commute)
  show "wd_stack U = wd_stack V" "wd_by U = wd_by V" "wd_for U = wd_for V" by (simp_all add: U)
  assume "wd_depth U > 0" "wd_ok V"
  then have "wd_depth (disarm_cut (int n) V) \<noteq> 0" by (simp add: U split: if_splits)
  then show "defended now U" using \<open>wd_ok V\<close> by (simp only: U if_False program_defended disarm_cut_ok)
qed

text \<open>C30: the token discipline: whatever happened since, disarming with an arm's token leaves at most the
  levels below it, disarming at once leaves exactly them with the enclosing deadline programmed
  again, and at the cap, where arm pushes nothing, its token removes nothing.\<close>

theorem arm_disarm:
  assumes "reachable wd_init wd_step (W, M, g)" "\<not> a_outermost A"
    "lj52_wd_arm E L A now now2 (Some W, M, g) = (Inr tok, Some V, M', g')"
  shows "tok = wd_depth W + 1
    \<and> (\<forall>n3 X r U. lj52_wd_disarm n3 (Token (int tok)) (Some X) = (r, Some U) \<longrightarrow> wd_depth U \<le> wd_depth W)
    \<and> (\<forall>n3 r U. lj52_wd_disarm n3 (Token (int tok)) (Some V) = (r, Some U) \<longrightarrow>
         wd_depth U = wd_depth W \<and> (\<forall>i < wd_depth W. wd_stack U i = wd_stack W i \<and> wd_by U i = wd_by W i
           \<and> wd_for U i = wd_for W i) \<and> (wd_depth U > 0 \<longrightarrow> defended n3 U))"
proof -
  have ok: "wd_ok W" by (rule reachable_ok [OF assms(1)])
  then have le: "wd_depth W \<le> 256" by (simp add: wd_ok_def LJ52_WD_MAXDEPTH_def)
  obtain s f where sf: "a_secs A = Some s" "a_fn A = Some f"
    using assms(3) by (cases "a_secs A"; cases "a_fn A") (auto simp: lj52_wd_arm_def)
  have tok: "tok = wd_depth W + 1"
    using assms(2,3) by (auto simp: arm_unfold [OF sf] Let_def arm_cleared_depth dest: fst_arm_push_Inr split: if_splits)
  have V: "wd_depth W \<le> wd_depth V" "\<forall>i < wd_depth W. wd_stack V i = wd_stack W i \<and> wd_by V i = wd_by W i \<and> wd_for V i = wd_for W i"
    using assms(2,3)
    by (auto simp: arm_unfold [OF sf] wd_arm_push_def Let_def arm_cleared_def wd_push_def split: if_splits)
  have "wd_inv (V, M', g')"
    using arm_inv(1) [OF wdm.reachable_inv [OF assms(1)], of E L A now now2] assms(3) by simp
  then have "wd_ok V" by (simp add: wd_inv_def)
  then show ?thesis
    using disarm_token [OF le] V by (auto simp: tok algebra_simps)
qed

theorem arm_disarm_witness:
  "\<exists>tok V M' g'. lj52_wd_arm env0 1 (arm1\<lparr>a_outermost := False\<rparr>) 0 0 (Some wd_started0, mem_started0, g_idle)
      = (Inr tok, Some V, M', g') \<and> tok = wd_depth wd_started0 + 1"
proof -
  let ?a = "lj52_wd_arm env0 1 (arm1\<lparr>a_outermost := False\<rparr>) 0 0 (Some wd_started0, mem_started0, g_idle)"
  have r: "fst ?a = Inr 1"
    by (simp add: arm_unfold [of "arm1\<lparr>a_outermost := False\<rparr>" "d_of_int 1" 7, simplified] arm1_args Let_def wd_arm_push_def arm_cleared_def
                wd_push_def wd_started0_def start_depth LJ52_WD_MAXDEPTH_def env0_def)
  obtain V where V: "fst (snd ?a) = Some V"
    using arm_inv(1) wdm.reachable_inv [OF reachable_start [of g_idle]] by blast
  have a: "?a = (Inr 1, Some V, fst (snd (snd ?a)), snd (snd (snd ?a)))"
    using r V by (simp add: prod_eq_iff)
  have "1 = wd_depth wd_started0 + 1"
    using arm_disarm [OF reachable_start _ a] by simp
  then show ?thesis using a by blast
qed

text \<open>C33: the timer thread's lifetime: a start either has the mutex, the condition variable and the thread or
  none of them, whichever pthread call fails; and from every reachable state the stop returns, with the thread gone
  and both primitives destroyed.\<close>

theorem timer_lifetime:
  "(let W = lj52_wd_start P wd0 in wd_mtx W = wd_started W \<and> wd_cv W = wd_started W
      \<and> (wd_started W \<longleftrightarrow> wd_thread W = TAwake) \<and> (\<not> wd_started W \<longleftrightarrow> wd_thread W = TNone)
      \<and> (wd_started W \<longleftrightarrow> p_mutex_init P \<and> p_condattr_init P \<and> p_setclock P \<and> p_cond_init P \<and> p_attr_init P \<and> p_create P))
   \<and> (reachable wd_init wd_step (W, M, g) \<longrightarrow>
        (\<exists>V. lj52_wd_stop W = Some V \<and> \<not> wd_started V \<and> \<not> wd_mtx V \<and> \<not> wd_cv V
           \<and> wd_thread V = (if wd_started W then TExited else TNone)))"
proof -
  have "\<exists>V. lj52_wd_stop W = Some V \<and> \<not> wd_started V \<and> \<not> wd_mtx V \<and> \<not> wd_cv V
           \<and> wd_thread V = (if wd_started W then TExited else TNone)" if "wd_ok W"
    using that
    by (cases "wd_thread W") (auto simp: wd_ok_def lj52_wd_stop_def wd_wakeup_def lj52_wd_pass_def Let_def)
  then show ?thesis
    by (auto simp: lj52_wd_start_def wd0_def wd_start_err_mtx_def wd_start_err_cv_def Let_def dest: reachable_ok)
qed

theorem timer_lifetime_witness:
  "\<exists>V. lj52_wd_stop wd_started0 = Some V \<and> wd_thread V = (if wd_started wd_started0 then TExited else TNone)"
  using timer_lifetime [of pth_ok wd_started0 mem_started0 g_idle] reachable_start [of g_idle] by blast

text \<open>An arm that fails leaves no live deadline withdrawn: on a bad argument nothing moves, and the one
  failure after the cancel, no memory for a registry key that is not there yet, can only strike when
  nothing was armed.\<close>

theorem arm_failure:
  assumes "reachable wd_init wd_step (W, M, g)"
    "lj52_wd_arm E L A now now2 (Some W, M, g) = (Inl e, Some V, M', g')"
  shows "(e \<in> {ErrNumber, ErrFunction} \<and> V = W) \<or> (e = ErrMem \<and> wd_depth W = 0 \<and> wd_depth V = 0)"
proof -
  have ok: "wd_ok W" by (rule reachable_ok [OF assms(1)])
  have nb: "e \<noteq> ErrBounds d" for d
    using arm_inv(2) [OF wdm.reachable_inv [OF assms(1)], of E L A now now2 d] assms(2) by auto
  show ?thesis
  proof (cases "a_secs A = None \<or> a_fn A = None")
    case True
    then show ?thesis using assms(2) by (auto simp: lj52_wd_arm_def split: option.splits)
  next
    case False
    then obtain s f where sf: "a_secs A = Some s" "a_fn A = Some f" by auto
    then show ?thesis using assms(2) ok nb
      by (auto simp: arm_unfold [OF sf] wd_arm_push_def Let_def arm_cleared_def wd_ok_def split: if_splits)
  qed
qed

theorem arm_failure_witness:
  "\<exists>e V M' g'. lj52_wd_arm (env0\<lparr>e_reg_ok := False\<rparr>) 1 arm1 0 0 (Some wd_started0, mem_started0, g_idle)
      = (Inl e, Some V, M', g') \<and> e = ErrMem \<and> wd_depth V = 0"
proof -
  let ?a = "lj52_wd_arm (env0\<lparr>e_reg_ok := False\<rparr>) 1 arm1 0 0 (Some wd_started0, mem_started0, g_idle)"
  have "reg_fn wd_started0 = None"
    by (simp add: wd_started0_def lj52_wd_start_def wd0_def pth_ok_def Let_def)
  then have r: "fst ?a = Inl ErrMem"
    by (simp add: arm_unfold [OF arm1_args] Let_def wd_arm_push_def arm_cleared_def) (simp add: arm1_def env0_def)
  obtain V where V: "fst (snd ?a) = Some V"
    using arm_inv(1) wdm.reachable_inv [OF reachable_start [of g_idle]] by blast
  have a: "?a = (Inl ErrMem, Some V, fst (snd (snd ?a)), snd (snd (snd ?a)))"
    using r V by (simp add: prod_eq_iff)
  then show ?thesis using arm_failure [OF reachable_start a] by blast
qed

end
