(* ===== verification/ShimVgc.thy ===== *)
theory ShimVgc
  imports Machine "HOL-Library.Word"
begin

text \<open>
  native/lj52shim.c, the value finalizer: the wrapper (\<open>lj52_vgc_gc\<close>) that tells Java of every Java value Lua
  collects, its install, its counters, and its part of \<open>lj52_close\<close>. What the JVM answers to each
  JNI call of one run is a record of outcomes; the JVM keeps its tables of global and weak references,
  the local references in use and the exception pending.
\<close>

section \<open>The state\<close>

text \<open>A C function that can stand in \<open>__gc\<close>: some other one (jnlua's \<open>gcjavaobject\<close>), or the wrapper
  with its upvalue.\<close>

datatype gcfun = OtherC nat | VgcGc gcfun

datatype gcfield = GcC gcfun | GcOther

text \<open>\<open>registry[LJ52_JNLUA_OBJECT]\<close>.\<close>

datatype jobject_mt = NoTable | Meta gcfield

datatype vgc_code = LJ52_VGC_OK | LJ52_VGC_ENORECORD | LJ52_VGC_EJVM | LJ52_VGC_EREF | LJ52_VGC_EMETHOD
  | LJ52_VGC_ENOMT | LJ52_VGC_ENOGC | LJ52_VGC_ELUA

text \<open>The record's fields (\<open>lj52_mem.vgc_*\<close>).\<close>

record vgc =
  vgc_vm :: bool
  vgc_class :: "nat option"
  vgc_jstate :: "nat option"
  vgc_mid :: bool
  vgc_closing :: bool
  vgc_pcode :: vgc_code
  vgc_calls :: int
  vgc_jerr :: int
  vgc_skip_closing :: int
  vgc_skip_noenv :: int

record jvm =
  j_globals :: "nat set"
  j_weaks :: "nat set"
  j_locals :: int
  j_pending :: "nat option"
  j_next :: nat

record vworld =
  w_rec :: "vgc option"
  w_jvm :: jvm
  w_mt :: jobject_mt

section \<open>JNI\<close>

definition ExceptionClear :: "jvm \<Rightarrow> jvm" where
  "ExceptionClear J = J\<lparr>j_pending := None\<rparr>"

text \<open>A reference that cannot be made is NULL with an OutOfMemoryError pending.\<close>

definition jni_fail :: "jvm \<Rightarrow> jvm" where
  "jni_fail J = J\<lparr>j_pending := Some 0\<rparr>"

definition NewGlobalRef :: "bool \<Rightarrow> jvm \<Rightarrow> nat option \<times> jvm" where
  "NewGlobalRef done_ok J =
     (if done_ok then (Some (j_next J), J\<lparr>j_globals := insert (j_next J) (j_globals J), j_next := j_next J + 1\<rparr>)
      else (None, jni_fail J))"

definition NewWeakGlobalRef :: "bool \<Rightarrow> jvm \<Rightarrow> nat option \<times> jvm" where
  "NewWeakGlobalRef done_ok J =
     (if done_ok then (Some (j_next J), J\<lparr>j_weaks := insert (j_next J) (j_weaks J), j_next := j_next J + 1\<rparr>)
      else (None, jni_fail J))"

definition DeleteGlobalRef :: "nat \<Rightarrow> jvm \<Rightarrow> jvm" where
  "DeleteGlobalRef r J = J\<lparr>j_globals := j_globals J - {r}\<rparr>"

definition DeleteWeakGlobalRef :: "nat \<Rightarrow> jvm \<Rightarrow> jvm" where
  "DeleteWeakGlobalRef r J = J\<lparr>j_weaks := j_weaks J - {r}\<rparr>"

definition NewLocalRef :: "jvm \<Rightarrow> jvm" where
  "NewLocalRef J = J\<lparr>j_locals := j_locals J + 1\<rparr>"

definition DeleteLocalRef :: "jvm \<Rightarrow> jvm" where
  "DeleteLocalRef J = J\<lparr>j_locals := j_locals J - 1\<rparr>"

section \<open>The wrapper\<close>

text \<open>What one finalization meets: whether GetEnv knows the thread, whether the userdata holds an
  object, whether that is a Value, whether the Java state is still there, whether the callback
  throws.\<close>

record gc_env =
  ge_env :: bool
  ge_obj :: bool
  ge_inst :: bool
  ge_alive :: bool
  ge_throws :: bool

text \<open>What it does to the outside, in order: the callback into Java, the chained finalizer.\<close>

datatype vgc_ev = EvFinalized | EvChain gcfun

text \<open>The callback, with the exception it may leave cleared.\<close>

definition vgc_callback :: "gc_env \<Rightarrow> vgc \<Rightarrow> jvm \<Rightarrow> vgc \<times> jvm \<times> vgc_ev list" where
  "vgc_callback E M J =
     (let J = NewLocalRef J;
          J = (if ge_throws E then jni_fail J else J);
          (M, J) = (if j_pending J \<noteq> None then (M\<lparr>vgc_jerr := vgc_jerr M + 1\<rparr>, ExceptionClear J) else (M, J));
          J = DeleteLocalRef J
      in (M\<lparr>vgc_calls := vgc_calls M + 1\<rparr>, J, [EvFinalized]))"

definition vgc_notify :: "gc_env \<Rightarrow> vgc \<Rightarrow> jvm \<Rightarrow> vgc \<times> jvm \<times> vgc_ev list" where
  "vgc_notify E M J =
     (let pend = j_pending J;
          J = (if pend \<noteq> None then ExceptionClear (NewLocalRef J) else J);
          (M, J, evs) =
            (if ge_obj E \<and> ge_inst E \<and> ge_alive E then vgc_callback E M J else (M, J, []));
          J = (if pend \<noteq> None then DeleteLocalRef (J\<lparr>j_pending := pend\<rparr>) else J)
      in (M, J, evs))"

definition lj52_vgc_gc :: "gc_env \<Rightarrow> gcfun \<Rightarrow> vworld \<Rightarrow> vworld \<times> vgc_ev list" where
  "lj52_vgc_gc E upvalue w =
     (let (w, evs) =
        (case w_rec w of
           None \<Rightarrow> (w, [])
         | Some M \<Rightarrow>
             if vgc_closing M then (w\<lparr>w_rec := Some (M\<lparr>vgc_skip_closing := vgc_skip_closing M + 1\<rparr>)\<rparr>, [])
             else if vgc_class M \<noteq> None then
               if \<not> ge_env E then (w\<lparr>w_rec := Some (M\<lparr>vgc_skip_noenv := vgc_skip_noenv M + 1\<rparr>)\<rparr>, [])
               else
                 let (M, J, evs) = vgc_notify E M (w_jvm w)
                 in (w\<lparr>w_rec := Some M, w_jvm := J\<rparr>, evs)
             else (w, []))
      in (w, evs @ [EvChain upvalue]))"

section \<open>The install\<close>

text \<open>The protected part: what it reports and what it leaves in the metatable.\<close>

definition lj52_vgc_install_p :: "jobject_mt \<Rightarrow> vgc_code \<times> jobject_mt" where
  "lj52_vgc_install_p mt =
     (case mt of
        NoTable \<Rightarrow> (LJ52_VGC_ENOMT, mt)
      | Meta GcOther \<Rightarrow> (LJ52_VGC_ENOGC, mt)
      | Meta (GcC (VgcGc f)) \<Rightarrow> (LJ52_VGC_OK, mt)
      | Meta (GcC (OtherC f)) \<Rightarrow> (LJ52_VGC_OK, Meta (GcC (VgcGc (OtherC f)))))"

text \<open>What one install meets: env, GetJavaVM, the two references, the class, the method, and whether
  \<open>lua_cpcall\<close> came back without an error (an error is raised before the one write).\<close>

record install_env =
  ie_env :: bool
  ie_vm :: bool
  ie_gref :: bool
  ie_wref :: bool
  ie_cls :: bool
  ie_mid :: bool
  ie_cpcall :: bool

definition opt_delete :: "(nat \<Rightarrow> jvm \<Rightarrow> jvm) \<Rightarrow> nat option \<Rightarrow> jvm \<Rightarrow> jvm" where
  "opt_delete del r J = (case r of None \<Rightarrow> J | Some r \<Rightarrow> del r J)"

text \<open>After both references exist: the method, the Lua part, the swap.\<close>

definition vgc_commit :: "install_env \<Rightarrow> nat \<Rightarrow> nat \<Rightarrow> vgc \<Rightarrow> vworld \<Rightarrow> vgc_code \<times> vworld" where
  "vgc_commit E gcls wjs M w =
     (let J = w_jvm w;
          J = (if ie_cls E then NewLocalRef J else J);
          mid = (ie_cls E \<and> ie_mid E);
          J = (if mid then J else ExceptionClear (if ie_cls E then jni_fail J else J));
          J = (if ie_cls E then DeleteLocalRef J else J)
      in if \<not> mid then (LJ52_VGC_EMETHOD, w\<lparr>w_jvm := DeleteGlobalRef gcls (DeleteWeakGlobalRef wjs J)\<rparr>)
         else
           let (pcode, mt) = (if ie_cpcall E then lj52_vgc_install_p (w_mt w) else (LJ52_VGC_OK, w_mt w));
               M = M\<lparr>vgc_pcode := pcode\<rparr>;
               code = (if \<not> ie_cpcall E then LJ52_VGC_ELUA else pcode)
           in if code \<noteq> LJ52_VGC_OK
              then (code, w\<lparr>w_rec := Some M, w_jvm := DeleteGlobalRef gcls (DeleteWeakGlobalRef wjs J), w_mt := mt\<rparr>)
              else
                let oldcls = vgc_class M; oldjs = vgc_jstate M;
                    M = M\<lparr>vgc_vm := True, vgc_class := Some gcls, vgc_jstate := Some wjs, vgc_mid := True\<rparr>;
                    J = opt_delete DeleteGlobalRef oldcls J;
                    J = opt_delete DeleteWeakGlobalRef oldjs J
                in (LJ52_VGC_OK, w\<lparr>w_rec := Some M, w_jvm := J, w_mt := mt\<rparr>))"

definition lj52_vgc_install :: "install_env \<Rightarrow> vworld \<Rightarrow> vgc_code \<times> vworld" where
  "lj52_vgc_install E w =
     (case w_rec w of
        None \<Rightarrow> (LJ52_VGC_ENORECORD, w)
      | Some M \<Rightarrow>
          if \<not> ie_env E then (LJ52_VGC_EJVM, w)
          else if \<not> ie_vm E then (LJ52_VGC_EJVM, w\<lparr>w_jvm := ExceptionClear (w_jvm w)\<rparr>)
          else
            (case NewGlobalRef (ie_gref E) (w_jvm w) of
               (None, J) \<Rightarrow> (LJ52_VGC_EREF, w\<lparr>w_jvm := ExceptionClear J\<rparr>)
             | (Some gcls, J) \<Rightarrow>
                 (case NewWeakGlobalRef (ie_wref E) J of
                    (None, J) \<Rightarrow> (LJ52_VGC_EREF, w\<lparr>w_jvm := DeleteGlobalRef gcls (ExceptionClear J)\<rparr>)
                  | (Some wjs, J) \<Rightarrow> vgc_commit E gcls wjs M (w\<lparr>w_jvm := J\<rparr>))))"

text \<open>\<open>lj52_vgc_counters\<close> (and \<open>_OCLJ_VGCSTATS\<close>, which is -1 throughout without a record).\<close>

definition lj52_vgc_counters :: "vworld \<Rightarrow> int list" where
  "lj52_vgc_counters w =
     (case w_rec w of
        None \<Rightarrow> [0, 0, 0, 0, 0]
      | Some M \<Rightarrow> [vgc_calls M, vgc_jerr M, vgc_skip_closing M, vgc_skip_noenv M, of_bool (vgc_class M \<noteq> None)])"

definition lj52_vgcstats :: "vworld \<Rightarrow> int list" where
  "lj52_vgcstats w = (if w_rec w = None then [- 1, - 1, - 1, - 1, - 1] else lj52_vgc_counters w)"

section \<open>The close\<close>

text \<open>The finalizers \<open>lua_close\<close> runs, in order, each through what stands in the metatable.\<close>

fun run_finalizers :: "gc_env list \<Rightarrow> vworld \<Rightarrow> vworld \<times> vgc_ev list" where
  "run_finalizers [] w = (w, [])"
| "run_finalizers (E # Es) w =
     (case w_mt w of
        Meta (GcC (VgcGc f)) \<Rightarrow>
          (let (w, evs) = lj52_vgc_gc E f w; (w, evs') = run_finalizers Es w in (w, evs @ evs'))
      | Meta (GcC f) \<Rightarrow> (let (w, evs) = run_finalizers Es w in (w, EvChain f # evs))
      | _ \<Rightarrow> run_finalizers Es w)"

definition vgc_release :: "bool \<Rightarrow> vworld \<Rightarrow> vworld" where
  "vgc_release env_ok w =
     (case w_rec w of
        None \<Rightarrow> w
      | Some M \<Rightarrow>
          let J = w_jvm w;
              J = (if vgc_vm M \<and> env_ok
                   then opt_delete DeleteWeakGlobalRef (vgc_jstate M) (opt_delete DeleteGlobalRef (vgc_class M) J)
                   else J)
          in w\<lparr>w_rec := None, w_jvm := J\<rparr>)"

definition vgc_close :: "bool \<Rightarrow> gc_env list \<Rightarrow> vworld \<Rightarrow> vworld \<times> vgc_ev list" where
  "vgc_close env_ok Es w =
     (let w = w\<lparr>w_rec := map_option (\<lambda>M. M\<lparr>vgc_closing := True\<rparr>) (w_rec w)\<rparr>;
          (w, evs) = run_finalizers Es w
      in (vgc_release env_ok w, evs))"

section \<open>The references\<close>

definition mt_level :: "jobject_mt \<Rightarrow> bool" where
  "mt_level mt = (case mt of Meta (GcC (VgcGc (VgcGc f))) \<Rightarrow> False | _ \<Rightarrow> True)"

definition wrapped :: "jobject_mt \<Rightarrow> bool" where
  "wrapped mt = (case mt of Meta (GcC (VgcGc f)) \<Rightarrow> True | _ \<Rightarrow> False)"

text \<open>The JVM holds for this code exactly the references the record names; they are in the wrapper's
  reach only when it is installed, and it is installed one level deep.\<close>

definition vgc_inv :: "vworld \<Rightarrow> bool" where
  "vgc_inv w = (mt_level (w_mt w) \<and> j_locals (w_jvm w) = 0 \<and>
     (\<forall>r \<in> j_globals (w_jvm w) \<union> j_weaks (w_jvm w). r < j_next (w_jvm w)) \<and>
     (case w_rec w of
        None \<Rightarrow> True
      | Some M \<Rightarrow>
          j_globals (w_jvm w) = set_option (vgc_class M) \<and> j_weaks (w_jvm w) = set_option (vgc_jstate M) \<and>
          (vgc_class M = None \<longleftrightarrow> vgc_jstate M = None) \<and>
          (vgc_class M \<noteq> None \<longrightarrow> vgc_vm M \<and> vgc_mid M \<and> wrapped (w_mt w)) \<and> \<not> vgc_closing M))"

definition vgc_init :: "vworld \<Rightarrow> bool" where
  "vgc_init w = (mt_level (w_mt w) \<and> \<not> wrapped (w_mt w) \<and>
     w_jvm w = \<lparr>j_globals = {}, j_weaks = {}, j_locals = 0, j_pending = None, j_next = 0\<rparr> \<and>
     w_rec w = Some \<lparr>vgc_vm = False, vgc_class = None, vgc_jstate = None, vgc_mid = False, vgc_closing = False,
       vgc_pcode = LJ52_VGC_OK, vgc_calls = 0, vgc_jerr = 0, vgc_skip_closing = 0, vgc_skip_noenv = 0\<rparr>)"

inductive vgc_step :: "vworld \<Rightarrow> vworld \<Rightarrow> bool" where
  Install: "w_rec w \<noteq> None \<Longrightarrow> vgc_step w (snd (lj52_vgc_install E w))"
| Finalize: "w_rec w \<noteq> None \<Longrightarrow> w_mt w = Meta (GcC (VgcGc f)) \<Longrightarrow> vgc_step w (fst (lj52_vgc_gc E f w))"
| Close: "w_rec w \<noteq> None \<Longrightarrow> vgc_step w (fst (vgc_close ok Es w))"

lemmas jni_defs = ExceptionClear_def jni_fail_def NewGlobalRef_def NewWeakGlobalRef_def DeleteGlobalRef_def
  DeleteWeakGlobalRef_def NewLocalRef_def DeleteLocalRef_def

text \<open>The wrapper leaves the references, the local references and the pending exception as they were.\<close>

definition same_refs :: "jvm \<Rightarrow> jvm \<Rightarrow> bool" where
  "same_refs J J' = (j_globals J' = j_globals J \<and> j_weaks J' = j_weaks J \<and> j_locals J' = j_locals J \<and>
     j_pending J' = j_pending J \<and> j_next J' = j_next J)"

definition same_install :: "vgc \<Rightarrow> vgc \<Rightarrow> bool" where
  "same_install M M' = (vgc_vm M' = vgc_vm M \<and> vgc_class M' = vgc_class M \<and> vgc_jstate M' = vgc_jstate M \<and>
     vgc_mid M' = vgc_mid M \<and> vgc_closing M' = vgc_closing M)"

lemma notify_frame:
  assumes "vgc_notify E M J = (M', J', evs)"
  shows "same_refs J J' \<and> same_install M M' \<and>
    evs = (if ge_obj E \<and> ge_inst E \<and> ge_alive E then [EvFinalized] else []) \<and>
    vgc_calls M' = vgc_calls M + of_bool (ge_obj E \<and> ge_inst E \<and> ge_alive E) \<and>
    vgc_jerr M' = vgc_jerr M + of_bool (ge_obj E \<and> ge_inst E \<and> ge_alive E \<and> ge_throws E) \<and>
    vgc_skip_closing M' = vgc_skip_closing M \<and> vgc_skip_noenv M' = vgc_skip_noenv M"
  using assms
  by (cases "j_pending J = None"; cases "ge_throws E"; cases "ge_obj E \<and> ge_inst E \<and> ge_alive E")
    (auto simp: vgc_notify_def vgc_callback_def Let_def jni_defs same_refs_def same_install_def)

text \<open>When a finalization is told to Java.\<close>

definition notifies :: "gc_env \<Rightarrow> vworld \<Rightarrow> bool" where
  "notifies E w =
     (case w_rec w of
        None \<Rightarrow> False
      | Some M \<Rightarrow> \<not> vgc_closing M \<and> vgc_class M \<noteq> None \<and> ge_env E \<and> ge_obj E \<and> ge_inst E \<and> ge_alive E)"

definition counted :: "gc_env \<Rightarrow> vgc \<Rightarrow> vgc \<Rightarrow> bool" where
  "counted E M M' =
     (let open = (\<not> vgc_closing M \<and> vgc_class M \<noteq> None); told = (open \<and> ge_env E \<and> ge_obj E \<and> ge_inst E \<and> ge_alive E) in
      vgc_calls M' = vgc_calls M + of_bool told \<and>
      vgc_jerr M' = vgc_jerr M + of_bool (told \<and> ge_throws E) \<and>
      vgc_skip_closing M' = vgc_skip_closing M + of_bool (vgc_closing M) \<and>
      vgc_skip_noenv M' = vgc_skip_noenv M + of_bool (open \<and> \<not> ge_env E))"

lemma gc_frame:
  assumes "lj52_vgc_gc E f w = (w', evs)"
  shows "same_refs (w_jvm w) (w_jvm w') \<and> w_mt w' = w_mt w \<and> evs = (if notifies E w then [EvFinalized] else []) @ [EvChain f] \<and>
    (case w_rec w of
       None \<Rightarrow> w_rec w' = None
     | Some M \<Rightarrow> (\<exists>M'. w_rec w' = Some M' \<and> same_install M M' \<and> counted E M M'))"
proof (cases "w_rec w")
  case None
  then show ?thesis using assms by (auto simp: lj52_vgc_gc_def notifies_def same_refs_def)
next
  case (Some M)
  obtain M2 J2 ev2 where n: "vgc_notify E M (w_jvm w) = (M2, J2, ev2)" by (cases "vgc_notify E M (w_jvm w)")
  note f = notify_frame [OF n]
  show ?thesis
  proof (cases "vgc_closing M \<or> vgc_class M = None \<or> \<not> ge_env E")
    case True
    then show ?thesis using assms Some
      by (auto simp: lj52_vgc_gc_def notifies_def counted_def same_refs_def same_install_def split: if_splits)
  next
    case False
    then have "w' = w\<lparr>w_rec := Some M2, w_jvm := J2\<rparr>" "evs = ev2 @ [EvChain f]"
      using assms Some n by (auto simp: lj52_vgc_gc_def)
    then show ?thesis using False f Some by (simp add: notifies_def counted_def)
  qed
qed

lemma gc_keeps_inv: "vgc_inv w \<Longrightarrow> vgc_inv (fst (lj52_vgc_gc E f w))"
  using gc_frame [of E f w "fst (lj52_vgc_gc E f w)" "snd (lj52_vgc_gc E f w)"]
  by (auto simp: vgc_inv_def same_refs_def same_install_def split: option.splits)

lemma install_p_level:
  "lj52_vgc_install_p mt = (code, mt') \<Longrightarrow> mt_level mt \<Longrightarrow> mt_level mt' \<and> (wrapped mt \<longrightarrow> wrapped mt') \<and>
    (code = LJ52_VGC_OK \<longrightarrow> wrapped mt')"
  by (auto simp: lj52_vgc_install_p_def mt_level_def wrapped_def split: jobject_mt.splits gcfield.splits gcfun.splits)

lemma commit_inv:
  assumes "vgc_inv w" "w_rec w = Some M"
    and "r1 = j_next (w_jvm w)" "r2 = r1 + 1"
    and J: "J = (w_jvm w)\<lparr>j_globals := insert r1 (j_globals (w_jvm w)), j_weaks := insert r2 (j_weaks (w_jvm w)), j_next := r2 + 1\<rparr>"
  shows "vgc_inv (snd (vgc_commit E r1 r2 M (w\<lparr>w_jvm := J\<rparr>)))"
proof -
  have g: "j_globals (w_jvm w) = set_option (vgc_class M)" "j_weaks (w_jvm w) = set_option (vgc_jstate M)"
    "j_locals (w_jvm w) = 0" "mt_level (w_mt w)" "vgc_class M = None \<longleftrightarrow> vgc_jstate M = None" "\<not> vgc_closing M"
    "vgc_class M \<noteq> None \<longrightarrow> vgc_vm M \<and> vgc_mid M \<and> wrapped (w_mt w)"
    using assms(1,2) by (auto simp: vgc_inv_def)
  have lt: "\<And>r. vgc_class M = Some r \<Longrightarrow> r < r1" "\<And>r. vgc_jstate M = Some r \<Longrightarrow> r < r1"
    using assms(1-3) g(1,2) by (auto simp: vgc_inv_def)
  obtain code mt where p: "lj52_vgc_install_p (w_mt w) = (code, mt)" by (cases "lj52_vgc_install_p (w_mt w)")
  note p' = install_p_level [OF p g(4)]
  show ?thesis
  proof (cases "ie_cls E \<and> ie_mid E")
    case False
    then show ?thesis using assms(2-4) g lt
      by (cases "ie_cls E") (auto simp: vgc_commit_def vgc_inv_def J jni_defs Let_def)
  next
    case True
    show ?thesis
    proof (cases "ie_cpcall E \<and> code = LJ52_VGC_OK")
      case ok: True
      show ?thesis
        using True ok assms(2-4) g lt p p'
        by (cases "vgc_class M"; cases "vgc_jstate M")
          (auto simp: vgc_commit_def vgc_inv_def J jni_defs Let_def opt_delete_def)
    next
      case bad: False
      show ?thesis
        using True bad assms(2-4) g lt p p'
        by (cases "ie_cpcall E") (auto simp: vgc_commit_def vgc_inv_def J jni_defs Let_def)
    qed
  qed
qed

lemma install_inv:
  assumes "vgc_inv w"
  shows "vgc_inv (snd (lj52_vgc_install E w))"
proof (cases "w_rec w")
  case None
  then show ?thesis using assms by (simp add: lj52_vgc_install_def)
next
  case (Some M)
  show ?thesis
  proof (cases "ie_env E \<and> ie_vm E \<and> ie_gref E \<and> ie_wref E")
    case True
    then show ?thesis using commit_inv [OF assms Some refl refl refl, of E] Some
      by (simp add: lj52_vgc_install_def NewGlobalRef_def NewWeakGlobalRef_def)
  next
    case False
    have "j_next (w_jvm w) \<notin> j_globals (w_jvm w)" using assms Some by (auto simp: vgc_inv_def)
    then show ?thesis using False assms Some
      by (auto simp: lj52_vgc_install_def vgc_inv_def jni_defs)
  qed
qed

lemma finalizers_closing:
  assumes "run_finalizers Es w = (w', evs)" "w_rec w = Some M" "vgc_closing M"
  shows "same_refs (w_jvm w) (w_jvm w') \<and> w_mt w' = w_mt w \<and> EvFinalized \<notin> set evs \<and>
    (\<exists>M'. w_rec w' = Some M' \<and> same_install M M')"
  using assms
proof (induction Es arbitrary: w w' evs M)
  case Nil
  then show ?case by (simp add: same_refs_def same_install_def)
next
  case (Cons E Es)
  show ?case
  proof (cases "\<exists>f. w_mt w = Meta (GcC (VgcGc f))")
    case True
    then obtain f where f: "w_mt w = Meta (GcC (VgcGc f))" by blast
    obtain w1 e1 where g: "lj52_vgc_gc E f w = (w1, e1)" by (cases "lj52_vgc_gc E f w")
    obtain w2 e2 where r: "run_finalizers Es w1 = (w2, e2)" by (cases "run_finalizers Es w1")
    have w: "w' = w2" "evs = e1 @ e2" using Cons.prems(1) f g r by simp_all
    note gf = gc_frame [OF g]
    obtain M1 where M1: "w_rec w1 = Some M1" "same_install M M1" using gf Cons.prems(2) by auto
    have "vgc_closing M1" using M1(2) Cons.prems(3) by (simp add: same_install_def)
    from Cons.IH [OF r M1(1) this] gf M1 Cons.prems(2,3) show ?thesis
      by (auto simp: w same_refs_def same_install_def notifies_def)
  next
    case False
    obtain w2 e2 where r: "run_finalizers Es w = (w2, e2)" by (cases "run_finalizers Es w")
    have "w' = w2 \<and> set evs \<subseteq> set e2 \<union> range EvChain"
      using Cons.prems(1) False r by (auto split: jobject_mt.splits gcfield.splits gcfun.splits)
    then show ?thesis using Cons.IH [OF r Cons.prems(2,3)] by auto
  qed
qed

lemma close_frame:
  assumes inv: "vgc_inv w" and M: "w_rec w = Some M" and c: "vgc_close ok Es w = (w', evs)"
  shows "w_rec w' = None \<and> EvFinalized \<notin> set evs \<and> vgc_inv w' \<and>
    (ok \<longrightarrow> j_globals (w_jvm w') = {} \<and> j_weaks (w_jvm w') = {})"
proof -
  let ?w = "w\<lparr>w_rec := Some (M\<lparr>vgc_closing := True\<rparr>)\<rparr>"
  obtain w1 where r: "run_finalizers Es ?w = (w1, evs)" and w': "w' = vgc_release ok w1"
    using c M by (auto simp: vgc_close_def Let_def split: prod.splits)
  have f: "same_refs (w_jvm ?w) (w_jvm w1) \<and> w_mt w1 = w_mt ?w \<and> EvFinalized \<notin> set evs \<and>
    (\<exists>M'. w_rec w1 = Some M' \<and> same_install (M\<lparr>vgc_closing := True\<rparr>) M')"
    by (rule finalizers_closing [OF r]) simp_all
  then obtain M' where M': "w_rec w1 = Some M'" "same_install (M\<lparr>vgc_closing := True\<rparr>) M'" by blast
  have i: "j_globals (w_jvm w) = set_option (vgc_class M)" "j_weaks (w_jvm w) = set_option (vgc_jstate M)"
    "j_locals (w_jvm w) = 0" "mt_level (w_mt w)" "vgc_class M = None \<longleftrightarrow> vgc_jstate M = None"
    "vgc_class M \<noteq> None \<longrightarrow> vgc_vm M"
    "\<forall>r \<in> j_globals (w_jvm w) \<union> j_weaks (w_jvm w). r < j_next (w_jvm w)"
    using inv unfolding vgc_inv_def M option.case by blast+
  have s: "vgc_class M' = vgc_class M" "vgc_jstate M' = vgc_jstate M" "vgc_vm M' = vgc_vm M"
    using M'(2) by (simp_all add: same_install_def)
  have j: "j_globals (w_jvm w1) = j_globals (w_jvm w)" "j_weaks (w_jvm w1) = j_weaks (w_jvm w)"
    "j_locals (w_jvm w1) = j_locals (w_jvm w)" "j_next (w_jvm w1) = j_next (w_jvm w)" "w_mt w1 = w_mt w"
    using f by (simp_all add: same_refs_def)
  have rel: "w' = w1\<lparr>w_rec := None, w_jvm :=
      (if vgc_vm M \<and> ok then opt_delete DeleteWeakGlobalRef (vgc_jstate M)
         (opt_delete DeleteGlobalRef (vgc_class M) (w_jvm w1)) else w_jvm w1)\<rparr>"
    unfolding w' vgc_release_def M'(1) option.case Let_def s ..
  have d: "w_rec w' = None" "w_mt w' = w_mt w" "j_locals (w_jvm w') = 0" "j_next (w_jvm w') = j_next (w_jvm w)"
    "j_globals (w_jvm w') \<subseteq> j_globals (w_jvm w)" "j_weaks (w_jvm w') \<subseteq> j_weaks (w_jvm w)"
    using j i(3) by (auto simp: rel opt_delete_def jni_defs split: option.split)
  have "j_globals (w_jvm w') = {} \<and> j_weaks (w_jvm w') = {}" if ok
    using that j i(1,2,5,6) by (cases "vgc_class M"; cases "vgc_jstate M") (simp_all add: rel opt_delete_def jni_defs)
  moreover have "vgc_inv w'" using d i(4,7) by (auto simp: vgc_inv_def)
  ultimately show ?thesis using d(1) f by blast
qed

interpretation vgc_machine: machine vgc_init vgc_step vgc_inv
proof
  show "vgc_init w \<Longrightarrow> vgc_inv w" for w
    by (simp add: vgc_init_def vgc_inv_def)
  have "vgc_step w w' \<Longrightarrow> vgc_inv w \<Longrightarrow> vgc_inv w'" for w w'
  proof (induction rule: vgc_step.induct)
    case (Install w E)
    show ?case by (rule install_inv [OF Install.prems])
  next
    case (Finalize w f E)
    show ?case by (rule gc_keeps_inv [OF Finalize.prems])
  next
    case (Close w ok Es)
    obtain M where M: "w_rec w = Some M" using Close.hyps by blast
    obtain w' evs where c: "vgc_close ok Es w = (w', evs)" by (cases "vgc_close ok Es w")
    show ?case using close_frame [OF Close.prems M c] by (simp add: c)
  qed
  then show "vgc_inv w \<Longrightarrow> vgc_step w w' \<Longrightarrow> vgc_inv w'" for w w' by blast
qed

section \<open>The properties\<close>

text \<open>C20: no reference leaks and none dangles. However installs, finalizations and their failures are
  mixed, the JVM holds exactly the references the record names, at most one of each kind, no local
  reference is left, the wrapper stands at most one level deep, and it is in place whenever the
  record says installed. Closing the state then leaves no reference, when GetEnv knows the thread,
  and calls nothing in Java.\<close>

theorem vgc_references:
  assumes "reachable vgc_init vgc_step w" "w_rec w = Some M"
  shows "j_globals (w_jvm w) = set_option (vgc_class M) \<and> j_weaks (w_jvm w) = set_option (vgc_jstate M) \<and>
    j_locals (w_jvm w) = 0 \<and> mt_level (w_mt w) \<and> (vgc_class M \<noteq> None \<longrightarrow> wrapped (w_mt w)) \<and>
    (case vgc_close ok Es w of (w', evs) \<Rightarrow>
       EvFinalized \<notin> set evs \<and> (ok \<longrightarrow> j_globals (w_jvm w') = {} \<and> j_weaks (w_jvm w') = {}))"
proof -
  have i: "vgc_inv w" by (rule vgc_machine.reachable_inv [OF assms(1)])
  then show ?thesis using close_frame [OF i assms(2), of ok Es] assms(2)
    by (auto simp: vgc_inv_def split: prod.splits)
qed

text \<open>The example: an install, a second install that replaces it, a third whose method lookup fails,
  a finalization whose callback throws.\<close>

definition vgc0 :: vworld where
  "vgc0 = \<lparr>w_rec = Some \<lparr>vgc_vm = False, vgc_class = None, vgc_jstate = None, vgc_mid = False, vgc_closing = False,
       vgc_pcode = LJ52_VGC_OK, vgc_calls = 0, vgc_jerr = 0, vgc_skip_closing = 0, vgc_skip_noenv = 0\<rparr>,
     w_jvm = \<lparr>j_globals = {}, j_weaks = {}, j_locals = 0, j_pending = None, j_next = 0\<rparr>,
     w_mt = Meta (GcC (OtherC 7))\<rparr>"

definition good_install :: install_env where
  "good_install = \<lparr>ie_env = True, ie_vm = True, ie_gref = True, ie_wref = True, ie_cls = True, ie_mid = True, ie_cpcall = True\<rparr>"

definition throwing_gc :: gc_env where
  "throwing_gc = \<lparr>ge_env = True, ge_obj = True, ge_inst = True, ge_alive = True, ge_throws = True\<rparr>"

definition vgc1 :: vworld where
  "vgc1 = snd (lj52_vgc_install (good_install\<lparr>ie_mid := False\<rparr>)
     (snd (lj52_vgc_install good_install (snd (lj52_vgc_install good_install vgc0)))))"

definition vgc2 :: vworld where
  "vgc2 = fst (lj52_vgc_gc throwing_gc (OtherC 7) vgc1)"

lemma vgc1_state: "w_mt vgc1 = Meta (GcC (VgcGc (OtherC 7)))" "w_rec vgc1 \<noteq> None"
  "w_rec (snd (lj52_vgc_install good_install vgc0)) \<noteq> None"
  "w_rec (snd (lj52_vgc_install good_install (snd (lj52_vgc_install good_install vgc0)))) \<noteq> None"
  by code_simp+

lemma vgc2_reachable: "reachable vgc_init vgc_step vgc2"
proof -
  have 0: "reachable vgc_init vgc_step vgc0"
    by (rule reachable.Init) (simp add: vgc_init_def vgc0_def mt_level_def wrapped_def)
  have "w_rec vgc0 \<noteq> None" by (simp add: vgc0_def)
  from reachable.Step [OF 0 Install [OF this, of good_install]] vgc1_state
  have "reachable vgc_init vgc_step vgc1" unfolding vgc1_def by (metis reachable.Step Install)
  then show ?thesis unfolding vgc2_def by (rule reachable.Step) (rule Finalize [OF vgc1_state(2,1)])
qed

theorem vgc_references_witness:
  "\<exists>M. w_rec vgc2 = Some M \<and> j_globals (w_jvm vgc2) = set_option (vgc_class M) \<and> vgc_class M = Some 2 \<and>
    j_globals (w_jvm (fst (vgc_close True [throwing_gc] vgc2))) = {}"
proof -
  obtain M where M: "w_rec vgc2 = Some M" "vgc_class M = Some 2"
  proof -
    have "map_option vgc_class (w_rec vgc2) = Some (Some 2)" by code_simp
    then show thesis using that by (cases "w_rec vgc2") auto
  qed
  show ?thesis using vgc_references [OF vgc2_reachable M(1), of True "[throwing_gc]"] M by (auto split: prod.splits)
qed

text \<open>C21: a finalization always ends in the finalizer that stood there before, and its callback is
  invisible to Lua: Java is told once, exactly of a Value, with the state open, the thread attached
  and the Java state alive; an exception the callback throws is cleared, one that was pending is
  pending again; and each of the four counters counts what it names.\<close>

theorem finalizer_transparent:
  assumes "lj52_vgc_gc E f w = (w', evs)" "w_rec w = Some M"
  shows "evs = (if notifies E w then [EvFinalized] else []) @ [EvChain f] \<and>
    same_refs (w_jvm w) (w_jvm w') \<and> (\<exists>M'. w_rec w' = Some M' \<and> same_install M M' \<and> counted E M M')"
  using gc_frame [OF assms(1)] assms(2) by simp

theorem finalizer_transparent_witness:
  "\<exists>w'. lj52_vgc_gc throwing_gc (OtherC 7) vgc1 = (w', [EvFinalized, EvChain (OtherC 7)]) \<and>
    j_pending (w_jvm w') = j_pending (w_jvm vgc1) \<and> lj52_vgcstats w' = [1, 1, 0, 0, 1]"
proof -
  obtain w' evs where g: "lj52_vgc_gc throwing_gc (OtherC 7) vgc1 = (w', evs)" by (cases "lj52_vgc_gc throwing_gc (OtherC 7) vgc1")
  obtain M where M: "w_rec vgc1 = Some M" using vgc1_state(2) by auto
  have n: "notifies throwing_gc vgc1" by code_simp
  have s: "lj52_vgcstats (fst (lj52_vgc_gc throwing_gc (OtherC 7) vgc1)) = [1, 1, 0, 0, 1]" by code_simp
  show ?thesis using finalizer_transparent [OF g M] g n s by (simp add: same_refs_def)
qed

end
