(* ===== verification/ShimApi.thy ===== *)
theory ShimApi
  imports Prelude Machine Ieee
begin

text \<open>
  native/lj52shim.c: the Lua 5.2 C API on LuaJIT. The memo of \<open>lua_pushcfunction\<close>, the helper chunk
  kept in the registry and the calls that go through it (\<open>lua_compare\<close>, \<open>lua_arith\<close>,
  \<open>lua_len\<close>), and the auxiliary functions. A Lua state is its stack, bottom first, and a heap of
  tables and functions; the 5.1 API calls the code makes are steps on it. An allocation asks the
  wall, unless refusing is suspended, and the backing store. What LuaJIT's operators and called
  functions do is a parameter, with the state's heap as argument and result: they cannot touch the
  caller's stack.
\<close>

section \<open>Values and states\<close>

datatype apival =
    LNil
  | LBool bool
  | LNum double
  | LStr string
  | LLight nat
  | LTab nat
  | LFun nat
  | LOther string nat

text \<open>The functions of the helper chunk, and those of others: C functions without upvalues by their
  address.\<close>

datatype helper = HCmp | HArith | HLen

datatype fkind = CFn nat | Helper helper | FOther nat

datatype lerr = ErrMem | ErrRun string | ErrValue apival

record lheap =
  h_tabs :: "nat \<Rightarrow> apival \<Rightarrow> apival"
  h_meta :: "nat \<Rightarrow> bool"
  h_funs :: "nat \<Rightarrow> fkind option"
  h_newid :: nat
  h_segs :: "nat set"
  h_norefuse :: int
  h_allocs :: nat

record lstate =
  l_stk :: "apival list"
  l_heap :: lheap

text \<open>\<open>h_tabs t k\<close> is nil for an absent key, \<open>h_meta t\<close> says that \<open>t\<close> has a metatable, \<open>h_segs\<close> are
  the address segments LuaJIT has interned for light userdata, \<open>h_norefuse\<close> is the record's
  \<open>norefuse\<close> and \<open>h_allocs\<close> counts allocations.\<close>

datatype vmop = VEq | VLt | VLe | VAdd | VSub | VMul | VDiv | VMod | VPow | VUnm | VLen | VIndex | VNewindex | VCall

text \<open>What surrounds a state: the wall's answer and the backing store's to each allocation, LuaJIT's
  operators, whether the state has a record, the address of \<open>LJ52_HELPERS_KEY\<close>.\<close>

record lenv =
  e_wall :: "nat \<Rightarrow> bool"
  e_back :: "nat \<Rightarrow> bool"
  e_vm :: "vmop \<Rightarrow> apival list \<Rightarrow> lheap \<Rightarrow> lerr + apival \<times> lheap"
  e_rec :: bool
  e_hk :: nat

section \<open>The 5.1 API\<close>

definition LUA_REGISTRYINDEX :: int where "LUA_REGISTRYINDEX = - 10000"
definition LUA_GLOBALSINDEX :: int where "LUA_GLOBALSINDEX = - 10002"

text \<open>The registry and the globals are tables 0 and 1.\<close>

definition lua_gettop :: "lstate \<Rightarrow> int" where
  "lua_gettop s = int (length (l_stk s))"

definition stk_pos :: "lstate \<Rightarrow> int \<Rightarrow> nat" where
  "stk_pos s idx = nat (if idx > 0 then idx - 1 else lua_gettop s + idx)"

definition index_val :: "lstate \<Rightarrow> int \<Rightarrow> apival" where
  "index_val s idx =
     (if idx = LUA_REGISTRYINDEX then LTab 0
      else if idx = LUA_GLOBALSINDEX then LTab 1
      else if idx < LUA_REGISTRYINDEX then LNil
      else if stk_pos s idx < length (l_stk s) then l_stk s ! stk_pos s idx else LNil)"

definition lua_push :: "apival \<Rightarrow> lstate \<Rightarrow> lstate" where
  "lua_push v s = s\<lparr>l_stk := l_stk s @ [v]\<rparr>"

definition lua_pop :: "nat \<Rightarrow> lstate \<Rightarrow> lstate" where
  "lua_pop n s = s\<lparr>l_stk := take (length (l_stk s) - n) (l_stk s)\<rparr>"

definition lua_pushvalue :: "int \<Rightarrow> lstate \<Rightarrow> lstate" where
  "lua_pushvalue idx s = lua_push (index_val s idx) s"

definition lua_remove :: "int \<Rightarrow> lstate \<Rightarrow> lstate" where
  "lua_remove idx s =
     (let p = stk_pos s idx in s\<lparr>l_stk := take p (l_stk s) @ drop (p + 1) (l_stk s)\<rparr>)"

definition lua_insert :: "int \<Rightarrow> lstate \<Rightarrow> lstate" where
  "lua_insert idx s =
     (let p = stk_pos s idx; xs = butlast (l_stk s) in s\<lparr>l_stk := take p xs @ [last (l_stk s)] @ drop p xs\<rparr>)"

definition lua_replace :: "int \<Rightarrow> lstate \<Rightarrow> lstate" where
  "lua_replace idx s = (let p = stk_pos s idx in s\<lparr>l_stk := butlast ((l_stk s)[p := last (l_stk s)])\<rparr>)"

definition lua_alloc :: "lenv \<Rightarrow> lheap \<Rightarrow> lerr + lheap" where
  "lua_alloc V h =
     (if (e_wall V (h_allocs h) \<and> h_norefuse h = 0) \<or> \<not> e_back V (h_allocs h) then Inl ErrMem
      else Inr (h\<lparr>h_allocs := h_allocs h + 1\<rparr>))"

definition seg_of :: "nat \<Rightarrow> nat" where
  "seg_of p = p div 2 ^ 39"

text \<open>A light userdata interns its address segment, with an allocation when it is new.\<close>

definition lua_pushlightuserdata :: "lenv \<Rightarrow> nat \<Rightarrow> lstate \<Rightarrow> lerr + lstate" where
  "lua_pushlightuserdata V p s =
     (if seg_of p \<in> h_segs (l_heap s) then Inr (lua_push (LLight p) s)
      else ebind (lua_alloc V (l_heap s)) (\<lambda>h.
        Inr (lua_push (LLight p) (s\<lparr>l_heap := h\<lparr>h_segs := insert (seg_of p) (h_segs h)\<rparr>\<rparr>))))"

definition new_fun :: "lenv \<Rightarrow> fkind \<Rightarrow> lheap \<Rightarrow> lerr + nat \<times> lheap" where
  "new_fun V f h =
     ebind (lua_alloc V h) (\<lambda>h.
       Inr (h_newid h, h\<lparr>h_funs := (h_funs h)(h_newid h \<mapsto> f), h_newid := h_newid h + 1\<rparr>))"

definition new_tab :: "lenv \<Rightarrow> lheap \<Rightarrow> lerr + nat \<times> lheap" where
  "new_tab V h =
     ebind (lua_alloc V h) (\<lambda>h.
       Inr (h_newid h, h\<lparr>h_tabs := (h_tabs h)(h_newid h := (\<lambda>_. LNil)), h_meta := (h_meta h)(h_newid h := False),
         h_newid := h_newid h + 1\<rparr>))"

definition lua_pushcclosure :: "lenv \<Rightarrow> nat \<Rightarrow> lstate \<Rightarrow> lerr + lstate" where
  "lua_pushcclosure V f s =
     ebind (new_fun V (CFn f) (l_heap s)) (\<lambda>(i, h). Inr (lua_push (LFun i) (s\<lparr>l_heap := h\<rparr>)))"

definition lua_newtable :: "lenv \<Rightarrow> lstate \<Rightarrow> lerr + lstate" where
  "lua_newtable V s =
     ebind (new_tab V (l_heap s)) (\<lambda>(t, h). Inr (lua_push (LTab t) (s\<lparr>l_heap := h\<rparr>)))"

text \<open>A table write allocates when the key is new.\<close>

definition tab_set :: "lenv \<Rightarrow> nat \<Rightarrow> apival \<Rightarrow> apival \<Rightarrow> lheap \<Rightarrow> lerr + lheap" where
  "tab_set V t k v h =
     ebind (if h_tabs h t k = LNil then lua_alloc V h else Inr h) (\<lambda>h.
       Inr (h\<lparr>h_tabs := (h_tabs h)(t := (h_tabs h t)(k := v))\<rparr>))"

definition atab_get :: "lheap \<Rightarrow> apival \<Rightarrow> apival \<Rightarrow> apival" where
  "atab_get h t k = (case t of LTab t \<Rightarrow> h_tabs h t k | _ \<Rightarrow> LNil)"

definition lua_rawget :: "int \<Rightarrow> lstate \<Rightarrow> lstate" where
  "lua_rawget idx s =
     s\<lparr>l_stk := butlast (l_stk s) @ [atab_get (l_heap s) (index_val s idx) (last (l_stk s))]\<rparr>"

definition lua_rawgeti :: "int \<Rightarrow> int \<Rightarrow> lstate \<Rightarrow> lstate" where
  "lua_rawgeti idx n s = lua_push (atab_get (l_heap s) (index_val s idx) (LNum (d_of_int n))) s"

definition api_rawset :: "lenv \<Rightarrow> int \<Rightarrow> lstate \<Rightarrow> lerr + lstate" where
  "api_rawset V idx s =
     (case index_val s idx of
        LTab t \<Rightarrow>
          ebind (tab_set V t (last (butlast (l_stk s))) (last (l_stk s)) (l_heap s)) (\<lambda>h.
            Inr (lua_pop 2 (s\<lparr>l_heap := h\<rparr>)))
      | _ \<Rightarrow> Inl (ErrRun ''table expected''))"

text \<open>The two that honour metamethods; the name is a string LuaJIT interns.\<close>

definition lua_getfield :: "lenv \<Rightarrow> int \<Rightarrow> string \<Rightarrow> lstate \<Rightarrow> lerr + lstate" where
  "lua_getfield V idx k s =
     ebind (lua_alloc V (l_heap s)) (\<lambda>h.
       let v = index_val s idx; s = s\<lparr>l_heap := h\<rparr> in
       if (case v of LTab t \<Rightarrow> \<not> h_meta h t \<or> h_tabs h t (LStr k) \<noteq> LNil | _ \<Rightarrow> False)
       then Inr (lua_push (atab_get h v (LStr k)) s)
       else ebind (e_vm V VIndex [v, LStr k] h) (\<lambda>(r, h). Inr (lua_push r (s\<lparr>l_heap := h\<rparr>))))"

definition lua_setfield :: "lenv \<Rightarrow> int \<Rightarrow> string \<Rightarrow> lstate \<Rightarrow> lerr + lstate" where
  "lua_setfield V idx k s =
     ebind (lua_alloc V (l_heap s)) (\<lambda>h.
       let v = index_val s idx; x = last (l_stk s); s = s\<lparr>l_heap := h\<rparr> in
       ebind
         (case v of
            LTab t \<Rightarrow>
              if \<not> h_meta h t \<or> h_tabs h t (LStr k) \<noteq> LNil then tab_set V t (LStr k) x h
              else ebind (e_vm V VNewindex [v, LStr k, x] h) (\<lambda>(_, h). Inr h)
          | _ \<Rightarrow> ebind (e_vm V VNewindex [v, LStr k, x] h) (\<lambda>(_, h). Inr h))
         (\<lambda>h. Inr (lua_pop 1 (s\<lparr>l_heap := h\<rparr>))))"

definition lua_istable :: "apival \<Rightarrow> bool" where
  "lua_istable v = (case v of LTab _ \<Rightarrow> True | _ \<Rightarrow> False)"

definition lua_isfunction :: "apival \<Rightarrow> bool" where
  "lua_isfunction v = (case v of LFun _ \<Rightarrow> True | _ \<Rightarrow> False)"

definition lua_toboolean :: "apival \<Rightarrow> bool" where
  "lua_toboolean v = (v \<noteq> LNil \<and> v \<noteq> LBool False)"

section \<open>The helper chunk\<close>

definition num_is :: "apival \<Rightarrow> int \<Rightarrow> bool" where
  "num_is v n = (case v of LNum d \<Rightarrow> d_eq d (d_of_int n) | _ \<Rightarrow> False)"

definition arg_val :: "apival list \<Rightarrow> nat \<Rightarrow> apival" where
  "arg_val xs i = (if i < length xs then xs ! i else LNil)"

text \<open>The chunk's three functions, as their Lua source has them.\<close>

definition helper_cmp :: "lenv \<Rightarrow> apival \<Rightarrow> apival \<Rightarrow> apival \<Rightarrow> lheap \<Rightarrow> lerr + apival \<times> lheap" where
  "helper_cmp V x a b h =
     (if num_is x 0 then e_vm V VEq [a, b] h
      else if num_is x 1 then e_vm V VLt [a, b] h
      else e_vm V VLe [a, b] h)"

definition helper_arith :: "lenv \<Rightarrow> apival \<Rightarrow> apival \<Rightarrow> apival \<Rightarrow> lheap \<Rightarrow> lerr + apival \<times> lheap" where
  "helper_arith V x a b h =
     (if num_is x 0 then e_vm V VAdd [a, b] h
      else if num_is x 1 then e_vm V VSub [a, b] h
      else if num_is x 2 then e_vm V VMul [a, b] h
      else if num_is x 3 then e_vm V VDiv [a, b] h
      else if num_is x 4 then e_vm V VMod [a, b] h
      else if num_is x 5 then e_vm V VPow [a, b] h
      else if num_is x 6 then e_vm V VUnm [a] h
      else Inl (ErrRun ''bad arith op''))"

definition run_helper :: "lenv \<Rightarrow> helper \<Rightarrow> apival list \<Rightarrow> lheap \<Rightarrow> lerr + apival \<times> lheap" where
  "run_helper V f xs h =
     (case f of
        HCmp \<Rightarrow> helper_cmp V (arg_val xs 0) (arg_val xs 1) (arg_val xs 2) h
      | HArith \<Rightarrow> helper_arith V (arg_val xs 0) (arg_val xs 1) (arg_val xs 2) h
      | HLen \<Rightarrow> e_vm V VLen [arg_val xs 0] h)"

definition lua_call1 :: "lenv \<Rightarrow> nat \<Rightarrow> lstate \<Rightarrow> lerr + lstate" where
  "lua_call1 V n s =
     (let p = length (l_stk s) - n; xs = drop p (l_stk s); f = last (take p (l_stk s));
          r = (case f of
                 LFun i \<Rightarrow> (case h_funs (l_heap s) i of
                              Some (Helper g) \<Rightarrow> run_helper V g xs (l_heap s)
                            | _ \<Rightarrow> e_vm V VCall (f # xs) (l_heap s))
               | _ \<Rightarrow> e_vm V VCall (f # xs) (l_heap s))
      in ebind r (\<lambda>(v, h). Inr (s\<lparr>l_stk := take (p - 1) (l_stk s) @ [v], l_heap := h\<rparr>)))"

text \<open>Loading and running the chunk: an allocation for the load, the three closures, the table.\<close>

definition run_chunk :: "lenv \<Rightarrow> lheap \<Rightarrow> lerr + nat \<times> lheap" where
  "run_chunk V h =
     ebind (lua_alloc V h) (\<lambda>h.
     ebind (new_fun V (Helper HCmp) h) (\<lambda>(c, h).
     ebind (new_fun V (Helper HArith) h) (\<lambda>(a, h).
     ebind (new_fun V (Helper HLen) h) (\<lambda>(n, h).
     ebind (new_tab V h) (\<lambda>(t, h).
       Inr (t, h\<lparr>h_tabs := (h_tabs h)(t := (\<lambda>_. LNil)(LStr ''cmp'' := LFun c, LStr ''arith'' := LFun a,
         LStr ''len'' := LFun n))\<rparr>))))))"

definition lj52_installhelpers :: "lenv \<Rightarrow> lstate \<Rightarrow> lerr + lstate" where
  "lj52_installhelpers V s =
     ebind (run_chunk V (l_heap s)) (\<lambda>(t, h).
     ebind (lua_pushlightuserdata V (e_hk V) (lua_push (LTab t) (s\<lparr>l_heap := h\<rparr>))) (\<lambda>s.
       api_rawset V LUA_REGISTRYINDEX (lua_insert (- 2) s)))"

definition lj52_gethelper :: "lenv \<Rightarrow> string \<Rightarrow> lstate \<Rightarrow> lerr + lstate" where
  "lj52_gethelper V name s =
     ebind (lua_pushlightuserdata V (e_hk V) s) (\<lambda>s.
     let s = lua_rawget LUA_REGISTRYINDEX s in
     ebind
       (if \<not> lua_istable (index_val s (- 1)) then
          ebind (lj52_installhelpers V (lua_pop 1 s)) (\<lambda>s.
          ebind (lua_pushlightuserdata V (e_hk V) s) (\<lambda>s.
            Inr (lua_rawget LUA_REGISTRYINDEX s)))
        else Inr s)
       (\<lambda>s. ebind (lua_getfield V (- 1) name s) (\<lambda>s. Inr (lua_remove (- 2) s))))"

section \<open>The memo of \<open>lua_pushcfunction\<close>\<close>

definition LJ52_CF_RIDX :: int where "LJ52_CF_RIDX = 3"

definition lj52_pushcfunction_raw :: "lenv \<Rightarrow> nat \<Rightarrow> lstate \<Rightarrow> lerr + lstate" where
  "lj52_pushcfunction_raw V f s =
     (let s = lua_rawgeti LUA_REGISTRYINDEX LJ52_CF_RIDX s in
      if \<not> lua_istable (index_val s (- 1)) then lua_pushcclosure V f (lua_pop 1 s)
      else
        ebind (lua_pushlightuserdata V f s) (\<lambda>s.
        let s = lua_rawget (- 2) s in
        if lua_isfunction (index_val s (- 1)) then Inr (lua_remove (- 2) s)
        else
          ebind (lua_pushlightuserdata V f (lua_pop 1 s)) (\<lambda>s.
          ebind (lua_pushcclosure V f s) (\<lambda>s.
          ebind (api_rawset V (- 3) (lua_insert (- 4) (lua_pushvalue (- 1) s))) (\<lambda>s.
            Inr (lua_pop 1 s))))))"

definition bump_norefuse :: "lenv \<Rightarrow> int \<Rightarrow> lstate \<Rightarrow> lstate" where
  "bump_norefuse V n s =
     (if e_rec V then s\<lparr>l_heap := (l_heap s)\<lparr>h_norefuse := h_norefuse (l_heap s) + n\<rparr>\<rparr> else s)"

definition lj52_pushcfunction :: "lenv \<Rightarrow> nat \<Rightarrow> lstate \<Rightarrow> lerr + lstate" where
  "lj52_pushcfunction V f s =
     ebind (lj52_pushcfunction_raw V f (bump_norefuse V 1 s)) (\<lambda>s. Inr (bump_norefuse V (- 1) s))"

section \<open>Comparison, arithmetic, length\<close>

definition lua_absindex :: "lstate \<Rightarrow> int \<Rightarrow> int" where
  "lua_absindex s idx = (if idx > 0 \<or> idx \<le> LUA_REGISTRYINDEX then idx else lua_gettop s + idx + 1)"

definition lua_compare :: "lenv \<Rightarrow> int \<Rightarrow> int \<Rightarrow> int \<Rightarrow> lstate \<Rightarrow> lerr + bool \<times> lstate" where
  "lua_compare V idx1 idx2 opc s =
     (let idx1 = lua_absindex s idx1; idx2 = lua_absindex s idx2 in
      ebind (lj52_gethelper V ''cmp'' s) (\<lambda>s.
      ebind (lua_call1 V 3 (lua_pushvalue idx2 (lua_pushvalue idx1 (lua_push (LNum (d_of_int opc)) s)))) (\<lambda>s.
        Inr (lua_toboolean (index_val s (- 1)), lua_pop 1 s))))"

definition LUA_OPUNM :: int where "LUA_OPUNM = 6"

definition lua_arith :: "lenv \<Rightarrow> int \<Rightarrow> lstate \<Rightarrow> lerr + lstate" where
  "lua_arith V opc s =
     (let nargs = (if opc = LUA_OPUNM then 1 else 2); base = lua_gettop s - nargs + 1 in
      ebind (lj52_gethelper V ''arith'' s) (\<lambda>s.
        let s = lua_insert (base + 1) (lua_push (LNum (d_of_int opc)) (lua_insert base s))
        in lua_call1 V (nat nargs + 1) s))"

definition lua_len :: "lenv \<Rightarrow> int \<Rightarrow> lstate \<Rightarrow> lerr + lstate" where
  "lua_len V idx s =
     (let idx = lua_absindex s idx in
      ebind (lj52_gethelper V ''len'' s) (\<lambda>s. lua_call1 V 1 (lua_pushvalue idx s)))"

section \<open>The auxiliary library\<close>

definition luaL_getsubtable :: "lenv \<Rightarrow> int \<Rightarrow> string \<Rightarrow> lstate \<Rightarrow> lerr + bool \<times> lstate" where
  "luaL_getsubtable V idx fname s =
     (let idx = lua_absindex s idx in
      ebind (lua_getfield V idx fname s) (\<lambda>s.
        if lua_istable (index_val s (- 1)) then Inr (True, s)
        else
          ebind (lua_newtable V (lua_pop 1 s)) (\<lambda>s.
          ebind (lua_setfield V idx fname (lua_pushvalue (- 1) s)) (\<lambda>s. Inr (False, s)))))"

definition lua_pushstring :: "lenv \<Rightarrow> string \<Rightarrow> lstate \<Rightarrow> lerr + lstate" where
  "lua_pushstring V x s = ebind (lua_alloc V (l_heap s)) (\<lambda>h. Inr (lua_push (LStr x) (s\<lparr>l_heap := h\<rparr>)))"

definition luaL_requiref :: "lenv \<Rightarrow> string \<Rightarrow> nat \<Rightarrow> bool \<Rightarrow> lstate \<Rightarrow> lerr + lstate" where
  "luaL_requiref V modname openf glb s =
     ebind (luaL_getsubtable V LUA_REGISTRYINDEX ''_LOADED'' s) (\<lambda>(_, s).
     ebind (lua_getfield V (- 1) modname s) (\<lambda>s.
     ebind
       (if \<not> lua_toboolean (index_val s (- 1)) then
          ebind (lua_pushcclosure V openf (lua_pop 1 s)) (\<lambda>s.
          ebind (lua_pushstring V modname s) (\<lambda>s.
          ebind (lua_call1 V 1 s) (\<lambda>s.
            lua_setfield V (- 3) modname (lua_pushvalue (- 1) s))))
        else Inr s)
       (\<lambda>s.
     ebind (if glb then lua_setfield V LUA_GLOBALSINDEX modname (lua_pushvalue (- 1) s) else Inr s) (\<lambda>s.
       Inr (lua_replace (- 2) s)))))"

definition luaopen_coroutine :: "lenv \<Rightarrow> lstate \<Rightarrow> lerr + lstate" where
  "luaopen_coroutine V s =
     ebind (lua_getfield V LUA_GLOBALSINDEX ''coroutine'' s) (\<lambda>s.
       if \<not> lua_istable (index_val s (- 1)) then lua_newtable V (lua_pop 1 s) else Inr s)"

text \<open>\<open>luaL_tolstring\<close>: the string left on the top; what \<open>luaL_callmeta\<close> answers, how LuaJIT writes
  a number and a pointer are arguments.\<close>

definition lua_type_name :: "apival \<Rightarrow> string" where
  "lua_type_name v =
     (case v of LNil \<Rightarrow> ''nil'' | LBool _ \<Rightarrow> ''boolean'' | LNum _ \<Rightarrow> ''number'' | LStr _ \<Rightarrow> ''string''
      | LLight _ \<Rightarrow> ''userdata'' | LTab _ \<Rightarrow> ''table'' | LFun _ \<Rightarrow> ''function'' | LOther n _ \<Rightarrow> n)"

definition tostring_top :: "lenv \<Rightarrow> (double \<Rightarrow> string) \<Rightarrow> lstate \<Rightarrow> lerr + string option \<times> lstate" where
  "tostring_top V num s =
     (case index_val s (- 1) of
        LStr x \<Rightarrow> Inr (Some x, s)
      | LNum d \<Rightarrow> ebind (lua_pushstring V (num d) (lua_pop 1 s)) (\<lambda>s. Inr (Some (num d), s))
      | _ \<Rightarrow> Inr (None, s))"

definition luaL_tolstring ::
  "lenv \<Rightarrow> (apival \<Rightarrow> lheap \<Rightarrow> lerr + apival option \<times> lheap) \<Rightarrow> (double \<Rightarrow> string) \<Rightarrow> (apival \<Rightarrow> string) \<Rightarrow>
    int \<Rightarrow> lstate \<Rightarrow> lerr + string option \<times> lstate" where
  "luaL_tolstring V meta num ptr idx s =
     (let idx = lua_absindex s idx; v = index_val s idx in
      ebind (meta v (l_heap s)) (\<lambda>(r, h).
      ebind
        (case r of
           Some x \<Rightarrow>
             (case x of
                LStr _ \<Rightarrow> Inr (lua_push x (s\<lparr>l_heap := h\<rparr>))
              | LNum _ \<Rightarrow> Inr (lua_push x (s\<lparr>l_heap := h\<rparr>))
              | _ \<Rightarrow> Inl (ErrRun (CHR 0x27 # ''__tostring'' @ [CHR 0x27] @ '' must return a string'')))
         | None \<Rightarrow>
             (case v of
                LNum _ \<Rightarrow> Inr (lua_push v (s\<lparr>l_heap := h\<rparr>))
              | LStr _ \<Rightarrow> Inr (lua_push v (s\<lparr>l_heap := h\<rparr>))
              | LBool b \<Rightarrow> lua_pushstring V (if b then ''true'' else ''false'') (s\<lparr>l_heap := h\<rparr>)
              | LNil \<Rightarrow> lua_pushstring V ''nil'' (s\<lparr>l_heap := h\<rparr>)
              | _ \<Rightarrow> lua_pushstring V (lua_type_name v @ '': '' @ ptr v) (s\<lparr>l_heap := h\<rparr>)))
        (tostring_top V num)))"

section \<open>The stack\<close>

lemma stk_pos_neg:
  "stk_pos s (- 1) = length (l_stk s) - 1" "stk_pos s (- 2) = length (l_stk s) - 2"
  "stk_pos s (- 3) = length (l_stk s) - 3" "stk_pos s (- 4) = length (l_stk s) - 4"
  by (auto simp: stk_pos_def lua_gettop_def)

lemma index_val_neg:
  "l_stk s \<noteq> [] \<Longrightarrow> index_val s (- 1) = last (l_stk s)"
  by (simp add: index_val_def LUA_REGISTRYINDEX_def LUA_GLOBALSINDEX_def stk_pos_neg last_conv_nth)

lemma index_val_m:
  "index_val s (- 2) = (if length (l_stk s) = 0 then LNil else l_stk s ! (length (l_stk s) - 2))"
  "index_val s (- 3) = (if length (l_stk s) = 0 then LNil else l_stk s ! (length (l_stk s) - 3))"
  by (auto simp: index_val_def LUA_REGISTRYINDEX_def LUA_GLOBALSINDEX_def stk_pos_neg)

lemma index_val_reg [simp]: "index_val s LUA_REGISTRYINDEX = LTab 0"
  by (simp add: index_val_def)

lemma push_stk [simp]: "l_stk (lua_push v s) = l_stk s @ [v]" "l_heap (lua_push v s) = l_heap s"
  by (simp_all add: lua_push_def)

lemma index_push [simp]: "index_val (lua_push v s) (- 1) = v"
  by (simp add: index_val_neg)

lemma pop_stk [simp]: "l_stk (lua_pop n s) = take (length (l_stk s) - n) (l_stk s)" "l_heap (lua_pop n s) = l_heap s"
  by (simp_all add: lua_pop_def)

lemma pop_push [simp]: "lua_pop 1 (lua_push v s) = s" "lua_pop (Suc 0) (lua_push v s) = s"
  by (simp_all add: lua_pop_def lua_push_def)

lemma push_heap [simp]: "(lua_push v s)\<lparr>l_heap := h\<rparr> = lua_push v (s\<lparr>l_heap := h\<rparr>)"
  by (simp add: lua_push_def)

lemma heap_simps [simp]:
  "l_heap (lua_pushvalue i s) = l_heap s" "l_heap (lua_remove i s) = l_heap s" "l_heap (lua_insert i s) = l_heap s"
  "l_heap (lua_rawget i s) = l_heap s" "l_heap (lua_rawgeti i n s) = l_heap s" "l_heap (lua_replace i s) = l_heap s"
  by (simp_all add: lua_pushvalue_def lua_remove_def lua_insert_def lua_rawget_def lua_rawgeti_def Let_def lua_replace_def)

lemma num_is_int:
  assumes "\<bar>a\<bar> \<le> 2 ^ 53" "\<bar>n\<bar> \<le> 2 ^ 53"
  shows "num_is (LNum (d_of_int a)) n \<longleftrightarrow> a = n"
  using fp_eq_rat [OF d_of_int_rat_small [OF assms(1)] d_of_int_rat_small [OF assms(2)]]
  by (simp add: num_is_def d_eq_def)

section \<open>The memo\<close>

definition memo_at :: "lheap \<Rightarrow> apival" where
  "memo_at h = h_tabs h 0 (LNum (d_of_int LJ52_CF_RIDX))"

text \<open>Every entry maps a C function to the one GCfunc made for it, and its address is interned.\<close>

definition memo_table :: "lheap \<Rightarrow> nat \<Rightarrow> bool" where
  "memo_table h m = (0 < m \<and> m < h_newid h \<and> (\<forall>k. h_tabs h m k \<noteq> LNil \<longrightarrow>
     (\<exists>p i. k = LLight p \<and> h_tabs h m k = LFun i \<and> h_funs h i = Some (CFn p) \<and> seg_of p \<in> h_segs h)))"

definition memo_ok :: "lheap \<Rightarrow> bool" where
  "memo_ok h = (0 < h_newid h \<and> (\<forall>i. h_funs h i \<noteq> None \<longrightarrow> i < h_newid h) \<and>
     (\<forall>m. memo_at h = LTab m \<longrightarrow> memo_table h m))"

text \<open>What stands in the memo for a function.\<close>

definition memo_get :: "lheap \<Rightarrow> nat \<Rightarrow> apival" where
  "memo_get h f = atab_get h (memo_at h) (LLight f)"

lemma alloc_Inr:
  "lua_alloc V h = Inr h' \<longleftrightarrow>
    \<not> (e_wall V (h_allocs h) \<and> h_norefuse h = 0) \<and> e_back V (h_allocs h) \<and> h' = h\<lparr>h_allocs := h_allocs h + 1\<rparr>"
  by (auto simp: lua_alloc_def)

lemma light_Inr:
  "lua_pushlightuserdata V p s = Inr s' \<Longrightarrow>
    \<exists>h. s' = lua_push (LLight p) (s\<lparr>l_heap := h\<rparr>) \<and> seg_of p \<in> h_segs h \<and>
      (if seg_of p \<in> h_segs (l_heap s) then h = l_heap s
       else h = (l_heap s)\<lparr>h_allocs := h_allocs (l_heap s) + 1, h_segs := insert (seg_of p) (h_segs (l_heap s))\<rparr>)"
  by (cases s) (auto simp: lua_pushlightuserdata_def alloc_Inr split: if_splits)

text \<open>One push, when it returns: the function on the top, the memo grown by at most its entry.\<close>

lemma raw_memo:
  assumes memo: "memo_at (l_heap s) = LTab m"
  shows "lj52_pushcfunction_raw V f s =
    ebind (lua_pushlightuserdata V f (lua_push (LTab m) s)) (\<lambda>s'.
      case h_tabs (l_heap s') m (LLight f) of
        LFun i \<Rightarrow> Inr (lua_push (LFun i) (s\<lparr>l_heap := l_heap s'\<rparr>))
      | _ \<Rightarrow>
        ebind (new_fun V (CFn f) (l_heap s')) (\<lambda>(i, h).
        ebind (tab_set V m (LLight f) (LFun i) h) (\<lambda>h. Inr (lua_push (LFun i) (s\<lparr>l_heap := h\<rparr>)))))"
proof -
  have g: "lua_rawgeti LUA_REGISTRYINDEX LJ52_CF_RIDX s = lua_push (LTab m) s"
    using memo by (simp add: lua_rawgeti_def atab_get_def memo_at_def)
  let ?l = "\<lambda>h. lua_push (LLight f) (lua_push (LTab m) (s\<lparr>l_heap := h\<rparr>))"
  have rg: "lua_rawget (- 2) (?l h) = lua_push (h_tabs h m (LLight f)) (lua_push (LTab m) (s\<lparr>l_heap := h\<rparr>))" for h
    by (cases s) (simp add: lua_rawget_def index_val_m nth_append atab_get_def lua_push_def butlast_append)
  have rm: "lua_remove (- 2) (lua_push v (lua_push (LTab m) t)) = lua_push v t" for v t
    by (cases t) (simp add: lua_remove_def stk_pos_neg lua_push_def)
  have ins: "lua_insert (- 4) (lua_pushvalue (- 1) (lua_push v (lua_push (LLight f) (lua_push (LTab m) t)))) =
      lua_push v (lua_push (LLight f) (lua_push (LTab m) (lua_push v t)))" for v t
    by (cases t) (simp add: lua_insert_def lua_pushvalue_def stk_pos_neg lua_push_def index_val_neg butlast_append)
  have rs: "api_rawset V (- 3) (lua_push v (lua_push (LLight f) (lua_push (LTab m) (lua_push v t)))) =
      ebind (tab_set V m (LLight f) v (l_heap t)) (\<lambda>h. Inr (lua_push (LTab m) (lua_push v (t\<lparr>l_heap := h\<rparr>))))" for v t
    by (cases t) (simp add: api_rawset_def index_val_m nth_append lua_push_def lua_pop_def butlast_append)
  have light: "lua_pushlightuserdata V f (lua_push (LTab m) (s\<lparr>l_heap := h\<rparr>)) = Inr (?l h)"
    if "seg_of f \<in> h_segs h" for h
    using that by (simp add: lua_pushlightuserdata_def)
  show ?thesis
  proof (cases "lua_pushlightuserdata V f (lua_push (LTab m) s)")
    case (Inl e)
    then show ?thesis by (simp add: lj52_pushcfunction_raw_def g lua_istable_def)
  next
    case (Inr s')
    then obtain h where h: "s' = ?l h" "seg_of f \<in> h_segs h"
      using light_Inr [OF Inr] by (cases s) (auto simp: lua_push_def)
    have cold: "ebind (lua_pushcclosure V f (?l h)) (\<lambda>s.
        ebind (api_rawset V (- 3) (lua_insert (- 4) (lua_pushvalue (- 1) s))) (\<lambda>s. Inr (lua_pop 1 s))) =
      ebind (new_fun V (CFn f) h) (\<lambda>(i, h).
        ebind (tab_set V m (LLight f) (LFun i) h) (\<lambda>h. Inr (lua_push (LFun i) (s\<lparr>l_heap := h\<rparr>))))"
    proof (cases "new_fun V (CFn f) h")
      case (Inr r)
      then show ?thesis by (cases r) (simp add: lua_pushcclosure_def ins rs ebind_assoc)
    qed (simp add: lua_pushcclosure_def)
    show ?thesis
      unfolding lj52_pushcfunction_raw_def g Let_def Inr ebind_Inr h(1) rg index_push pop_push light [OF h(2)] cold
      by (cases "h_tabs h m (LLight f)") (simp_all add: lua_istable_def lua_isfunction_def rm)
  qed
qed

lemma new_fun_Inr:
  "new_fun V f h = Inr (i, h') \<longleftrightarrow> i = h_newid h \<and>
    \<not> (e_wall V (h_allocs h) \<and> h_norefuse h = 0) \<and> e_back V (h_allocs h) \<and>
    h' = h\<lparr>h_allocs := h_allocs h + 1, h_funs := (h_funs h)(h_newid h \<mapsto> f), h_newid := h_newid h + 1\<rparr>"
  by (auto simp: new_fun_def alloc_Inr)

lemma tab_set_Inr:
  "tab_set V t k v h = Inr h' \<Longrightarrow>
    h' = h\<lparr>h_allocs := (if h_tabs h t k = LNil then h_allocs h + 1 else h_allocs h),
      h_tabs := (h_tabs h)(t := (h_tabs h t)(k := v))\<rparr>"
  by (cases h) (auto simp: tab_set_def alloc_Inr split: if_splits)

text \<open>What one push makes of the heap: nothing when the function is in the memo, else the entry, the
  function, and its segment.\<close>

definition memo_add :: "lheap \<Rightarrow> nat \<Rightarrow> nat \<Rightarrow> lheap" where
  "memo_add h m f =
     h\<lparr>h_tabs := (h_tabs h)(m := (h_tabs h m)(LLight f := LFun (h_newid h))),
       h_funs := (h_funs h)(h_newid h \<mapsto> CFn f), h_newid := h_newid h + 1,
       h_segs := insert (seg_of f) (h_segs h),
       h_allocs := h_allocs h + (if seg_of f \<in> h_segs h then 2 else 3)\<rparr>"

lemma memo_entry:
  "memo_ok h \<Longrightarrow> memo_at h = LTab m \<Longrightarrow> h_tabs h m (LLight f) \<noteq> LNil \<Longrightarrow>
    \<exists>i. h_tabs h m (LLight f) = LFun i \<and> h_funs h i = Some (CFn f) \<and> seg_of f \<in> h_segs h"
  unfolding memo_ok_def memo_table_def by (metis apival.inject(4))

lemma raw_warm:
  assumes "memo_ok (l_heap s)" "memo_at (l_heap s) = LTab m" "h_tabs (l_heap s) m (LLight f) = LFun i"
  shows "lj52_pushcfunction_raw V f s = Inr (lua_push (LFun i) s)"
proof -
  have "seg_of f \<in> h_segs (l_heap s)" using memo_entry [OF assms(1,2), of f] assms(3) by auto
  then show ?thesis using assms(3) by (simp add: raw_memo [OF assms(2)] lua_pushlightuserdata_def)
qed

lemma raw_cold:
  assumes "memo_at (l_heap s) = LTab m" "h_tabs (l_heap s) m (LLight f) = LNil"
    and "lj52_pushcfunction_raw V f s = Inr s'"
  shows "s' = lua_push (LFun (h_newid (l_heap s))) (s\<lparr>l_heap := memo_add (l_heap s) m f\<rparr>)"
proof -
  from assms(3) obtain s1 where l: "lua_pushlightuserdata V f (lua_push (LTab m) s) = Inr s1"
    unfolding raw_memo [OF assms(1)] by auto
  obtain h where h: "s1 = lua_push (LLight f) (lua_push (LTab m) (s\<lparr>l_heap := h\<rparr>))"
    and h1: "if seg_of f \<in> h_segs (l_heap s) then h = l_heap s
       else h = (l_heap s)\<lparr>h_allocs := h_allocs (l_heap s) + 1, h_segs := insert (seg_of f) (h_segs (l_heap s))\<rparr>"
    using light_Inr [OF l] by auto
  have t: "h_tabs h = h_tabs (l_heap s)" "h_newid h = h_newid (l_heap s)" "h_funs h = h_funs (l_heap s)"
    using h1 by (auto split: if_splits)
  from assms(3) t(1) assms(2) obtain h2 where
    s': "s' = lua_push (LFun (h_newid h)) (s\<lparr>l_heap := h2\<rparr>)" and
    h2: "tab_set V m (LLight f) (LFun (h_newid h))
      (h\<lparr>h_allocs := h_allocs h + 1, h_funs := (h_funs h)(h_newid h \<mapsto> CFn f), h_newid := h_newid h + 1\<rparr>) = Inr h2"
    unfolding raw_memo [OF assms(1)] l ebind_Inr h by (auto simp: new_fun_Inr)
  show ?thesis using s' tab_set_Inr [OF h2] h1 t assms(2)
    by (cases "l_heap s") (auto simp: memo_add_def insert_absorb split: if_splits)
qed

lemma raw_total:
  assumes "memo_ok (l_heap s)" "memo_at (l_heap s) = LTab m" "\<And>n. e_back V n" "h_norefuse (l_heap s) \<noteq> 0"
  shows "\<exists>s'. lj52_pushcfunction_raw V f s = Inr s'"
proof -
  have a: "lua_alloc V h = Inr (h\<lparr>h_allocs := h_allocs h + 1\<rparr>)" if "h_norefuse h = h_norefuse (l_heap s)" for h
    using that assms(3,4) by (simp add: lua_alloc_def)
  show ?thesis
    by (cases "h_tabs (l_heap s) m (LLight f)")
      (simp_all add: raw_memo [OF assms(2)] lua_pushlightuserdata_def a new_fun_def tab_set_def)
qed

lemma memo_add_ok:
  assumes "memo_ok h" "memo_at h = LTab m"
  shows "memo_ok (memo_add h m f) \<and> memo_at (memo_add h m f) = LTab m"
proof -
  have m: "memo_table h m" "0 < h_newid h" "\<And>i. h_funs h i \<noteq> None \<Longrightarrow> i < h_newid h"
    using assms by (auto simp: memo_ok_def)
  have at: "memo_at (memo_add h m f) = LTab m"
    using assms(2) m(1) by (simp add: memo_at_def memo_add_def memo_table_def)
  have "h_tabs (memo_add h m f) m k \<noteq> LNil \<Longrightarrow> \<exists>p i. k = LLight p \<and> h_tabs (memo_add h m f) m k = LFun i \<and>
      h_funs (memo_add h m f) i = Some (CFn p) \<and> seg_of p \<in> h_segs (memo_add h m f)" for k
  proof (cases "k = LLight f")
    case False
    assume "h_tabs (memo_add h m f) m k \<noteq> LNil"
    then have "h_tabs h m k \<noteq> LNil" using False by (simp add: memo_add_def)
    then obtain p i where k: "k = LLight p" "h_tabs h m k = LFun i" "h_funs h i = Some (CFn p)" "seg_of p \<in> h_segs h"
      using m(1) unfolding memo_table_def by blast
    have "i \<noteq> h_newid h" using m(3) [of i] k(3) by auto
    then show ?thesis using k False by (auto simp: memo_add_def)
  qed (simp add: memo_add_def)
  then have "memo_table (memo_add h m f) m" using m(1) unfolding memo_table_def [of "memo_add h m f"]
    by (auto simp: memo_table_def memo_add_def)
  then show ?thesis using at m by (auto simp: memo_ok_def memo_add_def less_SucI)
qed

section \<open>The memo as a machine\<close>

definition leaves_memo :: "lheap \<Rightarrow> lheap \<Rightarrow> bool" where
  "leaves_memo h h' = (memo_at h' = memo_at h \<and> (\<forall>m. memo_at h = LTab m \<longrightarrow> h_tabs h' m = h_tabs h m) \<and>
     h_funs h \<subseteq>\<^sub>m h_funs h' \<and> h_segs h \<subseteq> h_segs h' \<and> h_newid h \<le> h_newid h' \<and>
     (\<forall>i. h_funs h' i \<noteq> None \<longrightarrow> i < h_newid h'))"

text \<open>A state is born with an empty memo; pushes alternate with anything that leaves it alone.\<close>

definition memo_init :: "lstate \<Rightarrow> bool" where
  "memo_init s = (\<exists>m. memo_at (l_heap s) = LTab m \<and> 0 < m \<and> m < h_newid (l_heap s) \<and>
     h_tabs (l_heap s) m = (\<lambda>_. LNil) \<and> (\<forall>i. h_funs (l_heap s) i \<noteq> None \<longrightarrow> i < h_newid (l_heap s)))"

inductive memo_step :: "lenv \<Rightarrow> lstate \<Rightarrow> lstate \<Rightarrow> bool" for V where
  Push: "lj52_pushcfunction V f s = Inr s' \<Longrightarrow> memo_step V s s'"
| Other: "leaves_memo (l_heap s) (l_heap s') \<Longrightarrow> memo_step V s s'"

inductive_cases memo_stepE: "memo_step V s s'"

definition memo_inv :: "lstate \<Rightarrow> bool" where
  "memo_inv s = (memo_ok (l_heap s) \<and> (\<exists>m. memo_at (l_heap s) = LTab m))"

lemma bump_heap [simp]:
  "l_stk (bump_norefuse V n s) = l_stk s"
  "memo_at (l_heap (bump_norefuse V n s)) = memo_at (l_heap s)"
  "memo_ok (l_heap (bump_norefuse V n s)) = memo_ok (l_heap s)"
  "h_tabs (l_heap (bump_norefuse V n s)) = h_tabs (l_heap s)"
  "h_funs (l_heap (bump_norefuse V n s)) = h_funs (l_heap s)"
  "h_newid (l_heap (bump_norefuse V n s)) = h_newid (l_heap s)"
  "h_allocs (l_heap (bump_norefuse V n s)) = h_allocs (l_heap s)"
  "h_norefuse (l_heap (bump_norefuse V n s)) = h_norefuse (l_heap s) + (if e_rec V then n else 0)"
  by (auto simp: bump_norefuse_def memo_at_def memo_ok_def memo_table_def)

lemma bump_back: "bump_norefuse V (- 1) (lua_push v (bump_norefuse V 1 s)) = lua_push v s"
  by (cases s) (simp add: bump_norefuse_def lua_push_def)

lemma bump_add:
  "bump_norefuse V (- 1) (lua_push v ((bump_norefuse V 1 s)\<lparr>l_heap := memo_add (l_heap (bump_norefuse V 1 s)) m f\<rparr>)) =
    lua_push v (s\<lparr>l_heap := memo_add (l_heap s) m f\<rparr>)"
  by (cases s) (simp add: bump_norefuse_def lua_push_def memo_add_def)

lemma push_cases:
  assumes "memo_inv s" "lj52_pushcfunction V f s = Inr s'"
  obtains (warm) i where "memo_get (l_heap s) f = LFun i" "h_funs (l_heap s) i = Some (CFn f)" "s' = lua_push (LFun i) s"
  | (cold) m where "memo_at (l_heap s) = LTab m" "memo_get (l_heap s) f = LNil"
      "s' = lua_push (LFun (h_newid (l_heap s))) (s\<lparr>l_heap := memo_add (l_heap s) m f\<rparr>)"
proof -
  obtain m where m: "memo_ok (l_heap s)" "memo_at (l_heap s) = LTab m" using assms(1) by (auto simp: memo_inv_def)
  let ?t = "bump_norefuse V 1 s"
  obtain t where t: "lj52_pushcfunction_raw V f ?t = Inr t" "s' = bump_norefuse V (- 1) t"
    using assms(2) by (auto simp: lj52_pushcfunction_def)
  have g: "memo_get (l_heap s) f = h_tabs (l_heap s) m (LLight f)" using m(2) by (simp add: memo_get_def atab_get_def)
  show thesis
  proof (cases "h_tabs (l_heap s) m (LLight f) = LNil")
    case True
    have "t = lua_push (LFun (h_newid (l_heap s))) (?t\<lparr>l_heap := memo_add (l_heap ?t) m f\<rparr>)"
      using raw_cold [of ?t m f V t] m(2) True t(1) by simp
    then show thesis using cold [OF m(2)] g True t(2) bump_add by simp
  next
    case False
    from memo_entry [OF m False] obtain i where i: "h_tabs (l_heap s) m (LLight f) = LFun i"
      "h_funs (l_heap s) i = Some (CFn f)" by blast
    have "t = lua_push (LFun i) ?t" using raw_warm [of ?t m f i V] m i(1) t(1) by simp
    then show thesis using warm [of i] g i t(2) bump_back by simp
  qed
qed

interpretation memo_machine: machine memo_init "memo_step V" memo_inv for V
proof
  show "memo_init s \<Longrightarrow> memo_inv s" for s
    by (auto simp: memo_init_def memo_inv_def memo_ok_def memo_table_def)
  show "memo_inv s \<Longrightarrow> memo_step V s s' \<Longrightarrow> memo_inv s'" for s s'
  proof (erule memo_stepE)
    fix f assume i: "memo_inv s" and "lj52_pushcfunction V f s = Inr s'"
    then show "memo_inv s'"
    proof (cases rule: push_cases)
      case warm
      then show ?thesis using i by (simp add: memo_inv_def)
    next
      case (cold m)
      then show ?thesis using i memo_add_ok [of "l_heap s" m f] by (simp add: memo_inv_def)
    qed
  next
    assume i: "memo_inv s" and o: "leaves_memo (l_heap s) (l_heap s')"
    from i obtain m where m: "memo_at (l_heap s) = LTab m" "memo_table (l_heap s) m" "0 < h_newid (l_heap s)"
      by (auto simp: memo_inv_def memo_ok_def)
    have t: "h_tabs (l_heap s') m = h_tabs (l_heap s) m" "memo_at (l_heap s') = LTab m" using o m(1) by (auto simp: leaves_memo_def)
    have l: "h_newid (l_heap s) \<le> h_newid (l_heap s')" "h_segs (l_heap s) \<subseteq> h_segs (l_heap s')"
      "h_funs (l_heap s) i = Some g \<Longrightarrow> h_funs (l_heap s') i = Some g" for i g
      using o by (auto simp: leaves_memo_def map_le_def dom_def)
    have "\<exists>p i. k = LLight p \<and> h_tabs (l_heap s) m k = LFun i \<and> h_funs (l_heap s') i = Some (CFn p) \<and>
        seg_of p \<in> h_segs (l_heap s')" if k: "h_tabs (l_heap s) m k \<noteq> LNil" for k
    proof -
      obtain p i where "k = LLight p" "h_tabs (l_heap s) m k = LFun i" "h_funs (l_heap s) i = Some (CFn p)"
        "seg_of p \<in> h_segs (l_heap s)" using m(2) k unfolding memo_table_def by blast
      then show ?thesis using l(2,3) by blast
    qed
    then have "memo_table (l_heap s') m" using m(2) l(1) unfolding memo_table_def t(1)
      by (metis less_le_trans)
    moreover have "\<forall>i. h_funs (l_heap s') i \<noteq> None \<longrightarrow> i < h_newid (l_heap s')" using o by (simp add: leaves_memo_def)
    ultimately show "memo_inv s'" unfolding memo_inv_def memo_ok_def t(2) using m(3) l(1) by auto
  qed
qed

lemma memo_get_add: "memo_at h = LTab m \<Longrightarrow> 0 < m \<Longrightarrow> memo_get (memo_add h m f) f = LFun (h_newid h)"
  by (simp add: memo_get_def memo_at_def atab_get_def memo_add_def)

lemma memo_get_other: "memo_at h = LTab m \<Longrightarrow> 0 < m \<Longrightarrow> g \<noteq> f \<Longrightarrow> memo_get (memo_add h m f) g = memo_get h g"
  by (simp add: memo_get_def memo_at_def atab_get_def memo_add_def)

lemma memo_pos: "memo_inv s \<Longrightarrow> memo_at (l_heap s) = LTab m \<Longrightarrow> 0 < m"
  by (simp add: memo_inv_def memo_ok_def memo_table_def)

lemma memo_fun_bound: "memo_inv s \<Longrightarrow> h_funs (l_heap s) i = Some g \<Longrightarrow> i < h_newid (l_heap s)"
  by (auto simp: memo_inv_def memo_ok_def)

text \<open>What is in the memo stays there.\<close>

definition memoised :: "nat \<Rightarrow> nat \<Rightarrow> lstate \<Rightarrow> bool" where
  "memoised f i s = (memo_get (l_heap s) f = LFun i \<and> h_funs (l_heap s) i = Some (CFn f))"

lemma step_memoised:
  assumes "memo_inv s" "memo_step V s s'" "memoised f i s"
  shows "memoised f i s'"
  using assms(2)
proof (cases rule: memo_step.cases)
  case (Push g)
  from assms(1) Push show ?thesis
  proof (cases rule: push_cases)
    case warm
    then show ?thesis using assms(3) by (simp add: memoised_def)
  next
    case (cold m)
    then have "g \<noteq> f" using assms(3) by (auto simp: memoised_def)
    then have "memo_get (memo_add (l_heap s) m g) f = LFun i"
      using memo_get_other [OF cold(1) memo_pos [OF assms(1) cold(1)]] assms(3) by (auto simp: memoised_def)
    moreover have "i \<noteq> h_newid (l_heap s)" using memo_fun_bound [OF assms(1)] assms(3) by (auto simp: memoised_def)
    ultimately show ?thesis using cold(3) assms(3) by (simp add: memoised_def memo_add_def)
  qed
next
  case Other
  from assms(1) obtain m where m: "memo_at (l_heap s) = LTab m" by (auto simp: memo_inv_def)
  then have "memo_get (l_heap s') f = memo_get (l_heap s) f"
    using Other by (simp add: leaves_memo_def memo_get_def atab_get_def)
  moreover have "h_funs (l_heap s') i = Some (CFn f)"
    using Other assms(3) by (auto simp: leaves_memo_def memoised_def map_le_def dom_def)
  ultimately show ?thesis using assms(3) by (simp add: memoised_def)
qed

lemma steps_memoised:
  assumes "(memo_step V)\<^sup>*\<^sup>* s s'" "memo_inv s" "memoised f i s"
  shows "memo_inv s' \<and> memoised f i s'"
  using assms
  by (induction rule: rtranclp_induct) (auto intro: memo_machine.step_inv step_memoised)

lemma push_memoises:
  assumes "memo_inv s" "lj52_pushcfunction V f s = Inr s'"
  shows "\<exists>i. l_stk s' = l_stk s @ [LFun i] \<and> memoised f i s'"
  using assms
proof (cases rule: push_cases)
  case (cold m)
  then show ?thesis using memo_get_add [OF cold(1) memo_pos [OF assms(1) cold(1)]] by (simp add: memoised_def memo_add_def)
qed (auto simp: memoised_def)

section \<open>The properties of the memo\<close>

text \<open>C17: what \<open>lua_pushcfunction\<close> pushes is always a function object of the very C function asked
  for, and always the same one: however pushes and other code alternate, a second push of a
  function gives the object the first one gave, changes nothing but the stack, and allocates
  nothing.\<close>

theorem memo_push_type:
  assumes "reachable memo_init (memo_step V) s" "lj52_pushcfunction V f s = Inr s1"
    and "(memo_step V)\<^sup>*\<^sup>* s1 s2" "lj52_pushcfunction V f s2 = Inr s3"
  shows "\<exists>i. l_stk s1 = l_stk s @ [LFun i] \<and> h_funs (l_heap s1) i = Some (CFn f) \<and>
    s3 = lua_push (LFun i) s2 \<and> h_funs (l_heap s3) i = Some (CFn f)"
proof -
  have i: "memo_inv s" by (rule memo_machine.reachable_inv [OF assms(1)])
  obtain i where p: "l_stk s1 = l_stk s @ [LFun i]" "memoised f i s1" using push_memoises [OF i assms(2)] by blast
  have "memo_inv s1" by (rule memo_machine.step_inv [OF i memo_step.Push [OF assms(2)]])
  from steps_memoised [OF assms(3) this p(2)] have s2: "memo_inv s2" "memoised f i s2" by auto
  from s2(1) assms(4) have "s3 = lua_push (LFun i) s2"
    by (cases rule: push_cases) (use s2(2) in \<open>auto simp: memoised_def\<close>)
  then show ?thesis using p s2(2) by (auto simp: memoised_def)
qed

text \<open>The example: two functions pushed in a new state, the first of them again.\<close>

definition api_env1 :: lenv where
  "api_env1 = \<lparr>e_wall = (\<lambda>_. True), e_back = (\<lambda>_. True), e_vm = (\<lambda>_ xs h. Inr (last xs, h)), e_rec = True, e_hk = 5\<rparr>"

definition lst0 :: lstate where
  "lst0 = \<lparr>l_stk = [], l_heap = \<lparr>h_tabs = (\<lambda>t k. if t = 0 \<and> k = LNum (d_of_int LJ52_CF_RIDX) then LTab 2 else LNil),
     h_meta = (\<lambda>_. False), h_funs = (\<lambda>_. None), h_newid = 3, h_segs = {}, h_norefuse = 0, h_allocs = 0\<rparr>\<rparr>"

lemma lst0_reachable: "reachable memo_init (memo_step V) lst0"
  by (rule reachable.Init) (simp add: memo_init_def lst0_def memo_at_def fun_eq_iff)

fun push_all :: "lenv \<Rightarrow> nat list \<Rightarrow> lstate \<Rightarrow> lerr + lstate" where
  "push_all V [] s = Inr s"
| "push_all V (f # fs) s = ebind (lj52_pushcfunction V f s) (push_all V fs)"

lemma push_all_steps: "push_all V fs s = Inr s' \<Longrightarrow> (memo_step V)\<^sup>*\<^sup>* s s'"
  by (induction fs arbitrary: s) (auto intro: converse_rtranclp_into_rtranclp memo_step.Push)

text \<open>The functions of a list that are not in the memo yet.\<close>

definition unmemoised :: "nat list \<Rightarrow> lstate \<Rightarrow> nat set" where
  "unmemoised fs s = {f \<in> set fs. memo_get (l_heap s) f = LNil}"

text \<open>C18: no push raises, whatever the wall answers: with a record, and a backing store that has
  memory, any sequence of pushes succeeds, each putting one value on the stack, and together they
  make at most three allocations for each different C function, so the cap is overrun by a
  bounded amount; refusing is as it was afterwards.\<close>

theorem pushes_never_refused:
  assumes "reachable memo_init (memo_step V) s" "e_rec V" "\<And>n. e_back V n" "0 \<le> h_norefuse (l_heap s)"
  shows "\<exists>s'. push_all V fs s = Inr s' \<and> length (l_stk s') = length (l_stk s) + length fs \<and>
    h_allocs (l_heap s') \<le> h_allocs (l_heap s) + 3 * card (set fs) \<and>
    h_norefuse (l_heap s') = h_norefuse (l_heap s)"
proof -
  have "\<exists>s'. push_all V fs s = Inr s' \<and> length (l_stk s') = length (l_stk s) + length fs \<and>
    h_allocs (l_heap s') \<le> h_allocs (l_heap s) + 3 * card (unmemoised fs s) \<and>
    h_norefuse (l_heap s') = h_norefuse (l_heap s)"
    if "memo_inv s" "0 \<le> h_norefuse (l_heap s)" for s
    using that
  proof (induction fs arbitrary: s)
    case (Cons f fs)
    obtain m where m: "memo_ok (l_heap s)" "memo_at (l_heap s) = LTab m" using Cons.prems(1) by (auto simp: memo_inv_def)
    have "\<exists>t. lj52_pushcfunction_raw V f (bump_norefuse V 1 s) = Inr t"
      by (rule raw_total [of _ m]) (use m assms(2,3) Cons.prems(2) in simp_all)
    then obtain s1 where s1: "lj52_pushcfunction V f s = Inr s1" by (auto simp: lj52_pushcfunction_def)
    have i1: "memo_inv s1" by (rule memo_machine.step_inv [OF Cons.prems(1) memo_step.Push [OF s1]])
    have *: "length (l_stk s1) = length (l_stk s) + 1 \<and> h_norefuse (l_heap s1) = h_norefuse (l_heap s) \<and>
        h_allocs (l_heap s1) + 3 * card (unmemoised fs s1) \<le> h_allocs (l_heap s) + 3 * card (unmemoised (f # fs) s)"
      using Cons.prems(1) s1
    proof (cases rule: push_cases)
      case (warm i)
      then have "unmemoised (f # fs) s = unmemoised fs s1" by (auto simp: unmemoised_def)
      then show ?thesis using warm(3) by simp
    next
      case (cold m)
      note pos = memo_pos [OF Cons.prems(1) cold(1)]
      have f: "memo_get (l_heap s1) f \<noteq> LNil" using memo_get_add [OF cold(1) pos] cold(3) by simp
      have g: "memo_get (l_heap s1) g = LNil \<longleftrightarrow> memo_get (l_heap s) g = LNil" if "g \<noteq> f" for g
        using memo_get_other [OF cold(1) pos that] cold(3) by simp
      have "unmemoised (f # fs) s = insert f (unmemoised fs s1)" "f \<notin> unmemoised fs s1"
        using f g cold(2) unfolding unmemoised_def by fastforce+
      moreover have "finite (unmemoised fs s1)" by (simp add: unmemoised_def)
      ultimately show ?thesis using cold(3) by (simp add: memo_add_def)
    qed
    have "0 \<le> h_norefuse (l_heap s1)" using * Cons.prems(2) by simp
    from Cons.IH [OF i1 this] * s1 show ?case by fastforce
  qed (simp add: unmemoised_def)
  moreover have "memo_inv s" by (rule memo_machine.reachable_inv [OF assms(1)])
  moreover have "card (unmemoised fs s) \<le> card (set fs)" unfolding unmemoised_def by (rule card_mono) auto
  ultimately show ?thesis using assms(4) by fastforce
qed

lemmas api_defs = lua_push_def lua_pop_def lua_pushvalue_def lua_remove_def lua_insert_def lua_rawget_def
  lua_rawgeti_def api_rawset_def stk_pos_def lua_gettop_def index_val_def atab_get_def tab_set_def lua_alloc_def
  new_fun_def lua_pushcclosure_def lua_pushlightuserdata_def bump_norefuse_def lua_istable_def lua_isfunction_def
  lj52_pushcfunction_def lj52_pushcfunction_raw_def seg_of_def LUA_REGISTRYINDEX_def LUA_GLOBALSINDEX_def

lemma push_example:
  "\<exists>s1 s2 s3. push_all api_env1 [9] lst0 = Inr s1 \<and> push_all api_env1 [8] s1 = Inr s2 \<and> push_all api_env1 [9] s2 = Inr s3 \<and>
    l_stk s1 = [LFun 3] \<and> l_stk s3 = [LFun 3, LFun 4, LFun 3]"
  by (simp add: api_defs lst0_def api_env1_def)

theorem pushes_never_refused_witness:
  "\<exists>s'. push_all api_env1 [9, 8, 9] lst0 = Inr s' \<and> l_stk s' = [LFun 3, LFun 4, LFun 3] \<and> h_allocs (l_heap s') \<le> 6"
proof -
  obtain s' where s': "push_all api_env1 [9, 8, 9] lst0 = Inr s'" "h_allocs (l_heap s') \<le> 0 + 3 * card (set [9 :: nat, 8, 9])"
    using pushes_never_refused [OF lst0_reachable, of api_env1 "[9, 8, 9]"] by (auto simp: api_env1_def lst0_def)
  moreover from push_example s'(1) have "l_stk s' = [LFun 3, LFun 4, LFun 3]" by auto
  moreover have "card {9 :: nat, 8, 9} = 2" by (simp add: card_insert_if)
  ultimately show ?thesis by auto
qed

theorem memo_push_type_witness:
  "\<exists>s1 s2. push_all api_env1 [9] lst0 = Inr s1 \<and> push_all api_env1 [8] s1 = Inr s2 \<and>
    lj52_pushcfunction api_env1 9 s2 = Inr (lua_push (LFun 3) s2)"
proof -
  from push_example obtain s1 s2 s3 where s: "push_all api_env1 [9] lst0 = Inr s1" "push_all api_env1 [8] s1 = Inr s2"
    "push_all api_env1 [9] s2 = Inr s3" "l_stk s1 = [LFun 3]" by blast
  from s(1,3) have p: "lj52_pushcfunction api_env1 9 lst0 = Inr s1" "lj52_pushcfunction api_env1 9 s2 = Inr s3" by auto
  show ?thesis
    using memo_push_type [OF lst0_reachable p(1) push_all_steps [OF s(2)] p(2)] s p by (auto simp: lst0_def)
qed

section \<open>The helper chunk in place\<close>

definition helpers_at :: "lenv \<Rightarrow> lheap \<Rightarrow> nat \<Rightarrow> bool" where
  "helpers_at V h t = (seg_of (e_hk V) \<in> h_segs h \<and> h_tabs h 0 (LLight (e_hk V)) = LTab t \<and> \<not> h_meta h t \<and>
     (\<forall>(n, g) \<in> {(''cmp'', HCmp), (''arith'', HArith), (''len'', HLen)}.
        \<exists>i. h_tabs h t (LStr n) = LFun i \<and> h_funs h i = Some (Helper g)))"

lemma helper_fun:
  assumes "helpers_at V h t" "(n, g) \<in> {(''cmp'', HCmp), (''arith'', HArith), (''len'', HLen)}"
  obtains i where "h_tabs h t (LStr n) = LFun i" "h_funs h i = Some (Helper g)"
  using assms unfolding helpers_at_def by blast

lemma gethelper_at:
  assumes "helpers_at V (l_heap s) t" "h_tabs (l_heap s) t (LStr n) = LFun i"
  shows "lj52_gethelper V n s =
    ebind (lua_alloc V (l_heap s)) (\<lambda>h. Inr (lua_push (LFun i) (s\<lparr>l_heap := h\<rparr>)))"
proof -
  have l: "lua_pushlightuserdata V (e_hk V) s = Inr (lua_push (LLight (e_hk V)) s)"
    using assms(1) by (simp add: lua_pushlightuserdata_def helpers_at_def)
  have r: "lua_rawget LUA_REGISTRYINDEX (lua_push (LLight (e_hk V)) s) = lua_push (LTab t) s"
    using assms(1) by (cases s) (simp add: lua_rawget_def atab_get_def helpers_at_def lua_push_def)
  have rm: "lua_remove (- 2) (lua_push v (lua_push (LTab t) u)) = lua_push v u" for v u
    by (cases u) (simp add: lua_remove_def stk_pos_neg lua_push_def)
  show ?thesis
  proof (cases "lua_alloc V (l_heap s)")
    case (Inr h)
    then have "h_tabs h = h_tabs (l_heap s)" "h_meta h = h_meta (l_heap s)" by (auto simp: alloc_Inr)
    then show ?thesis using assms Inr
      by (simp add: lj52_gethelper_def l r lua_istable_def lua_getfield_def atab_get_def helpers_at_def rm)
  qed (simp add: lj52_gethelper_def l r lua_istable_def lua_getfield_def)
qed

lemma call_helper:
  assumes "h_funs (l_heap s) i = Some (Helper g)" "l_stk s = xs @ [LFun i] @ ys" "n = length ys"
  shows "lua_call1 V n s =
    ebind (run_helper V g ys (l_heap s)) (\<lambda>(v, h). Inr (s\<lparr>l_stk := xs @ [v], l_heap := h\<rparr>))"
  using assms by (simp add: lua_call1_def)

text \<open>The indices C callers may pass: a slot in use, counted from either end, or a pseudo-index.\<close>

definition valid_index :: "lstate \<Rightarrow> int \<Rightarrow> bool" where
  "valid_index s idx = (0 < idx \<and> idx \<le> lua_gettop s \<or>
     idx < 0 \<and> LUA_REGISTRYINDEX < idx \<and> - idx \<le> lua_gettop s \<or>
     idx = LUA_REGISTRYINDEX \<or> idx = LUA_GLOBALSINDEX)"

lemma absindex_stable:
  assumes "valid_index s idx" "l_stk s' = l_stk s @ xs"
  shows "index_val s' (lua_absindex s idx) = index_val s idx"
  using assms
  by (auto simp: valid_index_def lua_absindex_def index_val_def stk_pos_def lua_gettop_def nth_append
      LUA_REGISTRYINDEX_def LUA_GLOBALSINDEX_def)

lemma num_is_small: "\<bar>a\<bar> \<le> 2 ^ 31 \<Longrightarrow> 0 \<le> n \<Longrightarrow> n \<le> 6 \<Longrightarrow> num_is (LNum (d_of_int a)) n \<longleftrightarrow> a = n"
  by (rule num_is_int) simp_all

definition compare_op :: "int \<Rightarrow> vmop" where
  "compare_op opc = (if opc = 0 then VEq else if opc = 1 then VLt else VLe)"

definition arith_ops :: "vmop list" where
  "arith_ops = [VAdd, VSub, VMul, VDiv, VMod, VPow, VUnm]"

lemma compare_eq:
  assumes "helpers_at V (l_heap s) t" "valid_index s i1" "valid_index s i2" "\<bar>opc\<bar> \<le> 2 ^ 31"
  shows "lua_compare V i1 i2 opc s =
    ebind (lua_alloc V (l_heap s)) (\<lambda>h.
    ebind (e_vm V (compare_op opc) [index_val s i1, index_val s i2] h) (\<lambda>(r, h).
      Inr (lua_toboolean r, s\<lparr>l_heap := h\<rparr>)))"
proof -
  obtain i where i: "h_tabs (l_heap s) t (LStr ''cmp'') = LFun i" "h_funs (l_heap s) i = Some (Helper HCmp)"
    by (rule helper_fun [OF assms(1), of "''cmp''" HCmp]) simp_all
  show ?thesis
  proof (cases "lua_alloc V (l_heap s)")
    case (Inr h)
    let ?s = "lua_push (LNum (d_of_int opc)) (lua_push (LFun i) (s\<lparr>l_heap := h\<rparr>))"
    have v1: "lua_pushvalue (lua_absindex s i1) ?s = lua_push (index_val s i1) ?s"
      using absindex_stable [OF assms(2), of ?s] by (simp add: lua_pushvalue_def)
    have v2: "lua_pushvalue (lua_absindex s i2) (lua_push v ?s) = lua_push (index_val s i2) (lua_push v ?s)" for v
      using absindex_stable [OF assms(3), of "lua_push v ?s"] by (simp add: lua_pushvalue_def)
    have "h_funs h i = Some (Helper HCmp)" using Inr i(2) by (auto simp: alloc_Inr)
    then have c: "lua_call1 V 3 (lua_push (index_val s i2) (lua_push (index_val s i1) ?s)) =
      ebind (run_helper V HCmp [LNum (d_of_int opc), index_val s i1, index_val s i2] h)
        (\<lambda>(v, h). Inr (lua_push v (s\<lparr>l_heap := h\<rparr>)))"
      by (subst call_helper [where xs = "l_stk s" and ys = "[LNum (d_of_int opc), index_val s i1, index_val s i2]"])
        (cases s; simp add: lua_push_def)+
    have "run_helper V HCmp [LNum (d_of_int opc), a, b] h = e_vm V (compare_op opc) [a, b] h" for a b
      by (simp add: run_helper_def helper_cmp_def arg_val_def num_is_small [OF assms(4)] compare_op_def)
    then show ?thesis
      unfolding lua_compare_def Let_def gethelper_at [OF assms(1) i(1)] Inr ebind_Inr v1 v2 c
      by (auto simp: ebind_def split: sum.splits)
  qed (simp add: lua_compare_def gethelper_at [OF assms(1) i(1)])
qed

lemma arith_eq:
  assumes "helpers_at V (l_heap s) t" "l_stk s = xs @ ys" "length ys = (if opc = LUA_OPUNM then 1 else 2)" "\<bar>opc\<bar> \<le> 2 ^ 31"
  shows "lua_arith V opc s =
    ebind (lua_alloc V (l_heap s)) (\<lambda>h.
    ebind (if 0 \<le> opc \<and> opc \<le> 6 then e_vm V (arith_ops ! nat opc) ys h else Inl (ErrRun ''bad arith op'')) (\<lambda>(r, h).
      Inr (s\<lparr>l_stk := xs @ [r], l_heap := h\<rparr>)))"
proof -
  obtain i where i: "h_tabs (l_heap s) t (LStr ''arith'') = LFun i" "h_funs (l_heap s) i = Some (Helper HArith)"
    by (rule helper_fun [OF assms(1), of "''arith''" HArith]) simp_all
  let ?n = "if opc = LUA_OPUNM then 1 else 2 :: int"
  have n: "lua_gettop s - ?n + 1 = int (length xs) + 1" using assms(2,3) by (auto simp: lua_gettop_def)
  show ?thesis
  proof (cases "lua_alloc V (l_heap s)")
    case (Inr h)
    let ?t = "\<lambda>zs. s\<lparr>l_stk := zs, l_heap := h\<rparr>"
    have i1: "lua_insert (int (length xs) + 1) (lua_push (LFun i) (s\<lparr>l_heap := h\<rparr>)) = ?t (xs @ [LFun i] @ ys)"
      using assms(2) butlast_snoc [of "xs @ ys" "LFun i"]
      by (cases s) (simp add: lua_insert_def lua_push_def stk_pos_def Let_def)
    have i2: "lua_insert (int (length xs) + 1 + 1) (lua_push v (?t (xs @ [LFun i] @ ys))) = ?t (xs @ [LFun i] @ v # ys)" for v
      by (cases s) (simp add: lua_insert_def lua_push_def stk_pos_def nat_add_distrib butlast_append)
    have "h_funs h i = Some (Helper HArith)" using Inr i(2) by (auto simp: alloc_Inr)
    then have c: "lua_call1 V (nat ?n + 1) (?t (xs @ [LFun i] @ v # ys)) =
      ebind (run_helper V HArith (v # ys) h) (\<lambda>(v, h). Inr (s\<lparr>l_stk := xs @ [v], l_heap := h\<rparr>))" for v
      using assms(3) by (subst call_helper [where xs = xs]) simp_all
    have "opc = LUA_OPUNM \<or> (\<exists>a b. ys = [a, b])" "opc = LUA_OPUNM \<Longrightarrow> \<exists>a. ys = [a]"
      using assms(3) by (auto simp: length_Suc_conv numeral_2_eq_2 split: if_splits)
    then have "run_helper V HArith (LNum (d_of_int opc) # ys) h =
        (if 0 \<le> opc \<and> opc \<le> 6 then e_vm V (arith_ops ! nat opc) ys h else Inl (ErrRun ''bad arith op''))"
      by (auto simp: run_helper_def helper_arith_def arg_val_def num_is_small [OF assms(4)] arith_ops_def LUA_OPUNM_def
          nth_Cons' nat_eq_iff)
    then show ?thesis
      unfolding lua_arith_def Let_def n gethelper_at [OF assms(1) i(1)] Inr ebind_Inr i1 i2 c by simp
  qed (simp add: lua_arith_def gethelper_at [OF assms(1) i(1)])
qed

lemma len_eq:
  assumes "helpers_at V (l_heap s) t" "valid_index s idx"
  shows "lua_len V idx s =
    ebind (lua_alloc V (l_heap s)) (\<lambda>h.
    ebind (e_vm V VLen [index_val s idx] h) (\<lambda>(r, h). Inr (lua_push r (s\<lparr>l_heap := h\<rparr>))))"
proof -
  obtain i where i: "h_tabs (l_heap s) t (LStr ''len'') = LFun i" "h_funs (l_heap s) i = Some (Helper HLen)"
    by (rule helper_fun [OF assms(1), of "''len''" HLen]) simp_all
  show ?thesis
  proof (cases "lua_alloc V (l_heap s)")
    case (Inr h)
    let ?s = "lua_push (LFun i) (s\<lparr>l_heap := h\<rparr>)"
    have v: "lua_pushvalue (lua_absindex s idx) ?s = lua_push (index_val s idx) ?s"
      using absindex_stable [OF assms(2), of ?s] by (simp add: lua_pushvalue_def)
    have "h_funs h i = Some (Helper HLen)" using Inr i(2) by (auto simp: alloc_Inr)
    then have c: "lua_call1 V 1 (lua_push (index_val s idx) ?s) =
      ebind (run_helper V HLen [index_val s idx] h) (\<lambda>(v, h). Inr (lua_push v (s\<lparr>l_heap := h\<rparr>)))"
      by (subst call_helper [where xs = "l_stk s" and ys = "[index_val s idx]"]) (cases s; simp add: lua_push_def)+
    show ?thesis
      unfolding lua_len_def Let_def gethelper_at [OF assms(1) i(1)] Inr ebind_Inr v c
      by (simp add: run_helper_def arg_val_def)
  qed (simp add: lua_len_def gethelper_at [OF assms(1) i(1)])
qed

text \<open>Loading the chunk puts the helpers in place and leaves the stack as it was.\<close>

lemma new_tab_Inr:
  "new_tab V h = Inr (t, h') \<Longrightarrow> t = h_newid h \<and>
    h' = h\<lparr>h_allocs := h_allocs h + 1, h_tabs := (h_tabs h)(t := (\<lambda>_. LNil)), h_meta := (h_meta h)(t := False), h_newid := t + 1\<rparr>"
  by (auto simp: new_tab_def alloc_Inr)

lemma run_chunk_D:
  assumes "run_chunk V h = Inr (t, h')"
  shows "t = h_newid h + 3 \<and> h_newid h' = h_newid h + 4 \<and> h_segs h' = h_segs h \<and>
    h_meta h' = (h_meta h)(t := False) \<and>
    h_tabs h' = (h_tabs h)(t := (\<lambda>_. LNil)(LStr ''cmp'' := LFun (h_newid h), LStr ''arith'' := LFun (h_newid h + 1),
      LStr ''len'' := LFun (h_newid h + 2))) \<and>
    h_funs h' = (h_funs h)(h_newid h \<mapsto> Helper HCmp, h_newid h + 1 \<mapsto> Helper HArith, h_newid h + 2 \<mapsto> Helper HLen)"
proof -
  obtain h1 c h2 a h3 n h4 h5 where h1: "lua_alloc V h = Inr h1" and h2: "new_fun V (Helper HCmp) h1 = Inr (c, h2)"
    and h3: "new_fun V (Helper HArith) h2 = Inr (a, h3)" and h4: "new_fun V (Helper HLen) h3 = Inr (n, h4)"
    and h5: "new_tab V h4 = Inr (t, h5)"
    and h': "h' = h5\<lparr>h_tabs := (h_tabs h5)(t := (\<lambda>_. LNil)(LStr ''cmp'' := LFun c, LStr ''arith'' := LFun a, LStr ''len'' := LFun n))\<rparr>"
    using assms unfolding run_chunk_def by auto
  have 1: "h1 = h\<lparr>h_allocs := h_allocs h + 1\<rparr>" using h1 by (simp add: alloc_Inr)
  note f = h2 [unfolded new_fun_Inr] h3 [unfolded new_fun_Inr] h4 [unfolded new_fun_Inr] new_tab_Inr [OF h5]
  show ?thesis using f by (simp add: h' 1)
qed

lemma install_heap:
  assumes "lj52_installhelpers V s = Inr s'"
  obtains t h h2 where "run_chunk V (l_heap s) = Inr (t, h)" "s' = s\<lparr>l_heap := h2\<rparr>" "seg_of (e_hk V) \<in> h_segs h2"
    "h_tabs h2 = (h_tabs h)(0 := (h_tabs h 0)(LLight (e_hk V) := LTab t))" "h_meta h2 = h_meta h" "h_funs h2 = h_funs h"
    "h_newid h2 = h_newid h"
proof -
  obtain t h s1 where c: "run_chunk V (l_heap s) = Inr (t, h)"
    and l: "lua_pushlightuserdata V (e_hk V) (lua_push (LTab t) (s\<lparr>l_heap := h\<rparr>)) = Inr s1"
    and r: "api_rawset V LUA_REGISTRYINDEX (lua_insert (- 2) s1) = Inr s'"
    using assms(1) by (auto simp: lj52_installhelpers_def)
  obtain h1 where s1: "s1 = lua_push (LLight (e_hk V)) (lua_push (LTab t) (s\<lparr>l_heap := h1\<rparr>))"
    and h1: "seg_of (e_hk V) \<in> h_segs h1" "h_tabs h1 = h_tabs h" "h_meta h1 = h_meta h" "h_funs h1 = h_funs h" "h_newid h1 = h_newid h"
    using light_Inr [OF l] by (auto split: if_splits)
  have i: "lua_insert (- 2) s1 = lua_push (LTab t) (lua_push (LLight (e_hk V)) (s\<lparr>l_heap := h1\<rparr>))"
    by (cases s) (simp add: s1 lua_insert_def lua_push_def stk_pos_neg Let_def butlast_append)
  obtain h2 where h2: "tab_set V 0 (LLight (e_hk V)) (LTab t) h1 = Inr h2" "s' = s\<lparr>l_heap := h2\<rparr>"
    using r unfolding i by (cases s) (auto simp: api_rawset_def lua_push_def lua_pop_def butlast_append)
  show thesis using that [OF c h2(2)] tab_set_Inr [OF h2(1)] h1 by simp
qed

lemma install_helpers:
  assumes "lj52_installhelpers V s = Inr s'" "0 < h_newid (l_heap s)"
  shows "l_stk s' = l_stk s \<and> (\<exists>t. helpers_at V (l_heap s') t \<and> h_newid (l_heap s) < t \<and> t < h_newid (l_heap s'))"
  using assms(1)
proof (cases rule: install_heap)
  case (1 t h h2)
  from run_chunk_D [OF 1(1)] 1 have "helpers_at V h2 t" by (simp add: helpers_at_def)
  then show ?thesis using run_chunk_D [OF 1(1)] 1 by auto
qed

section \<open>The properties of the operators\<close>

text \<open>C19: the comparison, arithmetic and length of the C API are those of LuaJIT's own operators, on the
  values the caller's indices named before anything was pushed: comparison fires ==, < or <= in
  the given order and leaves the stack as it was, arithmetic replaces its operands, two, or one
  for the unary minus, with the result, length pushes one value; an error is the operator's own,
  out of memory, or an operation there is none of.\<close>

theorem vm_operators:
  assumes "helpers_at V (l_heap s) t" "\<bar>opc\<bar> \<le> 2 ^ 31"
    and "valid_index s i1" "valid_index s i2"
    and "l_stk s = xs @ ys" "length ys = (if opc = LUA_OPUNM then 1 else 2)"
  shows "lua_compare V i1 i2 opc s =
      ebind (lua_alloc V (l_heap s)) (\<lambda>h.
      ebind (e_vm V (compare_op opc) [index_val s i1, index_val s i2] h) (\<lambda>(r, h).
        Inr (lua_toboolean r, s\<lparr>l_heap := h\<rparr>))) \<and>
    lua_arith V opc s =
      ebind (lua_alloc V (l_heap s)) (\<lambda>h.
      ebind (if 0 \<le> opc \<and> opc \<le> 6 then e_vm V (arith_ops ! nat opc) ys h else Inl (ErrRun ''bad arith op'')) (\<lambda>(r, h).
        Inr (s\<lparr>l_stk := xs @ [r], l_heap := h\<rparr>))) \<and>
    lua_len V i1 s =
      ebind (lua_alloc V (l_heap s)) (\<lambda>h.
      ebind (e_vm V VLen [index_val s i1] h) (\<lambda>(r, h). Inr (lua_push r (s\<lparr>l_heap := h\<rparr>))))"
  using compare_eq [OF assms(1,3,4,2)] arith_eq [OF assms(1,5,6,2)] len_eq [OF assms(1,3)] by blast

text \<open>The example: a state with the helpers loaded and two strings on its stack; the operators give their
  last operand.\<close>

definition api_env2 :: lenv where
  "api_env2 = api_env1\<lparr>e_wall := (\<lambda>_. False)\<rparr>"

definition lst2 :: lstate where
  "lst2 = lua_push (LStr ''b'') (lua_push (LStr ''a'') lst0)"

lemma install_example: "\<exists>s. lj52_installhelpers api_env2 lst2 = Inr s"
  by (simp add: lj52_installhelpers_def run_chunk_def new_tab_def api_defs lst2_def lst0_def api_env1_def api_env2_def)

theorem vm_operators_witness:
  "\<exists>s s1 s2. lj52_installhelpers api_env2 lst2 = Inr s \<and> l_stk s = [LStr ''a'', LStr ''b''] \<and>
    lua_compare api_env2 (- 2) (- 1) 2 s = Inr (True, s1) \<and> l_stk s1 = [LStr ''a'', LStr ''b''] \<and>
    lua_arith api_env2 0 s = Inr s2 \<and> l_stk s2 = [LStr ''b'']"
proof -
  obtain s where s: "lj52_installhelpers api_env2 lst2 = Inr s" using install_example by blast
  have "0 < h_newid (l_heap lst2)" by (simp add: lst2_def lst0_def)
  from install_helpers [OF s this] obtain t where t: "l_stk s = [] @ [LStr ''a'', LStr ''b'']" "helpers_at api_env2 (l_heap s) t"
    by (auto simp: lst2_def lst0_def)
  have a: "lua_alloc api_env2 h = Inr (h\<lparr>h_allocs := h_allocs h + 1\<rparr>)" for h
    by (simp add: lua_alloc_def api_env2_def api_env1_def)
  have vm: "e_vm api_env2 p zs h = Inr (last zs, h)" for p zs h by (simp add: api_env2_def api_env1_def)
  have v: "valid_index s (- 2)" "valid_index s (- 1)" "index_val s (- 1) = LStr ''b''"
    using t(1) by (simp_all add: valid_index_def lua_gettop_def LUA_REGISTRYINDEX_def index_val_neg)
  note c = vm_operators [OF t(2) _ v(1,2) t(1)]
  show ?thesis
    using c [of 2, THEN conjunct1] c [of 0, THEN conjunct2, THEN conjunct1] s t(1) v(3)
    by (simp add: a vm LUA_OPUNM_def arith_ops_def compare_op_def lua_toboolean_def)
qed

section \<open>The auxiliary library\<close>

text \<open>A module that \<open>package.loaded\<close> has is pushed as it is: its opener is not called.\<close>

lemma requiref_loaded:
  assumes reg: "h_tabs (l_heap s) 0 (LStr ''_LOADED'') = LTab t" "\<not> h_meta (l_heap s) 0" "\<not> h_meta (l_heap s) t"
    and v: "h_tabs (l_heap s) t (LStr m) = v" "lua_toboolean v"
    and r: "luaL_requiref V m f False s = Inr s'"
  shows "s' = lua_push v (s\<lparr>l_heap := (l_heap s)\<lparr>h_allocs := h_allocs (l_heap s) + 2\<rparr>\<rparr>)"
proof -
  let ?s = "\<lambda>n. s\<lparr>l_heap := (l_heap s)\<lparr>h_allocs := h_allocs (l_heap s) + n\<rparr>\<rparr>"
  have a: "lua_absindex s LUA_REGISTRYINDEX = LUA_REGISTRYINDEX" by (simp add: lua_absindex_def)
  have g: "lua_getfield V LUA_REGISTRYINDEX ''_LOADED'' s = Inr u \<Longrightarrow> u = lua_push (LTab t) (?s 1)" for u
    using reg by (auto simp: lua_getfield_def alloc_Inr atab_get_def)
  have g2: "lua_getfield V (- 1) m (lua_push (LTab t) (?s 1)) = Inr u \<Longrightarrow> u = lua_push v (lua_push (LTab t) (?s 2))" for u
    using reg v(1) by (auto simp: lua_getfield_def alloc_Inr atab_get_def)
  have rp: "lua_replace (- 2) (lua_push v (lua_push (LTab t) u)) = lua_push v u" for u
    by (cases u) (simp add: lua_replace_def stk_pos_neg lua_push_def Let_def nth_append butlast_append)
  from r obtain b u1 where u1: "luaL_getsubtable V LUA_REGISTRYINDEX ''_LOADED'' s = Inr (b, u1)"
    unfolding luaL_requiref_def by (auto simp: ebind_def split: sum.splits)
  then have u1': "u1 = lua_push (LTab t) (?s 1)"
    using g unfolding luaL_getsubtable_def a Let_def by (fastforce simp: ebind_def lua_istable_def split: sum.splits if_splits)
  from r obtain u2 where u2: "lua_getfield V (- 1) m u1 = Inr u2"
    unfolding luaL_requiref_def u1 ebind_Inr by (auto simp: ebind_def split: sum.splits)
  then have u2': "u2 = lua_push v (lua_push (LTab t) (?s 2))" using g2 u1' by simp
  show ?thesis
    using r v(2) unfolding luaL_requiref_def u1 ebind_Inr prod.case u2 u2' by (simp add: rp)
qed

text \<open>\<open>luaL_tolstring\<close> leaves a string on the top and every value below it as it was, or raises.\<close>

lemma tolstring_string:
  assumes "luaL_tolstring V meta num ptr idx s = Inr (r, s')"
  shows "\<exists>x. r = Some x \<and> l_stk s' = l_stk s @ [LStr x]"
proof -
  let ?v = "index_val s (lua_absindex s idx)"
  have p: "lua_pushstring V x s = Inr s1 \<Longrightarrow> \<exists>h. s1 = lua_push (LStr x) (s\<lparr>l_heap := h\<rparr>)" for x s s1
    by (auto simp: lua_pushstring_def)
  have top: "tostring_top V num (lua_push v u) = Inr (r, s') \<Longrightarrow> (\<exists>x. v = LStr x) \<or> (\<exists>d. v = LNum d) \<Longrightarrow>
      \<exists>x. r = Some x \<and> l_stk s' = l_stk u @ [LStr x]" for v u
    by (auto simp: tostring_top_def dest!: p)
  obtain q h where q: "meta ?v (l_heap s) = Inr (q, h)"
    using assms by (auto simp: luaL_tolstring_def Let_def)
  from assms obtain v u where "tostring_top V num (lua_push v u) = Inr (r, s')" "l_stk u = l_stk s"
      "(\<exists>x. v = LStr x) \<or> (\<exists>d. v = LNum d)"
    unfolding luaL_tolstring_def Let_def q ebind_Inr prod.case
    by (cases q; cases ?v) (auto split: apival.splits dest!: p)
  then show ?thesis using top by metis
qed

end
