(* ===== verification/ShimSetup.thy ===== *)
theory ShimSetup
  imports ShimApi
begin

text \<open>
  native/lj52shim.c, what \<open>lj52_newstate\<close> puts into a new state: the registry's 5.2 layout, the memo's
  table, the helper chunk, the JIT, the markers and the instruments (\<open>lj52_wd_install\<close>). It is the
  birth of the machine whose memo is an invariant in the theory of the C API. LuaJIT's own
  \<open>luaopen_jit\<close> is a parameter.
\<close>

section \<open>The setup\<close>

definition lua_rawseti :: "lenv \<Rightarrow> int \<Rightarrow> int \<Rightarrow> lstate \<Rightarrow> lerr + lstate" where
  "lua_rawseti V idx n s =
     (case index_val s idx of
        LTab t \<Rightarrow>
          ebind (tab_set V t (LNum (d_of_int n)) (last (l_stk s)) (l_heap s)) (\<lambda>h. Inr (lua_pop 1 (s\<lparr>l_heap := h\<rparr>)))
      | _ \<Rightarrow> Inl (ErrRun ''table expected''))"

text \<open>Every address of the shim's image that is pushed: the seed, \<open>luaopen_jit\<close> and the functions it
  installs.\<close>

record image =
  im_seed :: nat
  im_openjit :: nat
  im_arm :: nat
  im_disarm :: nat
  im_depth :: nat
  im_stats :: nat
  im_jitstats :: nat
  im_gcstats :: nat
  im_wallstats :: nat
  im_vgcstats :: nat

definition ns_registry :: "lenv \<Rightarrow> image \<Rightarrow> lstate \<Rightarrow> lerr + lstate" where
  "ns_registry V I s =
     ebind (lua_rawseti V LUA_REGISTRYINDEX 1 (lua_push (LOther ''thread'' 0) s)) (\<lambda>s.
     ebind (lua_rawseti V LUA_REGISTRYINDEX 2 (lua_pushvalue LUA_GLOBALSINDEX s)) (\<lambda>s.
     ebind (lua_newtable V s) (\<lambda>s.
     ebind (lua_rawseti V LUA_REGISTRYINDEX LJ52_CF_RIDX s) (\<lambda>s.
     ebind (lua_pushlightuserdata V (im_seed I) s) (\<lambda>s.
       lj52_installhelpers V (lua_pop 1 s))))))"

text \<open>\<open>jit\<close> answers the protected call: the new heap, and the text of the error if there was one.\<close>

definition ns_jit :: "lenv \<Rightarrow> image \<Rightarrow> (lheap \<Rightarrow> string option \<times> lheap) \<Rightarrow> lstate \<Rightarrow> lerr + lstate" where
  "ns_jit V I jit s =
     ebind (lua_pushcclosure V (im_openjit I) s) (\<lambda>s.
     ebind (lua_pushstring V ''jit'' s) (\<lambda>s.
     let (r, h) = jit (l_heap s); s = lua_pop 2 (s\<lparr>l_heap := h\<rparr>) in
     ebind
       (case r of
          None \<Rightarrow> lua_pushstring V ''ok'' s
        | Some e \<Rightarrow>
            ebind (lua_pushstring V (''luaopen_jit failed: '' @ e) (lua_push (LStr e) s)) (\<lambda>s. Inr (lua_remove (- 2) s)))
       (lua_setfield V LUA_GLOBALSINDEX ''_OCLJ_JIT'')))"

definition set_fun :: "lenv \<Rightarrow> int \<Rightarrow> string \<Rightarrow> nat \<Rightarrow> lstate \<Rightarrow> lerr + lstate" where
  "set_fun V idx name f s = ebind (lua_pushcclosure V f s) (lua_setfield V idx name)"

definition lj52_wd_install :: "lenv \<Rightarrow> image \<Rightarrow> lstate \<Rightarrow> lerr + lstate" where
  "lj52_wd_install V I s =
     ebind (lua_newtable V s) (\<lambda>s.
     ebind (set_fun V (- 2) ''arm'' (im_arm I) s) (\<lambda>s.
     ebind (set_fun V (- 2) ''disarm'' (im_disarm I) s) (\<lambda>s.
     ebind (set_fun V (- 2) ''depth'' (im_depth I) s) (\<lambda>s.
     ebind (set_fun V (- 2) ''stats'' (im_stats I) s) (\<lambda>s.
     ebind (lua_setfield V LUA_GLOBALSINDEX ''_OCLJ_WATCHDOG'' s) (\<lambda>s.
     ebind (set_fun V LUA_GLOBALSINDEX ''_OCLJ_JITSTATS'' (im_jitstats I) s) (\<lambda>s.
     ebind (set_fun V LUA_GLOBALSINDEX ''_OCLJ_GCSTATS'' (im_gcstats I) s) (\<lambda>s.
     ebind (set_fun V LUA_GLOBALSINDEX ''_OCLJ_WALLSTATS'' (im_wallstats I) s)
       (set_fun V LUA_GLOBALSINDEX ''_OCLJ_VGCSTATS'' (im_vgcstats I))))))))))"

definition ns_setup :: "lenv \<Rightarrow> image \<Rightarrow> (lheap \<Rightarrow> string option \<times> lheap) \<Rightarrow> string \<Rightarrow> lstate \<Rightarrow> lerr + lstate" where
  "ns_setup V I jit version s =
     ebind (ns_registry V I s) (\<lambda>s.
     ebind (ns_jit V I jit s) (\<lambda>s.
     ebind (lua_pushstring V (''luajit/'' @ version) s) (\<lambda>s.
     ebind (lua_setfield V LUA_GLOBALSINDEX ''_OCLJ_NATIVE'' s) (lj52_wd_install V I))))"

section \<open>What later steps leave alone\<close>

text \<open>From \<open>h0\<close> on, only the globals, new tables and the names of the registry are written
  (\<open>luaopen_jit\<close> puts itself into \<open>_LOADED\<close>).\<close>

definition is_name :: "apival \<Rightarrow> bool" where
  "is_name k = (case k of LStr _ \<Rightarrow> True | _ \<Rightarrow> False)"

definition kept :: "lheap \<Rightarrow> lheap \<Rightarrow> bool" where
  "kept h0 h = ((\<forall>t < h_newid h0. t \<noteq> 1 \<longrightarrow> h_meta h t = h_meta h0 t \<and>
       (\<forall>k. 0 < t \<or> \<not> is_name k \<longrightarrow> h_tabs h t k = h_tabs h0 t k)) \<and>
     (\<forall>i f. h_funs h0 i = Some f \<longrightarrow> h_funs h i = Some f) \<and> h_segs h0 \<subseteq> h_segs h \<and> h_newid h0 \<le> h_newid h \<and>
     (\<forall>i. h_funs h i \<noteq> None \<longrightarrow> i < h_newid h) \<and> \<not> h_meta h 1 \<and> 1 < h_newid h0)"

lemma kept_alloc: "kept h0 h \<Longrightarrow> lua_alloc V h = Inr h' \<Longrightarrow> kept h0 h'"
  by (auto simp: alloc_Inr kept_def)

lemma kept_fun: "kept h0 h \<Longrightarrow> new_fun V f h = Inr (i, h') \<Longrightarrow> kept h0 h'"
  by (force simp: new_fun_Inr kept_def)

lemma kept_tab: "kept h0 h \<Longrightarrow> new_tab V h = Inr (t, h') \<Longrightarrow> kept h0 h' \<and> h_newid h0 \<le> t \<and> \<not> h_meta h' t"
  by (auto simp: kept_def less_Suc_eq dest!: new_tab_Inr)

lemma kept_set: "kept h0 h \<Longrightarrow> tab_set V t k v h = Inr h' \<Longrightarrow> t = 1 \<or> h_newid h0 \<le> t \<Longrightarrow>
    kept h0 h' \<and> h_meta h' = h_meta h"
  by (auto simp: kept_def dest!: tab_set_Inr split: if_splits)

lemma kept_push: "kept h0 (l_heap s) \<Longrightarrow> lua_pushcclosure V f s = Inr s' \<Longrightarrow>
    kept h0 (l_heap s') \<and> (\<exists>i. l_stk s' = l_stk s @ [LFun i]) \<and> h_meta (l_heap s') = h_meta (l_heap s)"
  by (auto simp: lua_pushcclosure_def dest: kept_fun) (auto simp: new_fun_Inr)

lemma kept_string: "kept h0 (l_heap s) \<Longrightarrow> lua_pushstring V x s = Inr s' \<Longrightarrow>
    kept h0 (l_heap s') \<and> l_stk s' = l_stk s @ [LStr x]"
  by (auto simp: lua_pushstring_def dest: kept_alloc)

lemma kept_setfield:
  assumes k: "kept h0 (l_heap s)" and r: "lua_setfield V idx name s = Inr s'"
    and t: "index_val s idx = LTab t" "\<not> h_meta (l_heap s) t" "t = 1 \<or> h_newid h0 \<le> t" and x: "l_stk s = xs @ [v]"
  shows "kept h0 (l_heap s') \<and> l_stk s' = xs \<and> h_meta (l_heap s') = h_meta (l_heap s)"
proof -
  obtain h where h: "lua_alloc V (l_heap s) = Inr h" using r by (auto simp: lua_setfield_def)
  have m: "h_meta h = h_meta (l_heap s)" using h by (auto simp: alloc_Inr)
  obtain h' where "tab_set V t (LStr name) v h = Inr h'" "s' = lua_pop 1 (s\<lparr>l_heap := h'\<rparr>)"
    using r t(1,2) x m by (auto simp: lua_setfield_def h Let_def)
  then show ?thesis using kept_set [OF kept_alloc [OF k h] _ t(3)] m x by auto
qed

lemma kept_setfun:
  assumes "kept h0 (l_heap s)" "set_fun V idx name f s = Inr s'"
    and "\<And>v. index_val (lua_push v s) idx = LTab t" "\<not> h_meta (l_heap s) t" "t = 1 \<or> h_newid h0 \<le> t"
  shows "kept h0 (l_heap s') \<and> l_stk s' = l_stk s \<and> h_meta (l_heap s') = h_meta (l_heap s)"
proof -
  obtain s1 where s1: "lua_pushcclosure V f s = Inr s1" "lua_setfield V idx name s1 = Inr s'"
    using assms(2) by (auto simp: set_fun_def)
  from kept_push [OF assms(1) s1(1)] obtain i where i: "kept h0 (l_heap s1)" "l_stk s1 = l_stk s @ [LFun i]"
    "h_meta (l_heap s1) = h_meta (l_heap s)" by blast
  have "index_val s1 idx = index_val (lua_push (LFun i) s) idx"
    using i(2) by (simp add: index_val_def stk_pos_def lua_gettop_def)
  then show ?thesis using kept_setfield [OF i(1) s1(2) _ _ assms(5) i(2)] assms(3,4) i(3) by simp
qed

lemma index_globals [simp]: "index_val s LUA_GLOBALSINDEX = LTab 1"
  by (simp add: index_val_def LUA_REGISTRYINDEX_def LUA_GLOBALSINDEX_def)

lemma kept_refl:
  "(\<forall>i. h_funs h i \<noteq> None \<longrightarrow> i < h_newid h) \<Longrightarrow> \<not> h_meta h 1 \<Longrightarrow> 1 < h_newid h \<Longrightarrow> kept h h"
  by (simp add: kept_def)

lemma setfun_global:
  assumes "kept h0 (l_heap s)" "set_fun V LUA_GLOBALSINDEX name f s = Inr s'"
  shows "kept h0 (l_heap s') \<and> l_stk s' = l_stk s \<and> h_meta (l_heap s') = h_meta (l_heap s)"
  using assms by (intro kept_setfun [where t = 1]) (auto simp: kept_def)

lemma setfield_global:
  assumes "kept h0 (l_heap s)" "lua_setfield V LUA_GLOBALSINDEX name s = Inr s'" "l_stk s = xs @ [v]"
  shows "kept h0 (l_heap s') \<and> l_stk s' = xs \<and> h_meta (l_heap s') = h_meta (l_heap s)"
  using assms by (intro kept_setfield [where t = 1]) (auto simp: kept_def)

lemma setfun_table:
  assumes "kept h0 (l_heap s)" "set_fun V (- 2) name f s = Inr s'" "l_stk s = xs @ [LTab t]"
    "\<not> h_meta (l_heap s) t" "h_newid h0 \<le> t"
  shows "kept h0 (l_heap s') \<and> l_stk s' = xs @ [LTab t] \<and> \<not> h_meta (l_heap s') t"
  using kept_setfun [OF assms(1,2) _ assms(4)] assms(3-5) by (simp add: index_val_m nth_append)

lemma install_kept:
  assumes k: "kept h0 (l_heap s)" and r: "lj52_wd_install V I s = Inr s'"
  shows "kept h0 (l_heap s') \<and> l_stk s' = l_stk s"
proof -
  obtain s1 s2 s3 s4 s5 s6 s7 s8 s9 where
    s1: "lua_newtable V s = Inr s1" and
    f: "set_fun V (- 2) ''arm'' (im_arm I) s1 = Inr s2" "set_fun V (- 2) ''disarm'' (im_disarm I) s2 = Inr s3"
      "set_fun V (- 2) ''depth'' (im_depth I) s3 = Inr s4" "set_fun V (- 2) ''stats'' (im_stats I) s4 = Inr s5" and
    g: "lua_setfield V LUA_GLOBALSINDEX ''_OCLJ_WATCHDOG'' s5 = Inr s6" and
    i: "set_fun V LUA_GLOBALSINDEX ''_OCLJ_JITSTATS'' (im_jitstats I) s6 = Inr s7"
      "set_fun V LUA_GLOBALSINDEX ''_OCLJ_GCSTATS'' (im_gcstats I) s7 = Inr s8"
      "set_fun V LUA_GLOBALSINDEX ''_OCLJ_WALLSTATS'' (im_wallstats I) s8 = Inr s9"
      "set_fun V LUA_GLOBALSINDEX ''_OCLJ_VGCSTATS'' (im_vgcstats I) s9 = Inr s'"
    using r unfolding lj52_wd_install_def by auto
  obtain t h where t: "new_tab V (l_heap s) = Inr (t, h)" "s1 = lua_push (LTab t) (s\<lparr>l_heap := h\<rparr>)"
    using s1 by (auto simp: lua_newtable_def)
  note k1 = kept_tab [OF k t(1)]
  have 1: "kept h0 (l_heap s1)" "l_stk s1 = l_stk s @ [LTab t]" "\<not> h_meta (l_heap s1) t" using k1 t(2) by simp_all
  note n = conjunct1 [OF conjunct2 [OF k1]]
  note 2 = setfun_table [OF 1(1) f(1) 1(2,3) n]
  note 3 = setfun_table [OF conjunct1 [OF 2] f(2) _ _ n]
  have 3: "kept h0 (l_heap s3) \<and> l_stk s3 = l_stk s @ [LTab t] \<and> \<not> h_meta (l_heap s3) t" using 2 3 by blast
  have 4: "kept h0 (l_heap s4) \<and> l_stk s4 = l_stk s @ [LTab t] \<and> \<not> h_meta (l_heap s4) t"
    using 3 setfun_table [OF _ f(3) _ _ n] by blast
  have 5: "kept h0 (l_heap s5) \<and> l_stk s5 = l_stk s @ [LTab t]"
    using 4 setfun_table [OF _ f(4) _ _ n] by blast
  have 6: "kept h0 (l_heap s6) \<and> l_stk s6 = l_stk s" using 5 setfield_global [OF _ g] by blast
  have 7: "kept h0 (l_heap s7) \<and> l_stk s7 = l_stk s" using 6 setfun_global [OF _ i(1)] by metis
  have 8: "kept h0 (l_heap s8) \<and> l_stk s8 = l_stk s" using 7 setfun_global [OF _ i(2)] by metis
  have 9: "kept h0 (l_heap s9) \<and> l_stk s9 = l_stk s" using 8 setfun_global [OF _ i(3)] by metis
  show ?thesis using 9 setfun_global [OF _ i(4)] by metis
qed

lemma jit_kept:
  assumes k: "kept h0 (l_heap s)" and r: "ns_jit V I jit s = Inr s'"
    and jit: "\<And>h. kept h0 h \<Longrightarrow> kept h0 (snd (jit h))"
  shows "kept h0 (l_heap s') \<and> l_stk s' = l_stk s"
proof -
  obtain s1 s2 where s1: "lua_pushcclosure V (im_openjit I) s = Inr s1" and s2: "lua_pushstring V ''jit'' s1 = Inr s2"
    using r unfolding ns_jit_def by auto
  obtain i where p1: "kept h0 (l_heap s1)" "l_stk s1 = l_stk s @ [LFun i]" using kept_push [OF k s1] by blast
  note p2 = kept_string [OF p1(1) s2]
  obtain e h where e: "jit (l_heap s2) = (e, h)" by (cases "jit (l_heap s2)")
  have h: "kept h0 h" using jit [OF conjunct1 [OF p2]] e by simp
  let ?s = "lua_pop 2 (s2\<lparr>l_heap := h\<rparr>)"
  have st: "l_stk ?s = l_stk s" "l_heap ?s = h" using p1 p2 by simp_all
  obtain s3 where
    s3: "(case e of None \<Rightarrow> lua_pushstring V ''ok'' ?s
        | Some x \<Rightarrow> ebind (lua_pushstring V (''luaopen_jit failed: '' @ x) (lua_push (LStr x) ?s)) (\<lambda>s. Inr (lua_remove (- 2) s))) = Inr s3"
    and s': "lua_setfield V LUA_GLOBALSINDEX ''_OCLJ_JIT'' s3 = Inr s'"
    using r unfolding ns_jit_def s1 ebind_Inr s2 Let_def e prod.case by auto
  have "kept h0 (l_heap s3) \<and> (\<exists>v. l_stk s3 = l_stk s @ [v])"
  proof (cases e)
    case None
    then show ?thesis using s3 kept_string [of h0 ?s V "''ok''" s3] h st by simp
  next
    case (Some x)
    then obtain s4 where s4: "lua_pushstring V (''luaopen_jit failed: '' @ x) (lua_push (LStr x) ?s) = Inr s4" "s3 = lua_remove (- 2) s4"
      using s3 by auto
    from kept_string [OF _ s4(1), of h0] show ?thesis using h st s4(2)
      by (cases s4) (auto simp: lua_remove_def stk_pos_neg)
  qed
  then show ?thesis using setfield_global [OF _ s'] by blast
qed

lemma small_key: "\<bar>a\<bar> \<le> 2 ^ 53 \<Longrightarrow> \<bar>b\<bar> \<le> 2 ^ 53 \<Longrightarrow> LNum (d_of_int a) = LNum (d_of_int b) \<longleftrightarrow> a = b"
proof
  assume ab: "\<bar>a\<bar> \<le> 2 ^ 53" "\<bar>b\<bar> \<le> 2 ^ 53" and e: "LNum (d_of_int a) = LNum (d_of_int b)"
  have "fp_rat (dval (d_of_int a)) = fp_rat (dval (d_of_int b))" using e by simp
  then show "a = b" unfolding d_of_int_rat_small [OF ab(1)] d_of_int_rat_small [OF ab(2)] by simp
qed simp

text \<open>A state LuaJIT has just made.\<close>

definition newborn :: "lstate \<Rightarrow> bool" where
  "newborn s = (1 < h_newid (l_heap s) \<and> \<not> h_meta (l_heap s) 0 \<and> \<not> h_meta (l_heap s) 1 \<and>
     (\<forall>i. h_funs (l_heap s) i \<noteq> None \<longrightarrow> i < h_newid (l_heap s)))"

lemma rawseti_reg:
  assumes "lua_rawseti V LUA_REGISTRYINDEX n s = Inr s'" "l_stk s = xs @ [v]"
  shows "l_stk s' = xs \<and> h_tabs (l_heap s') = (h_tabs (l_heap s))(0 := (h_tabs (l_heap s) 0)(LNum (d_of_int n) := v)) \<and>
    h_meta (l_heap s') = h_meta (l_heap s) \<and> h_funs (l_heap s') = h_funs (l_heap s) \<and> h_newid (l_heap s') = h_newid (l_heap s)"
  using assms by (auto simp: lua_rawseti_def dest!: tab_set_Inr)

definition registry_ok :: "lheap \<Rightarrow> nat \<Rightarrow> bool" where
  "registry_ok h m = (h_tabs h 0 (LNum (d_of_int 1)) = LOther ''thread'' 0 \<and> h_tabs h 0 (LNum (d_of_int 2)) = LTab 1 \<and>
     memo_at h = LTab m \<and> 1 < m \<and> m < h_newid h \<and> h_tabs h m = (\<lambda>_. LNil) \<and> \<not> h_meta h 1 \<and>
     (\<forall>i. h_funs h i \<noteq> None \<longrightarrow> i < h_newid h))"

text \<open>Loading the helpers leaves the rest of the registry and the older tables alone.\<close>

lemma installhelpers_heap:
  assumes r: "lj52_installhelpers V s = Inr s'" and f: "\<And>i. h_funs (l_heap s) i \<noteq> None \<Longrightarrow> i < h_newid (l_heap s)"
    and p: "0 < h_newid (l_heap s)"
  shows "h_newid (l_heap s) < h_newid (l_heap s') \<and>
    (\<forall>k. k \<noteq> LLight (e_hk V) \<longrightarrow> h_tabs (l_heap s') 0 k = h_tabs (l_heap s) 0 k) \<and>
    (\<forall>t < h_newid (l_heap s). (0 < t \<longrightarrow> h_tabs (l_heap s') t = h_tabs (l_heap s) t) \<and> h_meta (l_heap s') t = h_meta (l_heap s) t) \<and>
    (\<forall>i. h_funs (l_heap s') i \<noteq> None \<longrightarrow> i < h_newid (l_heap s'))"
  using r
proof (cases rule: install_heap)
  case (1 t h h2)
  note c = run_chunk_D [OF 1(1)]
  have "h_funs h i \<noteq> None \<Longrightarrow> i < h_newid h" for i
    using c f [of i] by (cases "i < h_newid (l_heap s)") (auto split: if_splits)
  then show ?thesis using c p 1 by auto
qed

lemma registry_made:
  assumes r: "ns_registry V I s = Inr s'" and b: "newborn s"
  shows "l_stk s' = l_stk s \<and> (\<exists>m. registry_ok (l_heap s') m) \<and> (\<exists>t. helpers_at V (l_heap s') t \<and> 0 < t \<and> t < h_newid (l_heap s') \<and> t \<noteq> 1)"
proof -
  obtain s1 s2 s3 s4 s5 where
    s1: "lua_rawseti V LUA_REGISTRYINDEX 1 (lua_push (LOther ''thread'' 0) s) = Inr s1" and
    s2: "lua_rawseti V LUA_REGISTRYINDEX 2 (lua_pushvalue LUA_GLOBALSINDEX s1) = Inr s2" and
    s3: "lua_newtable V s2 = Inr s3" and s4: "lua_rawseti V LUA_REGISTRYINDEX LJ52_CF_RIDX s3 = Inr s4" and
    s5: "lua_pushlightuserdata V (im_seed I) s4 = Inr s5" and s6: "lj52_installhelpers V (lua_pop 1 s5) = Inr s'"
    using r unfolding ns_registry_def by auto
  note 1 = rawseti_reg [OF s1, of "l_stk s"]
  have 1: "l_stk s1 = l_stk s" "h_tabs (l_heap s1) = (h_tabs (l_heap s))(0 := (h_tabs (l_heap s) 0)(LNum (d_of_int 1) := LOther ''thread'' 0))"
    "h_meta (l_heap s1) = h_meta (l_heap s)" "h_funs (l_heap s1) = h_funs (l_heap s)" "h_newid (l_heap s1) = h_newid (l_heap s)"
    using 1 by simp_all
  have 2: "l_stk s2 = l_stk s" "h_tabs (l_heap s2) = (h_tabs (l_heap s1))(0 := (h_tabs (l_heap s1) 0)(LNum (d_of_int 2) := LTab 1))"
    "h_meta (l_heap s2) = h_meta (l_heap s)" "h_funs (l_heap s2) = h_funs (l_heap s)" "h_newid (l_heap s2) = h_newid (l_heap s)"
    using rawseti_reg [OF s2, of "l_stk s" "LTab 1"] 1 by (simp_all add: lua_pushvalue_def)
  obtain m h3 where m: "new_tab V (l_heap s2) = Inr (m, h3)" "s3 = lua_push (LTab m) (s2\<lparr>l_heap := h3\<rparr>)"
    using s3 by (auto simp: lua_newtable_def)
  note h3 = new_tab_Inr [OF m(1)]
  have 4: "l_stk s4 = l_stk s" "h_tabs (l_heap s4) = (h_tabs h3)(0 := (h_tabs h3 0)(LNum (d_of_int LJ52_CF_RIDX) := LTab m))"
    "h_meta (l_heap s4) = h_meta h3" "h_funs (l_heap s4) = h_funs h3" "h_newid (l_heap s4) = h_newid h3"
    using rawseti_reg [OF s4, of "l_stk s" "LTab m"] m(2) 2 by simp_all
  obtain h5 where h5: "s5 = lua_push (LLight (im_seed I)) (s4\<lparr>l_heap := h5\<rparr>)" "h_tabs h5 = h_tabs (l_heap s4)"
    "h_meta h5 = h_meta (l_heap s4)" "h_funs h5 = h_funs (l_heap s4)" "h_newid h5 = h_newid (l_heap s4)"
    using light_Inr [OF s5] by (metis (no_types, lifting) lheap.select_convs(1-4) lheap.update_convs(5,7) lheap.surjective)
  let ?s = "lua_pop 1 s5"
  have 5: "l_stk ?s = l_stk s" "l_heap ?s = h5" using h5(1) 4(1) by simp_all
  have ids: "m = h_newid (l_heap s)" "h_newid h5 = h_newid (l_heap s) + 1" "1 < m" using h3 h5 4 2 b by (simp_all add: newborn_def)
  have f5: "h_funs (l_heap ?s) i \<noteq> None \<Longrightarrow> i < h_newid (l_heap ?s)" for i
    using b h3 h5 4 2 5 by (auto simp: newborn_def less_SucI)
  have p5: "0 < h_newid (l_heap ?s)" using 5 ids by simp
  note ih = installhelpers_heap [OF s6 f5 p5]
  have neq: "LNum (d_of_int 1) \<noteq> LNum (d_of_int 2)" "LNum (d_of_int 1) \<noteq> LNum (d_of_int LJ52_CF_RIDX)"
    "LNum (d_of_int 2) \<noteq> LNum (d_of_int LJ52_CF_RIDX)"
    using small_key [of 1 2] small_key [of 1 3] small_key [of 2 3] by (simp_all add: LJ52_CF_RIDX_def)
  have t0: "h_tabs h5 0 (LNum (d_of_int 1)) = LOther ''thread'' 0" "h_tabs h5 0 (LNum (d_of_int 2)) = LTab 1"
    "h_tabs h5 0 (LNum (d_of_int LJ52_CF_RIDX)) = LTab m" "h_tabs h5 m = (\<lambda>_. LNil)" "\<not> h_meta h5 1"
    using neq h3 h5(2,3) 4(2,3) 2(2,3) 1(2) ids b by (simp_all add: newborn_def)
  have reg: "h_tabs (l_heap s') 0 (LNum d) = h_tabs h5 0 (LNum d)" for d using ih 5 ids by auto
  have "registry_ok (l_heap s') m"
    using t0 reg ih 5 ids by (auto simp: registry_ok_def memo_at_def)
  moreover obtain t where t: "helpers_at V (l_heap s') t" "l_stk s' = l_stk ?s" "h_newid h5 < t" "t < h_newid (l_heap s')"
    using install_helpers [OF s6 p5] 5 by auto
  moreover have "0 < t \<and> t \<noteq> 1" using t(3) ids by simp
  moreover have "l_stk s' = l_stk s" using t(2) 5(1) by simp
  ultimately show ?thesis by blast
qed

section \<open>The property\<close>

text \<open>C16: what \<open>lj52_newstate\<close> hands to Java is a state whose stack is as LuaJIT left it, whose registry
  has the main thread at 1 and the globals at 2 as in 5.2, whose memo is an empty table, so that
  it starts the machine the pushes of C functions keep well typed, and whose helpers are loaded,
  so that compare, arith and len do not compile anything; the JIT's failure changes none of that.\<close>

theorem newstate_setup:
  assumes "ns_setup V I jit version s = Inr s'" "newborn s"
    and jit: "\<And>h0 h. kept h0 h \<Longrightarrow> kept h0 (snd (jit h))"
  shows "l_stk s' = l_stk s \<and> h_tabs (l_heap s') 0 (LNum (d_of_int 1)) = LOther ''thread'' 0 \<and>
    h_tabs (l_heap s') 0 (LNum (d_of_int 2)) = LTab 1 \<and> memo_init s' \<and> (\<exists>t. helpers_at V (l_heap s') t)"
proof -
  obtain s1 s2 s3 s4 where s1: "ns_registry V I s = Inr s1" and s2: "ns_jit V I jit s1 = Inr s2" and
    s3: "lua_pushstring V (''luajit/'' @ version) s2 = Inr s3" and
    s4: "lua_setfield V LUA_GLOBALSINDEX ''_OCLJ_NATIVE'' s3 = Inr s4" and s5: "lj52_wd_install V I s4 = Inr s'"
    using assms(1) unfolding ns_setup_def by auto
  obtain m t where r: "l_stk s1 = l_stk s" "registry_ok (l_heap s1) m" "helpers_at V (l_heap s1) t" "0 < t" "t < h_newid (l_heap s1)" "t \<noteq> 1"
    using registry_made [OF s1 assms(2)] by blast
  have "kept (l_heap s1) (l_heap s1)" using r(2) by (intro kept_refl) (simp_all add: registry_ok_def)
  note k2 = jit_kept [OF this s2 jit]
  note k3 = kept_string [OF conjunct1 [OF k2] s3]
  note k4 = setfield_global [OF conjunct1 [OF k3] s4 conjunct2 [OF k3]]
  note k5 = install_kept [OF conjunct1 [OF k4] s5]
  have st: "l_stk s' = l_stk s" using r(1) k2 k4 k5 by simp
  have k: "kept (l_heap s1) (l_heap s')" using k5 by blast
  have num: "h_tabs (l_heap s') 0 k = h_tabs (l_heap s1) 0 k" if "\<not> is_name k" for k
    using k r(5) that unfolding kept_def by (metis gr_zeroI not_less_zero one_neq_zero zero_less_iff_neq_zero)
  have tab: "h_tabs (l_heap s') x = h_tabs (l_heap s1) x \<and> h_meta (l_heap s') x = h_meta (l_heap s1) x"
    if "0 < x" "x < h_newid (l_heap s1)" "x \<noteq> 1" for x
    using k that unfolding kept_def by (auto simp: fun_eq_iff)
  have n: "\<not> is_name (LNum d)" "\<not> is_name (LLight p)" for d p by (simp_all add: is_name_def)
  have m: "memo_init s'"
    using r(2) k num [OF n(1)] tab [of m] unfolding memo_init_def registry_ok_def memo_at_def kept_def by auto
  have f: "h_funs (l_heap s1) i = Some g \<Longrightarrow> h_funs (l_heap s') i = Some g" for i g
    using k by (simp add: kept_def)
  have "helpers_at V (l_heap s') t"
    using r(3) k num [OF n(2)] tab [OF r(4,5,6)] f unfolding helpers_at_def kept_def by auto
  then show ?thesis using st m r(2) num [OF n(1)] by (auto simp: registry_ok_def)
qed

text \<open>The example: a state with nothing in it, the JIT refused.\<close>

definition image0 :: image where
  "image0 = \<lparr>im_seed = 1, im_openjit = 2, im_arm = 3, im_disarm = 4, im_depth = 5, im_stats = 6, im_jitstats = 7,
     im_gcstats = 8, im_wallstats = 9, im_vgcstats = 10\<rparr>"

definition bare :: lstate where
  "bare = \<lparr>l_stk = [], l_heap = \<lparr>h_tabs = (\<lambda>_ _. LNil), h_meta = (\<lambda>_. False), h_funs = (\<lambda>_. None), h_newid = 2,
     h_segs = {}, h_norefuse = 0, h_allocs = 0\<rparr>\<rparr>"

text \<open>When no allocation is refused the setup succeeds.\<close>

lemma alloc_total:
  assumes a: "\<And>h. \<exists>h'. lua_alloc V h = Inr h'"
  shows "\<exists>s'. lua_pushcclosure V f s = Inr s'" "\<exists>s'. lua_pushstring V x s = Inr s'" "\<exists>s'. lua_newtable V s = Inr s'"
    "\<exists>s'. lua_pushlightuserdata V p s = Inr s'" "\<exists>h'. tab_set V t k v h = Inr h'" "\<exists>s'. lua_rawseti V LUA_REGISTRYINDEX n s = Inr s'"
    "\<exists>s'. api_rawset V LUA_REGISTRYINDEX s = Inr s'" "\<exists>r. run_chunk V h = Inr r"
proof -
  have t: "\<exists>h'. tab_set V t k v h = Inr h'" for t k v h using a [of h] by (auto simp: tab_set_def)
  have f: "\<exists>i h'. new_fun V g h = Inr (i, h')" for g h using a [of h] by (auto simp: new_fun_def)
  have n: "\<exists>i h'. new_tab V h = Inr (i, h')" for h using a [of h] by (auto simp: new_tab_def)
  show "\<exists>s'. lua_pushcclosure V f s = Inr s'" using f [of "CFn f" "l_heap s"] by (auto simp: lua_pushcclosure_def)
  show "\<exists>s'. lua_pushstring V x s = Inr s'" using a [of "l_heap s"] by (auto simp: lua_pushstring_def)
  show "\<exists>s'. lua_newtable V s = Inr s'" using n [of "l_heap s"] by (auto simp: lua_newtable_def)
  show "\<exists>s'. lua_pushlightuserdata V p s = Inr s'" using a [of "l_heap s"] by (auto simp: lua_pushlightuserdata_def)
  show "\<exists>h'. tab_set V t k v h = Inr h'" by (rule t)
  show "\<exists>s'. lua_rawseti V LUA_REGISTRYINDEX n s = Inr s'" using t [of 0] by (auto simp: lua_rawseti_def)
  show "\<exists>s'. api_rawset V LUA_REGISTRYINDEX s = Inr s'" using t [of 0] by (auto simp: api_rawset_def)
  obtain h1 where h1: "lua_alloc V h = Inr h1" using a by blast
  obtain c h2 where h2: "new_fun V (Helper HCmp) h1 = Inr (c, h2)" using f by blast
  obtain b h3 where h3: "new_fun V (Helper HArith) h2 = Inr (b, h3)" using f by blast
  obtain l h4 where h4: "new_fun V (Helper HLen) h3 = Inr (l, h4)" using f by blast
  obtain i h5 where "new_tab V h4 = Inr (i, h5)" using n by blast
  then show "\<exists>r. run_chunk V h = Inr r" by (simp add: run_chunk_def h1 h2 h3 h4)
qed

lemma setfield_total:
  assumes a: "\<And>h. \<exists>h'. lua_alloc V h = Inr h'" and t: "index_val s idx = LTab t" "\<not> h_meta (l_heap s) t"
  shows "\<exists>s'. lua_setfield V idx name s = Inr s'"
proof -
  obtain h where h: "lua_alloc V (l_heap s) = Inr h" using a by blast
  then have "h_meta h = h_meta (l_heap s)" by (auto simp: alloc_Inr)
  then show ?thesis using alloc_total(5) [OF a, of t "LStr name" "last (l_stk s)" h] t
    by (auto simp: lua_setfield_def h Let_def)
qed

lemma setfun_total:
  assumes a: "\<And>h. \<exists>h'. lua_alloc V h = Inr h'" and t: "\<And>v. index_val (lua_push v s) idx = LTab t" "\<not> h_meta (l_heap s) t"
  shows "\<exists>s'. set_fun V idx name f s = Inr s'"
proof -
  obtain s1 where s1: "lua_pushcclosure V f s = Inr s1" using alloc_total(1) [OF a] by blast
  then obtain i h where h: "s1 = lua_push (LFun i) (s\<lparr>l_heap := h\<rparr>)" "h_meta h = h_meta (l_heap s)"
    by (auto simp: lua_pushcclosure_def new_fun_Inr)
  have "index_val s1 idx = index_val (lua_push (LFun i) s) idx"
    by (simp add: h(1) index_val_def stk_pos_def lua_gettop_def)
  then show ?thesis using setfield_total [OF a, of s1 idx t name] t h by (simp add: set_fun_def s1)
qed

lemma registry_total:
  assumes a: "\<And>h. \<exists>h'. lua_alloc V h = Inr h'"
  shows "\<exists>s'. ns_registry V I s = Inr s'"
proof -
  have i: "\<exists>s'. lj52_installhelpers V s = Inr s'" for s
  proof -
    obtain t h where c: "run_chunk V (l_heap s) = Inr (t, h)" using alloc_total(8) [OF a] by (metis surj_pair)
    obtain s1 where "lua_pushlightuserdata V (e_hk V) (lua_push (LTab t) (s\<lparr>l_heap := h\<rparr>)) = Inr s1" using alloc_total(4) [OF a] by blast
    then show ?thesis using alloc_total(7) [OF a] by (simp add: lj52_installhelpers_def c)
  qed
  obtain s1 where s1: "lua_rawseti V LUA_REGISTRYINDEX 1 (lua_push (LOther ''thread'' 0) s) = Inr s1" using alloc_total(6) [OF a] by blast
  obtain s2 where s2: "lua_rawseti V LUA_REGISTRYINDEX 2 (lua_pushvalue LUA_GLOBALSINDEX s1) = Inr s2" using alloc_total(6) [OF a] by blast
  obtain s3 where s3: "lua_newtable V s2 = Inr s3" using alloc_total(3) [OF a] by blast
  obtain s4 where s4: "lua_rawseti V LUA_REGISTRYINDEX LJ52_CF_RIDX s3 = Inr s4" using alloc_total(6) [OF a] by blast
  obtain s5 where s5: "lua_pushlightuserdata V (im_seed I) s4 = Inr s5" using alloc_total(4) [OF a] by blast
  show ?thesis using i by (simp add: ns_registry_def s1 s2 s3 s4 s5)
qed

lemma jit_total:
  assumes a: "\<And>h. \<exists>h'. lua_alloc V h = Inr h'" and k: "kept h0 (l_heap s)"
    and jit: "\<And>h. kept h0 h \<Longrightarrow> kept h0 (snd (jit h))"
  shows "\<exists>s'. ns_jit V I jit s = Inr s'"
proof -
  obtain s1 where s1: "lua_pushcclosure V (im_openjit I) s = Inr s1" using alloc_total(1) [OF a] by blast
  obtain s2 where s2: "lua_pushstring V ''jit'' s1 = Inr s2" using alloc_total(2) [OF a] by blast
  have "kept h0 (l_heap s2)" using kept_string [OF _ s2] kept_push [OF k s1] by blast
  note h = jit [OF this]
  obtain e h where e: "jit (l_heap s2) = (e, h)" by (cases "jit (l_heap s2)")
  let ?s = "lua_pop 2 (s2\<lparr>l_heap := h\<rparr>)"
  have m: "\<not> h_meta h 1" using h e by (simp add: kept_def)
  have push: "\<exists>s3. lua_pushstring V x u = Inr s3 \<and> h_meta (l_heap s3) = h_meta (l_heap u)" for x u
    using a [of "l_heap u"] by (auto simp: lua_pushstring_def alloc_Inr)
  obtain s3 where s3: "(case e of None \<Rightarrow> lua_pushstring V ''ok'' ?s
      | Some x \<Rightarrow> ebind (lua_pushstring V (''luaopen_jit failed: '' @ x) (lua_push (LStr x) ?s)) (\<lambda>s. Inr (lua_remove (- 2) s))) = Inr s3"
    "h_meta (l_heap s3) = h_meta h"
  proof (cases e)
    case None
    then show thesis using push [of "''ok''" ?s] that by auto
  next
    case (Some x)
    then show thesis using push [of "''luaopen_jit failed: '' @ x" "lua_push (LStr x) ?s"] that by auto
  qed
  obtain s' where "lua_setfield V LUA_GLOBALSINDEX ''_OCLJ_JIT'' s3 = Inr s'"
    using setfield_total [OF a index_globals] m s3(2) by metis
  then show ?thesis by (simp add: ns_jit_def s1 s2 e s3(1) Let_def)
qed

lemma install_total:
  assumes a: "\<And>h. \<exists>h'. lua_alloc V h = Inr h'" and k: "kept h0 (l_heap s)"
  shows "\<exists>s'. lj52_wd_install V I s = Inr s'"
proof -
  have glob: "\<exists>s2. set_fun V LUA_GLOBALSINDEX name f s1 = Inr s2 \<and> kept h0 (l_heap s2)" if "kept h0 (l_heap s1)" for s1 name f
  proof -
    have "\<not> h_meta (l_heap s1) 1" using that by (simp add: kept_def)
    then obtain s2 where "set_fun V LUA_GLOBALSINDEX name f s1 = Inr s2" using setfun_total [OF a index_globals] by blast
    then show ?thesis using setfun_global [OF that] by blast
  qed
  obtain s1 where s1: "lua_newtable V s = Inr s1" using alloc_total(3) [OF a] by blast
  then obtain t h where t: "new_tab V (l_heap s) = Inr (t, h)" "s1 = lua_push (LTab t) (s\<lparr>l_heap := h\<rparr>)"
    by (auto simp: lua_newtable_def)
  note k1 = kept_tab [OF k t(1)]
  have field: "\<exists>s3. set_fun V (- 2) name f s2 = Inr s3 \<and> kept h0 (l_heap s3) \<and> l_stk s3 = l_stk s @ [LTab t] \<and> \<not> h_meta (l_heap s3) t"
    if u: "kept h0 (l_heap s2) \<and> l_stk s2 = l_stk s @ [LTab t] \<and> \<not> h_meta (l_heap s2) t" for s2 name f
  proof -
    have "index_val (lua_push v s2) (- 2) = LTab t" for v using u by (simp add: index_val_m nth_append)
    then obtain s3 where s3: "set_fun V (- 2) name f s2 = Inr s3" using setfun_total [OF a] u by blast
    then show ?thesis using setfun_table [OF _ s3] u k1 by blast
  qed
  have 1: "kept h0 (l_heap s1) \<and> l_stk s1 = l_stk s @ [LTab t] \<and> \<not> h_meta (l_heap s1) t" using k1 t(2) by simp
  obtain s2 where s2: "set_fun V (- 2) ''arm'' (im_arm I) s1 = Inr s2" "kept h0 (l_heap s2) \<and> l_stk s2 = l_stk s @ [LTab t] \<and> \<not> h_meta (l_heap s2) t"
    using field [OF 1] by blast
  obtain s3 where s3: "set_fun V (- 2) ''disarm'' (im_disarm I) s2 = Inr s3" "kept h0 (l_heap s3) \<and> l_stk s3 = l_stk s @ [LTab t] \<and> \<not> h_meta (l_heap s3) t"
    using field [OF s2(2)] by blast
  obtain s4 where s4: "set_fun V (- 2) ''depth'' (im_depth I) s3 = Inr s4" "kept h0 (l_heap s4) \<and> l_stk s4 = l_stk s @ [LTab t] \<and> \<not> h_meta (l_heap s4) t"
    using field [OF s3(2)] by blast
  obtain s5 where s5: "set_fun V (- 2) ''stats'' (im_stats I) s4 = Inr s5" "kept h0 (l_heap s5) \<and> l_stk s5 = l_stk s @ [LTab t] \<and> \<not> h_meta (l_heap s5) t"
    using field [OF s4(2)] by blast
  have "\<not> h_meta (l_heap s5) 1" using s5(2) by (simp add: kept_def)
  then obtain s6 where s6: "lua_setfield V LUA_GLOBALSINDEX ''_OCLJ_WATCHDOG'' s5 = Inr s6"
    using setfield_total [OF a index_globals] by blast
  have k6: "kept h0 (l_heap s6)" using setfield_global [OF _ s6] s5(2) by blast
  obtain s7 where s7: "set_fun V LUA_GLOBALSINDEX ''_OCLJ_JITSTATS'' (im_jitstats I) s6 = Inr s7" "kept h0 (l_heap s7)"
    using glob [OF k6] by blast
  obtain s8 where s8: "set_fun V LUA_GLOBALSINDEX ''_OCLJ_GCSTATS'' (im_gcstats I) s7 = Inr s8" "kept h0 (l_heap s8)"
    using glob [OF s7(2)] by blast
  obtain s9 where s9: "set_fun V LUA_GLOBALSINDEX ''_OCLJ_WALLSTATS'' (im_wallstats I) s8 = Inr s9" "kept h0 (l_heap s9)"
    using glob [OF s8(2)] by blast
  obtain s10 where s10: "set_fun V LUA_GLOBALSINDEX ''_OCLJ_VGCSTATS'' (im_vgcstats I) s9 = Inr s10"
    using glob [OF s9(2)] by blast
  show ?thesis
    by (simp only: lj52_wd_install_def s1 s2(1) s3(1) s4(1) s5(1) s6 s7(1) s8(1) s9(1) s10 ebind_Inr) simp
qed

lemma setup_total:
  assumes a: "\<And>h. \<exists>h'. lua_alloc V h = Inr h'" and b: "newborn s"
    and jit: "\<And>h0 h. kept h0 h \<Longrightarrow> kept h0 (snd (jit h))"
  shows "\<exists>s'. ns_setup V I jit version s = Inr s'"
proof -
  obtain s1 where s1: "ns_registry V I s = Inr s1" using registry_total [OF a] by blast
  obtain m where m: "registry_ok (l_heap s1) m" using registry_made [OF s1 b] by blast
  have k1: "kept (l_heap s1) (l_heap s1)" using m by (intro kept_refl) (simp_all add: registry_ok_def)
  obtain s2 where s2: "ns_jit V I jit s1 = Inr s2" using jit_total [OF a k1, where jit = jit and I = I] jit by blast
  note k2 = jit_kept [OF k1 s2 jit]
  obtain s3 where s3: "lua_pushstring V (''luajit/'' @ version) s2 = Inr s3" using alloc_total(2) [OF a] by blast
  note k3 = kept_string [OF conjunct1 [OF k2] s3]
  have "\<not> h_meta (l_heap s3) 1" using k3 by (simp add: kept_def)
  then obtain s4 where s4: "lua_setfield V LUA_GLOBALSINDEX ''_OCLJ_NATIVE'' s3 = Inr s4"
    using setfield_total [OF a index_globals] by blast
  note k4 = setfield_global [OF conjunct1 [OF k3] s4 conjunct2 [OF k3]]
  obtain s5 where "lj52_wd_install V I s4 = Inr s5" using install_total [OF a conjunct1 [OF k4]] by blast
  then show ?thesis unfolding ns_setup_def s1 ebind_Inr s2 s3 s4 by blast
qed

theorem newstate_setup_witness:
  "\<exists>s' t. ns_setup api_env2 image0 (\<lambda>h. (Some ''no'', h)) ''2.1'' bare = Inr s' \<and> l_stk s' = [] \<and> memo_init s' \<and>
    helpers_at api_env2 (l_heap s') t"
proof -
  have a: "\<exists>h'. lua_alloc api_env2 h = Inr h'" for h by (simp add: lua_alloc_def api_env2_def api_env1_def)
  have b: "newborn bare" by (simp add: newborn_def bare_def)
  obtain s' where s': "ns_setup api_env2 image0 (\<lambda>h. (Some ''no'', h)) ''2.1'' bare = Inr s'"
    using setup_total [OF a b, of "\<lambda>h. (Some ''no'', h)"] by auto
  show ?thesis using newstate_setup [OF s' b] s' by (auto simp: bare_def)
qed

end
