(* ===== verification/ShimLife.thy ===== *)
theory ShimLife
  imports Prelude Machine ShimMem
begin

text \<open>
  native/lj52shim.c, a state's birth and death: \<open>lj52_newstate\<close> and \<open>lj52_close\<close> on what they
  acquire and release, the record, LuaJIT's arena, the Lua state, the timer thread. Each acquisition
  may fail. Using or releasing what is not there, or releasing what is still in use, is an error
  of the model, so that its absence is a theorem.
\<close>

section \<open>Resources\<close>

text \<open>Where an arena's random numbers come from: nowhere yet, \<open>lj52_newstate\<close>'s stack, or a state.\<close>

datatype prng_src = NoPrng | StackPrng | StatePrng nat

text \<open>A record knows its arena (None: the C library) and its state; a state its allocator's record
  (None: LuaJIT's internal allocator); \<open>r_timers\<close> are the records whose timer thread runs.\<close>

record shimrec =
  sr_heap :: "nat option"
  sr_L :: "nat option"

record rworld =
  r_recs :: "nat \<Rightarrow> shimrec option"
  r_arenas :: "nat \<Rightarrow> prng_src option"
  r_states :: "nat \<Rightarrow> nat option option"
  r_timers :: "nat set"
  r_next :: nat

datatype life_err =
    DanglingPrng
  | DeadRecord
  | DeadArena
  | DeadState
  | RecordInUse
  | ArenaInUse
  | TimerRuns

text \<open>What one birth meets: each call's answer, and the three sizes of LuaJIT's \<open>GG_State\<close>, the
  library's, the shim's and the serializer's.\<close>

record ns_env =
  n_calloc :: bool
  n_seed :: bool
  n_create :: bool
  n_state :: bool
  n_fallback :: bool
  n_timer :: bool
  n_setup :: bool
  n_gg :: nat
  n_mine :: nat
  n_eris :: nat

section \<open>The calls\<close>

definition prng_live :: "bool \<Rightarrow> rworld \<Rightarrow> nat \<Rightarrow> bool" where
  "prng_live on_stack w a =
     (case r_arenas w a of
        Some (StatePrng L) \<Rightarrow> r_states w L \<noteq> None
      | Some StackPrng \<Rightarrow> on_stack
      | _ \<Rightarrow> False)"

text \<open>An allocation through a record, by \<open>lj52_alloc\<close>.\<close>

definition use_record :: "bool \<Rightarrow> nat \<Rightarrow> rworld \<Rightarrow> life_err + unit" where
  "use_record on_stack M w =
     (case r_recs w M of
        None \<Rightarrow> Inl DeadRecord
      | Some R \<Rightarrow>
          (case sr_heap R of
             None \<Rightarrow> Inr ()
           | Some a \<Rightarrow>
               if r_arenas w a = None then Inl DeadArena
               else if \<not> prng_live on_stack w a then Inl DanglingPrng else Inr ()))"

definition lj_alloc_setprng :: "nat \<Rightarrow> prng_src \<Rightarrow> rworld \<Rightarrow> life_err + rworld" where
  "lj_alloc_setprng a p w =
     (if r_arenas w a = None then Inl DeadArena else Inr (w\<lparr>r_arenas := (r_arenas w)(a \<mapsto> p)\<rparr>))"

definition lj_alloc_destroy :: "nat \<Rightarrow> rworld \<Rightarrow> life_err + rworld" where
  "lj_alloc_destroy a w =
     (if r_arenas w a = None then Inl DeadArena
      else if list_ex (\<lambda>L. case r_states w L of
                 Some (Some M) \<Rightarrow> (case r_recs w M of Some R \<Rightarrow> sr_heap R = Some a | None \<Rightarrow> False)
               | _ \<Rightarrow> False) [0..<r_next w] then Inl ArenaInUse
      else Inr (w\<lparr>r_arenas := (r_arenas w)(a := None)\<rparr>))"

definition free_record :: "nat \<Rightarrow> rworld \<Rightarrow> life_err + rworld" where
  "free_record M w =
     (if r_recs w M = None then Inl DeadRecord
      else if M \<in> r_timers w then Inl TimerRuns
      else if list_ex (\<lambda>L. r_states w L = Some (Some M)) [0..<r_next w] then Inl RecordInUse
      else Inr (w\<lparr>r_recs := (r_recs w)(M := None)\<rparr>))"

definition lua_newstate :: "bool \<Rightarrow> nat \<Rightarrow> rworld \<Rightarrow> life_err + nat option \<times> rworld" where
  "lua_newstate got M w =
     ebind (use_record True M w) (\<lambda>_.
       Inr (if got then (Some (r_next w), w\<lparr>r_states := (r_states w)(r_next w \<mapsto> Some M), r_next := r_next w + 1\<rparr>)
            else (None, w)))"

definition luaL_newstate :: "bool \<Rightarrow> rworld \<Rightarrow> nat option \<times> rworld" where
  "luaL_newstate got w =
     (if got then (Some (r_next w), w\<lparr>r_states := (r_states w)(r_next w \<mapsto> None), r_next := r_next w + 1\<rparr>)
      else (None, w))"

text \<open>\<open>lua_close\<close> runs finalizers and frees every block through the allocator; the timer thread must
  be gone, since it hooks the state.\<close>

definition lua_close :: "bool \<Rightarrow> nat \<Rightarrow> rworld \<Rightarrow> life_err + rworld" where
  "lua_close on_stack L w =
     (case r_states w L of
        None \<Rightarrow> Inl DeadState
      | Some None \<Rightarrow> Inr (w\<lparr>r_states := (r_states w)(L := None)\<rparr>)
      | Some (Some M) \<Rightarrow>
          ebind (use_record on_stack M w) (\<lambda>_.
            if M \<in> r_timers w then Inl TimerRuns else Inr (w\<lparr>r_states := (r_states w)(L := None)\<rparr>)))"

section \<open>Birth\<close>

datatype ns_result = NsNull | NsState nat | NsPanic

definition lj52_layout_ok :: "ns_env \<Rightarrow> bool" where
  "lj52_layout_ok E = (n_gg E = n_mine E \<and> n_eris E = n_mine E)"

text \<open>Destroying the arena and freeing the record, where there is one.\<close>

definition drop_record :: "nat \<Rightarrow> rworld \<Rightarrow> life_err + rworld" where
  "drop_record M w =
     (case r_recs w M of
        None \<Rightarrow> Inl DeadRecord
      | Some R \<Rightarrow>
          ebind (case sr_heap R of None \<Rightarrow> Inr w | Some a \<Rightarrow> lj_alloc_destroy a w) (free_record M))"

text \<open>The arena, pointed at the stack's PRNG at once.\<close>

definition ns_arena :: "ns_env \<Rightarrow> nat \<Rightarrow> rworld \<Rightarrow> life_err + rworld" where
  "ns_arena E M w =
     (if n_seed E \<and> n_create E then
        let a = r_next w;
            w = w\<lparr>r_arenas := (r_arenas w)(a \<mapsto> NoPrng), r_recs := (r_recs w)(M \<mapsto> \<lparr>sr_heap = Some a, sr_L = None\<rparr>),
                  r_next := a + 1\<rparr>
        in lj_alloc_setprng a StackPrng w
      else Inr w)"

text \<open>The block under the PRNG on the stack: no state, a state, or (\<open>True\<close>) refused by the layout gate.\<close>

definition ns_build :: "ns_env \<Rightarrow> nat \<Rightarrow> rworld \<Rightarrow> life_err + (bool \<times> nat option) \<times> rworld" where
  "ns_build E M w =
     ebind (ns_arena E M w) (\<lambda>w.
     ebind (lua_newstate (n_state E) M w) (\<lambda>(L, w).
       case L of
         None \<Rightarrow> Inr ((False, None), w)
       | Some L \<Rightarrow>
           if \<not> lj52_layout_ok E then
             ebind (lua_close True L w) (\<lambda>w. ebind (drop_record M w) (\<lambda>w. Inr ((True, None), w)))
           else
             (case r_recs w M of
                None \<Rightarrow> Inl DeadRecord
              | Some R \<Rightarrow>
                  ebind (case sr_heap R of None \<Rightarrow> Inr w | Some a \<Rightarrow> lj_alloc_setprng a (StatePrng L) w) (\<lambda>w.
                    Inr ((False, Some L), w)))))"

text \<open>\<open>lj52_wd_start\<close>, and everything after it, which allocates in the state; an error there has no
  handler and ends the process.\<close>

definition ns_start :: "ns_env \<Rightarrow> nat option \<Rightarrow> nat \<Rightarrow> rworld \<Rightarrow> life_err + ns_result \<times> rworld" where
  "ns_start E M L w =
     (case M of
        None \<Rightarrow> Inr (if n_setup E then NsState L else NsPanic, w)
      | Some M \<Rightarrow>
          (case r_recs w M of
             None \<Rightarrow> Inl DeadRecord
           | Some R \<Rightarrow>
               let w = w\<lparr>r_recs := (r_recs w)(M \<mapsto> R\<lparr>sr_L := Some L\<rparr>),
                         r_timers := (if n_timer E then insert M (r_timers w) else r_timers w)\<rparr>
               in ebind (use_record False M w) (\<lambda>_. Inr (if n_setup E then NsState L else NsPanic, w))))"

definition ns_fallback :: "ns_env \<Rightarrow> nat option \<Rightarrow> rworld \<Rightarrow> life_err + ns_result \<times> rworld" where
  "ns_fallback E M w =
     ebind (case M of None \<Rightarrow> Inr w | Some M \<Rightarrow> drop_record M w) (\<lambda>w.
       case luaL_newstate (n_fallback E) w of
         (None, w) \<Rightarrow> Inr (NsNull, w)
       | (Some L, w) \<Rightarrow> ns_start E None L w)"

definition lj52_newstate :: "ns_env \<Rightarrow> rworld \<Rightarrow> life_err + ns_result \<times> rworld" where
  "lj52_newstate E w =
     (if \<not> n_calloc E then ns_fallback E None w
      else
        let M = r_next w;
            w = w\<lparr>r_recs := (r_recs w)(M \<mapsto> \<lparr>sr_heap = None, sr_L = None\<rparr>), r_next := M + 1\<rparr>
        in ebind (ns_build E M w) (\<lambda>((refused, L), w).
             if refused then Inr (NsNull, w)
             else case L of None \<Rightarrow> ns_fallback E (Some M) w | Some L \<Rightarrow> ns_start E (Some M) L w))"

section \<open>Death\<close>

definition lj52_close :: "nat \<Rightarrow> rworld \<Rightarrow> life_err + rworld" where
  "lj52_close L w =
     (case r_states w L of
        None \<Rightarrow> Inl DeadState
      | Some None \<Rightarrow> lua_close False L w
      | Some (Some M) \<Rightarrow>
          ebind (lua_close False L (w\<lparr>r_timers := r_timers w - {M}\<rparr>)) (drop_record M))"

section \<open>The accounting at the close\<close>

text \<open>Before \<open>lua_close\<close> the accounting is off and the Java state forgotten: from then on an allocator
  call refuses nothing, moves no collector, and neither reads nor charges the Java figures.\<close>

definition close_accounting :: "mem \<Rightarrow> mem" where
  "close_accounting M = M\<lparr>m_accounting := False, m_bound := False\<rparr>"

lemma close_silent:
  assumes "\<not> m_accounting M" "lj52_alloc M g J p osize nsize bp = (r, M', g', J')"
  shows "J' = J \<and> g' = g \<and> m_jni M' = m_jni M \<and> \<not> m_accounting M' \<and> r = (if nsize = 0 then None else bp) \<and>
    m_used M' = m_used M + (if r \<noteq> None \<or> nsize = 0 then alloc_delta p osize nsize else 0)"
  using assms by (auto simp: lj52_alloc_def alloc_csync_def alloc_legacy_def Let_def split: if_splits)

lemma close_accounting_off: "\<not> m_accounting (close_accounting M)"
  by (simp add: close_accounting_def)

section \<open>What a birth adds\<close>

definition same_held :: "rworld \<Rightarrow> rworld \<Rightarrow> bool" where
  "same_held w w' = (r_recs w' = r_recs w \<and> r_arenas w' = r_arenas w \<and> r_states w' = r_states w \<and>
     r_timers w' = r_timers w \<and> r_next w \<le> r_next w')"

definition unused :: "rworld \<Rightarrow> nat \<Rightarrow> bool" where
  "unused w x = (r_recs w x = None \<and> r_arenas w x = None \<and> r_states w x = None \<and> x \<notin> r_timers w)"

definition fresh :: "rworld \<Rightarrow> bool" where
  "fresh w = ((\<forall>x. r_next w \<le> x \<longrightarrow> unused w x) \<and>
     (\<forall>L M. r_states w L = Some (Some M) \<longrightarrow> r_recs w M \<noteq> None) \<and>
     (\<forall>M R a. r_recs w M = Some R \<and> sr_heap R = Some a \<longrightarrow> r_arenas w a \<noteq> None))"

text \<open>A state of LuaJIT's own allocator, or one with a new record, and a new arena or none.\<close>

definition added :: "ns_env \<Rightarrow> rworld \<Rightarrow> nat \<Rightarrow> rworld \<Rightarrow> bool" where
  "added E w L w' =
     (r_next w \<le> L \<and> L < r_next w' \<and>
      (r_states w' = (r_states w)(L \<mapsto> None) \<and> r_recs w' = r_recs w \<and> r_arenas w' = r_arenas w \<and> r_timers w' = r_timers w \<or>
       (\<exists>M R. r_next w \<le> M \<and> M < r_next w' \<and> r_states w' = (r_states w)(L \<mapsto> Some M) \<and>
          r_recs w' = (r_recs w)(M \<mapsto> R) \<and> sr_L R = Some L \<and> lj52_layout_ok E \<and>
          r_timers w' = (if n_timer E then insert M (r_timers w) else r_timers w) \<and>
          (case sr_heap R of
             None \<Rightarrow> r_arenas w' = r_arenas w
           | Some a \<Rightarrow> r_next w \<le> a \<and> a < r_next w' \<and> r_arenas w' = (r_arenas w)(a \<mapsto> StatePrng L)))))"

lemma fallback_result:
  "\<exists>r w'. ns_fallback E None w = Inr (r, w') \<and>
    (case r of NsNull \<Rightarrow> same_held w w' | NsState L \<Rightarrow> added E w L w' | NsPanic \<Rightarrow> True)"
  by (auto simp: ns_fallback_def luaL_newstate_def ns_start_def same_held_def added_def)

lemma same_held_trans: "same_held w1 w2 \<Longrightarrow> added E w2 L w3 \<Longrightarrow> added E w1 L w3"
proof -
  assume "same_held w1 w2" and a: "added E w2 L w3"
  then have h: "r_recs w2 = r_recs w1" "r_arenas w2 = r_arenas w1" "r_states w2 = r_states w1" "r_timers w2 = r_timers w1"
    and n: "r_next w1 \<le> r_next w2" by (simp_all add: same_held_def)
  have le: "r_next w2 \<le> x \<Longrightarrow> r_next w1 \<le> x" for x using n by simp
  have o: "(case p of None \<Rightarrow> A | Some a \<Rightarrow> r_next w2 \<le> a \<and> P a) \<Longrightarrow> (case p of None \<Rightarrow> A | Some a \<Rightarrow> r_next w1 \<le> a \<and> P a)"
    for p A P using le by (cases p) auto
  have L: "r_next w1 \<le> L" "L < r_next w3" using a le by (auto simp: added_def)
  from a consider
    (own) "r_states w3 = (r_states w1)(L \<mapsto> None) \<and> r_recs w3 = r_recs w1 \<and> r_arenas w3 = r_arenas w1 \<and> r_timers w3 = r_timers w1"
  | (shim) M R where "r_next w2 \<le> M" "M < r_next w3" "r_states w3 = (r_states w1)(L \<mapsto> Some M)"
      "r_recs w3 = (r_recs w1)(M \<mapsto> R)" "sr_L R = Some L" "lj52_layout_ok E"
      "r_timers w3 = (if n_timer E then insert M (r_timers w1) else r_timers w1)"
      "case sr_heap R of None \<Rightarrow> r_arenas w3 = r_arenas w1
       | Some a \<Rightarrow> r_next w2 \<le> a \<and> a < r_next w3 \<and> r_arenas w3 = (r_arenas w1)(a \<mapsto> StatePrng L)"
    unfolding added_def h by blast
  then show "added E w1 L w3"
  proof cases
    case own
    then show ?thesis using L by (simp add: added_def)
  next
    case shim
    note sh = shim(2-7) le [OF shim(1)] o [OF shim(8)]
    show ?thesis unfolding added_def using L sh by blast
  qed
qed

text \<open>The world once the record exists, and the arena it has, if any.\<close>

definition with_record :: "rworld \<Rightarrow> nat option \<Rightarrow> prng_src \<Rightarrow> rworld" where
  "with_record w a p =
     w\<lparr>r_recs := (r_recs w)(r_next w \<mapsto> \<lparr>sr_heap = a, sr_L = None\<rparr>),
       r_arenas := (case a of None \<Rightarrow> r_arenas w | Some x \<Rightarrow> (r_arenas w)(x \<mapsto> p)),
       r_next := (case a of None \<Rightarrow> r_next w + 1 | Some x \<Rightarrow> x + 1)\<rparr>"

lemma arena_result:
  "\<exists>a. ns_arena E (r_next w) (w\<lparr>r_recs := (r_recs w)(r_next w \<mapsto> \<lparr>sr_heap = None, sr_L = None\<rparr>), r_next := r_next w + 1\<rparr>) =
      Inr (with_record w a StackPrng) \<and> (a = None \<or> a = Some (r_next w + 1))"
proof (cases "n_seed E \<and> n_create E")
  case True
  then show ?thesis
    by (intro exI [of _ "Some (r_next w + 1)"]) (simp add: ns_arena_def lj_alloc_setprng_def with_record_def Let_def)
next
  case False
  then show ?thesis by (intro exI [of _ None]) (auto simp: ns_arena_def with_record_def)
qed

lemma state_of_new:
  "fresh w \<Longrightarrow> r_states w L \<noteq> Some (Some (r_next w))"
  unfolding fresh_def unused_def by (metis le_refl)

lemma destroy_ok:
  assumes "r_arenas w a \<noteq> None" "\<And>L M R. r_states w L = Some (Some M) \<Longrightarrow> r_recs w M = Some R \<Longrightarrow> sr_heap R \<noteq> Some a"
  shows "lj_alloc_destroy a w = Inr (w\<lparr>r_arenas := (r_arenas w)(a := None)\<rparr>)"
proof -
  have "\<not> (case r_states w L of
             Some (Some M) \<Rightarrow> (case r_recs w M of Some R \<Rightarrow> sr_heap R = Some a | None \<Rightarrow> False)
           | _ \<Rightarrow> False)" for L
    using assms(2) [of L] by (auto split: option.splits)
  then show ?thesis using assms(1) by (simp add: lj_alloc_destroy_def list_ex_iff)
qed

lemma free_ok:
  assumes "r_recs w M \<noteq> None" "M \<notin> r_timers w" "\<And>L. r_states w L \<noteq> Some (Some M)"
  shows "free_record M w = Inr (w\<lparr>r_recs := (r_recs w)(M := None)\<rparr>)"
  using assms by (auto simp: free_record_def list_ex_iff)

text \<open>A record no state has is dropped whole.\<close>

lemma drop_ok:
  assumes R: "r_recs w M = Some R" and M: "M \<notin> r_timers w" "\<And>L. r_states w L \<noteq> Some (Some M)"
    and a: "\<And>a. sr_heap R = Some a \<Longrightarrow> r_arenas w a \<noteq> None \<and>
      (\<forall>L M R. r_states w L = Some (Some M) \<and> r_recs w M = Some R \<longrightarrow> sr_heap R \<noteq> Some a)"
  shows "drop_record M w = Inr (w\<lparr>r_recs := (r_recs w)(M := None),
    r_arenas := (case sr_heap R of None \<Rightarrow> r_arenas w | Some a \<Rightarrow> (r_arenas w)(a := None))\<rparr>)"
proof (cases "sr_heap R")
  case None
  then show ?thesis using R free_ok [OF _ M] by (simp add: drop_record_def)
next
  case (Some b)
  have d: "lj_alloc_destroy b w = Inr (w\<lparr>r_arenas := (r_arenas w)(b := None)\<rparr>)"
    using a [OF Some] by (intro destroy_ok) auto
  have f: "free_record M (w\<lparr>r_arenas := (r_arenas w)(b := None)\<rparr>) =
      Inr (w\<lparr>r_arenas := (r_arenas w)(b := None), r_recs := (r_recs w)(M := None)\<rparr>)"
    using free_ok [of "w\<lparr>r_arenas := (r_arenas w)(b := None)\<rparr>" M] R M by simp
  show ?thesis unfolding drop_record_def R option.case Some d ebind_Inr f by simp
qed

lemma drop_new:
  assumes "fresh w" "a = None \<or> a = Some (r_next w + 1)" "r_next (with_record w a p) \<le> n"
  shows "\<exists>w'. drop_record (r_next w) (with_record w a p\<lparr>r_next := n\<rparr>) = Inr w' \<and> same_held w w'"
proof -
  let ?w = "with_record w a p\<lparr>r_next := n\<rparr>" and ?R = "\<lparr>sr_heap = a, sr_L = None\<rparr>"
  have u: "r_recs w (r_next w) = None" "r_arenas w (Suc (r_next w)) = None" "r_next w \<notin> r_timers w"
    using assms(1) by (simp_all add: fresh_def unused_def)
  have "drop_record (r_next w) ?w = Inr (?w\<lparr>r_recs := (r_recs ?w)(r_next w := None),
    r_arenas := (case sr_heap ?R of None \<Rightarrow> r_arenas ?w | Some a \<Rightarrow> (r_arenas ?w)(a := None))\<rparr>)"
  proof (rule drop_ok)
    show "r_recs ?w (r_next w) = Some ?R" "r_next w \<notin> r_timers ?w" "r_states ?w L \<noteq> Some (Some (r_next w))" for L
      using u state_of_new [OF assms(1)] by (simp_all add: with_record_def)
  next
    fix b assume "sr_heap ?R = Some b"
    then have b: "a = Some b" "b = Suc (r_next w)" using assms(2) by auto
    have "sr_heap R \<noteq> Some b" if "r_states w L = Some (Some M)" "r_recs ?w M = Some R" for L M R
    proof -
      have "M \<noteq> r_next w" using that(1) state_of_new [OF assms(1)] by auto
      then have "r_recs w M = Some R" using that(2) by (simp add: with_record_def)
      then show ?thesis using assms(1) u(2) b(2) unfolding fresh_def by metis
    qed
    then show "r_arenas ?w b \<noteq> None \<and>
      (\<forall>L M R. r_states ?w L = Some (Some M) \<and> r_recs ?w M = Some R \<longrightarrow> sr_heap R \<noteq> Some b)"
      using b by (auto simp: with_record_def)
  qed
  moreover have "same_held w (?w\<lparr>r_recs := (r_recs ?w)(r_next w := None),
    r_arenas := (case sr_heap ?R of None \<Rightarrow> r_arenas ?w | Some a \<Rightarrow> (r_arenas ?w)(a := None))\<rparr>)"
    using u assms(2,3) by (auto simp: same_held_def with_record_def fun_upd_idem_iff)
  ultimately show ?thesis by blast
qed

lemma use_new: "use_record True (r_next w) (with_record w a StackPrng) = Inr ()"
  by (cases a) (simp_all add: use_record_def with_record_def prng_live_def)

text \<open>The build: no state, the record still there; a state; or nothing, behind the layout gate.\<close>

lemma build_result:
  assumes f: "fresh w"
  shows "\<exists>r w'. ns_build E (r_next w) (w\<lparr>r_recs := (r_recs w)(r_next w \<mapsto> \<lparr>sr_heap = None, sr_L = None\<rparr>), r_next := r_next w + 1\<rparr>) = Inr (r, w') \<and>
    (case r of
       (True, _) \<Rightarrow> same_held w w'
     | (False, None) \<Rightarrow> \<exists>a. (a = None \<or> a = Some (r_next w + 1)) \<and> w' = with_record w a StackPrng
     | (False, Some L) \<Rightarrow> \<exists>a. (a = None \<or> a = Some (r_next w + 1)) \<and> lj52_layout_ok E \<and>
         L = r_next (with_record w a StackPrng) \<and>
         w' = (with_record w a (StatePrng L))\<lparr>r_states := (r_states w)(L \<mapsto> Some (r_next w)), r_next := L + 1\<rparr>)"
proof -
  obtain a where a: "ns_arena E (r_next w) (w\<lparr>r_recs := (r_recs w)(r_next w \<mapsto> \<lparr>sr_heap = None, sr_L = None\<rparr>), r_next := r_next w + 1\<rparr>) =
      Inr (with_record w a StackPrng)" "a = None \<or> a = Some (r_next w + 1)"
    using arena_result by blast
  let ?w = "with_record w a StackPrng" and ?M = "r_next w"
  have s: "r_states ?w = r_states w" "r_timers ?w = r_timers w" "r_recs ?w ?M = Some \<lparr>sr_heap = a, sr_L = None\<rparr>"
    by (simp_all add: with_record_def)
  show ?thesis
  proof (cases "n_state E")
    case False
    then have "ns_build E ?M (w\<lparr>r_recs := (r_recs w)(r_next w \<mapsto> \<lparr>sr_heap = None, sr_L = None\<rparr>), r_next := r_next w + 1\<rparr>) =
        Inr ((False, None), ?w)"
      unfolding ns_build_def a ebind_Inr lua_newstate_def use_new by simp
    then show ?thesis using a(2) by auto
  next
    case True
    let ?L = "r_next ?w"
    let ?w1 = "?w\<lparr>r_states := (r_states w)(?L \<mapsto> Some ?M), r_next := ?L + 1\<rparr>"
    have n: "lua_newstate True ?M ?w = Inr (Some ?L, ?w1)"
      unfolding lua_newstate_def use_new ebind_Inr s by simp
    show ?thesis
    proof (cases "lj52_layout_ok E")
      case bad: False
      have u: "use_record True ?M ?w1 = Inr ()"
        by (cases a) (simp_all add: use_record_def with_record_def prng_live_def)
      have "r_states w ?L = None" "?M \<notin> r_timers w" using f a(2) by (auto simp: fresh_def unused_def with_record_def)
      then have c: "lua_close True ?L ?w1 = Inr (?w\<lparr>r_next := ?L + 1\<rparr>)"
        using u s by (simp add: lua_close_def fun_upd_idem_iff)
      obtain w' where d: "drop_record ?M (?w\<lparr>r_next := ?L + 1\<rparr>) = Inr w'" "same_held w w'"
        using drop_new [OF f a(2), of StackPrng "?L + 1"] by auto
      have nt: "n_state E = True" "lj52_layout_ok E = False" using \<open>n_state E\<close> bad by simp_all
      have "ns_build E ?M (w\<lparr>r_recs := (r_recs w)(r_next w \<mapsto> \<lparr>sr_heap = None, sr_L = None\<rparr>), r_next := r_next w + 1\<rparr>) =
          Inr ((True, None), w')"
        by (simp only: ns_build_def a(1) ebind_Inr nt n prod.case option.case c d(1) not_False_eq_True if_True)
      then show ?thesis using d(2) by auto
    next
      case ok: True
      have r: "r_recs ?w1 ?M = Some \<lparr>sr_heap = a, sr_L = None\<rparr>" using s by simp
      have p: "(case a of None \<Rightarrow> Inr ?w1 | Some x \<Rightarrow> lj_alloc_setprng x (StatePrng ?L) ?w1) =
          Inr ((with_record w a (StatePrng ?L))\<lparr>r_states := (r_states w)(?L \<mapsto> Some ?M), r_next := ?L + 1\<rparr>)"
        by (cases a) (simp_all add: lj_alloc_setprng_def with_record_def)
      have nt: "n_state E = True" "lj52_layout_ok E = True" using \<open>n_state E\<close> ok by simp_all
      have "ns_build E ?M (w\<lparr>r_recs := (r_recs w)(r_next w \<mapsto> \<lparr>sr_heap = None, sr_L = None\<rparr>), r_next := r_next w + 1\<rparr>) =
          Inr ((False, Some ?L), (with_record w a (StatePrng ?L))\<lparr>r_states := (r_states w)(?L \<mapsto> Some ?M), r_next := ?L + 1\<rparr>)"
        by (simp only: ns_build_def a(1) ebind_Inr nt n prod.case option.case r shimrec.select_convs p not_True_eq_False if_False)
      then show ?thesis using a(2) ok by auto
    qed
  qed
qed

lemma newstate_result:
  assumes f: "fresh w"
  shows "\<exists>r w'. lj52_newstate E w = Inr (r, w') \<and>
    (case r of NsNull \<Rightarrow> same_held w w' | NsState L \<Rightarrow> added E w L w' | NsPanic \<Rightarrow> True)"
proof (cases "n_calloc E")
  case False
  then show ?thesis using fallback_result [of E w] by (simp add: lj52_newstate_def)
next
  case True
  let ?w0 = "w\<lparr>r_recs := (r_recs w)(r_next w \<mapsto> \<lparr>sr_heap = None, sr_L = None\<rparr>), r_next := r_next w + 1\<rparr>"
  obtain refused L w' where b: "ns_build E (r_next w) ?w0 = Inr ((refused, L), w')" and
    c: "case (refused, L) of
       (True, _) \<Rightarrow> same_held w w'
     | (False, None) \<Rightarrow> \<exists>a. (a = None \<or> a = Some (r_next w + 1)) \<and> w' = with_record w a StackPrng
     | (False, Some L) \<Rightarrow> \<exists>a. (a = None \<or> a = Some (r_next w + 1)) \<and> lj52_layout_ok E \<and>
         L = r_next (with_record w a StackPrng) \<and>
         w' = (with_record w a (StatePrng L))\<lparr>r_states := (r_states w)(L \<mapsto> Some (r_next w)), r_next := L + 1\<rparr>"
    using build_result [OF f, of E] by auto
  have e: "lj52_newstate E w = (if refused then Inr (NsNull, w')
      else case L of None \<Rightarrow> ns_fallback E (Some (r_next w)) w' | Some L \<Rightarrow> ns_start E (Some (r_next w)) L w')"
    using True b by (simp add: lj52_newstate_def Let_def)
  show ?thesis
  proof (cases refused)
    case True
    then show ?thesis using c e by simp
  next
    case nr: False
    show ?thesis
    proof (cases L)
      case None
      then obtain a where a: "a = None \<or> a = Some (r_next w + 1)" "w' = with_record w a StackPrng" using c nr by auto
      obtain w2 where d: "drop_record (r_next w) w' = Inr w2" "same_held w w2"
        using drop_new [OF f a(1), of StackPrng "r_next w'"] a(2) by auto
      obtain r w3 where g: "ns_fallback E None w2 = Inr (r, w3)"
        "case r of NsNull \<Rightarrow> same_held w2 w3 | NsState L \<Rightarrow> added E w2 L w3 | NsPanic \<Rightarrow> True"
        using fallback_result by blast
      have "ns_fallback E (Some (r_next w)) w' = ns_fallback E None w2" using d by (simp add: ns_fallback_def)
      moreover have "case r of NsNull \<Rightarrow> same_held w w3 | NsState L \<Rightarrow> added E w L w3 | NsPanic \<Rightarrow> True"
        using g(2) d(2) same_held_trans [OF d(2)] by (auto simp: same_held_def split: ns_result.splits)
      ultimately show ?thesis using e nr None g(1) by auto
    next
      case (Some l)
      then obtain a where a: "a = None \<or> a = Some (r_next w + 1)" "lj52_layout_ok E" "l = r_next (with_record w a StackPrng)"
         "w' = (with_record w a (StatePrng l))\<lparr>r_states := (r_states w)(l \<mapsto> Some (r_next w)), r_next := l + 1\<rparr>"
        using c nr by auto
      let ?R = "\<lparr>sr_heap = a, sr_L = Some l\<rparr>"
      let ?w2 = "w'\<lparr>r_recs := (r_recs w')(r_next w \<mapsto> ?R), r_timers := (if n_timer E then insert (r_next w) (r_timers w) else r_timers w)\<rparr>"
      have r: "r_recs w' (r_next w) = Some \<lparr>sr_heap = a, sr_L = None\<rparr>" "r_timers w' = r_timers w"
        by (simp_all add: a(4) with_record_def)
      have u: "use_record False (r_next w) ?w2 = Inr ()"
        by (cases a) (simp_all add: use_record_def a(4) with_record_def prng_live_def)
      have st: "ns_start E (Some (r_next w)) l w' = Inr (if n_setup E then NsState l else NsPanic, ?w2)"
        using u r by (cases "n_timer E") (simp_all add: ns_start_def Let_def)
      have "added E w l ?w2" unfolding added_def using a(1-3)
        by (auto simp: a(4) with_record_def intro!: exI [of _ "r_next w"] exI [of _ ?R])
      then show ?thesis using e nr Some st by auto
    qed
  qed
qed

section \<open>What is held is what open states need\<close>

definition life_inv :: "rworld \<Rightarrow> bool" where
  "life_inv w = ((\<forall>x. r_next w \<le> x \<longrightarrow> unused w x) \<and>
     (\<forall>L M. r_states w L = Some (Some M) \<longrightarrow> (\<exists>R. r_recs w M = Some R \<and> sr_L R = Some L)) \<and>
     (\<forall>M R. r_recs w M = Some R \<longrightarrow> (\<exists>L. sr_L R = Some L \<and> r_states w L = Some (Some M) \<and>
        (\<forall>a. sr_heap R = Some a \<longrightarrow> r_arenas w a = Some (StatePrng L)))) \<and>
     (\<forall>a. r_arenas w a \<noteq> None \<longrightarrow> (\<exists>M R. r_recs w M = Some R \<and> sr_heap R = Some a)) \<and>
     r_timers w \<subseteq> dom (r_recs w))"

lemma life_fresh: "life_inv w \<Longrightarrow> fresh w"
  unfolding life_inv_def fresh_def by (metis option.distinct(1))

lemma life_same: "life_inv w \<Longrightarrow> same_held w w' \<Longrightarrow> life_inv w'"
  unfolding life_inv_def same_held_def unused_def by simp

text \<open>An arena has one record, a record one state.\<close>

lemma life_unique:
  assumes "life_inv w" "r_recs w M = Some R" "r_recs w M' = Some R'" "sr_heap R = Some a" "sr_heap R' = Some a"
  shows "M' = M"
proof -
  obtain L L' where "r_states w L = Some (Some M)" "r_states w L' = Some (Some M')"
    "r_arenas w a = Some (StatePrng L)" "r_arenas w a = Some (StatePrng L')"
    using assms unfolding life_inv_def by metis
  then show ?thesis by simp
qed

lemma life_added:
  assumes i: "life_inv w" and a: "added E w L w'"
  shows "life_inv w'"
proof -
  have f: "unused w x" if "r_next w \<le> x" for x using i that by (simp add: life_inv_def)
  have L: "r_next w \<le> L" "L < r_next w'" using a by (simp_all add: added_def)
  have uL: "r_states w L = None" "r_recs w L = None" using f [OF L(1)] by (simp_all add: unused_def)
  have n: "r_next w \<le> r_next w'" using L by simp
  from a consider
    (own) "r_states w' = (r_states w)(L \<mapsto> None)" "r_recs w' = r_recs w" "r_arenas w' = r_arenas w" "r_timers w' = r_timers w"
  | (shim) M R where "r_next w \<le> M" "M < r_next w'" "r_states w' = (r_states w)(L \<mapsto> Some M)"
      "r_recs w' = (r_recs w)(M \<mapsto> R)" "sr_L R = Some L"
      "r_timers w' = (if n_timer E then insert M (r_timers w) else r_timers w)"
      "case sr_heap R of None \<Rightarrow> r_arenas w' = r_arenas w
       | Some a \<Rightarrow> r_next w \<le> a \<and> a < r_next w' \<and> r_arenas w' = (r_arenas w)(a \<mapsto> StatePrng L)"
    unfolding added_def by blast
  then show ?thesis
  proof cases
    case own
    then show ?thesis using i L uL n unfolding life_inv_def unused_def
      by (auto simp: uL) (metis option.distinct(1))+
  next
    case shim
    note uM = f [OF shim(1), unfolded unused_def]
    have old: "M' \<noteq> M" if "r_states w L' = Some (Some M')" for L' M'
      using i that uM unfolding life_inv_def by (metis option.distinct(1))
    have arenas: "r_arenas w' x = (if sr_heap R = Some x then Some (StatePrng L) else r_arenas w x)" for x
      using shim(7) by (auto split: option.splits)
    have new_arena: "r_arenas w x = None \<and> r_next w \<le> x \<and> x < r_next w'" if "sr_heap R = Some x" for x
      using shim(7) that f [of x] by (simp add: unused_def)
    show ?thesis unfolding life_inv_def
    proof (intro conjI allI impI)
      fix x assume "r_next w' \<le> x"
      then show "unused w' x" using f [of x] n L shim new_arena [of x] unfolding unused_def arenas by (auto split: if_splits)
    next
      fix L' M' assume "r_states w' L' = Some (Some M')"
      then show "\<exists>R. r_recs w' M' = Some R \<and> sr_L R = Some L'"
        using i old [of L' M'] shim(3-5) unfolding life_inv_def by (auto split: if_splits)
    next
      fix M' R' assume r: "r_recs w' M' = Some R'"
      show "\<exists>L. sr_L R' = Some L \<and> r_states w' L = Some (Some M') \<and> (\<forall>a. sr_heap R' = Some a \<longrightarrow> r_arenas w' a = Some (StatePrng L))"
      proof (cases "M' = M")
        case True
        then show ?thesis using r shim(3-5) arenas by simp
      next
        case False
        then have "r_recs w M' = Some R'" using r shim(4) by simp
        then obtain K where K: "sr_L R' = Some K" "r_states w K = Some (Some M')"
          "\<forall>a. sr_heap R' = Some a \<longrightarrow> r_arenas w a = Some (StatePrng K)"
          using i unfolding life_inv_def by metis
        have "K \<noteq> L" using K(2) uL by auto
        then show ?thesis using K shim(3) arenas new_arena by (intro exI [of _ K]) auto
      qed
    next
      fix x assume x: "r_arenas w' x \<noteq> None"
      show "\<exists>M R. r_recs w' M = Some R \<and> sr_heap R = Some x"
      proof (cases "sr_heap R = Some x")
        case True
        then show ?thesis using shim(4) by auto
      next
        case False
        then obtain M' R' where "r_recs w M' = Some R'" "sr_heap R' = Some x"
          using x arenas i unfolding life_inv_def by metis
        then show ?thesis using shim(4) uM by (intro exI [of _ M'] exI [of _ R']) auto
      qed
    next
      show "r_timers w' \<subseteq> dom (r_recs w')" using i shim(4,6) unfolding life_inv_def by auto
    qed
  qed
qed

lemma close_result:
  assumes i: "life_inv w" and L: "r_states w L = Some m"
  shows "\<exists>w'. lj52_close L w = Inr w' \<and> life_inv w' \<and> r_states w' = (r_states w)(L := None)"
proof (cases m)
  case None
  let ?w = "w\<lparr>r_states := (r_states w)(L := None)\<rparr>"
  have "life_inv ?w"
    using i L None unfolding life_inv_def unused_def by auto (metis option.inject option.distinct(1))+
  then show ?thesis using L None by (simp add: lj52_close_def lua_close_def)
next
  case (Some M)
  obtain R where R: "r_recs w M = Some R" "sr_L R = Some L" using i L Some unfolding life_inv_def by blast
  have ar: "r_arenas w a = Some (StatePrng L)" if "sr_heap R = Some a" for a
    using i R that unfolding life_inv_def by (metis option.inject)
  have only: "r_states w K = Some (Some M) \<Longrightarrow> K = L" for K
    using i R unfolding life_inv_def by (metis option.inject)
  let ?w = "w\<lparr>r_timers := r_timers w - {M}\<rparr>"
  let ?w1 = "?w\<lparr>r_states := (r_states w)(L := None)\<rparr>"
  have c: "lua_close False L ?w = Inr ?w1"
    using L Some R ar by (auto simp: lua_close_def use_record_def prng_live_def split: option.splits)
  let ?w2 = "?w1\<lparr>r_recs := (r_recs w)(M := None),
    r_arenas := (case sr_heap R of None \<Rightarrow> r_arenas w | Some a \<Rightarrow> (r_arenas w)(a := None))\<rparr>"
  have "drop_record M ?w1 = Inr (?w1\<lparr>r_recs := (r_recs ?w1)(M := None),
    r_arenas := (case sr_heap R of None \<Rightarrow> r_arenas ?w1 | Some a \<Rightarrow> (r_arenas ?w1)(a := None))\<rparr>)"
  proof (rule drop_ok)
    fix a assume a: "sr_heap R = Some a"
    have "sr_heap R' \<noteq> Some a" if "r_states ?w1 L' = Some (Some M')" "r_recs ?w1 M' = Some R'" for L' M' R'
    proof
      assume "sr_heap R' = Some a"
      then have "M' = M" using life_unique [OF i R(1) _ a] that(2) by simp
      then show False using that(1) only by (auto split: if_splits)
    qed
    then show "r_arenas ?w1 a \<noteq> None \<and>
      (\<forall>L M R. r_states ?w1 L = Some (Some M) \<and> r_recs ?w1 M = Some R \<longrightarrow> sr_heap R \<noteq> Some a)"
      using ar [OF a] by (intro conjI) (simp, blast)
  qed (use R only in auto)
  then have e: "lj52_close L w = Inr ?w2" using L Some c by (cases "sr_heap R") (simp_all add: lj52_close_def)
  have arenas: "r_arenas ?w2 x = (if sr_heap R = Some x then None else r_arenas w x)" for x
    by (auto split: option.splits)
  have "life_inv ?w2" unfolding life_inv_def
  proof (intro conjI allI impI)
    fix x assume "r_next ?w2 \<le> x"
    then show "unused ?w2 x" using i unfolding life_inv_def unused_def arenas by auto
  next
    fix K N assume "r_states ?w2 K = Some (Some N)"
    then have k: "K \<noteq> L" "r_states w K = Some (Some N)" by (auto split: if_splits)
    then have "N \<noteq> M" using only by auto
    then show "\<exists>R. r_recs ?w2 N = Some R \<and> sr_L R = Some K" using i k(2) unfolding life_inv_def by auto
  next
    fix N Q assume "r_recs ?w2 N = Some Q"
    then have q: "N \<noteq> M" "r_recs w N = Some Q" by (auto split: if_splits)
    then obtain K where K: "sr_L Q = Some K" "r_states w K = Some (Some N)"
      "\<forall>a. sr_heap Q = Some a \<longrightarrow> r_arenas w a = Some (StatePrng K)" using i unfolding life_inv_def by metis
    have "K \<noteq> L" using K(2) L Some q(1) by auto
    moreover have "sr_heap Q = Some a \<Longrightarrow> sr_heap R \<noteq> Some a" for a
      using life_unique [OF i R(1) q(2)] q(1) by blast
    ultimately show "\<exists>L. sr_L Q = Some L \<and> r_states ?w2 L = Some (Some N) \<and>
        (\<forall>a. sr_heap Q = Some a \<longrightarrow> r_arenas ?w2 a = Some (StatePrng L))"
      using K unfolding arenas by (intro exI [of _ K]) auto
  next
    fix x assume "r_arenas ?w2 x \<noteq> None"
    then have x: "sr_heap R \<noteq> Some x" "r_arenas w x \<noteq> None" unfolding arenas by (auto split: if_splits)
    then obtain N Q where N: "r_recs w N = Some Q" "sr_heap Q = Some x" using i unfolding life_inv_def by metis
    then have "N \<noteq> M" using R x(1) by auto
    then show "\<exists>M R. r_recs ?w2 M = Some R \<and> sr_heap R = Some x" using N by (intro exI [of _ N] exI [of _ Q]) simp
  next
    show "r_timers ?w2 \<subseteq> dom (r_recs ?w2)" using i unfolding life_inv_def by auto
  qed
  then show ?thesis using e by auto
qed

section \<open>The process as a machine\<close>

definition life_init :: "rworld \<Rightarrow> bool" where
  "life_init w = (r_recs w = Map.empty \<and> r_arenas w = Map.empty \<and> r_states w = Map.empty \<and> r_timers w = {})"

inductive life_step :: "rworld \<Rightarrow> rworld \<Rightarrow> bool" where
  Birth: "lj52_newstate E w = Inr (NsState L, w') \<Longrightarrow> life_step w w'"
| NoBirth: "lj52_newstate E w = Inr (NsNull, w') \<Longrightarrow> life_step w w'"
| Death: "r_states w L \<noteq> None \<Longrightarrow> lj52_close L w = Inr w' \<Longrightarrow> life_step w w'"

interpretation life_machine: machine life_init life_step life_inv
proof
  show "life_init w \<Longrightarrow> life_inv w" for w by (simp add: life_init_def life_inv_def unused_def)
  have "life_step w w' \<Longrightarrow> life_inv w \<Longrightarrow> life_inv w'" for w w'
  proof (induction rule: life_step.induct)
    case (Birth E w L w')
    then show ?case using newstate_result [OF life_fresh [OF Birth.prems], of E] life_added by auto
  next
    case (NoBirth E w w')
    then show ?case using newstate_result [OF life_fresh [OF NoBirth.prems], of E] life_same by auto
  next
    case (Death w L w')
    then show ?case using close_result [OF Death.prems] by fastforce
  qed
  then show "life_inv w \<Longrightarrow> life_step w w' \<Longrightarrow> life_inv w'" for w w' by blast
qed

text \<open>C15: no birth and no death leaks or touches what is gone. Whatever call fails, and however the births
  and deaths of many states follow each other, a birth that returns never uses a freed or missing
  resource, leaves everything as it was when it returns no state, and never returns a state on a
  record unless the three builds agree on LuaJIT's layout; a death of any open state stops its
  timer thread, closes it, and releases its arena and its record after it; and at any time the
  records are those of the open states, the arenas those of the records, each fed with random
  numbers by its own open state, and the timer threads those of records.\<close>

theorem life_cycle:
  assumes "reachable life_init life_step w"
  shows "(\<exists>r w'. lj52_newstate E w = Inr (r, w') \<and> (r = NsNull \<longrightarrow> same_held w w') \<and>
      (\<forall>L M. r = NsState L \<and> r_states w' L = Some (Some M) \<longrightarrow> n_gg E = n_mine E \<and> n_eris E = n_mine E)) \<and>
    (r_states w L \<noteq> None \<longrightarrow> (\<exists>w'. lj52_close L w = Inr w' \<and> r_states w' = (r_states w)(L := None))) \<and>
    dom (r_recs w) = {M. \<exists>L. r_states w L = Some (Some M)} \<and>
    dom (r_arenas w) = {a. \<exists>M R. r_recs w M = Some R \<and> sr_heap R = Some a} \<and>
    (\<forall>a p. r_arenas w a = Some p \<longrightarrow> (\<exists>K. p = StatePrng K \<and> r_states w K \<noteq> None)) \<and>
    r_timers w \<subseteq> dom (r_recs w)"
proof (intro conjI)
  have i: "life_inv w" by (rule life_machine.reachable_inv [OF assms])
  obtain r w' where n: "lj52_newstate E w = Inr (r, w')"
    "case r of NsNull \<Rightarrow> same_held w w' | NsState L \<Rightarrow> added E w L w' | NsPanic \<Rightarrow> True"
    using newstate_result [OF life_fresh [OF i]] by blast
  have "lj52_layout_ok E" if "r = NsState K" "r_states w' K = Some (Some M)" for K M
    using n(2) that by (auto simp: added_def)
  then show "\<exists>r w'. lj52_newstate E w = Inr (r, w') \<and> (r = NsNull \<longrightarrow> same_held w w') \<and>
      (\<forall>L M. r = NsState L \<and> r_states w' L = Some (Some M) \<longrightarrow> n_gg E = n_mine E \<and> n_eris E = n_mine E)"
    using n by (auto simp: lj52_layout_ok_def)
  show "r_states w L \<noteq> None \<longrightarrow> (\<exists>w'. lj52_close L w = Inr w' \<and> r_states w' = (r_states w)(L := None))"
    using close_result [OF i, of L] by blast
  show "dom (r_recs w) = {M. \<exists>L. r_states w L = Some (Some M)}" using i unfolding life_inv_def by blast
  show "dom (r_arenas w) = {a. \<exists>M R. r_recs w M = Some R \<and> sr_heap R = Some a}"
    using i unfolding life_inv_def dom_def by auto (metis option.distinct(1))+
  show "\<forall>a p. r_arenas w a = Some p \<longrightarrow> (\<exists>K. p = StatePrng K \<and> r_states w K \<noteq> None)"
    using i unfolding life_inv_def by (metis option.distinct(1) option.inject)
  show "r_timers w \<subseteq> dom (r_recs w)" using i by (simp add: life_inv_def)
qed

text \<open>The example: an empty process, a state born and closed; a birth refused by the layout gate.\<close>

definition w_empty :: rworld where
  "w_empty = \<lparr>r_recs = Map.empty, r_arenas = Map.empty, r_states = Map.empty, r_timers = {}, r_next = 0\<rparr>"

definition good_birth :: ns_env where
  "good_birth = \<lparr>n_calloc = True, n_seed = True, n_create = True, n_state = True, n_fallback = True, n_timer = True,
     n_setup = True, n_gg = 6032, n_mine = 6032, n_eris = 6032\<rparr>"

theorem life_cycle_witness:
  "\<exists>w1 w2 w3. lj52_newstate good_birth w_empty = Inr (NsState 2, w1) \<and> r_timers w1 = {0} \<and>
    lj52_newstate (good_birth\<lparr>n_gg := 6040\<rparr>) w1 = Inr (NsNull, w2) \<and> same_held w1 w2 \<and>
    lj52_close 2 w2 = Inr w3 \<and> r_recs w3 = Map.empty \<and> r_arenas w3 = Map.empty"
proof -
  let ?bad = "good_birth\<lparr>n_gg := 6040\<rparr>"
  have 0: "reachable life_init life_step w_empty"
    by (rule reachable.Init) (simp add: life_init_def w_empty_def)
  have "\<exists>w1. lj52_newstate good_birth w_empty = Inr (NsState 2, w1) \<and> r_timers w1 = {0} \<and>
      (\<exists>w2. lj52_newstate ?bad w1 = Inr (NsNull, w2))"
    by (simp add: lj52_newstate_def ns_build_def ns_arena_def ns_start_def lj_alloc_setprng_def lua_newstate_def
        use_record_def prng_live_def lj52_layout_ok_def lua_close_def drop_record_def lj_alloc_destroy_def free_record_def
        good_birth_def w_empty_def upt_rec Let_def) blast
  then obtain w1 w2 where w1: "lj52_newstate good_birth w_empty = Inr (NsState 2, w1)" "r_timers w1 = {0}"
    and w2: "lj52_newstate ?bad w1 = Inr (NsNull, w2)" by blast
  have 1: "reachable life_init life_step w1" by (rule reachable.Step [OF 0 Birth [OF w1(1)]])
  have s: "same_held w1 w2" using life_cycle [OF 1, of ?bad 0] w2 by auto
  have 2: "reachable life_init life_step w2" by (rule reachable.Step [OF 1 NoBirth [OF w2]])
  have st: "r_states w1 = [2 \<mapsto> Some 0]"
    using w1(1)
    by (auto simp: lj52_newstate_def ns_build_def ns_arena_def ns_start_def lj_alloc_setprng_def lua_newstate_def
        use_record_def prng_live_def lj52_layout_ok_def good_birth_def w_empty_def Let_def)
  then have "r_states w2 2 \<noteq> None" using s by (simp add: same_held_def)
  then obtain w3 where w3: "lj52_close 2 w2 = Inr w3" "r_states w3 = (r_states w2)(2 := None)"
    using life_cycle [OF 2, of good_birth 2] by blast
  have "reachable life_init life_step w3" by (rule reachable.Step [OF 2 Death [OF _ w3(1)]]) fact
  from life_cycle [OF this, of good_birth 2] have e: "dom (r_recs w3) = {M. \<exists>L. r_states w3 L = Some (Some M)}"
    "dom (r_arenas w3) = {a. \<exists>M R. r_recs w3 M = Some R \<and> sr_heap R = Some a}" by blast+
  have "r_states w3 = Map.empty" using w3(2) st s by (simp add: same_held_def)
  then have "r_recs w3 = Map.empty" using e(1) by simp
  moreover from this have "r_arenas w3 = Map.empty" using e(2) by simp
  ultimately show ?thesis using w1 w2 s w3 by blast
qed

end
