(* ===== verification/ErisWire.thy ===== *)
theory ErisWire
  imports Prelude Ieee
begin

text \<open>
  serializer/eris_lj.c, the wire: the checksum, the growing write buffer, the integer and number
  encodings and their readers. What has been written is a list of bytes with the buffer's capacity;
  what is left to read is a list of bytes, so the reader's position is the input's length less what
  is left. The host's allocator is an argument of the writers. The laws of an encoding are the
  locale \<open>codec\<close>.
\<close>

section \<open>The checksum\<close>

definition crc_tab :: "u32 list" where
  "crc_tab =
     [0x00000000, 0x1DB71064, 0x3B6E20C8, 0x26D930AC, 0x76DC4190, 0x6B6B51F4, 0x4DB26158, 0x5005713C,
      0xEDB88320, 0xF00F9344, 0xD6D6A3E8, 0xCB61B38C, 0x9B64C2B0, 0x86D3D2D4, 0xA00AE278, 0xBDBDF21C]"

definition crc_nibble :: "u32 \<Rightarrow> u32" where
  "crc_nibble c = drop_bit 4 c XOR crc_tab ! unat (c AND 0xf)"

definition crc_byte :: "u32 \<Rightarrow> byte \<Rightarrow> u32" where
  "crc_byte c b = crc_nibble (crc_nibble (c XOR ucast b))"

definition eris_crc32 :: "byte list \<Rightarrow> u32" where
  "eris_crc32 p = NOT (foldl crc_byte 0xFFFFFFFF p)"

text \<open>The reference: the reflected CRC-32, one bit at a time.\<close>

definition crc_bit :: "u32 \<Rightarrow> u32" where
  "crc_bit c = (if bit c 0 then drop_bit 1 c XOR 0xEDB88320 else drop_bit 1 c)"

definition crc32_spec :: "byte list \<Rightarrow> u32" where
  "crc32_spec p = NOT (foldl (\<lambda>c b. (crc_bit ^^ 8) (c XOR ucast b)) 0xFFFFFFFF p)"

lemma crc_bit_xor: "crc_bit (x XOR y) = crc_bit x XOR crc_bit y"
  by (auto simp: crc_bit_def bit_xor_iff drop_bit_xor ac_simps)

lemma crc_bits_xor: "(crc_bit ^^ n) (x XOR y) = (crc_bit ^^ n) x XOR (crc_bit ^^ n) y"
  by (induction n arbitrary: x y) (simp_all add: crc_bit_xor)

lemma crc_bit_push:
  assumes "take_bit (31 - n) x = x" "n < 32"
  shows "crc_bit (push_bit (Suc n) x) = push_bit n x"
proof -
  have "drop_bit 1 (push_bit (Suc n) x) = push_bit n (take_bit (31 - n) x)"
    using assms(2)
    by (intro bit_word_eqI) (auto simp: bit_push_bit_iff bit_take_bit_iff bit_drop_bit_eq Suc_diff_le simp del: push_bit_Suc)
  then show ?thesis using assms by (simp add: crc_bit_def bit_push_bit_iff del: push_bit_Suc)
qed

lemma take_bit_mono_eq: "take_bit m x = x \<Longrightarrow> m \<le> n \<Longrightarrow> take_bit n x = (x :: u32)"
  by (metis take_bit_take_bit min.absorb2)

lemma crc_bits_push: "take_bit (32 - k) x = x \<Longrightarrow> k \<le> 32 \<Longrightarrow> (crc_bit ^^ k) (push_bit k x) = x"
proof (induction k)
  case (Suc k)
  have "(crc_bit ^^ Suc k) (push_bit (Suc k) x) = (crc_bit ^^ k) (crc_bit (push_bit (Suc k) x))"
    by (simp add: funpow_swap1)
  also have "\<dots> = (crc_bit ^^ k) (push_bit k x)"
    using Suc.prems by (subst crc_bit_push) (auto simp: Suc_diff_Suc)
  also have "\<dots> = x" using Suc.prems take_bit_mono_eq [of "32 - Suc k" x "32 - k"] by (intro Suc.IH) auto
  finally show ?case .
qed simp

lemma word_xor_eq_0: "x XOR y = 0 \<longleftrightarrow> x = (y :: 'a :: len word)"
proof
  assume "x XOR y = 0"
  then have "(x XOR y) XOR y = y" by simp
  then show "x = y" by (simp add: xor.assoc)
qed simp

lemma word_xor_cancel: "x XOR z = y XOR z \<longleftrightarrow> x = (y :: 'a :: len word)"
proof
  assume "x XOR z = y XOR z"
  then have "(x XOR z) XOR z = (y XOR z) XOR z" by simp
  then show "x = y" by (simp add: xor.assoc)
qed simp

lemma bit_ucast_byte: "bit (ucast (b :: byte) :: u32) n \<longleftrightarrow> n < 8 \<and> bit b n"
  using bit_imp_le_length [of b n] by (auto simp: bit_ucast_iff)

lemma crc_bit_zero: "crc_bit z = 0 \<longleftrightarrow> z = 0"
proof
  assume z: "crc_bit z = 0"
  show "z = 0"
  proof (cases "bit z 0")
    case True
    then have "drop_bit 1 z XOR 0xEDB88320 = 0" using z by (simp add: crc_bit_def)
    then have "drop_bit 1 z = 0xEDB88320" by (simp add: word_xor_eq_0)
    moreover have "\<not> bit (drop_bit 1 z) 31" by (auto simp: bit_drop_bit_eq dest: bit_imp_le_length)
    moreover have "bit (0xEDB88320 :: u32) 31" by code_simp
    ultimately show ?thesis by simp
  next
    case False
    then have d: "drop_bit 1 z = 0" using z by (simp add: crc_bit_def)
    show ?thesis
    proof (rule bit_word_eqI)
      fix n
      have "\<not> bit z n"
      proof (cases n)
        case 0
        then show ?thesis using False by simp
      next
        case (Suc m)
        have "bit (drop_bit 1 z) m = bit z n" by (simp add: bit_drop_bit_eq Suc)
        then show ?thesis using d by simp
      qed
      then show "bit z n = bit (0 :: u32) n" by simp
    qed
  qed
qed (simp add: crc_bit_def)

lemma crc_bits_zero: "(crc_bit ^^ n) z = 0 \<longleftrightarrow> z = 0"
  by (induction n) (simp_all add: crc_bit_zero)

lemma crc_bits_inj: "(crc_bit ^^ n) x = (crc_bit ^^ n) y \<longleftrightarrow> x = y"
  using crc_bits_zero [of n "x XOR y"] by (simp add: crc_bits_xor word_xor_eq_0)

text \<open>The nibble table is four steps of the bit loop.\<close>

lemma nibble_split: "c = push_bit 4 (drop_bit 4 c) XOR (c AND 0xf)" for c :: u32
proof (rule bit_word_eqI)
  fix n assume "n < LENGTH(32)"
  have "(0xf :: u32) = mask 4" by code_simp
  then have "bit (0xf :: u32) n = (n < 4)" using \<open>n < LENGTH(32)\<close> by (simp only: bit_mask_iff) simp
  then show "bit c n = bit (push_bit 4 (drop_bit 4 c) XOR (c AND 0xf)) n"
    using \<open>n < LENGTH(32)\<close> by (auto simp: bit_xor_iff bit_push_bit_iff bit_drop_bit_eq bit_and_iff)
qed

lemma crc_table:
  assumes "n < 16"
  shows "crc_tab ! n = (crc_bit ^^ 4) (word_of_nat n)"
proof -
  have t: "crc_tab = map (\<lambda>n. (crc_bit ^^ 4) (word_of_nat n)) [0..<16]" by code_simp
  show ?thesis by (subst t, subst nth_map_upt) (use assms in auto)
qed

lemma crc_nibble_eq: "crc_nibble c = (crc_bit ^^ 4) c"
proof -
  have m: "(0xf :: u32) = mask 4" by code_simp
  have lt: "unat (c AND 0xf) < 16"
    by (simp only: m flip: take_bit_eq_mask) (simp add: take_bit_eq_mod unat_mod)
  have "take_bit 28 (drop_bit 4 c) = drop_bit 4 c"
    by (rule bit_word_eqI) (auto simp: bit_take_bit_iff bit_drop_bit_eq dest: bit_imp_le_length)
  then have "(crc_bit ^^ 4) (push_bit 4 (drop_bit 4 c)) = drop_bit 4 c"
    by (intro crc_bits_push) simp_all
  then have "(crc_bit ^^ 4) c = drop_bit 4 c XOR (crc_bit ^^ 4) (c AND 0xf)"
    by (subst nibble_split [of c]) (simp only: crc_bits_xor)
  then show ?thesis using crc_table [OF lt] by (simp add: crc_nibble_def)
qed

lemma crc_byte_eq: "crc_byte c b = (crc_bit ^^ 8) (c XOR ucast b)"
proof -
  have "crc_byte c b = (crc_bit ^^ (4 + 4)) (c XOR ucast b)"
    by (simp only: crc_byte_def crc_nibble_eq funpow_add comp_apply)
  then show ?thesis by simp
qed

lemma eris_crc32_bitwise: "eris_crc32 p = crc32_spec p"
proof -
  have "crc_byte = (\<lambda>c b. (crc_bit ^^ 8) (c XOR ucast b))" by (intro ext) (rule crc_byte_eq)
  then show ?thesis by (simp only: eris_crc32_def crc32_spec_def)
qed

text \<open>The register after at most four bytes is one map of the register before and the bytes, and
  injective in the bytes.\<close>

lemma crc_fold_inj: "foldl crc_byte c p = foldl crc_byte d p \<longleftrightarrow> c = d"
proof (induction p arbitrary: c d)
  case (Cons b p)
  have "c XOR ucast b = d XOR ucast b \<longleftrightarrow> c = d"
    by (rule word_xor_cancel)
  then show ?case using Cons.IH [of "crc_byte c b" "crc_byte d b"] by (simp add: crc_byte_eq crc_bits_inj)
qed simp

definition burst :: "byte list \<Rightarrow> u32" where
  "burst w = foldr (\<lambda>b x. ucast b XOR push_bit 8 x) w 0"

lemma burst_take: "take_bit (8 * length w) (burst w) = burst w"
proof (induction w)
  case (Cons b w)
  have "take_bit (8 * length (b # w)) (push_bit 8 (burst w)) = push_bit 8 (burst w)"
    using arg_cong [OF Cons.IH, of "push_bit 8"] by (simp add: push_bit_take_bit add.commute)
  moreover have "take_bit (8 * length (b # w)) (ucast b :: u32) = ucast b"
    by (rule bit_word_eqI) (auto simp: bit_take_bit_iff bit_ucast_byte)
  ultimately show ?case by (simp add: burst_def take_bit_xor)
qed (simp add: burst_def)

lemma crc_fold_burst:
  "length w \<le> 4 \<Longrightarrow> foldl crc_byte c w = (crc_bit ^^ (8 * length w)) (c XOR burst w)"
proof (induction w arbitrary: c)
  case (Cons b w)
  let ?n = "8 * length w"
  have "take_bit (32 - 8) (burst w) = burst w"
    by (rule take_bit_mono_eq [OF burst_take]) (use Cons.prems in simp)
  then have p: "(crc_bit ^^ 8) (push_bit 8 (burst w)) = burst w" by (intro crc_bits_push) simp_all
  have "foldl crc_byte c (b # w) = (crc_bit ^^ ?n) (crc_byte c b XOR burst w)"
    using Cons by simp
  also have "crc_byte c b XOR burst w = (crc_bit ^^ 8) ((c XOR ucast b) XOR push_bit 8 (burst w))"
    by (simp only: crc_bits_xor p crc_byte_eq)
  also have "(c XOR ucast b) XOR push_bit 8 (burst w) = c XOR burst (b # w)"
    by (simp add: burst_def xor.assoc)
  also have "(crc_bit ^^ ?n) ((crc_bit ^^ 8) (c XOR burst (b # w))) = (crc_bit ^^ (8 * length (b # w))) (c XOR burst (b # w))"
    by (simp only: funpow_add [symmetric] comp_apply [symmetric, of "crc_bit ^^ ?n"]) (simp add: add.commute)
  finally show ?case .
qed (simp add: burst_def)

lemma burst_inj: "length v = length w \<Longrightarrow> length w \<le> 4 \<Longrightarrow> burst v = burst w \<Longrightarrow> v = w"
proof (induction v w rule: list_induct2)
  case (Cons a v b w)
  have lo: "take_bit 8 (burst (x # u)) = (ucast x :: u32)" for x :: byte and u
    by (rule bit_word_eqI)
       (auto simp: burst_def bit_take_bit_iff bit_xor_iff bit_push_bit_iff bit_ucast_byte)
  have hi: "drop_bit 8 (burst (x # u)) = burst u" if "length u \<le> 3" for x :: byte and u
  proof -
    have t: "take_bit 24 (burst u) = burst u"
      by (rule take_bit_mono_eq [OF burst_take]) (use that in simp)
    have "drop_bit 8 (burst (x # u)) = take_bit 24 (burst u)"
      by (rule bit_word_eqI)
         (auto simp: burst_def bit_take_bit_iff bit_xor_iff bit_push_bit_iff bit_drop_bit_eq bit_ucast_byte)
    then show ?thesis by (simp add: t)
  qed
  have "(ucast a :: u32) = ucast b" using lo [of a v] lo [of b w] Cons.prems by simp
  then have "a = b" by (intro bit_word_eqI) (metis bit_ucast_byte len8_eq)
  moreover have "burst v = burst w" using hi [of v a] hi [of w b] Cons by simp
  ultimately show ?case using Cons by simp
qed simp

lemma crc_burst:
  assumes "length v = length w" "length w \<le> 4" "v \<noteq> w"
  shows "eris_crc32 (p @ v @ q) \<noteq> eris_crc32 (p @ w @ q)"
proof
  assume "eris_crc32 (p @ v @ q) = eris_crc32 (p @ w @ q)"
  then have "foldl crc_byte (foldl crc_byte 0xFFFFFFFF p) v = foldl crc_byte (foldl crc_byte 0xFFFFFFFF p) w"
    by (simp add: eris_crc32_def crc_fold_inj)
  then have "burst v = burst w" using assms(1,2)
    by (simp add: crc_fold_burst crc_bits_inj xor.commute [of "foldl _ _ _"] word_xor_cancel)
  then show False using burst_inj assms by blast
qed

section \<open>Errors\<close>

text \<open>A call of \<open>luaL_error\<close>: its message without the \<open>eris-lj: \<close> every one starts with, and the
  numbers it names (a Lua type is its \<open>LUA_T*\<close> number).\<close>

datatype eris_err = Err string "int list"

abbreviation EVarint :: eris_err where "EVarint \<equiv> Err ''varint overflows 64 bits'' []"
abbreviation EOutOfMemory :: eris_err where "EOutOfMemory \<equiv> Err ''out of memory'' []"

definition EWriting :: "nat \<Rightarrow> eris_err" where
  "EWriting n = Err ''out of memory writing bytes'' [int n]"

definition ETruncated :: "nat \<Rightarrow> nat \<Rightarrow> eris_err" where
  "ETruncated n avail = Err ''truncated data'' [int n, int avail]"

section \<open>The write buffer\<close>

text \<open>\<open>w_out\<close> is the first \<open>I->len\<close> bytes of the buffer and \<open>w_cap\<close> its capacity; the
  allocator's answer to a resize from one size to another is \<open>grow\<close>.\<close>

record wbuf =
  w_out :: "byte list"
  w_cap :: nat

abbreviation SIZE_MAX :: nat where "SIZE_MAX \<equiv> 18446744073709551615"

text \<open>The doubling of \<open>w_try\<close>; the capacity it starts from is never 0.\<close>

function wbuf_fit :: "nat \<Rightarrow> nat \<Rightarrow> nat option" where
  "wbuf_fit need ncap =
     (if ncap < need \<and> 0 < ncap then
        if ncap > SIZE_MAX div 2 then None else wbuf_fit need (ncap * 2)
      else Some ncap)"
  by pat_completeness auto
termination by (relation "measure (\<lambda>(need, ncap). need - ncap)") auto

declare wbuf_fit.simps [simp del]

definition wbuf_new :: "(nat \<Rightarrow> nat \<Rightarrow> bool) \<Rightarrow> nat \<Rightarrow> eris_err + wbuf" where
  "wbuf_new grow cap = (if grow 0 cap then Inr \<lparr>w_out = [], w_cap = cap\<rparr> else Inl EOutOfMemory)"

definition wbuf_free :: "wbuf \<Rightarrow> wbuf" where
  "wbuf_free w = w\<lparr>w_out := [], w_cap := 0\<rparr>"

definition w_try :: "(nat \<Rightarrow> nat \<Rightarrow> bool) \<Rightarrow> byte list \<Rightarrow> wbuf \<Rightarrow> wbuf option" where
  "w_try grow p w =
     (let need = length (w_out w) + length p in
      if need > w_cap w then
        (case wbuf_fit need (if w_cap w \<noteq> 0 then w_cap w else 256) of
           None \<Rightarrow> None
         | Some ncap \<Rightarrow>
             if grow (w_cap w) ncap then Some (w\<lparr>w_cap := ncap, w_out := w_out w @ p\<rparr>) else None)
      else Some (w\<lparr>w_out := w_out w @ p\<rparr>))"

definition w_raw :: "(nat \<Rightarrow> nat \<Rightarrow> bool) \<Rightarrow> byte list \<Rightarrow> wbuf \<Rightarrow> eris_err + wbuf" where
  "w_raw grow p w = (case w_try grow p w of Some w' \<Rightarrow> Inr w' | None \<Rightarrow> Inl (EWriting (length p)))"

definition w_byte :: "(nat \<Rightarrow> nat \<Rightarrow> bool) \<Rightarrow> byte \<Rightarrow> wbuf \<Rightarrow> eris_err + wbuf" where
  "w_byte grow b = w_raw grow [b]"

lemma unat_drop7: "unat (drop_bit 7 (v :: u64)) = unat v div 128"
  by (simp only: unat_drop_bit_eq) (simp add: drop_bit_eq_div)

lemma drop7_less: "drop_bit 7 (v :: u64) \<noteq> 0 \<Longrightarrow> unat (drop_bit 7 v) < unat v"
  unfolding unat_drop7 by (rule div_less_dividend) (auto simp: unat_gt_0)

text \<open>The do-while of \<open>w_uleb\<close>: its ten-byte array's contents.\<close>

function uleb_bytes :: "u64 \<Rightarrow> byte list" where
  "uleb_bytes v =
     (let x = ucast (v AND 0x7f) :: byte; v' = drop_bit 7 v
      in if v' \<noteq> 0 then (x OR 0x80) # uleb_bytes v' else [x])"
  by pat_completeness auto

termination
  by (relation "measure unat") (simp, simp only: in_measure drop7_less not_False_eq_True)

declare uleb_bytes.simps [simp del]

definition w_uleb :: "(nat \<Rightarrow> nat \<Rightarrow> bool) \<Rightarrow> u64 \<Rightarrow> wbuf \<Rightarrow> eris_err + wbuf" where
  "w_uleb grow v = w_raw grow (uleb_bytes v)"

definition w_u64le :: "(nat \<Rightarrow> nat \<Rightarrow> bool) \<Rightarrow> u64 \<Rightarrow> wbuf \<Rightarrow> eris_err + wbuf" where
  "w_u64le grow v = w_raw grow (map (\<lambda>i. ucast (drop_bit (8 * i) v AND 0xff)) [0..<8])"

definition u32le_bytes :: "u32 \<Rightarrow> byte list" where
  "u32le_bytes v = map (\<lambda>i. ucast (drop_bit (8 * i) v AND 0xff)) [0..<4]"

definition w_u32le :: "(nat \<Rightarrow> nat \<Rightarrow> bool) \<Rightarrow> u32 \<Rightarrow> wbuf \<Rightarrow> eris_err + wbuf" where
  "w_u32le grow v = w_raw grow (u32le_bytes v)"

text \<open>The four bytes at \<open>ofs\<close>, all of them written before, are overwritten.\<close>

definition w_patch_u32le :: "nat \<Rightarrow> u32 \<Rightarrow> wbuf \<Rightarrow> wbuf" where
  "w_patch_u32le ofs v w = w\<lparr>w_out := take ofs (w_out w) @ u32le_bytes v @ drop (ofs + 4) (w_out w)\<rparr>"

section \<open>The read side\<close>

definition r_need :: "nat \<Rightarrow> byte list \<Rightarrow> eris_err + unit" where
  "r_need n rest = (if n > length rest then Inl (ETruncated n (length rest)) else Inr ())"

definition r_raw :: "nat \<Rightarrow> byte list \<Rightarrow> eris_err + byte list \<times> byte list" where
  "r_raw n rest = ebind (r_need n rest) (\<lambda>_. Inr (take n rest, drop n rest))"

fun r_byte :: "byte list \<Rightarrow> eris_err + byte \<times> byte list" where
  "r_byte [] = Inl (ETruncated 1 0)"
| "r_byte (b # rest) = Inr (b, rest)"

fun r_uleb_loop :: "u64 \<Rightarrow> nat \<Rightarrow> byte list \<Rightarrow> eris_err + u64 \<times> byte list" where
  "r_uleb_loop v shift [] = Inl (ETruncated 1 0)"
| "r_uleb_loop v shift (b # rest) =
     (if shift > 63 \<or> shift = 63 \<and> b AND 0x7f > 1 then Inl EVarint
      else
        let v = v OR push_bit shift (ucast (b AND 0x7f)) in
        if b AND 0x80 = 0 then Inr (v, rest) else r_uleb_loop v (shift + 7) rest)"

definition r_uleb :: "byte list \<Rightarrow> eris_err + u64 \<times> byte list" where
  "r_uleb = r_uleb_loop 0 0"

definition r_u32le :: "byte list \<Rightarrow> eris_err + u32 \<times> byte list" where
  "r_u32le rest =
     ebind (r_raw 4 rest) (\<lambda>(b, rest).
       Inr (ucast (b ! 0) OR push_bit 8 (ucast (b ! 1)) OR push_bit 16 (ucast (b ! 2))
            OR push_bit 24 (ucast (b ! 3)), rest))"

definition r_u64le :: "byte list \<Rightarrow> eris_err + u64 \<times> byte list" where
  "r_u64le rest =
     ebind (r_raw 8 rest) (\<lambda>(b, rest).
       Inr (foldr (\<lambda>c v. push_bit 8 v OR ucast c) b 0, rest))"

section \<open>Numbers\<close>

definition TAG_NIL :: byte where "TAG_NIL = 0"
definition TAG_FALSE :: byte where "TAG_FALSE = 1"
definition TAG_TRUE :: byte where "TAG_TRUE = 2"
definition TAG_INT :: byte where "TAG_INT = 3"
definition TAG_NUM :: byte where "TAG_NUM = 4"
definition TAG_STR :: byte where "TAG_STR = 5"
definition TAG_TABLE :: byte where "TAG_TABLE = 6"
definition TAG_PERMANENT :: byte where "TAG_PERMANENT = 7"
definition TAG_REF :: byte where "TAG_REF = 8"
definition TAG_FUNC :: byte where "TAG_FUNC = 9"
definition TAG_UPVAL :: byte where "TAG_UPVAL = 10"
definition TAG_UPVALREF :: byte where "TAG_UPVALREF = 11"
definition TAG_THREAD :: byte where "TAG_THREAD = 12"
definition TAG_UPVALOPEN :: byte where "TAG_UPVALOPEN = 13"
definition TAG_FORIN_ITER :: byte where "TAG_FORIN_ITER = 15"
definition TABLE_LITERAL :: byte where "TABLE_LITERAL = 0"
definition TABLE_SPECIAL :: byte where "TABLE_SPECIAL = 1"

lemmas tag_defs = TAG_NIL_def TAG_FALSE_def TAG_TRUE_def TAG_INT_def TAG_NUM_def TAG_STR_def TAG_TABLE_def
  TAG_PERMANENT_def TAG_REF_def TAG_FUNC_def TAG_UPVAL_def TAG_UPVALREF_def TAG_THREAD_def
  TAG_UPVALOPEN_def TAG_FORIN_ITER_def TABLE_LITERAL_def TABLE_SPECIAL_def

definition ERIS_INT_LIMIT :: double where "ERIS_INT_LIMIT = d_of_int (2 ^ 53)"

definition zigzag :: "u64 \<Rightarrow> u64" where
  "zigzag i = push_bit 1 i XOR signed_drop_bit 63 i"

definition unzigzag :: "u64 \<Rightarrow> u64" where
  "unzigzag zz = drop_bit 1 zz XOR (NOT (zz AND 1) + 1)"

definition int_path :: "double \<Rightarrow> bool" where
  "int_path n =
     (d_le (d_neg ERIS_INT_LIMIT) n \<and> d_le n ERIS_INT_LIMIT
      \<and> (let i = word_of_int (d_trunc n) :: u64
         in d_eq (d_of_int (sint i)) n \<and> \<not> (i = 0 \<and> d_signbit n)))"

definition p_number :: "(nat \<Rightarrow> nat \<Rightarrow> bool) \<Rightarrow> double \<Rightarrow> wbuf \<Rightarrow> eris_err + wbuf" where
  "p_number grow n w =
     (if int_path n
      then ebind (w_byte grow TAG_INT w) (w_uleb grow (zigzag (word_of_int (d_trunc n))))
      else ebind (w_byte grow TAG_NUM w) (w_u64le grow n))"

text \<open>The readers of the two records, after their tag.\<close>

definition u_int :: "byte list \<Rightarrow> eris_err + double \<times> byte list" where
  "u_int rest = ebind (r_uleb rest) (\<lambda>(zz, rest). Inr (d_of_int (sint (unzigzag zz)), rest))"

text \<open>\<open>lua_pushnumber\<close>: LuaJIT keeps one NaN. \<open>nan\<close> is its bit pattern, which every NaN pushed becomes.\<close>

definition pushed_num :: "double \<Rightarrow> double \<Rightarrow> double" where
  "pushed_num nan d = (if d_isnan d then nan else d)"

definition u_num :: "double \<Rightarrow> byte list \<Rightarrow> eris_err + double \<times> byte list" where
  "u_num nan rest = ebind (r_u64le rest) (\<lambda>(bits, rest). Inr (pushed_num nan bits, rest))"


section \<open>The buffer's laws\<close>

lemma wbuf_fit_Some: "wbuf_fit need ncap = Some c \<Longrightarrow> 0 < ncap \<Longrightarrow> need \<le> c \<and> ncap \<le> c"
proof (induction need ncap rule: wbuf_fit.induct)
  case (1 need ncap)
  then show ?case by (subst (asm) (2) wbuf_fit.simps) (auto split: if_splits)
qed

text \<open>What a writer does: bytes appended, within the capacity.\<close>

definition wrote :: "byte list \<Rightarrow> wbuf \<Rightarrow> wbuf \<Rightarrow> bool" where
  "wrote p w w' = (w_out w' = w_out w @ p \<and> (length (w_out w) \<le> w_cap w \<longrightarrow> length (w_out w') \<le> w_cap w'))"

lemma w_try_wrote: "w_try grow p w = Some w' \<Longrightarrow> wrote p w w'"
  by (auto simp: w_try_def wrote_def Let_def dest!: wbuf_fit_Some split: if_splits option.splits)

lemma w_raw_wrote: "w_raw grow p w = Inr w' \<Longrightarrow> wrote p w w'"
  by (auto simp: w_raw_def w_try_wrote split: option.splits)

lemma w_byte_wrote: "w_byte grow b w = Inr w' \<Longrightarrow> wrote [b] w w'"
  by (simp add: w_byte_def w_raw_wrote)

lemma w_uleb_wrote: "w_uleb grow v w = Inr w' \<Longrightarrow> wrote (uleb_bytes v) w w'"
  by (simp add: w_uleb_def w_raw_wrote)

lemma w_u32le_wrote: "w_u32le grow v w = Inr w' \<Longrightarrow> wrote (u32le_bytes v) w w'"
  by (simp add: w_u32le_def w_raw_wrote)

lemma wrote_trans [trans]: "wrote p w w' \<Longrightarrow> wrote q w' w'' \<Longrightarrow> wrote (p @ q) w w''"
  by (auto simp: wrote_def)

lemma wrote_Nil [simp]: "wrote [] w w"
  by (simp add: wrote_def)

text \<open>With an allocator that never fails, so long as the buffer does not pass half the address space, no
  write fails.\<close>

lemma wbuf_fit_total: "0 < ncap \<Longrightarrow> need \<le> SIZE_MAX div 2 \<Longrightarrow> \<exists>c. wbuf_fit need ncap = Some c"
proof (induction need ncap rule: wbuf_fit.induct)
  case (1 need ncap)
  then show ?case by (subst wbuf_fit.simps) auto
qed

lemma w_raw_total:
  assumes "\<And>a b. grow a b" "length (w_out w) + length p \<le> SIZE_MAX div 2"
  shows "\<exists>w'. w_raw grow p w = Inr w'"
  using wbuf_fit_total [of "if w_cap w \<noteq> 0 then w_cap w else 256" "length (w_out w) + length p"] assms
  by (auto simp: w_raw_def w_try_def Let_def)

section \<open>Fixed-width integers\<close>

lemma and_0xff: "x AND 0xff = take_bit 8 (x :: 'a :: len word)"
  and and_0x7f: "x AND 0x7f = take_bit 7 x"
  by (simp_all add: take_bit_eq_mask mask_eq_exp_minus_1)

lemma length_u32le [simp]: "length (u32le_bytes v) = 4"
  by (simp add: u32le_bytes_def)

lemma word_bytes_map: "word_bytes k w = map (\<lambda>i. ucast (drop_bit (8 * i) w AND 0xff)) [0..<k]"
proof (induction k arbitrary: w)
  case (Suc k)
  have "map (\<lambda>i. ucast (drop_bit (8 * i) w AND 0xff) :: byte) [0..<Suc k]
      = ucast (w AND 0xff) # map (\<lambda>i. ucast (drop_bit (8 * i) (drop_bit 8 w) AND 0xff)) [0..<k]"
    by (simp add: upt_conv_Cons map_Suc_upt [symmetric] add.commute del: upt_Suc)
  also have "ucast (w AND 0xff) = (ucast w :: byte)"
    by (rule bit_word_eqI) (auto simp: and_0xff bit_ucast_iff bit_take_bit_iff)
  finally show ?case using Suc.IH by simp
qed simp


lemma bit_ucast_byte_iff: "bit (ucast (c :: byte) :: 'a :: len word) n \<longleftrightarrow> n < LENGTH('a) \<and> n < 8 \<and> bit c n"
  using bit_imp_le_length [of c n] by (auto simp: bit_ucast_iff)

lemma or_push_byte: "push_bit 8 v OR ucast c = ucast (c :: byte) + 256 * (v :: 'a :: len word)"
proof -
  have "push_bit 8 v + ucast c = push_bit 8 v OR ucast c"
    by (rule disjunctive_add) (auto simp: bit_push_bit_iff bit_ucast_byte_iff)
  then show ?thesis by (simp add: push_bit_eq_mult ac_simps)
qed

lemma foldr_bytes: "foldr (\<lambda>c v. push_bit 8 v OR ucast c) bs 0 = (word_of_bytes bs :: 'a :: len word)"
  by (induction bs) (simp_all add: or_push_byte)

lemma r_u32le_u32le: "r_u32le (u32le_bytes v @ rest) = Inr (v, rest)"
proof -
  have b: "u32le_bytes v = word_bytes 4 v" by (simp only: u32le_bytes_def word_bytes_map)
  obtain b0 b1 b2 b3 where bs: "word_bytes 4 v = [b0, b1, b2, b3]"
    by (simp add: numeral_eq_Suc)
  have "ucast b0 OR push_bit 8 (ucast b1) OR push_bit 16 (ucast b2) OR push_bit 24 (ucast b3)
      = (word_of_bytes [b0, b1, b2, b3] :: u32)"
    by (simp only: foldr_bytes [symmetric] foldr.simps comp_apply)
       (simp add: push_bit_or push_bit_push_bit ac_simps)
  also have "\<dots> = v" using word_of_bytes_word_bytes [of 4 v] by (simp add: bs)
  finally show ?thesis by (simp add: r_u32le_def r_raw_def r_need_def b bs)
qed

definition u64le_bytes :: "u64 \<Rightarrow> byte list" where
  "u64le_bytes v = map (\<lambda>i. ucast (drop_bit (8 * i) v AND 0xff)) [0..<8]"

lemma r_u64le_u64le: "r_u64le (u64le_bytes v @ rest) = Inr (v, rest)"
proof -
  have b: "u64le_bytes v = word_bytes 8 v" by (simp only: u64le_bytes_def word_bytes_map)
  show ?thesis
    using word_of_bytes_word_bytes [of 8 v] by (simp add: r_u64le_def r_raw_def r_need_def b foldr_bytes)
qed

section \<open>Variable-length integers\<close>

lemma bit_0x80: "bit (0x80 :: byte) n \<longleftrightarrow> n = 7"
proof -
  have "(0x80 :: byte) = push_bit 7 1" by simp
  then show ?thesis by (simp only: bit_push_bit_iff) (auto simp: bit_1_iff)
qed

lemma uleb_join:
  "push_bit s (ucast (take_bit 7 (ucast (take_bit 7 v) :: byte))) OR push_bit (s + 7) (drop_bit 7 v) = push_bit s (v :: u64)"
proof (rule bit_word_eqI)
  fix n assume "n < LENGTH(64)"
  then show "bit (push_bit s (ucast (take_bit 7 (ucast (take_bit 7 v) :: byte))) OR push_bit (s + 7) (drop_bit 7 v)) n
      = bit (push_bit s v) n"
    by (cases "n < s + 7") (auto simp: bit_or_iff bit_push_bit_iff bit_ucast_iff bit_take_bit_iff bit_drop_bit_eq)
qed

lemma uleb_cont:
  "take_bit 7 (x OR 0x80) = take_bit 7 (x :: byte)" "(x OR 0x80) AND 0x80 = 0x80"
  "(ucast (take_bit 7 v) :: byte) AND 0x80 = 0" for v :: u64
  by (auto intro!: bit_word_eqI simp: bit_or_iff bit_and_iff bit_take_bit_iff bit_ucast_iff bit_0x80 simp del: bit_numeral_word_iff)

lemma uleb_one: "v < 2 \<Longrightarrow> take_bit 7 (ucast (take_bit 7 v) :: byte) \<le> 1" for v :: u64
proof -
  assume "v < 2"
  then have "v = 0 \<or> v = 1" by uint_arith
  then show ?thesis by auto
qed

lemma power2_128: "(2 :: nat) ^ 7 = 128"
  by simp

lemma unat_less_div: "unat (v :: u64) < 2 ^ (64 - s) \<Longrightarrow> s + 7 \<le> 64 \<Longrightarrow> unat (drop_bit 7 v) < 2 ^ (64 - (s + 7))"
proof -
  assume "unat v < 2 ^ (64 - s)" "s + 7 \<le> 64"
  moreover then have "64 - s = (64 - (s + 7)) + 7" by simp
  then have "(2 :: nat) ^ (64 - s) = 2 ^ (64 - (s + 7)) * 128" by (metis power_add power2_128)
  ultimately show ?thesis by (simp only: unat_drop7 div_less_iff_less_mult)
qed

lemma r_uleb_loop_uleb:
  "unat v < 2 ^ (64 - s) \<Longrightarrow> s < 64 \<Longrightarrow>
     r_uleb_loop acc s (uleb_bytes v @ rest) = Inr (acc OR push_bit s v, rest)"
proof (induction v arbitrary: acc s rule: uleb_bytes.induct)
  case (1 v)
  let ?x = "ucast (take_bit 7 v) :: byte"
  have one: "take_bit 7 ?x \<le> 1" if "s = 63"
    using "1.prems" that by (intro uleb_one) (simp add: word_less_nat_alt)
  show ?case
  proof (cases "drop_bit 7 v = 0")
    case True
    then have "uleb_bytes v = [?x]" by (subst uleb_bytes.simps) (simp add: and_0x7f)
    moreover have "push_bit s (ucast (take_bit 7 ?x)) = push_bit s v" using uleb_join [of s v] True by simp
    ultimately show ?thesis using one "1.prems"(2) by (simp add: and_0x7f uleb_cont not_less)
  next
    case False
    then have u: "uleb_bytes v = (?x OR 0x80) # uleb_bytes (drop_bit 7 v)"
      by (subst uleb_bytes.simps) (simp add: and_0x7f Let_def)
    have s: "s + 7 < 64"
    proof (rule ccontr)
      assume "\<not> s + 7 < 64"
      then have "(2 :: nat) ^ (64 - s) \<le> 2 ^ 7" by (intro power_increasing) auto
      then have "unat v < 128" using "1.prems"(1) by simp
      then show False using False by (simp add: unat_drop7 flip: unat_eq_zero)
    qed
    have "r_uleb_loop (acc OR push_bit s (ucast (take_bit 7 ?x))) (s + 7) (uleb_bytes (drop_bit 7 v) @ rest)
        = Inr ((acc OR push_bit s (ucast (take_bit 7 ?x))) OR push_bit (s + 7) (drop_bit 7 v), rest)"
      using "1.IH" [OF refl refl False unat_less_div s] "1.prems" s by simp
    then show ?thesis using s by (simp add: u and_0x7f uleb_cont or.assoc uleb_join not_less)
  qed
qed

lemma r_uleb_uleb: "r_uleb (uleb_bytes v @ rest) = Inr (v, rest)"
  using r_uleb_loop_uleb [of v 0 0 rest] unsigned_less [of v, where ?'a = nat] by (simp add: r_uleb_def)

text \<open>The writer's ten-byte array is enough.\<close>

lemma uleb_length_le: "unat v < 2 ^ (7 * k) \<Longrightarrow> 0 < k \<Longrightarrow> length (uleb_bytes v) \<le> k"
proof (induction v arbitrary: k rule: uleb_bytes.induct)
  case (1 v)
  show ?case
  proof (cases "drop_bit 7 v = 0")
    case True
    then show ?thesis using "1.prems" by (subst uleb_bytes.simps) simp
  next
    case False
    obtain j where k: "k = Suc j" using "1.prems"(2) by (cases k) auto
    have d: "unat (drop_bit 7 v) < 2 ^ (7 * j)"
      using "1.prems"(1) by (simp only: unat_drop7 div_less_iff_less_mult k) (simp add: power_add mult.commute)
    then have "0 < j" using False by (cases j) (auto simp: unat_eq_zero)
    then show ?thesis using "1.IH" [OF refl refl False d] False by (subst uleb_bytes.simps) (simp add: k Let_def)
  qed
qed

lemma uleb_length: "0 < length (uleb_bytes v)" "length (uleb_bytes v) \<le> 10"
proof -
  show "0 < length (uleb_bytes v)" by (subst uleb_bytes.simps) (simp add: Let_def)
  have "unat v < 2 ^ (7 * 10)" using unsigned_less [of v, where ?'a = nat] by simp
  then show "length (uleb_bytes v) \<le> 10" by (rule uleb_length_le) simp
qed

section \<open>Numbers come back bit for bit\<close>

lemma signed_drop_63: "signed_drop_bit 63 (i :: u64) = (if bit i 63 then -1 else 0)"
proof (rule bit_word_eqI)
  fix n assume "n < LENGTH(64)"
  then show "bit (signed_drop_bit 63 i) n = bit (if bit i 63 then -1 else 0 :: u64) n"
    by (cases n) (auto simp: bit_signed_drop_bit_iff)
qed

lemma bit_push_1_0: "\<not> bit (push_bit 1 (i :: u64)) 0"
  by (simp only: bit_push_bit_iff) simp

lemma bit_push_1_Suc: "Suc n < 64 \<Longrightarrow> bit (push_bit 1 (i :: u64)) (Suc n) = bit i n"
  by (simp only: bit_push_bit_iff) simp

lemma not_bit_64: "\<not> bit (i :: u64) 64"
  by (auto dest: bit_imp_le_length)

lemma bit_drop_1: "bit (drop_bit 1 (i :: u64)) n = bit i (Suc n)"
  by (simp only: bit_drop_bit_eq) simp

lemma unzigzag_zigzag: "unzigzag (zigzag i) = i"
proof (rule bit_word_eqI)
  fix n assume n: "n < LENGTH(64)"
  show "bit (unzigzag (zigzag i)) n = bit i n"
  proof (cases "bit i 63")
    case True
    then have z: "zigzag i = NOT (push_bit 1 i)" by (simp add: zigzag_def signed_drop_63)
    have "bit (zigzag i) 0" by (simp only: z bit_not_iff bit_push_1_0) simp
    then have "zigzag i AND 1 = 1" by (simp add: and_one_eq odd_iff_mod_2_eq_one bit_0)
    then have "unzigzag (zigzag i) = NOT (drop_bit 1 (NOT (push_bit 1 i)))" by (simp add: unzigzag_def z)
    then show ?thesis using n True
      by (cases "n = 63") (simp_all add: bit_not_iff bit_drop_1 bit_push_1_Suc del: push_bit_Suc drop_bit_Suc One_nat_def)
  next
    case False
    then have z: "zigzag i = push_bit 1 i" by (simp add: zigzag_def signed_drop_63)
    have "\<not> bit (zigzag i) 0" by (simp only: z bit_push_1_0 not_False_eq_True)
    then have "zigzag i AND 1 = 0" by (simp add: and_one_eq even_iff_mod_2_eq_zero bit_0)
    then have "unzigzag (zigzag i) = drop_bit 1 (push_bit 1 i)" by (simp add: unzigzag_def z)
    then show ?thesis using n False
      by (cases "n = 63") (simp_all add: bit_drop_1 bit_push_1_Suc not_bit_64 del: push_bit_Suc drop_bit_Suc One_nat_def)
  qed
qed

text \<open>A pattern's fields; a finite pattern is determined by its sign, mantissa and exponent, and those
  by the value.\<close>

lemma dval_fields:
  obtains S E f where "uint d = (if S then 2 ^ 63 else 0) + E * 2 ^ 52 + f" "0 \<le> E" "E < 2048" "0 \<le> f" "f < 2 ^ 52"
    "S = bit d 63"
    "dval d = (if E = 2047 then (if f = 0 then FInf S else FNan) else if E = 0 then FFin S f (-1074)
               else FFin S (f + 2 ^ 52) (E - 1075))"
proof -
  let ?f = "uint d mod 2 ^ 52" and ?E = "uint d div 2 ^ 52 mod 2 ^ 11" and ?S = "uint d div 2 ^ 63"
  have "?S < 2" using uint_u64_less [of d] by (simp add: div_less_iff_pos)
  moreover have "0 \<le> ?S" by (rule pos_imp_zdiv_nonneg_iff [THEN iffD2]) simp_all
  ultimately have S: "?S = 0 \<or> ?S = 1" by linarith
  have U: "uint d = ?S * 2 ^ 63 + ?E * 2 ^ 52 + ?f"
  proof -
    have "uint d div 2 ^ 52 div 2 ^ 11 = ?S"
      using zdiv_zmult2_eq [of "2 ^ 11" "uint d" "2 ^ 52"] by simp
    then have e: "uint d div 2 ^ 52 = ?S * 2 ^ 11 + ?E" by (metis div_mult_mod_eq)
    have "(s * 2 ^ 11 + t) * 2 ^ 52 = s * 2 ^ 63 + t * 2 ^ 52" for s t :: int by simp
    then have f: "uint d div 2 ^ 52 * 2 ^ 52 = ?S * 2 ^ 63 + ?E * 2 ^ 52" by (subst e)
    show ?thesis by (subst f [symmetric]) (rule div_mult_mod_eq [symmetric])
  qed
  have "bit (uint d) 63 = odd ?S" by (simp only: bit_iff_odd)
  moreover have "bit (uint d) 63 = bit d 63" by (simp only: bit_uint_iff) simp
  ultimately have b: "bit d 63 = odd ?S" by simp
  have o: "?S = (if odd ?S then 1 else 0)" using S by auto
  show ?thesis
  proof (rule that [of "odd ?S" ?E ?f])
    show "uint d = (if odd ?S then 2 ^ 63 else 0) + ?E * 2 ^ 52 + ?f" using U S by auto
    show "dval d = (if ?E = 2047 then (if ?f = 0 then FInf (odd ?S) else FNan) else if ?E = 0 then FFin (odd ?S) ?f (-1074)
               else FFin (odd ?S) (?f + 2 ^ 52) (?E - 1075))"
      by (simp add: dval_def fp_decode_def fp_emin_def Let_def)
  qed (simp_all add: b)
qed

lemma dval_fin:
  assumes "dval d = FFin s m e"
  shows "uint d = (if s then 2 ^ 63 else 0) + (e + 1074) * 2 ^ 52 + m" "s = bit d 63"
    "-1074 \<le> e" "0 \<le> m" "m < 2 ^ 53" "-1074 < e \<Longrightarrow> 2 ^ 52 \<le> m"
  by (rule dval_fields [of d]; use assms in \<open>auto split: if_splits\<close>)+

lemma dval_inf: "dval d = FInf s \<Longrightarrow> uint d = (if s then 2 ^ 63 else 0) + 2047 * 2 ^ 52"
  by (rule dval_fields [of d]) (auto split: if_splits)

lemma inf_unique: "dval a = FInf s \<Longrightarrow> dval b = FInf s \<Longrightarrow> a = b"
  using dval_inf [of a s] dval_inf [of b s] by (simp add: word_uint_eq_iff)

lemma fin_unique:
  fixes m n e f :: int
  assumes "m * 2 ^ nat (e - min e f) = n * 2 ^ nat (f - min e f)" "-1074 \<le> e" "-1074 \<le> f" "0 \<le> n" "0 \<le> m" "m < 2 ^ 53" "n < 2 ^ 53"
    "-1074 < e \<Longrightarrow> 2 ^ 52 \<le> m" "-1074 < f \<Longrightarrow> 2 ^ 52 \<le> n"
  shows "m = n \<and> (m = 0 \<or> e = f)"
proof -
  have aux: "e = f" if "e \<le> f" "m = n * 2 ^ nat (f - e)" "n \<noteq> 0" "0 \<le> n" "m < 2 ^ 53" "-1074 \<le> e" "-1074 < f \<Longrightarrow> 2 ^ 52 \<le> n"
    for m n e f :: int
  proof (rule ccontr)
    assume "e \<noteq> f"
    then have "1 \<le> nat (f - e)" "-1074 < f" using that by auto
    then have "(2 :: int) ^ 1 \<le> 2 ^ nat (f - e)" by (intro power_increasing) auto
    then have "n * 2 \<le> n * 2 ^ nat (f - e)" using that(4) by (intro mult_left_mono) simp_all
    then have "n * 2 \<le> m" using that(2) by simp
    moreover have "2 ^ 52 \<le> n" using that(7) \<open>-1074 < f\<close> by simp
    ultimately show False using that(5) by simp
  qed
  consider "e \<le> f" | "f \<le> e" by linarith
  then show ?thesis
  proof cases
    case 1
    then have "m = n * 2 ^ nat (f - e)" using assms(1) by (simp add: min_def)
    moreover then have "n \<noteq> 0 \<Longrightarrow> e = f" using aux [of e f m n] 1 assms by blast
    ultimately show ?thesis by (cases "n = 0") auto
  next
    case 2
    then have "n = m * 2 ^ nat (e - f)" using assms(1) by (auto simp: min_def split: if_splits)
    moreover then have "m \<noteq> 0 \<Longrightarrow> f = e" using aux [of f e n m] 2 assms by blast
    ultimately show ?thesis by (cases "m = 0") auto
  qed
qed

lemma d_eq_same:
  assumes "d_eq a b" "bit a 63 = bit b 63"
  shows "a = b"
proof (cases "dval a")
  case FNan
  then show ?thesis using assms by (simp add: d_eq_def)
next
  case (FInf s)
  then have "dval b = FInf s" using assms(1) by (cases "dval b") (auto simp: d_eq_def)
  then show ?thesis using FInf inf_unique by blast
next
  case (FFin s m e)
  obtain t n f where b: "dval b = FFin t n f" using assms(1) FFin by (cases "dval b") (auto simp: d_eq_def)
  note A = dval_fin [OF FFin] and B = dval_fin [OF b]
  have st: "s = t" using A(2) B(2) assms(2) by simp
  have "m * 2 ^ nat (e - min e f) = n * 2 ^ nat (f - min e f)"
    using assms(1) FFin b st by (cases t) (auto simp: d_eq_def scaled_def)
  then have u: "m = n \<and> (m = 0 \<or> e = f)"
    using A B by (intro fin_unique) auto
  have "uint a = uint b"
  proof (cases "m = 0")
    case True
    then have "e = -1074" "f = -1074" using A B u by force+
    then show ?thesis using A(1) B(1) u st by simp
  next
    case False
    then have "e = f" using u by blast
    then show ?thesis using A(1) B(1) u st by simp
  qed
  then show ?thesis by (simp only: word_uint_eq_iff)
qed

text \<open>Either record of a number reads back as the same bit pattern, NaN payloads and the sign of zero
  included.\<close>

lemma d_of_int_0: "d_of_int 0 = 0"
  by code_simp

lemma d_eq_sign:
  assumes "d_eq a b" "dval b = FFin t n f" "n \<noteq> 0"
  shows "bit a 63 = bit b 63"
proof -
  obtain s m e where a: "dval a = FFin s m e" using assms(1,2) by (cases "dval a") (auto simp: d_eq_def)
  have eq: "scaled s m e (min e f) = scaled t n f (min e f)" using assms(1,2) a by (simp add: d_eq_def)
  have "0 < n" "0 \<le> m" using dval_nonneg [OF assms(2)] dval_nonneg [OF a] assms(3) by auto
  then have "0 < n * 2 ^ nat (f - min e f)" "0 \<le> m * 2 ^ nat (e - min e f)" by simp_all
  then have "s = t" using eq by (cases s; cases t) (auto simp: scaled_def)
  then show ?thesis using dval_fin(2) [OF a] dval_fin(2) [OF assms(2)] by simp
qed

lemma int_path_exact:
  assumes "int_path n"
  shows "d_of_int (sint (word_of_int (d_trunc n) :: u64)) = n"
proof -
  let ?i = "word_of_int (d_trunc n) :: u64"
  have eq: "d_eq (d_of_int (sint ?i)) n" and nz: "\<not> (?i = 0 \<and> bit n 63)"
    using assms by (auto simp: int_path_def Let_def d_signbit_def)
  obtain t k f where n: "dval n = FFin t k f"
  proof (cases "dval n")
    case FNan
    then show ?thesis using eq by (cases "dval (d_of_int (sint ?i))") (simp_all add: d_eq_def)
  next
    case (FInf s)
    have "d_le (d_neg ERIS_INT_LIMIT) n" "d_le n ERIS_INT_LIMIT" using assms by (auto simp: int_path_def)
    moreover have "dval ERIS_INT_LIMIT = FFin False (2 ^ 52) 1" "dval (d_neg ERIS_INT_LIMIT) = FFin True (2 ^ 52) 1"
      by code_simp+
    ultimately show ?thesis using FInf by (cases s) (simp_all add: d_le_def d_less_def d_eq_def)
  qed
  have "bit (d_of_int (sint ?i)) 63 = bit n 63"
  proof (cases "k = 0")
    case True
    then have "d_trunc n = 0" by (simp add: d_trunc_def n)
    then show ?thesis using nz by (simp add: d_of_int_0)
  next
    case False
    show ?thesis by (rule d_eq_sign [OF eq n False])
  qed
  then show ?thesis using eq by (rule d_eq_same [rotated])
qed

definition num_record :: "double \<Rightarrow> byte list" where
  "num_record n =
     (if int_path n then TAG_INT # uleb_bytes (zigzag (word_of_int (d_trunc n))) else TAG_NUM # u64le_bytes n)"

lemma p_number_wrote: "p_number grow n w = Inr w' \<Longrightarrow> wrote (num_record n) w w'"
proof (cases "int_path n")
  case True
  assume "p_number grow n w = Inr w'"
  then obtain v where "w_byte grow TAG_INT w = Inr v" "w_uleb grow (zigzag (word_of_int (d_trunc n))) v = Inr w'"
    using True by (auto simp: p_number_def)
  then show ?thesis using True wrote_trans [OF w_byte_wrote w_uleb_wrote] by (fastforce simp: num_record_def)
next
  case False
  assume "p_number grow n w = Inr w'"
  then obtain v where "w_byte grow TAG_NUM w = Inr v" "w_raw grow (u64le_bytes n) v = Inr w'"
    using False by (auto simp: p_number_def w_u64le_def u64le_bytes_def)
  then show ?thesis using False wrote_trans [OF w_byte_wrote w_raw_wrote] by (fastforce simp: num_record_def)
qed

lemma int_path_num: "int_path n \<Longrightarrow> \<not> d_isnan n"
  by (cases "dval ERIS_INT_LIMIT") (auto simp: int_path_def d_isnan_def d_le_def d_less_def d_eq_def)

definition u_number :: "double \<Rightarrow> byte list \<Rightarrow> eris_err + double \<times> byte list" where
  "u_number nan rest =
     ebind (r_byte rest) (\<lambda>(t, rest).
       if t = TAG_INT then u_int rest else if t = TAG_NUM then u_num nan rest else Inl (Err ''unknown tag'' [uint t]))"

lemma u_number_record: "u_number nan (num_record n @ rest) = Inr (pushed_num nan n, rest)"
  using int_path_exact [of n] int_path_num [of n]
  by (auto simp: u_number_def num_record_def tag_defs u_int_def u_num_def pushed_num_def r_uleb_uleb r_u64le_u64le
      unzigzag_zigzag)

section \<open>The interface of an encoding\<close>

text \<open>What a reader may rely on: reading what was written gives what the value becomes on the other side
  (\<open>canon\<close>) and leaves what follows. Two records that agree up to what follows them are of values
  that become the same, so a sequence of them is read back one by one, and no record is the
  beginning of another.\<close>

locale codec =
  fixes enc :: "'a \<Rightarrow> byte list" and dec :: "byte list \<Rightarrow> 'e + 'a \<times> byte list" and canon :: "'a \<Rightarrow> 'a"
  assumes dec_enc: "dec (enc x @ rest) = Inr (canon x, rest)"
begin

lemma enc_cancel: "enc x @ r = enc y @ s \<Longrightarrow> canon x = canon y \<and> r = s"
proof -
  assume "enc x @ r = enc y @ s"
  then have "dec (enc x @ r) = dec (enc y @ s)" by (rule arg_cong)
  then show ?thesis by (simp only: dec_enc sum.inject prod.inject)
qed

lemma enc_inj: "enc x = enc y \<Longrightarrow> canon x = canon y"
  using enc_cancel [of x "[]" y "[]"] by simp

lemma encs_cancel:
  "length xs = length ys \<Longrightarrow> concat (map enc xs) @ r = concat (map enc ys) @ s \<Longrightarrow> map canon xs = map canon ys \<and> r = s"
  by (induction xs ys rule: list_induct2) (auto dest: enc_cancel)

end

interpretation uleb: codec uleb_bytes r_uleb "\<lambda>v. v"
  by unfold_locales (rule r_uleb_uleb)

interpretation u32le: codec u32le_bytes r_u32le "\<lambda>v. v"
  by unfold_locales (rule r_u32le_u32le)

interpretation u64le: codec u64le_bytes r_u64le "\<lambda>v. v"
  by unfold_locales (rule r_u64le_u64le)

interpretation num: codec num_record "u_number nan" "pushed_num nan" for nan
  by unfold_locales (rule u_number_record)

section \<open>Properties\<close>

text \<open>C34: the checksum is the standard reflected CRC-32, bit by bit, although the code runs it by nibbles
  from a table; and two inputs that differ only within four consecutive bytes never have the same
  one.\<close>

theorem crc32_correct:
  "eris_crc32 p = crc32_spec p \<and>
   (\<forall>u v w x. length v = length w \<and> length w \<le> 4 \<and> v \<noteq> w \<longrightarrow> eris_crc32 (u @ v @ x) \<noteq> eris_crc32 (u @ w @ x))"
  using eris_crc32_bitwise crc_burst by blast

theorem crc32_correct_witness: "eris_crc32 ([69] @ [1, 2] @ [74]) \<noteq> eris_crc32 ([69] @ [1, 3] @ [74])"
proof -
  have "length [1 :: byte, 2] = length [1 :: byte, 3] \<and> length [1 :: byte, 3] \<le> 4 \<and> [1 :: byte, 2] \<noteq> [1, 3]" by simp
  then show ?thesis using crc32_correct [of "[]"] by blast
qed

text \<open>C35: a number, whichever of its two records it is written as, reads back as the same bit pattern, the sign
  of zero included, unless it is a NaN: whatever its payload, a NaN reads back as the one NaN that
  LuaJIT pushes. The reader stops at the record's end.\<close>

theorem number_roundtrip:
  assumes "p_number grow n w = Inr w'"
  shows "\<exists>bs. w_out w' = w_out w @ bs
    \<and> (\<forall>nan rest. u_number nan (bs @ rest) = Inr (if d_isnan n then nan else n, rest))"
  using p_number_wrote [OF assms] u_number_record by (auto simp: wrote_def pushed_num_def)

theorem number_roundtrip_witness:
  "\<exists>bs. w_out (the (w_try (\<lambda>_ _. True) (num_record 0x8000000000000000) \<lparr>w_out = [], w_cap = 256\<rparr>)) = bs
     \<and> u_number 0xfff8000000000000 bs = Inr (0x8000000000000000, [])"
proof -
  let ?w = "\<lparr>w_out = [], w_cap = 256\<rparr>"
  have p: "p_number (\<lambda>_ _. True) 0x8000000000000000 ?w
      = Inr (the (w_try (\<lambda>_ _. True) (num_record 0x8000000000000000) ?w))"
    by code_simp
  have n: "\<not> d_isnan 0x8000000000000000" by code_simp
  obtain bs where bs: "w_out (the (w_try (\<lambda>_ _. True) (num_record 0x8000000000000000) ?w)) = w_out ?w @ bs"
      "\<forall>nan rest. u_number nan (bs @ rest) = Inr (if d_isnan 0x8000000000000000 then nan else 0x8000000000000000, rest)"
    using number_roundtrip [OF p] by blast
  have "u_number 0xfff8000000000000 bs = Inr (0x8000000000000000, [])" using bs(2) [rule_format, of _ "[]"] n by simp
  then show ?thesis using bs(1) by simp
qed

text \<open>A variable-length integer fits the writer's ten-byte array and reads back exactly, whatever
  follows it, and no write passes the end of the buffer it grew.\<close>

theorem uleb_roundtrip:
  assumes "w_uleb grow v w = Inr w'" "length (w_out w) \<le> w_cap w"
  shows "length (w_out w') \<le> w_cap w' \<and> length (w_out w') \<le> length (w_out w) + 10
    \<and> (\<forall>rest. r_uleb (drop (length (w_out w)) (w_out w') @ rest) = Inr (v, rest))"
  using w_uleb_wrote [OF assms(1)] assms(2) uleb_length [of v] r_uleb_uleb by (auto simp: wrote_def)

theorem uleb_roundtrip_witness:
  "r_uleb (uleb_bytes 0xFFFFFFFFFFFFFFFF) = Inr (0xFFFFFFFFFFFFFFFF, [])"
proof -
  let ?w = "\<lparr>w_out = [], w_cap = 256\<rparr>"
  have p: "w_uleb (\<lambda>_ _. True) 0xFFFFFFFFFFFFFFFF ?w = Inr \<lparr>w_out = uleb_bytes 0xFFFFFFFFFFFFFFFF, w_cap = 256\<rparr>"
    using uleb_length(2) [of "0xFFFFFFFFFFFFFFFF"] by (simp add: w_uleb_def w_raw_def w_try_def)
  show ?thesis using uleb_roundtrip [OF p] by (simp, metis append_Nil2)
qed


end
