(* ===== verification/ErisObj.thy ===== *)
theory ErisObj
  imports ErisWire "HOL-Library.AList"
begin

text \<open>
  serializer/eris_lj.c, the graph: \<open>persist\<close> and \<open>unpersist\<close> over a heap of Lua objects. Both are
  functions of the levels of recursion left, which is the code's own bound (\<open>enter\<close>: \<open>maxrec\<close>
  less the current level), so they are total. The state \<open>Info\<close> is \<open>pst\<close> while persisting and
  \<open>ust\<close> while restoring. What the code asks of LuaJIT or of the host is in the environments
  \<open>penv\<close> and \<open>uenv\<close>: LuaJIT's NaN and the order in which its tables are traversed, the bytecode dump
  and loader, the permanents tables (read with their
  metamethods), the special-persistence callback, the allocator; the records of threads
  (\<open>p_thread\<close>, \<open>u_thread\<close>) are arguments too.
\<close>

section \<open>Lua values and objects\<close>

type_synonym addr = nat

text \<open>A string is its bytes, as Lua compares them; any other object is an address.\<close>

datatype lval = LNil | LBool bool | LLight u64 | LNum double | LStr "byte list" | LObj addr

text \<open>A table is its pairs in traversal order and its metatable; a closure its prototype, the cells of its
  upvalues and its environment; \<open>OReplay\<close> is the C function \<open>elj_forin_replay\<close>; a thread says
  whether it is the main thread, the running one, has a C frame, and has died.\<close>

datatype lobj =
    OTab "(lval \<times> lval) list" "addr option"
  | OFun nat "addr list" addr
  | OReplay
  | OCFun nat
  | OUser
  | OThread bool bool bool bool
  | OCdata

text \<open>\<open>h_top\<close> is where a thread's live stack ends, \<open>h_env\<close> the environment of a thread or a C function,
  \<open>h_immut\<close> whether an upvalue is marked immutable. An
  upvalue cell holds its value, or aliases a slot of a thread's stack while it is open.\<close>

datatype upval = UClosed lval | UOpen addr nat

text \<open>Bytecode as the serializer reads it: opcode and operands A and D (a jump is D less 0x8000). A prototype
  is its instructions from the header at 0 on, its frame size and whether it is vararg.\<close>

datatype bcop = BC_ITERN | BC_ITERC | BC_ITERL | BC_IITERL | BC_ISNEXT | BC_JMP | BC_CALL | BC_CALLM
  | BC_GGET | BC_JFORL | BC_JITERL | BC_JLOOP | BC_OTHER nat

record bcins =
  i_op :: bcop
  i_a :: nat
  i_d :: "16 word"

record proto =
  pt_bc :: "bcins list"
  pt_framesize :: nat
  pt_vararg :: bool

text \<open>What the VM keeps in stack slots that is not a value: a position in a prototype's bytecode, a frame
  size in bytes with the frame's kind, a continuation, a cleared trace reference, the control value of a
  specialised for-in loop.\<close>

datatype sword = WPc nat nat | WFtsz nat nat | WCont nat | WNoTrace | WKeyIndex u32

text \<open>A coroutine's status, the slot of its base, the span of slots it can address, and its VM words; the
  values of the other slots are in \<open>h_stack\<close>.\<close>

record coro =
  c_status :: nat
  c_base :: nat
  c_span :: nat
  c_word :: "nat \<Rightarrow> sword option"

record heap =
  h_obj :: "addr \<Rightarrow> lobj option"
  h_next :: addr
  h_cell :: "addr \<Rightarrow> upval option"
  h_cnext :: addr
  h_stack :: "addr \<Rightarrow> nat \<Rightarrow> lval"
  h_open :: "addr \<Rightarrow> (nat \<times> addr) list"
  h_top :: "addr \<Rightarrow> nat"
  h_env :: "addr \<Rightarrow> addr"
  h_coro :: "addr \<Rightarrow> coro"
  h_proto :: "nat \<Rightarrow> proto"
  h_immut :: "addr \<Rightarrow> bool"

definition lua_type :: "heap \<Rightarrow> lval \<Rightarrow> int" where
  "lua_type H v =
     (case v of LNil \<Rightarrow> 0 | LBool b \<Rightarrow> 1 | LLight p \<Rightarrow> 2 | LNum n \<Rightarrow> 3 | LStr s \<Rightarrow> 4
      | LObj a \<Rightarrow> (case h_obj H a of
            Some (OTab ps mt) \<Rightarrow> 5 | Some (OFun p us e) \<Rightarrow> 6 | Some OReplay \<Rightarrow> 6 | Some (OCFun f) \<Rightarrow> 6
          | Some OUser \<Rightarrow> 7 | Some (OThread m r c d) \<Rightarrow> 8 | Some OCdata \<Rightarrow> 10 | None \<Rightarrow> 0))"

text \<open>\<open>lua_rawget\<close>, and \<open>lua_rawset\<close>, which raises on a NaN key and stores a zero key as one key. Where
  the key goes, and whether the others move, is the VM's: \<open>order\<close> says in which order the table at an
  address is traversed after the write, given its pairs with the new one last. A table that is being
  restored only gains pairs, so its successive lists differ and every sequence of layouts that a VM
  may choose is some \<open>order\<close>.\<close>

type_synonym placing = "addr \<Rightarrow> (lval \<times> lval) list \<Rightarrow> (lval \<times> lval) list"

definition tab_get :: "(lval \<times> lval) list \<Rightarrow> lval \<Rightarrow> lval" where
  "tab_get ps k = (case map_of ps k of Some v \<Rightarrow> v | None \<Rightarrow> LNil)"

definition key_norm :: "lval \<Rightarrow> lval" where
  "key_norm k = (case k of LNum n \<Rightarrow> if d_eq n 0 then LNum 0 else k | _ \<Rightarrow> k)"

definition key_ok :: "lval \<Rightarrow> bool" where
  "key_ok k = (case k of LNum n \<Rightarrow> \<not> d_isnan n | _ \<Rightarrow> k \<noteq> LNil)"

definition lua_rawset :: "placing \<Rightarrow> addr \<Rightarrow> lval \<Rightarrow> lval \<Rightarrow> heap \<Rightarrow> eris_err + heap" where
  "lua_rawset order a k v H =
     (if \<not> key_ok k then Inl (Err ''table index is NaN'' [])
      else case h_obj H a of
        Some (OTab ps mt) \<Rightarrow> Inr (H\<lparr>h_obj := (h_obj H)(a \<mapsto> OTab (order a (AList.update (key_norm k) v ps)) mt)\<rparr>)
      | _ \<Rightarrow> Inl (Err ''not a table'' []))"

text \<open>\<open>uvval\<close>: the value an upvalue cell has now.\<close>

definition cell_value :: "heap \<Rightarrow> addr \<Rightarrow> lval" where
  "cell_value H c =
     (case h_cell H c of Some (UClosed v) \<Rightarrow> v | Some (UOpen co slot) \<Rightarrow> h_stack H co slot | None \<Rightarrow> LNil)"

section \<open>Persisting\<close>

text \<open>\<open>ERIS_LJ_MAXREF\<close>.\<close>

definition ERIS_LJ_MAXREF :: int where "ERIS_LJ_MAXREF = 0x7fffffff"

record pst =
  p_w :: wbuf
  p_ref :: "lval \<Rightarrow> nat option"
  p_refcount :: nat
  p_upv :: "addr \<Rightarrow> nat option"
  p_upvcount :: nat
  p_curid :: nat
  p_pending :: "nat list"
  p_heap :: heap
  p_diags :: "(nat \<times> nat \<times> nat \<times> nat) list"

text \<open>\<open>e_dump\<close>: the chunks \<open>lj_bcwrite\<close> hands its writer for a prototype, or None for its failure;
  \<open>e_call\<close>: a call of user code, an error or the new heap and the result.\<close>

record penv =
  e_grow :: "nat \<Rightarrow> nat \<Rightarrow> bool"
  e_perms :: "lval \<Rightarrow> lval"
  e_spkey :: "byte list"
  e_call :: "heap \<Rightarrow> addr \<Rightarrow> lval \<Rightarrow> nat + (heap \<times> lval)"
  e_dump :: "bool \<Rightarrow> nat \<Rightarrow> byte list list option"
  e_wdebug :: bool
  e_keyindex :: u32
  e_thread :: "addr \<Rightarrow> (lval \<Rightarrow> pst \<Rightarrow> eris_err + pst) \<Rightarrow> pst \<Rightarrow> eris_err + pst"

type_synonym persister = "lval \<Rightarrow> pst \<Rightarrow> eris_err + pst"

definition pw :: "(wbuf \<Rightarrow> eris_err + wbuf) \<Rightarrow> pst \<Rightarrow> eris_err + pst" where
  "pw f st = ebind (f (p_w st)) (\<lambda>w. Inr (st\<lparr>p_w := w\<rparr>))"

abbreviation pbyte :: "penv \<Rightarrow> byte \<Rightarrow> pst \<Rightarrow> eris_err + pst" where
  "pbyte E b \<equiv> pw (w_byte (e_grow E) b)"

abbreviation puleb :: "penv \<Rightarrow> nat \<Rightarrow> pst \<Rightarrow> eris_err + pst" where
  "puleb E n \<equiv> pw (w_uleb (e_grow E) (word_of_nat n))"

definition p_string :: "penv \<Rightarrow> byte list \<Rightarrow> pst \<Rightarrow> eris_err + pst" where
  "p_string E s st =
     ebind (pbyte E TAG_STR st) (\<lambda>st. ebind (puleb E (length s) st) (pw (w_raw (e_grow E) s)))"

definition p_newref :: "pst \<Rightarrow> eris_err + nat \<times> pst" where
  "p_newref st =
     (if int (p_refcount st) \<ge> ERIS_LJ_MAXREF then Inl (Err ''too many distinct objects'' [])
      else Inr (p_refcount st + 1, st\<lparr>p_refcount := p_refcount st + 1\<rparr>))"

text \<open>\<open>lua_next\<close> over a table: its keys in order, each with its value when it is reached, a nil value
  skipped.\<close>

definition live_value :: "pst \<Rightarrow> addr \<Rightarrow> lval \<Rightarrow> lval" where
  "live_value st a k = (case h_obj (p_heap st) a of Some (OTab ps mt) \<Rightarrow> tab_get ps k | _ \<Rightarrow> LNil)"

fun p_pairs :: "persister \<Rightarrow> addr \<Rightarrow> lval list \<Rightarrow> pst \<Rightarrow> eris_err + pst" where
  "p_pairs P a [] st = Inr st"
| "p_pairs P a (k # ks) st =
     (let v = live_value st a k in
      if v = LNil then p_pairs P a ks st
      else ebind (P k st) (\<lambda>st. ebind (P v st) (p_pairs P a ks)))"

definition p_metatable :: "persister \<Rightarrow> addr \<Rightarrow> pst \<Rightarrow> eris_err + pst" where
  "p_metatable P a st =
     (case h_obj (p_heap st) a of Some (OTab ps (Some m)) \<Rightarrow> P (LObj m) st | _ \<Rightarrow> P LNil st)"

definition p_literaltable :: "persister \<Rightarrow> addr \<Rightarrow> pst \<Rightarrow> eris_err + pst" where
  "p_literaltable P a st =
     (let ks = (case h_obj (p_heap st) a of Some (OTab ps mt) \<Rightarrow> map fst ps | _ \<Rightarrow> [])
      in ebind (p_pairs P a ks st) (\<lambda>st. ebind (P LNil st) (p_metatable P a)))"

text \<open>The owner of an open upvalue among the threads registered, then among all threads.\<close>

definition elj_owner_of_open_uv :: "pst \<Rightarrow> upval \<Rightarrow> addr option" where
  "elj_owner_of_open_uv st uv =
     (case uv of
        UClosed v \<Rightarrow> None
      | UOpen co slot \<Rightarrow>
          (case h_obj (p_heap st) co of
             Some (OThread m r c dead) \<Rightarrow> if p_ref st (LObj co) \<noteq> None \<and> \<not> dead then Some co else None
           | _ \<Rightarrow> None))"

definition elj_find_owner_any :: "pst \<Rightarrow> upval \<Rightarrow> addr option" where
  "elj_find_owner_any st uv =
     (case uv of
        UClosed v \<Rightarrow> None
      | UOpen co slot \<Rightarrow>
          (case h_obj (p_heap st) co of Some (OThread m r c dead) \<Rightarrow> Some co | _ \<Rightarrow> None))"

definition uv_owner :: "pst \<Rightarrow> upval \<Rightarrow> addr option" where
  "uv_owner st uv =
     (case elj_owner_of_open_uv st uv of
        Some co \<Rightarrow> Some co
      | None \<Rightarrow>
          (case elj_find_owner_any st uv of
             None \<Rightarrow> None
           | Some co \<Rightarrow>
               (case h_obj (p_heap st) co of
                  Some (OThread main running cframe dead) \<Rightarrow>
                    if \<not> main \<and> \<not> running \<and> \<not> cframe \<and> \<not> dead then Some co else None
                | _ \<Rightarrow> None)))"

definition p_upvalue :: "penv \<Rightarrow> persister \<Rightarrow> addr \<Rightarrow> pst \<Rightarrow> eris_err + pst" where
  "p_upvalue E P c st =
     (case p_upv st c of
        Some rid \<Rightarrow> ebind (pbyte E TAG_UPVALREF st) (puleb E rid)
      | None \<Rightarrow>
          if int (p_upvcount st) \<ge> ERIS_LJ_MAXREF then Inl (Err ''too many distinct upvalues'' [])
          else
            let st = st\<lparr>p_upvcount := p_upvcount st + 1, p_upv := (p_upv st)(c \<mapsto> p_upvcount st + 1)\<rparr>;
                uv = (case h_cell (p_heap st) c of Some u \<Rightarrow> u | None \<Rightarrow> UClosed LNil)
            in case (uv_owner st uv, uv) of
                 (Some co, UOpen _ slot) \<Rightarrow>
                   ebind (pbyte E TAG_UPVALOPEN st) (\<lambda>st. ebind (P (LObj co) st) (puleb E slot))
               | _ \<Rightarrow> ebind (pbyte E TAG_UPVAL st) (\<lambda>st. P (cell_value (p_heap st) c) st))"

fun p_upvalues :: "penv \<Rightarrow> persister \<Rightarrow> addr list \<Rightarrow> pst \<Rightarrow> eris_err + pst" where
  "p_upvalues E P [] st = Inr st"
| "p_upvalues E P (c # cs) st = ebind (p_upvalue E P c st) (p_upvalues E P cs)"

text \<open>\<open>dump_writer\<close> on each chunk, never raising; then the length is patched in.\<close>

fun dump_chunks :: "penv \<Rightarrow> byte list list \<Rightarrow> wbuf \<Rightarrow> wbuf option" where
  "dump_chunks E [] w = Some w"
| "dump_chunks E (p # ps) w = (case w_try (e_grow E) p w of None \<Rightarrow> None | Some w \<Rightarrow> dump_chunks E ps w)"

definition p_dump :: "penv \<Rightarrow> nat \<Rightarrow> pst \<Rightarrow> eris_err + pst" where
  "p_dump E proto st =
     (let lenofs = length (w_out (p_w st)) in
      ebind (pw (w_u32le (e_grow E) 0) st) (\<lambda>st.
        case e_dump E (e_wdebug E) proto of
          None \<Rightarrow> Inl (Err ''cannot dump function'' [])
        | Some chunks \<Rightarrow>
            (case dump_chunks E chunks (p_w st) of
               None \<Rightarrow> Inl (Err ''cannot dump function (out of memory)'' [])
             | Some w \<Rightarrow>
                 let dumplen = length (w_out w) - lenofs - 4 in
                 if int dumplen > 0xffffffff then Inl (Err ''function dump too large'' [])
                 else Inr (st\<lparr>p_w := w_patch_u32le lenofs (word_of_nat dumplen) w\<rparr>))))"

definition p_function :: "penv \<Rightarrow> persister \<Rightarrow> nat \<Rightarrow> addr list \<Rightarrow> addr \<Rightarrow> pst \<Rightarrow> eris_err + pst" where
  "p_function E P proto uvs fenv st =
     ebind (pbyte E TAG_FUNC st) (\<lambda>st.
     ebind (p_dump E proto st) (\<lambda>st.
     ebind (puleb E (length uvs) st) (\<lambda>st.
     ebind (p_upvalues E P uvs st) (P (LObj fenv)))))"

text \<open>\<open>Some f\<close>: the metatable's special-persistence function.\<close>

definition spkey_of :: "penv \<Rightarrow> heap \<Rightarrow> addr option \<Rightarrow> eris_err + addr option" where
  "spkey_of E H mt =
     (case mt of
        None \<Rightarrow> Inr None
      | Some m \<Rightarrow>
          let sp = (case h_obj H m of Some (OTab ps mt) \<Rightarrow> tab_get ps (LStr (e_spkey E)) | _ \<Rightarrow> LNil) in
          if sp = LNil then Inr None
          else if sp = LBool False then Inl (Err ''attempt to persist forbidden table'' [])
          else if sp = LBool True then Inr None
          else case sp of
            LObj f \<Rightarrow> if lua_type H sp = 6 then Inr (Some f)
                      else Inl (Err ''invalid spkey metafield'' [lua_type H sp])
          | _ \<Rightarrow> Inl (Err ''invalid spkey metafield'' [lua_type H sp]))"

definition p_special :: "penv \<Rightarrow> persister \<Rightarrow> addr \<Rightarrow> addr \<Rightarrow> pst \<Rightarrow> eris_err + pst" where
  "p_special E P a f st =
     (case e_call E (p_heap st) f (LObj a) of
        Inl n \<Rightarrow> Inl (Err ''user code'' [int n])
      | Inr (H, closure) \<Rightarrow>
          let st = st\<lparr>p_heap := H\<rparr> in
          if lua_type H closure \<noteq> 6 then Inl (Err ''the spkey function must return a function'' [lua_type H closure])
          else
            let outer = p_pending st; st = st\<lparr>p_pending := p_curid st # outer\<rparr>
            in ebind (P closure st) (\<lambda>st. Inr (st\<lparr>p_pending := outer\<rparr>)))"

definition p_table :: "penv \<Rightarrow> persister \<Rightarrow> addr \<Rightarrow> addr option \<Rightarrow> pst \<Rightarrow> eris_err + pst" where
  "p_table E P a mt st =
     ebind (spkey_of E (p_heap st) mt) (\<lambda>special.
     ebind (pbyte E TAG_TABLE st) (\<lambda>st.
       case special of
         Some f \<Rightarrow> ebind (pbyte E TABLE_SPECIAL st) (p_special E P a f)
       | None \<Rightarrow> ebind (pbyte E TABLE_LITERAL st) (p_literaltable P a)))"

definition check_persistable_thread :: "bool \<Rightarrow> bool \<Rightarrow> bool \<Rightarrow> eris_err + unit" where
  "check_persistable_thread main running cframe =
     (if running then Inl (Err ''cannot persist a running thread'' [])
      else if main then Inl (Err ''cannot persist the main thread'' [])
      else if cframe then Inl (Err ''cannot persist a thread that is running or resuming another'' [])
      else Inr ())"

definition persist_typed :: "penv \<Rightarrow> persister \<Rightarrow> lval \<Rightarrow> pst \<Rightarrow> eris_err + pst" where
  "persist_typed E P v st =
     (case v of
        LStr s \<Rightarrow> p_string E s st
      | LLight p \<Rightarrow>
          if ucast (drop_bit 32 p) = e_keyindex E
          then Inl (Err ''cannot persist a thread suspended inside a generic for-in loop'' [])
          else Inl (Err ''cannot persist light userdata by value'' [])
      | LObj a \<Rightarrow>
          (case h_obj (p_heap st) a of
             Some (OTab ps mt) \<Rightarrow> p_table E P a mt st
           | Some OReplay \<Rightarrow> pbyte E TAG_FORIN_ITER st
           | Some (OCFun f) \<Rightarrow> Inl (Err ''cannot persist a C function by value'' [])
           | Some (OFun proto uvs fenv) \<Rightarrow> p_function E P proto uvs fenv st
           | Some OUser \<Rightarrow> Inl (Err ''cannot persist userdata by value'' [])
           | Some (OThread main running cframe dead) \<Rightarrow>
               ebind (check_persistable_thread main running cframe) (\<lambda>_. e_thread E a P st)
           | _ \<Rightarrow> Inl (Err ''cannot persist'' [lua_type (p_heap st) v]))
      | _ \<Rightarrow> Inl (Err ''cannot persist'' [lua_type (p_heap st) v]))"

definition persist_keyed :: "penv \<Rightarrow> persister \<Rightarrow> lval \<Rightarrow> pst \<Rightarrow> eris_err + pst" where
  "persist_keyed E P v st =
     (case p_ref st v of
        Some rid \<Rightarrow>
          if rid \<in> set (p_pending st) then Inl (Err ''the spkey function captured the object it reconstructs'' [])
          else ebind (pbyte E TAG_REF st) (puleb E rid)
      | None \<Rightarrow>
          ebind (p_newref st) (\<lambda>(rid, st).
            let st = st\<lparr>p_curid := rid, p_ref := (p_ref st)(v \<mapsto> rid)\<rparr>; key = e_perms E v in
            if key \<noteq> LNil
            then ebind (pbyte E TAG_PERMANENT st) (\<lambda>st.
                 ebind (pbyte E (word_of_int (lua_type (p_heap st) v)) st) (P key))
            else persist_typed E P v st))"

fun persist :: "penv \<Rightarrow> nat \<Rightarrow> persister" where
  "persist E 0 v st = Inl (Err ''too complex'' [])"
| "persist E (Suc r) v st =
     (case v of
        LNil \<Rightarrow> pbyte E TAG_NIL st
      | LBool b \<Rightarrow> pbyte E (if b then TAG_TRUE else TAG_FALSE) st
      | LNum n \<Rightarrow> pw (p_number (e_grow E) n) st
      | _ \<Rightarrow> persist_keyed E (persist E r) v st)"

section \<open>Restoring\<close>

text \<open>\<open>u_in\<close> is what is left of the input, \<open>u_fill\<close> the shells still to fill in registration order,
  each with its recipe and the offset of its record.\<close>

record ust =
  u_in :: "byte list"
  u_ref :: "nat \<Rightarrow> lval option"
  u_refcount :: nat
  u_upv :: "nat \<Rightarrow> (addr \<times> nat) option"
  u_upvcount :: nat
  u_list :: "nat \<Rightarrow> (addr \<times> nat) list"
  u_fill :: "(addr \<times> addr \<times> nat) list"
  u_heap :: heap
  u_rthreads :: "(addr \<times> nat) list"

datatype loaded = LoadError nat | LoadFun nat nat | LoadOther

text \<open>\<open>f_load\<close>: \<open>lua_loadx\<close> in mode b: an error, a prototype with its number of upvalues, or something
  that is not a Lua function; \<open>f_thread\<close>: the record of a thread; \<open>f_globals\<close>: the environment a loaded function gets.\<close>

record uenv =
  f_nan :: double
  f_order :: placing
  f_uperms :: "lval \<Rightarrow> lval"
  f_load :: "byte list \<Rightarrow> loaded"
  f_globals :: addr
  f_inlen :: nat
  f_thread :: "(ust \<Rightarrow> eris_err + lval \<times> ust) \<Rightarrow> ust \<Rightarrow> eris_err + lval \<times> ust"
  f_fr2 :: nat

type_synonym unpersister = "ust \<Rightarrow> eris_err + lval \<times> ust"

definition ur :: "(byte list \<Rightarrow> eris_err + 'a \<times> byte list) \<Rightarrow> ust \<Rightarrow> eris_err + 'a \<times> ust" where
  "ur f st = ebind (f (u_in st)) (\<lambda>(x, rest). Inr (x, st\<lparr>u_in := rest\<rparr>))"

definition u_pos :: "uenv \<Rightarrow> ust \<Rightarrow> nat" where
  "u_pos F st = f_inlen F - length (u_in st)"

definition u_newref :: "ust \<Rightarrow> eris_err + nat \<times> ust" where
  "u_newref st =
     (if int (u_refcount st) \<ge> ERIS_LJ_MAXREF then Inl (Err ''too many distinct objects'' [])
      else Inr (u_refcount st + 1, st\<lparr>u_refcount := u_refcount st + 1\<rparr>))"

definition registerobject :: "lval \<Rightarrow> ust \<Rightarrow> eris_err + ust" where
  "registerobject v st =
     ebind (u_newref st) (\<lambda>(rid, st). Inr (st\<lparr>u_ref := (u_ref st)(rid \<mapsto> v)\<rparr>))"

definition alloc_obj :: "lobj \<Rightarrow> ust \<Rightarrow> addr \<times> ust" where
  "alloc_obj x st =
     (let H = u_heap st; a = h_next H
      in (a, st\<lparr>u_heap := H\<lparr>h_obj := (h_obj H)(a \<mapsto> x), h_next := a + 1\<rparr>\<rparr>))"

definition u_string :: "ust \<Rightarrow> eris_err + lval \<times> ust" where
  "u_string st =
     ebind (ur r_uleb st) (\<lambda>(len, st).
     ebind (ur (r_raw (unat len)) st) (\<lambda>(s, st).
     ebind (registerobject (LStr s) st) (\<lambda>st. Inr (LStr s, st))))"

text \<open>A closure just loaded: fresh cells holding nil, the globals for environment.\<close>

definition new_closure :: "uenv \<Rightarrow> nat \<Rightarrow> nat \<Rightarrow> ust \<Rightarrow> addr \<times> ust" where
  "new_closure F proto nuv st =
     (let H = u_heap st; c = h_cnext H; cells = [c..<c + nuv];
          H = H\<lparr>h_cell := (\<lambda>x. if c \<le> x \<and> x < c + nuv then Some (UClosed LNil) else h_cell H x), h_cnext := c + nuv\<rparr>
      in alloc_obj (OFun proto cells (f_globals F)) (st\<lparr>u_heap := H\<rparr>))"

definition closure_cell :: "heap \<Rightarrow> addr \<Rightarrow> nat \<Rightarrow> addr option" where
  "closure_cell H a i =
     (case h_obj H a of
        Some (OFun p uvs e) \<Rightarrow> if 1 \<le> i \<and> i \<le> length uvs then Some (uvs ! (i - 1)) else None
      | _ \<Rightarrow> None)"

definition set_closure_cell :: "heap \<Rightarrow> addr \<Rightarrow> nat \<Rightarrow> addr \<Rightarrow> heap" where
  "set_closure_cell H a i c =
     (case h_obj H a of
        Some (OFun p uvs e) \<Rightarrow> H\<lparr>h_obj := (h_obj H)(a \<mapsto> OFun p (uvs[i - 1 := c]) e)\<rparr>
      | _ \<Rightarrow> H)"

text \<open>\<open>lua_setupvalue\<close>: the value of the cell the slot has now.\<close>

definition lua_setupvalue :: "addr \<Rightarrow> nat \<Rightarrow> lval \<Rightarrow> heap \<Rightarrow> heap option" where
  "lua_setupvalue a i v H =
     (case closure_cell H a i of
        None \<Rightarrow> None
      | Some c \<Rightarrow>
          (case h_cell H c of
             Some (UOpen co slot) \<Rightarrow> Some (H\<lparr>h_stack := (h_stack H)(co := (h_stack H co)(slot := v))\<rparr>)
           | _ \<Rightarrow> Some (H\<lparr>h_cell := (h_cell H)(c \<mapsto> UClosed v)\<rparr>)))"

definition elj_note_referrer :: "nat \<Rightarrow> addr \<Rightarrow> nat \<Rightarrow> ust \<Rightarrow> ust" where
  "elj_note_referrer rid a n st = st\<lparr>u_list := (u_list st)(rid := u_list st rid @ [(a, n)])\<rparr>"

definition elj_repoint_referrers :: "nat \<Rightarrow> addr \<Rightarrow> ust \<Rightarrow> ust" where
  "elj_repoint_referrers rid uv st =
     st\<lparr>u_heap := foldl (\<lambda>H (a, slot). if closure_cell H a slot = None then H else set_closure_cell H a slot uv)
                        (u_heap st) (u_list st rid)\<rparr>"

text \<open>The open upvalue of a thread's slot: the one on its list, kept in descending order of slots, or a
  new one inserted there.\<close>

fun finduv_list :: "(nat \<times> addr) list \<Rightarrow> nat \<Rightarrow> addr \<Rightarrow> (nat \<times> addr) list \<times> addr" where
  "finduv_list [] slot new = ([(slot, new)], new)"
| "finduv_list ((s, c) # ps) slot new =
     (if s \<ge> slot then
        if s = slot then ((s, c) # ps, c)
        else let (ps', r) = finduv_list ps slot new in ((s, c) # ps', r)
      else ((slot, new) # (s, c) # ps, new))"

definition elj_finduv :: "addr \<Rightarrow> nat \<Rightarrow> bool \<Rightarrow> heap \<Rightarrow> heap \<times> addr" where
  "elj_finduv co slot immutable H =
     (let (ps, c) = finduv_list (h_open H co) slot (h_cnext H) in
      if c = h_cnext H
      then (H\<lparr>h_open := (h_open H)(co := ps), h_cell := (h_cell H)(c \<mapsto> UOpen co slot), h_cnext := c + 1,
              h_immut := (h_immut H)(c := immutable)\<rparr>, c)
      else (H, c))"

text \<open>Where a thread's live stack ends: the declared top while it is being restored.\<close>

definition elj_live_top :: "ust \<Rightarrow> addr \<Rightarrow> nat" where
  "elj_live_top st co = (case map_of (u_rthreads st) co of Some t \<Rightarrow> t | None \<Rightarrow> h_top (u_heap st) co)"

definition u_newupv :: "addr \<Rightarrow> nat \<Rightarrow> ust \<Rightarrow> eris_err + nat \<times> ust" where
  "u_newupv a i st =
     (if int (u_upvcount st) \<ge> ERIS_LJ_MAXREF then Inl (Err ''too many distinct upvalues'' [])
      else
        let rid = u_upvcount st + 1
        in Inr (rid, elj_note_referrer rid a i (st\<lparr>u_upvcount := rid, u_upv := (u_upv st)(rid \<mapsto> (a, i))\<rparr>)))"

definition u_upvalue :: "uenv \<Rightarrow> unpersister \<Rightarrow> addr \<Rightarrow> nat \<Rightarrow> ust \<Rightarrow> eris_err + ust" where
  "u_upvalue F U a i st =
     ebind (ur r_byte st) (\<lambda>(t, st).
       if t = TAG_UPVAL then
         ebind (u_newupv a i st) (\<lambda>(rid, st).
         ebind (U st) (\<lambda>(v, st).
           case lua_setupvalue a i v (u_heap st) of
             None \<Rightarrow> Inl (Err ''cannot set upvalue'' [int i])
           | Some H \<Rightarrow> Inr (st\<lparr>u_heap := H\<rparr>)))
       else if t = TAG_UPVALREF then
         ebind (ur r_uleb st) (\<lambda>(rid, st).
           if rid = 0 \<or> unat rid > u_upvcount st then Inl (Err ''upvalue reference out of range'' [uint rid, int (u_upvcount st)])
           else case u_upv st (unat rid) of
             None \<Rightarrow> Inl (Err ''corrupt upvalue reference'' [uint rid])
           | Some (owner, n) \<Rightarrow>
               (case closure_cell (u_heap st) owner n of
                  None \<Rightarrow> Inl (Err ''corrupt upvalue reference'' [uint rid])
                | Some c \<Rightarrow>
                    Inr (elj_note_referrer (unat rid) a i (st\<lparr>u_heap := set_closure_cell (u_heap st) a i c\<rparr>))))
       else if t = TAG_UPVALOPEN then
         ebind (u_newupv a i st) (\<lambda>(rid, st).
         ebind (U st) (\<lambda>(owner, st).
           if lua_type (u_heap st) owner \<noteq> 8
           then Inl (Err ''open upvalue names a value that is not a thread'' [lua_type (u_heap st) owner])
           else ebind (ur r_uleb st) (\<lambda>(slot, st).
             case owner of
               LObj co \<Rightarrow>
                 if unat slot < 1 + f_fr2 F \<or> unat slot \<ge> elj_live_top st co
                 then Inl (Err ''open upvalue slot outside the live stack'' [uint slot])
                 else let (H, uv) = elj_finduv co (unat slot) False (u_heap st)
                      in Inr (elj_repoint_referrers rid uv (st\<lparr>u_heap := H\<rparr>))
             | _ \<Rightarrow> Inl (Err ''open upvalue names a value that is not a thread'' []))))
       else Inl (Err ''expected an upvalue record'' [uint t]))"

fun u_upvalues :: "uenv \<Rightarrow> unpersister \<Rightarrow> addr \<Rightarrow> nat \<Rightarrow> nat \<Rightarrow> ust \<Rightarrow> eris_err + ust" where
  "u_upvalues F U a i 0 st = Inr st"
| "u_upvalues F U a i (Suc n) st = ebind (u_upvalue F U a i st) (u_upvalues F U a (i + 1) n)"

definition u_function :: "uenv \<Rightarrow> unpersister \<Rightarrow> unpersister" where
  "u_function F U st =
     ebind (ur r_u32le st) (\<lambda>(dumplen, st).
     ebind (ur (r_raw (unat dumplen)) st) (\<lambda>(dump, st).
       case f_load F dump of
         LoadError n \<Rightarrow> Inl (Err ''cannot load function'' [int n])
       | LoadOther \<Rightarrow> Inl (Err ''loaded chunk is not a Lua function'' [])
       | LoadFun proto nuv \<Rightarrow>
           let (a, st) = new_closure F proto nuv st in
           ebind (registerobject (LObj a) st) (\<lambda>st.
           ebind (ur r_uleb st) (\<lambda>(c, st).
             let claimed = signed_take_bit 31 (uint c) in
             if claimed \<noteq> int nuv then Inl (Err ''upvalue count mismatch'' [claimed, int nuv])
             else
               ebind (u_upvalues F U a 1 nuv st) (\<lambda>st.
               ebind (U st) (\<lambda>(e, st).
                 case (e, h_obj (u_heap st) a) of
                   (LObj ea, Some (OFun p uvs _)) \<Rightarrow>
                     if lua_type (u_heap st) e \<noteq> 5
                     then Inl (Err ''function environment is not a table'' [lua_type (u_heap st) e])
                     else Inr (LObj a, st\<lparr>u_heap := (u_heap st)\<lparr>h_obj := (h_obj (u_heap st))(a \<mapsto> OFun p uvs ea)\<rparr>\<rparr>)
                 | _ \<Rightarrow> Inl (Err ''function environment is not a table'' [lua_type (u_heap st) e])))))))"

text \<open>The loop of \<open>u_table\<close>: each turn reads two records, so the input's length bounds it.\<close>

fun u_pairs :: "uenv \<Rightarrow> nat \<Rightarrow> unpersister \<Rightarrow> addr \<Rightarrow> ust \<Rightarrow> eris_err + ust" where
  "u_pairs F 0 U a st = Inl (Err ''loop bound'' [])"
| "u_pairs F (Suc n) U a st =
     ebind (U st) (\<lambda>(k, st).
       if k = LNil then Inr st
       else ebind (U st) (\<lambda>(v, st).
         if v = LNil then Inl (Err ''table value is nil (malformed data)'' [])
         else ebind (lua_rawset (f_order F) a k v (u_heap st)) (\<lambda>H. u_pairs F n U a (st\<lparr>u_heap := H\<rparr>))))"

definition lua_setmetatable :: "addr \<Rightarrow> addr \<Rightarrow> heap \<Rightarrow> heap" where
  "lua_setmetatable a m H =
     (case h_obj H a of
        Some (OTab ps mt) \<Rightarrow> H\<lparr>h_obj := (h_obj H)(a \<mapsto> OTab ps (Some m))\<rparr>
      | _ \<Rightarrow> H)"

definition u_metatable :: "unpersister \<Rightarrow> addr \<Rightarrow> unpersister" where
  "u_metatable U a st =
     ebind (U st) (\<lambda>(mt, st).
       if mt = LNil then Inr (LObj a, st)
       else if lua_type (u_heap st) mt \<noteq> 5
       then Inl (Err ''metatable slot holds a value that is not a table'' [lua_type (u_heap st) mt])
       else case mt of
         LObj m \<Rightarrow>
           if m \<in> fst ` set (u_fill st) then Inl (Err ''a special table is the metatable of another object'' [])
           else Inr (LObj a, st\<lparr>u_heap := lua_setmetatable a m (u_heap st)\<rparr>)
       | _ \<Rightarrow> Inl (Err ''metatable slot holds a value that is not a table'' []))"

definition u_table :: "uenv \<Rightarrow> unpersister \<Rightarrow> unpersister" where
  "u_table F U st =
     ebind (ur r_byte st) (\<lambda>(flag, st).
       if flag = TABLE_SPECIAL then
         let (a, st) = alloc_obj (OTab [] None) st in
         ebind (registerobject (LObj a) st) (\<lambda>st.
         ebind (U st) (\<lambda>(closure, st).
           case closure of
             LObj f \<Rightarrow>
               if lua_type (u_heap st) closure \<noteq> 6
               then Inl (Err ''special-persist record is not a function'' [lua_type (u_heap st) closure])
               else Inr (LObj a, st\<lparr>u_fill := u_fill st @ [(a, f, u_pos F st)]\<rparr>)
           | _ \<Rightarrow> Inl (Err ''special-persist record is not a function'' [lua_type (u_heap st) closure])))
       else if flag \<noteq> TABLE_LITERAL then Inl (Err ''unknown table flag'' [uint flag])
       else
         let (a, st) = alloc_obj (OTab [] None) st in
         ebind (registerobject (LObj a) st) (\<lambda>st.
         ebind (u_pairs F (Suc (length (u_in st))) U a st) (u_metatable U a)))"

definition u_permanent :: "uenv \<Rightarrow> unpersister \<Rightarrow> unpersister" where
  "u_permanent F U st =
     ebind (ur r_byte st) (\<lambda>(ty, st).
       if ty > 8 then Inl (Err ''permanent has invalid type byte'' [uint ty])
       else
         ebind (u_newref st) (\<lambda>(ref, st).
         ebind (U st) (\<lambda>(key, st).
           let obj = f_uperms F key in
           if obj = LNil then Inl (Err ''unknown permanent'' [])
           else if lua_type (u_heap st) obj \<noteq> uint ty
           then Inl (Err ''permanent changed type'' [uint ty, lua_type (u_heap st) obj])
           else Inr (obj, st\<lparr>u_ref := (u_ref st)(ref \<mapsto> obj)\<rparr>))))"

definition u_reference :: "unpersister" where
  "u_reference st =
     ebind (ur r_uleb st) (\<lambda>(rid, st).
       if rid = 0 \<or> unat rid > u_refcount st then Inl (Err ''reference out of range'' [uint rid, int (u_refcount st)])
       else case u_ref st (unat rid) of
         None \<Rightarrow> Inl (Err ''dangling reference'' [uint rid])
       | Some v \<Rightarrow> Inr (v, st))"

fun unpersist :: "uenv \<Rightarrow> nat \<Rightarrow> unpersister" where
  "unpersist F 0 st = ebind (ur r_byte st) (\<lambda>_. Inl (Err ''too complex'' []))"
| "unpersist F (Suc r) st =
     ebind (ur r_byte st) (\<lambda>(tag, st).
       if tag = TAG_NIL then Inr (LNil, st)
       else if tag = TAG_FALSE then Inr (LBool False, st)
       else if tag = TAG_TRUE then Inr (LBool True, st)
       else if tag = TAG_INT then ebind (ur u_int st) (\<lambda>(n, st). Inr (LNum n, st))
       else if tag = TAG_NUM then ebind (ur (u_num (f_nan F)) st) (\<lambda>(n, st). Inr (LNum n, st))
       else if tag = TAG_STR then u_string st
       else if tag = TAG_TABLE then u_table F (unpersist F r) st
       else if tag = TAG_FUNC then u_function F (unpersist F r) st
       else if tag = TAG_THREAD then f_thread F (unpersist F r) st
       else if tag = TAG_PERMANENT then u_permanent F (unpersist F r) st
       else if tag = TAG_FORIN_ITER then
         let (a, st) = alloc_obj OReplay st in ebind (registerobject (LObj a) st) (\<lambda>st. Inr (LObj a, st))
       else if tag = TAG_UPVAL \<or> tag = TAG_UPVALREF then Inl (Err ''upvalue record outside a function'' [])
       else if tag = TAG_REF then u_reference st
       else Inl (Err ''unknown tag'' [uint tag, int (u_pos F st) - 1]))"

text \<open>A coroutine that has not run, and the least prototype.\<close>

definition idle_coro :: coro where
  "idle_coro = \<lparr>c_status = 0, c_base = 2, c_span = 3, c_word = (\<lambda>_. None)\<rparr>"

definition empty_proto :: proto where
  "empty_proto = \<lparr>pt_bc = [], pt_framesize = 0, pt_vararg = False\<rparr>"

lemma update_new: "k \<notin> fst ` set qs \<Longrightarrow> AList.update k v qs = qs @ [(k, v)]"
  by (induction qs) auto

end
