(* ===== verification/ErisIso.thy ===== *)
theory ErisIso
  imports ErisObj "HOL-Library.Multiset"
begin

text \<open>
  What \<open>persist\<close> writes, \<open>unpersist\<close> rebuilds: the same graph, on a heap of its own. The two
  directions are related step by step: both assign the same identities in the same order, every
  object registered and not still being rebuilt has its contents related, and a call changes nothing
  that was there before it.
\<close>

section \<open>The setting\<close>

text \<open>The two environments, the heap that is persisted, and the first address the restore allocates.\<close>

record world =
  g_E :: penv
  g_F :: uenv
  g_H :: heap
  g_B :: addr

definition val_ok :: "lval \<Rightarrow> bool" where
  "val_ok v = (case v of LStr s \<Rightarrow> length s < 2 ^ 64 | _ \<Rightarrow> True)"

definition is_table :: "heap \<Rightarrow> addr \<Rightarrow> bool" where
  "is_table H a = (\<exists>ps mt. h_obj H a = Some (OTab ps mt))"

text \<open>A table of a Lua heap has distinct, normal keys and no nil value; here none has a
  special-persistence function. A closure's upvalues are closed, its environment is a table, and its
  dump loads as a function of as many upvalues. No thread is persisted.\<close>

definition obj_ok :: "world \<Rightarrow> lobj \<Rightarrow> bool" where
  "obj_ok G x =
     (case x of
        OTab ps mt \<Rightarrow>
          distinct (map fst ps)
          \<and> (\<forall>(k, v) \<in> set ps. val_ok k \<and> val_ok v \<and> v \<noteq> LNil \<and> key_ok k \<and> key_norm k = k)
          \<and> (\<forall>m. mt = Some m \<longrightarrow> is_table (g_H G) m)
          \<and> (\<forall>f. spkey_of (g_E G) (g_H G) mt \<noteq> Inr (Some f))
      | OFun p us e \<Rightarrow>
          length us < 2 ^ 31 \<and> is_table (g_H G) e
          \<and> (\<forall>c \<in> set us. \<exists>v. h_cell (g_H G) c = Some (UClosed v) \<and> val_ok v)
          \<and> (\<forall>chunks. e_dump (g_E G) (e_wdebug (g_E G)) p = Some chunks \<longrightarrow>
               (\<exists>q. f_load (g_F G) (concat chunks) = LoadFun q (length us)))
      | OThread m r c d \<Rightarrow> False
      | _ \<Rightarrow> True)"

abbreviation permanent :: "world \<Rightarrow> lval \<Rightarrow> bool" where
  "permanent G v \<equiv> e_perms (g_E G) v \<noteq> LNil"

definition heap_ok :: "world \<Rightarrow> bool" where
  "heap_ok G = (\<forall>a x. h_obj (g_H G) a = Some x \<longrightarrow> \<not> permanent G (LObj a) \<longrightarrow> obj_ok G x)"

text \<open>The permanents tables are inverse to each other: a permanent is an object whose key is a
  string, the key restores to an object of its type that was there before, and distinct permanents
  restore to distinct objects.\<close>

definition restored :: "world \<Rightarrow> lval \<Rightarrow> lval" where
  "restored G v = f_uperms (g_F G) (e_perms (g_E G) v)"

definition perms_ok :: "world \<Rightarrow> heap \<Rightarrow> bool" where
  "perms_ok G K =
     ((\<forall>v. permanent G v \<longrightarrow>
         (\<exists>a s. v = LObj a \<and> e_perms (g_E G) v = LStr s \<and> length s < 2 ^ 64)
         \<and> (\<exists>b. restored G v = LObj b \<and> b < g_B G
              \<and> lua_type K (LObj b) = lua_type (g_H G) v \<and> lua_type (g_H G) v \<le> 8))
      \<and> (\<forall>v w. permanent G v \<longrightarrow> permanent G w \<longrightarrow> restored G v = restored G w \<longrightarrow> v = w))"

text \<open>What LuaJIT is relied on for: writing a field moves pairs and loses none, and its NaN is a NaN.\<close>

definition vm_ok :: "world \<Rightarrow> bool" where
  "vm_ok G = ((\<forall>a ps. mset (f_order (g_F G) a ps) = mset ps) \<and> d_isnan (f_nan (g_F G)))"

section \<open>The relation of the two graphs\<close>

text \<open>\<open>\<rho>\<close> takes what was persisted to what stands for it on the other side, \<open>\<gamma>\<close> does so for upvalue cells.\<close>

type_synonym vmap = "lval \<Rightarrow> lval option"
type_synonym cmap = "addr \<Rightarrow> addr option"

text \<open>A number is the same bit pattern on both sides, a NaN some NaN.\<close>

definition num_same :: "double \<Rightarrow> double \<Rightarrow> bool" where
  "num_same n n' = (n' = n \<or> d_isnan n \<and> d_isnan n')"

definition vrel :: "vmap \<Rightarrow> lval \<Rightarrow> lval \<Rightarrow> bool" where
  "vrel \<rho> v v' =
     (case v of LNil \<Rightarrow> v' = v | LBool b \<Rightarrow> v' = v | LNum n \<Rightarrow> (\<exists>n'. v' = LNum n' \<and> num_same n n') | _ \<Rightarrow> \<rho> v = Some v')"

definition mrel :: "vmap \<Rightarrow> addr option \<Rightarrow> addr option \<Rightarrow> bool" where
  "mrel \<rho> = rel_option (\<lambda>m m'. vrel \<rho> (LObj m) (LObj m'))"

definition pairrel :: "vmap \<Rightarrow> lval \<times> lval \<Rightarrow> lval \<times> lval \<Rightarrow> bool" where
  "pairrel \<rho> = rel_prod (vrel \<rho>) (vrel \<rho>)"

text \<open>The pairs of a table and those of the table that stands for it, which the other VM may traverse in
  any other order.\<close>

definition pairs_rel :: "vmap \<Rightarrow> (lval \<times> lval) list \<Rightarrow> (lval \<times> lval) list \<Rightarrow> bool" where
  "pairs_rel \<rho> ps qs = (\<exists>rs. mset rs = mset qs \<and> list_all2 (pairrel \<rho>) ps rs)"

text \<open>Tables have the same pairs in some order and the same metatable; closures the prototype that
  the dump loads as, the same cells in the same slots and the same environment.\<close>

fun orel :: "world \<Rightarrow> vmap \<Rightarrow> cmap \<Rightarrow> lobj \<Rightarrow> lobj \<Rightarrow> bool" where
  "orel G \<rho> \<gamma> (OTab ps mt) (OTab ps' mt') = (pairs_rel \<rho> ps ps' \<and> mrel \<rho> mt mt')"
| "orel G \<rho> \<gamma> (OFun p us e) (OFun q us' e') =
     ((\<exists>chunks. e_dump (g_E G) (e_wdebug (g_E G)) p = Some chunks
         \<and> f_load (g_F G) (concat chunks) = LoadFun q (length us))
      \<and> list_all2 (\<lambda>c c'. \<gamma> c = Some c') us us' \<and> vrel \<rho> (LObj e) (LObj e'))"
| "orel G \<rho> \<gamma> OReplay OReplay = True"
| "orel G \<rho> \<gamma> x y = False"

fun skind :: "lobj \<Rightarrow> lobj \<Rightarrow> bool" where
  "skind (OTab ps mt) (OTab ps' mt') = True"
| "skind (OFun p us e) (OFun q us' e') = True"
| "skind OReplay OReplay = True"
| "skind x y = False"

text \<open>What a value that is not written in place stands for: a string for itself, a permanent for what its
  key names, any other object for one of its kind that the restore made.\<close>

definition idrel :: "world \<Rightarrow> heap \<Rightarrow> lval \<Rightarrow> lval \<Rightarrow> bool" where
  "idrel G K v v' =
     (case v of
        LStr s \<Rightarrow> v' = v
      | LObj a \<Rightarrow>
          if permanent G v then v' = restored G v
          else \<exists>a' x x'. v' = LObj a' \<and> g_B G \<le> a' \<and> h_obj (g_H G) a = Some x \<and> h_obj K a' = Some x' \<and> skind x x'
      | _ \<Rightarrow> False)"

definition contents_ok :: "world \<Rightarrow> vmap \<Rightarrow> cmap \<Rightarrow> heap \<Rightarrow> addr \<Rightarrow> addr \<Rightarrow> bool" where
  "contents_ok G \<rho> \<gamma> K a a' =
     (\<exists>x x'. h_obj (g_H G) a = Some x \<and> h_obj K a' = Some x' \<and> orel G \<rho> \<gamma> x x')"

definition cell_ok :: "world \<Rightarrow> vmap \<Rightarrow> heap \<Rightarrow> addr \<Rightarrow> addr \<Rightarrow> bool" where
  "cell_ok G \<rho> K c c' =
     (\<exists>v v'. h_cell (g_H G) c = Some (UClosed v) \<and> h_cell K c' = Some (UClosed v') \<and> vrel \<rho> v v')"

text \<open>The graphs are isomorphic along \<open>\<rho>\<close> and \<open>\<gamma>\<close>, except for the contents of the objects in \<open>X\<close> and the
  values of the cells in \<open>Y\<close>, which are still being rebuilt.\<close>

definition iso :: "world \<Rightarrow> addr set \<Rightarrow> addr set \<Rightarrow> vmap \<Rightarrow> cmap \<Rightarrow> heap \<Rightarrow> bool" where
  "iso G X Y \<rho> \<gamma> K =
     ((\<forall>v v'. \<rho> v = Some v' \<longrightarrow> idrel G K v v')
      \<and> (\<forall>v w v'. \<rho> v = Some v' \<longrightarrow> \<rho> w = Some v' \<longrightarrow> v = w)
      \<and> (\<forall>a a'. \<rho> (LObj a) = Some (LObj a') \<longrightarrow> a \<notin> X \<longrightarrow> \<not> permanent G (LObj a) \<longrightarrow> contents_ok G \<rho> \<gamma> K a a')
      \<and> (\<forall>c c'. \<gamma> c = Some c' \<longrightarrow> c' < h_cnext K \<and> (c \<notin> Y \<longrightarrow> cell_ok G \<rho> K c c'))
      \<and> (\<forall>c d c'. \<gamma> c = Some c' \<longrightarrow> \<gamma> d = Some c' \<longrightarrow> c = d)
      \<and> g_B G \<le> h_next K \<and> (\<forall>a. h_next K \<le> a \<longrightarrow> h_obj K a = None) \<and> perms_ok G K)"

lemma vrel_mono: "vrel \<rho> v v' \<Longrightarrow> \<rho> \<subseteq>\<^sub>m \<rho>' \<Longrightarrow> vrel \<rho>' v v'"
  by (cases v) (auto simp: vrel_def map_le_def dom_def)

lemma mrel_mono: "mrel \<rho> m m' \<Longrightarrow> \<rho> \<subseteq>\<^sub>m \<rho>' \<Longrightarrow> mrel \<rho>' m m'"
  unfolding mrel_def by (erule option.rel_mono_strong) (auto intro: vrel_mono)

lemma pairrel_mono: "pairrel \<rho> p p' \<Longrightarrow> \<rho> \<subseteq>\<^sub>m \<rho>' \<Longrightarrow> pairrel \<rho>' p p'"
  unfolding pairrel_def by (auto simp: rel_prod_sel intro: vrel_mono)

lemma pairrels_mono: "pairs_rel \<rho> ps ps' \<Longrightarrow> \<rho> \<subseteq>\<^sub>m \<rho>' \<Longrightarrow> pairs_rel \<rho>' ps ps'"
  unfolding pairs_rel_def by (blast intro: list_all2_mono pairrel_mono)

lemma cells_mono: "list_all2 (\<lambda>c c'. \<gamma> c = Some c') us us' \<Longrightarrow> \<gamma> \<subseteq>\<^sub>m \<gamma>' \<Longrightarrow> list_all2 (\<lambda>c c'. \<gamma>' c = Some c') us us'"
  by (erule list_all2_mono) (auto simp: map_le_def dom_def)

lemma orel_mono: "orel G \<rho> \<gamma> x x' \<Longrightarrow> \<rho> \<subseteq>\<^sub>m \<rho>' \<Longrightarrow> \<gamma> \<subseteq>\<^sub>m \<gamma>' \<Longrightarrow> orel G \<rho>' \<gamma>' x x'"
  by (induction G \<rho> \<gamma> x x' rule: orel.induct) (auto intro: vrel_mono mrel_mono pairrels_mono cells_mono)

lemma cell_ok_mono: "cell_ok G \<rho> K c c' \<Longrightarrow> \<rho> \<subseteq>\<^sub>m \<rho>' \<Longrightarrow> cell_ok G \<rho>' K c c'"
  unfolding cell_ok_def by (blast intro: vrel_mono)

lemma contents_ok_mono:
  "contents_ok G \<rho> \<gamma> K a a' \<Longrightarrow> \<rho> \<subseteq>\<^sub>m \<rho>' \<Longrightarrow> \<gamma> \<subseteq>\<^sub>m \<gamma>' \<Longrightarrow> h_obj K' a' = h_obj K a' \<Longrightarrow> contents_ok G \<rho>' \<gamma>' K' a a'"
  unfolding contents_ok_def by (metis orel_mono)

lemma skind_orel: "orel G \<rho> \<gamma> x x' \<Longrightarrow> skind x x'"
  by (induction G \<rho> \<gamma> x x' rule: orel.induct) auto

section \<open>How it grows\<close>

lemma upd_le: "\<rho> v = None \<Longrightarrow> \<rho> \<subseteq>\<^sub>m \<rho>(v \<mapsto> x)"
  by (auto simp: map_le_def)


text \<open>The parts of an isomorphism, as rules.\<close>

lemma isoI:
  assumes "\<And>v v'. \<rho> v = Some v' \<Longrightarrow> idrel G K v v'"
    and "\<And>v w v'. \<rho> v = Some v' \<Longrightarrow> \<rho> w = Some v' \<Longrightarrow> v = w"
    and "\<And>a a'. \<rho> (LObj a) = Some (LObj a') \<Longrightarrow> a \<notin> X \<Longrightarrow> \<not> permanent G (LObj a) \<Longrightarrow> contents_ok G \<rho> \<gamma> K a a'"
    and "\<And>c c'. \<gamma> c = Some c' \<Longrightarrow> c' < h_cnext K"
    and "\<And>c c'. \<gamma> c = Some c' \<Longrightarrow> c \<notin> Y \<Longrightarrow> cell_ok G \<rho> K c c'"
    and "\<And>c d c'. \<gamma> c = Some c' \<Longrightarrow> \<gamma> d = Some c' \<Longrightarrow> c = d"
    and "g_B G \<le> h_next K" "\<And>a. h_next K \<le> a \<Longrightarrow> h_obj K a = None" "perms_ok G K"
  shows "iso G X Y \<rho> \<gamma> K"
  using assms unfolding iso_def by blast

lemma isoD:
  assumes "iso G X Y \<rho> \<gamma> K"
  shows iso_id: "\<rho> v = Some v' \<Longrightarrow> idrel G K v v'"
    and iso_inj: "\<rho> v = Some v' \<Longrightarrow> \<rho> w = Some v' \<Longrightarrow> v = w"
    and iso_obj: "\<rho> (LObj a) = Some (LObj a') \<Longrightarrow> a \<notin> X \<Longrightarrow> \<not> permanent G (LObj a) \<Longrightarrow> contents_ok G \<rho> \<gamma> K a a'"
    and iso_cnext: "\<gamma> c = Some c' \<Longrightarrow> c' < h_cnext K"
    and iso_cell: "\<gamma> c = Some c' \<Longrightarrow> c \<notin> Y \<Longrightarrow> cell_ok G \<rho> K c c'"
    and iso_cinj: "\<gamma> c = Some c' \<Longrightarrow> \<gamma> d = Some c' \<Longrightarrow> c = d"
    and iso_base: "g_B G \<le> h_next K"
    and iso_free: "h_next K \<le> b \<Longrightarrow> h_obj K b = None"
    and iso_perms: "perms_ok G K"
  using assms unfolding iso_def by blast+

lemma perm_restored:
  assumes "perms_ok G K" "permanent G v"
  obtains b where "restored G v = LObj b" "b < g_B G" "lua_type K (LObj b) = lua_type (g_H G) v" "lua_type (g_H G) v \<le> 8"
  using assms unfolding perms_ok_def by blast

lemma idrel_obj:
  assumes "idrel G K v (LObj b)"
  obtains a where "v = LObj a" "permanent G v" "restored G v = LObj b"
    | a x x' where "v = LObj a" "\<not> permanent G v" "g_B G \<le> b" "h_obj (g_H G) a = Some x" "h_obj K b = Some x'" "skind x x'"
  using assms unfolding idrel_def by (auto split: lval.splits if_splits)

lemma iso_range:
  assumes "iso G X Y \<rho> \<gamma> K" "\<rho> v = Some (LObj a)"
  shows "a < h_next K"
proof (cases rule: idrel_obj [OF iso_id [OF assms]])
  case (1 b)
  then show ?thesis using perm_restored [OF iso_perms [OF assms(1)]] iso_base [OF assms(1)] by fastforce
next
  case (2 b x x')
  then show ?thesis using iso_free [OF assms(1), of a] by (cases "h_next K \<le> a") auto
qed

text \<open>Objects at or above the base address may change while their kind stays.\<close>


lemma lua_type_upd: "h_obj K' b = h_obj K b \<Longrightarrow> lua_type K' (LObj b) = lua_type K (LObj b)"
  by (simp add: lua_type_def)

lemma perms_ok_upd:
  assumes "perms_ok G K" "\<And>b. b < g_B G \<Longrightarrow> h_obj K' b = h_obj K b"
  shows "perms_ok G K'"
  using assms(1) lua_type_upd [OF assms(2)] unfolding perms_ok_def by metis

lemma idrel_upd:
  "idrel G K v v' \<Longrightarrow> (\<And>b x. h_obj K b = Some x \<Longrightarrow> \<exists>y. h_obj K' b = Some y \<and> (\<forall>z. skind z x \<longrightarrow> skind z y)) \<Longrightarrow>
   idrel G K' v v'"
  unfolding idrel_def by (auto split: lval.splits if_splits) blast

lemma idrel_str: "idrel G K (LStr s) v' \<longleftrightarrow> v' = LStr s"
  by (simp add: idrel_def)

lemma iso_register_string:
  assumes "iso G X Y \<rho> \<gamma> K" "\<rho> (LStr s) = None"
  shows "iso G X Y (\<rho>(LStr s \<mapsto> LStr s)) \<gamma> K"
proof -
  note le = upd_le [of \<rho> "LStr s" "LStr s", OF assms(2)]
  have fresh: "\<rho> v \<noteq> Some (LStr s)" for v
    using iso_id [OF assms(1), of v "LStr s"] assms(2) perm_restored [OF iso_perms [OF assms(1)]]
    by (fastforce simp: idrel_def split: lval.splits if_splits)
  show ?thesis
  proof (rule isoI)
    show "idrel G K v v'" if "(\<rho>(LStr s \<mapsto> LStr s)) v = Some v'" for v v'
      using that iso_id [OF assms(1)] by (auto simp: idrel_str split: if_splits)
    show "v = w" if "(\<rho>(LStr s \<mapsto> LStr s)) v = Some v'" "(\<rho>(LStr s \<mapsto> LStr s)) w = Some v'" for v w v'
      using that iso_inj [OF assms(1)] fresh by (auto split: if_splits)
    show "contents_ok G (\<rho>(LStr s \<mapsto> LStr s)) \<gamma> K a a'"
      if "(\<rho>(LStr s \<mapsto> LStr s)) (LObj a) = Some (LObj a')" "a \<notin> X" "\<not> permanent G (LObj a)" for a a'
      using contents_ok_mono [OF iso_obj [OF assms(1)] le map_le_refl refl] that by simp
  qed (use isoD [OF assms(1)] cell_ok_mono [OF _ le] in auto)
qed

text \<open>A permanent is registered with the object its key names.\<close>

lemma iso_register_permanent:
  assumes "iso G X Y \<rho> \<gamma> K" "\<rho> v = None" "permanent G v"
  shows "iso G X Y (\<rho>(v \<mapsto> restored G v)) \<gamma> K"
proof -
  note le = upd_le [of \<rho> v "restored G v", OF assms(2)]
  obtain b where b: "restored G v = LObj b" "b < g_B G" using perm_restored [OF iso_perms [OF assms(1)] assms(3)] .
  have v: "\<exists>a. v = LObj a" using iso_perms [OF assms(1)] assms(3) unfolding perms_ok_def by blast
  have fresh: "\<rho> w \<noteq> Some (restored G v)" for w
  proof
    assume w: "\<rho> w = Some (restored G v)"
    show False
    proof (cases rule: idrel_obj [OF iso_id [OF assms(1) w, unfolded b(1)]])
      case (1 a)
      then have "w = v" using iso_perms [OF assms(1)] assms(3) b(1) unfolding perms_ok_def by metis
      then show False using w assms(2) by simp
    next
      case (2 a x x')
      then show False using b(2) by simp
    qed
  qed
  have id: "idrel G K v (restored G v)" using v assms(3) by (auto simp: idrel_def)
  show ?thesis
  proof (rule isoI)
    show "idrel G K w v'" if "(\<rho>(v \<mapsto> restored G v)) w = Some v'" for w v'
      using that iso_id [OF assms(1)] id by (auto split: if_splits)
    show "u = w" if "(\<rho>(v \<mapsto> restored G v)) u = Some v'" "(\<rho>(v \<mapsto> restored G v)) w = Some v'" for u w v'
      using that iso_inj [OF assms(1)] fresh by (auto split: if_splits)
    show "contents_ok G (\<rho>(v \<mapsto> restored G v)) \<gamma> K a a'"
      if "(\<rho>(v \<mapsto> restored G v)) (LObj a) = Some (LObj a')" "a \<notin> X" "\<not> permanent G (LObj a)" for a a'
      using that assms(3) contents_ok_mono [OF iso_obj [OF assms(1)] le map_le_refl refl] by (auto split: if_splits)
  qed (use isoD [OF assms(1)] cell_ok_mono [OF _ le] in auto)
qed

text \<open>A new object takes the next address, and is under construction.\<close>

lemma iso_register_object:
  assumes "iso G X Y \<rho> \<gamma> K" "\<rho> (LObj a) = None" "\<not> permanent G (LObj a)"
    and "h_obj (g_H G) a = Some x" "skind x x'"
    and K': "h_obj K' = (h_obj K)(h_next K \<mapsto> x')" "h_next K' = h_next K + 1"
      "h_cnext K \<le> h_cnext K'" "\<forall>c < h_cnext K. h_cell K' c = h_cell K c"
  shows "iso G (insert a X) Y (\<rho>(LObj a \<mapsto> LObj (h_next K))) \<gamma> K'"
proof -
  let ?\<rho> = "\<rho>(LObj a \<mapsto> LObj (h_next K))"
  note le = upd_le [of \<rho> "LObj a" "LObj (h_next K)", OF assms(2)]
  have fresh: "\<rho> w \<noteq> Some (LObj (h_next K))" for w using iso_range [OF assms(1)] by blast
  have up: "\<exists>y. h_obj K' b = Some y \<and> (\<forall>z. skind z x \<longrightarrow> skind z y)" if "h_obj K b = Some x" for b x
    using that iso_free [OF assms(1), of b] K'(1) by auto
  have same: "h_obj K' b = h_obj K b" if "b \<noteq> h_next K" for b using that K'(1) by simp
  show ?thesis
  proof (rule isoI)
    show "idrel G K' v v'" if "?\<rho> v = Some v'" for v v'
      using that assms(3,4,5) K'(1) iso_base [OF assms(1)] idrel_upd [OF iso_id [OF assms(1)] up]
      by (auto simp: idrel_def [of _ _ "LObj a"] split: if_splits)
    show "v = w" if "?\<rho> v = Some v'" "?\<rho> w = Some v'" for v w v'
      using that iso_inj [OF assms(1)] fresh by (auto split: if_splits)
    show "contents_ok G ?\<rho> \<gamma> K' b b'" if "?\<rho> (LObj b) = Some (LObj b')" "b \<notin> insert a X" "\<not> permanent G (LObj b)" for b b'
      using that fresh same contents_ok_mono [OF iso_obj [OF assms(1)] le map_le_refl same] by (auto split: if_splits)
    show "cell_ok G ?\<rho> K' c c'" if "\<gamma> c = Some c'" "c \<notin> Y" for c c'
      using cell_ok_mono [OF iso_cell [OF assms(1) that] le] K'(4) iso_cnext [OF assms(1) that(1)]
      unfolding cell_ok_def by simp
    show "perms_ok G K'" using perms_ok_upd [OF iso_perms [OF assms(1)]] same iso_base [OF assms(1)] by simp
    show "c' < h_cnext K'" if "\<gamma> c = Some c'" for c c' using iso_cnext [OF assms(1) that] K'(3) by simp
    show "h_obj K' b = None" if "h_next K' \<le> b" for b using iso_free [OF assms(1), of b] that K'(1,2) by simp
  qed (use iso_cinj [OF assms(1)] iso_base [OF assms(1)] K'(2) in auto)
qed

text \<open>An object under construction may change within its kind; when it is complete it leaves the set.\<close>

lemma iso_change:
  assumes "iso G X Y \<rho> \<gamma> K" "a \<in> X" "\<rho> (LObj a) = Some (LObj a')" "\<not> permanent G (LObj a)"
    and "h_obj K a' = Some x" "\<And>z. skind z x \<Longrightarrow> skind z x'"
  shows "iso G X Y \<rho> \<gamma> (K\<lparr>h_obj := (h_obj K)(a' \<mapsto> x')\<rparr>)" (is "iso G X Y \<rho> \<gamma> ?K")
proof -
  have base: "g_B G \<le> a'"
    by (cases rule: idrel_obj [OF iso_id [OF assms(1,3)]]) (use assms(4) in auto)
  have other: "b' \<noteq> a'" if "\<rho> (LObj b) = Some (LObj b')" "b \<notin> X" for b b'
    using that iso_inj [OF assms(1,3)] assms(2) by blast
  show ?thesis
  proof (rule isoI)
    show "idrel G ?K v v'" if "\<rho> v = Some v'" for v v'
      using iso_id [OF assms(1) that] by (rule idrel_upd) (use assms(5,6) in auto)
    show "contents_ok G \<rho> \<gamma> ?K b b'" if "\<rho> (LObj b) = Some (LObj b')" "b \<notin> X" "\<not> permanent G (LObj b)" for b b'
      using iso_obj [OF assms(1) that] other [OF that(1,2)] unfolding contents_ok_def by simp
    show "perms_ok G ?K" using iso_perms [OF assms(1)] by (rule perms_ok_upd) (use base in simp)
    show "h_obj ?K b = None" if "h_next ?K \<le> b" for b
      using that iso_free [OF assms(1), of b] assms(5) by auto
  qed (use isoD [OF assms(1)] in \<open>auto simp: cell_ok_def\<close>)
qed

lemma iso_finish:
  assumes "iso G (insert a X) Y \<rho> \<gamma> K" "\<rho> (LObj a) = Some (LObj a')" "contents_ok G \<rho> \<gamma> K a a'"
  shows "iso G X Y \<rho> \<gamma> K"
proof (rule isoI)
  show "contents_ok G \<rho> \<gamma> K b b'" if "\<rho> (LObj b) = Some (LObj b')" "b \<notin> X" "\<not> permanent G (LObj b)" for b b'
    using that assms(2,3) iso_obj [OF assms(1)] by (cases "b = a") auto
qed (use isoD [OF assms(1)] in \<open>blast+\<close>)

lemma iso_new_cell:
  assumes "iso G X Y \<rho> \<gamma> K" "\<gamma> c = None" "c' < h_cnext K" "c' \<notin> ran \<gamma>"
  shows "iso G X (insert c Y) \<rho> (\<gamma>(c \<mapsto> c')) K"
proof -
  note le = upd_le [of \<gamma> c c', OF assms(2)]
  show ?thesis
  proof (rule isoI)
    show "contents_ok G \<rho> (\<gamma>(c \<mapsto> c')) K a a'" if "\<rho> (LObj a) = Some (LObj a')" "a \<notin> X" "\<not> permanent G (LObj a)" for a a'
      using contents_ok_mono [OF iso_obj [OF assms(1) that] map_le_refl le refl] .
    show "d = e" if "(\<gamma>(c \<mapsto> c')) d = Some d'" "(\<gamma>(c \<mapsto> c')) e = Some d'" for d e d'
      using that iso_cinj [OF assms(1)] assms(4) by (auto simp: ran_def split: if_splits)
    show "d' < h_cnext K" if "(\<gamma>(c \<mapsto> c')) d = Some d'" for d d'
      using that iso_cnext [OF assms(1)] assms(3) by (auto split: if_splits)
  qed (use isoD [OF assms(1)] in auto)
qed


lemma iso_set_cell:
  assumes "iso G X (insert c Y) \<rho> \<gamma> K" "\<gamma> c = Some c'" "h_cell (g_H G) c = Some (UClosed v)" "vrel \<rho> v v'"
  shows "iso G X Y \<rho> \<gamma> (K\<lparr>h_cell := (h_cell K)(c' \<mapsto> UClosed v')\<rparr>)" (is "iso G X Y \<rho> \<gamma> ?K")
proof (rule isoI)
  show "cell_ok G \<rho> ?K d d'" if "\<gamma> d = Some d'" "d \<notin> Y" for d d'
  proof (cases "d = c")
    case True
    then show ?thesis using that assms(2-4) unfolding cell_ok_def by simp
  next
    case False
    then have "d' \<noteq> c'" using iso_cinj [OF assms(1) assms(2), of d] that by blast
    then show ?thesis using iso_cell [OF assms(1) that(1)] that(2) False unfolding cell_ok_def by simp
  qed
  show "perms_ok G ?K" using iso_perms [OF assms(1)] by (rule perms_ok_upd) simp
  show "idrel G ?K v v'" if "\<rho> v = Some v'" for v v' using iso_id [OF assms(1) that] by (rule idrel_upd) auto
  show "contents_ok G \<rho> \<gamma> ?K a a'" if "\<rho> (LObj a) = Some (LObj a')" "a \<notin> X" "\<not> permanent G (LObj a)" for a a'
    using iso_obj [OF assms(1) that] unfolding contents_ok_def by simp
  show "u = w" if "\<rho> u = Some v'" "\<rho> w = Some v'" for u w v' using iso_inj [OF assms(1) that] .
  show "d = e" if "\<gamma> d = Some d'" "\<gamma> e = Some d'" for d e d' using iso_cinj [OF assms(1) that] .
  show "d' < h_cnext ?K" if "\<gamma> d = Some d'" for d d' using iso_cnext [OF assms(1) that] by simp
qed (use iso_base [OF assms(1)] iso_free [OF assms(1)] in simp_all)

text \<open>Values that correspond are equal on one side when they are on the other.\<close>

lemma ref_kind:
  assumes "iso G X Y \<rho> \<gamma> K" "\<rho> v = Some v'"
  shows "(\<exists>a. v' = LObj a) \<or> (\<exists>s. v' = LStr s)"
  using iso_id [OF assms] perm_restored [OF iso_perms [OF assms(1)], of v]
  by (cases v) (auto simp: idrel_def split: if_splits)

lemma vrel_cases:
  assumes "vrel \<rho> v v'" "key_ok v \<or> v = LNil"
  obtains "v = v'" "v' = LNil \<or> (\<exists>b. v' = LBool b) \<or> (\<exists>n. v' = LNum n)" | "\<rho> v = Some v'"
  using assms by (cases v) (auto simp: vrel_def num_same_def key_ok_def)

text \<open>Two keys that become one are one: no key is a NaN.\<close>

lemma vrel_inj:
  assumes "iso G X Y \<rho> \<gamma> K" "vrel \<rho> v v'" "vrel \<rho> w v'" "key_ok v" "key_ok w"
  shows "v = w"
  using assms(2) disjI1 [OF assms(4)]
proof (cases rule: vrel_cases)
  case 1
  from assms(3) disjI1 [OF assms(5)] show ?thesis by (cases rule: vrel_cases) (use 1 ref_kind [OF assms(1), of w v'] in auto)
next
  case 2
  from assms(3) disjI1 [OF assms(5)] show ?thesis
    by (cases rule: vrel_cases) (use ref_kind [OF assms(1) 2] iso_inj [OF assms(1) 2] in auto)
qed

text \<open>The pairs written so far, when the VM places one more.\<close>

lemma pairs_rel_keys:
  assumes "pairs_rel \<rho> ps qs" "k' \<in> fst ` set qs"
  obtains k where "k \<in> fst ` set ps" "vrel \<rho> k k'"
proof -
  obtain rs where rs: "mset rs = mset qs" "list_all2 (pairrel \<rho>) ps rs" using assms(1) by (auto simp: pairs_rel_def)
  have "k' \<in> fst ` set rs" using assms(2) mset_eq_setD [OF rs(1)] by simp
  then obtain j where "j < length rs" "fst (rs ! j) = k'" by (auto simp: in_set_conv_nth)
  then have "j < length ps" "vrel \<rho> (fst (ps ! j)) k'"
    using rs(2) by (auto simp: list_all2_conv_all_nth pairrel_def rel_prod_sel)
  then show ?thesis using that by (metis image_eqI nth_mem)
qed

lemma pairs_rel_Nil [simp]: "pairs_rel \<rho> [] qs \<longleftrightarrow> qs = []"
  by (auto simp: pairs_rel_def)

lemma pairs_rel_add:
  assumes "pairs_rel \<rho> ps qs" "pairrel \<rho> p q" "mset qs' = mset (qs @ [q])"
  shows "pairs_rel \<rho> (ps @ [p]) qs'"
proof -
  obtain rs where rs: "mset rs = mset qs" "list_all2 (pairrel \<rho>) ps rs" using assms(1) by (auto simp: pairs_rel_def)
  have "mset (rs @ [q]) = mset qs'" "list_all2 (pairrel \<rho>) (ps @ [p]) (rs @ [q])"
    using rs assms(2,3) by (simp_all add: list_all2_appendI)
  then show ?thesis unfolding pairs_rel_def by blast
qed

section \<open>The two states\<close>

text \<open>The maps the states hold: an identity on one side is looked up on the other.\<close>

definition ucell :: "ust \<Rightarrow> nat \<Rightarrow> addr option" where
  "ucell U i = Option.bind (u_upv U i) (\<lambda>(a, n). closure_cell (u_heap U) a n)"

definition vm :: "pst \<Rightarrow> ust \<Rightarrow> vmap" where
  "vm P U v = Option.bind (p_ref P v) (u_ref U)"

definition cm :: "pst \<Rightarrow> ust \<Rightarrow> cmap" where
  "cm P U c = Option.bind (p_upv P c) (ucell U)"

text \<open>The states correspond: \<open>X\<close> and \<open>Y\<close> as in \<open>iso\<close>, \<open>Z\<close> the values whose identity is reserved while what
  it stands for is not known yet.\<close>

definition refs_ok :: "lval set \<Rightarrow> pst \<Rightarrow> ust \<Rightarrow> bool" where
  "refs_ok Z P U =
     (u_refcount U = p_refcount P \<and> int (p_refcount P) \<le> ERIS_LJ_MAXREF
      \<and> (\<forall>v i. p_ref P v = Some i \<longrightarrow> 1 \<le> i \<and> i \<le> p_refcount P \<and> (u_ref U i = None \<longleftrightarrow> v \<in> Z))
      \<and> (\<forall>v w i. p_ref P v = Some i \<longrightarrow> p_ref P w = Some i \<longrightarrow> v = w)
      \<and> (\<forall>i > u_refcount U. u_ref U i = None))"

definition upvs_ok :: "pst \<Rightarrow> ust \<Rightarrow> bool" where
  "upvs_ok P U =
     (u_upvcount U = p_upvcount P \<and> int (p_upvcount P) \<le> ERIS_LJ_MAXREF
      \<and> (\<forall>c i. p_upv P c = Some i \<longrightarrow> 1 \<le> i \<and> i \<le> p_upvcount P \<and> ucell U i \<noteq> None)
      \<and> (\<forall>c d i. p_upv P c = Some i \<longrightarrow> p_upv P d = Some i \<longrightarrow> c = d)
      \<and> (\<forall>i a n. u_upv U i = Some (a, n) \<longrightarrow> i \<le> u_upvcount U \<and> a < h_next (u_heap U)))"

definition sync :: "world \<Rightarrow> addr set \<Rightarrow> addr set \<Rightarrow> lval set \<Rightarrow> pst \<Rightarrow> ust \<Rightarrow> bool" where
  "sync G X Y Z P U =
     (p_heap P = g_H G \<and> p_pending P = [] \<and> u_fill U = [] \<and> refs_ok Z P U \<and> upvs_ok P U
      \<and> iso G X Y (vm P U) (cm P U) (u_heap U))"

text \<open>What a call leaves as it was.\<close>

definition keeps :: "ust \<Rightarrow> ust \<Rightarrow> bool" where
  "keeps U U' =
     (h_next (u_heap U) \<le> h_next (u_heap U') \<and> h_cnext (u_heap U) \<le> h_cnext (u_heap U')
      \<and> (\<forall>a < h_next (u_heap U). h_obj (u_heap U') a = h_obj (u_heap U) a)
      \<and> (\<forall>c < h_cnext (u_heap U). h_cell (u_heap U') c = h_cell (u_heap U) c)
      \<and> (\<forall>i a n. u_upv U' i = Some (a, n) \<longrightarrow> u_upv U i = Some (a, n) \<or> h_next (u_heap U) \<le> a))"

definition ext :: "pst \<Rightarrow> ust \<Rightarrow> pst \<Rightarrow> ust \<Rightarrow> bool" where
  "ext P U P' U' =
     (p_ref P \<subseteq>\<^sub>m p_ref P' \<and> vm P U \<subseteq>\<^sub>m vm P' U' \<and> cm P U \<subseteq>\<^sub>m cm P' U' \<and> keeps U U'
      \<and> (\<forall>c c'. cm P' U' c = Some c' \<longrightarrow> cm P U c = Some c' \<or> h_cnext (u_heap U) \<le> c'))"

lemma ucell_simps [simp]:
  "ucell (U\<lparr>u_in := i\<rparr>) = ucell U" "ucell (U\<lparr>u_list := l\<rparr>) = ucell U" "ucell (U\<lparr>u_ref := r\<rparr>) = ucell U"
  "ucell (U\<lparr>u_refcount := k\<rparr>) = ucell U" "ucell (U\<lparr>u_upvcount := k\<rparr>) = ucell U"
  by (simp_all add: ucell_def fun_eq_iff)

lemma state_simps [simp]:
  "vm (P\<lparr>p_w := w\<rparr>) U = vm P U" "vm P (U\<lparr>u_in := i\<rparr>) = vm P U"
  "cm (P\<lparr>p_w := w\<rparr>) U = cm P U" "cm P (U\<lparr>u_in := i\<rparr>) = cm P U"
  "vm (P\<lparr>p_curid := k\<rparr>) U = vm P U" "cm (P\<lparr>p_curid := k\<rparr>) U = cm P U"
  "vm P (U\<lparr>u_heap := K\<rparr>) = vm P U" "vm P (U\<lparr>u_list := l\<rparr>) = vm P U" "cm P (U\<lparr>u_list := l\<rparr>) = cm P U"
  by (simp_all add: vm_def cm_def ucell_def fun_eq_iff)

lemma sync_simps [simp]:
  "sync G X Y Z (P\<lparr>p_w := w\<rparr>) U = sync G X Y Z P U" "sync G X Y Z P (U\<lparr>u_in := i\<rparr>) = sync G X Y Z P U"
  "sync G X Y Z P (U\<lparr>u_list := l\<rparr>) = sync G X Y Z P U"
  by (simp_all add: sync_def refs_ok_def upvs_ok_def)

lemma ext_simps [simp]:
  "ext (P\<lparr>p_w := w\<rparr>) U P' U' = ext P U P' U'" "ext P (U\<lparr>u_in := i\<rparr>) P' U' = ext P U P' U'"
  "ext P U (P'\<lparr>p_w := w\<rparr>) U' = ext P U P' U'" "ext P U P' (U'\<lparr>u_in := i\<rparr>) = ext P U P' U'"
  "ext P U P' (U'\<lparr>u_list := l\<rparr>) = ext P U P' U'" "ext P U P U"
  by (simp_all add: ext_def keeps_def)

lemma keeps_trans: "keeps U U' \<Longrightarrow> keeps U' U'' \<Longrightarrow> keeps U U''"
  unfolding keeps_def by (auto, (meson le_trans less_le_trans)+)

lemma extD:
  assumes "ext P U P' U'"
  shows ext_ref: "p_ref P \<subseteq>\<^sub>m p_ref P'" and ext_vm: "vm P U \<subseteq>\<^sub>m vm P' U'" and ext_cm: "cm P U \<subseteq>\<^sub>m cm P' U'"
    and ext_keeps: "keeps U U'"
    and ext_cell: "cm P' U' c = Some c' \<Longrightarrow> cm P U c = Some c' \<or> h_cnext (u_heap U) \<le> c'"
  using assms unfolding ext_def by blast+

lemma keepsD:
  assumes "keeps U U'"
  shows keeps_next: "h_next (u_heap U) \<le> h_next (u_heap U')" and keeps_cnext: "h_cnext (u_heap U) \<le> h_cnext (u_heap U')"
    and keeps_obj: "a < h_next (u_heap U) \<Longrightarrow> h_obj (u_heap U') a = h_obj (u_heap U) a"
    and keeps_cell: "c < h_cnext (u_heap U) \<Longrightarrow> h_cell (u_heap U') c = h_cell (u_heap U) c"
    and keeps_upv: "u_upv U' i = Some (a, n) \<Longrightarrow> u_upv U i = Some (a, n) \<or> h_next (u_heap U) \<le> a"
  using assms unfolding keeps_def by blast+

lemma ext_trans:
  assumes "ext P U P' U'" "ext P' U' P'' U''"
  shows "ext P U P'' U''"
  unfolding ext_def
proof (intro conjI allI impI)
  show "cm P U c = Some c' \<or> h_cnext (u_heap U) \<le> c'" if "cm P'' U'' c = Some c'" for c c'
    using ext_cell [OF assms(2) that] ext_cell [OF assms(1), of c c'] keeps_cnext [OF ext_keeps [OF assms(1)]] by auto
qed (rule map_le_trans keeps_trans, rule extD [OF assms(1)], rule extD [OF assms(2)])+

lemma ext_vrel: "vrel (vm P U) v v' \<Longrightarrow> ext P U P' U' \<Longrightarrow> vrel (vm P' U') v v'"
  by (simp add: ext_def vrel_mono)

text \<open>Reading \<open>bs\<close> takes the reader from \<open>U\<close> to \<open>U'\<close> with the result \<open>x\<close>, whatever follows.\<close>

definition reads :: "(ust \<Rightarrow> eris_err + 'a \<times> ust) \<Rightarrow> ust \<Rightarrow> byte list \<Rightarrow> 'a \<Rightarrow> ust \<Rightarrow> bool" where
  "reads u U bs x U' = (\<forall>rest. u (U\<lparr>u_in := bs @ rest\<rparr>) = Inr (x, U'\<lparr>u_in := rest\<rparr>))"

definition emits :: "pst \<Rightarrow> byte list \<Rightarrow> pst \<Rightarrow> bool" where
  "emits P bs P' = (w_out (p_w P') = w_out (p_w P) @ bs)"

lemma emits_trans [trans]: "emits P bs P' \<Longrightarrow> emits P' cs P'' \<Longrightarrow> emits P (bs @ cs) P''"
  by (simp add: emits_def)

lemma reads_ur: "(\<And>rest. f (bs @ rest) = Inr (x, rest)) \<Longrightarrow> reads (ur f) U bs x U"
  by (simp add: reads_def ur_def)

lemma pw_Inr: "pw f P = Inr P' \<Longrightarrow> \<exists>w. f (p_w P) = Inr w \<and> P' = P\<lparr>p_w := w\<rparr>"
  by (auto simp: pw_def ebind_eq_Inr)

lemma pbyte_D: "pbyte E b P = Inr P' \<Longrightarrow> \<exists>w. P' = P\<lparr>p_w := w\<rparr> \<and> emits P [b] P'"
  by (drule pw_Inr) (auto simp: emits_def wrote_def dest!: w_byte_wrote)

lemma puleb_D: "puleb E n P = Inr P' \<Longrightarrow> \<exists>w. P' = P\<lparr>p_w := w\<rparr> \<and> emits P (uleb_bytes (word_of_nat n)) P'"
  by (drule pw_Inr) (auto simp: emits_def wrote_def dest!: w_uleb_wrote)

lemma ur_byte [simp]: "ur r_byte (U\<lparr>u_in := b # rest\<rparr>) = Inr (b, U\<lparr>u_in := rest\<rparr>)"
  by (simp add: ur_def)

lemma ur_uleb [simp]: "ur r_uleb (U\<lparr>u_in := uleb_bytes v @ rest\<rparr>) = Inr (v, U\<lparr>u_in := rest\<rparr>)"
  by (simp add: ur_def r_uleb_uleb)

end
