(* ===== verification/ErisRound.thy ===== *)
theory ErisRound
  imports ErisIso
begin

text \<open>
  serializer/eris_lj.c, what the primitive steps of persisting and restoring do to the correspondence of the
  two graphs: registering, allocating, joining upvalues; the records of scalars, strings, references,
  permanents.
\<close>

section \<open>What the steps of both sides do to the relation\<close>

definition preg :: "lval \<Rightarrow> pst \<Rightarrow> pst" where
  "preg v P = P\<lparr>p_refcount := p_refcount P + 1, p_curid := p_refcount P + 1, p_ref := (p_ref P)(v \<mapsto> p_refcount P + 1)\<rparr>"

definition ureg :: "lval \<Rightarrow> ust \<Rightarrow> ust" where
  "ureg x U = U\<lparr>u_refcount := u_refcount U + 1, u_ref := (u_ref U)(u_refcount U + 1 \<mapsto> x)\<rparr>"

lemma registerobject_eq: "int (u_refcount U) < ERIS_LJ_MAXREF \<Longrightarrow> registerobject x U = Inr (ureg x U)"
  by (simp add: registerobject_def u_newref_def ureg_def)

lemma vm_reg: "refs_ok Z P U \<Longrightarrow> vm (preg v P) (ureg x U) = (vm P U)(v \<mapsto> x)"
  unfolding vm_def preg_def ureg_def refs_ok_def
  by (rule ext) (auto simp: fun_eq_iff split: Option.bind_split, force)

lemma cm_reg [simp]: "cm (preg v P) (ureg x U) = cm P U"
  by (simp add: cm_def preg_def ureg_def fun_eq_iff)

lemma refsD:
  assumes "refs_ok Z P U"
  shows refs_count: "u_refcount U = p_refcount P" and refs_max: "int (p_refcount P) \<le> ERIS_LJ_MAXREF"
    and refs_range: "p_ref P v = Some i \<Longrightarrow> 1 \<le> i \<and> i \<le> p_refcount P"
    and refs_known: "p_ref P v = Some i \<Longrightarrow> u_ref U i = None \<longleftrightarrow> v \<in> Z"
    and refs_inj: "p_ref P v = Some i \<Longrightarrow> p_ref P w = Some i \<Longrightarrow> v = w"
    and refs_free: "p_refcount P < i \<Longrightarrow> u_ref U i = None"
    and refs_new: "p_ref P v \<noteq> Some (p_refcount P + 1)"
  using assms unfolding refs_ok_def by (blast, blast, blast, blast, blast, simp, fastforce)

lemma refs_reg:
  assumes "refs_ok Z P U" "p_ref P v = None" "int (p_refcount P) < ERIS_LJ_MAXREF" "v \<notin> Z"
  shows "refs_ok Z (preg v P) (ureg x U)"
  using assms(2-4) refsD [OF assms(1)] unfolding refs_ok_def
  by (auto simp: preg_def ureg_def le_SucI split: if_splits)

lemma upvs_reg [simp]: "upvs_ok (preg v P) (ureg x U) = upvs_ok P U"
  by (simp add: upvs_ok_def preg_def ureg_def)


lemma vm_None: "p_ref P v = None \<Longrightarrow> vm P U v = None"
  by (simp add: vm_def)

lemma vm_Some:
  assumes "refs_ok Z P U" "p_ref P v = Some rid" "v \<notin> Z"
  obtains v' where "vm P U v = Some v'" "u_ref U rid = Some v'"
  using assms by (fastforce simp: vm_def refs_ok_def)

lemma syncI:
  assumes "p_heap P = g_H G" "p_pending P = []" "u_fill U = []" "refs_ok Z P U" "upvs_ok P U"
    and "iso G X Y (vm P U) (cm P U) (u_heap U)"
  shows "sync G X Y Z P U"
  using assms by (simp add: sync_def)

lemma syncD:
  assumes "sync G X Y Z P U"
  shows sync_heap: "p_heap P = g_H G" and sync_pending: "p_pending P = []" and sync_fill: "u_fill U = []"
    and sync_refs: "refs_ok Z P U" and sync_upvs: "upvs_ok P U"
    and sync_iso: "iso G X Y (vm P U) (cm P U) (u_heap U)"
  using assms unfolding sync_def by blast+

lemma preg_simps [simp]:
  "p_heap (preg v P) = p_heap P" "p_pending (preg v P) = p_pending P" "p_w (preg v P) = p_w P"
  "p_upv (preg v P) = p_upv P" "p_upvcount (preg v P) = p_upvcount P" "p_refcount (preg v P) = p_refcount P + 1"
  "p_ref (preg v P) = (p_ref P)(v \<mapsto> p_refcount P + 1)"
  by (simp_all add: preg_def)

lemma ureg_simps [simp]:
  "u_fill (ureg x U) = u_fill U" "u_heap (ureg x U) = u_heap U" "u_upv (ureg x U) = u_upv U"
  "u_in (ureg x U) = u_in U" "u_upvcount (ureg x U) = u_upvcount U" "u_refcount (ureg x U) = u_refcount U + 1"
  "ureg x (U\<lparr>u_in := i\<rparr>) = (ureg x U)\<lparr>u_in := i\<rparr>"
  by (simp_all add: ureg_def)

lemma keeps_reg [simp]: "keeps U (ureg x U') = keeps U U'"
  by (simp add: keeps_def)

lemma sync_string:
  assumes "sync G X Y Z P U" "p_ref P (LStr s) = None" "int (p_refcount P) < ERIS_LJ_MAXREF" "LStr s \<notin> Z"
  shows "sync G X Y Z (preg (LStr s) P) (ureg (LStr s) U)" "ext P U (preg (LStr s) P) (ureg (LStr s) U)"
proof -
  note [simp] = vm_reg [OF sync_refs [OF assms(1)]]
  show "sync G X Y Z (preg (LStr s) P) (ureg (LStr s) U)"
    using syncD [OF assms(1)] refs_reg [OF sync_refs [OF assms(1)] assms(2,3,4)]
      iso_register_string [OF sync_iso [OF assms(1)] vm_None [OF assms(2)]]
    by (intro syncI) simp_all
  show "ext P U (preg (LStr s) P) (ureg (LStr s) U)"
    using upd_le [of "vm P U" "LStr s", OF vm_None [OF assms(2)]] upd_le [of "p_ref P" "LStr s", OF assms(2)]
    by (simp add: ext_def keeps_def)
qed

text \<open>A heap that differs only in what no registered upvalue is in.\<close>

definition cells_same :: "ust \<Rightarrow> heap \<Rightarrow> bool" where
  "cells_same U K =
     (h_next (u_heap U) \<le> h_next K
      \<and> (\<forall>i a n. u_upv U i = Some (a, n) \<longrightarrow> closure_cell K a n = closure_cell (u_heap U) a n))"

lemma ucell_heap: "cells_same U K \<Longrightarrow> ucell (U\<lparr>u_heap := K\<rparr>) = ucell U"
  unfolding cells_same_def ucell_def by (rule ext) (auto split: Option.bind_split)

lemma cm_heap: "cells_same U K \<Longrightarrow> cm P (U\<lparr>u_heap := K\<rparr>) = cm P U"
  by (simp add: cm_def ucell_heap fun_eq_iff)

lemma upvs_heap:
  assumes "upvs_ok P U" "cells_same U K"
  shows "upvs_ok P (U\<lparr>u_heap := K\<rparr>)"
  using assms unfolding upvs_ok_def ucell_heap [OF assms(2)] cells_same_def by (auto, meson less_le_trans)

lemma refs_heap [simp]: "refs_ok Z P (U\<lparr>u_heap := K\<rparr>) = refs_ok Z P U"
  by (simp add: refs_ok_def)

lemma cells_same_new:
  assumes "upvs_ok P U" "h_next (u_heap U) \<le> h_next K" "\<And>a. a < h_next (u_heap U) \<Longrightarrow> h_obj K a = h_obj (u_heap U) a"
  shows "cells_same U K"
proof -
  have "closure_cell K a n = closure_cell (u_heap U) a n" if "u_upv U i = Some (a, n)" for i a n
  proof -
    have "a < h_next (u_heap U)" using that assms(1) unfolding upvs_ok_def by blast
    then show ?thesis by (simp add: closure_cell_def assms(3))
  qed
  then show ?thesis using assms(2) unfolding cells_same_def by blast
qed

lemma sync_object:
  assumes "sync G X Y Z P U" "p_ref P (LObj a) = None" "int (p_refcount P) < ERIS_LJ_MAXREF" "\<not> permanent G (LObj a)"
    and "h_obj (g_H G) a = Some x" "skind x x'" "LObj a \<notin> Z"
    and K: "h_obj K = (h_obj (u_heap U))(h_next (u_heap U) \<mapsto> x')" "h_next K = h_next (u_heap U) + 1"
      "h_cnext (u_heap U) \<le> h_cnext K" "\<forall>c < h_cnext (u_heap U). h_cell K c = h_cell (u_heap U) c"
  defines "P' \<equiv> preg (LObj a) P" and "U' \<equiv> ureg (LObj (h_next (u_heap U))) (U\<lparr>u_heap := K\<rparr>)"
  shows "sync G (insert a X) Y Z P' U'" "ext P U P' U'" "vm P' U' (LObj a) = Some (LObj (h_next (u_heap U)))"
proof -
  have same: "cells_same U K" using K by (intro cells_same_new [OF sync_upvs [OF assms(1)]]) simp_all
  have refs: "refs_ok Z P (U\<lparr>u_heap := K\<rparr>)" using sync_refs [OF assms(1)] by simp
  note vm = vm_reg [OF refs]
  show "sync G (insert a X) Y Z P' U'"
    unfolding P'_def U'_def
    using syncD [OF assms(1)] refs_reg [OF refs assms(2,3,7)] upvs_heap [OF sync_upvs [OF assms(1)] same]
      iso_register_object [OF sync_iso [OF assms(1)] vm_None [OF assms(2)] assms(4-6) K]
    by (intro syncI) (simp_all add: vm cm_heap [OF same])
  show "ext P U P' U'"
    unfolding P'_def U'_def ext_def
    using upd_le [of "vm P U" "LObj a", OF vm_None [OF assms(2)]] upd_le [of "p_ref P" "LObj a", OF assms(2)] K
    by (simp add: vm cm_heap [OF same] keeps_def)
  show "vm P' U' (LObj a) = Some (LObj (h_next (u_heap U)))" by (simp add: P'_def U'_def vm)
qed

text \<open>Changing the contents of an object under construction.\<close>

abbreviation set_obj :: "addr \<Rightarrow> lobj \<Rightarrow> ust \<Rightarrow> ust" where
  "set_obj a x U \<equiv> U\<lparr>u_heap := (u_heap U)\<lparr>h_obj := (h_obj (u_heap U))(a \<mapsto> x)\<rparr>\<rparr>"

lemma kind_tab: "\<forall>z. skind z (OTab ps mt) \<longrightarrow> skind z (OTab qs mt')"
  by (auto elim: skind.elims)

lemma kind_fun: "\<forall>z. skind z (OFun p us e) \<longrightarrow> skind z (OFun q vs e')"
  by (auto elim: skind.elims)

lemma sync_change:
  assumes "sync G X Y Z P U" "a \<in> X" "vm P U (LObj a) = Some (LObj a')" "\<not> permanent G (LObj a)"
    and "h_obj (u_heap U) a' = Some x" "\<forall>z. skind z x \<longrightarrow> skind z x'"
    and "cells_same U ((u_heap U)\<lparr>h_obj := (h_obj (u_heap U))(a' \<mapsto> x')\<rparr>)"
  shows "sync G X Y Z P (set_obj a' x' U)" "cm P (set_obj a' x' U) = cm P U"
    "ext P0 U0 P U \<Longrightarrow> h_next (u_heap U0) \<le> a' \<Longrightarrow> ext P0 U0 P (set_obj a' x' U)"
proof -
  note cm = cm_heap [OF assms(7)]
  show "sync G X Y Z P (set_obj a' x' U)"
    using syncD [OF assms(1)] iso_change [OF sync_iso [OF assms(1)] assms(2-5), of x'] assms(6) upvs_heap [OF sync_upvs [OF assms(1)] assms(7)]
    by (intro syncI) (simp_all add: cm)
  show "cm P (set_obj a' x' U) = cm P U" by (rule cm)
  show "ext P0 U0 P (set_obj a' x' U)" if "ext P0 U0 P U" "h_next (u_heap U0) \<le> a'"
    using that(1) that(2) unfolding ext_def keeps_def by (auto simp: cm)
qed

lemma sync_finish:
  assumes "sync G (insert a X) Y Z P U" "vm P U (LObj a) = Some (LObj a')"
    "contents_ok G (vm P U) (cm P U) (u_heap U) a a'"
  shows "sync G X Y Z P U"
  using assms iso_finish by (auto simp: sync_def)


text \<open>Upvalue cells: a new one, and the value of one.\<close>

definition pupv :: "addr \<Rightarrow> pst \<Rightarrow> pst" where
  "pupv c P = P\<lparr>p_upvcount := p_upvcount P + 1, p_upv := (p_upv P)(c \<mapsto> p_upvcount P + 1)\<rparr>"

definition uupv :: "addr \<Rightarrow> nat \<Rightarrow> ust \<Rightarrow> ust" where
  "uupv a i U = elj_note_referrer (u_upvcount U + 1) a i
     (U\<lparr>u_upvcount := u_upvcount U + 1, u_upv := (u_upv U)(u_upvcount U + 1 \<mapsto> (a, i))\<rparr>)"

lemma u_newupv_eq: "int (u_upvcount U) < ERIS_LJ_MAXREF \<Longrightarrow> u_newupv a i U = Inr (u_upvcount U + 1, uupv a i U)"
  by (simp add: u_newupv_def uupv_def)

lemma pupv_simps [simp]:
  "p_heap (pupv c P) = p_heap P" "p_pending (pupv c P) = p_pending P" "p_w (pupv c P) = p_w P" "p_ref (pupv c P) = p_ref P"
  "vm (pupv c P) U = vm P U" "refs_ok Z (pupv c P) U = refs_ok Z P U"
  by (simp_all add: pupv_def vm_def refs_ok_def fun_eq_iff)

lemma uupv_simps [simp]:
  "u_fill (uupv a i U) = u_fill U" "u_heap (uupv a i U) = u_heap U" "u_in (uupv a i U) = u_in U" "u_ref (uupv a i U) = u_ref U"
  "vm P (uupv a i U) = vm P U" "refs_ok Z P (uupv a i U) = refs_ok Z P U"
  "uupv a i (U\<lparr>u_in := x\<rparr>) = (uupv a i U)\<lparr>u_in := x\<rparr>"
  by (simp_all add: uupv_def elj_note_referrer_def vm_def refs_ok_def fun_eq_iff)

lemma ucell_new:
  "ucell (uupv a i U) j = (if j = u_upvcount U + 1 then closure_cell (u_heap U) a i else ucell U j)"
  by (simp add: ucell_def uupv_def elj_note_referrer_def)

lemma cm_new:
  assumes "upvs_ok P U" "closure_cell (u_heap U) a i = Some c'"
  shows "cm (pupv c P) (uupv a i U) = (cm P U)(c \<mapsto> c')"
proof
  fix d
  have le: "j \<le> u_upvcount U" if "p_upv P d = Some j" for j using assms(1) that unfolding upvs_ok_def by simp
  have n: "u_upvcount U = p_upvcount P" using assms(1) unfolding upvs_ok_def by simp
  show "cm (pupv c P) (uupv a i U) d = ((cm P U)(c \<mapsto> c')) d"
  proof (cases "d = c")
    case True
    then show ?thesis using assms(2) n by (simp add: cm_def pupv_def ucell_new)
  next
    case False
    then show ?thesis using le by (cases "p_upv P d") (auto simp: cm_def pupv_def ucell_new)
  qed
qed

lemma upvs_new:
  assumes "upvs_ok P U" "p_upv P c = None" "int (p_upvcount P) < ERIS_LJ_MAXREF"
    and "closure_cell (u_heap U) a i = Some c'" "a < h_next (u_heap U)"
  shows "upvs_ok (pupv c P) (uupv a i U)"
proof -
  have le: "j \<le> u_upvcount U" if "p_upv P d = Some j" for j d using assms(1) that unfolding upvs_ok_def by simp
  have ne: "p_upv P d \<noteq> Some (Suc (p_upvcount P))" for d using le [of d] assms(1) unfolding upvs_ok_def by fastforce
  have old: "i \<le> u_upvcount U \<and> b < h_next (u_heap U)" if "u_upv U i = Some (b, n)" for i b n
    using assms(1) that unfolding upvs_ok_def by blast
  have upv: "u_upv (uupv a i U) = (u_upv U)(u_upvcount U + 1 \<mapsto> (a, i))" "u_upvcount (uupv a i U) = u_upvcount U + 1"
    by (simp_all add: uupv_def elj_note_referrer_def)
  show ?thesis
    unfolding upvs_ok_def
  proof (intro conjI allI impI)
    fix d j
    assume d: "p_upv (pupv c P) d = Some j"
    then have "j = p_upvcount P + 1 \<or> p_upv P d = Some j" by (auto simp: pupv_def split: if_splits)
    then show "1 \<le> j" "j \<le> p_upvcount (pupv c P)" "ucell (uupv a i U) j \<noteq> None"
      using assms(1,4) le [of d j] unfolding upvs_ok_def by (auto simp: pupv_def ucell_new intro: le_SucI)
    fix e
    assume "p_upv (pupv c P) e = Some j"
    then show "d = e" using d ne assms(1) unfolding upvs_ok_def by (auto simp: pupv_def split: if_splits)
  next
    fix j b n
    assume "u_upv (uupv a i U) j = Some (b, n)"
    then show "j \<le> u_upvcount (uupv a i U)" "b < h_next (u_heap (uupv a i U))"
      using old [of j b n] assms(5) by (auto simp: upv split: if_splits)
  qed (use assms(1,3) in \<open>auto simp: upvs_ok_def upv pupv_def\<close>)
qed

lemma sync_newupv:
  assumes "sync G X Y Z P U" "p_upv P c = None" "int (p_upvcount P) < ERIS_LJ_MAXREF"
    and "closure_cell (u_heap U) a i = Some c'" "a < h_next (u_heap U)" "c' < h_cnext (u_heap U)" "c' \<notin> ran (cm P U)"
  shows "sync G X (insert c Y) Z (pupv c P) (uupv a i U)"
    "ext P0 U0 P U \<Longrightarrow> h_next (u_heap U0) \<le> a \<Longrightarrow> h_cnext (u_heap U0) \<le> c' \<Longrightarrow> ext P0 U0 (pupv c P) (uupv a i U)"
proof -
  note cm = cm_new [OF sync_upvs [OF assms(1)] assms(4)]
  have none: "cm P U c = None" using assms(2) by (simp add: cm_def)
  show "sync G X (insert c Y) Z (pupv c P) (uupv a i U)"
    using syncD [OF assms(1)] upvs_new [OF sync_upvs [OF assms(1)] assms(2-5)]
      iso_new_cell [OF sync_iso [OF assms(1)] none assms(6,7)]
    by (intro syncI) (simp_all add: cm)
  show "ext P0 U0 (pupv c P) (uupv a i U)" if "ext P0 U0 P U" "h_next (u_heap U0) \<le> a" "h_cnext (u_heap U0) \<le> c'"
    unfolding ext_def
  proof (intro conjI allI impI)
    show "keeps U0 (uupv a i U)"
      using ext_keeps [OF that(1)] that(2) unfolding keeps_def by (auto simp: uupv_def elj_note_referrer_def)
    show "cm P0 U0 \<subseteq>\<^sub>m cm (pupv c P) (uupv a i U)"
      using map_le_trans [OF ext_cm [OF that(1)] upd_le [of "cm P U" c, OF none]] by (simp add: cm)
    show "cm P0 U0 d = Some d' \<or> h_cnext (u_heap U0) \<le> d'" if "cm (pupv c P) (uupv a i U) d = Some d'" for d d'
      using that ext_cell [OF \<open>ext P0 U0 P U\<close>, of d d'] \<open>h_cnext (u_heap U0) \<le> c'\<close> by (auto simp: cm split: if_splits)
  qed (use extD [OF that(1)] in simp_all)
qed

abbreviation set_cell :: "addr \<Rightarrow> lval \<Rightarrow> ust \<Rightarrow> ust" where
  "set_cell c v U \<equiv> U\<lparr>u_heap := (u_heap U)\<lparr>h_cell := (h_cell (u_heap U))(c \<mapsto> UClosed v)\<rparr>\<rparr>"

lemma sync_setcell:
  assumes "sync G X (insert c Y) Z P U" "cm P U c = Some c'" "h_cell (g_H G) c = Some (UClosed v)" "vrel (vm P U) v v'"
  shows "sync G X Y Z P (set_cell c' v' U)" "cm P (set_cell c' v' U) = cm P U"
    "ext P0 U0 P U \<Longrightarrow> h_cnext (u_heap U0) \<le> c' \<Longrightarrow> ext P0 U0 P (set_cell c' v' U)"
proof -
  have same: "cells_same U ((u_heap U)\<lparr>h_cell := (h_cell (u_heap U))(c' \<mapsto> UClosed v')\<rparr>)"
    by (simp add: cells_same_def closure_cell_def)
  note cm = cm_heap [OF same]
  show "sync G X Y Z P (set_cell c' v' U)"
    using syncD [OF assms(1)] iso_set_cell [OF sync_iso [OF assms(1)] assms(2-4)] upvs_heap [OF sync_upvs [OF assms(1)] same]
    by (intro syncI) (simp_all add: cm)
  show "cm P (set_cell c' v' U) = cm P U" by (rule cm)
  show "ext P0 U0 P (set_cell c' v' U)" if "ext P0 U0 P U" "h_cnext (u_heap U0) \<le> c'"
    using that(1) that(2) unfolding ext_def keeps_def by (auto simp: cm)
qed

section \<open>Values that are not containers\<close>

lemma ext_refl: "ext P U P U"
  by simp

text \<open>Writing \<open>v\<close> from \<open>P\<close> to \<open>P'\<close> and reading it back from \<open>U\<close>.\<close>

definition steps :: "world \<Rightarrow> addr set \<Rightarrow> addr set \<Rightarrow> lval set \<Rightarrow> pst \<Rightarrow> ust \<Rightarrow> lval \<Rightarrow> pst \<Rightarrow> unpersister \<Rightarrow> bool" where
  "steps G X Y Z P U v P' u =
     (\<exists>bs v' U'. bs \<noteq> [] \<and> emits P bs P' \<and> reads u U bs v' U' \<and> sync G X Y Z P' U' \<and> ext P U P' U'
        \<and> vrel (vm P' U') v v')"

lemma stepsI:
  assumes "emits P bs P'" "bs \<noteq> []" "reads u U bs v' U'" "sync G X Y Z P' U'" "ext P U P' U'" "vrel (vm P' U') v v'"
  shows "steps G X Y Z P U v P' u"
  using assms unfolding steps_def by blast

definition paired :: "world \<Rightarrow> persister \<Rightarrow> unpersister \<Rightarrow> bool" where
  "paired G p u =
     (\<forall>X Y P U v P'. sync G X Y {} P U \<longrightarrow> val_ok v \<longrightarrow> p v P = Inr P' \<longrightarrow> steps G X Y {} P U v P' u)"

lemma byte_step:
  assumes "pbyte E b P = Inr P'" "sync G X Y Z P U" "reads u U [b] v' U" "vrel (vm P U) v v'"
  shows "steps G X Y Z P U v P' u"
proof -
  obtain w where "P' = P\<lparr>p_w := w\<rparr>" "emits P [b] P'" using pbyte_D [OF assms(1)] by blast
  then show ?thesis using assms(2-4) by (intro stepsI [of P "[b]" P']) simp_all
qed

lemma scalar_step:
  assumes "persist E (Suc r) v P = Inr P'" "sync G X Y Z P U" "v = LNil \<or> v = LBool b \<or> v = LNum n" "d_isnan (f_nan F)"
  shows "steps G X Y Z P U v P' (unpersist F (Suc r))"
proof (cases v)
  case LNil
  then show ?thesis using assms
    by (intro byte_step [of E TAG_NIL P P']) (simp_all add: reads_def tag_defs vrel_def)
next
  case (LBool b)
  then show ?thesis using assms
    by (intro byte_step [of E "if b then TAG_TRUE else TAG_FALSE" P P']) (simp_all add: reads_def tag_defs vrel_def)
next
  case (LNum n)
  then obtain w where w: "p_number (e_grow E) n (p_w P) = Inr w" "P' = P\<lparr>p_w := w\<rparr>"
    using assms(1) by (auto dest!: pw_Inr)
  have "emits P (num_record n) P'" using p_number_wrote [OF w(1)] w(2) by (simp add: emits_def wrote_def)
  moreover have "reads (unpersist F (Suc r)) U (num_record n) (LNum (pushed_num (f_nan F) n)) U"
    using int_path_exact [of n] int_path_num [of n]
    by (auto simp: reads_def num_record_def tag_defs u_int_def u_num_def pushed_num_def r_uleb_uleb r_u64le_u64le
        unzigzag_zigzag ur_def)
  moreover have "num_same n (pushed_num (f_nan F) n)" using assms(4) by (simp add: num_same_def pushed_num_def)
  ultimately show ?thesis using w(2) assms(2) LNum
    by (intro stepsI [of P "num_record n" P' _ U "LNum (pushed_num (f_nan F) n)" U]) (simp_all add: vrel_def, simp add: num_record_def)
qed (use assms(3) in auto)


text \<open>Anything already written is written as its identity, and read back as what stands for it.\<close>

lemma unat_small: "int n \<le> ERIS_LJ_MAXREF \<Longrightarrow> unat (word_of_nat n :: u64) = n"
  by (simp add: ERIS_LJ_MAXREF_def unat_of_nat take_bit_nat_eq_self)

lemma unat_small_0: "int n \<le> ERIS_LJ_MAXREF \<Longrightarrow> (word_of_nat n :: u64) = 0 \<longleftrightarrow> n = 0"
  using unat_small [of n] by (metis unat_0 unat_0_iff)

definition is_ref :: "lval \<Rightarrow> bool" where
  "is_ref v = (case v of LNil \<Rightarrow> False | LBool b \<Rightarrow> False | LNum n \<Rightarrow> False | _ \<Rightarrow> True)"

lemma vrel_ref: "is_ref v \<Longrightarrow> vrel \<rho> v v' \<longleftrightarrow> \<rho> v = Some v'"
  by (cases v) (auto simp: is_ref_def vrel_def)

lemma is_ref_simps [simp]: "is_ref (LStr s)" "is_ref (LObj a)" "is_ref (LLight p)"
  by (simp_all add: is_ref_def)

lemma persist_ref: "is_ref v \<Longrightarrow> persist E (Suc r) v = persist_keyed E (persist E r) v"
  by (cases v) (auto simp: is_ref_def fun_eq_iff)

lemma ref_step:
  assumes "sync G X Y Z P U" "is_ref v" "p_ref P v = Some rid" "v \<notin> Z" "persist E (Suc r) v P = Inr P'"
  shows "steps G X Y Z P U v P' (unpersist F (Suc r))"
proof -
  obtain v' where v': "vm P U v = Some v'" "u_ref U rid = Some v'" using vm_Some [OF sync_refs [OF assms(1)] assms(3,4)] .
  have rid: "1 \<le> rid" "rid \<le> u_refcount U" "int rid \<le> ERIS_LJ_MAXREF"
    using sync_refs [OF assms(1)] assms(3) unfolding refs_ok_def by (auto, force)
  obtain Q where Q: "pbyte E TAG_REF P = Inr Q" "puleb E rid Q = Inr P'"
    using assms(2,3,5) sync_pending [OF assms(1)] by (auto simp: persist_ref persist_keyed_def ebind_eq_Inr)
  obtain w w' where w: "Q = P\<lparr>p_w := w\<rparr>" "emits P [TAG_REF] Q" "P' = Q\<lparr>p_w := w'\<rparr>" "emits Q (uleb_bytes (word_of_nat rid)) P'"
    using pbyte_D [OF Q(1)] puleb_D [OF Q(2)] by blast
  have "reads (unpersist F (Suc r)) U ([TAG_REF] @ uleb_bytes (word_of_nat rid)) v' U"
    using rid v'(2) by (auto simp: reads_def tag_defs u_reference_def unat_small unat_small_0)
  from stepsI [OF emits_trans [OF w(2,4)] _ this]
  show ?thesis using w(1,3) assms(1,2) v'(1) by (simp add: vrel_ref)
qed

lemma permanent_obj: "iso G X Y \<rho> \<gamma> K \<Longrightarrow> permanent G v \<Longrightarrow> \<exists>a s. v = LObj a \<and> e_perms (g_E G) v = LStr s \<and> length s < 2 ^ 64"
  by (drule iso_perms) (simp add: perms_ok_def)

lemma newref_D: "p_newref P = Inr (rid, Q) \<Longrightarrow>
    rid = p_refcount P + 1 \<and> Q = P\<lparr>p_refcount := rid\<rparr> \<and> int (p_refcount P) < ERIS_LJ_MAXREF"
  by (auto simp: p_newref_def split: if_splits)

lemma keyed_new:
  assumes "persist E (Suc r) v P = Inr P'" "is_ref v" "p_ref P v = None"
  shows "int (p_refcount P) < ERIS_LJ_MAXREF"
    and "e_perms E v = LNil \<Longrightarrow> persist_typed E (persist E r) v (preg v P) = Inr P'"
    and "e_perms E v \<noteq> LNil \<Longrightarrow>
      ebind (pbyte E TAG_PERMANENT (preg v P)) (\<lambda>st.
        ebind (pbyte E (word_of_int (lua_type (p_heap st) v)) st) (persist E r (e_perms E v))) = Inr P'"
  using assms
  by (auto simp: persist_ref persist_keyed_def ebind_eq_Inr preg_def Let_def dest!: newref_D split: prod.splits)

lemma ur_raw [simp]: "length p = n \<Longrightarrow> ur (r_raw n) (U\<lparr>u_in := p @ rest\<rparr>) = Inr (p, U\<lparr>u_in := rest\<rparr>)"
  by (auto simp: ur_def r_raw_def r_need_def)

lemma ur_u32le [simp]: "ur r_u32le (U\<lparr>u_in := u32le_bytes v @ rest\<rparr>) = Inr (v, U\<lparr>u_in := rest\<rparr>)"
  by (simp add: ur_def r_u32le_u32le)

lemma string_step:
  assumes "sync (G :: world) X Y Z P U" "LStr s \<notin> Z" "length s < 2 ^ 64" "persist (g_E G) (Suc r) (LStr s) P = Inr P'"
  shows "steps G X Y Z P U (LStr s) P' (unpersist F (Suc r))"
proof (cases "p_ref P (LStr s)")
  case (Some rid)
  then show ?thesis using ref_step [OF assms(1) _ Some assms(2,4)] by simp
next
  case None
  let ?E = "g_E G" and ?P = "preg (LStr s) P" and ?U = "ureg (LStr s) U"
  note new = keyed_new [OF assms(4) _ None]
  have perm: "e_perms ?E (LStr s) = LNil" using permanent_obj [OF sync_iso [OF assms(1)], of "LStr s"] by blast
  obtain Q R where q: "pbyte ?E TAG_STR ?P = Inr Q" "puleb ?E (length s) Q = Inr R" "pw (w_raw (e_grow ?E) s) R = Inr P'"
    using new(2) perm by (auto simp: persist_typed_def p_string_def ebind_eq_Inr)
  obtain w1 w2 where w: "Q = ?P\<lparr>p_w := w1\<rparr>" "emits ?P [TAG_STR] Q" "R = Q\<lparr>p_w := w2\<rparr>"
      "emits Q (uleb_bytes (word_of_nat (length s))) R"
    using pbyte_D [OF q(1)] puleb_D [OF q(2)] by blast
  obtain w3 where w3: "P' = R\<lparr>p_w := w3\<rparr>" "emits R s P'"
    using pw_Inr [OF q(3)] by (auto simp: emits_def wrote_def dest!: w_raw_wrote)
  have lt: "int (u_refcount U) < ERIS_LJ_MAXREF" using new(1) sync_refs [OF assms(1)] by (simp add: refs_ok_def)
  have len: "unat (word_of_nat (length s) :: u64) = length s" using assms(3) by (simp add: unat_of_nat take_bit_nat_eq_self)
  have "reads (unpersist F (Suc r)) U ([TAG_STR] @ uleb_bytes (word_of_nat (length s)) @ s) (LStr s) ?U"
    using lt len by (simp add: reads_def tag_defs u_string_def registerobject_eq)
  moreover have "emits P ([TAG_STR] @ uleb_bytes (word_of_nat (length s)) @ s) P'"
    using w w3 by (simp add: emits_def)
  ultimately show ?thesis
    using sync_string [OF assms(1) None new(1) assms(2)] w w3 vm_reg [OF sync_refs [OF assms(1)], of "LStr s" "LStr s"]
    by (intro stepsI [of P _ P' _ U "LStr s" ?U]) (simp_all add: vrel_ref)
qed


section \<open>Permanents\<close>

definition ures :: "ust \<Rightarrow> ust" where
  "ures U = U\<lparr>u_refcount := u_refcount U + 1\<rparr>"

definition uassign :: "nat \<Rightarrow> lval \<Rightarrow> ust \<Rightarrow> ust" where
  "uassign rid x U = U\<lparr>u_ref := (u_ref U)(rid \<mapsto> x)\<rparr>"

lemma ures_simps [simp]:
  "u_fill (ures U) = u_fill U" "u_heap (ures U) = u_heap U" "u_upv (ures U) = u_upv U" "ucell (ures U) = ucell U"
  "u_in (ures U) = u_in U" "u_refcount (ures U) = u_refcount U + 1" "u_ref (ures U) = u_ref U"
  "ures (U\<lparr>u_in := i\<rparr>) = (ures U)\<lparr>u_in := i\<rparr>" "upvs_ok P (ures U) = upvs_ok P U" "upvs_ok (preg v P) U = upvs_ok P U"
  "cm (preg v P) (ures U) = cm P U" "keeps U' (ures U) = keeps U' U" "keeps U U"
  by (simp_all add: ures_def upvs_ok_def preg_def cm_def keeps_def fun_eq_iff)

lemma uassign_simps [simp]:
  "u_fill (uassign k x U) = u_fill U" "u_heap (uassign k x U) = u_heap U" "u_upv (uassign k x U) = u_upv U"
  "ucell (uassign k x U) = ucell U" "u_in (uassign k x U) = u_in U" "u_refcount (uassign k x U) = u_refcount U"
  "u_ref (uassign k x U) = (u_ref U)(k \<mapsto> x)"
  "uassign k x (U\<lparr>u_in := i\<rparr>) = (uassign k x U)\<lparr>u_in := i\<rparr>" "upvs_ok P (uassign k x U) = upvs_ok P U"
  "cm P (uassign k x U) = cm P U" "keeps U' (uassign k x U) = keeps U' U"
  by (simp_all add: uassign_def upvs_ok_def cm_def keeps_def fun_eq_iff)

lemma sync_reserve:
  assumes "sync G X Y {} P U" "p_ref P v = None" "int (p_refcount P) < ERIS_LJ_MAXREF"
  shows "sync G X Y {v} (preg v P) (ures U)" "ext P U (preg v P) (ures U)"
proof -
  note refs = refsD [OF sync_refs [OF assms(1)]]
  have vm: "vm (preg v P) (ures U) = vm P U"
    using refs assms(2) by (auto simp: vm_def fun_eq_iff)
  have "refs_ok {v} (preg v P) (ures U)"
    using assms(2,3) refs unfolding refs_ok_def by (auto simp: le_SucI split: if_splits)
  then show "sync G X Y {v} (preg v P) (ures U)"
    using syncD [OF assms(1)] by (intro syncI) (simp_all add: vm)
  show "ext P U (preg v P) (ures U)" using upd_le [of "p_ref P" v, OF assms(2)] by (simp add: ext_def vm)
qed

lemma sync_assign:
  assumes "sync G X Y {v} P U" "p_ref P v = Some rid" "permanent G v"
  shows "sync G X Y {} P (uassign rid (restored G v) U)" "ext P U P (uassign rid (restored G v) U)"
    "vm P (uassign rid (restored G v) U) v = Some (restored G v)"
proof -
  note refs = refsD [OF sync_refs [OF assms(1)]]
  have none: "vm P U v = None" using refs(4) [OF assms(2)] assms(2) by (simp add: vm_def)
  have vm: "vm P (uassign rid (restored G v) U) = (vm P U)(v \<mapsto> restored G v)"
  proof
    fix w
    have "w = v" if "p_ref P w = Some rid" using refs(5) [OF that assms(2)] .
    then show "vm P (uassign rid (restored G v) U) w = ((vm P U)(v \<mapsto> restored G v)) w"
      using assms(2) by (cases "p_ref P w") (auto simp: vm_def)
  qed
  have "u_ref U i \<noteq> None" if "p_ref P w = Some i" "i \<noteq> rid" for w i
    using refs(4) [OF that(1)] that assms(2) by auto
  then have known: "u_ref (uassign rid (restored G v) U) i \<noteq> None" if "p_ref P w = Some i" for w i
    using that by (cases "i = rid") auto
  have "refs_ok {} P (uassign rid (restored G v) U)"
    unfolding refs_ok_def
  proof (intro conjI allI impI)
    show "u_ref (uassign rid (restored G v) U) i = None" if "u_refcount (uassign rid (restored G v) U) < i" for i
      using that refs(1,6) refs(3) [OF assms(2)] by simp
    show "w = u" if "p_ref P w = Some i" "p_ref P u = Some i" for w u i using refs(5) [OF that] .
  qed (use refs(1,2,3) known in auto)
  then show "sync G X Y {} P (uassign rid (restored G v) U)"
    using syncD(1-3,5) [OF assms(1)] iso_register_permanent [OF sync_iso [OF assms(1)] none assms(3)]
    by (intro syncI) (simp_all add: vm)
  show "ext P U P (uassign rid (restored G v) U)"
    using upd_le [of "vm P U" v, OF none] by (simp add: ext_def vm)
  show "vm P (uassign rid (restored G v) U) v = Some (restored G v)" by (simp add: vm)
qed

lemma u_newref_eq: "int (u_refcount U) < ERIS_LJ_MAXREF \<Longrightarrow> u_newref U = Inr (u_refcount U + 1, ures U)"
  by (simp add: u_newref_def ures_def)

lemma permanent_step:
  assumes "sync G X Y {} P U" "p_ref P v = None" "permanent G v" "persist (g_E G) (Suc r) v P = Inr P'"
  shows "steps G X Y {} P U v P' (unpersist (g_F G) (Suc r))"
proof -
  let ?E = "g_E G" and ?F = "g_F G"
  obtain a s where v: "v = LObj a" "e_perms ?E v = LStr s" "length s < 2 ^ 64"
    using permanent_obj [OF sync_iso [OF assms(1)] assms(3)] by blast
  note new = keyed_new [OF assms(4) _ assms(2)]
  obtain Q R where q: "pbyte ?E TAG_PERMANENT (preg v P) = Inr Q"
      "pbyte ?E (word_of_int (lua_type (g_H G) v)) Q = Inr R" "persist ?E r (LStr s) R = Inr P'"
    using new(3) v sync_heap [OF assms(1)] by (fastforce simp: ebind_eq_Inr dest: pbyte_D)
  obtain w1 w2 where w: "Q = (preg v P)\<lparr>p_w := w1\<rparr>" "emits (preg v P) [TAG_PERMANENT] Q" "R = Q\<lparr>p_w := w2\<rparr>"
      "emits Q [word_of_int (lua_type (g_H G) v)] R"
    using pbyte_D [OF q(1)] pbyte_D [OF q(2)] by blast
  obtain r' where r: "r = Suc r'" using q(3) by (cases r) auto
  have lt: "int (u_refcount U) < ERIS_LJ_MAXREF" using new(1) v(1) sync_refs [OF assms(1)] by (simp add: refs_ok_def)
  note res = sync_reserve [OF assms(1,2) new(1)]
  have R: "sync G X Y {v} R (ures U)" using res(1) w v(1) by simp
  obtain bs v' U2 where st: "emits R bs P'" "reads (unpersist ?F r) (ures U) bs v' U2"
      "sync G X Y {v} P' U2" "ext R (ures U) P' U2" "vrel (vm P' U2) (LStr s) v'"
    using string_step [OF R _ v(3) q(3) [unfolded r], of ?F] v(1) unfolding steps_def r by auto
  have v': "v' = LStr s" using st(5) iso_id [OF sync_iso [OF st(3)], of "LStr s" v'] by (simp add: vrel_ref idrel_str)
  have "p_ref R v = Some (u_refcount U + 1)" using w sync_refs [OF assms(1)] by (simp add: refs_ok_def)
  then have pref: "p_ref P' v = Some (u_refcount U + 1)" using ext_ref [OF st(4)] by (auto simp: map_le_def dom_def)
  note fin = sync_assign [OF st(3) pref assms(3)]
  obtain b where b: "restored G v = LObj b" "lua_type (u_heap U2) (LObj b) = lua_type (g_H G) v" "lua_type (g_H G) v \<le> 8"
    using perm_restored [OF iso_perms [OF sync_iso [OF st(3)]] assms(3)] by blast
  have ty: "0 \<le> lua_type (g_H G) v" by (auto simp: lua_type_def split: lval.splits option.splits lobj.splits)
  have ub: "uint (word_of_int (lua_type (g_H G) v) :: byte) = lua_type (g_H G) v"
    using ty b(3) by (simp add: uint_word_of_int)
  then have tyb: "\<not> (word_of_int (lua_type (g_H G) v) :: byte) > 8" using b(3) by (simp add: word_less_def)
  have "reads (unpersist ?F (Suc r)) U ([TAG_PERMANENT] @ [word_of_int (lua_type (g_H G) v)] @ bs) (restored G v)
      (uassign (u_refcount U + 1) (restored G v) U2)"
    using st(2) lt b tyb ub v(2) v'
    by (simp add: reads_def tag_defs u_permanent_def u_newref_eq restored_def uassign_def Let_def)
  moreover have "emits P ([TAG_PERMANENT] @ [word_of_int (lua_type (g_H G) v)] @ bs) P'"
    using emits_trans [OF w(2) emits_trans [OF w(4) st(1)]] by (simp add: emits_def)
  moreover have "ext P U R (ures U)" using res(2) w v(1) by simp
  ultimately show ?thesis
    using fin ext_trans [OF _ ext_trans [OF st(4) fin(2)]] v(1)
    by (intro stepsI [of P _ P' _ U _ "uassign (u_refcount U + 1) (restored G v) U2"]) (simp_all add: vrel_ref)
qed

end
