(* ===== verification/ErisGraph.thy ===== *)
theory ErisGraph
  imports ErisRound
begin

text \<open>
  The two containers, table and closure, and the theorem: \<open>unpersist\<close> rebuilds the graph that
  \<open>persist\<close> wrote.
\<close>

section \<open>Tables\<close>

lemma upd_swap [simp]: "U\<lparr>u_in := i, u_heap := K\<rparr> = U\<lparr>u_heap := K, u_in := i\<rparr>"
  by simp

definition ualloc :: "lobj \<Rightarrow> ust \<Rightarrow> ust" where
  "ualloc x U = U\<lparr>u_heap := (u_heap U)\<lparr>h_obj := (h_obj (u_heap U))(h_next (u_heap U) \<mapsto> x), h_next := h_next (u_heap U) + 1\<rparr>\<rparr>"

lemma alloc_obj_eq: "alloc_obj x U = (h_next (u_heap U), ualloc x U)"
  by (simp add: alloc_obj_def ualloc_def Let_def)

lemma ualloc_simps [simp]:
  "u_refcount (ualloc x U) = u_refcount U" "u_in (ualloc x U) = u_in U" "u_fill (ualloc x U) = u_fill U"
  "ualloc x (U\<lparr>u_in := i\<rparr>) = (ualloc x U)\<lparr>u_in := i\<rparr>"
  "h_obj (u_heap (ualloc x U)) (h_next (u_heap U)) = Some x"
  "h_next (u_heap (ualloc x U)) = Suc (h_next (u_heap U))"
  by (simp_all add: ualloc_def)

lemma sync_alloc:
  assumes "sync G X Y {} P U" "p_ref P (LObj a) = None" "int (p_refcount P) < ERIS_LJ_MAXREF" "\<not> permanent G (LObj a)"
    and "h_obj (g_H G) a = Some x" "skind x x'"
  defines "P' \<equiv> preg (LObj a) P" and "U' \<equiv> ureg (LObj (h_next (u_heap U))) (ualloc x' U)"
  shows "sync G (insert a X) Y {} P' U'" "ext P U P' U'" "vm P' U' (LObj a) = Some (LObj (h_next (u_heap U)))"
  using sync_object [OF assms(1-6), where K = "u_heap (ualloc x' U)"]
  by (simp_all add: P'_def U'_def ualloc_def)

text \<open>A value that is an object is of the same type on both sides.\<close>

lemma skind_type: "skind x x' \<Longrightarrow> h_obj H a = Some x \<Longrightarrow> h_obj K a' = Some x' \<Longrightarrow> lua_type K (LObj a') = lua_type H (LObj a)"
  by (cases "(x, x')" rule: skind.cases) (auto simp: lua_type_def)

lemma vrel_type:
  assumes "iso G X Y \<rho> \<gamma> K" "vrel \<rho> (LObj m) v'"
  obtains m' where "v' = LObj m'" "lua_type K v' = lua_type (g_H G) (LObj m)"
proof (cases "permanent G (LObj m)")
  case True
  then have "v' = restored G (LObj m)" using assms(2) iso_id [OF assms(1), of "LObj m" v'] by (simp add: vrel_ref idrel_def)
  then show ?thesis using perm_restored [OF iso_perms [OF assms(1)] True] that by metis
next
  case False
  then show ?thesis
    using assms(2) iso_id [OF assms(1), of "LObj m" v'] that skind_type by (auto simp: vrel_ref idrel_def)
qed

lemma cells_same_tab:
  "h_obj (u_heap U) a' = Some (OTab ps mt) \<Longrightarrow>
   cells_same U ((u_heap U)\<lparr>h_obj := (h_obj (u_heap U))(a' \<mapsto> OTab qs mt')\<rparr>)"
  by (auto simp: cells_same_def closure_cell_def)

lemma vrel_key:
  assumes "iso G X Y \<rho> \<gamma> K" "vrel \<rho> k k'" "key_ok k" "key_norm k = k"
  shows "key_ok k'" "key_norm k' = k'"
  using assms(2) disjI1 [OF assms(3)] assms(3,4) ref_kind [OF assms(1), of k k']
  by (cases rule: vrel_cases; auto simp: key_ok_def key_norm_def)+

lemma vrel_nil: "iso G X Y \<rho> \<gamma> K \<Longrightarrow> vrel \<rho> v v' \<Longrightarrow> v' = LNil \<longleftrightarrow> v = LNil"
  using ref_kind [of G X Y \<rho> \<gamma> K v v'] by (cases v) (auto simp: vrel_def)

lemma val_ok_nil: "val_ok LNil"
  by (simp add: val_ok_def)

lemma steps_D:
  assumes "paired G p u" "sync G X Y {} P U" "val_ok v" "p v P = Inr P'"
  obtains bs v' U' where "bs \<noteq> []" "emits P bs P'" "reads u U bs v' U'" "sync G X Y {} P' U'" "ext P U P' U'"
    "vrel (vm P' U') v v'"
  using assms unfolding paired_def steps_def by blast

lemma u_pairs_step:
  assumes "reads u U bs k' U1" "reads u U1 cs v' U2" "k' \<noteq> LNil" "v' \<noteq> LNil"
    and "lua_rawset (f_order F) a' k' v' (u_heap U2) = Inr H"
  shows "u_pairs F (Suc n) u a' (U\<lparr>u_in := bs @ cs @ rest\<rparr>) = u_pairs F n u a' (U2\<lparr>u_heap := H, u_in := rest\<rparr>)"
  using assms by (simp add: reads_def)

text \<open>The loop over the pairs, one after another into the new table.\<close>

lemma pairs_step:
  assumes "paired G p u" "a \<in> X" "\<not> permanent G (LObj a)" "h_obj (g_H G) a = Some (OTab ps mt)"
    and "obj_ok G (OTab ps mt)" "h_next (u_heap U0) \<le> a'" "vm_ok G"
  shows "ps = bef @ todo \<Longrightarrow> sync G X Y {} P U \<Longrightarrow> vm P U (LObj a) = Some (LObj a') \<Longrightarrow>
    h_obj (u_heap U) a' = Some (OTab qs None) \<Longrightarrow> pairs_rel (vm P U) bef qs \<Longrightarrow>
    ext P0 U0 P U \<Longrightarrow> p_pairs p a (map fst todo) P = Inr P' \<Longrightarrow>
    \<exists>bs U' qs'. emits P bs P' \<and> length todo \<le> length bs
      \<and> (\<forall>n rest. u_pairs (g_F G) (length todo + n) u a' (U\<lparr>u_in := bs @ rest\<rparr>) = u_pairs (g_F G) n u a' (U'\<lparr>u_in := rest\<rparr>))
      \<and> sync G X Y {} P' U' \<and> vm P' U' (LObj a) = Some (LObj a') \<and> ext P0 U0 P' U'
      \<and> h_obj (u_heap U') a' = Some (OTab qs' None) \<and> pairs_rel (vm P' U') ps qs'"
proof (induction todo arbitrary: bef P U qs)
  case Nil
  then show ?case by (intro exI [of _ "[]"] exI [of _ U] exI [of _ qs]) (auto simp: emits_def)
next
  case (Cons kv todo)
  obtain k v where kv: "kv = (k, v)" by (cases kv)
  have ok: "val_ok k" "val_ok v" "v \<noteq> LNil" "key_ok k" "key_norm k = k" "distinct (map fst ps)"
    using assms(5) Cons.prems(1) kv by (auto simp: obj_ok_def)
  have live: "live_value P a k = v"
    using map_of_is_SomeI [OF ok(6), of k v] Cons.prems(1) kv assms(4) sync_heap [OF Cons.prems(2)]
    by (simp add: live_value_def tab_get_def)
  obtain P1 P2 where p: "p k P = Inr P1" "p v P1 = Inr P2" "p_pairs p a (map fst todo) P2 = Inr P'"
    using Cons.prems(7) kv live ok(3) by (auto simp: ebind_eq_Inr Let_def)
  obtain bs k' U1 where k: "bs \<noteq> []" "emits P bs P1" "reads u U bs k' U1" "sync G X Y {} P1 U1" "ext P U P1 U1"
      "vrel (vm P1 U1) k k'" using steps_D [OF assms(1) Cons.prems(2) ok(1) p(1)] .
  obtain cs v' U2 where v: "cs \<noteq> []" "emits P1 cs P2" "reads u U1 cs v' U2" "sync G X Y {} P2 U2" "ext P1 U1 P2 U2"
      "vrel (vm P2 U2) v v'" using steps_D [OF assms(1) k(4) ok(2) p(2)] .
  have e: "ext P U P2 U2" using ext_trans [OF k(5) v(5)] .
  note iso = sync_iso [OF v(4)]
  have k2: "vrel (vm P2 U2) k k'" using ext_vrel [OF k(6) v(5)] .
  have bef: "pairs_rel (vm P2 U2) bef qs" using pairrels_mono [OF Cons.prems(5) ext_vm [OF e]] .
  have obj: "h_obj (u_heap U2) a' = Some (OTab qs None)"
    using keeps_obj [OF ext_keeps [OF e] iso_range [OF sync_iso [OF Cons.prems(2)] Cons.prems(3)]] Cons.prems(4) by simp
  have new: "k' \<notin> fst ` set qs"
  proof
    assume "k' \<in> fst ` set qs"
    then obtain k1 where k1: "k1 \<in> fst ` set bef" "vrel (vm P2 U2) k1 k'" using pairs_rel_keys [OF bef] by blast
    then have "key_ok k1" using assms(5) Cons.prems(1) by (auto simp: obj_ok_def)
    then have "k1 = k" using vrel_inj [OF iso k1(2) k2 _ ok(4)] by blast
    then show False using k1(1) ok(6) Cons.prems(1) kv by auto
  qed
  let ?qs = "f_order (g_F G) a' (qs @ [(k', v')])"
  let ?x = "OTab ?qs None" and ?U = "set_obj a' (OTab ?qs None) U2"
  have set: "lua_rawset (f_order (g_F G)) a' k' v' (u_heap U2) = Inr ((u_heap U2)\<lparr>h_obj := (h_obj (u_heap U2))(a' \<mapsto> ?x)\<rparr>)"
    using vrel_key [OF iso k2 ok(4,5)] obj new by (simp add: lua_rawset_def update_new)
  have vmU: "vm P2 U2 (LObj a) = Some (LObj a')" using ext_vm [OF e] Cons.prems(3) by (auto simp: map_le_def dom_def)
  note ch = sync_change [OF v(4) assms(2) vmU assms(3) obj kind_tab [of _ _ ?qs None] cells_same_tab [OF obj]]
  have nn: "k' \<noteq> LNil" "v' \<noteq> LNil"
    using vrel_nil [OF iso k2] vrel_nil [OF iso v(6)] ok(3,4) by (auto simp: key_ok_def)
  have "\<exists>ds U' qs'. emits P2 ds P' \<and> length todo \<le> length ds
      \<and> (\<forall>n rest. u_pairs (g_F G) (length todo + n) u a' (?U\<lparr>u_in := ds @ rest\<rparr>) = u_pairs (g_F G) n u a' (U'\<lparr>u_in := rest\<rparr>))
      \<and> sync G X Y {} P' U' \<and> vm P' U' (LObj a) = Some (LObj a') \<and> ext P0 U0 P' U'
      \<and> h_obj (u_heap U') a' = Some (OTab qs' None) \<and> pairs_rel (vm P' U') ps qs'"
  proof (rule Cons.IH [of "bef @ [(k, v)]" P2 ?U ?qs])
    show "sync G X Y {} P2 ?U" using ch(1) .
    show "ext P0 U0 P2 ?U" using ch(3) [OF ext_trans [OF Cons.prems(6) e] assms(6)] .
    show "pairs_rel (vm P2 ?U) (bef @ [(k, v)]) ?qs"
      using pairs_rel_add [OF bef, of "(k, v)" "(k', v')" ?qs] k2 v(6) assms(7) by (simp add: pairrel_def vm_ok_def)
  qed (use Cons.prems(1) kv vmU p(3) in simp_all)
  then obtain ds U' qs' where ih: "emits P2 ds P'" "length todo \<le> length ds"
      "\<forall>n rest. u_pairs (g_F G) (length todo + n) u a' (?U\<lparr>u_in := ds @ rest\<rparr>) = u_pairs (g_F G) n u a' (U'\<lparr>u_in := rest\<rparr>)"
      "sync G X Y {} P' U' \<and> vm P' U' (LObj a) = Some (LObj a') \<and> ext P0 U0 P' U'
      \<and> h_obj (u_heap U') a' = Some (OTab qs' None) \<and> pairs_rel (vm P' U') ps qs'" by blast
  have "u_pairs (g_F G) (length (kv # todo) + n) u a' (U\<lparr>u_in := (bs @ cs @ ds) @ rest\<rparr>) = u_pairs (g_F G) n u a' (U'\<lparr>u_in := rest\<rparr>)" for n rest
    using u_pairs_step [OF k(3) v(3) nn set, of "length todo + n" "ds @ rest"] ih(3) by simp
  moreover have "emits P (bs @ cs @ ds) P'" using emits_trans [OF k(2) emits_trans [OF v(2) ih(1)]] .
  moreover have "length (kv # todo) \<le> length (bs @ cs @ ds)" using k(1) ih(2) by (cases bs) auto
  ultimately show ?case using ih(4) by blast
qed


text \<open>The end of a table: the nil after the pairs and the metatable.\<close>

lemma metatable_step:
  assumes "paired G p u" "a \<in> X" "\<not> permanent G (LObj a)" "h_obj (g_H G) a = Some (OTab ps mt)"
    and "obj_ok G (OTab ps mt)" "h_next (u_heap U0) \<le> a'" "sync G X Y {} P U" "vm P U (LObj a) = Some (LObj a')"
    and "h_obj (u_heap U) a' = Some (OTab qs None)" "pairs_rel (vm P U) ps qs" "ext P0 U0 P U"
    and "p_metatable p a P = Inr P'"
  shows "\<exists>bs U'. emits P bs P' \<and> reads (u_metatable u a') U bs (LObj a') U'
    \<and> sync G X Y {} P' U' \<and> vm P' U' (LObj a) = Some (LObj a') \<and> ext P0 U0 P' U'
    \<and> contents_ok G (vm P' U') (cm P' U') (u_heap U') a a'"
proof -
  let ?m = "case mt of None \<Rightarrow> LNil | Some m \<Rightarrow> LObj m"
  have p: "p ?m P = Inr P'"
    using assms(12) assms(4) sync_heap [OF assms(7)] by (cases mt) (simp_all add: p_metatable_def)
  have "val_ok ?m" by (cases mt) (simp_all add: val_ok_def)
  then obtain bs v' U1 where s: "emits P bs P'" "reads u U bs v' U1" "sync G X Y {} P' U1" "ext P U P' U1"
      "vrel (vm P' U1) ?m v'" using steps_D [OF assms(1,7) _ p] by blast
  note iso = sync_iso [OF s(3)]
  have obj: "h_obj (u_heap U1) a' = Some (OTab qs None)"
    using keeps_obj [OF ext_keeps [OF s(4)] iso_range [OF sync_iso [OF assms(7)] assms(8)]] assms(9) by simp
  have vmU: "vm P' U1 (LObj a) = Some (LObj a')" using ext_vm [OF s(4)] assms(8) by (auto simp: map_le_def dom_def)
  have e: "ext P0 U0 P' U1" using ext_trans [OF assms(11) s(4)] .
  have pairs: "pairs_rel (vm P' U1) ps qs" using pairrels_mono [OF assms(10) ext_vm [OF s(4)]] .
  show ?thesis
  proof (cases mt)
    case None
    then have "v' = LNil" using s(5) by (simp add: vrel_def)
    then have "reads (u_metatable u a') U bs (LObj a') U1" using s(2) by (simp add: reads_def u_metatable_def)
    moreover have "contents_ok G (vm P' U1) (cm P' U1) (u_heap U1) a a'"
      using assms(4) obj pairs None by (simp add: contents_ok_def mrel_def)
    ultimately show ?thesis using s(1,3) vmU e by blast
  next
    case (Some m)
    obtain m' where m': "v' = LObj m'" "lua_type (u_heap U1) v' = lua_type (g_H G) (LObj m)"
      using vrel_type [OF iso, of m v'] s(5) Some by auto
    have "lua_type (g_H G) (LObj m) = 5" using assms(5) Some by (auto simp: obj_ok_def is_table_def lua_type_def)
    then have ty: "lua_type (u_heap U1) (LObj m') = 5" using m' by simp
    let ?x = "OTab qs (Some m')" and ?U = "set_obj a' (OTab qs (Some m')) U1"
      note ch = sync_change [OF s(3) assms(2) vmU assms(3) obj kind_tab [of _ _ qs "Some m'"] cells_same_tab [OF obj]]
    have "reads (u_metatable u a') U bs (LObj a') ?U"
      using s(2) m'(1) ty obj sync_fill [OF s(3)] by (simp add: reads_def u_metatable_def lua_setmetatable_def)
    moreover have "contents_ok G (vm P' ?U) (cm P' ?U) (u_heap ?U) a a'"
      using assms(4) pairs Some s(5) m'(1) by (simp add: contents_ok_def mrel_def)
    ultimately show ?thesis using s(1) vmU ch(1,3) e assms(6) by (intro exI [of _ bs] exI [of _ ?U]) simp
  qed
qed

text \<open>A table, from its registration to its metatable.\<close>

lemma table_D:
  assumes "persist_typed E p (LObj a) P = Inr P'" "h_obj (p_heap P) a = Some (OTab ps mt)"
    and "\<And>f. spkey_of E (p_heap P) mt \<noteq> Inr (Some f)"
  obtains w P1 P2 where "emits P [TAG_TABLE, TABLE_LITERAL] (P\<lparr>p_w := w\<rparr>)" "p_pairs p a (map fst ps) (P\<lparr>p_w := w\<rparr>) = Inr P1"
    "p LNil P1 = Inr P2" "p_metatable p a P2 = Inr P'"
proof -
  obtain sp Q R where q: "spkey_of E (p_heap P) mt = Inr sp" "pbyte E TAG_TABLE P = Inr Q"
      "sp = None \<Longrightarrow> pbyte E TABLE_LITERAL Q = Inr R \<and> p_literaltable p a R = Inr P'"
    using assms(1,2) by (auto simp: persist_typed_def p_table_def ebind_eq_Inr split: option.splits)
  have sp: "sp = None" using q(1) assms(3) by (cases sp) auto
  obtain w1 w2 where w: "Q = P\<lparr>p_w := w1\<rparr>" "emits P [TAG_TABLE] Q" "R = Q\<lparr>p_w := w2\<rparr>" "emits Q [TABLE_LITERAL] R"
    using pbyte_D [OF q(2)] pbyte_D q(3) [OF sp] by blast
  obtain P1 P2 where "p_pairs p a (map fst ps) R = Inr P1" "p LNil P1 = Inr P2" "p_metatable p a P2 = Inr P'"
    using q(3) [OF sp] w assms(2) by (auto simp: p_literaltable_def ebind_eq_Inr)
  then show ?thesis using that [of w2] w emits_trans [OF w(2,4)] by simp
qed

lemma table_step:
  assumes "paired G (persist (g_E G) r) (unpersist (g_F G) r)" "sync G X Y {} P U" "p_ref P (LObj a) = None"
    and "\<not> permanent G (LObj a)" "h_obj (g_H G) a = Some (OTab ps mt)" "obj_ok G (OTab ps mt)"
    and "persist (g_E G) (Suc r) (LObj a) P = Inr P'" "vm_ok G"
  shows "steps G X Y {} P U (LObj a) P' (unpersist (g_F G) (Suc r))"
proof -
  let ?p = "persist (g_E G) r" and ?u = "unpersist (g_F G) r" and ?P = "preg (LObj a) P"
  let ?a = "h_next (u_heap U)" and ?U = "ureg (LObj (h_next (u_heap U))) (ualloc (OTab [] None) U)"
  note new = keyed_new [OF assms(7) _ assms(3)]
  have heap: "p_heap ?P = g_H G" using sync_heap [OF assms(2)] by simp
  obtain w P1 P2 where w: "emits ?P [TAG_TABLE, TABLE_LITERAL] (?P\<lparr>p_w := w\<rparr>)"
      "p_pairs ?p a (map fst ps) (?P\<lparr>p_w := w\<rparr>) = Inr P1" "?p LNil P1 = Inr P2" "p_metatable ?p a P2 = Inr P'"
  proof (rule table_D [of "g_E G" ?p a ?P P' ps mt])
    show "persist_typed (g_E G) ?p (LObj a) ?P = Inr P'" using new(2) assms(4) by simp
    show "h_obj (p_heap ?P) a = Some (OTab ps mt)" using heap assms(5) by simp
    show "spkey_of (g_E G) (p_heap ?P) mt \<noteq> Inr (Some f)" for f using heap assms(6) by (simp add: obj_ok_def)
  qed blast
  have lt: "int (u_refcount U) < ERIS_LJ_MAXREF" using new(1) refs_count [OF sync_refs [OF assms(2)]] by simp
  note al = sync_alloc [OF assms(2,3) new(1) [OF is_ref_simps(2)] assms(4,5), of "OTab [] None", simplified]
  obtain bs U1 qs where b: "emits (?P\<lparr>p_w := w\<rparr>) bs P1" "length ps \<le> length bs"
      "\<And>n rest. u_pairs (g_F G) (length ps + n) ?u ?a (?U\<lparr>u_in := bs @ rest\<rparr>) = u_pairs (g_F G) n ?u ?a (U1\<lparr>u_in := rest\<rparr>)"
      "sync G (insert a X) Y {} P1 U1" "vm P1 U1 (LObj a) = Some (LObj ?a)" "ext P U P1 U1"
      "h_obj (u_heap U1) ?a = Some (OTab qs None)" "pairs_rel (vm P1 U1) ps qs"
    using pairs_step [OF assms(1) _ assms(4-6) _ assms(8), of "insert a X" U ?a "[]" ps Y "?P\<lparr>p_w := w\<rparr>" ?U "[]" P P1] al w(2) by auto
  obtain cs v' U2 where c: "emits P1 cs P2" "reads ?u U1 cs v' U2" "sync G (insert a X) Y {} P2 U2" "ext P1 U1 P2 U2"
      "vrel (vm P2 U2) LNil v'" using steps_D [OF assms(1) b(4) val_ok_nil w(3)] by blast
  have v': "v' = LNil" using c(5) by (simp add: vrel_def)
  have obj: "h_obj (u_heap U2) ?a = Some (OTab qs None)"
    using keeps_obj [OF ext_keeps [OF c(4)] iso_range [OF sync_iso [OF b(4)] b(5)]] b(7) by simp
  have vm2: "vm P2 U2 (LObj a) = Some (LObj ?a)" using ext_vm [OF c(4)] b(5) by (auto simp: map_le_def dom_def)
  obtain ds U' where d: "emits P2 ds P'" "reads (u_metatable ?u ?a) U2 ds (LObj ?a) U'" "sync G (insert a X) Y {} P' U'"
      "vm P' U' (LObj a) = Some (LObj ?a)" "ext P U P' U'" "contents_ok G (vm P' U') (cm P' U') (u_heap U') a ?a"
    using metatable_step [OF assms(1) _ assms(4-6) _ c(3) vm2 obj pairrels_mono [OF b(8) ext_vm [OF c(4)]]
        ext_trans [OF b(6) c(4)] w(4)] by auto
  have loop: "u_pairs (g_F G) (Suc (length (bs @ cs @ ds @ rest))) ?u ?a (?U\<lparr>u_in := bs @ cs @ ds @ rest\<rparr>)
      = Inr (U2\<lparr>u_in := ds @ rest\<rparr>)" for rest
  proof -
    obtain n where n: "Suc (length (bs @ cs @ ds @ rest)) = length ps + Suc n"
      using b(2) le_Suc_ex [of "length ps" "length (bs @ cs @ ds @ rest)"] by auto
    show ?thesis unfolding n b(3) using c(2) v' by (simp add: reads_def)
  qed
  have "reads (unpersist (g_F G) (Suc r)) U ([TAG_TABLE, TABLE_LITERAL] @ bs @ cs @ ds) (LObj ?a) U'"
    using lt loop d(2) by (simp add: reads_def tag_defs u_table_def alloc_obj_eq registerobject_eq del: u_pairs.simps length_append)
  moreover have "emits P ([TAG_TABLE, TABLE_LITERAL] @ bs @ cs @ ds) P'"
    using emits_trans [OF w(1) emits_trans [OF b(1) emits_trans [OF c(1) d(1)]]] by (simp add: emits_def)
  ultimately show ?thesis
    using sync_finish [OF d(3,4,6)] d(4,5) by (intro stepsI [of P _ P']) (simp_all add: vrel_ref)
qed

section \<open>Closures\<close>

lemma dump_chunks_out: "dump_chunks E ps w = Some w' \<Longrightarrow> w_out w' = w_out w @ concat ps"
  by (induction ps arbitrary: w) (auto simp: wrote_def split: option.splits dest!: w_try_wrote)

lemma patch_out:
  "w_out w = a @ u32le_bytes 0 @ d \<Longrightarrow> w_out (w_patch_u32le (length a) v w) = a @ u32le_bytes v @ d"
  by (simp add: w_patch_u32le_def)

lemma p_dump_D:
  assumes "p_dump E proto P = Inr P'"
  obtains chunks w where "e_dump E (e_wdebug E) proto = Some chunks" "P' = P\<lparr>p_w := w\<rparr>" "length (concat chunks) < 2 ^ 32"
    "emits P (u32le_bytes (word_of_nat (length (concat chunks))) @ concat chunks) P'"
proof -
  obtain w1 where w1: "w_u32le (e_grow E) 0 (p_w P) = Inr w1"
    using assms by (auto simp: p_dump_def Let_def ebind_eq_Inr pw_def)
  obtain chunks w2 where c: "e_dump E (e_wdebug E) proto = Some chunks" "dump_chunks E chunks w1 = Some w2"
    and r: "int (length (w_out w2) - length (w_out (p_w P)) - 4) \<le> 0xffffffff"
      "P' = P\<lparr>p_w := w_patch_u32le (length (w_out (p_w P))) (word_of_nat (length (w_out w2) - length (w_out (p_w P)) - 4)) w2\<rparr>"
    using assms w1 by (auto simp: p_dump_def Let_def pw_def split: option.splits if_splits)
  have o: "w_out w2 = w_out (p_w P) @ u32le_bytes 0 @ concat chunks" using dump_chunks_out [OF c(2)] w_u32le_wrote [OF w1] by (simp add: wrote_def)
  have l: "length (w_out w2) - length (w_out (p_w P)) - 4 = length (concat chunks)" by (simp add: o del: length_concat)
  show ?thesis
    by (rule that [OF c(1) r(2)]) (use r(1) patch_out [OF o] in \<open>simp_all add: emits_def r(2) l del: length_concat diff_diff_left\<close>)
qed

definition uclosure :: "uenv \<Rightarrow> nat \<Rightarrow> nat \<Rightarrow> ust \<Rightarrow> ust" where
  "uclosure F q n U = snd (new_closure F q n U)"

lemma new_closure_eq: "new_closure F q n U = (h_next (u_heap U), uclosure F q n U)"
  by (simp add: new_closure_def uclosure_def Let_def alloc_obj_def)

lemma uclosure_simps [simp]:
  "u_refcount (uclosure F q n U) = u_refcount U" "u_in (uclosure F q n U) = u_in U"
  "uclosure F q n (U\<lparr>u_in := i\<rparr>) = (uclosure F q n U)\<lparr>u_in := i\<rparr>"
  "h_obj (u_heap (uclosure F q n U)) (h_next (u_heap U)) = Some (OFun q [h_cnext (u_heap U)..<h_cnext (u_heap U) + n] (f_globals F))"
  "h_next (u_heap (uclosure F q n U)) = h_next (u_heap U) + 1" "h_cnext (u_heap (uclosure F q n U)) = h_cnext (u_heap U) + n"
  "u_upv (uclosure F q n U) = u_upv U"
  "h_cell (u_heap (uclosure F q n U)) c =
     (if h_cnext (u_heap U) \<le> c \<and> c < h_cnext (u_heap U) + n then Some (UClosed LNil) else h_cell (u_heap U) c)"
  by (simp_all add: uclosure_def new_closure_def Let_def alloc_obj_def)

lemma sync_closure:
  assumes "sync G X Y {} P U" "p_ref P (LObj a) = None" "int (p_refcount P) < ERIS_LJ_MAXREF" "\<not> permanent G (LObj a)"
    and "h_obj (g_H G) a = Some (OFun p us e)"
  shows "sync G (insert a X) Y {} (preg (LObj a) P) (ureg (LObj (h_next (u_heap U))) (uclosure F q n U))"
    "ext P U (preg (LObj a) P) (ureg (LObj (h_next (u_heap U))) (uclosure F q n U))"
    "vm (preg (LObj a) P) (ureg (LObj (h_next (u_heap U))) (uclosure F q n U)) (LObj a) = Some (LObj (h_next (u_heap U)))"
    "cm (preg (LObj a) P) (ureg (LObj (h_next (u_heap U))) (uclosure F q n U)) = cm P U"
  using sync_object [OF assms(1-5), where K = "u_heap (uclosure F q n U)" and x' = "OFun q [h_cnext (u_heap U)..<h_cnext (u_heap U) + n] (f_globals F)"]
    cm_heap [OF cells_same_new [OF sync_upvs [OF assms(1)], where K = "u_heap (uclosure F q n U)"]]
  by (simp_all add: uclosure_def new_closure_def Let_def alloc_obj_def)

text \<open>The closure at \<open>a'\<close> with its first \<open>n\<close> upvalues done; the cells \<open>c0\<close> onwards came with it.\<close>

definition filling :: "addr list \<Rightarrow> nat \<Rightarrow> addr \<Rightarrow> addr \<Rightarrow> nat \<Rightarrow> pst \<Rightarrow> ust \<Rightarrow> bool" where
  "filling us q a' c0 n P U =
     (a' < h_next (u_heap U) \<and> c0 + length us \<le> h_cnext (u_heap U)
      \<and> (\<exists>us' e'. h_obj (u_heap U) a' = Some (OFun q us' e') \<and> length us' = length us
            \<and> (\<forall>k < n. cm P U (us ! k) = Some (us' ! k)) \<and> (\<forall>k. n \<le> k \<longrightarrow> k < length us \<longrightarrow> us' ! k = c0 + k))
      \<and> (\<forall>k. n \<le> k \<longrightarrow> k < length us \<longrightarrow> c0 + k \<notin> ran (cm P U))
      \<and> (\<forall>k < length us. \<exists>v. h_cell (u_heap U) (c0 + k) = Some (UClosed v))
      \<and> (\<forall>i m. u_upv U i = Some (a', m) \<longrightarrow> m \<le> n))"

lemma filling_ext:
  assumes "filling us q a' c0 n P U" "ext P U P' U'"
  shows "filling us q a' c0 n P' U'"
proof -
  note f = assms(1)[unfolded filling_def]
  note k = keepsD [OF ext_keeps [OF assms(2)]]
  have cm: "cm P' U' c = Some c'" if "cm P U c = Some c'" for c c'
    using ext_cm [OF assms(2)] that by (auto simp: map_le_def dom_def)
  have cell: "c0 + j \<notin> ran (cm P' U')" if "c0 + j \<notin> ran (cm P U)" "j < length us" for j
    using ext_cell [OF assms(2), of _ "c0 + j"] that f by (fastforce simp: ran_def)
  show ?thesis
    unfolding filling_def
  proof (intro conjI allI impI)
    show "a' < h_next (u_heap U')" using f k(1) by simp
    show "c0 + length us \<le> h_cnext (u_heap U')" using f k(2) by simp
    show "\<exists>us' e'. h_obj (u_heap U') a' = Some (OFun q us' e') \<and> length us' = length us
            \<and> (\<forall>k < n. cm P' U' (us ! k) = Some (us' ! k)) \<and> (\<forall>k. n \<le> k \<longrightarrow> k < length us \<longrightarrow> us' ! k = c0 + k)"
      using f k(3) [of a'] cm by metis
    show "c0 + j \<notin> ran (cm P' U')" if "n \<le> j" "j < length us" for j using f that cell by blast
    show "\<exists>v. h_cell (u_heap U') (c0 + j) = Some (UClosed v)" if "j < length us" for j
      using f that k(4) [of "c0 + j"] by auto
    show "m \<le> n" if "u_upv U' i = Some (a', m)" for i m using f k(5) [OF that] by auto
  qed
qed

lemma filling_start:
  assumes "sync G X Y {} P U" "cm P' (ureg x (uclosure F q (length us) U)) = cm P U"
  shows "filling us q (h_next (u_heap U)) (h_cnext (u_heap U)) 0 P' (ureg x (uclosure F q (length us) U))"
proof -
  have "c \<notin> ran (cm P U)" if "h_cnext (u_heap U) \<le> c" for c
    using iso_cnext [OF sync_iso [OF assms(1)], of _ c] that by (auto simp: ran_def)
  moreover have "a < h_next (u_heap U)" if "u_upv U i = Some (a, m)" for i a m
    using sync_upvs [OF assms(1)] that unfolding upvs_ok_def by blast
  ultimately show ?thesis
    unfolding filling_def
    by (fastforce simp: assms(2))
qed


lemma filling_D:
  assumes "filling us q a' c0 n P U" "n < length us"
  obtains us' e' where "h_obj (u_heap U) a' = Some (OFun q us' e')" "length us' = length us"
    "\<And>k. k < n \<Longrightarrow> cm P U (us ! k) = Some (us' ! k)" "us' ! n = c0 + n" "c0 + n \<notin> ran (cm P U)"
    "a' < h_next (u_heap U)" "c0 + n < h_cnext (u_heap U)" "closure_cell (u_heap U) a' (n + 1) = Some (c0 + n)"
    "\<And>i m. u_upv U i = Some (a', m) \<Longrightarrow> m \<le> n"
  using assms unfolding filling_def closure_cell_def by fastforce

lemma vm_ext: "vm P U v = Some x \<Longrightarrow> ext P U P' U' \<Longrightarrow> vm P' U' v = Some x"
  by (auto dest!: ext_vm simp: map_le_def dom_def)

lemma cm_ext: "cm P U c = Some x \<Longrightarrow> ext P U P' U' \<Longrightarrow> cm P' U' c = Some x"
  by (auto dest!: ext_cm simp: map_le_def dom_def)

lemma filling_frame [simp]:
  "filling us q a' c0 n (P\<lparr>p_w := w\<rparr>) U = filling us q a' c0 n P U"
  "filling us q a' c0 n P (U\<lparr>u_in := i\<rparr>) = filling us q a' c0 n P U"
  "filling us q a' c0 n P (U\<lparr>u_list := l\<rparr>) = filling us q a' c0 n P U"
  by (simp_all add: filling_def)

text \<open>A slot joined to a cell that is there already.\<close>

lemma filling_join:
  assumes "filling us q a' c0 n P U" "n < length us" "cm P U (us ! n) = Some c'" "sync G X Y {} P U" "a \<in> X"
    and "vm P U (LObj a) = Some (LObj a')" "\<not> permanent G (LObj a)"
  defines "U' \<equiv> U\<lparr>u_heap := set_closure_cell (u_heap U) a' (n + 1) c'\<rparr>"
  shows "filling us q a' c0 (Suc n) P U'" "sync G X Y {} P U'" "ext P0 U0 P U \<Longrightarrow> h_next (u_heap U0) \<le> a' \<Longrightarrow> ext P0 U0 P U'"
proof -
  obtain us' e' where f: "h_obj (u_heap U) a' = Some (OFun q us' e')" "length us' = length us"
    "\<And>k. k < n \<Longrightarrow> cm P U (us ! k) = Some (us' ! k)" "\<And>i m. u_upv U i = Some (a', m) \<Longrightarrow> m \<le> n"
    using filling_D [OF assms(1,2)] by metis
  let ?x = "OFun q (us'[n := c']) e'"
  have U': "U' = set_obj a' ?x U" by (simp add: U'_def set_closure_cell_def f(1))
  have cells: "closure_cell ((u_heap U)\<lparr>h_obj := (h_obj (u_heap U))(a' \<mapsto> ?x)\<rparr>) b m = closure_cell (u_heap U) b m"
    if "u_upv U i = Some (b, m)" for i b m
  proof (cases "b = a'")
    case True
    have "m - 1 \<noteq> n" if "1 \<le> m" using that f(4) [of i m] \<open>u_upv U i = Some (b, m)\<close> True by simp
    then show ?thesis using True f(1,2) by (auto simp: closure_cell_def)
  qed (simp add: closure_cell_def)
  then have same: "cells_same U ((u_heap U)\<lparr>h_obj := (h_obj (u_heap U))(a' \<mapsto> ?x)\<rparr>)" by (simp add: cells_same_def)
  note ch = sync_change [OF assms(4,5,6,7) f(1) kind_fun same]
  show "sync G X Y {} P U'" using ch(1) by (simp add: U')
  show "ext P0 U0 P U'" if "ext P0 U0 P U" "h_next (u_heap U0) \<le> a'" using ch(3) [OF that] by (simp add: U')
  have cm: "cm P U' = cm P U" using ch(2) by (simp add: U')
  have hd: "\<exists>vs' e'. h_obj (u_heap U') a' = Some (OFun q vs' e') \<and> length vs' = length us
      \<and> (\<forall>k < Suc n. cm P U' (us ! k) = Some (vs' ! k)) \<and> (\<forall>k. Suc n \<le> k \<longrightarrow> k < length us \<longrightarrow> vs' ! k = c0 + k)"
    using f(1-3) assms(1-3) unfolding cm filling_def
    by (intro exI [of _ "us'[n := c']"] exI [of _ e']) (auto simp: U' less_Suc_eq nth_list_update)
  show "filling us q a' c0 (Suc n) P U'"
    unfolding filling_def
    by (intro conjI hd) (use assms(1) cm in \<open>auto simp: filling_def U' le_SucI\<close>)
qed

text \<open>A slot whose cell becomes the cell of a new upvalue.\<close>

lemma filling_new:
  assumes "filling us q a' c0 n P U" "n < length us" "upvs_ok P U" "p_upv P (us ! n) = None"
  shows "filling us q a' c0 (Suc n) (pupv (us ! n) P) (uupv a' (n + 1) U)"
proof -
  obtain us' e' where f: "h_obj (u_heap U) a' = Some (OFun q us' e')" "length us' = length us"
    "\<And>k. k < n \<Longrightarrow> cm P U (us ! k) = Some (us' ! k)" "us' ! n = c0 + n" "c0 + n \<notin> ran (cm P U)"
    "closure_cell (u_heap U) a' (n + 1) = Some (c0 + n)" "\<And>i m. u_upv U i = Some (a', m) \<Longrightarrow> m \<le> n"
    using filling_D [OF assms(1,2)] by metis
  note cm = cm_new [OF assms(3) f(6), of "us ! n", simplified]
  have none: "cm P U (us ! n) = None" using assms(4) by (simp add: cm_def)
  have hd: "\<exists>vs' e'. h_obj (u_heap (uupv a' (n + 1) U)) a' = Some (OFun q vs' e') \<and> length vs' = length us
      \<and> (\<forall>k < Suc n. cm (pupv (us ! n) P) (uupv a' (n + 1) U) (us ! k) = Some (vs' ! k))
      \<and> (\<forall>k. Suc n \<le> k \<longrightarrow> k < length us \<longrightarrow> vs' ! k = c0 + k)"
  proof (intro exI conjI allI impI)
    show "h_obj (u_heap (uupv a' (n + 1) U)) a' = Some (OFun q us' e')" using f(1) by simp
    show "cm (pupv (us ! n) P) (uupv a' (n + 1) U) (us ! k) = Some (us' ! k)" if "k < Suc n" for k
      using that f(3) [of k] f(4) none by (cases "us ! k = us ! n") (auto simp: cm less_Suc_eq)
    show "us' ! k = c0 + k" if "Suc n \<le> k" "k < length us" for k
      using assms(1) that f(1) unfolding filling_def by auto
  qed (use f(2) in simp)
  have upv: "m \<le> Suc n" if "u_upv (uupv a' (n + 1) U) i = Some (a', m)" for i m
    using that f(7) [of i m] by (auto simp: uupv_def elj_note_referrer_def split: if_splits)
  show ?thesis
    unfolding filling_def
    by (intro conjI hd) (use assms(1) upv none in \<open>auto simp: filling_def cm\<close>)
qed

text \<open>One upvalue.\<close>

lemma uv_owner_closed: "uv_owner P (UClosed v) = None"
  by (simp add: uv_owner_def elj_owner_of_open_uv_def elj_find_owner_any_def)

lemma upvalue_ref_D:
  assumes "p_upvalue E p c P = Inr P'" "p_upv P c = Some rid"
  obtains w where "P' = P\<lparr>p_w := w\<rparr>" "emits P ([TAG_UPVALREF] @ uleb_bytes (word_of_nat rid)) P'"
proof -
  obtain Q where q: "pbyte E TAG_UPVALREF P = Inr Q" "puleb E rid Q = Inr P'"
    using assms by (auto simp: p_upvalue_def ebind_eq_Inr)
  obtain w w' where w: "Q = P\<lparr>p_w := w\<rparr>" "emits P [TAG_UPVALREF] Q" "P' = Q\<lparr>p_w := w'\<rparr>" "emits Q (uleb_bytes (word_of_nat rid)) P'"
    using pbyte_D [OF q(1)] puleb_D [OF q(2)] by blast
  show ?thesis using that [of w'] w emits_trans [OF w(2,4)] by simp
qed

lemma upvalue_new_D:
  assumes "p_upvalue E p c P = Inr P'" "p_upv P c = None" "h_cell (p_heap P) c = Some (UClosed v)"
  obtains w where "int (p_upvcount P) < ERIS_LJ_MAXREF" "emits P [TAG_UPVAL] ((pupv c P)\<lparr>p_w := w\<rparr>)"
    "p v ((pupv c P)\<lparr>p_w := w\<rparr>) = Inr P'"
proof -
  have lt: "int (p_upvcount P) < ERIS_LJ_MAXREF" using assms(1,2) by (auto simp: p_upvalue_def split: if_splits)
  have val: "cell_value (p_heap P) c = v" using assms(3) by (simp add: cell_value_def)
  obtain Q where q: "pbyte E TAG_UPVAL (pupv c P) = Inr Q" "p (cell_value (p_heap Q) c) Q = Inr P'"
    using assms lt by (auto simp: p_upvalue_def ebind_eq_Inr Let_def uv_owner_closed pupv_def)
  obtain w where w: "Q = (pupv c P)\<lparr>p_w := w\<rparr>" "emits (pupv c P) [TAG_UPVAL] Q" using pbyte_D [OF q(1)] by blast
  show ?thesis using that [OF lt, of w] w q(2) val by (simp add: emits_def)
qed

lemma upvalue_step:
  assumes "paired G p u" "a \<in> X" "\<not> permanent G (LObj a)" "n < length us" "h_next (u_heap U0) \<le> a'" "h_cnext (u_heap U0) \<le> c0"
    and "h_cell (g_H G) (us ! n) = Some (UClosed v)" "val_ok v"
    and "sync G X Y {} P U" "vm P U (LObj a) = Some (LObj a')" "filling us q a' c0 n P U" "ext P0 U0 P U"
    and "p_upvalue E p (us ! n) P = Inr P'"
  shows "\<exists>bs U'. emits P bs P' \<and> (\<forall>rest. u_upvalue F u a' (n + 1) (U\<lparr>u_in := bs @ rest\<rparr>) = Inr (U'\<lparr>u_in := rest\<rparr>))
    \<and> sync G X Y {} P' U' \<and> vm P' U' (LObj a) = Some (LObj a') \<and> ext P0 U0 P' U' \<and> filling us q a' c0 (n + 1) P' U'"
proof (cases "p_upv P (us ! n)")
  case (Some rid)
  obtain w where w: "P' = P\<lparr>p_w := w\<rparr>" "emits P ([TAG_UPVALREF] @ uleb_bytes (word_of_nat rid)) P'"
    using upvalue_ref_D [OF assms(13) Some] .
  have rid: "1 \<le> rid" "rid \<le> u_upvcount U" "int rid \<le> ERIS_LJ_MAXREF" "ucell U rid \<noteq> None"
    using sync_upvs [OF assms(9)] Some unfolding upvs_ok_def by (auto, force)
  obtain b m c' where c': "u_upv U rid = Some (b, m)" "closure_cell (u_heap U) b m = Some c'"
    using rid(4) by (auto simp: ucell_def split: bind_splits)
  have cm: "cm P U (us ! n) = Some c'" using Some c' by (simp add: cm_def ucell_def)
  note join = filling_join [OF assms(11,4) cm assms(9,2,10,3)]
  let ?U = "elj_note_referrer rid a' (n + 1) (U\<lparr>u_heap := set_closure_cell (u_heap U) a' (n + 1) c'\<rparr>)"
  have "u_upvalue F u a' (n + 1) (U\<lparr>u_in := ([TAG_UPVALREF] @ uleb_bytes (word_of_nat rid)) @ rest\<rparr>) = Inr (?U\<lparr>u_in := rest\<rparr>)" for rest
    using rid(1-3) c' by (simp add: u_upvalue_def tag_defs unat_small unat_small_0 elj_note_referrer_def)
  then show ?thesis
    using w join assms(10,5,12) by (intro exI [of _ "[TAG_UPVALREF] @ uleb_bytes (word_of_nat rid)"] exI [of _ ?U]) (simp add: elj_note_referrer_def)
next
  case None
  note heap = sync_heap [OF assms(9)]
  obtain w where w: "int (p_upvcount P) < ERIS_LJ_MAXREF" "emits P [TAG_UPVAL] ((pupv (us ! n) P)\<lparr>p_w := w\<rparr>)"
      "p v ((pupv (us ! n) P)\<lparr>p_w := w\<rparr>) = Inr P'"
    using upvalue_new_D [OF assms(13) None] assms(7) heap by metis
  let ?P = "(pupv (us ! n) P)\<lparr>p_w := w\<rparr>" and ?U = "uupv a' (n + 1) U"
  obtain us' e' where f: "closure_cell (u_heap U) a' (n + 1) = Some (c0 + n)" "c0 + n \<notin> ran (cm P U)" "a' < h_next (u_heap U)"
      "c0 + n < h_cnext (u_heap U)"
    using filling_D [OF assms(11,4)] by metis
  have lt: "int (u_upvcount U) < ERIS_LJ_MAXREF" using w(1) sync_upvs [OF assms(9)] by (simp add: upvs_ok_def)
  note sn = sync_newupv [OF assms(9) None w(1) f(1,3,4,2)]
  note fn = filling_new [OF assms(11,4) sync_upvs [OF assms(9)] None]
  have c0: "h_cnext (u_heap U0) \<le> c0 + n" using assms(6) by simp
  have s0: "sync G X (insert (us ! n) Y) {} ?P ?U" using sn(1) by simp
  obtain bs v' U1 where s: "emits ?P bs P'" "reads u ?U bs v' U1" "sync G X (insert (us ! n) Y) {} P' U1" "ext ?P ?U P' U1"
      "vrel (vm P' U1) v v'"
    using steps_D [OF assms(1) s0 assms(8) w(3)] by blast
  have e0: "ext P0 U0 ?P ?U" using sn(2) [OF assms(12,5) c0] by simp
  have fl: "filling us q a' c0 (n + 1) P' U1" using filling_ext [OF _ s(4)] fn by simp
  have cm: "cm P' U1 (us ! n) = Some (c0 + n)"
    using cm_ext [OF _ s(4)] cm_new [OF sync_upvs [OF assms(9)] f(1), of "us ! n"] by simp
  note sc = sync_setcell [OF s(3) cm assms(7) s(5)]
  have cell: "closure_cell (u_heap U1) a' (n + 1) = Some (c0 + n)"
    using keeps_obj [OF ext_keeps [OF s(4)], of a'] f(1,3) by (simp add: closure_cell_def)
  have old: "\<exists>x. h_cell (u_heap U1) (c0 + n) = Some (UClosed x)" using fl assms(4) unfolding filling_def by blast
  have set: "lua_setupvalue a' (n + 1) v' (u_heap U1) = Some (u_heap (set_cell (c0 + n) v' U1))"
    using cell old by (auto simp: lua_setupvalue_def)
  have "u_upvalue F u a' (n + 1) (U\<lparr>u_in := ([TAG_UPVAL] @ bs) @ rest\<rparr>) = Inr ((set_cell (c0 + n) v' U1)\<lparr>u_in := rest\<rparr>)" for rest
    using s(2) lt set by (simp add: u_upvalue_def tag_defs u_newupv_eq reads_def)
  moreover have "filling us q a' c0 (n + 1) P' (set_cell (c0 + n) v' U1)"
    using fl unfolding filling_def sc(2) by auto
  moreover have "vm P' U1 (LObj a) = Some (LObj a')" using vm_ext [OF _ s(4)] assms(10) by simp
  ultimately show ?thesis
    using emits_trans [OF w(2) s(1)] sc(1) sc(3) [OF ext_trans [OF e0 s(4)] c0]
    by (intro exI [of _ "[TAG_UPVAL] @ bs"] exI [of _ "set_cell (c0 + n) v' U1"]) simp
qed

lemma upvalues_step:
  assumes "paired G p u" "a \<in> X" "\<not> permanent G (LObj a)" "h_next (u_heap U0) \<le> a'" "h_cnext (u_heap U0) \<le> c0"
    and "\<forall>c \<in> set us. \<exists>v. h_cell (g_H G) c = Some (UClosed v) \<and> val_ok v"
  shows "m = length us - n \<Longrightarrow> n \<le> length us \<Longrightarrow> sync G X Y {} P U \<Longrightarrow> vm P U (LObj a) = Some (LObj a') \<Longrightarrow>
    filling us q a' c0 n P U \<Longrightarrow> ext P0 U0 P U \<Longrightarrow> p_upvalues E p (drop n us) P = Inr P' \<Longrightarrow>
    \<exists>bs U'. emits P bs P' \<and> (\<forall>rest. u_upvalues F u a' (n + 1) m (U\<lparr>u_in := bs @ rest\<rparr>) = Inr (U'\<lparr>u_in := rest\<rparr>))
      \<and> sync G X Y {} P' U' \<and> vm P' U' (LObj a) = Some (LObj a') \<and> ext P0 U0 P' U' \<and> filling us q a' c0 (length us) P' U'"
proof (induction m arbitrary: n P U)
  case 0
  then show ?case by (intro exI [of _ "[]"] exI [of _ U]) (auto simp: emits_def)
next
  case (Suc m)
  then have n: "n < length us" by simp
  obtain P1 where p: "p_upvalue E p (us ! n) P = Inr P1" "p_upvalues E p (drop (n + 1) us) P1 = Inr P'"
    using Suc.prems(7) n by (auto simp: Cons_nth_drop_Suc [symmetric] ebind_eq_Inr)
  obtain v where v: "h_cell (g_H G) (us ! n) = Some (UClosed v)" "val_ok v" using assms(6) n nth_mem by blast
  obtain bs U1 where b: "emits P bs P1" "\<forall>rest. u_upvalue F u a' (n + 1) (U\<lparr>u_in := bs @ rest\<rparr>) = Inr (U1\<lparr>u_in := rest\<rparr>)"
      "sync G X Y {} P1 U1" "vm P1 U1 (LObj a) = Some (LObj a')" "ext P0 U0 P1 U1" "filling us q a' c0 (n + 1) P1 U1"
    using upvalue_step [OF assms(1-3) n assms(4,5) v Suc.prems(3-6) p(1)] by metis
  have m: "m = length us - (n + 1)" using Suc.prems(1) by simp
  obtain cs U' where c: "emits P1 cs P'" "\<forall>rest. u_upvalues F u a' (n + 1 + 1) m (U1\<lparr>u_in := cs @ rest\<rparr>) = Inr (U'\<lparr>u_in := rest\<rparr>)"
      "sync G X Y {} P' U' \<and> vm P' U' (LObj a) = Some (LObj a') \<and> ext P0 U0 P' U' \<and> filling us q a' c0 (length us) P' U'"
    using Suc.IH [OF m _ b(3,4,6,5) p(2)] n by auto
  have "u_upvalues F u a' (n + 1) (Suc m) (U\<lparr>u_in := (bs @ cs) @ rest\<rparr>) = Inr (U'\<lparr>u_in := rest\<rparr>)" for rest
    using b(2) c(2) by simp
  then show ?case using emits_trans [OF b(1) c(1)] c(3) by blast
qed


lemma function_D:
  assumes "persist_typed E p (LObj a) P = Inr P'" "h_obj (p_heap P) a = Some (OFun proto us e)"
  obtains chunks w P1 where "e_dump E (e_wdebug E) proto = Some chunks" "length (concat chunks) < 2 ^ 32"
    "emits P ([TAG_FUNC] @ (u32le_bytes (word_of_nat (length (concat chunks))) @ concat chunks)
        @ uleb_bytes (word_of_nat (length us))) (P\<lparr>p_w := w\<rparr>)"
    "p_upvalues E p us (P\<lparr>p_w := w\<rparr>) = Inr P1" "p (LObj e) P1 = Inr P'"
proof -
  obtain Q R S P1 where q: "pbyte E TAG_FUNC P = Inr Q" "p_dump E proto Q = Inr R" "puleb E (length us) R = Inr S"
      "p_upvalues E p us S = Inr P1" "p (LObj e) P1 = Inr P'"
    using assms by (auto simp: persist_typed_def p_function_def ebind_eq_Inr)
  obtain w1 where w1: "Q = P\<lparr>p_w := w1\<rparr>" "emits P [TAG_FUNC] Q" using pbyte_D [OF q(1)] by blast
  obtain chunks w2 where w2: "e_dump E (e_wdebug E) proto = Some chunks" "R = Q\<lparr>p_w := w2\<rparr>" "length (concat chunks) < 2 ^ 32"
      "emits Q (u32le_bytes (word_of_nat (length (concat chunks))) @ concat chunks) R"
    using p_dump_D [OF q(2)] .
  obtain w3 where w3: "S = R\<lparr>p_w := w3\<rparr>" "emits R (uleb_bytes (word_of_nat (length us))) S" using puleb_D [OF q(3)] by blast
  have S: "S = P\<lparr>p_w := w3\<rparr>" using w1(1) w2(2) w3(1) by simp
  show ?thesis
    by (rule that [OF w2(1,3), of w3]) (use emits_trans [OF w1(2) emits_trans [OF w2(4) w3(2)]] q(4,5) S in simp_all)
qed

lemma val_ok_obj: "val_ok (LObj e)"
  by (simp add: val_ok_def)

lemma type_table: "is_table H e \<Longrightarrow> lua_type H (LObj e) = 5"
  by (auto simp: is_table_def lua_type_def)

lemma claimed_count: "n < 2 ^ 31 \<Longrightarrow> signed_take_bit 31 (uint (word_of_nat n :: u64)) = int n"
proof -
  assume "n < 2 ^ 31"
  then have "uint (word_of_nat n :: u64) = int n" by (simp add: unsigned_of_nat take_bit_nat_eq_self)
  then show ?thesis using \<open>n < 2 ^ 31\<close> by (simp add: signed_take_bit_int_eq_self)
qed

lemma filling_done:
  assumes "filling us q a' c0 (length us) P U"
  obtains us' e' where "h_obj (u_heap U) a' = Some (OFun q us' e')" "list_all2 (\<lambda>c c'. cm P U c = Some c') us us'"
  using assms unfolding filling_def by (auto simp: list_all2_conv_all_nth)

lemma function_step:
  assumes "paired G (persist (g_E G) r) (unpersist (g_F G) r)" "sync G X Y {} P U" "p_ref P (LObj a) = None"
    and "\<not> permanent G (LObj a)" "h_obj (g_H G) a = Some (OFun proto us e)" "obj_ok G (OFun proto us e)"
    and "persist (g_E G) (Suc r) (LObj a) P = Inr P'"
  shows "steps G X Y {} P U (LObj a) P' (unpersist (g_F G) (Suc r))"
proof -
  let ?p = "persist (g_E G) r" and ?u = "unpersist (g_F G) r" and ?P = "preg (LObj a) P"
  let ?a = "h_next (u_heap U)" and ?c = "h_cnext (u_heap U)" and ?n = "length us"
  note new = keyed_new [OF assms(7) is_ref_simps(2) assms(3)]
  have typed: "persist_typed (g_E G) ?p (LObj a) ?P = Inr P'" using new(2) assms(4) by simp
  have heap: "h_obj (p_heap ?P) a = Some (OFun proto us e)" using assms(5) sync_heap [OF assms(2)] by simp
  obtain chunks w P1 where d: "e_dump (g_E G) (e_wdebug (g_E G)) proto = Some chunks" "length (concat chunks) < 2 ^ 32"
      "emits ?P ([TAG_FUNC] @ (u32le_bytes (word_of_nat (length (concat chunks))) @ concat chunks)
          @ uleb_bytes (word_of_nat ?n)) (?P\<lparr>p_w := w\<rparr>)"
      "p_upvalues (g_E G) ?p us (?P\<lparr>p_w := w\<rparr>) = Inr P1" "?p (LObj e) P1 = Inr P'"
    using function_D [OF typed heap] .
  have ok: "?n < 2 ^ 31" "is_table (g_H G) e" "\<forall>c \<in> set us. \<exists>v. h_cell (g_H G) c = Some (UClosed v) \<and> val_ok v"
    using assms(6) by (auto simp: obj_ok_def)
  obtain q where q: "f_load (g_F G) (concat chunks) = LoadFun q ?n" using assms(6) d(1) by (auto simp: obj_ok_def)
  let ?U = "ureg (LObj ?a) (uclosure (g_F G) q ?n U)"
  note al = sync_closure [OF assms(2,3) new(1) assms(4,5), where F = "g_F G" and q = q and n = ?n]
  have start: "filling us q ?a ?c 0 ?P ?U" using filling_start [OF assms(2) al(4)] .
  obtain bs U1 where b: "emits (?P\<lparr>p_w := w\<rparr>) bs P1"
      "\<forall>rest. u_upvalues (g_F G) ?u ?a 1 ?n (?U\<lparr>u_in := bs @ rest\<rparr>) = Inr (U1\<lparr>u_in := rest\<rparr>)"
      "sync G (insert a X) Y {} P1 U1" "vm P1 U1 (LObj a) = Some (LObj ?a)" "ext P U P1 U1" "filling us q ?a ?c ?n P1 U1"
  proof (rule exE [OF upvalues_step [where X = "insert a X" and ?U0.0 = U and a' = ?a and ?c0.0 = ?c and m = ?n and n = 0 and a = a
        and P = "?P\<lparr>p_w := w\<rparr>" and U = ?U and q = q and ?P0.0 = P and E = "g_E G" and P' = P1 and F = "g_F G" and Y = Y and us = us,
        OF assms(1) insertI1 assms(4) le_refl le_refl ok(3)]])
  qed (use al start d(4) in simp_all, blast)
  obtain cs v' U2 where c: "emits P1 cs P'" "reads ?u U1 cs v' U2" "sync G (insert a X) Y {} P' U2" "ext P1 U1 P' U2"
      "vrel (vm P' U2) (LObj e) v'"
    using steps_D [OF assms(1) b(3) val_ok_obj d(5)] by blast
  obtain us' e' where fin: "h_obj (u_heap U2) ?a = Some (OFun q us' e')" "list_all2 (\<lambda>c c'. cm P' U2 c = Some c') us us'"
    using filling_done [OF filling_ext [OF b(6) c(4)]] .
  obtain ea where ea: "v' = LObj ea" "lua_type (u_heap U2) v' = 5"
    using vrel_type [OF sync_iso [OF c(3)] c(5)] type_table [OF ok(2)] by metis
  have vm2: "vm P' U2 (LObj a) = Some (LObj ?a)" using vm_ext [OF b(4) c(4)] .
  have same: "cells_same U2 ((u_heap U2)\<lparr>h_obj := (h_obj (u_heap U2))(?a \<mapsto> OFun q us' ea)\<rparr>)"
    using fin(1) by (simp add: cells_same_def closure_cell_def)
  let ?U' = "set_obj ?a (OFun q us' ea) U2"
  note ch = sync_change [OF c(3) insertI1 vm2 assms(4) fin(1) kind_fun same]
  have whole: "contents_ok G (vm P' ?U') (cm P' ?U') (u_heap ?U') a ?a"
    using assms(5) d(1) q fin(2) c(5) ea(1) unfolding contents_ok_def ch(2) by auto
  have lt: "int (u_refcount U) < ERIS_LJ_MAXREF" using new(1) refs_count [OF sync_refs [OF assms(2)]] by simp
  have len: "unat (word_of_nat (length (concat chunks)) :: u32) = length (concat chunks)"
    using d(2) by (simp add: unat_of_nat take_bit_nat_eq_self del: length_concat)
  have "reads (unpersist (g_F G) (Suc r)) U
      (([TAG_FUNC] @ (u32le_bytes (word_of_nat (length (concat chunks))) @ concat chunks) @ uleb_bytes (word_of_nat ?n)) @ bs @ cs)
      (LObj ?a) ?U'"
    using lt len q b(2) c(2) ea fin(1) claimed_count [OF ok(1)]
    by (simp add: reads_def tag_defs u_function_def new_closure_eq registerobject_eq del: length_concat)
  moreover have "emits P
      (([TAG_FUNC] @ (u32le_bytes (word_of_nat (length (concat chunks))) @ concat chunks) @ uleb_bytes (word_of_nat ?n)) @ bs @ cs) P'"
    using emits_trans [OF d(3) emits_trans [OF b(1) c(1)]] by (simp add: emits_def)
  ultimately show ?thesis
    using sync_finish [OF ch(1) _ whole] ch(3) [OF ext_trans [OF b(5) c(4)]] vm2
    by (intro stepsI [of P _ P' _ U _ ?U']) (simp_all add: vrel_ref)
qed

section \<open>The round trip\<close>

lemma replay_step:
  assumes "sync G X Y {} P U" "p_ref P (LObj a) = None" "\<not> permanent G (LObj a)" "h_obj (g_H G) a = Some OReplay"
    and "persist (g_E G) (Suc r) (LObj a) P = Inr P'"
  shows "steps G X Y {} P U (LObj a) P' (unpersist (g_F G) (Suc r))"
proof -
  let ?P = "preg (LObj a) P" and ?a = "h_next (u_heap U)"
  let ?U = "ureg (LObj (h_next (u_heap U))) (ualloc OReplay U)"
  note new = keyed_new [OF assms(5) is_ref_simps(2) assms(2)]
  have "pbyte (g_E G) TAG_FORIN_ITER ?P = Inr P'"
    using new(2) assms(3,4) sync_heap [OF assms(1)] by (simp add: persist_typed_def)
  then obtain w where w: "P' = ?P\<lparr>p_w := w\<rparr>" "emits ?P [TAG_FORIN_ITER] P'" using pbyte_D by blast
  have lt: "int (u_refcount U) < ERIS_LJ_MAXREF" using new(1) refs_count [OF sync_refs [OF assms(1)]] by simp
  note al = sync_alloc [OF assms(1,2) new(1) assms(3,4), of OReplay, simplified]
  have "contents_ok G (vm ?P ?U) (cm ?P ?U) (u_heap ?U) a ?a"
    using assms(4) by (simp add: contents_ok_def)
  note fin = sync_finish [OF al(1,3) this]
  have "reads (unpersist (g_F G) (Suc r)) U [TAG_FORIN_ITER] (LObj ?a) ?U"
    using lt by (simp add: reads_def tag_defs alloc_obj_eq registerobject_eq)
  moreover have "emits P [TAG_FORIN_ITER] P'" using w(2) by (simp add: emits_def)
  ultimately show ?thesis using fin al(2,3) w(1) by (intro stepsI [of P _ P']) (simp_all add: vrel_ref)
qed

text \<open>The levels of recursion are the same on both sides, so a graph that can be written can be read.\<close>

lemma paired_persist: "heap_ok G \<Longrightarrow> vm_ok G \<Longrightarrow> paired G (persist (g_E G) r) (unpersist (g_F G) r)"
proof (induction r)
  case 0
  then show ?case by (simp add: paired_def)
next
  case (Suc r)
  note IH = Suc.IH [OF Suc.prems]
  have nan: "d_isnan (f_nan (g_F G))" using Suc.prems(2) by (simp add: vm_ok_def)
  show ?case
    unfolding paired_def
  proof (intro allI impI)
    fix X Y P U v P'
    assume s: "sync G X Y {} P U" and v: "val_ok v" and p: "persist (g_E G) (Suc r) v P = Inr P'"
    show "steps G X Y {} P U v P' (unpersist (g_F G) (Suc r))"
    proof (cases "is_ref v")
      case False
      then show ?thesis using scalar_step [OF p s _ nan] by (cases v) (auto simp: is_ref_def)
    next
      case ref: True
      note new = keyed_new(2) [OF p ref]
      show ?thesis
      proof (cases "p_ref P v")
        case (Some rid)
        then show ?thesis using ref_step [OF s ref Some _ p] by simp
      next
        case None
        show ?thesis
        proof (cases "permanent G v")
          case True
          then show ?thesis using permanent_step [OF s None True p] by simp
        next
          case False
          show ?thesis
          proof (cases v)
            case (LStr t)
            then show ?thesis using string_step [OF s, of t r P'] v p by (simp add: val_ok_def)
          next
            case (LObj a)
            note new' = new [OF None] and none = None [unfolded LObj] and np = False [unfolded LObj] and p' = p [unfolded LObj]
            have ok: "obj_ok G x" if "h_obj (g_H G) a = Some x" for x using Suc.prems(1) that np unfolding heap_ok_def by blast
            have heap: "h_obj (p_heap (preg v P)) a = h_obj (g_H G) a" using sync_heap [OF s] by simp
            show ?thesis
            proof (cases "h_obj (g_H G) a")
              case None
              then show ?thesis using new' np LObj heap by (simp add: persist_typed_def)
            next
              case (Some x)
              show ?thesis
                using table_step [OF IH s none np _ _ p' Suc.prems(2)] function_step [OF IH s none np _ _ p'] replay_step [OF s none np _ p']
                  Some ok [OF Some] new' np LObj heap
                by (cases x) (simp_all add: persist_typed_def obj_ok_def)
            qed
          qed (use new [OF None] False ref in \<open>auto simp: persist_typed_def is_ref_def split: if_splits\<close>)
        qed
      qed
    qed
  qed
qed

text \<open>Where both sides start: \<open>l_persist\<close> and \<open>l_unpersist\<close> zero \<open>Info\<close> and make the tables.\<close>

definition pst_start :: "wbuf \<Rightarrow> heap \<Rightarrow> pst" where
  "pst_start w H =
     \<lparr>p_w = w, p_ref = Map.empty, p_refcount = 0, p_upv = Map.empty, p_upvcount = 0, p_curid = 0, p_pending = [], p_heap = H, p_diags = []\<rparr>"

definition ust_start :: "byte list \<Rightarrow> heap \<Rightarrow> ust" where
  "ust_start p K =
     \<lparr>u_in = p, u_ref = Map.empty, u_refcount = 0, u_upv = Map.empty, u_upvcount = 0, u_list = (\<lambda>_. []), u_fill = [], u_heap = K, u_rthreads = []\<rparr>"

text \<open>The heap the restore starts from: the addresses from \<open>g_B\<close> on are free.\<close>

definition base_ok :: "world \<Rightarrow> heap \<Rightarrow> bool" where
  "base_ok G K = (perms_ok G K \<and> g_B G = h_next K \<and> (\<forall>a. h_next K \<le> a \<longrightarrow> h_obj K a = None))"

definition same_graph :: "world \<Rightarrow> lval \<Rightarrow> heap \<Rightarrow> lval \<Rightarrow> bool" where
  "same_graph G v K v' = (\<exists>\<rho> \<gamma>. iso G {} {} \<rho> \<gamma> K \<and> vrel \<rho> v v')"

definition heap_kept :: "heap \<Rightarrow> heap \<Rightarrow> bool" where
  "heap_kept K K' =
     ((\<forall>a < h_next K. h_obj K' a = h_obj K a) \<and> (\<forall>c < h_cnext K. h_cell K' c = h_cell K c))"

lemma sync_start:
  assumes "base_ok G K"
  shows "sync G {} {} {} (pst_start w (g_H G)) (ust_start p K)"
  using assms by (auto simp: sync_def pst_start_def ust_start_def refs_ok_def upvs_ok_def iso_def base_ok_def
      vm_def cm_def ERIS_LJ_MAXREF_def)

lemma persist_unpersist:
  assumes "heap_ok G" "vm_ok G" "base_ok G K" "val_ok v" "persist (g_E G) maxrec v (pst_start w (g_H G)) = Inr P"
  shows "\<exists>bs v' U. w_out (p_w P) = w_out w @ bs
    \<and> (\<forall>rest. unpersist (g_F G) maxrec (ust_start (bs @ rest) K) = Inr (v', U\<lparr>u_in := rest\<rparr>))
    \<and> same_graph G v (u_heap U) v' \<and> heap_kept K (u_heap U) \<and> u_fill U = []"
proof -
  have start: "ust_start p K = (ust_start [] K)\<lparr>u_in := p\<rparr>" for p by (simp add: ust_start_def)
  obtain bs v' U where s: "emits (pst_start w (g_H G)) bs P" "reads (unpersist (g_F G) maxrec) (ust_start [] K) bs v' U"
      "sync G {} {} {} P U" "ext (pst_start w (g_H G)) (ust_start [] K) P U" "vrel (vm P U) v v'"
    using steps_D [OF paired_persist [OF assms(1,2)] sync_start [OF assms(3)] assms(4,5)] by blast
  have "heap_kept K (u_heap U)" using keepsD [OF ext_keeps [OF s(4)]] by (simp add: heap_kept_def ust_start_def)
  moreover have "unpersist (g_F G) maxrec (ust_start (bs @ rest) K) = Inr (v', U\<lparr>u_in := rest\<rparr>)" for rest
    using s(2) unfolding reads_def start [of "bs @ rest"] by blast
  moreover have "w_out (p_w P) = w_out w @ bs" using s(1) by (simp add: emits_def pst_start_def)
  ultimately show ?thesis using sync_iso [OF s(3)] sync_fill [OF s(3)] s(5) unfolding same_graph_def by blast
qed

text \<open>C1: a graph of tables, strings, numbers, closures, replay iterators and permanents that \<open>persist\<close>
  writes is rebuilt by \<open>unpersist\<close> at the same recursion limit, from the bytes written and nothing
  after them, as an isomorphic graph: cycles and sharing of objects and of upvalues are restored (the
  correspondence is one to one), tables have their pairs, in whatever order the restoring VM
  traverses them, and their metatables, closures their upvalues and environment, permanents are the
  objects their keys name, a number is the same bit pattern or, for a NaN, a NaN; and nothing that was
  on the heap before has changed.\<close>

theorem graph_roundtrip:
  assumes "heap_ok G" "vm_ok G" "base_ok G K" "val_ok v" "persist (g_E G) maxrec v (pst_start w (g_H G)) = Inr P"
  shows "\<exists>bs v' U. w_out (p_w P) = w_out w @ bs
    \<and> (\<forall>rest. unpersist (g_F G) maxrec (ust_start (bs @ rest) K) = Inr (v', U\<lparr>u_in := rest\<rparr>))
    \<and> same_graph G v (u_heap U) v' \<and> heap_kept K (u_heap U)"
  using persist_unpersist [OF assms] by blast

text \<open>A table that holds itself and a permanent, and a closure whose upvalue is the table.\<close>

definition world1 :: world where
  "world1 =
     \<lparr>g_E = \<lparr>e_grow = (\<lambda>_ _. True), e_perms = (\<lambda>v. if v = LObj 2 then LStr [80] else LNil), e_spkey = [95],
             e_call = (\<lambda>_ _ _. Inl 0), e_dump = (\<lambda>_ p. Some [[7]]), e_wdebug = True, e_keyindex = 0,
             e_thread = (\<lambda>_ _ _. Inl (Err ''thread'' []))\<rparr>,
      g_F = \<lparr>f_nan = 0xfff8000000000000, f_order = (\<lambda>a. rev), f_uperms = (\<lambda>k. if k = LStr [80] then LObj 0 else LNil), f_load = (\<lambda>_. LoadFun 7 2), f_globals = 0,
             f_inlen = 0, f_thread = (\<lambda>_ _. Inl (Err ''thread'' [])), f_fr2 = 1\<rparr>,
      g_H = \<lparr>h_obj = [0 \<mapsto> OTab [(LStr [97], LObj 0), (LStr [98], LObj 1), (LObj 2, LBool True)] (Some 0),
                      1 \<mapsto> OFun 7 [5, 5] 0, 2 \<mapsto> OCFun 9], h_next = 3,
             h_cell = [5 \<mapsto> UClosed (LObj 0)], h_cnext = 6, h_stack = (\<lambda>_ _. LNil), h_open = (\<lambda>_. []), h_top = (\<lambda>_. 0), h_env = (\<lambda>_. 0), h_coro = (\<lambda>_. idle_coro), h_proto = (\<lambda>_. empty_proto), h_immut = (\<lambda>_. False)\<rparr>,
      g_B = 1\<rparr>"

definition heap1 :: heap where
  "heap1 = \<lparr>h_obj = [0 \<mapsto> OCFun 4], h_next = 1, h_cell = Map.empty, h_cnext = 0, h_stack = (\<lambda>_ _. LNil), h_open = (\<lambda>_. []), h_top = (\<lambda>_. 0), h_env = (\<lambda>_. 0), h_coro = (\<lambda>_. idle_coro), h_proto = (\<lambda>_. empty_proto), h_immut = (\<lambda>_. False)\<rparr>"

lemma heap_ok_world1: "heap_ok world1"
  by (auto simp: heap_ok_def obj_ok_def world1_def val_ok_def key_ok_def key_norm_def is_table_def spkey_of_def
      tab_get_def Let_def split: if_splits)

lemma vm_ok_world1: "vm_ok world1"
proof -
  have "d_isnan 0xfff8000000000000" by code_simp
  then show ?thesis by (simp add: vm_ok_def world1_def)
qed

lemma base_ok_heap1: "base_ok world1 heap1"
  by (auto simp: base_ok_def perms_ok_def restored_def world1_def heap1_def lua_type_def)

lemma persist_world1: "\<exists>P. persist (g_E world1) 10 (LObj 0) (pst_start \<lparr>w_out = [], w_cap = 256\<rparr> (g_H world1)) = Inr P"
proof -
  have "(case persist (g_E world1) 10 (LObj 0) (pst_start \<lparr>w_out = [], w_cap = 256\<rparr> (g_H world1)) of Inr P \<Rightarrow> True | Inl e \<Rightarrow> False)"
    by code_simp
  then show ?thesis by (cases "persist (g_E world1) 10 (LObj 0) (pst_start \<lparr>w_out = [], w_cap = 256\<rparr> (g_H world1))") auto
qed

theorem graph_roundtrip_witness:
  "\<exists>bs a U ps. unpersist (g_F world1) 10 (ust_start bs heap1) = Inr (LObj a, U)
     \<and> h_obj (u_heap U) a = Some (OTab ps (Some a)) \<and> (LStr [97], LObj a) \<in> set ps
     \<and> h_obj (u_heap U) 0 = Some (OCFun 4)"
proof -
  obtain P where P: "persist (g_E world1) 10 (LObj 0) (pst_start \<lparr>w_out = [], w_cap = 256\<rparr> (g_H world1)) = Inr P"
    using persist_world1 by blast
  obtain bs v' U where r: "\<forall>rest. unpersist (g_F world1) 10 (ust_start (bs @ rest) heap1) = Inr (v', U\<lparr>u_in := rest\<rparr>)"
      "same_graph world1 (LObj 0) (u_heap U) v'" "heap_kept heap1 (u_heap U)"
    using graph_roundtrip [OF heap_ok_world1 vm_ok_world1 base_ok_heap1 _ P] by (auto simp: val_ok_def)
  obtain \<rho> \<gamma> where g: "iso world1 {} {} \<rho> \<gamma> (u_heap U)" "\<rho> (LObj 0) = Some v'"
    using r(2) by (auto simp: same_graph_def vrel_ref)
  have np: "\<not> permanent world1 (LObj 0)" by (simp add: world1_def)
  obtain a where a: "v' = LObj a" using iso_id [OF g] np by (auto simp: idrel_def)
  have "contents_ok world1 \<rho> \<gamma> (u_heap U) 0 a" using iso_obj [OF g(1), of 0 a] g(2) a np by simp
  then obtain x where x: "h_obj (u_heap U) a = Some x"
      "orel world1 \<rho> \<gamma> (OTab [(LStr [97], LObj 0), (LStr [98], LObj 1), (LObj 2, LBool True)] (Some 0)) x"
    by (auto simp: contents_ok_def world1_def)
  obtain ps mt where t: "x = OTab ps mt" using x(2) by (cases x) auto
  have "mt = Some a" using x(2) t g(2) a by (auto simp: mrel_def vrel_ref option_rel_Some1)
  moreover have "(LStr [97], LObj a) \<in> set ps"
    using x(2) t g(2) a iso_id [OF g(1), of "LStr [97]"]
    by (auto simp: pairs_rel_def list_all2_Cons1 pairrel_def vrel_ref idrel_str dest!: mset_eq_setD)
  moreover have "h_obj (u_heap U) 0 = Some (OCFun 4)" using r(3) by (simp add: heap_kept_def heap1_def)
  ultimately show ?thesis using r(1) [rule_format, of "[]"] x(1) t a
    by (intro exI [of _ bs] exI [of _ a] exI [of _ "U\<lparr>u_in := []\<rparr>"] exI [of _ ps]) simp
qed

end
