(* ===== verification/ErisFill.thy ===== *)
theory ErisFill
  imports ErisObj
begin

text \<open>
  serializer/eris_lj.c, \<open>elj_fill\<close>: once the graph exists, the recipe of every special table is
  called once on its shell, in an order in which every unfilled shell the recipe could reach on the
  load-time heap is already filled; when there is no such order the restore is refused. The state of
  the analysis (\<open>Reach\<close>) is the record \<open>reach\<close>; a walk's visited stamps are the set of objects stamped
  with its serial.
\<close>

section \<open>Reachability\<close>

definition ERIS_LJ_REACH_BUDGET :: int where "ERIS_LJ_REACH_BUDGET = 1000000"

record reach =
  r_deps :: "addr list"
  r_visited :: "addr list"
  r_work :: "addr list"
  r_visits :: int

text \<open>What one walk is given: the heap, the host objects, the shells not filled yet, the walk's own shell,
  \<open>LJ_FR2\<close>, and its numbers for a message.\<close>

record walk =
  k_heap :: heap
  k_perms :: "addr list"
  k_shells :: "addr list"
  k_self :: addr
  k_fr2 :: nat
  k_msg :: "int list"

definition walkable :: "walk \<Rightarrow> addr \<Rightarrow> bool" where
  "walkable W a =
     ((case h_obj (k_heap W) a of
         Some (OTab ps mt) \<Rightarrow> True | Some (OFun p us e) \<Rightarrow> True | Some (OThread m running c d) \<Rightarrow> \<not> running | _ \<Rightarrow> False)
      \<and> a \<notin> set (k_perms W))"

definition is_shell :: "walk \<Rightarrow> addr \<Rightarrow> bool" where
  "is_shell W a =
     ((case h_obj (k_heap W) a of Some (OTab ps mt) \<Rightarrow> True | _ \<Rightarrow> False) \<and> a \<in> set (k_shells W) \<and> a \<noteq> k_self W)"

definition reach_push :: "walk \<Rightarrow> lval \<Rightarrow> reach \<Rightarrow> reach" where
  "reach_push W v R =
     (case v of
        LObj a \<Rightarrow>
          if \<not> walkable W a then R
          else
            let R = (if is_shell W a then R\<lparr>r_deps := List.insert a (r_deps R)\<rparr> else R)
            in if a \<in> set (r_visited R) then R
               else R\<lparr>r_visited := a # r_visited R, r_work := a # r_work R\<rparr>
      | _ \<Rightarrow> R)"

text \<open>What an object references, in the order it is pushed: a table's metatable, then its pairs (a nil
  value is in no pair); a closure's upvalues and environment; a thread's live slots and environment.\<close>

definition references :: "walk \<Rightarrow> addr \<Rightarrow> lval list" where
  "references W a =
     (let K = k_heap W in
      case h_obj K a of
        Some (OTab ps mt) \<Rightarrow> (case mt of None \<Rightarrow> [] | Some m \<Rightarrow> [LObj m]) @ concat (map (\<lambda>(k, v). [k, v]) ps)
      | Some (OFun p us e) \<Rightarrow> map (cell_value K) us @ [LObj e]
      | Some (OThread m r c d) \<Rightarrow> map (h_stack K a) [1 + k_fr2 W..<h_top K a] @ [LObj (h_env K a)]
      | _ \<Rightarrow> [])"

definition reach_visit :: "walk \<Rightarrow> addr \<Rightarrow> reach \<Rightarrow> eris_err + reach" where
  "reach_visit W a R =
     (let visits = r_visits R + 1 in
      if visits > ERIS_LJ_REACH_BUDGET
      then Inl (Err ''dependency analysis exceeded its budget'' (k_msg W @ [visits]))
      else Inr (foldl (\<lambda>R v. reach_push W v R) (R\<lparr>r_visits := visits\<rparr>) (references W a)))"

lemma push_visits [simp]: "r_visits (reach_push W v R) = r_visits R"
  by (auto simp: reach_push_def Let_def split: lval.splits)

lemma pushes_visits [simp]: "r_visits (foldl (\<lambda>R v. reach_push W v R) R vs) = r_visits R"
  by (induction vs arbitrary: R) auto

lemma visit_visits: "reach_visit W a R = Inr R' \<Longrightarrow> r_visits R' = r_visits R + 1 \<and> r_visits R < ERIS_LJ_REACH_BUDGET"
  by (auto simp: reach_visit_def Let_def split: if_splits)

text \<open>The worklist is a stack; the budget bounds it.\<close>

function reach_work :: "walk \<Rightarrow> reach \<Rightarrow> eris_err + reach" where
  "reach_work W R =
     (case r_work R of
        [] \<Rightarrow> Inr R
      | a # rest \<Rightarrow> ebind (reach_visit W a (R\<lparr>r_work := rest\<rparr>)) (reach_work W))"
  by pat_completeness auto
termination
  by (relation "measure (\<lambda>(W, R). nat (ERIS_LJ_REACH_BUDGET - r_visits R))") (auto dest!: visit_visits)

declare reach_work.simps [simp del]

definition reach_from :: "walk \<Rightarrow> addr \<Rightarrow> int \<Rightarrow> eris_err + addr list \<times> int" where
  "reach_from W closure visits =
     ebind (reach_work W (reach_push W (LObj closure) \<lparr>r_deps = [], r_visited = [], r_work = [], r_visits = visits\<rparr>))
           (\<lambda>R. Inr (r_deps R, r_visits R))"

section \<open>Filling\<close>

record fenv =
  l_perms :: "lval list"
  l_fr2 :: nat
  l_call :: "heap \<Rightarrow> addr \<Rightarrow> lval \<Rightarrow> nat + (heap \<times> lval)"

text \<open>\<open>PERMSET\<close>: the values of the permanents table that can hold a reference.\<close>

definition permset :: "fenv \<Rightarrow> heap \<Rightarrow> addr list" where
  "permset L K = List.map_filter (\<lambda>v. case v of LObj a \<Rightarrow> if lua_type K v \<in> {5, 6, 8} then Some a else None | _ \<Rightarrow> None) (l_perms L)"

text \<open>\<open>recipes\<close> is the list of shells in registration order, each with its recipe and byte offset; a shell's
  ordinal is its position from 1. \<open>open\<close> lists the ordinals still to fill, highest first.\<close>

type_synonym recipes = "(addr \<times> addr \<times> nat) list"

definition shell_of :: "recipes \<Rightarrow> nat \<Rightarrow> addr" where
  "shell_of rs k = fst (rs ! (k - 1))"

definition closure_of :: "recipes \<Rightarrow> nat \<Rightarrow> addr" where
  "closure_of rs k = fst (snd (rs ! (k - 1)))"

definition offset_of :: "recipes \<Rightarrow> nat \<Rightarrow> nat" where
  "offset_of rs k = snd (snd (rs ! (k - 1)))"

definition msg :: "recipes \<Rightarrow> nat \<Rightarrow> int list" where
  "msg rs k = [int k, int (length rs), int (offset_of rs k)]"

fun fill_deps :: "fenv \<Rightarrow> heap \<Rightarrow> recipes \<Rightarrow> nat list \<Rightarrow> int \<Rightarrow> eris_err + (nat \<times> addr list) list" where
  "fill_deps L K rs [] visits = Inr []"
| "fill_deps L K rs (k # ks) visits =
     (let W = \<lparr>k_heap = K, k_perms = permset L K, k_shells = map fst rs, k_self = shell_of rs k, k_fr2 = l_fr2 L, k_msg = msg rs k\<rparr>
      in ebind (reach_from W (closure_of rs k) visits) (\<lambda>(ds, visits).
         ebind (fill_deps L K rs ks visits) (\<lambda>rest. Inr ((k, ds) # rest))))"

text \<open>A recipe is ready when no shell it reaches is still to fill.\<close>

definition blockers :: "recipes \<Rightarrow> (nat \<times> addr list) list \<Rightarrow> nat list \<Rightarrow> nat \<Rightarrow> nat list" where
  "blockers rs deps todo k =
     filter (\<lambda>j. shell_of rs j \<in> set (case map_of deps k of Some ds \<Rightarrow> ds | None \<Rightarrow> [])) todo"

definition fenv_of :: "heap \<Rightarrow> addr \<Rightarrow> addr" where
  "fenv_of K f = (case h_obj K f of Some (OFun p us e) \<Rightarrow> e | _ \<Rightarrow> h_env K f)"

definition elj_fill_one :: "fenv \<Rightarrow> recipes \<Rightarrow> nat list \<Rightarrow> nat \<Rightarrow> heap \<Rightarrow> eris_err + heap" where
  "elj_fill_one L rs todo k K =
     (let shell = shell_of rs k; closure = closure_of rs k; left = remove1 k todo in
      if fenv_of K closure \<in> shell_of rs ` set left
      then Inl (Err ''its environment is an unfilled special table'' (msg rs k))
      else case l_call L K closure (LObj shell) of
        Inl n \<Rightarrow> Inl (Err ''recipe failed'' (msg rs k @ [int n]))
      | Inr (K, r) \<Rightarrow>
          if r \<noteq> LNil \<and> r \<noteq> LObj shell
          then Inl (Err ''recipe returned a value instead of filling its argument'' [int k, int (length rs), lua_type K r])
          else case h_obj K shell of
            Some (OTab ps (Some m)) \<Rightarrow> Inr K
          | _ \<Rightarrow> Inl (Err ''recipe left its object without a metatable'' [int k, int (length rs)]))"

text \<open>The passes: the highest ready ordinal, or the refusal, which names the highest blocked recipe and the
  lowest ordinal it waits for.\<close>

fun fill_loop :: "nat \<Rightarrow> fenv \<Rightarrow> recipes \<Rightarrow> (nat \<times> addr list) list \<Rightarrow> nat list \<Rightarrow> heap \<Rightarrow> eris_err + heap" where
  "fill_loop 0 L rs deps todo K = Inr K"
| "fill_loop (Suc left) L rs deps todo K =
     (case find (\<lambda>k. blockers rs deps todo k = []) todo of
        None \<Rightarrow>
          Inl (Err ''no fill order runs every reachable special first''
                 (msg rs (hd todo) @ [int (Min (set (blockers rs deps todo (hd todo)))), int (length rs), int (length todo)]))
      | Some k \<Rightarrow> ebind (elj_fill_one L rs todo k K) (fill_loop left L rs deps (remove1 k todo)))"

definition elj_fill :: "fenv \<Rightarrow> recipes \<Rightarrow> heap \<Rightarrow> eris_err + heap" where
  "elj_fill L rs K =
     (let n = length rs in
      if n = 0 then Inr K
      else ebind (fill_deps L K rs [1..<n + 1] 0) (\<lambda>deps. fill_loop n L rs deps (rev [1..<n + 1]) K))"


section \<open>What a walk finds\<close>

text \<open>What a recipe that has an object can read from it, said of the objects and not of the walk: the
  metatable, a key and a value of a pair, what an upvalue is now, the environment, a slot that a
  coroutine will return to.\<close>

inductive gives :: "walk \<Rightarrow> addr \<Rightarrow> lval \<Rightarrow> bool" for W where
  Metatable: "h_obj (k_heap W) a = Some (OTab ps (Some m)) \<Longrightarrow> gives W a (LObj m)"
| Key: "h_obj (k_heap W) a = Some (OTab ps mt) \<Longrightarrow> (k, v) \<in> set ps \<Longrightarrow> gives W a k"
| Field: "h_obj (k_heap W) a = Some (OTab ps mt) \<Longrightarrow> (k, v) \<in> set ps \<Longrightarrow> gives W a v"
| Closed: "h_obj (k_heap W) a = Some (OFun p us e) \<Longrightarrow> c \<in> set us \<Longrightarrow> h_cell (k_heap W) c = Some (UClosed v) \<Longrightarrow> gives W a v"
| Open: "h_obj (k_heap W) a = Some (OFun p us e) \<Longrightarrow> c \<in> set us \<Longrightarrow> h_cell (k_heap W) c = Some (UOpen co i) \<Longrightarrow>
    gives W a (h_stack (k_heap W) co i)"
| Environment: "h_obj (k_heap W) a = Some (OFun p us e) \<Longrightarrow> gives W a (LObj e)"
| Slot: "h_obj (k_heap W) a = Some (OThread m r c d) \<Longrightarrow> k_fr2 W < i \<Longrightarrow> i < h_top (k_heap W) a \<Longrightarrow> gives W a (h_stack (k_heap W) a i)"
| ThreadEnv: "h_obj (k_heap W) a = Some (OThread m r c d) \<Longrightarrow> gives W a (LObj (h_env (k_heap W) a))"

inductive_simps gives_iff: "gives W a v"

text \<open>The visit pushes every object that its object gives, and none that it does not.\<close>

lemma cell_value_obj:
  "cell_value K c = LObj b \<longleftrightarrow> h_cell K c = Some (UClosed (LObj b)) \<or> (\<exists>co i. h_cell K c = Some (UOpen co i) \<and> h_stack K co i = LObj b)"
  by (auto simp: cell_value_def split: option.splits upval.splits)

lemma table_gives:
  assumes "h_obj (k_heap W) a = Some (OTab ps mt)"
  shows "LObj b \<in> set (references W a) \<longleftrightarrow> gives W a (LObj b)"
proof -
  have "gives W a (LObj b) \<longleftrightarrow> mt = Some b \<or> (\<exists>v. (LObj b, v) \<in> set ps) \<or> (\<exists>k. (k, LObj b) \<in> set ps)"
    using assms by (auto simp: gives_iff)
  moreover have "LObj b \<in> set (references W a) \<longleftrightarrow> mt = Some b \<or> (\<exists>v. (LObj b, v) \<in> set ps) \<or> (\<exists>k. (k, LObj b) \<in> set ps)"
    using assms by (cases mt) (auto simp: references_def Let_def; force)+
  ultimately show ?thesis by simp
qed

lemma references_gives: "LObj b \<in> set (references W a) \<longleftrightarrow> gives W a (LObj b)"
proof (cases "h_obj (k_heap W) a")
  case None
  then show ?thesis by (simp add: references_def gives_iff)
next
  case (Some x)
  show ?thesis
  proof (cases x)
    case (OTab ps mt)
    then show ?thesis using table_gives Some by simp
  next
    case (OFun p us e)
    then have "LObj b \<in> set (references W a) \<longleftrightarrow> (\<exists>c \<in> set us. cell_value (k_heap W) c = LObj b) \<or> e = b"
      using Some by (auto simp: references_def Let_def image_iff eq_commute [of "LObj b"])
    moreover have "gives W a (LObj b) \<longleftrightarrow> (\<exists>c \<in> set us. cell_value (k_heap W) c = LObj b) \<or> e = b"
      using Some OFun by (simp add: gives_iff cell_value_obj eq_commute [of "LObj b"]) blast
    ultimately show ?thesis by simp
  next
    case (OThread m r c d)
    then show ?thesis using Some by (auto simp: references_def gives_iff Let_def image_iff Suc_le_eq)
  qed (use Some in \<open>simp_all add: references_def gives_iff\<close>)
qed

definition edge :: "walk \<Rightarrow> addr \<Rightarrow> addr \<Rightarrow> bool" where
  "edge W a b = (gives W a (LObj b) \<and> walkable W b)"

definition reachable :: "walk \<Rightarrow> addr \<Rightarrow> addr \<Rightarrow> bool" where
  "reachable W f a = (walkable W f \<and> (edge W)\<^sup>*\<^sup>* f a)"

text \<open>Pushing marks every walkable value, records the shells among them, and stacks the new ones.\<close>

definition pushed :: "walk \<Rightarrow> lval list \<Rightarrow> addr set" where
  "pushed W vs = {b. LObj b \<in> set vs \<and> walkable W b}"

definition adds :: "walk \<Rightarrow> addr set \<Rightarrow> reach \<Rightarrow> reach \<Rightarrow> bool" where
  "adds W B R R' =
     (set (r_visited R') = set (r_visited R) \<union> B \<and> set (r_work R') = set (r_work R) \<union> (B - set (r_visited R))
      \<and> set (r_deps R') = set (r_deps R) \<union> {b \<in> B. is_shell W b})"

lemma push_adds: "adds W (pushed W [v]) R (reach_push W v R)"
  by (cases v) (auto simp: adds_def pushed_def reach_push_def Let_def)

lemma adds_trans: "adds W B R R' \<Longrightarrow> adds W C R' R'' \<Longrightarrow> adds W (B \<union> C) R R''"
  unfolding adds_def by auto

lemma pushes_adds: "adds W (pushed W vs) R (foldl (\<lambda>R v. reach_push W v R) R vs)"
proof (induction vs arbitrary: R)
  case Nil
  then show ?case by (simp add: adds_def pushed_def)
next
  case (Cons v vs)
  have "pushed W (v # vs) = pushed W [v] \<union> pushed W vs" by (auto simp: pushed_def)
  then show ?case using adds_trans [OF push_adds [of W v R] Cons.IH] by simp
qed

definition walk_inv :: "walk \<Rightarrow> addr \<Rightarrow> reach \<Rightarrow> bool" where
  "walk_inv W f R =
     (set (r_work R) \<subseteq> set (r_visited R) \<and> (walkable W f \<longrightarrow> f \<in> set (r_visited R))
      \<and> (\<forall>a \<in> set (r_visited R). reachable W f a)
      \<and> (\<forall>a b. a \<in> set (r_visited R) \<longrightarrow> a \<notin> set (r_work R) \<longrightarrow> edge W a b \<longrightarrow> b \<in> set (r_visited R))
      \<and> set (r_deps R) = {a \<in> set (r_visited R). is_shell W a})"

lemma walk_start: "walk_inv W f (reach_push W (LObj f) \<lparr>r_deps = [], r_visited = [], r_work = [], r_visits = n\<rparr>)"
  by (auto simp: walk_inv_def reach_push_def reachable_def)

lemma walk_visit:
  assumes "walk_inv W f R" "r_work R = a # rest" "reach_visit W a (R\<lparr>r_work := rest\<rparr>) = Inr R'"
  shows "walk_inv W f R'"
proof -
  have R': "R' = foldl (\<lambda>R v. reach_push W v R) (R\<lparr>r_work := rest, r_visits := r_visits R + 1\<rparr>) (references W a)"
    using assms(3) by (auto simp: reach_visit_def Let_def split: if_splits)
  have B: "pushed W (references W a) = {b. edge W a b}" by (auto simp: pushed_def edge_def references_gives)
  have ad: "set (r_visited R') = set (r_visited R) \<union> {b. edge W a b}"
      "set (r_work R') = set rest \<union> ({b. edge W a b} - set (r_visited R))"
      "set (r_deps R') = set (r_deps R) \<union> {b. edge W a b \<and> is_shell W b}"
    using pushes_adds [of W "references W a" "R\<lparr>r_work := rest, r_visits := r_visits R + 1\<rparr>"]
    unfolding R'[symmetric] B by (auto simp: adds_def)
  have a: "a \<in> set (r_visited R)" "reachable W f a" using assms(1,2) by (auto simp: walk_inv_def)
  have step: "reachable W f b" if "edge W a b" for b
    using a(2) that by (auto simp: reachable_def intro: rtranclp.rtrancl_into_rtrancl)
  show ?thesis
    using assms(1) a step unfolding walk_inv_def ad by (auto simp: assms(2))
qed

lemma walk_done: "walk_inv W f R \<Longrightarrow> reach_work W R = Inr R' \<Longrightarrow> walk_inv W f R' \<and> r_work R' = []"
proof (induction W R rule: reach_work.induct)
  case (1 W R)
  show ?case
  proof (cases "r_work R")
    case Nil
    then show ?thesis using 1(2,3) unfolding reach_work.simps [of W R] by simp
  next
    case (Cons a rest)
    then obtain S where S: "reach_visit W a (R\<lparr>r_work := rest\<rparr>) = Inr S" "reach_work W S = Inr R'"
      using 1(3) unfolding reach_work.simps [of W R] by (auto simp: ebind_eq_Inr)
    show ?thesis using 1(1) [OF Cons S(1) walk_visit [OF 1(2) Cons S(1)] S(2)] .
  qed
qed

lemma reach_from_correct:
  assumes "reach_from W f n = Inr (ds, m)"
  shows "set ds = {a. is_shell W a \<and> reachable W f a}"
proof -
  obtain R where R: "reach_work W (reach_push W (LObj f) \<lparr>r_deps = [], r_visited = [], r_work = [], r_visits = n\<rparr>) = Inr R" "ds = r_deps R"
    using assms by (auto simp: reach_from_def ebind_eq_Inr)
  note inv = walk_done [OF walk_start R(1), unfolded walk_inv_def]
  have closed: "b \<in> set (r_visited R)" if "a \<in> set (r_visited R)" "edge W a b" for a b
    using inv that by (metis empty_iff list.set(1))
  have "a \<in> set (r_visited R)" if "(edge W)\<^sup>*\<^sup>* f a" "walkable W f" for a
    using that(1)
  proof (induction rule: rtranclp_induct)
    case base
    then show ?case using inv that(2) by blast
  next
    case (step b c)
    then show ?case using closed by blast
  qed
  then have "a \<in> set (r_visited R) \<longleftrightarrow> reachable W f a" for a using inv unfolding reachable_def by blast
  then show ?thesis using inv R(2) by blast
qed


section \<open>The order\<close>

definition walk_of :: "fenv \<Rightarrow> heap \<Rightarrow> recipes \<Rightarrow> nat \<Rightarrow> walk" where
  "walk_of L K rs k =
     \<lparr>k_heap = K, k_perms = permset L K, k_shells = map fst rs, k_self = shell_of rs k, k_fr2 = l_fr2 L, k_msg = msg rs k\<rparr>"

text \<open>Recipe \<open>k\<close> could observe the shell of recipe \<open>j\<close>.\<close>

definition observes :: "fenv \<Rightarrow> heap \<Rightarrow> recipes \<Rightarrow> nat \<Rightarrow> nat \<Rightarrow> bool" where
  "observes L K rs k j =
     (is_shell (walk_of L K rs k) (shell_of rs j) \<and> reachable (walk_of L K rs k) (closure_of rs k) (shell_of rs j))"

lemma fill_deps_correct:
  "fill_deps L K rs ks n = Inr deps \<Longrightarrow> distinct ks \<Longrightarrow> k \<in> set ks \<Longrightarrow>
   \<exists>ds. map_of deps k = Some ds \<and> set ds = {a. is_shell (walk_of L K rs k) a \<and> reachable (walk_of L K rs k) (closure_of rs k) a}"
proof (induction ks arbitrary: n deps)
  case (Cons i ks)
  obtain ds m rest where d: "reach_from (walk_of L K rs i) (closure_of rs i) n = Inr (ds, m)" "fill_deps L K rs ks m = Inr rest"
      "deps = (i, ds) # rest"
    using Cons.prems(1) by (auto simp: walk_of_def ebind_eq_Inr Let_def)
  show ?case
  proof (cases "k = i")
    case True
    then show ?thesis using reach_from_correct [OF d(1)] d(3) by auto
  next
    case False
    then show ?thesis using Cons.IH [OF d(2)] Cons.prems(2,3) d(3) by simp
  qed
qed simp

lemma blockers_observes:
  assumes "fill_deps L K rs ks n = Inr deps" "distinct ks" "k \<in> set ks"
  shows "blockers rs deps todo k = filter (observes L K rs k) todo"
proof -
  obtain ds where ds: "map_of deps k = Some ds"
      "set ds = {a. is_shell (walk_of L K rs k) a \<and> reachable (walk_of L K rs k) (closure_of rs k) a}"
    using fill_deps_correct [OF assms] by blast
  then show ?thesis by (simp add: blockers_def observes_def [abs_def])
qed

text \<open>The recipes run one after another, each with the ordinals still to fill.\<close>

fun run_order :: "fenv \<Rightarrow> recipes \<Rightarrow> nat list \<Rightarrow> nat list \<Rightarrow> heap \<Rightarrow> eris_err + heap" where
  "run_order L rs [] todo K = Inr K"
| "run_order L rs (k # ks) todo K = ebind (elj_fill_one L rs todo k K) (run_order L rs ks (remove1 k todo))"

text \<open>A legal order of \<open>todo\<close>: what an element observes comes before it; and it is the greatest such element
  of those that are left.\<close>

fun legal :: "(nat \<Rightarrow> nat \<Rightarrow> bool) \<Rightarrow> nat list \<Rightarrow> nat set \<Rightarrow> bool" where
  "legal obs [] todo = (todo = {})"
| "legal obs (k # ks) todo = (k \<in> todo \<and> (\<forall>j \<in> todo. \<not> obs k j) \<and> legal obs ks (todo - {k}))"

fun greatest_first :: "(nat \<Rightarrow> nat \<Rightarrow> bool) \<Rightarrow> nat list \<Rightarrow> nat set \<Rightarrow> bool" where
  "greatest_first obs [] todo = True"
| "greatest_first obs (k # ks) todo =
     ((\<forall>i \<in> todo. k < i \<longrightarrow> (\<exists>j \<in> todo. obs i j)) \<and> greatest_first obs ks (todo - {k}))"

lemma legal_perm: "legal obs ks S \<Longrightarrow> finite S \<Longrightarrow> distinct ks \<and> set ks = S"
  by (induction obs ks S rule: legal.induct) auto

lemma find_first: "find P xs = Some k \<Longrightarrow> sorted_wrt (>) xs \<Longrightarrow> k \<in> set xs \<and> P k \<and> (\<forall>i \<in> set xs. k < i \<longrightarrow> \<not> P i)" for k :: nat
  by (induction xs) (auto split: if_splits)

lemma sorted_remove1: "sorted_wrt (>) xs \<Longrightarrow> sorted_wrt (>) (remove1 k xs)" for k :: nat
  by (induction xs) (auto dest: set_remove1_subset [THEN subsetD])

lemma fill_loop_order:
  assumes "\<And>k todo. k \<in> S \<Longrightarrow> blockers rs deps todo k = filter (obs k) todo"
  shows "fill_loop left L rs deps todo K = Inr K' \<Longrightarrow> length todo = left \<Longrightarrow> sorted_wrt (>) todo \<Longrightarrow> set todo \<subseteq> S \<Longrightarrow>
    \<exists>order. legal obs order (set todo) \<and> greatest_first obs order (set todo) \<and> run_order L rs order todo K = Inr K'"
proof (induction left arbitrary: todo K)
  case 0
  then show ?case by (intro exI [of _ "[]"]) auto
next
  case (Suc left)
  obtain k K1 where k: "find (\<lambda>k. blockers rs deps todo k = []) todo = Some k" "elj_fill_one L rs todo k K = Inr K1"
      "fill_loop left L rs deps (remove1 k todo) K1 = Inr K'"
    using Suc.prems(1) by (auto simp: ebind_eq_Inr split: option.splits)
  note f = find_first [OF k(1) Suc.prems(3)]
  have d: "distinct todo" using Suc.prems(3) by (simp add: sorted_wrt_iff_nth_less distinct_conv_nth) (metis linorder_neqE_nat nat_less_le)
  have r: "set (remove1 k todo) = set todo - {k}" "length (remove1 k todo) = left" "sorted_wrt (>) (remove1 k todo)"
    using d f Suc.prems(2,3) by (auto simp: length_remove1 sorted_remove1)
  obtain order where o: "legal obs order (set todo - {k})" "greatest_first obs order (set todo - {k})"
      "run_order L rs order (remove1 k todo) K1 = Inr K'"
    using Suc.IH [OF k(3) r(2,3)] r(1) Suc.prems(4) by auto
  have nil: "blockers rs deps todo i = [] \<longleftrightarrow> (\<forall>j \<in> set todo. \<not> obs i j)" if "i \<in> set todo" for i
  proof -
    have "blockers rs deps todo i = filter (obs i) todo" using assms that Suc.prems(4) by blast
    then show ?thesis by (simp add: filter_empty_conv)
  qed
  have none: "\<forall>j \<in> set todo. \<not> obs k j" and some: "\<forall>i \<in> set todo. k < i \<longrightarrow> (\<exists>j \<in> set todo. obs i j)"
    using f nil by blast+
  show ?case
    by (rule exI [of _ "k # order"]) (use f none some o k(2) in simp)
qed

text \<open>A refusal: everything left waits for something left.\<close>

lemma fill_loop_stuck:
  assumes "\<And>k todo. k \<in> S \<Longrightarrow> blockers rs deps todo k = filter (obs k) todo"
  shows "fill_loop left L rs deps todo K = Inl (Err ''no fill order runs every reachable special first'' args) \<Longrightarrow>
    length todo = left \<Longrightarrow> distinct todo \<Longrightarrow> set todo \<subseteq> S \<Longrightarrow>
    \<exists>T \<subseteq> set todo. T \<noteq> {} \<and> (\<forall>k \<in> T. \<exists>j \<in> T. obs k j)"
proof (induction left arbitrary: todo K)
  case (Suc left)
  show ?case
  proof (cases "find (\<lambda>k. blockers rs deps todo k = []) todo")
    case None
    have "\<exists>j \<in> set todo. obs k j" if "k \<in> set todo" for k
    proof -
      have "filter (obs k) todo \<noteq> []" using None that assms [of k todo] Suc.prems(4) unfolding find_None_iff by auto
      then show ?thesis by (auto simp: filter_empty_conv)
    qed
    moreover have "todo \<noteq> []" using Suc.prems(2) by auto
    ultimately show ?thesis by (intro exI [of _ "set todo"]) auto
  next
    case (Some k)
    have one: "elj_fill_one L rs todo k K \<noteq> Inl (Err ''no fill order runs every reachable special first'' args)"
      by (auto simp: elj_fill_one_def Let_def split: sum.splits option.splits lobj.splits)
    then obtain K1 where K1: "elj_fill_one L rs todo k K = Inr K1"
      using Suc.prems(1) Some by (cases "elj_fill_one L rs todo k K") auto
    have k: "k \<in> set todo" using Some by (auto simp: find_Some_iff)
    have "\<exists>T \<subseteq> set (remove1 k todo). T \<noteq> {} \<and> (\<forall>k \<in> T. \<exists>j \<in> T. obs k j)"
      by (rule Suc.IH) (use Suc.prems Some K1 k in \<open>auto simp: length_remove1\<close>)
    then show ?thesis using Suc.prems(3) by (auto simp: set_remove1_eq)
  qed
qed simp

lemma no_legal:
  assumes "T \<subseteq> S" "T \<noteq> {}" "\<And>k. k \<in> T \<Longrightarrow> \<exists>j \<in> T. obs k j"
  shows "\<not> legal obs order S"
  using assms
proof (induction order arbitrary: S)
  case (Cons k ks)
  have "k \<notin> T" if "legal obs (k # ks) S" using that Cons.prems(1,3) by auto
  then show ?case using Cons.IH [of "S - {k}"] Cons.prems by auto
qed auto


lemma reach_work_error: "reach_work W R = Inl e \<Longrightarrow> \<exists>args. e = Err ''dependency analysis exceeded its budget'' args"
proof (induction W R rule: reach_work.induct)
  case (1 W R)
  show ?case
  proof (cases "r_work R")
    case Nil
    then show ?thesis using 1(2) unfolding reach_work.simps [of W R] by simp
  next
    case (Cons a rest)
    show ?thesis
    proof (cases "reach_visit W a (R\<lparr>r_work := rest\<rparr>)")
      case (Inl f)
      then show ?thesis using 1(2) Cons unfolding reach_work.simps [of W R]
        by (auto simp: reach_visit_def Let_def split: if_splits)
    next
      case (Inr S)
      then show ?thesis using 1(1) [OF Cons Inr] 1(2) Cons unfolding reach_work.simps [of W R] by simp
    qed
  qed
qed

lemma fill_deps_error: "fill_deps L K rs ks n = Inl e \<Longrightarrow> \<exists>args. e = Err ''dependency analysis exceeded its budget'' args"
  by (induction ks arbitrary: n) (auto simp: Let_def reach_from_def ebind_eq_Inl dest: reach_work_error)

lemma set_rev_upt: "set (rev [1..<n + 1]) = {1..n}"
  by auto

lemma sorted_rev_upt: "sorted_wrt (>) (rev [1..<n + 1])"
  by (simp add: sorted_wrt_rev del: upt_Suc)

text \<open>C36: a fill that succeeds ran every recipe exactly once, on its own shell, in an order in which no
  recipe could observe, by any path from its closure through tables, upvalues, environments,
  metatables and suspended threads on the load-time heap, a shell that was not filled yet; and among
  the recipes that were ready it took the one of the highest ordinal.\<close>

theorem fill_order:
  assumes "elj_fill L rs K = Inr K'"
  shows "\<exists>order. distinct order \<and> set order = {1..length rs} \<and> run_order L rs order (rev [1..<length rs + 1]) K = Inr K'
    \<and> legal (observes L K rs) order {1..length rs} \<and> greatest_first (observes L K rs) order {1..length rs}"
proof (cases "length rs = 0")
  case True
  then show ?thesis using assms by (intro exI [of _ "[]"]) (simp add: elj_fill_def)
next
  case False
  then obtain deps where d: "fill_deps L K rs [1..<length rs + 1] 0 = Inr deps"
      "fill_loop (length rs) L rs deps (rev [1..<length rs + 1]) K = Inr K'"
    using assms by (auto simp: elj_fill_def Let_def ebind_eq_Inr simp del: upt_Suc)
  have b: "blockers rs deps todo k = filter (observes L K rs k) todo" if "k \<in> {1..length rs}" for k todo
  proof -
    have "k \<in> set [1..<length rs + 1]" using that by (auto simp del: upt_Suc)
    then show ?thesis using blockers_observes [OF d(1) distinct_upt] by blast
  qed
  have len: "length (rev [1..<length rs + 1]) = length rs" by (simp del: upt_Suc)
  have sub: "set (rev [1..<length rs + 1]) \<subseteq> {1..length rs}" unfolding set_rev_upt ..
  obtain order where "legal (observes L K rs) order {1..length rs}" "greatest_first (observes L K rs) order {1..length rs}"
      "run_order L rs order (rev [1..<length rs + 1]) K = Inr K'"
    using fill_loop_order [OF b d(2) len sorted_rev_upt sub] unfolding set_rev_upt by blast
  then show ?thesis using legal_perm by blast
qed

text \<open>C37: a fill refused for want of an order had none: whatever the order, some recipe would have run before
  a shell it can observe.\<close>

theorem fill_refusal:
  assumes "elj_fill L rs K = Inl (Err ''no fill order runs every reachable special first'' args)"
  shows "\<not> legal (observes L K rs) order {1..length rs}"
proof -
  have "length rs \<noteq> 0" using assms by (auto simp: elj_fill_def)
  then obtain deps where d: "fill_deps L K rs [1..<length rs + 1] 0 = Inr deps"
      "fill_loop (length rs) L rs deps (rev [1..<length rs + 1]) K = Inl (Err ''no fill order runs every reachable special first'' args)"
    using assms fill_deps_error [of L K rs "[1..<length rs + 1]" 0] by (auto simp: elj_fill_def Let_def ebind_eq_Inl simp del: upt_Suc)
  have b: "blockers rs deps todo k = filter (observes L K rs k) todo" if "k \<in> {1..length rs}" for k todo
  proof -
    have "k \<in> set [1..<length rs + 1]" using that by (auto simp del: upt_Suc)
    then show ?thesis using blockers_observes [OF d(1) distinct_upt] by blast
  qed
  have len: "length (rev [1..<length rs + 1]) = length rs" and dis: "distinct (rev [1..<length rs + 1])" by (simp_all del: upt_Suc)
  have sub: "set (rev [1..<length rs + 1]) \<subseteq> {1..length rs}" unfolding set_rev_upt ..
  obtain T where T: "T \<subseteq> {1..length rs}" "T \<noteq> {}" "\<forall>k \<in> T. \<exists>j \<in> T. observes L K rs k j"
    using fill_loop_stuck [OF b d(2) len dis sub] unfolding set_rev_upt by blast
  show ?thesis by (rule no_legal [OF T(1,2)]) (use T(3) in blast)
qed

text \<open>Two shells: the first one's recipe reaches the second's; in \<open>fill_cycle\<close> the second's reaches the first's
  as well.\<close>

definition fill_env :: fenv where
  "fill_env =
     \<lparr>l_perms = [LObj 4], l_fr2 = 1,
      l_call = (\<lambda>K f v. case v of LObj s \<Rightarrow> Inr (K\<lparr>h_obj := (h_obj K)(s \<mapsto> OTab [] (Some 4))\<rparr>, LNil) | _ \<Rightarrow> Inl 0)\<rparr>"

definition fill_heap :: "lval \<Rightarrow> heap" where
  "fill_heap v =
     \<lparr>h_obj = [0 \<mapsto> OTab [] None, 1 \<mapsto> OTab [] None, 2 \<mapsto> OFun 7 [0] 4, 3 \<mapsto> OFun 7 [1] 4, 4 \<mapsto> OTab [] None, 5 \<mapsto> OTab [(LBool True, LObj 1)] None],
      h_next = 6, h_cell = [0 \<mapsto> UClosed (LObj 5), 1 \<mapsto> UClosed v], h_cnext = 2,
      h_stack = (\<lambda>_ _. LNil), h_open = (\<lambda>_. []), h_top = (\<lambda>_. 0), h_env = (\<lambda>_. 4), h_coro = (\<lambda>_. idle_coro), h_proto = (\<lambda>_. empty_proto), h_immut = (\<lambda>_. False)\<rparr>"

definition fill_recipes :: recipes where
  "fill_recipes = [(0, 2, 10), (1, 3, 20)]"

theorem fill_order_witness:
  "\<exists>order. set order = {1, 2} \<and> legal (observes fill_env (fill_heap LNil) fill_recipes) order {1, 2}"
proof -
  have "(case elj_fill fill_env fill_recipes (fill_heap LNil) of Inr K \<Rightarrow> True | Inl e \<Rightarrow> False)" by code_simp
  then obtain K where K: "elj_fill fill_env fill_recipes (fill_heap LNil) = Inr K"
    by (cases "elj_fill fill_env fill_recipes (fill_heap LNil)") auto
  have "{1..length fill_recipes} = {1, 2}" by (auto simp: fill_recipes_def)
  then show ?thesis using fill_order [OF K] by auto
qed

theorem fill_refusal_witness:
  "\<not> legal (observes fill_env (fill_heap (LObj 0)) fill_recipes) [2, 1] {1, 2}"
proof -
  let ?e = "Err ''no fill order runs every reachable special first'' [2, 2, 20, 1, 2, 2]"
  have "(case elj_fill fill_env fill_recipes (fill_heap (LObj 0)) of Inl e \<Rightarrow> e = ?e | Inr K \<Rightarrow> False)" by code_simp
  then have "elj_fill fill_env fill_recipes (fill_heap (LObj 0)) = Inl ?e"
    by (cases "elj_fill fill_env fill_recipes (fill_heap (LObj 0))") auto
  note r = fill_refusal [OF this, of "[2, 1]"]
  have "{1..length fill_recipes} = {1, 2}" by (auto simp: fill_recipes_def)
  then show ?thesis using r by simp
qed

end
