(* ===== verification/ErisThread.thy ===== *)
theory ErisThread
  imports ErisObj
begin

text \<open>
  serializer/eris_lj.c, the records of coroutines: \<open>u_thread\<close> and \<open>elj_despecialise\<close>. A restored
  coroutine's stack is \<open>h_stack\<close> with the VM's own words over it in \<open>h_coro\<close>; prototypes are in
  \<open>h_proto\<close>. What the VM decides is in \<open>venv\<close>: \<open>LJ_FR2\<close>, the stack limits, whether a hook is
  active, the metamethod an opcode stands for, whether the JIT's traces can be flushed.
\<close>

lemma if_Inl_iff: "(if P then Inl e else x) = Inr y \<longleftrightarrow> \<not> P \<and> x = Inr y"
  by simp

section \<open>Frame records\<close>

text \<open>The frame kinds and continuations on the wire.\<close>

abbreviation (input) FR_LUA :: nat where "FR_LUA \<equiv> 0"
abbreviation (input) FR_C :: nat where "FR_C \<equiv> 1"
abbreviation (input) FR_CONT :: nat where "FR_CONT \<equiv> 2"
abbreviation (input) FR_VARG :: nat where "FR_VARG \<equiv> 3"
abbreviation (input) FR_CP :: nat where "FR_CP \<equiv> 5"
abbreviation (input) FR_PCALL :: nat where "FR_PCALL \<equiv> 6"
abbreviation (input) FR_PCALLH :: nat where "FR_PCALLH \<equiv> 7"

abbreviation (input) CS_CAT :: nat where "CS_CAT \<equiv> 0"
abbreviation (input) CS_RA :: nat where "CS_RA \<equiv> 1"
abbreviation (input) CS_NOP :: nat where "CS_NOP \<equiv> 2"
abbreviation (input) CS_CONDT :: nat where "CS_CONDT \<equiv> 3"
abbreviation (input) CS_CONDF :: nat where "CS_CONDF \<equiv> 4"
abbreviation (input) CS_HOOK :: nat where "CS_HOOK \<equiv> 5"
abbreviation (input) CS_STITCH :: nat where "CS_STITCH \<equiv> 6"
abbreviation (input) CS_MAX :: nat where "CS_MAX \<equiv> 7"

datatype mms = MM_concat | MM_index | MM_len | MM_arith | MM_newindex | MM_eq | MM_lt | MM_le | MM_call | MM_none

record venv =
  v_fr2 :: nat
  v_maxstack :: nat
  v_newspan :: nat
  v_grow :: "nat \<Rightarrow> nat option"
  v_hook :: bool
  v_mm :: "bcop \<Rightarrow> mms"
  v_flush :: bool

record frec =
  fr_kind :: nat
  fr_cs :: nat
  fr_link :: nat
  fr_bcofs :: nat
  fr_at :: nat

text \<open>What follows the link: the continuation and the bytecode position, for the kinds that have them.\<close>

definition r_frame_tail :: "byte \<Rightarrow> byte list \<Rightarrow> eris_err + (nat \<times> nat) \<times> byte list" where
  "r_frame_tail k i =
     (if unat k = FR_LUA then ebind (r_uleb i) (\<lambda>(b, i). Inr ((0, unat b), i))
      else if unat k = FR_CONT then
        ebind (r_byte i) (\<lambda>(c, i). ebind (r_uleb i) (\<lambda>(b, i).
        if unat c \<ge> CS_MAX then Inl (Err ''continuation symbol out of range'' [uint c])
        else if unat c = CS_HOOK then Inl (Err ''hook continuation frames are not supported'' [])
        else Inr ((unat c, unat b), i)))
      else if unat k \<notin> {FR_C, FR_CP, FR_VARG, FR_PCALL, FR_PCALLH} then Inl (Err ''illegal frame kind'' [uint k])
      else Inr ((0, 0), i))"

definition r_frame :: "venv \<Rightarrow> byte list \<Rightarrow> eris_err + frec \<times> byte list" where
  "r_frame V i =
     ebind (r_byte i) (\<lambda>(k, i). ebind (r_uleb i) (\<lambda>(l, i). ebind (r_frame_tail k i) (\<lambda>((cs, bcofs), i).
     let kind = unat k; link = unat l in
     if kind = FR_PCALLH \<and> \<not> v_hook V then Inl (Err ''FRAME_PCALLH frame with no active hook'' [])
     else if link mod 8 \<noteq> 0 \<or> link < 16 then Inl (Err ''frame link is not a valid frame size'' [int link])
     else if kind = FR_CONT \<and> link < (if cs = CS_STITCH then 40 else 32)
     then Inl (Err ''continuation frame link overlaps its own continuation words'' [int link])
     else Inr (\<lparr>fr_kind = kind, fr_cs = cs, fr_link = link, fr_bcofs = bcofs, fr_at = 0\<rparr>, i))))"

fun r_frames :: "venv \<Rightarrow> nat \<Rightarrow> byte list \<Rightarrow> eris_err + frec list \<times> byte list" where
  "r_frames V 0 i = Inr ([], i)"
| "r_frames V (Suc n) i = ebind (r_frame V i) (\<lambda>(f, i). ebind (r_frames V n i) (\<lambda>(fs, i). Inr (f # fs, i)))"

text \<open>The positions, from \<open>base - 1\<close> down, and where the chain ends.\<close>

fun derive_chain :: "nat \<Rightarrow> nat \<Rightarrow> int \<Rightarrow> int \<Rightarrow> frec list \<Rightarrow> eris_err + frec list \<times> int" where
  "derive_chain fr2 tp k pos [] = Inr ([], pos)"
| "derive_chain fr2 tp k pos (f # fs) =
     (let prev_at = pos - int (fr_link f div 8) in
      if pos \<le> int fr2 \<or> pos \<ge> int tp then Inl (Err ''frame outside the stack'' [k])
      else if prev_at < int fr2 \<or> prev_at \<ge> pos then Inl (Err ''frame chain does not descend'' [])
      else if fr_kind f \<in> {FR_C, FR_CP} \<and> fs \<noteq> [] then Inl (Err ''interior C frame'' [])
      else if fr_kind f = FR_CONT \<and> pos - (if fr_cs f = CS_STITCH then 4 else 3) \<le> int fr2
      then Inl (Err ''continuation frame too close to the stack bottom'' [])
      else ebind (derive_chain fr2 tp (k + 1) prev_at fs) (\<lambda>(gs, e). Inr (f\<lparr>fr_at := nat pos\<rparr> # gs, e)))"

definition derive_frames :: "venv \<Rightarrow> nat \<Rightarrow> nat \<Rightarrow> frec list \<Rightarrow> eris_err + frec list" where
  "derive_frames V base tp fs =
     ebind (derive_chain (v_fr2 V) tp 0 (int base - 1) fs) (\<lambda>(gs, e).
     if gs \<noteq> [] \<and> e \<noteq> int (v_fr2 V) then Inl (Err ''frame chain does not terminate at the stack bottom'' [])
     else if gs \<noteq> [] \<and> fr_kind (last gs) \<notin> {FR_C, FR_CP} then Inl (Err ''bottom frame is not a resume frame'' [])
     else Inr gs)"

section \<open>Frame words\<close>

text \<open>\<open>tvisfunc\<close>: the function a slot holds; a VM word is none.\<close>

definition fn_at :: "heap \<Rightarrow> addr \<Rightarrow> (nat \<Rightarrow> sword option) \<Rightarrow> nat \<Rightarrow> lobj option" where
  "fn_at H co W i =
     (if W i \<noteq> None then None
      else case h_stack H co i of
        LObj a \<Rightarrow> (case h_obj H a of
            Some (OFun p us e) \<Rightarrow> Some (OFun p us e) | Some OReplay \<Rightarrow> Some OReplay | Some (OCFun f) \<Rightarrow> Some (OCFun f) | _ \<Rightarrow> None)
      | _ \<Rightarrow> None)"

definition proto_at :: "heap \<Rightarrow> addr \<Rightarrow> (nat \<Rightarrow> sword option) \<Rightarrow> nat \<Rightarrow> nat option" where
  "proto_at H co W i = (case fn_at H co W i of Some (OFun p us e) \<Rightarrow> Some p | _ \<Rightarrow> None)"

text \<open>Is the continuation one its site attaches? \<open>ins\<close> is the instruction before the position, \<open>nxt\<close> the one at it.\<close>

definition cont_consistent :: "venv \<Rightarrow> nat \<Rightarrow> bcins \<Rightarrow> bcins \<Rightarrow> bool" where
  "cont_consistent V cs ins nxt =
     (let mm = v_mm V (i_op ins) in
      if cs = CS_CAT then mm = MM_concat
      else if cs = CS_RA then mm \<in> {MM_index, MM_len, MM_arith}
      else if cs = CS_NOP then mm = MM_newindex
      else if cs = CS_CONDT \<or> cs = CS_CONDF then mm \<in> {MM_eq, MM_lt, MM_le} \<and> i_op nxt = BC_JMP
      else if cs = CS_STITCH then mm = MM_call
      else False)"

definition is_call :: "bcop \<Rightarrow> bool" where
  "is_call b = (b \<in> {BC_CALL, BC_CALLM, BC_ITERC, BC_ITERN})"

definition write_frame :: "venv \<Rightarrow> heap \<Rightarrow> addr \<Rightarrow> int \<Rightarrow> frec \<Rightarrow> (nat \<Rightarrow> sword option) \<Rightarrow> eris_err + (nat \<Rightarrow> sword option)" where
  "write_frame V H co k f W =
     (let pos = fr_at f; prev = pos - fr_link f div 8 in
      if fn_at H co W (pos - 1) = None then Inl (Err ''frame has a non-function in its func slot'' [k])
      else if fr_kind f = FR_LUA \<or> fr_kind f = FR_CONT then
        (case proto_at H co W (prev - 1) of
           None \<Rightarrow> Inl (Err ''frame names a non-Lua caller'' [k])
         | Some p \<Rightarrow>
             let bc = pt_bc (h_proto H p); ofs = fr_bcofs f in
             if ofs < 1 \<or> ofs \<ge> length bc then Inl (Err ''bytecode offset out of range for the named prototype'' [int ofs])
             else if fr_kind f = FR_LUA then
               (if fr_link f div 8 \<noteq> 1 + v_fr2 V + i_a (bc ! (ofs - 1)) then Inl (Err ''frame pc disagrees with its link'' [k])
                else if \<not> is_call (i_op (bc ! (ofs - 1))) then Inl (Err ''frame return pc does not follow a call'' [k])
                else Inr (W(pos \<mapsto> WPc p ofs)))
             else
               (if \<not> cont_consistent V (fr_cs f) (bc ! (ofs - 1)) (bc ! ofs)
                then Inl (Err ''continuation symbol does not match the opcode at its continuation site'' [k, int (fr_cs f)])
                else
                  let W = W(pos - 3 \<mapsto> WCont (fr_cs f), pos - 2 \<mapsto> WPc p ofs, pos \<mapsto> WFtsz (fr_link f) FR_CONT)
                  in Inr (if fr_cs f = CS_STITCH then W(pos - 4 \<mapsto> WNoTrace) else W)))
      else if fr_kind f = FR_VARG \<and>
              (case proto_at H co W (pos - 1) of None \<Rightarrow> True | Some p \<Rightarrow> \<not> pt_vararg (h_proto H p))
      then Inl (Err ''vararg frame over a non-vararg function'' [])
      else Inr (W(pos \<mapsto> WFtsz (fr_link f) (fr_kind f))))"

fun write_frames :: "venv \<Rightarrow> heap \<Rightarrow> addr \<Rightarrow> int \<Rightarrow> frec list \<Rightarrow> (nat \<Rightarrow> sword option) \<Rightarrow> eris_err + (nat \<Rightarrow> sword option)" where
  "write_frames V H co k [] W = Inr W"
| "write_frames V H co k (f # fs) W = ebind (write_frame V H co k f W) (write_frames V H co (k + 1) fs)"

section \<open>Open upvalues\<close>

fun r_upvalues :: "venv \<Rightarrow> addr \<Rightarrow> nat \<Rightarrow> nat \<Rightarrow> nat \<Rightarrow> ust \<Rightarrow> eris_err + ust" where
  "r_upvalues V co tp prv 0 st = Inr st"
| "r_upvalues V co tp prv (Suc n) st =
     ebind (ur r_uleb st) (\<lambda>(slot, st). ebind (ur r_byte st) (\<lambda>(b, st).
       let slot = unat slot; immutable = (b \<noteq> 0) in
       if slot < 1 + v_fr2 V \<or> slot \<ge> tp then Inl (Err ''open upvalue slot outside the live stack'' [int slot])
       else if slot \<ge> prv then Inl (Err ''open upvalues are not in descending order'' [])
       else
         let (H, uv) = elj_finduv co slot immutable (u_heap st)
         in r_upvalues V co tp slot n (st\<lparr>u_heap := H\<lparr>h_immut := (h_immut H)(uv := immutable)\<rparr>\<rparr>)))"

section \<open>For-in loops back to their general form\<close>

definition bc_j :: "bcins \<Rightarrow> int" where
  "bc_j i = uint (i_d i) - 0x8000"

definition set_op :: "nat \<Rightarrow> nat \<Rightarrow> bcop \<Rightarrow> heap \<Rightarrow> heap" where
  "set_op p pos b H =
     (let pt = h_proto H p; bc = pt_bc pt
      in H\<lparr>h_proto := (h_proto H)(p := pt\<lparr>pt_bc := bc[pos := (bc ! pos)\<lparr>i_op := b\<rparr>]\<rparr>)\<rparr>)"

definition elj_despecialise :: "nat \<Rightarrow> nat \<Rightarrow> nat \<Rightarrow> heap \<Rightarrow> eris_err + bool \<times> heap" where
  "elj_despecialise p pos ra H =
     (let bc = pt_bc (h_proto H p) in
      if pos < 1 \<or> pos + 1 \<ge> length bc then Inr (False, H)
      else if i_op (bc ! pos) \<notin> {BC_ITERN, BC_ITERC} \<or> i_a (bc ! pos) \<noteq> ra then Inr (False, H)
      else if i_op (bc ! pos) = BC_ITERC then Inr (True, H)
      else if i_op (bc ! (pos + 1)) \<noteq> BC_ITERL then Inl (Err ''for-in loop head is not followed by ITERL'' [int pos])
      else
        let isn = int pos + 1 + bc_j (bc ! (pos + 1)) in
        if isn < 1 \<or> isn \<ge> int pos \<or> i_op (bc ! nat isn) \<notin> {BC_ISNEXT, BC_JMP} \<or> i_a (bc ! nat isn) \<noteq> ra
        then Inl (Err ''for-in loop has no loop-entry jump at its head'' [int pos])
        else Inr (True, set_op p (nat isn) BC_JMP (set_op p pos BC_ITERC H)))"

text \<open>Every loop head of the prototype on the register: how many there were, and whether the named one was among them.\<close>

fun patch_register :: "nat \<Rightarrow> nat \<Rightarrow> nat \<Rightarrow> nat list \<Rightarrow> nat \<times> bool \<times> heap \<Rightarrow> eris_err + nat \<times> bool \<times> heap" where
  "patch_register p ra ipos [] r = Inr r"
| "patch_register p ra ipos (pos # ps) (n, named, H) =
     (if i_op (pt_bc (h_proto H p) ! pos) \<notin> {BC_ITERN, BC_ITERC} then patch_register p ra ipos ps (n, named, H)
      else ebind (elj_despecialise p pos ra H) (\<lambda>(hit, H).
        if hit then patch_register p ra ipos ps (n + 1, named \<or> ipos = pos, H)
        else patch_register p ra ipos ps (n, named, H)))"

definition loop_heads :: "heap \<Rightarrow> nat \<Rightarrow> nat list" where
  "loop_heads H p = [1..<length (pt_bc (h_proto H p)) - 1]"

definition is_replay_fn :: "heap \<Rightarrow> addr \<Rightarrow> (nat \<Rightarrow> sword option) \<Rightarrow> nat \<Rightarrow> bool" where
  "is_replay_fn H co W i = (fn_at H co W i = Some OReplay)"

definition is_tab_at :: "heap \<Rightarrow> addr \<Rightarrow> (nat \<Rightarrow> sword option) \<Rightarrow> nat \<Rightarrow> bool" where
  "is_tab_at H co W i = (W i = None \<and> lua_type H (h_stack H co i) = 5)"

definition is_nil_at :: "heap \<Rightarrow> addr \<Rightarrow> (nat \<Rightarrow> sword option) \<Rightarrow> nat \<Rightarrow> bool" where
  "is_nil_at H co W i = (W i = None \<and> h_stack H co i = LNil)"

text \<open>One record: the slot's innermost frame, its prototype, the triple, then the register's loops.\<close>

definition forin_record :: "venv \<Rightarrow> addr \<Rightarrow> (nat \<Rightarrow> sword option) \<Rightarrow> frec list \<Rightarrow> nat \<Rightarrow> nat \<Rightarrow> nat \<Rightarrow> nat \<Rightarrow> heap \<Rightarrow> eris_err + heap" where
  "forin_record V co W fs tp ctl ra ipos H =
     (if ctl < 3 + v_fr2 V \<or> ctl \<ge> tp then Inl (Err ''for-in control slot outside the live stack'' [int ctl])
      else case find (\<lambda>f. fr_at f < ctl) fs of
        None \<Rightarrow> Inl (Err ''for-in control slot is not inside a frame'' [int ctl])
      | Some f \<Rightarrow>
          (case proto_at H co W (fr_at f - 1) of
             None \<Rightarrow> Inl (Err ''for-in control slot is not inside a Lua frame'' [int ctl])
           | Some p \<Rightarrow>
               if ra < 3 \<or> ra > 255 \<or> ra - 1 \<ge> pt_framesize (h_proto H p) \<or> ctl \<noteq> fr_at f + 1 + ra - 1
               then Inl (Err ''for-in record disagrees with its frame'' [])
               else if \<not> is_replay_fn H co W (ctl - 2) \<or> \<not> is_tab_at H co W (ctl - 1) \<or> \<not> is_nil_at H co W ctl
               then Inl (Err ''for-in record does not name a replay triple'' [])
               else ebind (patch_register p ra ipos (loop_heads H p) (0, False, H)) (\<lambda>(n, named, H).
                    if n = 0 then Inl (Err ''for-in record names no loop to despecialise'' [])
                    else if ipos \<noteq> 0 \<and> \<not> named then Inl (Err ''for-in loop offset names no loop on register'' [int ipos, int ra])
                    else Inr H)))"

fun forin_records :: "venv \<Rightarrow> addr \<Rightarrow> (nat \<Rightarrow> sword option) \<Rightarrow> frec list \<Rightarrow> nat \<Rightarrow> nat \<Rightarrow> ust \<Rightarrow> eris_err + ust" where
  "forin_records V co W fs tp 0 st = Inr st"
| "forin_records V co W fs tp (Suc n) st =
     ebind (ur r_uleb st) (\<lambda>(ctl, st). ebind (ur r_uleb st) (\<lambda>(ra, st). ebind (ur r_uleb st) (\<lambda>(ipos, st).
       ebind (forin_record V co W fs tp (unat ctl) (unat ra) (unat ipos) (u_heap st)) (\<lambda>H.
       forin_records V co W fs tp n (st\<lparr>u_heap := H\<rparr>)))))"

text \<open>The sweep: no specialised loop of a frame may be left on a replay triple, whatever the records said.\<close>

fun sweep_heads :: "venv \<Rightarrow> addr \<Rightarrow> (nat \<Rightarrow> sword option) \<Rightarrow> nat \<Rightarrow> nat \<Rightarrow> nat \<Rightarrow> nat list \<Rightarrow> heap \<Rightarrow> eris_err + heap" where
  "sweep_heads V co W tp fbase p [] H = Inr H"
| "sweep_heads V co W tp fbase p (pos # ps) H =
     (let ins = pt_bc (h_proto H p) ! pos; ra = i_a ins; c = fbase + ra - 1 in
      if i_op ins \<noteq> BC_ITERN \<or> ra < 3 \<or> ra - 1 \<ge> pt_framesize (h_proto H p) \<or> c < 3 + v_fr2 V \<or> c \<ge> tp
         \<or> \<not> is_replay_fn H co W (c - 2)
      then sweep_heads V co W tp fbase p ps H
      else ebind (elj_despecialise p pos ra H) (\<lambda>(hit, H). sweep_heads V co W tp fbase p ps H))"

fun sweep_frames :: "venv \<Rightarrow> addr \<Rightarrow> (nat \<Rightarrow> sword option) \<Rightarrow> nat \<Rightarrow> frec list \<Rightarrow> heap \<Rightarrow> eris_err + heap" where
  "sweep_frames V co W tp [] H = Inr H"
| "sweep_frames V co W tp (f # fs) H =
     (case proto_at H co W (fr_at f - 1) of
        None \<Rightarrow> sweep_frames V co W tp fs H
      | Some p \<Rightarrow> ebind (sweep_heads V co W tp (fr_at f + 1) p (loop_heads H p) H) (sweep_frames V co W tp fs))"

definition replay_in_stack :: "venv \<Rightarrow> addr \<Rightarrow> (nat \<Rightarrow> sword option) \<Rightarrow> nat \<Rightarrow> heap \<Rightarrow> bool" where
  "replay_in_stack V co W tp H = (\<exists>i \<in> set [1 + v_fr2 V..<tp]. is_replay_fn H co W i)"

definition u_forin :: "venv \<Rightarrow> addr \<Rightarrow> (nat \<Rightarrow> sword option) \<Rightarrow> frec list \<Rightarrow> nat \<Rightarrow> nat \<Rightarrow> ust \<Rightarrow> eris_err + ust" where
  "u_forin V co W fs need tp st =
     ebind (ur r_uleb st) (\<lambda>(nrep, st).
       if unat nrep > need then Inl (Err ''thread claims more for-in loops than slots'' [])
       else
         let touch = (nrep \<noteq> 0 \<or> replay_in_stack V co W tp (u_heap st)) in
         if touch \<and> \<not> v_flush V
         then Inl (Err ''cannot restore a for-in loop from inside a GC hook (JIT traces cannot be flushed)'' [])
         else ebind (forin_records V co W fs tp (unat nrep) st) (\<lambda>st.
              if touch then ebind (sweep_frames V co W tp fs (u_heap st)) (\<lambda>H. Inr (st\<lparr>u_heap := H\<rparr>))
              else Inr st))"

section \<open>The thread record\<close>

definition thread_header :: "venv \<Rightarrow> byte \<Rightarrow> nat \<Rightarrow> nat \<Rightarrow> nat \<Rightarrow> eris_err + unit" where
  "thread_header V status need base tp =
     (if unat status \<notin> {0, 1, 2, 4, 5} then Inl (Err ''thread has an illegal status byte'' [uint status])
      else if need < 2 + v_fr2 V \<or> need \<ge> v_maxstack V then Inl (Err ''thread stack size out of range'' [int need])
      else if base < 1 + v_fr2 V \<or> tp < base \<or> tp > need
      then Inl (Err ''thread base/top out of range'' [int base, int tp, int need])
      else Inr ())"

definition put_slot :: "addr \<Rightarrow> nat \<Rightarrow> lval \<Rightarrow> heap \<Rightarrow> heap" where
  "put_slot co i v H = H\<lparr>h_stack := (\<lambda>a j. if a = co \<and> j = i then v else h_stack H a j)\<rparr>"

text \<open>Pass 1. The top stays parked at the end of the span.\<close>

fun u_slots :: "unpersister \<Rightarrow> addr \<Rightarrow> nat \<Rightarrow> nat list \<Rightarrow> ust \<Rightarrow> eris_err + ust" where
  "u_slots U co need [] st = Inr st"
| "u_slots U co need (i # is) st =
     ebind (U st) (\<lambda>(v, st).
       let H = put_slot co i v (u_heap st) in
       u_slots U co need is (st\<lparr>u_heap := H\<lparr>h_top := (h_top H)(co := need)\<rparr>\<rparr>))"

text \<open>Passes 2 and 3: the records of the frames, then their words.\<close>

definition u_frames :: "venv \<Rightarrow> addr \<Rightarrow> nat \<Rightarrow> nat \<Rightarrow> nat \<Rightarrow> nat \<Rightarrow> ust \<Rightarrow> eris_err + frec list \<times> (nat \<Rightarrow> sword option) \<times> ust" where
  "u_frames V co status need base tp st =
     ebind (ur r_uleb st) (\<lambda>(n, st).
       if status = 1 \<and> n = 0 then Inl (Err ''suspended thread with no frames'' [])
       else if status \<noteq> 1 \<and> n \<noteq> 0 then Inl (Err ''non-suspended thread must have no frames'' [])
       else if n = 0 \<and> base \<noteq> 1 + v_fr2 V then Inl (Err ''thread has no frames but base is not the stack bottom'' [int base])
       else if unat n > need then Inl (Err ''thread claims more frames than stack slots'' [])
       else ebind (ur (r_frames V (unat n)) st) (\<lambda>(fs, st).
            ebind (derive_frames V base tp fs) (\<lambda>fs.
            ebind (write_frames V (u_heap st) co 0 fs (\<lambda>_. None)) (\<lambda>W. Inr (fs, W, st)))))"

definition new_thread :: "venv \<Rightarrow> nat \<Rightarrow> ust \<Rightarrow> eris_err + addr \<times> nat \<times> ust" where
  "new_thread V need st =
     (let (co, st) = alloc_obj (OThread False False False False) st in
      ebind (registerobject (LObj co) st) (\<lambda>st.
      case (if need > v_newspan V then v_grow V need else Some (v_newspan V)) of
        None \<Rightarrow> Inl (Err ''cannot grow the restored thread stack'' [])
      | Some spn \<Rightarrow>
          let H = u_heap st
          in Inr (co, spn, st\<lparr>u_heap := H\<lparr>h_stack := (h_stack H)(co := \<lambda>_. LNil), h_open := (h_open H)(co := []),
                                          h_top := (h_top H)(co := need)\<rparr>\<rparr>)))"

text \<open>The stack: header, slots, frames, open upvalues, loops. Passes 1 to 4b.\<close>

record restored =
  rs_co :: addr
  rs_status :: nat
  rs_base :: nat
  rs_top :: nat
  rs_span :: nat
  rs_frames :: "frec list"
  rs_words :: "nat \<Rightarrow> sword option"

definition u_stack :: "venv \<Rightarrow> unpersister \<Rightarrow> ust \<Rightarrow> eris_err + restored \<times> ust" where
  "u_stack V U st =
     ebind (ur r_byte st) (\<lambda>(status, st).
     ebind (ur r_uleb st) (\<lambda>(need, st).
     ebind (ur r_uleb st) (\<lambda>(base, st).
     ebind (ur r_uleb st) (\<lambda>(tp, st).
     let need = unat need; base = unat base; tp = unat tp in
     ebind (thread_header V status need base tp) (\<lambda>_.
     ebind (new_thread V need st) (\<lambda>(co, spn, st).
     let st = st\<lparr>u_rthreads := (co, tp) # u_rthreads st\<rparr> in
     ebind (u_slots U co need [1 + v_fr2 V..<tp] st) (\<lambda>st.
     ebind (u_frames V co (unat status) need base tp st) (\<lambda>(fs, W, st).
     ebind (ur r_uleb st) (\<lambda>(nuv, st).
     if unat nuv > tp then Inl (Err ''thread claims more open upvalues than slots'' [])
     else ebind (r_upvalues V co tp (need + 1) (unat nuv) st) (\<lambda>st.
     ebind (u_forin V co W fs need tp st) (\<lambda>st.
     Inr (\<lparr>rs_co = co, rs_status = unat status, rs_base = base, rs_top = tp, rs_span = spn, rs_frames = fs, rs_words = W\<rparr>, st))))))))))))"

text \<open>Pass 5: the environment, then the header; \<open>rthreads\<close> is what it was before.\<close>

definition u_thread :: "venv \<Rightarrow> unpersister \<Rightarrow> unpersister" where
  "u_thread V U st =
     (let rthreads = u_rthreads st in
      ebind (u_stack V U st) (\<lambda>(r, st). ebind (U st) (\<lambda>(env, st).
      case env of
        LObj e \<Rightarrow>
          if lua_type (u_heap st) env \<noteq> 5 then Inl (Err ''thread environment is not a table'' [lua_type (u_heap st) env])
          else
            let H = u_heap st; co = rs_co r in
            Inr (LObj co, st\<lparr>u_heap := H\<lparr>h_env := (h_env H)(co := e), h_top := (h_top H)(co := rs_top r),
                   h_obj := (h_obj H)(co \<mapsto> OThread False False False (rs_status r > 1)),
                   h_coro := (h_coro H)(co :=
                     \<lparr>c_status = rs_status r, c_base = rs_base r, c_span = rs_span r, c_word = rs_words r\<rparr>)\<rparr>,
                 u_rthreads := rthreads\<rparr>)
      | _ \<Rightarrow> Inl (Err ''thread environment is not a table'' [lua_type (u_heap st) env]))))"

section \<open>The frame chain as the VM walks it\<close>

text \<open>\<open>frame_prevl\<close> of a Lua frame goes by the call before its return position, \<open>frame_prevd\<close> of any
  other by the size in its word.\<close>

definition frame_prev :: "venv \<Rightarrow> heap \<Rightarrow> (nat \<Rightarrow> sword option) \<Rightarrow> nat \<Rightarrow> nat option" where
  "frame_prev V H W f =
     (case W f of
        Some (WPc p ofs) \<Rightarrow> Some (f - (1 + v_fr2 V + i_a (pt_bc (h_proto H p) ! (ofs - 1))))
      | Some (WFtsz link kind) \<Rightarrow> Some (f - link div 8)
      | _ \<Rightarrow> None)"

text \<open>From a frame down to the bottom of the stack; None where the chain does not descend.\<close>

function frame_walk :: "venv \<Rightarrow> heap \<Rightarrow> (nat \<Rightarrow> sword option) \<Rightarrow> nat \<Rightarrow> nat list option" where
  "frame_walk V H W f =
     (if f \<le> v_fr2 V then Some []
      else case frame_prev V H W f of
        None \<Rightarrow> None
      | Some g \<Rightarrow> if g < f then map_option (\<lambda>fs. f # fs) (frame_walk V H W g) else None)"
  by pat_completeness auto
termination
  by (relation "measure (\<lambda>(V, H, W, f). f)") auto

declare frame_walk.simps [simp del]

section \<open>What the chain of a restored stack is\<close>

definition link_ok :: "frec \<Rightarrow> bool" where
  "link_ok f = (16 \<le> fr_link f \<and> (fr_kind f = FR_CONT \<longrightarrow> (if fr_cs f = CS_STITCH then 40 else 32) \<le> fr_link f))"

fun chain :: "nat \<Rightarrow> nat \<Rightarrow> nat \<Rightarrow> frec list \<Rightarrow> nat \<Rightarrow> bool" where
  "chain fr2 tp pos [] e = (pos = e)"
| "chain fr2 tp pos (f # fs) e =
     (fr_at f = pos \<and> fr2 < pos \<and> pos < tp \<and> fr_link f div 8 \<le> pos \<and> link_ok f \<and> chain fr2 tp (pos - fr_link f div 8) fs e)"

lemma r_frame_link: "r_frame V i = Inr (f, r) \<Longrightarrow> link_ok f"
  by (auto simp: r_frame_def link_ok_def ebind_eq_Inr Let_def split: if_split_asm)

lemma r_frames_link: "r_frames V n i = Inr (fs, r) \<Longrightarrow> \<forall>f \<in> set fs. link_ok f"
  by (induction n arbitrary: i fs) (auto simp: ebind_eq_Inr dest: r_frame_link)

lemma derive_chain_chain:
  "derive_chain fr2 tp k pos fs = Inr (gs, e) \<Longrightarrow> 0 \<le> pos \<Longrightarrow> \<forall>f \<in> set fs. link_ok f \<Longrightarrow>
     0 \<le> e \<and> chain fr2 tp (nat pos) gs (nat e) \<and> length gs = length fs"
proof (induction fs arbitrary: k pos gs e)
  case (Cons f fs)
  let ?prev = "pos - int (fr_link f div 8)"
  obtain hs where r: "int fr2 < pos" "pos < int tp" "int fr2 \<le> ?prev" "derive_chain fr2 tp (k + 1) ?prev fs = Inr (hs, e)"
      "gs = f\<lparr>fr_at := nat pos\<rparr> # hs"
    using Cons.prems(1) by (auto simp: Let_def ebind_eq_Inr split: if_splits)
  have "0 \<le> e \<and> chain fr2 tp (nat ?prev) hs (nat e) \<and> length hs = length fs"
    by (rule Cons.IH [OF r(4)]) (use r Cons.prems in auto)
  moreover have "nat ?prev = nat pos - fr_link f div 8" by simp
  moreover have "link_ok (f\<lparr>fr_at := nat pos\<rparr>)" using Cons.prems(3) by (simp add: link_ok_def)
  ultimately show ?case using r by auto
qed auto

text \<open>A frame writes above the next frame only, and not over its own function.\<close>

definition writes_frame :: "venv \<Rightarrow> heap \<Rightarrow> frec \<Rightarrow> (nat \<Rightarrow> sword option) \<Rightarrow> bool" where
  "writes_frame V H f W =
     (case W (fr_at f) of
        Some (WPc p ofs) \<Rightarrow> 1 \<le> ofs \<and> ofs < length (pt_bc (h_proto H p)) \<and> is_call (i_op (pt_bc (h_proto H p) ! (ofs - 1)))
          \<and> fr_link f div 8 = 1 + v_fr2 V + i_a (pt_bc (h_proto H p) ! (ofs - 1))
      | Some (WFtsz link kind) \<Rightarrow> link = fr_link f
      | _ \<Rightarrow> False)"

lemma write_frame_D:
  assumes "write_frame V H co k f W = Inr W'" "link_ok f" "fr_link f div 8 \<le> fr_at f" "fr_at f \<noteq> 0"
  shows "fn_at H co W (fr_at f - 1) \<noteq> None \<and> writes_frame V H f W'
    \<and> (\<forall>i. i \<le> fr_at f - fr_link f div 8 \<or> fr_at f < i \<or> i = fr_at f - 1 \<longrightarrow> W' i = W i)"
proof -
  have l: "2 \<le> fr_link f div 8" "fr_kind f = FR_CONT \<longrightarrow> 4 \<le> fr_link f div 8" "fr_kind f = FR_CONT \<and> fr_cs f = CS_STITCH \<longrightarrow> 5 \<le> fr_link f div 8"
    using assms(2) by (auto simp: link_ok_def less_eq_div_iff_mult_less_eq split: if_splits)
  define n where "n = fr_link f div 8"
  have frame: "0 < fr_at f" "2 \<le> n" "n \<le> fr_at f" "fr_kind f = FR_CONT \<longrightarrow> 4 \<le> n" "fr_kind f = FR_CONT \<and> fr_cs f = CS_STITCH \<longrightarrow> 5 \<le> n"
    using l assms(3,4) by (simp_all add: n_def)
  let ?at = "fr_at f" and ?W' = "if fr_cs f = CS_STITCH then (\<lambda>W. W(fr_at f - 4 \<mapsto> WNoTrace)) else (\<lambda>W. W)"
  have fn: "fn_at H co W (?at - 1) \<noteq> None"
    using assms(1) by (rule contrapos_pn) (simp add: write_frame_def Let_def)
  note w = assms(1) [unfolded write_frame_def Let_def if_not_P [OF fn]]
  consider (lua) p ofs where "W' = W(?at \<mapsto> WPc p ofs)" "writes_frame V H f W'"
    | (cont) p ofs where "W' = ?W' (W(?at - 3 \<mapsto> WCont (fr_cs f), ?at - 2 \<mapsto> WPc p ofs, ?at \<mapsto> WFtsz (fr_link f) FR_CONT))" "fr_kind f = FR_CONT"
    | (other) "W' = W(?at \<mapsto> WFtsz (fr_link f) (fr_kind f))"
  proof (cases "fr_kind f = FR_LUA \<or> fr_kind f = FR_CONT")
    case True
    then obtain p where p: "proto_at H co W (?at - fr_link f div 8 - 1) = Some p" using w by (auto split: option.splits)
    show ?thesis
    proof (cases "fr_kind f = FR_LUA")
      case True
      then show ?thesis using w p by (intro lua [of p "fr_bcofs f"]) (auto simp: writes_frame_def split: if_split_asm)
    next
      case False
      then show ?thesis using w p True by (intro cont [of p "fr_bcofs f"]) (auto split: if_split_asm)
    qed
  next
    case False
    then show ?thesis using w other by (simp split: if_split_asm)
  qed
  then show ?thesis
  proof cases
    case lua
    have "W' i = W i" if "i \<noteq> ?at" for i using lua(1) that by simp
    then show ?thesis using fn lua(2) frame unfolding n_def [symmetric] by auto
  next
    case cont
    have "W' ?at = Some (WFtsz (fr_link f) FR_CONT)" using cont(1) frame(1) assms(4) by auto
    then have "writes_frame V H f W'" by (simp add: writes_frame_def)
    moreover have "W' i = W i" if "i \<le> ?at - n \<or> ?at < i \<or> i = ?at - 1" for i
    proof -
      have n: "4 \<le> n" "n \<le> ?at" using frame cont(2) by simp_all
      then have "i \<noteq> ?at" "i \<noteq> ?at - 2" "i \<noteq> ?at - 3" using that by arith+
      moreover have "i \<noteq> ?at - 4" if "fr_cs f = CS_STITCH"
      proof -
        have "5 \<le> n" using frame cont(2) that by simp
        then show ?thesis using n(2) \<open>i \<le> ?at - n \<or> ?at < i \<or> i = ?at - 1\<close> by arith
      qed
      ultimately show ?thesis using cont(1) by simp
    qed
    ultimately show ?thesis using fn unfolding n_def by blast
  next
    case other
    have "W' i = W i" if "i \<noteq> ?at" for i using other that by simp
    moreover have "writes_frame V H f W'" using other by (simp add: writes_frame_def)
    ultimately show ?thesis using fn frame unfolding n_def [symmetric] by auto
  qed
qed

lemma write_frames_D:
  "write_frames V H co k fs W = Inr W' \<Longrightarrow> chain (v_fr2 V) tp pos fs e \<Longrightarrow> \<forall>i \<le> pos. W i = None \<Longrightarrow>
     (\<forall>i > pos. W' i = W i) \<and> (\<forall>i \<le> e. W' i = None)
     \<and> (\<forall>f \<in> set fs. W' (fr_at f - 1) = None \<and> fn_at H co W' (fr_at f - 1) \<noteq> None \<and> writes_frame V H f W')"
proof (induction fs arbitrary: k W pos)
  case (Cons f fs)
  let ?prev = "pos - fr_link f div 8"
  obtain W1 where w: "write_frame V H co k f W = Inr W1" "write_frames V H co (k + 1) fs W1 = Inr W'"
    using Cons.prems(1) by (auto simp: ebind_eq_Inr)
  have c: "fr_at f = pos" "v_fr2 V < pos" "fr_link f div 8 \<le> pos" "link_ok f" "chain (v_fr2 V) tp ?prev fs e"
    using Cons.prems(2) by auto
  have d: "fn_at H co W (pos - 1) \<noteq> None" "writes_frame V H f W1"
      "\<forall>i. i \<le> ?prev \<or> pos < i \<or> i = pos - 1 \<longrightarrow> W1 i = W i"
    using write_frame_D [OF w(1) c(4)] c by auto
  have p: "?prev < pos - 1" using c(2-4) by (auto simp: link_ok_def)
  have "\<forall>i \<le> ?prev. W1 i = None" using d(3) Cons.prems(3) by simp
  from Cons.IH [OF w(2) c(5) this]
  have i: "\<forall>i > ?prev. W' i = W1 i" "\<forall>i \<le> e. W' i = None"
      "\<forall>f \<in> set fs. W' (fr_at f - 1) = None \<and> fn_at H co W' (fr_at f - 1) \<noteq> None \<and> writes_frame V H f W'" by auto
  have "W' (pos - 1) = W (pos - 1)" "W' pos = W1 pos" using i(1) d(3) p by auto
  then have "W' (pos - 1) = None" "fn_at H co W' (pos - 1) \<noteq> None" "writes_frame V H f W'"
    using Cons.prems(3) d(1,2) c(1) by (auto simp: fn_at_def writes_frame_def)
  then show ?case using i d(3) c(1) p by auto
qed auto

lemma writes_prev: "writes_frame V H f W \<Longrightarrow> frame_prev V H W (fr_at f) = Some (fr_at f - fr_link f div 8)"
  by (auto simp: writes_frame_def frame_prev_def split: option.splits sword.splits)

lemma walk_chain:
  "chain (v_fr2 V) tp pos fs (v_fr2 V) \<Longrightarrow> \<forall>f \<in> set fs. writes_frame V H f W \<Longrightarrow>
     frame_walk V H W pos = Some (map fr_at fs)"
proof (induction fs arbitrary: pos)
  case (Cons f fs)
  have "frame_prev V H W pos = Some (pos - fr_link f div 8)" using writes_prev [of V H f W] Cons.prems by simp
  moreover have "pos - fr_link f div 8 < pos" using Cons.prems(1) by (auto simp: link_ok_def)
  moreover have "frame_walk V H W (pos - fr_link f div 8) = Some (map fr_at fs)" using Cons by auto
  ultimately show ?case using Cons.prems(1) by (subst frame_walk.simps) auto
qed (simp add: frame_walk.simps)

section \<open>Patching bytecode\<close>

text \<open>All that despecialising does to bytecode: an ITERN becomes an ITERC, an ISNEXT a JMP.\<close>

definition patched_ins :: "bcins \<Rightarrow> bcins \<Rightarrow> bool" where
  "patched_ins i j =
     (i_a j = i_a i \<and> i_d j = i_d i
      \<and> (i_op j = i_op i \<or> i_op i = BC_ITERN \<and> i_op j = BC_ITERC \<or> i_op i = BC_ISNEXT \<and> i_op j = BC_JMP))"

definition patched :: "heap \<Rightarrow> heap \<Rightarrow> bool" where
  "patched H H' =
     (h_stack H' = h_stack H \<and> h_obj H' = h_obj H
      \<and> (\<forall>p. pt_framesize (h_proto H' p) = pt_framesize (h_proto H p)
            \<and> list_all2 patched_ins (pt_bc (h_proto H p)) (pt_bc (h_proto H' p))))"

lemma patched_ins_refl: "patched_ins i i"
  by (simp add: patched_ins_def)

lemma patched_ins_trans: "patched_ins i j \<Longrightarrow> patched_ins j k \<Longrightarrow> patched_ins i k"
  by (auto simp: patched_ins_def)

lemma patched_refl [simp, intro]: "patched H H"
  by (simp add: patched_def list.rel_refl patched_ins_refl)

lemma patched_trans [trans]: "patched H H' \<Longrightarrow> patched H' H'' \<Longrightarrow> patched H H''"
  by (auto simp: patched_def intro: list_all2_trans [OF patched_ins_trans])

lemma patchedD:
  assumes "patched H H'"
  shows "fn_at H' co W i = fn_at H co W i" "proto_at H' co W i = proto_at H co W i" "is_replay_fn H' co W i = is_replay_fn H co W i"
    "length (pt_bc (h_proto H' p)) = length (pt_bc (h_proto H p))" "loop_heads H' p = loop_heads H p"
    "pt_framesize (h_proto H' p) = pt_framesize (h_proto H p)"
    "k < length (pt_bc (h_proto H p)) \<Longrightarrow> patched_ins (pt_bc (h_proto H p) ! k) (pt_bc (h_proto H' p) ! k)"
proof -
  have l: "list_all2 patched_ins (pt_bc (h_proto H p)) (pt_bc (h_proto H' p))" for p using assms by (simp add: patched_def)
  show f: "fn_at H' co W i = fn_at H co W i" using assms by (simp only: patched_def fn_at_def)
  then show "proto_at H' co W i = proto_at H co W i" "is_replay_fn H' co W i = is_replay_fn H co W i"
    by (simp_all add: proto_at_def is_replay_fn_def)
  show n: "length (pt_bc (h_proto H' p)) = length (pt_bc (h_proto H p))" using list_all2_lengthD [OF l] by simp
  then show "loop_heads H' p = loop_heads H p" by (simp add: loop_heads_def)
  show "pt_framesize (h_proto H' p) = pt_framesize (h_proto H p)" using assms by (simp add: patched_def)
  show "k < length (pt_bc (h_proto H p)) \<Longrightarrow> patched_ins (pt_bc (h_proto H p) ! k) (pt_bc (h_proto H' p) ! k)"
    by (rule list_all2_nthD [OF l])
qed

lemma set_op_proto: "pt_bc (h_proto (set_op p pos b H) p) = (pt_bc (h_proto H p))[pos := (pt_bc (h_proto H p) ! pos)\<lparr>i_op := b\<rparr>]"
  by (simp add: set_op_def Let_def)

lemma set_op_other: "q \<noteq> pos \<Longrightarrow> pt_bc (h_proto (set_op p q b H) p) ! pos = pt_bc (h_proto H p) ! pos"
  by (simp add: set_op_proto)

lemma patched_set_op:
  assumes "patched_ins (pt_bc (h_proto H p) ! pos) ((pt_bc (h_proto H p) ! pos)\<lparr>i_op := b\<rparr>)"
  shows "patched H (set_op p pos b H)"
proof -
  have "list_all2 patched_ins xs (xs[pos := (xs ! pos)\<lparr>i_op := b\<rparr>])" if "patched_ins (xs ! pos) ((xs ! pos)\<lparr>i_op := b\<rparr>)" for xs
    using that by (cases "pos < length xs")
      (auto simp: list_all2_conv_all_nth nth_list_update patched_ins_refl list_update_beyond)
  then show ?thesis using assms by (auto simp: patched_def set_op_def Let_def list.rel_refl patched_ins_refl)
qed

lemma despecialise_D:
  assumes "elj_despecialise p pos ra H = Inr (hit, H')"
  shows "patched H H' \<and> (hit \<longrightarrow> i_op (pt_bc (h_proto H' p) ! pos) = BC_ITERC)"
proof -
  let ?bc = "pt_bc (h_proto H p)"
  let ?isn = "nat (int pos + 1 + bc_j (?bc ! (pos + 1)))"
  consider "\<not> hit" "H' = H" | "H' = H" "i_op (?bc ! pos) = BC_ITERC"
    | "hit" "i_op (?bc ! pos) = BC_ITERN" "pos + 1 < length ?bc" "?isn < pos"
      "i_op (?bc ! ?isn) \<in> {BC_ISNEXT, BC_JMP}" "H' = set_op p ?isn BC_JMP (set_op p pos BC_ITERC H)"
  proof (cases "\<not> hit \<and> H' = H \<or> H' = H \<and> i_op (?bc ! pos) = BC_ITERC")
    case False
    let ?j = "int pos + 1 + bc_j (?bc ! (pos + 1))"
    have e: "pos + 1 < length ?bc" "i_op (?bc ! pos) = BC_ITERN" "\<not> (?j < 1 \<or> ?j \<ge> int pos \<or> i_op (?bc ! ?isn) \<notin> {BC_ISNEXT, BC_JMP} \<or> i_a (?bc ! ?isn) \<noteq> ra)"
        "(hit, H') = (True, set_op p ?isn BC_JMP (set_op p pos BC_ITERC H))"
      using assms False by (simp_all only: elj_despecialise_def Let_def split: if_split_asm) auto
    have "?isn < pos" using e(3) by linarith
    then show ?thesis using e by (intro that(3)) auto
  qed (use that in blast)
  then show ?thesis
  proof cases
    case 3
    let ?H = "set_op p pos BC_ITERC H"
    have bc: "pt_bc (h_proto ?H p) ! ?isn = ?bc ! ?isn" by (rule set_op_other) (use 3(4) in linarith)
    have "patched H ?H" by (rule patched_set_op) (simp add: patched_ins_def 3(2))
    also have "patched ?H H'" unfolding 3(6) by (rule patched_set_op) (use 3(5) bc in \<open>auto simp: patched_ins_def\<close>)
    finally have "patched H H'" .
    moreover have "pt_bc (h_proto H' p) ! pos = pt_bc (h_proto ?H p) ! pos"
      unfolding 3(6) by (rule set_op_other) (use 3(4) in linarith)
    ultimately show ?thesis using 3(3) by (simp add: set_op_proto)
  qed auto
qed

lemma despecialise_hit:
  assumes "elj_despecialise p pos ra H = Inr (hit, H')" "pos \<in> set (loop_heads H p)"
    "i_op (pt_bc (h_proto H p) ! pos) = BC_ITERN" "i_a (pt_bc (h_proto H p) ! pos) = ra"
  shows "hit"
  using assms unfolding elj_despecialise_def Let_def by (auto simp: loop_heads_def split: if_split_asm)

lemma patch_register_patched: "patch_register p ra ipos ps (n, named, H) = Inr (n', named', H') \<Longrightarrow> patched H H'"
proof (induction ps arbitrary: n named H)
  case (Cons pos ps)
  show ?case
  proof (cases "i_op (pt_bc (h_proto H p) ! pos) \<in> {BC_ITERN, BC_ITERC}")
    case True
    then obtain hit H1 n1 named1 where h: "elj_despecialise p pos ra H = Inr (hit, H1)"
        "patch_register p ra ipos ps (n1, named1, H1) = Inr (n', named', H')"
      using Cons.prems by (auto simp: ebind_eq_Inr split: if_split_asm)
    then show ?thesis using despecialise_D [OF h(1)] Cons.IH [OF h(2)] patched_trans by blast
  qed (use Cons in auto)
qed simp

lemma forin_record_patched: "forin_record V co W fs tp ctl ra ipos H = Inr H' \<Longrightarrow> patched H H'"
  unfolding forin_record_def by (auto simp: ebind_eq_Inr split: if_split_asm option.split_asm dest!: patch_register_patched)

lemma ur_heap: "ur f st = Inr (x, st') \<Longrightarrow> u_heap st' = u_heap st"
  by (auto simp: ur_def ebind_eq_Inr)

lemma forin_records_patched: "forin_records V co W fs tp n st = Inr st' \<Longrightarrow> patched (u_heap st) (u_heap st')"
proof (induction n arbitrary: st)
  case (Suc n)
  then obtain a sa b sb c sc H where r: "ur r_uleb st = Inr (a, sa)" "ur r_uleb sa = Inr (b, sb)" "ur r_uleb sb = Inr (c, sc)"
      "forin_record V co W fs tp (unat a) (unat b) (unat c) (u_heap sc) = Inr H"
      "forin_records V co W fs tp n (sc\<lparr>u_heap := H\<rparr>) = Inr st'"
    by (auto simp: ebind_eq_Inr)
  have "patched (u_heap sc) H" using forin_record_patched [OF r(4)] .
  also have "patched H (u_heap st')" using Suc.IH [OF r(5)] by simp
  finally show ?case using r(1-3) by (simp add: ur_heap)
qed simp

section \<open>The sweep\<close>

definition itern_on_replay :: "venv \<Rightarrow> heap \<Rightarrow> addr \<Rightarrow> (nat \<Rightarrow> sword option) \<Rightarrow> nat \<Rightarrow> nat \<Rightarrow> nat \<Rightarrow> nat \<Rightarrow> bool" where
  "itern_on_replay V H co W tp fbase p pos =
     (let ins = pt_bc (h_proto H p) ! pos; ra = i_a ins; c = fbase + ra - 1 in
      i_op ins = BC_ITERN \<and> 3 \<le> ra \<and> ra - 1 < pt_framesize (h_proto H p) \<and> 3 + v_fr2 V \<le> c \<and> c < tp
      \<and> is_replay_fn H co W (c - 2))"

lemma itern_patched:
  assumes "patched H H'" "pos \<in> set (loop_heads H p)" "itern_on_replay V H' co W tp fbase p pos"
  shows "itern_on_replay V H co W tp fbase p pos"
proof -
  have "patched_ins (pt_bc (h_proto H p) ! pos) (pt_bc (h_proto H' p) ! pos)"
    by (rule patchedD(7) [OF assms(1)]) (use assms(2) in \<open>auto simp: loop_heads_def\<close>)
  then show ?thesis using assms(3) patchedD(3,6) [OF assms(1)] by (auto simp: itern_on_replay_def Let_def patched_ins_def)
qed

lemma sweep_heads_D:
  "sweep_heads V co W tp fbase p ps H = Inr H' \<Longrightarrow> set ps \<subseteq> set (loop_heads H p) \<Longrightarrow>
     patched H H' \<and> (\<forall>pos \<in> set ps. \<not> itern_on_replay V H' co W tp fbase p pos)"
proof (induction ps arbitrary: H)
  case (Cons pos ps)
  have pos: "pos \<in> set (loop_heads H p)" using Cons.prems(2) by simp
  show ?case
  proof (cases "itern_on_replay V H co W tp fbase p pos")
    case True
    then obtain hit H1 where h: "elj_despecialise p pos (i_a (pt_bc (h_proto H p) ! pos)) H = Inr (hit, H1)"
        "sweep_heads V co W tp fbase p ps H1 = Inr H'"
      using Cons.prems(1) by (auto simp: itern_on_replay_def Let_def ebind_eq_Inr)
    have hit using despecialise_hit [OF h(1) pos] True by (simp add: itern_on_replay_def Let_def)
    then have d: "patched H H1" "i_op (pt_bc (h_proto H1 p) ! pos) = BC_ITERC" using despecialise_D [OF h(1)] by auto
    then have n: "\<not> itern_on_replay V H1 co W tp fbase p pos" by (simp add: itern_on_replay_def Let_def)
    have "set ps \<subseteq> set (loop_heads H1 p)" using Cons.prems(2) patchedD(5) [OF d(1)] by simp
    from Cons.IH [OF h(2) this] have i: "patched H1 H'" "\<forall>pos \<in> set ps. \<not> itern_on_replay V H' co W tp fbase p pos" by auto
    then show ?thesis using n d(1) itern_patched [OF i(1), of pos p] patched_trans pos patchedD(5) [OF d(1)] by auto
  next
    case False
    then have "sweep_heads V co W tp fbase p ps H = Inr H'"
      using Cons.prems(1) unfolding sweep_heads.simps itern_on_replay_def Let_def by (auto split: if_split_asm)
    then have "patched H H'" "\<forall>pos \<in> set ps. \<not> itern_on_replay V H' co W tp fbase p pos" using Cons by auto
    then show ?thesis using False itern_patched pos by auto
  qed
qed simp

definition no_itern :: "venv \<Rightarrow> heap \<Rightarrow> addr \<Rightarrow> (nat \<Rightarrow> sword option) \<Rightarrow> nat \<Rightarrow> frec list \<Rightarrow> bool" where
  "no_itern V H co W tp fs =
     (\<forall>f \<in> set fs. \<forall>p. proto_at H co W (fr_at f - 1) = Some p \<longrightarrow>
        (\<forall>pos \<in> set (loop_heads H p). \<not> itern_on_replay V H co W tp (fr_at f + 1) p pos))"

lemma no_itern_patched: "no_itern V H co W tp fs \<Longrightarrow> patched H H' \<Longrightarrow> no_itern V H' co W tp fs"
  unfolding no_itern_def using itern_patched patchedD(2,5) by metis

lemma sweep_frames_D: "sweep_frames V co W tp fs H = Inr H' \<Longrightarrow> patched H H' \<and> no_itern V H' co W tp fs"
proof (induction fs arbitrary: H)
  case (Cons f fs)
  show ?case
  proof (cases "proto_at H co W (fr_at f - 1)")
    case None
    then have "patched H H'" "no_itern V H' co W tp fs" using Cons by auto
    then show ?thesis using None patchedD(2) by (auto simp: no_itern_def)
  next
    case (Some p)
    then obtain H1 where h: "sweep_heads V co W tp (fr_at f + 1) p (loop_heads H p) H = Inr H1" "sweep_frames V co W tp fs H1 = Inr H'"
      using Cons.prems by (auto simp: ebind_eq_Inr)
    note d = sweep_heads_D [OF h(1) subset_refl]
    have "no_itern V H1 co W tp [f]"
      using d Some patchedD(2,5) [of H H1] by (auto simp: no_itern_def)
    moreover have i: "patched H1 H'" "no_itern V H' co W tp fs" using Cons.IH [OF h(2)] by auto
    ultimately have "no_itern V H' co W tp [f]" using no_itern_patched by blast
    then show ?thesis using i d patched_trans by (auto simp: no_itern_def)
  qed
qed (simp add: no_itern_def)

lemma u_forin_D:
  assumes "u_forin V co W fs need tp st = Inr st'"
  shows "patched (u_heap st) (u_heap st') \<and> no_itern V (u_heap st') co W tp fs"
proof -
  obtain nrep sa where n: "ur r_uleb st = Inr (nrep, sa)" using assms by (auto simp: u_forin_def ebind_eq_Inr)
  let ?touch = "nrep \<noteq> 0 \<or> replay_in_stack V co W tp (u_heap sa)"
  let ?rest = "\<lambda>st. if ?touch then ebind (sweep_frames V co W tp fs (u_heap st)) (\<lambda>H. Inr (st\<lparr>u_heap := H\<rparr>)) else Inr st"
  have "ebind (forin_records V co W fs tp (unat nrep) sa) ?rest = Inr st'"
    using assms unfolding u_forin_def n ebind_Inr prod.case Let_def if_Inl_iff by blast
  then obtain sb where b: "forin_records V co W fs tp (unat nrep) sa = Inr sb" "?rest sb = Inr st'"
    unfolding ebind_eq_Inr by blast
  have p: "patched (u_heap st) (u_heap sb)" using forin_records_patched [OF b(1)] ur_heap [OF n] by simp
  show ?thesis
  proof (cases ?touch)
    case True
    then obtain H where "sweep_frames V co W tp fs (u_heap sb) = Inr H" "st' = sb\<lparr>u_heap := H\<rparr>"
      using b(2) by (auto simp: ebind_eq_Inr)
    then show ?thesis using sweep_frames_D patched_trans [OF p] by auto
  next
    case False
    then have st': "st' = sb" using b(2) by simp
    have "\<not> is_replay_fn (u_heap sa) co W i" if "1 + v_fr2 V \<le> i" "i < tp" for i
      using False that by (auto simp: replay_in_stack_def)
    then have "\<not> is_replay_fn (u_heap st') co W i" if "1 + v_fr2 V \<le> i" "i < tp" for i
      using that unfolding st' patchedD(3) [OF forin_records_patched [OF b(1)]] .
    then have "no_itern V (u_heap st') co W tp fs" by (auto simp: no_itern_def itern_on_replay_def Let_def)
    then show ?thesis using p st' by simp
  qed
qed

section \<open>The restored stack\<close>

lemma r_upvalues_patched: "r_upvalues V co tp prv n st = Inr st' \<Longrightarrow> patched (u_heap st) (u_heap st')"
proof (induction n arbitrary: prv st)
  case (Suc n)
  obtain a sa b sb where r: "ur r_uleb st = Inr (a, sa)" "ur r_byte sa = Inr (b, sb)"
    using Suc.prems by (auto simp: ebind_eq_Inr)
  obtain H uv where h: "elj_finduv co (unat a) (b \<noteq> 0) (u_heap sb) = (H, uv)" by (cases "elj_finduv co (unat a) (b \<noteq> 0) (u_heap sb)")
  have p: "patched (u_heap sb) (H\<lparr>h_immut := (h_immut H)(uv := b \<noteq> 0)\<rparr>)"
    using h by (auto simp: elj_finduv_def Let_def patched_def list.rel_refl patched_ins_refl split: prod.splits if_split_asm)
  have "r_upvalues V co tp (unat a) n (sb\<lparr>u_heap := H\<lparr>h_immut := (h_immut H)(uv := b \<noteq> 0)\<rparr>\<rparr>) = Inr st'"
    using Suc.prems unfolding r_upvalues.simps r ebind_Inr prod.case Let_def if_Inl_iff h by blast
  from Suc.IH [OF this] patched_trans [OF p] show ?case using ur_heap [OF r(1)] ur_heap [OF r(2)] by simp
qed simp

lemma r_frames_length: "r_frames V n i = Inr (fs, r) \<Longrightarrow> length fs = n"
  by (induction n arbitrary: i fs) (auto simp: ebind_eq_Inr)

lemma derive_chain_length: "derive_chain fr2 tp k pos fs = Inr (gs, e) \<Longrightarrow> length gs = length fs \<and> (fs = [] \<longrightarrow> e = pos)"
proof (induction fs arbitrary: k pos gs)
  case (Cons f fs)
  then show ?case by (auto simp: Let_def ebind_eq_Inr split: if_split_asm)
qed simp

lemma u_frames_D:
  assumes "u_frames V co status need base tp st = Inr (fs, W, st')"
  shows "u_heap st' = u_heap st \<and> (status = 1 \<longleftrightarrow> fs \<noteq> []) \<and> (fs = [] \<longrightarrow> base = 1 + v_fr2 V)
    \<and> (1 + v_fr2 V \<le> base \<longrightarrow> chain (v_fr2 V) tp (base - 1) fs (v_fr2 V))
    \<and> write_frames V (u_heap st) co 0 fs (\<lambda>_. None) = Inr W"
proof -
  obtain n sa where n: "ur r_uleb st = Inr (n, sa)" using assms by (auto simp: u_frames_def ebind_eq_Inr)
  note a = assms [unfolded u_frames_def n ebind_Inr prod.case if_Inl_iff]
  then have "ebind (ur (r_frames V (unat n)) sa) (\<lambda>(fs, st). ebind (derive_frames V base tp fs) (\<lambda>fs.
      ebind (write_frames V (u_heap st) co 0 fs (\<lambda>_. None)) (\<lambda>W. Inr (fs, W, st)))) = Inr (fs, W, st')" by blast
  then obtain gs where g: "ur (r_frames V (unat n)) sa = Inr (gs, st')" "derive_frames V base tp gs = Inr fs"
      "write_frames V (u_heap st') co 0 fs (\<lambda>_. None) = Inr W"
    by (auto simp: ebind_eq_Inr)
  have h: "u_heap st' = u_heap st" using ur_heap [OF n] ur_heap [OF g(1)] by simp
  obtain e where d: "derive_chain (v_fr2 V) tp 0 (int base - 1) gs = Inr (fs, e)" "fs \<noteq> [] \<longrightarrow> e = int (v_fr2 V)"
    using g(2) by (auto simp: derive_frames_def ebind_eq_Inr split: if_split_asm)
  obtain rest where "r_frames V (unat n) (u_in sa) = Inr (gs, rest)" using g(1) by (auto simp: ur_def ebind_eq_Inr)
  then have l: "\<forall>f \<in> set gs. link_ok f" "length gs = unat n" using r_frames_link r_frames_length by blast+
  have z: "length fs = unat n" using derive_chain_length [OF d(1)] l(2) by simp
  then have f: "status = 1 \<longleftrightarrow> fs \<noteq> []" "fs = [] \<longrightarrow> base = 1 + v_fr2 V"
    using a by (auto simp: unsigned_eq_0_iff)
  have "chain (v_fr2 V) tp (base - 1) fs (v_fr2 V)" if b: "1 + v_fr2 V \<le> base"
  proof (cases "fs = []")
    case False
    have "chain (v_fr2 V) tp (nat (int base - 1)) fs (nat e)" using derive_chain_chain [OF d(1) _ l(1)] b by simp
    moreover have "nat (int base - 1) = base - 1" using b by simp
    ultimately show ?thesis using d(2) False by simp
  qed (use f(2) in simp)
  then show ?thesis using h f g(3) by simp
qed

lemma u_stack_D:
  assumes "u_stack V U st = Inr (r, st')"
  obtains need sa sb where "1 + v_fr2 V \<le> rs_base r"
    "u_frames V (rs_co r) (rs_status r) need (rs_base r) (rs_top r) sa = Inr (rs_frames r, rs_words r, sb)"
    "patched (u_heap sb) (u_heap st')" "no_itern V (u_heap st') (rs_co r) (rs_words r) (rs_top r) (rs_frames r)"
proof -
  obtain status need base tp co spn s1 s2 s3 s4 s5 s6 fs W nuv s7 where
    h: "thread_header V status (unat (need :: u64)) (unat (base :: u64)) (unat (tp :: u64)) = Inr ()"
    and f: "u_frames V co (unat status) (unat need) (unat base) (unat tp) s5 = Inr (fs, W, s6)"
    and u: "ur r_uleb s6 = Inr (nuv, s7)" "r_upvalues V co (unat tp) (unat need + 1) (unat nuv) s7 = Inr s4"
    and l: "u_forin V co W fs (unat need) (unat tp) s4 = Inr st'"
    and r: "r = \<lparr>rs_co = co, rs_status = unat status, rs_base = unat base, rs_top = unat tp, rs_span = spn, rs_frames = fs, rs_words = W\<rparr>"
    using assms unfolding u_stack_def Let_def by (auto simp: ebind_eq_Inr if_Inl_iff)
  have "1 + v_fr2 V \<le> unat base" using h by (auto simp: thread_header_def split: if_split_asm)
  moreover have "patched (u_heap s6) (u_heap st')"
    using patched_trans [OF r_upvalues_patched [OF u(2)]] u_forin_D [OF l] ur_heap [OF u(1)] by auto
  ultimately show ?thesis using that [of "unat need" s5 s6] f u_forin_D [OF l] r by simp
qed

lemma chain_bounds: "chain fr2 tp pos fs e \<Longrightarrow> f \<in> set fs \<Longrightarrow> fr2 < fr_at f \<and> fr_at f < tp"
  by (induction fs arbitrary: pos) auto

text \<open>Following the words of a restored stack after the loops of its prototypes were patched.\<close>

lemma writes_patched:
  assumes "writes_frame V H f W" "patched H H'"
  shows "writes_frame V H' f W"
proof (cases "W (fr_at f)")
  case (Some w)
  show ?thesis
  proof (cases w)
    case (WPc p ofs)
    have o: "1 \<le> ofs" "ofs < length (pt_bc (h_proto H p))" using assms(1) Some WPc by (simp_all add: writes_frame_def)
    then have "patched_ins (pt_bc (h_proto H p) ! (ofs - 1)) (pt_bc (h_proto H' p) ! (ofs - 1))"
      by (intro patchedD(7) [OF assms(2)]) simp
    then show ?thesis using assms(1) Some WPc patchedD(4) [OF assms(2)]
      by (auto simp: writes_frame_def patched_ins_def is_call_def)
  qed (use assms(1) Some in \<open>simp_all add: writes_frame_def\<close>)
qed (use assms(1) in \<open>simp add: writes_frame_def\<close>)

text \<open>C4: However malformed a blob is, a coroutine whose stack is rebuilt from it is safe to walk: starting below
  its base and following the VM's own frame words, the walk descends through exactly the recorded frames
  and ends at the bottom of the stack; every frame lies in the live stack above a function; and every
  position a frame returns to lies in its caller's prototype right after a call. A coroutine has frames
  exactly when its status is suspended.\<close>

theorem restored_frames:
  assumes "u_stack V U st = Inr (r, st')"
  shows "frame_walk V (u_heap st') (rs_words r) (rs_base r - 1) = Some (map fr_at (rs_frames r))
    \<and> (rs_status r = 1 \<longleftrightarrow> rs_frames r \<noteq> [])
    \<and> (\<forall>f \<in> set (rs_frames r). v_fr2 V < fr_at f \<and> fr_at f < rs_top r
          \<and> fn_at (u_heap st') (rs_co r) (rs_words r) (fr_at f - 1) \<noteq> None
          \<and> (\<forall>p ofs. rs_words r (fr_at f) = Some (WPc p ofs) \<longrightarrow>
               1 \<le> ofs \<and> ofs < length (pt_bc (h_proto (u_heap st') p)) \<and> is_call (i_op (pt_bc (h_proto (u_heap st') p) ! (ofs - 1)))))"
proof -
  obtain need sa sb where d: "1 + v_fr2 V \<le> rs_base r"
    "u_frames V (rs_co r) (rs_status r) need (rs_base r) (rs_top r) sa = Inr (rs_frames r, rs_words r, sb)"
    "patched (u_heap sb) (u_heap st')" using u_stack_D [OF assms] by metis
  note f = u_frames_D [OF d(2)]
  have c: "chain (v_fr2 V) (rs_top r) (rs_base r - 1) (rs_frames r) (v_fr2 V)"
    and w: "write_frames V (u_heap sb) (rs_co r) 0 (rs_frames r) (\<lambda>_. None) = Inr (rs_words r)" using f d(1) by auto
  have v: "\<forall>f \<in> set (rs_frames r). fn_at (u_heap sb) (rs_co r) (rs_words r) (fr_at f - 1) \<noteq> None \<and> writes_frame V (u_heap sb) f (rs_words r)"
    using write_frames_D [OF w c] by auto
  then have v': "\<forall>f \<in> set (rs_frames r). writes_frame V (u_heap st') f (rs_words r)" using writes_patched d(3) by blast
  have "\<forall>f \<in> set (rs_frames r). fn_at (u_heap st') (rs_co r) (rs_words r) (fr_at f - 1) \<noteq> None"
    using v patchedD(1) [OF d(3)] by simp
  then show ?thesis using walk_chain [OF c v'] f chain_bounds [OF c] v' by (auto simp: writes_frame_def)
qed

text \<open>C5: No coroutine is restored with a specialised for-in loop over a replay triple, which the VM would follow
  as a raw table: in the prototype of every frame, after the restore, no ITERN names registers whose function
  slot holds the replay iterator, whatever the loop records of the blob claim.\<close>

theorem no_itern_over_replay:
  assumes "u_stack V U st = Inr (r, st')" "f \<in> set (rs_frames r)"
    "proto_at (u_heap st') (rs_co r) (rs_words r) (fr_at f - 1) = Some p" "1 \<le> pos" "pos + 1 < length (pt_bc (h_proto (u_heap st') p))"
  shows "\<not> itern_on_replay V (u_heap st') (rs_co r) (rs_words r) (rs_top r) (fr_at f + 1) p pos"
proof -
  have "no_itern V (u_heap st') (rs_co r) (rs_words r) (rs_top r) (rs_frames r)" using u_stack_D [OF assms(1)] by metis
  then show ?thesis using assms(2-) by (auto simp: no_itern_def loop_heads_def)
qed

section \<open>One coroutine\<close>

text \<open>A function that yields inside a for-in loop, its loop specialised in this VM's prototype; the record
  claims there is no loop.\<close>

definition vm1 :: venv where
  "vm1 = \<lparr>v_fr2 = 1, v_maxstack = 50, v_newspan = 40, v_grow = Some, v_hook = False, v_mm = (\<lambda>_. MM_none), v_flush = True\<rparr>"

definition loop_proto :: proto where
  "loop_proto =
     \<lparr>pt_bc = [\<lparr>i_op = BC_OTHER 0, i_a = 9, i_d = 0\<rparr>, \<lparr>i_op = BC_ISNEXT, i_a = 3, i_d = 0x8001\<rparr>, \<lparr>i_op = BC_CALL, i_a = 3, i_d = 0\<rparr>,
               \<lparr>i_op = BC_ITERN, i_a = 3, i_d = 0\<rparr>, \<lparr>i_op = BC_ITERL, i_a = 3, i_d = 0x7FFD\<rparr>, \<lparr>i_op = BC_OTHER 1, i_a = 0, i_d = 0\<rparr>],
      pt_framesize = 9, pt_vararg = False\<rparr>"

definition heap4 :: heap where
  "heap4 =
     \<lparr>h_obj = [0 \<mapsto> OFun 7 [] 2, 1 \<mapsto> OCFun 9, 2 \<mapsto> OTab [] None, 3 \<mapsto> OReplay], h_next = 4, h_cell = Map.empty, h_cnext = 0,
      h_stack = (\<lambda>_ _. LNil), h_open = (\<lambda>_. []), h_top = (\<lambda>_. 0), h_env = (\<lambda>_. 2), h_coro = (\<lambda>_. idle_coro),
      h_proto = (\<lambda>_. empty_proto)(7 := loop_proto), h_immut = (\<lambda>_. False)\<rparr>"

text \<open>The values of the slots come from a reader that knows the four objects by a byte each.\<close>

definition reader1 :: unpersister where
  "reader1 st =
     (case u_in st of [] \<Rightarrow> Inl (Err ''truncated data'' [])
      | b # r \<Rightarrow> Inr (if b = 0 then LNil else LObj (unat b - 1), st\<lparr>u_in := r\<rparr>))"

definition thread1 :: "byte list" where
  "thread1 = [1, 12, 9, 9] @ [1, 0, 4, 3, 0, 2, 0] @ [2, 0, 40, 3, 5, 16] @ [0] @ [0]"

definition start1 :: ust where
  "start1 = \<lparr>u_in = thread1, u_ref = Map.empty, u_refcount = 0, u_upv = Map.empty, u_upvcount = 0, u_list = (\<lambda>_. []), u_fill = [],
     u_heap = heap4, u_rthreads = []\<rparr>"

lemma ebind_weak_cong: "x = y \<Longrightarrow> ebind x f = ebind y f"
  by simp

text \<open>For the evaluation of restores: each step once its input is known.\<close>

lemma uleb_small: "b < 128 \<Longrightarrow> r_uleb (b # r) = Inr (ucast b, r)"
proof -
  assume b: "b < 128"
  have t: "take_bit 7 b = b"
  proof (rule word_unat_eq_iff [THEN iffD2])
    have "unat b < 2 ^ 7" using b by (simp add: word_less_nat_alt)
    then show "unat (take_bit 7 b) = unat b" by (simp only: unsigned_take_bit_eq take_bit_nat_eq_self)
  qed
  have "bit b n \<Longrightarrow> n < 7" for n using t by (metis bit_take_bit_iff)
  then have "b AND 0x80 = 0" by (intro bit_word_eqI) (auto simp: bit_and_iff bit_0x80 simp del: bit_numeral_word_iff)
  moreover have "b AND 0x7f = b" using t by (simp add: take_bit_eq_mask mask_eq_decr_exp)
  ultimately show ?thesis by (simp add: r_uleb_def)
qed

lemma put_slot_simps:
  "h_stack (put_slot co i v H) a j = (if a = co \<and> j = i then v else h_stack H a j)"
  "h_obj (put_slot co i v H) = h_obj H" "h_proto (put_slot co i v H) = h_proto H"
  "put_slot co i v (H\<lparr>h_top := t\<rparr>) = (put_slot co i v H)\<lparr>h_top := t\<rparr>"
  by (simp_all add: put_slot_def cong: if_cong)



lemma r_frames_2: "r_frames V 2 i = ebind (r_frame V i) (\<lambda>(f, i). ebind (r_frame V i) (\<lambda>(g, i). Inr ([f, g], i)))"
  by (simp add: numeral_2_eq_2 ebind_assoc split_def)

lemmas eval1 = ur_def uleb_small thread_header_def new_thread_def alloc_obj_def
     registerobject_def u_newref_def ERIS_LJ_MAXREF_def reader1_def put_slot_simps upt_rec Let_def
     u_frames_def r_frames_2 r_frame_def r_frame_tail_def derive_frames_def write_frame_def fn_at_def proto_at_def loop_proto_def is_call_def
     u_forin_def replay_in_stack_def is_replay_fn_def loop_heads_def elj_despecialise_def set_op_def bc_j_def

lemma stack1:
  "case u_stack vm1 reader1 start1 of Inl e \<Rightarrow> False | Inr (r, st') \<Rightarrow> map fr_at (rs_frames r) = [8, 3] \<and> rs_base r = 9
     \<and> rs_co r = 4 \<and> is_replay_fn (u_heap st') 4 (rs_words r) 4 \<and> proto_at (u_heap st') 4 (rs_words r) 2 = Some 7
     \<and> length (pt_bc (h_proto (u_heap st') 7)) = 6"
  by (simp add: u_stack_def eval1 start1_def thread1_def vm1_def heap4_def cong: ebind_weak_cong sum.case_cong_weak option.case_cong_weak if_weak_cong)

theorem restored_frames_witness:
  "case u_stack vm1 reader1 start1 of Inl e \<Rightarrow> False
   | Inr (r, st') \<Rightarrow> frame_walk vm1 (u_heap st') (rs_words r) 8 = Some [8, 3]"
proof (cases "u_stack vm1 reader1 start1")
  case (Inr p)
  obtain r st' where p: "p = (r, st')" by (cases p)
  then have "map fr_at (rs_frames r) = [8, 3]" "rs_base r = 9" using stack1 Inr by simp_all
  then show ?thesis using restored_frames [of vm1 reader1 start1 r st'] Inr p by simp
qed (use stack1 in simp)

theorem no_itern_over_replay_witness:
  "case u_stack vm1 reader1 start1 of Inl e \<Rightarrow> False
   | Inr (r, st') \<Rightarrow> is_replay_fn (u_heap st') (rs_co r) (rs_words r) 4
       \<and> \<not> itern_on_replay vm1 (u_heap st') (rs_co r) (rs_words r) (rs_top r) 4 7 3"
proof (cases "u_stack vm1 reader1 start1")
  case (Inr p)
  obtain r st' where p: "p = (r, st')" by (cases p)
  note s = stack1 [unfolded Inr p, simplified]
  obtain f g where f: "rs_frames r = [f, g]" "fr_at g = 3" using s by auto
  then have "\<not> itern_on_replay vm1 (u_heap st') (rs_co r) (rs_words r) (rs_top r) (fr_at g + 1) 7 3"
    using s Inr p by (intro no_itern_over_replay) simp_all
  then show ?thesis using s Inr p f(2) by simp
qed (use stack1 in simp)

end
