(* ===== verification/ErisForin.thy ===== *)
theory ErisForin
  imports ErisObj
begin

text \<open>
  serializer/eris_lj.c, the for-in replay: \<open>elj_push_replay_state\<close> snapshots the keys a suspended
  \<open>pairs\<close> loop has not reached, \<open>elj_forin_replay\<close> is the iterator that replays them,
  \<open>elj_repack_replay_state\<close> cuts a replay state when its thread is persisted again. The layout of a
  table's storage, array part and node part, is read by the first only; \<open>layout_of\<close> is the table's
  view of it.
\<close>

section \<open>The iterator\<close>

definition int_key :: "int \<Rightarrow> lval" where
  "int_key i = LNum (d_of_int i)"

definition rawget :: "heap \<Rightarrow> lval \<Rightarrow> lval \<Rightarrow> lval" where
  "rawget K t k =
     (case t of LObj a \<Rightarrow> (case h_obj K a of Some (OTab ps mt) \<Rightarrow> tab_get ps (key_norm k) | _ \<Rightarrow> LNil) | _ \<Rightarrow> LNil)"

definition is_tab :: "heap \<Rightarrow> lval \<Rightarrow> bool" where
  "is_tab K t = (lua_type K t = 5)"

function replay_loop :: "heap \<Rightarrow> lval \<Rightarrow> lval \<Rightarrow> int \<Rightarrow> eris_err + (lval \<times> lval) option" where
  "replay_loop K keys t i =
     (if i < 0 \<or> i \<ge> ERIS_LJ_MAXREF then Inl (Err ''for-in replay index out of range'' [])
      else
        let key = rawget K keys (int_key (i + 1)) in
        if key = LNil then Inr None
        else let v = rawget K t key in
             if v \<noteq> LNil then Inr (Some (key, v)) else replay_loop K keys t (i + 1))"
  by pat_completeness auto
termination by (relation "measure (\<lambda>(K, keys, t, i). nat (ERIS_LJ_MAXREF - i))") auto

declare replay_loop.simps [simp del]

text \<open>The position after a control value: 0 for nil, else what the position map has for it.\<close>

definition replay_pos :: "heap \<Rightarrow> lval \<Rightarrow> lval \<Rightarrow> eris_err + int" where
  "replay_pos K s ctl =
     (if ctl = LNil then Inr 0
      else
        let pos = rawget K s (int_key 3) in
        if \<not> is_tab K pos then Inl (Err ''malformed for-in replay state'' [])
        else case rawget K pos ctl of
          LNum n \<Rightarrow> Inr (d_trunc n)
        | _ \<Rightarrow> Inl (Err ''for-in replay resumed from a key that is not in its own key list'' []))"

definition elj_forin_replay :: "heap \<Rightarrow> lval \<Rightarrow> lval \<Rightarrow> eris_err + (lval \<times> lval) option" where
  "elj_forin_replay K s ctl =
     (if \<not> is_tab K s then Inl (Err ''bad argument'' [1])
      else
        ebind (replay_pos K s ctl) (\<lambda>i.
          let keys = rawget K s (int_key 2); t = rawget K s (int_key 1) in
          if \<not> is_tab K keys \<or> \<not> is_tab K t then Inl (Err ''malformed for-in replay state'' [])
          else replay_loop K keys t i))"

section \<open>The snapshot\<close>

text \<open>A table's storage: the slots of its array part, from index 0, and its nodes.\<close>

record layout =
  y_array :: "lval list"
  y_node :: "(lval \<times> lval) list"

definition is_gcv :: "lval \<Rightarrow> bool" where
  "is_gcv v = (case v of LStr s \<Rightarrow> True | LObj a \<Rightarrow> True | _ \<Rightarrow> False)"

definition array_keys :: "layout \<Rightarrow> nat \<Rightarrow> lval list" where
  "array_keys y idx = map (\<lambda>k. int_key (int k)) [idx..<length (y_array y)]"

definition node_keys :: "layout \<Rightarrow> nat \<Rightarrow> lval list" where
  "node_keys y idx =
     map fst (filter (\<lambda>(k, v). k \<noteq> LNil \<and> (v \<noteq> LNil \<or> \<not> is_gcv k)) (drop (idx - length (y_array y)) (y_node y)))"

text \<open>The three tables: the keys by position, the position of each key, and the state. The replay reads
  them by key; the order of their pairs, here that of the writes, is the VM's and nothing asks for it.\<close>

definition new_table :: "(lval \<times> lval) list \<Rightarrow> heap \<Rightarrow> lval \<times> heap" where
  "new_table ps K =
     (LObj (h_next K),
      K\<lparr>h_obj := (h_obj K)(h_next K \<mapsto> OTab (foldl (\<lambda>t (k, v). AList.update (key_norm k) v t) [] ps) None), h_next := h_next K + 1\<rparr>)"

definition replay_state :: "lval \<Rightarrow> lval list \<Rightarrow> heap \<Rightarrow> lval \<times> heap" where
  "replay_state t ks K =
     (let (keys, K) = new_table (zip (map int_key [1..int (length ks)]) ks) K;
          (pos, K) = new_table (zip ks (map int_key [1..int (length ks)])) K
      in new_table [(int_key 1, t), (int_key 2, keys), (int_key 3, pos)] K)"

definition elj_push_replay_state :: "(addr \<Rightarrow> layout) \<Rightarrow> nat \<Rightarrow> lval \<Rightarrow> heap \<Rightarrow> eris_err + lval \<times> heap" where
  "elj_push_replay_state layout_of idx t K =
     (case t of
        LObj a \<Rightarrow>
          if \<not> is_tab K t then Inl (Err ''for-in loop state is not a table'' [lua_type K t])
          else Inr (replay_state t (array_keys (layout_of a) idx @ node_keys (layout_of a) idx) K)
      | _ \<Rightarrow> Inl (Err ''for-in loop state is not a table'' [lua_type K t]))"

section \<open>The cut\<close>

function cut_keys :: "heap \<Rightarrow> lval \<Rightarrow> int \<Rightarrow> lval list" where
  "cut_keys K keys j =
     (if j < ERIS_LJ_MAXREF then
        let k = rawget K keys (int_key j) in if k = LNil then [] else k # cut_keys K keys (j + 1)
      else [])"
  by pat_completeness auto
termination by (relation "measure (\<lambda>(K, keys, j). nat (ERIS_LJ_MAXREF - j))") auto

declare cut_keys.simps [simp del]

definition repack_pos :: "heap \<Rightarrow> lval \<Rightarrow> lval \<Rightarrow> eris_err + int" where
  "repack_pos K s ctl =
     (if ctl = LNil then Inr 0
      else
        let pos = rawget K s (int_key 3) in
        if \<not> is_tab K pos then Inl (Err ''for-in replay state has no position map'' [])
        else case rawget K pos ctl of
          LNum n \<Rightarrow>
            let i = d_trunc n
            in if i < 0 \<or> i \<ge> ERIS_LJ_MAXREF then Inl (Err ''for-in replay position out of range'' []) else Inr i
        | _ \<Rightarrow> Inl (Err ''for-in replay control is not in its key list'' []))"

definition elj_repack_replay_state :: "heap \<Rightarrow> lval \<Rightarrow> lval \<Rightarrow> eris_err + lval \<times> heap" where
  "elj_repack_replay_state K s ctl =
     (if \<not> is_tab K s then Inl (Err ''for-in replay state is not a table'' [])
      else
        ebind (repack_pos K s ctl) (\<lambda>i.
          let keys = rawget K s (int_key 2) in
          if \<not> is_tab K keys then Inl (Err ''for-in replay state has no key list'' [])
          else Inr (replay_state (rawget K s (int_key 1)) (cut_keys K keys (i + 1)) K)))"


section \<open>Integer keys and new tables\<close>

lemma int_key_inj: "\<bar>i\<bar> \<le> 2 ^ 53 \<Longrightarrow> \<bar>j\<bar> \<le> 2 ^ 53 \<Longrightarrow> int_key i = int_key j \<longleftrightarrow> i = j"
  by (metis d_trunc_small int_key_def lval.inject(3))

lemma int_key_norm: "\<bar>i\<bar> \<le> 2 ^ 53 \<Longrightarrow> key_norm (int_key i) = int_key i"
proof (cases "i = 0")
  case True
  then show ?thesis by (simp add: int_key_def key_norm_def d_of_int_0)
next
  case False
  assume i: "\<bar>i\<bar> \<le> 2 ^ 53"
  have "fp_rat (dval (d_of_int 0)) = Some (of_int 0)" by (rule d_of_int_rat_small) simp
  from fp_eq_rat [OF d_of_int_rat_small [OF i] this] have "\<not> d_eq (d_of_int i) (d_of_int 0)"
    using False by (simp add: d_eq_def)
  then have "\<not> d_eq (d_of_int i) 0" by (simp only: d_of_int_0 not_False_eq_True)
  then show ?thesis by (simp add: int_key_def key_norm_def)
qed

lemma foldl_update:
  "distinct (map fst acc @ map (\<lambda>p. key_norm (fst p)) ps) \<Longrightarrow>
   foldl (\<lambda>t (k, v). AList.update (key_norm k) v t) acc ps = acc @ map (\<lambda>(k, v). (key_norm k, v)) ps"
proof (induction ps arbitrary: acc)
  case (Cons p ps)
  obtain k v where p: "p = (k, v)" by (cases p)
  have "AList.update (key_norm k) v acc = acc @ [(key_norm k, v)]"
    using Cons.prems p by (intro update_new) auto
  then show ?case using Cons.IH [of "acc @ [(key_norm k, v)]"] Cons.prems p by auto
qed simp

lemma new_table_rawget:
  assumes "new_table ps K = (v, K')" "distinct (map (\<lambda>p. key_norm (fst p)) ps)"
  shows "rawget K' v k = tab_get (map (\<lambda>(k, v). (key_norm k, v)) ps) (key_norm k)" "is_tab K' v"
  using assms foldl_update [of "[]" ps] by (auto simp: new_table_def rawget_def is_tab_def lua_type_def)


section \<open>A replay state\<close>

text \<open>The state \<open>s\<close> replays the keys \<open>ks\<close> of the table \<open>t\<close>.\<close>

definition replay_ok :: "heap \<Rightarrow> lval \<Rightarrow> lval \<Rightarrow> lval list \<Rightarrow> bool" where
  "replay_ok K s t ks =
     (is_tab K s \<and> is_tab K t \<and> rawget K s (int_key 1) = t \<and> int (length ks) < ERIS_LJ_MAXREF \<and> LNil \<notin> set ks
      \<and> map key_norm ks = ks
      \<and> (let keys = rawget K s (int_key 2); pos = rawget K s (int_key 3) in
           is_tab K keys \<and> is_tab K pos
           \<and> (\<forall>i \<le> length ks. rawget K keys (int_key (int i + 1)) = (if i < length ks then ks ! i else LNil))
           \<and> (\<forall>i < length ks. rawget K pos (ks ! i) = int_key (int i + 1))))"

text \<open>What \<open>next\<close> would answer over the keys left: the first that has a value, with it.\<close>

definition first_live :: "heap \<Rightarrow> lval \<Rightarrow> lval list \<Rightarrow> (lval \<times> lval) option" where
  "first_live K t ks = map_option (\<lambda>k. (k, rawget K t k)) (find (\<lambda>k. rawget K t k \<noteq> LNil) ks)"

lemma replay_nonnil: "replay_ok K s t ks \<Longrightarrow> i < length ks \<Longrightarrow> ks ! i \<noteq> LNil"
  unfolding replay_ok_def by (metis nth_mem)

lemma MAXREF_53: "i \<le> ERIS_LJ_MAXREF \<Longrightarrow> 0 \<le> i \<Longrightarrow> \<bar>i\<bar> \<le> 2 ^ 53"
  by (simp add: ERIS_LJ_MAXREF_def)

lemma replay_loop_first:
  assumes "replay_ok K s t ks" "i \<le> length ks"
  shows "replay_loop K (rawget K s (int_key 2)) t (int i) = Inr (first_live K t (drop i ks))"
  using assms(2)
proof (induction "length ks - i" arbitrary: i)
  case 0
  then show ?case using assms(1)
    unfolding replay_loop.simps [of K _ t "int i"] by (simp add: replay_ok_def Let_def first_live_def)
next
  case (Suc n)
  then have i: "i < length ks" by simp
  have key: "rawget K (rawget K s (int_key 2)) (int_key (int i + 1)) = ks ! i" "ks ! i \<noteq> LNil" "int i < ERIS_LJ_MAXREF"
    using assms(1) i replay_nonnil [OF assms(1) i] by (simp_all add: replay_ok_def Let_def)
  have d: "drop i ks = ks ! i # drop (Suc i) ks" using i by (simp add: Cons_nth_drop_Suc)
  have "replay_loop K (rawget K s (int_key 2)) t (int (Suc i)) = Inr (first_live K t (drop (Suc i) ks))"
    using Suc(1) [of "Suc i"] Suc(2) i by simp
  then show ?case
    unfolding replay_loop.simps [of K _ t "int i"] using key by (simp add: d first_live_def Let_def add.commute)
qed

lemma replay_pos_eq:
  assumes "replay_ok K s t ks" "i < length ks"
  shows "replay_pos K s (ks ! i) = Inr (int i + 1)" "repack_pos K s (ks ! i) = Inr (int i + 1)"
proof -
  have k: "ks ! i \<noteq> LNil" "rawget K (rawget K s (int_key 3)) (ks ! i) = int_key (int i + 1)" "is_tab K (rawget K s (int_key 3))"
    "int i + 1 < ERIS_LJ_MAXREF"
    using assms replay_nonnil [OF assms] by (simp_all add: replay_ok_def Let_def)
  have "d_trunc (d_of_int (int i + 1)) = int i + 1" using k(4) by (intro d_trunc_small MAXREF_53) auto
  then show "replay_pos K s (ks ! i) = Inr (int i + 1)" "repack_pos K s (ks ! i) = Inr (int i + 1)"
    using k by (simp_all add: replay_pos_def repack_pos_def int_key_def Let_def)
qed

lemma replay_step_nil:
  assumes "replay_ok K s t ks"
  shows "elj_forin_replay K s LNil = Inr (first_live K t ks)"
  using assms replay_loop_first [OF assms, of 0] by (simp add: elj_forin_replay_def replay_pos_def replay_ok_def Let_def)

lemma replay_step_key:
  assumes "replay_ok K s t ks" "i < length ks"
  shows "elj_forin_replay K s (ks ! i) = Inr (first_live K t (drop (i + 1) ks))"
proof -
  have "int i + 1 = int (i + 1)" by simp
  then show ?thesis
    using assms(1) replay_loop_first [OF assms(1), of "i + 1"] assms(2)
    by (simp add: elj_forin_replay_def replay_pos_eq [OF assms] replay_ok_def Let_def add.commute)
qed

text \<open>The state that is built replays the keys it is built from.\<close>

lemma tab_get_zip:
  assumes "length ks = length vs" "distinct ks" "i < length ks"
  shows "tab_get (zip ks vs) (ks ! i) = vs ! i"
proof -
  have "map_of (zip ks vs) (ks ! i) = Some (vs ! i)" using assms by (intro map_of_zip_nth) simp_all
  then show ?thesis by (simp add: tab_get_def)
qed

lemma tab_get_other: "k \<notin> set ks \<Longrightarrow> tab_get (zip ks vs) k = LNil"
  by (auto simp: tab_get_def split: option.split dest!: map_of_SomeD set_zip_leftD)

lemma map_norm_zip: "map (\<lambda>(k, v). (key_norm k, v)) (zip ks vs) = zip (map key_norm ks) vs"
  by (simp add: zip_map1)

lemma map_norm_fst: "length ks = length vs \<Longrightarrow> map (\<lambda>p. key_norm (fst p)) (zip ks vs) = map key_norm ks"
  by (induction ks vs rule: list_induct2) auto

definition positions :: "nat \<Rightarrow> lval list" where
  "positions n = map int_key [1..int n]"

lemma positions_nth: "i < n \<Longrightarrow> positions n ! i = int_key (int i + 1)"
  by (simp add: positions_def add.commute)

lemma length_positions [simp]: "length (positions n) = n"
  by (simp add: positions_def)

lemma positions_ok:
  assumes "int n < ERIS_LJ_MAXREF"
  shows "distinct (positions n)" "map key_norm (positions n) = positions n"
    "int_key (int n + 1) \<notin> set (positions n)"
proof -
  have le: "\<bar>i\<bar> \<le> 2 ^ 53" if "1 \<le> i" "i \<le> int n + 1" for i
    using that assms by (intro MAXREF_53) auto
  show "distinct (positions n)"
    unfolding positions_def distinct_map
  proof (intro conjI inj_onI)
    show "x = y" if "x \<in> set [1..int n]" "y \<in> set [1..int n]" "int_key x = int_key y" for x y
      using that int_key_inj [OF le le, of x y] by auto
  qed simp
  show "map key_norm (positions n) = positions n"
    unfolding positions_def by (auto intro!: int_key_norm le)
  show "int_key (int n + 1) \<notin> set (positions n)"
    unfolding positions_def using int_key_inj [OF le le] by auto
qed


lemma rawget_new_table:
  assumes "new_table (zip ks vs) K = (v, K')" "length ks = length vs" "distinct (map key_norm ks)"
  shows "rawget K' v k = tab_get (zip (map key_norm ks) vs) (key_norm k)" "is_tab K' v"
  using new_table_rawget [OF assms(1)] assms(2,3) by (simp_all add: map_norm_zip map_norm_fst)

lemma new_table_frame:
  assumes "new_table ps K = (v, K')" "\<And>a. t = LObj a \<Longrightarrow> a < h_next K"
  shows "rawget K' t k = rawget K t k" "is_tab K' t = is_tab K t" "\<And>a. t = LObj a \<Longrightarrow> a < h_next K'" "v = LObj (h_next K)" "h_next K' = h_next K + 1"
  using assms by (auto simp: new_table_def rawget_def is_tab_def lua_type_def split: lval.splits)

lemma replay_state_ok:
  assumes "replay_state t ks K = (s, K')" "is_tab K t" "\<And>a. t = LObj a \<Longrightarrow> a < h_next K"
    and "distinct ks" "map key_norm ks = ks" "LNil \<notin> set ks" "int (length ks) < ERIS_LJ_MAXREF"
  shows "replay_ok K' s t ks" "rawget K' t k = rawget K t k"
proof -
  let ?n = "length ks"
  note pos = positions_ok [OF assms(7)]
  obtain keys K1 where 1: "new_table (zip (positions ?n) ks) K = (keys, K1)" by (cases "new_table (zip (positions ?n) ks) K")
  obtain ps K2 where 2: "new_table (zip ks (positions ?n)) K1 = (ps, K2)" by (cases "new_table (zip ks (positions ?n)) K1")
  have 3: "new_table (zip [int_key 1, int_key 2, int_key 3] [t, keys, ps]) K2 = (s, K')"
    using assms(1) 1 2 by (simp add: replay_state_def positions_def)
  have d3: "distinct (map key_norm [int_key 1, int_key 2, int_key 3])" "map key_norm [int_key 1, int_key 2, int_key 3] = [int_key 1, int_key 2, int_key 3]"
    by (simp_all add: int_key_norm int_key_inj)
  have t1: "\<And>a. t = LObj a \<Longrightarrow> a < h_next K1" and t2: "\<And>a. t = LObj a \<Longrightarrow> a < h_next K2"
    using new_table_frame(3) [OF 1 assms(3)] new_table_frame(3) [OF 2] by blast+
  have k1: "\<And>a. keys = LObj a \<Longrightarrow> a < h_next K1" using new_table_frame(4,5) [OF 1 assms(3)] by auto
  have k2: "\<And>a. keys = LObj a \<Longrightarrow> a < h_next K2" using new_table_frame(3) [OF 2 k1] by blast
  have p2: "\<And>a. ps = LObj a \<Longrightarrow> a < h_next K2" using new_table_frame(4,5) [OF 2 k1] by auto
  show "rawget K' t k = rawget K t k"
    using new_table_frame(1) [OF 1 assms(3)] new_table_frame(1) [OF 2 t1] new_table_frame(1) [OF 3 t2] by simp
  have tt: "is_tab K' t" using assms(2) new_table_frame(2) [OF 1 assms(3)] new_table_frame(2) [OF 2 t1] new_table_frame(2) [OF 3 t2] by simp
  have rk: "rawget K' keys k = tab_get (zip (positions ?n) ks) (key_norm k)" for k
    using rawget_new_table(1) [OF 1] pos new_table_frame(1) [OF 2 k1] new_table_frame(1) [OF 3 k2] by simp
  have rp: "rawget K' ps k = tab_get (zip ks (positions ?n)) (key_norm k)" for k
    using rawget_new_table(1) [OF 2] assms(4,5) new_table_frame(1) [OF 3 p2] by simp
  have tk: "is_tab K' keys" "is_tab K' ps"
    using rawget_new_table(2) [OF 1] pos rawget_new_table(2) [OF 2] assms(4,5)
      new_table_frame(2) [OF 2 k1] new_table_frame(2) [OF 3 k2] new_table_frame(2) [OF 3 p2] by simp_all
  have rs: "rawget K' s k = tab_get (zip [int_key 1, int_key 2, int_key 3] [t, keys, ps]) (key_norm k)" "is_tab K' s" for k
    using rawget_new_table [OF 3 _ d3(1)] d3(2) by simp_all
  have r123: "rawget K' s (int_key 1) = t" "rawget K' s (int_key 2) = keys" "rawget K' s (int_key 3) = ps"
    by (simp_all add: rs int_key_norm int_key_inj tab_get_def)
  have nth: "rawget K' keys (int_key (int i + 1)) = (if i < ?n then ks ! i else LNil)" if "i \<le> ?n" for i
  proof (cases "i < ?n")
    case True
    have "key_norm (int_key (int i + 1)) = int_key (int i + 1)" using True assms(7) by (intro int_key_norm MAXREF_53) auto
    then show ?thesis using tab_get_zip [of "positions ?n" ks i] pos(1) True by (simp add: rk positions_nth)
  next
    case False
    then have "i = ?n" using that by simp
    moreover have "key_norm (int_key (int ?n + 1)) = int_key (int ?n + 1)" using assms(7) by (intro int_key_norm MAXREF_53) auto
    ultimately show ?thesis using tab_get_other [OF pos(3), of ks] by (simp add: rk)
  qed
  have idx: "rawget K' ps (ks ! i) = int_key (int i + 1)" if "i < ?n" for i
  proof -
    have "key_norm (ks ! i) = ks ! i" using arg_cong [OF assms(5), of "\<lambda>l. l ! i"] that by simp
    then show ?thesis using tab_get_zip [of ks "positions ?n" i] assms(4) that by (simp add: rp positions_nth)
  qed
  show "replay_ok K' s t ks"
    using tt tk rs(2) r123 nth idx assms(5,6,7) by (simp add: replay_ok_def)
qed


section \<open>A whole loop\<close>

text \<open>The for-in loop: each control value is the key of the turn before; \<open>n\<close> bounds the turns.\<close>

fun replay_all :: "nat \<Rightarrow> heap \<Rightarrow> lval \<Rightarrow> lval \<Rightarrow> eris_err + (lval \<times> lval) list" where
  "replay_all 0 K s ctl = Inl (Err ''turns'' [])"
| "replay_all (Suc n) K s ctl =
     ebind (elj_forin_replay K s ctl) (\<lambda>r.
       case r of None \<Rightarrow> Inr [] | Some (k, v) \<Rightarrow> ebind (replay_all n K s k) (\<lambda>rest. Inr ((k, v) # rest)))"

definition live :: "heap \<Rightarrow> lval \<Rightarrow> lval list \<Rightarrow> (lval \<times> lval) list" where
  "live K t ks = map (\<lambda>k. (k, rawget K t k)) (filter (\<lambda>k. rawget K t k \<noteq> LNil) ks)"

lemma first_live_cases:
  obtains "first_live K t (drop i ks) = None" "live K t (drop i ks) = []"
  | j where "i \<le> j" "j < length ks" "first_live K t (drop i ks) = Some (ks ! j, rawget K t (ks ! j))"
      "live K t (drop i ks) = (ks ! j, rawget K t (ks ! j)) # live K t (drop (j + 1) ks)"
proof (induction "length ks - i" arbitrary: i thesis)
  case 0
  then show ?case by (simp add: first_live_def live_def)
next
  case (Suc n)
  then have i: "i < length ks" by simp
  have d: "drop i ks = ks ! i # drop (Suc i) ks" using i by (simp add: Cons_nth_drop_Suc)
  show ?case
  proof (cases "rawget K t (ks ! i) = LNil")
    case False
    then show ?thesis using Suc(4) [of i] i by (simp add: d first_live_def live_def)
  next
    case True
    have e: "first_live K t (drop i ks) = first_live K t (drop (Suc i) ks)" "live K t (drop i ks) = live K t (drop (Suc i) ks)"
      using True by (simp_all add: d first_live_def live_def)
    show ?thesis
    proof (rule Suc(1) [of "Suc i"])
      show "n = length ks - Suc i" using Suc(2) by simp
      show ?thesis if "first_live K t (drop (Suc i) ks) = None" "live K t (drop (Suc i) ks) = []"
        using Suc(3) e that by simp
      show ?thesis if "Suc i \<le> j" "j < length ks" "first_live K t (drop (Suc i) ks) = Some (ks ! j, rawget K t (ks ! j))"
          "live K t (drop (Suc i) ks) = (ks ! j, rawget K t (ks ! j)) # live K t (drop (j + 1) ks)" for j
        using Suc(4) [of j] e that by simp
    qed
  qed
qed

lemma replay_all_from:
  assumes "replay_ok K s t ks"
  shows "i \<le> length ks \<Longrightarrow> length ks - i < n \<Longrightarrow> elj_forin_replay K s ctl = Inr (first_live K t (drop i ks)) \<Longrightarrow>
    replay_all n K s ctl = Inr (live K t (drop i ks))"
proof (induction n arbitrary: i ctl)
  case (Suc n)
  show ?case
  proof (cases rule: first_live_cases [of K t i ks])
    case 1
    then show ?thesis using Suc.prems(3) by simp
  next
    case (2 j)
    have "replay_all n K s (ks ! j) = Inr (live K t (drop (j + 1) ks))"
      using 2(1,2) Suc.prems(2) by (intro Suc.IH replay_step_key [OF assms]) auto
    then show ?thesis using 2(3,4) Suc.prems(3) by simp
  qed
qed simp

text \<open>What \<open>lj_tab_next\<close> visits from the index \<open>idx\<close> on: the array slots, then the nodes, that have a value.\<close>

definition slots :: "layout \<Rightarrow> (lval \<times> lval) list" where
  "slots y = map (\<lambda>k. (int_key (int k), y_array y ! k)) [0..<length (y_array y)] @ y_node y"

definition next_pairs :: "layout \<Rightarrow> nat \<Rightarrow> (lval \<times> lval) list" where
  "next_pairs y idx = filter (\<lambda>p. snd p \<noteq> LNil) (drop idx (slots y))"

text \<open>The storage of a table: every key is in one slot, in its stored form, and an empty node has no value.\<close>

definition layout_ok :: "layout \<Rightarrow> (lval \<times> lval) list \<Rightarrow> bool" where
  "layout_ok y ps =
     (ps = next_pairs y 0 \<and> int (length (slots y)) < ERIS_LJ_MAXREF
      \<and> distinct (map fst (filter (\<lambda>p. fst p \<noteq> LNil) (slots y)))
      \<and> (\<forall>p \<in> set (slots y). key_norm (fst p) = fst p \<and> (fst p = LNil \<longrightarrow> snd p = LNil)))"

definition kept :: "lval \<times> lval \<Rightarrow> bool" where
  "kept p = (fst p \<noteq> LNil \<and> (snd p \<noteq> LNil \<or> \<not> is_gcv (fst p)))"

lemma snapshot_keys: "array_keys y idx @ node_keys y idx = map fst (filter kept (drop idx (slots y)))"
proof -
  have a: "kept (int_key (int k), v)" for k v by (simp add: kept_def int_key_def is_gcv_def)
  have "drop idx (slots y) =
      map (\<lambda>k. (int_key (int k), y_array y ! k)) [idx..<length (y_array y)] @ drop (idx - length (y_array y)) (y_node y)"
    by (simp add: slots_def drop_map)
  moreover have "filter kept (map (\<lambda>k. (int_key (int k), y_array y ! k)) l) = map (\<lambda>k. (int_key (int k), y_array y ! k)) l" for l
    by (simp add: filter_map comp_def a)
  moreover have "(\<lambda>(k, v). k \<noteq> LNil \<and> (v \<noteq> LNil \<or> \<not> is_gcv k)) = kept" by (auto simp: kept_def)
  ultimately show ?thesis by (simp add: array_keys_def node_keys_def)
qed

lemma tab_get_slot:
  assumes "layout_ok y ps" "p \<in> set (slots y)" "fst p \<noteq> LNil"
  shows "tab_get ps (fst p) = snd p"
proof -
  let ?S = "filter (\<lambda>p. fst p \<noteq> LNil) (slots y)"
  have ps: "ps = filter (\<lambda>p. snd p \<noteq> LNil) ?S"
    using assms(1) by (auto simp: layout_ok_def next_pairs_def intro!: filter_cong)
  have d: "distinct (map fst ?S)" using assms(1) by (simp add: layout_ok_def)
  have p: "map_of ?S (fst p) = Some (snd p)" using d assms(2,3) by (intro map_of_is_SomeI) auto
  have dp: "distinct (map fst ps)" unfolding ps by (rule distinct_map_filter [OF d])
  show ?thesis
  proof (cases "snd p = LNil")
    case False
    then have "map_of ps (fst p) = Some (snd p)" using dp assms(2,3) unfolding ps by (intro map_of_is_SomeI) auto
    then show ?thesis by (simp add: tab_get_def)
  next
    case True
    have "(fst p, v) \<notin> set ps" for v
      using p True map_of_is_SomeI [OF d, of "fst p" v] by (auto simp: ps)
    then have "map_of ps (fst p) = None" by (auto simp: map_of_eq_None_iff)
    then show ?thesis using True by (simp add: tab_get_def)
  qed
qed

lemma live_snapshot:
  assumes "layout_ok y ps" "h_obj K a = Some (OTab ps mt)"
  shows "live K (LObj a) (map fst (filter kept (drop idx (slots y)))) = next_pairs y idx"
proof -
  have get: "rawget K (LObj a) (fst p) = snd p" if "p \<in> set (drop idx (slots y))" "fst p \<noteq> LNil" for p
    using tab_get_slot [OF assms(1) in_set_dropD [OF that(1)] that(2)] in_set_dropD [OF that(1)] assms
    by (simp add: rawget_def layout_ok_def)
  have nil: "snd p = LNil" if "p \<in> set (drop idx (slots y))" "fst p = LNil" for p
    using assms(1) in_set_dropD [OF that(1)] that(2) by (auto simp: layout_ok_def)
  have "live K (LObj a) (map fst (filter kept ps)) = filter (\<lambda>p. snd p \<noteq> LNil) ps"
    if "\<forall>p \<in> set ps. fst p \<noteq> LNil \<longrightarrow> rawget K (LObj a) (fst p) = snd p" "\<forall>p \<in> set ps. fst p = LNil \<longrightarrow> snd p = LNil" for ps
    using that by (induction ps) (auto simp: live_def kept_def)
  then show ?thesis using get nil unfolding next_pairs_def by blast
qed


lemma cut_keys_drop:
  assumes "replay_ok K s t ks" "i \<le> length ks"
  shows "cut_keys K (rawget K s (int_key 2)) (int i + 1) = drop i ks"
  using assms(2)
proof (induction "length ks - i" arbitrary: i)
  case 0
  then show ?case using assms(1) unfolding cut_keys.simps [of K _ "int i + 1"] by (simp add: replay_ok_def Let_def)
next
  case (Suc n)
  then have i: "i < length ks" by simp
  have key: "rawget K (rawget K s (int_key 2)) (int_key (int i + 1)) = ks ! i" "ks ! i \<noteq> LNil" "int i + 1 < ERIS_LJ_MAXREF"
    using assms(1) i replay_nonnil [OF assms(1) i] by (simp_all add: replay_ok_def Let_def)
  have "cut_keys K (rawget K s (int_key 2)) (int (Suc i) + 1) = drop (Suc i) ks" using Suc(1) [of "Suc i"] Suc(2) i by simp
  then show ?case unfolding cut_keys.simps [of K _ "int i + 1"] using key i
    by (simp add: Cons_nth_drop_Suc [symmetric] Let_def add.commute)
qed

lemma replay_distinct:
  assumes "replay_ok K s t ks"
  shows "distinct ks"
  unfolding distinct_conv_nth
proof (intro allI impI notI)
  fix i j
  assume ij: "i < length ks" "j < length ks" "i \<noteq> j" "ks ! i = ks ! j"
  then have "int_key (int i + 1) = int_key (int j + 1)" using assms unfolding replay_ok_def Let_def by metis
  moreover have "int (length ks) < ERIS_LJ_MAXREF" using assms by (simp add: replay_ok_def)
  ultimately show False using int_key_inj [OF MAXREF_53 MAXREF_53, of "int i + 1" "int j + 1"] ij by auto
qed

text \<open>C38: a \<open>pairs\<close> loop suspended at index \<open>idx\<close> of its table and replayed visits exactly the pairs that \<open>next\<close>
  had left to visit, in the saving machine's order; and whatever the loop's body does to the table's
  values between two turns, each turn answers with the next key of the snapshot that has a value then,
  and that value, the same for the same control value however often it is asked.\<close>

theorem forin_replay_exact:
  assumes "h_obj K a = Some (OTab ps mt)" "a < h_next K" "layout_ok (layout_of a) ps"
    and "elj_push_replay_state layout_of idx (LObj a) K = Inr (s, K')"
  defines "ks \<equiv> array_keys (layout_of a) idx @ node_keys (layout_of a) idx"
  shows "replay_ok K' s (LObj a) ks
    \<and> replay_all (length ks + 1) K' s LNil = Inr (next_pairs (layout_of a) idx)
    \<and> (\<forall>K''. replay_ok K'' s (LObj a) ks \<longrightarrow>
         elj_forin_replay K'' s LNil = Inr (first_live K'' (LObj a) ks)
         \<and> (\<forall>i < length ks. elj_forin_replay K'' s (ks ! i) = Inr (first_live K'' (LObj a) (drop (i + 1) ks))))"
proof -
  let ?y = "layout_of a"
  note y = assms(3)[unfolded layout_ok_def]
  have keys: "ks = map fst (filter kept (drop idx (slots ?y)))" unfolding ks_def by (rule snapshot_keys)
  have sub: "filter kept (drop idx (slots ?y)) = filter kept (filter (\<lambda>p. fst p \<noteq> LNil) (drop idx (slots ?y)))"
    by (auto simp: kept_def intro: filter_cong)
  have "distinct (map fst (filter (\<lambda>p. fst p \<noteq> LNil) (take idx (slots ?y) @ drop idx (slots ?y))))" using y by simp
  then have "distinct (map fst (filter (\<lambda>p. fst p \<noteq> LNil) (drop idx (slots ?y))))" by (simp del: append_take_drop_id)
  then have "distinct ks" unfolding keys by (subst sub) (rule distinct_map_filter)
  moreover have "map key_norm ks = ks"
    using y by (auto simp: keys intro!: map_idI dest!: in_set_dropD)
  moreover have "LNil \<notin> set ks" by (auto simp: keys kept_def)
  moreover have "length ks \<le> length (slots ?y)" unfolding keys using length_filter_le [of kept "drop idx (slots ?y)"] by simp
  then have "int (length ks) < ERIS_LJ_MAXREF" using y by simp
  moreover have tab: "is_tab K (LObj a)" using assms(1) by (simp add: is_tab_def lua_type_def)
  moreover have st: "replay_state (LObj a) ks K = (s, K')" using assms(4) tab by (simp add: elj_push_replay_state_def ks_def)
  ultimately have ok: "replay_ok K' s (LObj a) ks" and get: "rawget K' (LObj a) k = rawget K (LObj a) k" for k
    using replay_state_ok [OF st tab] assms(2) by blast+
  have "replay_all (length ks + 1) K' s LNil = Inr (live K' (LObj a) ks)"
    using replay_all_from [OF ok, of 0 "length ks + 1" LNil] replay_step_nil [OF ok] by simp
  also have "live K' (LObj a) ks = live K (LObj a) ks" by (simp add: live_def get)
  also have "\<dots> = next_pairs ?y idx" unfolding keys by (rule live_snapshot [OF assms(3,1)])
  finally show ?thesis using ok replay_step_nil replay_step_key by blast
qed

text \<open>C39: a thread that is persisted a second time carries a replay state cut at its loop's position: it holds
  only the keys not reached yet, and the loop goes on as it would have with the old one.\<close>

theorem forin_repack_same:
  assumes "replay_ok K s (LObj a) ks" "a < h_next K" "i \<le> length ks" "ctl = (if i = 0 then LNil else ks ! (i - 1))"
  shows "\<exists>s' K'. elj_repack_replay_state K s ctl = Inr (s', K') \<and> replay_ok K' s' (LObj a) (drop i ks)
    \<and> (\<forall>n > length ks. replay_all n K' s' LNil = replay_all n K s ctl)"
proof -
  have pos: "repack_pos K s ctl = Inr (int i)" and step: "elj_forin_replay K s ctl = Inr (first_live K (LObj a) (drop i ks))"
  proof (atomize (full), cases i)
    case 0
    then show "repack_pos K s ctl = Inr (int i) \<and> elj_forin_replay K s ctl = Inr (first_live K (LObj a) (drop i ks))"
      using assms(4) replay_step_nil [OF assms(1)] by (simp add: repack_pos_def)
  next
    case (Suc m)
    then show "repack_pos K s ctl = Inr (int i) \<and> elj_forin_replay K s ctl = Inr (first_live K (LObj a) (drop i ks))"
      using assms(3,4) replay_pos_eq(2) [OF assms(1), of m] replay_step_key [OF assms(1), of m] by (simp add: add.commute)
  qed
  have t: "rawget K s (int_key 1) = LObj a" "is_tab K (LObj a)" "is_tab K s" "is_tab K (rawget K s (int_key 2))"
    using assms(1) by (auto simp: replay_ok_def Let_def)
  obtain s' K' where st: "replay_state (LObj a) (drop i ks) K = (s', K')" by (cases "replay_state (LObj a) (drop i ks) K")
  have r: "elj_repack_replay_state K s ctl = Inr (s', K')"
    using t pos cut_keys_drop [OF assms(1,3)] st by (simp add: elj_repack_replay_state_def)
  have "distinct (drop i ks)" "map key_norm (drop i ks) = drop i ks" "LNil \<notin> set (drop i ks)" "int (length (drop i ks)) < ERIS_LJ_MAXREF"
    using replay_distinct [OF assms(1)] assms(1) by (auto simp: replay_ok_def drop_map [symmetric] dest: in_set_dropD)
  then have ok: "replay_ok K' s' (LObj a) (drop i ks)" and get: "rawget K' (LObj a) k = rawget K (LObj a) k" for k
    using replay_state_ok [OF st t(2)] assms(2) by blast+
  have "replay_all n K' s' LNil = replay_all n K s ctl" if "length ks < n" for n
    using replay_all_from [OF ok, of 0 n LNil] replay_step_nil [OF ok] replay_all_from [OF assms(1,3) _ step, of n] that
    by (simp add: live_def get)
  then show ?thesis using r ok by blast
qed


definition layout1 :: layout where
  "layout1 = \<lparr>y_array = [LNil, LStr [1]], y_node = [(LStr [97], LStr [2]), (LNil, LNil), (LBool True, LStr [3])]\<rparr>"

definition forin_heap :: heap where
  "forin_heap =
     \<lparr>h_obj = [0 \<mapsto> OTab [(int_key 1, LStr [1]), (LStr [97], LStr [2]), (LBool True, LStr [3])] None], h_next = 1,
      h_cell = Map.empty, h_cnext = 0, h_stack = (\<lambda>_ _. LNil), h_open = (\<lambda>_. []), h_top = (\<lambda>_. 0), h_env = (\<lambda>_. 0), h_coro = (\<lambda>_. idle_coro), h_proto = (\<lambda>_. empty_proto), h_immut = (\<lambda>_. False)\<rparr>"

lemma layout1_ok: "layout_ok layout1 [(int_key 1, LStr [1]), (LStr [97], LStr [2]), (LBool True, LStr [3])]"
proof -
  have "slots layout1 = [(int_key 0, LNil), (int_key 1, LStr [1]), (LStr [97], LStr [2]), (LNil, LNil), (LBool True, LStr [3])]"
    by (simp add: slots_def layout1_def upt_rec)
  moreover have "key_norm (LStr s) = LStr s" "key_norm (LBool b) = LBool b" "key_norm LNil = LNil" for s b
    by (simp_all add: key_norm_def)
  moreover have "int_key k \<noteq> LNil" "int_key k \<noteq> LStr s" "int_key k \<noteq> LBool b" for k s b by (simp_all add: int_key_def)
  ultimately show ?thesis
    by (simp add: layout_ok_def next_pairs_def int_key_norm int_key_inj ERIS_LJ_MAXREF_def not_sym)
qed

theorem forin_replay_exact_witness:
  "\<exists>s K. replay_all 3 K s LNil = Inr [(LStr [97], LStr [2]), (LBool True, LStr [3])]"
proof -
  have h: "h_obj forin_heap 0 = Some (OTab [(int_key 1, LStr [1]), (LStr [97], LStr [2]), (LBool True, LStr [3])] None)"
    "0 < h_next forin_heap" by (simp_all add: forin_heap_def)
  obtain s K' where p: "elj_push_replay_state (\<lambda>_. layout1) 2 (LObj 0) forin_heap = Inr (s, K')"
    by (cases "replay_state (LObj 0) (array_keys layout1 2 @ node_keys layout1 2) forin_heap")
       (auto simp: elj_push_replay_state_def is_tab_def lua_type_def h(1))
  have k: "array_keys layout1 2 @ node_keys layout1 2 = [LStr [97], LBool True]" by code_simp
  have n: "next_pairs layout1 2 = [(LStr [97], LStr [2]), (LBool True, LStr [3])]"
    by (simp add: next_pairs_def slots_def layout1_def)
  have l: "length [LStr [97], LBool True] + 1 = 3" by simp
  show ?thesis using forin_replay_exact [OF h layout1_ok p] unfolding k n l by blast
qed

theorem forin_repack_same_witness:
  "\<exists>s K s' K'. elj_repack_replay_state K s (LStr [97]) = Inr (s', K') \<and> replay_ok K' s' (LObj 0) [LBool True]
     \<and> replay_all 3 K' s' LNil = replay_all 3 K s (LStr [97])"
proof -
  obtain s K where st: "replay_state (LObj 0) [LStr [97], LBool True] forin_heap = (s, K)"
    by (cases "replay_state (LObj 0) [LStr [97], LBool True] forin_heap")
  have tab: "is_tab forin_heap (LObj 0)" by (simp add: is_tab_def lua_type_def forin_heap_def)
  have ok: "replay_ok K s (LObj 0) [LStr [97], LBool True]"
    by (rule replay_state_ok [OF st tab]) (simp_all add: forin_heap_def key_norm_def ERIS_LJ_MAXREF_def)
  have "0 < h_next K"
    using st by (auto simp: replay_state_def new_table_def forin_heap_def)
  from forin_repack_same [OF ok this, of 1 "LStr [97]"] obtain s' K' where
      "elj_repack_replay_state K s (LStr [97]) = Inr (s', K')" "replay_ok K' s' (LObj 0) [LBool True]"
      "\<forall>n > 2. replay_all n K' s' LNil = replay_all n K s (LStr [97])" by (auto simp: numeral_2_eq_2)
  then show ?thesis by (metis (no_types) lessI numeral_3_eq_3 numeral_2_eq_2)
qed

end
