(* ===== verification/ErisCo.thy ===== *)
theory ErisCo
  imports ErisThread ErisForin ErisIso
begin

text \<open>
  serializer/eris_lj.c, persisting a coroutine: \<open>elj_forin_scan\<close> finds the for-in loops a suspended
  coroutine is in, \<open>p_thread\<close> writes its record with those loops in replay form. What the VM knows is in
  \<open>vmenv\<close>: where the JIT keeps the instruction a trace replaced, string constants, which C function
  is \<open>next\<close>, a table's storage and \<open>lj_tab_keyindex\<close>, and how a VM word reads when it is
  taken for a value. A position in a frame word is one of the prototype of the function it returns to.
\<close>

section \<open>Bytecode\<close>

record vmenv =
  x_trace :: "nat \<Rightarrow> (nat \<times> nat \<times> bcins) option"
  x_kstr :: "nat \<Rightarrow> 16 word \<Rightarrow> byte list option"
  x_next :: nat
  x_layout :: "heap \<Rightarrow> addr \<Rightarrow> layout"
  x_keyindex :: "heap \<Rightarrow> lval \<Rightarrow> lval \<Rightarrow> u32"
  x_raw :: "sword \<Rightarrow> lval"
  x_mode :: nat

definition elj_bc_orig :: "vmenv \<Rightarrow> heap \<Rightarrow> nat \<Rightarrow> nat \<Rightarrow> eris_err + bcins" where
  "elj_bc_orig X H p pos =
     (let ins = pt_bc (h_proto H p) ! pos in
      if i_op ins \<in> {BC_JFORL, BC_JITERL, BC_JLOOP} then
        (case x_trace X (unat (i_d ins)) of
           Some (q, start, orig) \<Rightarrow>
             if q = p \<and> start = pos then Inr orig else Inl (Err ''compiled loop head has no trace'' [int pos])
         | None \<Rightarrow> Inl (Err ''compiled loop head has no trace'' [int pos]))
      else Inr ins)"

text \<open>Where the body of the loop head at \<open>pos\<close> begins, when that can be read.\<close>

definition elj_loop_body :: "vmenv \<Rightarrow> heap \<Rightarrow> nat \<Rightarrow> nat \<Rightarrow> eris_err + nat option" where
  "elj_loop_body X H p pos =
     (if pos + 1 \<ge> length (pt_bc (h_proto H p)) then Inr None
      else ebind (elj_bc_orig X H p (pos + 1)) (\<lambda>iterl.
        if i_op iterl \<notin> {BC_ITERL, BC_IITERL} then Inr None
        else
          let b = int pos + 2 + bc_j iterl in
          if b < 1 \<or> b > int pos then Inr None else Inr (Some (nat b))))"

text \<open>The position of the frame below \<open>abv\<close>, or 0.\<close>

definition elj_frame_pc :: "heap \<Rightarrow> (nat \<Rightarrow> sword option) \<Rightarrow> nat \<Rightarrow> nat option \<Rightarrow> nat" where
  "elj_frame_pc H W p abv =
     (let pc = (case abv of
          None \<Rightarrow> None
        | Some f \<Rightarrow> (case W f of
              Some (WPc q ofs) \<Rightarrow> Some ofs
            | Some (WFtsz link kind) \<Rightarrow>
                if kind = FR_CONT then (case W (f - 2) of Some (WPc q ofs) \<Rightarrow> Some ofs | _ \<Rightarrow> None) else None
            | _ \<Rightarrow> None))
      in case pc of
           Some ofs \<Rightarrow> if ofs = 0 \<or> ofs > length (pt_bc (h_proto H p)) then 0 else ofs - 1
         | None \<Rightarrow> 0)"

definition next_str :: "byte list" where "next_str = [0x6E, 0x65, 0x78, 0x74]"

fun elj_reaches_next :: "vmenv \<Rightarrow> heap \<Rightarrow> nat \<Rightarrow> nat \<Rightarrow> addr list \<Rightarrow> bool" where
  "elj_reaches_next X H depth p us =
     ((\<exists>ins \<in> set (drop 1 (pt_bc (h_proto H p))). i_op ins = BC_GGET \<and> x_kstr X p (i_d ins) = Some next_str)
      \<or> (\<exists>c \<in> set us.
          (case cell_value H c of
             LObj a \<Rightarrow> (case h_obj H a of
                 Some (OCFun f) \<Rightarrow> f = x_next X
               | Some (OFun q vs e) \<Rightarrow> (case depth of 0 \<Rightarrow> False | Suc d \<Rightarrow> elj_reaches_next X H d q vs)
               | _ \<Rightarrow> False)
           | _ \<Rightarrow> False)))"

section \<open>The scan\<close>

record forinrec =
  fi_ctl :: nat
  fi_ra :: nat
  fi_idx :: u32
  fi_itern :: nat
  fi_replay :: bool

record forindiag =
  fd_ctl :: nat
  fd_frame :: nat
  fd_pc :: nat
  fd_pos :: nat

record scan =
  sc_recs :: "forinrec list"
  sc_diags :: "forindiag list"

definition add_rec :: "nat \<Rightarrow> forinrec \<Rightarrow> scan \<Rightarrow> eris_err + scan" where
  "add_rec cap r s =
     (if fi_ctl r \<in> set (map fi_ctl (sc_recs s)) then
        Inr (s\<lparr>sc_recs := map (\<lambda>q. if fi_ctl q = fi_ctl r \<and> fi_itern q \<noteq> fi_itern r then q\<lparr>fi_itern := 0\<rparr> else q) (sc_recs s)\<rparr>)
      else if length (sc_recs s) \<ge> cap then Inl (Err ''too many for-in loops in one thread'' [])
      else Inr (s\<lparr>sc_recs := sc_recs s @ [r]\<rparr>))"

definition add_diag :: "nat \<Rightarrow> forindiag \<Rightarrow> scan \<Rightarrow> eris_err + scan" where
  "add_diag cap d s =
     (if fd_ctl d \<in> set (map fd_ctl (sc_diags s)) then Inr s
      else if length (sc_diags s) \<ge> cap then Inl (Err ''too many for-in loops in one thread'' [])
      else Inr (s\<lparr>sc_diags := sc_diags s @ [d]\<rparr>))"

text \<open>The triple at \<open>ctl\<close>: what the record of its loop is, if it is one to be replayed. \<open>inbody\<close> says whether the
  frame's position is in the loop, where it is known.\<close>

definition classify :: "vmenv \<Rightarrow> heap \<Rightarrow> addr \<Rightarrow> (nat \<Rightarrow> sword option) \<Rightarrow> nat \<Rightarrow> nat \<Rightarrow> nat \<Rightarrow> bool option \<Rightarrow> eris_err + forinrec option" where
  "classify X H co W ctl ra pos inbody =
     (let rec = (\<lambda>idx replay. \<lparr>fi_ctl = ctl, fi_ra = ra, fi_idx = idx, fi_itern = pos, fi_replay = replay\<rparr>) in
      if \<not> is_tab_at H co W (ctl - 1) then Inr None
      else case W ctl of
        Some (WKeyIndex lo) \<Rightarrow> Inr (Some (rec lo False))
      | _ \<Rightarrow>
          (case fn_at H co W (ctl - 2) of
             Some OReplay \<Rightarrow> Inr (Some (rec 0 True))
           | Some (OCFun f) \<Rightarrow>
               if f \<noteq> x_next X then Inr None
               else if inbody \<noteq> Some True
               then Inl (Err ''cannot tell whether a for-in loop over next is still running in a frame whose bytecode position could not be recovered'' [])
               else
                 let idx = x_keyindex X H (h_stack H co (ctl - 1)) (h_stack H co ctl)
                 in Inr (if idx = 0xFFFFFFFF then None else Some (rec idx False))
           | _ \<Rightarrow> Inr None))"

text \<open>One instruction of a frame's prototype.\<close>

definition scan_head ::
    "venv \<Rightarrow> vmenv \<Rightarrow> heap \<Rightarrow> addr \<Rightarrow> (nat \<Rightarrow> sword option) \<Rightarrow> nat \<Rightarrow> nat \<Rightarrow> nat \<Rightarrow> nat \<Rightarrow> nat \<Rightarrow> nat \<Rightarrow> scan \<Rightarrow> eris_err + scan" where
  "scan_head V X H co W tp cap f p pc pos s =
     ebind (elj_bc_orig X H p pos) (\<lambda>head.
       let ra = i_a head; ctl = f + 1 + ra - 1 in
       if i_op head \<notin> {BC_ITERN, BC_ITERC} then Inr s
       else if ra < 3 \<or> ra - 1 \<ge> pt_framesize (h_proto H p) \<or> ctl < 3 + v_fr2 V \<or> ctl \<ge> tp then Inr s
       else ebind (if pc \<noteq> 0 then elj_loop_body X H p pos else Inr None) (\<lambda>body.
         let inbody = map_option (\<lambda>b. b \<le> pc \<and> pc \<le> pos) body in
         if inbody = Some False then Inr s
         else ebind (case fn_at H co W (ctl - 2) of
                Some (OFun q us e) \<Rightarrow>
                  if x_mode X \<noteq> 0 \<and> elj_reaches_next X H 1 q us
                  then add_diag cap \<lparr>fd_ctl = ctl, fd_frame = f - 1, fd_pc = pc, fd_pos = pos\<rparr> s else Inr s
              | _ \<Rightarrow> Inr s) (\<lambda>s.
              ebind (classify X H co W ctl ra pos inbody) (\<lambda>r. case r of None \<Rightarrow> Inr s | Some r \<Rightarrow> add_rec cap r s))))"

fun scan_heads ::
    "venv \<Rightarrow> vmenv \<Rightarrow> heap \<Rightarrow> addr \<Rightarrow> (nat \<Rightarrow> sword option) \<Rightarrow> nat \<Rightarrow> nat \<Rightarrow> nat \<Rightarrow> nat \<Rightarrow> nat \<Rightarrow> nat list \<Rightarrow> scan \<Rightarrow> eris_err + scan" where
  "scan_heads V X H co W tp cap f p pc [] s = Inr s"
| "scan_heads V X H co W tp cap f p pc (pos # ps) s =
     ebind (scan_head V X H co W tp cap f p pc pos s) (scan_heads V X H co W tp cap f p pc ps)"

text \<open>The frames from the innermost out. Under a vararg frame the function's copy has no registers.\<close>

definition is_vararg_frame :: "(nat \<Rightarrow> sword option) \<Rightarrow> nat \<Rightarrow> bool" where
  "is_vararg_frame W f = (case W f of Some (WFtsz link kind) \<Rightarrow> kind = FR_VARG | _ \<Rightarrow> False)"

fun lua_frames :: "heap \<Rightarrow> addr \<Rightarrow> (nat \<Rightarrow> sword option) \<Rightarrow> nat option \<Rightarrow> nat list \<Rightarrow> (nat \<times> nat \<times> nat) list" where
  "lua_frames H co W abv [] = []"
| "lua_frames H co W abv (f # fs) =
     (let pseudo = (case abv of Some g \<Rightarrow> is_vararg_frame W g | None \<Rightarrow> False) in
      case proto_at H co W (f - 1) of
        Some p \<Rightarrow> if pseudo then lua_frames H co W (Some f) fs
                   else (f, p, elj_frame_pc H W p abv) # lua_frames H co W (Some f) fs
      | None \<Rightarrow> lua_frames H co W (Some f) fs)"

fun scan_frames ::
    "venv \<Rightarrow> vmenv \<Rightarrow> heap \<Rightarrow> addr \<Rightarrow> (nat \<Rightarrow> sword option) \<Rightarrow> nat \<Rightarrow> nat \<Rightarrow> (nat \<times> nat \<times> nat) list \<Rightarrow> scan \<Rightarrow> eris_err + scan" where
  "scan_frames V X H co W tp cap [] s = Inr s"
| "scan_frames V X H co W tp cap ((f, p, pc) # fs) s =
     ebind (scan_heads V X H co W tp cap f p pc (loop_heads H p) s) (scan_frames V X H co W tp cap fs)"

text \<open>The counting pass.\<close>

fun count_heads :: "vmenv \<Rightarrow> heap \<Rightarrow> nat \<Rightarrow> nat list \<Rightarrow> eris_err + nat" where
  "count_heads X H p [] = Inr 0"
| "count_heads X H p (pos # ps) =
     ebind (elj_bc_orig X H p pos) (\<lambda>head. ebind (count_heads X H p ps) (\<lambda>n.
       Inr (if i_op head \<in> {BC_ITERN, BC_ITERC} then n + 1 else n)))"

fun count_frames :: "vmenv \<Rightarrow> heap \<Rightarrow> (nat \<times> nat \<times> nat) list \<Rightarrow> eris_err + nat" where
  "count_frames X H [] = Inr 0"
| "count_frames X H ((f, p, pc) # fs) =
     ebind (count_heads X H p (loop_heads H p)) (\<lambda>n. ebind (count_frames X H fs) (\<lambda>m. Inr (n + m)))"

definition elj_forin_scan ::
    "venv \<Rightarrow> vmenv \<Rightarrow> heap \<Rightarrow> addr \<Rightarrow> coro \<Rightarrow> nat \<Rightarrow> nat list \<Rightarrow> nat \<Rightarrow> eris_err + scan" where
  "elj_forin_scan V X H co c tp fs cap =
     (if c_status c > 1 then Inr \<lparr>sc_recs = [], sc_diags = []\<rparr>
      else scan_frames V X H co (c_word c) tp cap (lua_frames H co (c_word c) None fs) \<lparr>sc_recs = [], sc_diags = []\<rparr>)"

definition elj_forin_count :: "vmenv \<Rightarrow> heap \<Rightarrow> addr \<Rightarrow> coro \<Rightarrow> nat list \<Rightarrow> eris_err + nat" where
  "elj_forin_count X H co c fs =
     (if c_status c > 1 then Inr 0 else count_frames X H (lua_frames H co (c_word c) None fs))"

text \<open>The loops that cannot be replayed are named, or refused.\<close>

definition elj_forin_diagnose :: "vmenv \<Rightarrow> addr \<Rightarrow> (nat \<Rightarrow> sword option) \<Rightarrow> forindiag list \<Rightarrow> pst \<Rightarrow> eris_err + pst" where
  "elj_forin_diagnose X co W ds st =
     (let H = p_heap st;
          live = filter (\<lambda>d. proto_at H co W (fd_ctl d - 2) \<noteq> None \<and> proto_at H co W (fd_frame d) \<noteq> None) ds
      in if live \<noteq> [] \<and> x_mode X \<ge> 2
         then Inl (Err ''for-in loop iterates with a Lua closure that calls next'' [int (fd_ctl (hd live))])
         else Inr (st\<lparr>p_diags := p_diags st @ map (\<lambda>d. (fd_ctl d, fd_frame d, fd_pc d, fd_pos d)) live\<rparr>))"

section \<open>The record\<close>

text \<open>The replay state of one loop, its triple looked at again.\<close>

definition forin_state :: "vmenv \<Rightarrow> addr \<Rightarrow> (nat \<Rightarrow> sword option) \<Rightarrow> nat \<Rightarrow> heap \<Rightarrow> eris_err + lval \<times> heap" where
  "forin_state X co W ctl H =
     (let st = h_stack H co (ctl - 1); cv = h_stack H co ctl in
      if \<not> is_tab_at H co W (ctl - 1)
      then Inl (Err ''a for-in loop's slots changed while the thread was being persisted'' [])
      else case W ctl of
        Some (WKeyIndex lo) \<Rightarrow> elj_push_replay_state (x_layout X H) (unat lo) st H
      | _ \<Rightarrow>
          (case fn_at H co W (ctl - 2) of
             Some OReplay \<Rightarrow> elj_repack_replay_state H st cv
           | Some (OCFun f) \<Rightarrow>
               if f \<noteq> x_next X then Inl (Err ''a for-in loop's iterator changed while the thread was being persisted'' [])
               else let idx = x_keyindex X H st cv in
                    if idx = 0xFFFFFFFF
                    then Inl (Err ''a for-in loop's control value changed while the thread was being persisted'' [])
                    else elj_push_replay_state (x_layout X H) (unat idx) st H
           | _ \<Rightarrow> Inl (Err ''a for-in loop's iterator changed while the thread was being persisted'' [])))"

fun forin_states :: "vmenv \<Rightarrow> addr \<Rightarrow> (nat \<Rightarrow> sword option) \<Rightarrow> forinrec list \<Rightarrow> heap \<Rightarrow> eris_err + lval list \<times> heap" where
  "forin_states X co W [] H = Inr ([], H)"
| "forin_states X co W (r # rs) H =
     ebind (forin_state X co W (fi_ctl r) H) (\<lambda>(v, H). ebind (forin_states X co W rs H) (\<lambda>(vs, H). Inr (v # vs, H)))"

text \<open>What is written for a slot: its value, or its part of a replay triple.\<close>

definition slot_value :: "vmenv \<Rightarrow> addr \<Rightarrow> (nat \<Rightarrow> sword option) \<Rightarrow> (nat \<times> lval) list \<Rightarrow> nat \<Rightarrow> heap \<Rightarrow> lval \<times> heap" where
  "slot_value X co W reps i H =
     (case find (\<lambda>(ctl, s). i = ctl - 2 \<or> i = ctl - 1 \<or> i = ctl) reps of
        Some (ctl, s) \<Rightarrow>
          if i = ctl - 2 then (LObj (h_next H), H\<lparr>h_obj := (h_obj H)(h_next H \<mapsto> OReplay), h_next := h_next H + 1\<rparr>)
          else if i = ctl - 1 then (s, H)
          else (LNil, H)
      | None \<Rightarrow> ((case W i of Some w \<Rightarrow> x_raw X w | None \<Rightarrow> h_stack H co i), H))"

fun p_slots :: "vmenv \<Rightarrow> addr \<Rightarrow> (nat \<Rightarrow> sword option) \<Rightarrow> (nat \<times> lval) list \<Rightarrow> persister \<Rightarrow> nat list \<Rightarrow> pst \<Rightarrow> eris_err + pst" where
  "p_slots X co W reps P [] st = Inr st"
| "p_slots X co W reps P (i # is) st =
     (let (v, H) = slot_value X co W reps i (p_heap st)
      in ebind (P v (st\<lparr>p_heap := H\<rparr>)) (p_slots X co W reps P is))"

text \<open>A frame's record, from its word.\<close>

definition frame_at :: "venv \<Rightarrow> heap \<Rightarrow> addr \<Rightarrow> (nat \<Rightarrow> sword option) \<Rightarrow> nat \<Rightarrow> nat \<Rightarrow> eris_err + frec" where
  "frame_at V H co W f prv =
     (case W f of
        Some (WPc q ofs) \<Rightarrow>
          if proto_at H co W (prv - 1) = None then Inl (Err ''Lua frame whose caller is not a Lua function'' [])
          else Inr \<lparr>fr_kind = FR_LUA, fr_cs = 0, fr_link = 8 * (f - prv), fr_bcofs = ofs, fr_at = f\<rparr>
      | Some (WFtsz link kind) \<Rightarrow>
          if kind = FR_CONT then
            (case W (f - 3) of
               Some (WCont cs) \<Rightarrow>
                 if cs \<ge> CS_MAX
                 then Inl (Err ''unknown continuation in a suspended frame (FFI continuations are not supported)'' [])
                 else if cs = CS_HOOK
                 then Inl (Err ''cannot persist a thread yielded from inside a debug hook (a watchdog hook must raise, not yield)'' [])
                 else if proto_at H co W (prv - 1) = None then Inl (Err ''continuation frame with a non-Lua caller'' [])
                 else (case W (f - 2) of
                    Some (WPc q ofs) \<Rightarrow> Inr \<lparr>fr_kind = FR_CONT, fr_cs = cs, fr_link = link, fr_bcofs = ofs, fr_at = f\<rparr>
                  | _ \<Rightarrow> Inl (Err ''continuation frame with a non-Lua caller'' []))
             | _ \<Rightarrow> Inl (Err ''unknown continuation in a suspended frame (FFI continuations are not supported)'' []))
          else if kind \<notin> {FR_C, FR_CP, FR_VARG, FR_PCALL, FR_PCALLH} then Inl (Err ''unsupported frame type'' [int kind])
          else if kind = FR_PCALLH \<and> \<not> v_hook V
          then Inl (Err ''cannot persist a pcall frame entered inside a debug hook'' [])
          else if kind \<in> {FR_C, FR_CP} \<and> prv > v_fr2 V then Inl (Err ''interior C frame in a suspended thread'' [])
          else Inr \<lparr>fr_kind = kind, fr_cs = 0, fr_link = link, fr_bcofs = 0, fr_at = f\<rparr>
      | _ \<Rightarrow> Inl (Err ''unsupported frame type'' []))"

definition frame_record :: "venv \<Rightarrow> heap \<Rightarrow> addr \<Rightarrow> (nat \<Rightarrow> sword option) \<Rightarrow> nat \<Rightarrow> eris_err + frec" where
  "frame_record V H co W f =
     (case frame_prev V H W f of
        Some prv \<Rightarrow> frame_at V H co W f prv
      | None \<Rightarrow> Inl (Err ''unsupported frame type'' []))"

definition p_frame :: "penv \<Rightarrow> frec \<Rightarrow> pst \<Rightarrow> eris_err + pst" where
  "p_frame E f st =
     ebind (pbyte E (of_nat (fr_kind f)) st) (\<lambda>st. ebind (puleb E (fr_link f) st) (\<lambda>st.
       if fr_kind f = FR_LUA then puleb E (fr_bcofs f) st
       else if fr_kind f = FR_CONT then ebind (pbyte E (of_nat (fr_cs f)) st) (puleb E (fr_bcofs f))
       else Inr st))"

fun p_each :: "('a \<Rightarrow> pst \<Rightarrow> eris_err + pst) \<Rightarrow> 'a list \<Rightarrow> pst \<Rightarrow> eris_err + pst" where
  "p_each p [] st = Inr st"
| "p_each p (x # xs) st = ebind (p x st) (p_each p xs)"

definition p_frames :: "venv \<Rightarrow> penv \<Rightarrow> addr \<Rightarrow> (nat \<Rightarrow> sword option) \<Rightarrow> nat list \<Rightarrow> pst \<Rightarrow> eris_err + pst" where
  "p_frames V E co W fs st =
     ebind (puleb E (length fs) st) (\<lambda>st.
       p_each (\<lambda>f st. ebind (frame_record V (p_heap st) co W f) (\<lambda>r. p_frame E r st)) fs st)"

definition p_openupvals :: "penv \<Rightarrow> bool \<Rightarrow> addr \<Rightarrow> pst \<Rightarrow> eris_err + pst" where
  "p_openupvals E dead co st =
     (if dead then puleb E 0 st
      else
        let uvs = h_open (p_heap st) co in
        ebind (puleb E (length uvs) st) (p_each (\<lambda>(slot, uv) st.
          ebind (puleb E slot st) (\<lambda>st. pbyte E (if h_immut (p_heap st) uv then 1 else 0) st)) uvs))"

definition p_forinrecs :: "penv \<Rightarrow> forinrec list \<Rightarrow> pst \<Rightarrow> eris_err + pst" where
  "p_forinrecs E rs st =
     ebind (puleb E (length rs) st) (p_each (\<lambda>r st.
       ebind (puleb E (fi_ctl r) st) (\<lambda>st. ebind (puleb E (fi_ra r) st) (puleb E (fi_itern r)))) rs)"

text \<open>Every loop into replay form: the records, and their states beside their control slots.\<close>

definition p_loops :: "venv \<Rightarrow> vmenv \<Rightarrow> addr \<Rightarrow> coro \<Rightarrow> nat \<Rightarrow> nat list \<Rightarrow> pst \<Rightarrow> eris_err + (forinrec list \<times> (nat \<times> lval) list) \<times> pst" where
  "p_loops V X co c tp fs st =
     ebind (elj_forin_count X (p_heap st) co c fs) (\<lambda>cap.
       if cap = 0 then Inr (([], []), st)
       else ebind (elj_forin_scan V X (p_heap st) co c tp fs cap) (\<lambda>s.
            ebind (if sc_diags s \<noteq> [] then elj_forin_diagnose X co (c_word c) (sc_diags s) st else Inr st) (\<lambda>st.
            ebind (forin_states X co (c_word c) (sc_recs s) (p_heap st)) (\<lambda>(vs, H).
            Inr ((sc_recs s, zip (map fi_ctl (sc_recs s)) vs), st\<lparr>p_heap := H\<rparr>)))))"

text \<open>A dead coroutine is written with an empty stack. The VM keeps a suspended one's frames a chain.\<close>

definition p_thread :: "venv \<Rightarrow> vmenv \<Rightarrow> penv \<Rightarrow> addr \<Rightarrow> persister \<Rightarrow> pst \<Rightarrow> eris_err + pst" where
  "p_thread V X E co P st =
     (let c = h_coro (p_heap st) co; W = c_word c; dead = (c_status c > 1);
          base = (if dead then 1 + v_fr2 V else c_base c);
          tp = (if dead then 1 + v_fr2 V else h_top (p_heap st) co);
          spn = (if dead then 2 + v_fr2 V else c_span c)
      in case (if dead then Some [] else frame_walk V (p_heap st) W (base - 1)) of
           None \<Rightarrow> Inl (Err ''unsupported frame type'' [])
         | Some fs \<Rightarrow>
             ebind (p_loops V X co c tp fs st) (\<lambda>((recs, reps), st).
             ebind (pbyte E TAG_THREAD st) (\<lambda>st. ebind (pbyte E (of_nat (c_status c)) st) (\<lambda>st.
             ebind (puleb E spn st) (\<lambda>st. ebind (puleb E base st) (\<lambda>st. ebind (puleb E tp st) (\<lambda>st.
             ebind (p_slots X co W reps P [1 + v_fr2 V..<tp] st) (\<lambda>st.
             ebind (p_frames V E co W fs st) (\<lambda>st.
             ebind (p_openupvals E dead co st) (\<lambda>st.
             ebind (p_forinrecs E recs st) (\<lambda>st.
             P (LObj (h_env (p_heap st) co)) st)))))))))))"

section \<open>The scan and the records it makes\<close>

text \<open>The two passes agree: with the counted capacity the second never runs out of room.\<close>

definition room :: "nat \<Rightarrow> scan \<Rightarrow> bool" where
  "room n s = (length (sc_recs s) \<le> n \<and> length (sc_diags s) \<le> n)"

definition no_room :: "eris_err" where
  "no_room = Err ''too many for-in loops in one thread'' []"

lemma add_rec_room: "room n s \<Longrightarrow> n < cap \<Longrightarrow> \<exists>s'. add_rec cap r s = Inr s' \<and> room (n + 1) s'"
  by (auto simp: add_rec_def room_def)

lemma add_diag_room: "room n s \<Longrightarrow> n < cap \<Longrightarrow> \<exists>s'. add_diag cap d s = Inr s' \<and> length (sc_diags s') \<le> n + 1 \<and> sc_recs s' = sc_recs s"
  by (auto simp: add_diag_def room_def)

lemma room_mono: "room n s \<Longrightarrow> n \<le> m \<Longrightarrow> room m s"
  by (auto simp: room_def)

lemma bc_orig_room: "elj_bc_orig X H p pos = Inl e \<Longrightarrow> e \<noteq> no_room"
  by (auto simp: elj_bc_orig_def no_room_def Let_def split: if_split_asm option.split_asm)

lemma loop_body_room: "elj_loop_body X H p pos = Inl e \<Longrightarrow> e \<noteq> no_room"
  using bc_orig_room by (fastforce simp: elj_loop_body_def Let_def ebind_eq_Inl split: if_split_asm)

lemma classify_room: "classify X H co W ctl ra pos inbody = Inl e \<Longrightarrow> e \<noteq> no_room"
  by (auto simp: classify_def Let_def no_room_def split: if_split_asm option.split_asm lobj.split_asm sword.split_asm)

definition fits :: "nat \<Rightarrow> eris_err + scan \<Rightarrow> bool" where
  "fits n x = (case x of Inl e \<Rightarrow> e \<noteq> no_room | Inr s \<Rightarrow> room n s)"

lemma fits_bind:
  assumes "\<And>e. x = Inl e \<Longrightarrow> e \<noteq> no_room" "\<And>y. x = Inr y \<Longrightarrow> fits n (f y)"
  shows "fits n (ebind x f)"
  using assms by (cases x) (auto simp: fits_def)

lemma scan_head_fits:
  assumes "room n s" "elj_bc_orig X H p pos = Inr head" "i_op head \<in> {BC_ITERN, BC_ITERC} \<longrightarrow> n < cap"
  shows "fits (if i_op head \<in> {BC_ITERN, BC_ITERC} then n + 1 else n) (scan_head V X H co W tp cap f p pc pos s)"
proof (cases "i_op head \<in> {BC_ITERN, BC_ITERC}")
  case False
  then show ?thesis using assms(1,2) by (simp add: scan_head_def fits_def)
next
  case True
  have s: "fits (n + 1) (Inr s)" using room_mono [OF assms(1)] by (simp add: fits_def)
  have n: "n < cap" using True assms(3) by simp
  have tail: "fits (n + 1) (ebind (classify X H co W ctl ra pos ib) (\<lambda>r. case r of None \<Rightarrow> Inr s1 | Some r \<Rightarrow> add_rec cap r s1))"
    if "sc_recs s1 = sc_recs s" "length (sc_diags s1) \<le> n + 1" for s1 ctl ra ib
  proof (rule fits_bind)
    fix r assume "classify X H co W ctl ra pos ib = Inr r"
    show "fits (n + 1) (case r of None \<Rightarrow> Inr s1 | Some r \<Rightarrow> add_rec cap r s1)"
      using that assms(1) n by (cases r) (auto simp: fits_def room_def add_rec_def)
  qed (rule classify_room)
  have diag: "fits (n + 1) (ebind (case x of Some (OFun q us e) \<Rightarrow> if b q us then add_diag cap d s else Inr s | _ \<Rightarrow> Inr s)
      (\<lambda>s1. ebind (classify X H co W ctl ra pos ib) (\<lambda>r. case r of None \<Rightarrow> Inr s1 | Some r \<Rightarrow> add_rec cap r s1)))"
    for x b d ctl ra ib
  proof -
    have u: "sc_recs s = sc_recs s" "length (sc_diags s) \<le> n + 1" using assms(1) by (auto simp: room_def)
    obtain s1 where "add_diag cap d s = Inr s1" "length (sc_diags s1) \<le> n + 1" "sc_recs s1 = sc_recs s"
      using add_diag_room [OF assms(1) n] by blast
    then show ?thesis using tail [OF u] tail [of s1] by (auto split: option.split lobj.split)
  qed
  show ?thesis
    unfolding scan_head_def assms(2) ebind_Inr Let_def
    using True s diag by (auto intro!: fits_bind dest: loop_body_room split: if_split_asm)
qed

lemma scan_heads_fits:
  "count_heads X H p ps = Inr k \<Longrightarrow> room n s \<Longrightarrow> n + k \<le> cap \<Longrightarrow> fits (n + k) (scan_heads V X H co W tp cap f p pc ps s)"
proof (induction ps arbitrary: n s k)
  case (Cons pos ps)
  obtain head j where h: "elj_bc_orig X H p pos = Inr head" "count_heads X H p ps = Inr j"
      "k = (if i_op head \<in> {BC_ITERN, BC_ITERC} then j + 1 else j)"
    using Cons.prems(1) by (auto simp: ebind_eq_Inr)
  let ?m = "if i_op head \<in> {BC_ITERN, BC_ITERC} then n + 1 else n"
  have f: "fits ?m (scan_head V X H co W tp cap f p pc pos s)"
    by (rule scan_head_fits [OF Cons.prems(2) h(1)]) (use Cons.prems(3) h(3) in auto)
  have "?m + j = n + k" using h(3) by simp
  moreover have "fits (?m + j) (scan_heads V X H co W tp cap f p pc (pos # ps) s)"
    unfolding scan_heads.simps
  proof (rule fits_bind)
    fix s1 assume "scan_head V X H co W tp cap f p pc pos s = Inr s1"
    then have "room ?m s1" using f by (simp add: fits_def)
    then show "fits (?m + j) (scan_heads V X H co W tp cap f p pc ps s1)"
      by (rule Cons.IH [OF h(2)]) (use Cons.prems(3) h(3) in auto)
  qed (use f in \<open>simp add: fits_def\<close>)
  ultimately show ?case by simp
qed (auto simp: fits_def)

lemma scan_frames_fits:
  "count_frames X H fs = Inr k \<Longrightarrow> room n s \<Longrightarrow> n + k \<le> cap \<Longrightarrow> fits (n + k) (scan_frames V X H co W tp cap fs s)"
proof (induction fs arbitrary: n s k)
  case (Cons q fs)
  obtain f p pc where q: "q = (f, p, pc)" by (cases q)
  obtain i j where h: "count_heads X H p (loop_heads H p) = Inr i" "count_frames X H fs = Inr j" "k = i + j"
    using Cons.prems(1) by (auto simp: q ebind_eq_Inr)
  have f: "fits (n + i) (scan_heads V X H co W tp cap f p pc (loop_heads H p) s)"
    by (rule scan_heads_fits [OF h(1) Cons.prems(2)]) (use Cons.prems(3) h(3) in simp)
  have "fits (n + i + j) (scan_frames V X H co W tp cap (q # fs) s)"
    unfolding q scan_frames.simps
  proof (rule fits_bind)
    fix s1 assume "scan_heads V X H co W tp cap f p pc (loop_heads H p) s = Inr s1"
    then have "room (n + i) s1" using f by (simp add: fits_def)
    then show "fits (n + i + j) (scan_frames V X H co W tp cap fs s1)"
      by (rule Cons.IH [OF h(2)]) (use Cons.prems(3) h(3) in auto)
  qed (use f in \<open>simp add: fits_def\<close>)
  then show ?case by (simp add: h(3) add.assoc)
qed (auto simp: fits_def)

text \<open>What a scan has found stays found, and a marked triple is found.\<close>

definition found :: "nat \<Rightarrow> scan \<Rightarrow> bool" where
  "found ctl s = (ctl \<in> set (map fi_ctl (sc_recs s)))"

lemma merge_ctl: "map fi_ctl (map (\<lambda>q. if P q then q\<lparr>fi_itern := 0\<rparr> else q) rs) = map fi_ctl rs"
  by simp

lemma add_rec_ctl:
  "add_rec cap r s = Inr s' \<Longrightarrow> set (map fi_ctl (sc_recs s')) = insert (fi_ctl r) (set (map fi_ctl (sc_recs s)))"
  unfolding add_rec_def by (auto simp del: list.map_comp set_map map_map simp: merge_ctl insert_absorb split: if_split_asm)

lemma add_rec_found: "add_rec cap r s = Inr s' \<Longrightarrow> found (fi_ctl r) s' \<and> (found ctl s \<longrightarrow> found ctl s')"
  using add_rec_ctl [of cap r s s'] unfolding found_def by blast

lemma add_diag_found: "add_diag cap d s = Inr s' \<Longrightarrow> sc_recs s' = sc_recs s"
  by (auto simp: add_diag_def split: if_split_asm)

text \<open>A loop head of a frame whose triple says itself that it is to be replayed, and that the frame's position
  does not rule out.\<close>

definition marked_loop ::
    "venv \<Rightarrow> vmenv \<Rightarrow> heap \<Rightarrow> addr \<Rightarrow> (nat \<Rightarrow> sword option) \<Rightarrow> nat \<Rightarrow> nat \<Rightarrow> nat \<Rightarrow> nat \<Rightarrow> nat \<Rightarrow> nat \<Rightarrow> bool" where
  "marked_loop V X H co W tp f p pc pos ctl =
     (case elj_bc_orig X H p pos of Inl e \<Rightarrow> False | Inr head \<Rightarrow>
        i_op head \<in> {BC_ITERN, BC_ITERC} \<and> 3 \<le> i_a head \<and> i_a head - 1 < pt_framesize (h_proto H p)
        \<and> ctl = f + 1 + i_a head - 1 \<and> 3 + v_fr2 V \<le> ctl \<and> ctl < tp
        \<and> is_tab_at H co W (ctl - 1) \<and> ((\<exists>lo. W ctl = Some (WKeyIndex lo)) \<or> is_replay_fn H co W (ctl - 2))
        \<and> (\<forall>b. pc \<noteq> 0 \<longrightarrow> elj_loop_body X H p pos = Inr (Some b) \<longrightarrow> b \<le> pc \<and> pc \<le> pos))"

lemma scan_head_found:
  assumes "scan_head V X H co W tp cap f p pc pos s = Inr s'"
  shows "(found ctl s \<longrightarrow> found ctl s') \<and> (marked_loop V X H co W tp f p pc pos ctl \<longrightarrow> found ctl s')"
proof -
  obtain head where h: "elj_bc_orig X H p pos = Inr head" using assms by (auto simp: scan_head_def ebind_eq_Inr)
  let ?ctl = "f + 1 + i_a head - 1"
  let ?out = "i_op head \<notin> {BC_ITERN, BC_ITERC} \<or> i_a head < 3 \<or> i_a head - 1 \<ge> pt_framesize (h_proto H p) \<or> ?ctl < 3 + v_fr2 V \<or> ?ctl \<ge> tp"
  show ?thesis
  proof (cases ?out)
    case True
    then have "s' = s" using assms h by (auto simp: scan_head_def Let_def split: if_split_asm)
    then show ?thesis using True h by (auto simp: marked_loop_def)
  next
    case False
    then obtain body where b: "(if pc \<noteq> 0 then elj_loop_body X H p pos else Inr None) = Inr body"
      using assms h by (auto simp: scan_head_def Let_def ebind_eq_Inr split: if_split_asm)
    let ?ib = "map_option (\<lambda>b. b \<le> pc \<and> pc \<le> pos) body"
    show ?thesis
    proof (cases "?ib = Some False")
      case True
      then have "s' = s" using assms h False b by (auto simp: scan_head_def Let_def ebind_eq_Inr split: if_split_asm)
      then show ?thesis using True b h by (auto simp: marked_loop_def split: if_split_asm)
    next
      case ib: False
      let ?d = "case fn_at H co W (?ctl - 2) of
                Some (OFun q us e) \<Rightarrow>
                  if x_mode X \<noteq> 0 \<and> elj_reaches_next X H 1 q us
                  then add_diag cap \<lparr>fd_ctl = ?ctl, fd_frame = f - 1, fd_pc = pc, fd_pos = pos\<rparr> s else Inr s
              | _ \<Rightarrow> Inr s"
      have "ebind ?d (\<lambda>s. ebind (classify X H co W ?ctl (i_a head) pos ?ib) (\<lambda>r. case r of None \<Rightarrow> Inr s | Some r \<Rightarrow> add_rec cap r s)) = Inr s'"
        using assms False ib unfolding scan_head_def h ebind_Inr Let_def b by (auto split: if_split_asm)
      then obtain s1 r where c: "?d = Inr s1" "classify X H co W ?ctl (i_a head) pos ?ib = Inr r"
          "(case r of None \<Rightarrow> Inr s1 | Some r \<Rightarrow> add_rec cap r s1) = Inr s'"
        unfolding ebind_eq_Inr by blast
      have s1: "sc_recs s1 = sc_recs s" using c(1) add_diag_found by (auto split: option.split_asm lobj.split_asm if_split_asm)
      have keep: "found ctl s \<longrightarrow> found ctl s'" using c(3) s1 add_rec_found [of cap _ s1 s' ctl] by (auto simp: found_def split: option.split_asm)
      have "found ?ctl s'" if "marked_loop V X H co W tp f p pc pos ?ctl"
      proof -
        have m: "is_tab_at H co W (?ctl - 1)" "(\<exists>lo. W ?ctl = Some (WKeyIndex lo)) \<or> fn_at H co W (?ctl - 2) = Some OReplay"
          using that h by (auto simp: marked_loop_def is_replay_fn_def)
        obtain r' where "r = Some r'" "fi_ctl r' = ?ctl"
          using c(2) m unfolding classify_def Let_def
          by (cases "W ?ctl") (auto split: sword.split_asm)
        then show ?thesis using c(3) add_rec_found [of cap r' s1 s'] by auto
      qed
      then show ?thesis using keep h by (auto simp: marked_loop_def)
    qed
  qed
qed

lemma scan_heads_found:
  "scan_heads V X H co W tp cap f p pc ps s = Inr s' \<Longrightarrow>
     (found ctl s \<longrightarrow> found ctl s') \<and> (\<forall>pos \<in> set ps. marked_loop V X H co W tp f p pc pos ctl \<longrightarrow> found ctl s')"
proof (induction ps arbitrary: s)
  case (Cons pos ps)
  obtain s1 where s: "scan_head V X H co W tp cap f p pc pos s = Inr s1" "scan_heads V X H co W tp cap f p pc ps s1 = Inr s'"
    using Cons.prems by (auto simp: ebind_eq_Inr)
  show ?case using scan_head_found [OF s(1), of ctl] Cons.IH [OF s(2)] by auto
qed simp

lemma scan_frames_found:
  "scan_frames V X H co W tp cap fs s = Inr s' \<Longrightarrow>
     (found ctl s \<longrightarrow> found ctl s')
     \<and> (\<forall>(f, p, pc) \<in> set fs. \<forall>pos \<in> set (loop_heads H p). marked_loop V X H co W tp f p pc pos ctl \<longrightarrow> found ctl s')"
proof (induction fs arbitrary: s)
  case (Cons q fs)
  obtain f p pc where q: "q = (f, p, pc)" by (cases q)
  obtain s1 where s: "scan_heads V X H co W tp cap f p pc (loop_heads H p) s = Inr s1" "scan_frames V X H co W tp cap fs s1 = Inr s'"
    using Cons.prems by (auto simp: q ebind_eq_Inr)
  show ?case using scan_heads_found [OF s(1), of ctl] Cons.IH [OF s(2)] by (auto simp: q)
qed simp

text \<open>C7: The scan of a suspended coroutine never runs out of the room its counting pass asked for, and misses no
  loop that is recognisable: every loop head of a Lua frame, compiled or not, whose triple carries the
  specialised loop's control value or the replay iterator over a table, and whose body the frame's position
  does not exclude, has its control slot among the records.\<close>

theorem scan_complete:
  assumes "elj_forin_count X H co c fs = Inr cap"
  shows "(case elj_forin_scan V X H co c tp fs cap of
            Inl e \<Rightarrow> e \<noteq> no_room
          | Inr s \<Rightarrow> length (sc_recs s) \<le> cap \<and>
              (c_status c \<le> 1 \<longrightarrow> (\<forall>(f, p, pc) \<in> set (lua_frames H co (c_word c) None fs). \<forall>pos \<in> set (loop_heads H p). \<forall>ctl.
                 marked_loop V X H co (c_word c) tp f p pc pos ctl \<longrightarrow> (\<exists>r \<in> set (sc_recs s). fi_ctl r = ctl))))"
proof (cases "c_status c > 1")
  case True
  then show ?thesis by (simp add: elj_forin_scan_def)
next
  case False
  let ?s = "\<lparr>sc_recs = [], sc_diags = []\<rparr>" and ?fs = "lua_frames H co (c_word c) None fs"
  have "fits (0 + cap) (scan_frames V X H co (c_word c) tp cap ?fs ?s)"
    by (rule scan_frames_fits) (use assms False in \<open>simp_all add: elj_forin_count_def room_def\<close>)
  then have f: "fits cap (elj_forin_scan V X H co c tp fs cap)" using False by (simp add: elj_forin_scan_def)
  show ?thesis
  proof (cases "elj_forin_scan V X H co c tp fs cap")
    case (Inr s)
    then have "scan_frames V X H co (c_word c) tp cap ?fs ?s = Inr s" using False by (simp add: elj_forin_scan_def)
    from scan_frames_found [OF this] show ?thesis using f Inr by (fastforce simp: fits_def room_def found_def)
  qed (use f in \<open>simp add: fits_def\<close>)
qed

section \<open>Frames that were restored\<close>

definition frec_ok :: "venv \<Rightarrow> frec \<Rightarrow> bool" where
  "frec_ok V f =
     (link_ok f \<and> fr_link f mod 8 = 0 \<and> fr_link f < 2 ^ 64 \<and> fr_bcofs f < 2 ^ 64
      \<and> fr_kind f \<in> {FR_LUA, FR_C, FR_CONT, FR_VARG, FR_CP, FR_PCALL, FR_PCALLH}
      \<and> (fr_kind f = FR_CONT \<longrightarrow> fr_cs f < CS_MAX \<and> fr_cs f \<noteq> CS_HOOK) \<and> (fr_kind f \<noteq> FR_CONT \<longrightarrow> fr_cs f = 0)
      \<and> (fr_kind f \<notin> {FR_LUA, FR_CONT} \<longrightarrow> fr_bcofs f = 0) \<and> (fr_kind f = FR_PCALLH \<longrightarrow> v_hook V))"

lemma unat_u64_less: "unat (x :: u64) < 18446744073709551616"
  using unsigned_less [of x] by simp

lemma r_frame_ok: "r_frame V i = Inr (f, r) \<Longrightarrow> frec_ok V f"
proof -
  assume a: "r_frame V i = Inr (f, r)"
  then obtain k l j cs bcofs where t: "r_frame_tail k j = Inr ((cs, bcofs), r)" "fr_cs f = cs" "fr_bcofs f = bcofs"
      "fr_kind f = unat k" "fr_link f = unat (l :: u64)" "unat l mod 8 = 0" "fr_kind f = FR_PCALLH \<longrightarrow> v_hook V"
    by (auto simp: r_frame_def ebind_eq_Inr Let_def split: if_split_asm)
  have "bcofs < 2 ^ 64 \<and> unat k \<in> {FR_LUA, FR_C, FR_CONT, FR_VARG, FR_CP, FR_PCALL, FR_PCALLH}
      \<and> (unat k = FR_CONT \<longrightarrow> cs < CS_MAX \<and> cs \<noteq> CS_HOOK) \<and> (unat k \<noteq> FR_CONT \<longrightarrow> cs = 0) \<and> (unat k \<notin> {FR_LUA, FR_CONT} \<longrightarrow> bcofs = 0)"
    using t(1) unat_u64_less by (auto simp: r_frame_tail_def ebind_eq_Inr split: if_split_asm)
  then show ?thesis using t r_frame_link [OF a] unat_u64_less [of l] by (auto simp: frec_ok_def)
qed

definition frame_bytes :: "frec \<Rightarrow> byte list" where
  "frame_bytes f =
     of_nat (fr_kind f) # uleb_bytes (word_of_nat (fr_link f))
       @ (if fr_kind f = FR_LUA then uleb_bytes (word_of_nat (fr_bcofs f))
          else if fr_kind f = FR_CONT then of_nat (fr_cs f) # uleb_bytes (word_of_nat (fr_bcofs f)) else [])"

lemma p_frame_emits: "p_frame E f P = Inr P' \<Longrightarrow> emits P (frame_bytes f) P'"
  by (auto simp: p_frame_def frame_bytes_def ebind_eq_Inr emits_def dest!: pbyte_D puleb_D split: if_split_asm)

lemma unat_word64: "n < 2 ^ 64 \<Longrightarrow> unat (word_of_nat n :: u64) = n"
  by (simp add: unat_of_nat take_bit_nat_eq_self)

lemma unat_byte_small: "n < 8 \<Longrightarrow> unat (word_of_nat n :: byte) = n"
  by (simp add: unat_of_nat take_bit_nat_eq_self)

lemma r_frame_bytes:
  assumes "frec_ok V f"
  shows "r_frame V (frame_bytes f @ rest) = Inr (f\<lparr>fr_at := 0\<rparr>, rest)"
proof -
  have k: "unat (word_of_nat (fr_kind f) :: byte) = fr_kind f" "unat (word_of_nat (fr_link f) :: u64) = fr_link f"
      "unat (word_of_nat (fr_bcofs f) :: u64) = fr_bcofs f"
    using assms by (auto simp: frec_ok_def intro!: unat_word64 unat_byte_small)
  have c: "fr_kind f = FR_CONT \<Longrightarrow> unat (word_of_nat (fr_cs f) :: byte) = fr_cs f"
    using assms by (auto simp: frec_ok_def intro!: unat_byte_small)
  have t: "r_frame_tail (word_of_nat (fr_kind f)) ((if fr_kind f = FR_LUA then uleb_bytes (word_of_nat (fr_bcofs f))
          else if fr_kind f = FR_CONT then of_nat (fr_cs f) # uleb_bytes (word_of_nat (fr_bcofs f)) else []) @ rest)
      = Inr ((fr_cs f, fr_bcofs f), rest)"
    using assms by (auto simp: r_frame_tail_def k c r_uleb_uleb frec_ok_def)
  have "\<not> (fr_kind f = FR_PCALLH \<and> \<not> v_hook V)" "\<not> (fr_link f mod 8 \<noteq> 0 \<or> fr_link f < 16)"
      "\<not> (fr_kind f = FR_CONT \<and> fr_link f < (if fr_cs f = CS_STITCH then 40 else 32))"
    using assms by (auto simp: frec_ok_def link_ok_def)
  then show ?thesis
    unfolding r_frame_def frame_bytes_def append_Cons append_assoc r_byte.simps ebind_Inr prod.case r_uleb_uleb t Let_def k
    by (simp only: if_False) (cases f, simp)
qed

text \<open>The words a frame leaves, and its caller.\<close>

definition frame_words :: "heap \<Rightarrow> addr \<Rightarrow> frec \<Rightarrow> (nat \<Rightarrow> sword option) \<Rightarrow> bool" where
  "frame_words H co f W =
     (if fr_kind f = FR_LUA then (\<exists>p. W (fr_at f) = Some (WPc p (fr_bcofs f))) \<and> proto_at H co W (fr_at f - fr_link f div 8 - 1) \<noteq> None
      else if fr_kind f = FR_CONT then
        W (fr_at f) = Some (WFtsz (fr_link f) FR_CONT) \<and> W (fr_at f - 3) = Some (WCont (fr_cs f))
        \<and> (\<exists>p. W (fr_at f - 2) = Some (WPc p (fr_bcofs f))) \<and> proto_at H co W (fr_at f - fr_link f div 8 - 1) \<noteq> None
      else W (fr_at f) = Some (WFtsz (fr_link f) (fr_kind f)))"

lemma if_Inr_iff: "(if P then Inl e else x) = Inr y \<Longrightarrow> \<not> P \<and> x = Inr y"
  by (simp split: if_split_asm)

lemma write_frame_words:
  assumes "write_frame V H co k f W = Inr W'" "link_ok f" "fr_link f div 8 \<le> fr_at f" "\<forall>i \<le> fr_at f. W i = None"
  shows "frame_words H co f W'"
proof -
  let ?at = "fr_at f" and ?prv = "fr_at f - fr_link f div 8"
  have fn: "fn_at H co W (?at - 1) \<noteq> None"
    using assms(1) by (rule contrapos_pn) (simp add: write_frame_def Let_def)
  note w = assms(1) [unfolded write_frame_def Let_def if_not_P [OF fn]]
  have l: "2 \<le> fr_link f div 8" using assms(2) by (simp add: link_ok_def less_eq_div_iff_mult_less_eq)
  show ?thesis
  proof (cases "fr_kind f = FR_LUA \<or> fr_kind f = FR_CONT")
    case False
    then have "W' = W(?at \<mapsto> WFtsz (fr_link f) (fr_kind f))" using w by (simp split: if_split_asm)
    then show ?thesis using False by (simp add: frame_words_def)
  next
    case True
    then obtain p where p: "proto_at H co W (?prv - 1) = Some p" using w by (auto split: option.splits)
    then have W: "W (?prv - 1) = None" by (auto simp: proto_at_def fn_at_def split: if_split_asm)
    have keep: "proto_at H co W' (?prv - 1) \<noteq> None" if "W' (?prv - 1) = None"
      using p W that by (simp add: proto_at_def fn_at_def)
    show ?thesis
    proof (cases "fr_kind f = FR_LUA")
      case True
      then have "W' = W(?at \<mapsto> WPc p (fr_bcofs f))" using w p by (simp split: if_split_asm)
      moreover have "?prv - 1 \<noteq> ?at" using l assms(3) by simp
      ultimately show ?thesis using True keep W by (auto simp: frame_words_def)
    next
      case False
      let ?W = "W(?at - 3 \<mapsto> WCont (fr_cs f), ?at - 2 \<mapsto> WPc p (fr_bcofs f), ?at \<mapsto> WFtsz (fr_link f) FR_CONT)"
      have W': "W' = (if fr_cs f = CS_STITCH then ?W(?at - 4 \<mapsto> WNoTrace) else ?W)"
        using w p True False by (simp split: if_split_asm)
      obtain n where n: "fr_link f div 8 = n" "4 \<le> n" "fr_cs f = CS_STITCH \<longrightarrow> 5 \<le> n" "n \<le> ?at"
        using assms(2,3) True False by (auto simp: link_ok_def less_eq_div_iff_mult_less_eq split: if_split_asm)
      have ne: "?at - 4 \<noteq> ?at - 3" "?at - 4 \<noteq> ?at - 2" "?at - 4 \<noteq> ?at" "?at - 3 \<noteq> ?at - 2" "?at - 3 \<noteq> ?at" "?at - 2 \<noteq> ?at"
        using n(2,4) by arith+
      have "?at - n - 1 \<noteq> ?at" "?at - n - 1 \<noteq> ?at - 2" "?at - n - 1 \<noteq> ?at - 3"
        "fr_cs f = CS_STITCH \<longrightarrow> ?at - n - 1 \<noteq> ?at - 4" using n(2-4) by arith+
      then have "W' (?prv - 1) = None" using W unfolding W' n(1) by simp
      then show ?thesis using True False keep ne unfolding W' by (simp add: frame_words_def)
    qed
  qed
qed

lemma frame_words_keep:
  assumes "frame_words H co f W" "link_ok f" "fr_link f div 8 \<le> fr_at f"
    "\<forall>i > fr_at f - fr_link f div 8. W' i = W i" "W' (fr_at f - fr_link f div 8 - 1) = W (fr_at f - fr_link f div 8 - 1)"
  shows "frame_words H co f W'"
proof -
  have l: "2 \<le> fr_link f div 8" using assms(2) by (simp add: link_ok_def less_eq_div_iff_mult_less_eq)
  have c: "fr_kind f = FR_CONT \<Longrightarrow> 4 \<le> fr_link f div 8"
    using assms(2) by (auto simp: link_ok_def less_eq_div_iff_mult_less_eq split: if_split_asm)
  have "W' (fr_at f) = W (fr_at f)" using assms(3,4) l by simp
  moreover have "fr_kind f = FR_CONT \<Longrightarrow> W' (fr_at f - 2) = W (fr_at f - 2) \<and> W' (fr_at f - 3) = W (fr_at f - 3)"
    using assms(3,4) c by simp
  moreover have "proto_at H co W' (fr_at f - fr_link f div 8 - 1) = proto_at H co W (fr_at f - fr_link f div 8 - 1)"
    using assms(5) by (simp add: proto_at_def fn_at_def)
  ultimately show ?thesis using assms(1)
    by (cases "fr_kind f = FR_LUA"; cases "fr_kind f = FR_CONT") (simp_all add: frame_words_def)
qed

lemma write_frames_words:
  "write_frames V H co k fs W = Inr W' \<Longrightarrow> chain (v_fr2 V) tp pos fs e \<Longrightarrow> \<forall>i \<le> pos. W i = None \<Longrightarrow>
     \<forall>f \<in> set fs. frame_words H co f W'"
proof (induction fs arbitrary: k W pos)
  case (Cons f fs)
  let ?prv = "pos - fr_link f div 8"
  obtain W1 where w: "write_frame V H co k f W = Inr W1" "write_frames V H co (k + 1) fs W1 = Inr W'"
    using Cons.prems(1) by (auto simp: ebind_eq_Inr)
  have c: "fr_at f = pos" "v_fr2 V < pos" "fr_link f div 8 \<le> pos" "link_ok f" "chain (v_fr2 V) tp ?prv fs e"
    using Cons.prems(2) by auto
  have d: "\<forall>i. i \<le> ?prv \<or> pos < i \<or> i = pos - 1 \<longrightarrow> W1 i = W i" using write_frame_D [OF w(1) c(4)] c by auto
  then have n: "\<forall>i \<le> ?prv. W1 i = None" using Cons.prems(3) by simp
  note k = write_frames_D [OF w(2) c(5) n]
  have one: "frame_words H co f W1" using write_frame_words [OF w(1) c(4)] c(1,3) Cons.prems(3) by simp
  have "W' (?prv - 1) = W1 (?prv - 1)"
  proof (cases fs)
    case (Cons g gs)
    then have "fr_at g = ?prv" using c(5) by simp
    then have "W' (?prv - 1) = None" using k Cons by auto
    then show ?thesis using n by simp
  qed (use w(2) in simp)
  then have "frame_words H co f W'" using frame_words_keep [OF one c(4)] c(1,3) k by simp
  then show ?case using Cons.IH [OF w(2) c(5) n] by simp
qed simp

lemma frame_words_record:
  assumes "frame_words H co f W" "frec_ok V f" "frame_prev V H W (fr_at f) = Some (fr_at f - fr_link f div 8)"
    "fr_link f div 8 \<le> fr_at f" "fr_kind f \<in> {FR_C, FR_CP} \<longrightarrow> fr_at f - fr_link f div 8 \<le> v_fr2 V"
  shows "frame_record V H co W (fr_at f) = Inr f"
proof -
  have l: "8 * (fr_at f - (fr_at f - fr_link f div 8)) = fr_link f"
    using assms(2,4) by (auto simp: frec_ok_def)
  have eq: "f = \<lparr>fr_kind = fr_kind f, fr_cs = fr_cs f, fr_link = fr_link f, fr_bcofs = fr_bcofs f, fr_at = fr_at f\<rparr>" by simp
  show ?thesis
    unfolding frame_record_def assms(3) option.case frame_at_def using assms(1,2,5) l
    by (subst (9) eq) (auto simp: frame_words_def frec_ok_def split: if_split_asm)
qed

lemma derive_interior:
  "derive_chain fr2 tp k pos fs = Inr (gs, e) \<Longrightarrow> \<forall>f \<in> set fs. frec_ok V f \<Longrightarrow> 0 \<le> pos \<Longrightarrow>
     (\<forall>f \<in> set gs. frec_ok V f \<and> (fr_kind f \<in> {FR_C, FR_CP} \<longrightarrow> fr_at f - fr_link f div 8 = nat e))"
proof (induction fs arbitrary: k pos gs e)
  case (Cons f fs)
  let ?prev = "pos - int (fr_link f div 8)"
  obtain hs where r: "int fr2 \<le> ?prev" "derive_chain fr2 tp (k + 1) ?prev fs = Inr (hs, e)" "gs = f\<lparr>fr_at := nat pos\<rparr> # hs"
      "fr_kind f \<in> {FR_C, FR_CP} \<longrightarrow> fs = []"
    using Cons.prems(1) by (auto simp: Let_def ebind_eq_Inr split: if_split_asm)
  have "\<forall>f \<in> set hs. frec_ok V f \<and> (fr_kind f \<in> {FR_C, FR_CP} \<longrightarrow> fr_at f - fr_link f div 8 = nat e)"
    by (rule Cons.IH [OF r(2)]) (use r(1) Cons.prems(2) in auto)
  moreover have "frec_ok V (f\<lparr>fr_at := nat pos\<rparr>)" using Cons.prems(2) by (simp add: frec_ok_def link_ok_def)
  moreover have "fr_kind f \<in> {FR_C, FR_CP} \<longrightarrow> nat pos - fr_link f div 8 = nat e"
    using r(2,4) by auto
  ultimately show ?case unfolding r(3) by (auto simp del: nat_int_comparison)
qed simp

lemma r_frames_ok: "r_frames V n i = Inr (fs, r) \<Longrightarrow> \<forall>f \<in> set fs. frec_ok V f"
  by (induction n arbitrary: i fs) (auto simp: ebind_eq_Inr dest: r_frame_ok)

lemma u_frames_ok:
  assumes "u_frames V co status need base tp st = Inr (fs, W, st')" "1 + v_fr2 V \<le> base"
  shows "\<forall>f \<in> set fs. frec_ok V f \<and> (fr_kind f \<in> {FR_C, FR_CP} \<longrightarrow> fr_at f - fr_link f div 8 \<le> v_fr2 V)"
proof -
  obtain n sa where n: "ur r_uleb st = Inr (n, sa)" using assms(1) by (auto simp: u_frames_def ebind_eq_Inr)
  note a = assms(1) [unfolded u_frames_def n ebind_Inr prod.case if_Inl_iff]
  then obtain gs where g: "ur (r_frames V (unat n)) sa = Inr (gs, st')" "derive_frames V base tp gs = Inr fs"
    by (auto simp: ebind_eq_Inr)
  obtain e where d: "derive_chain (v_fr2 V) tp 0 (int base - 1) gs = Inr (fs, e)" "fs \<noteq> [] \<longrightarrow> e = int (v_fr2 V)"
    using g(2) by (auto simp: derive_frames_def ebind_eq_Inr split: if_split_asm)
  have "\<forall>f \<in> set gs. frec_ok V f" using g(1) r_frames_ok by (fastforce simp: ur_def ebind_eq_Inr)
  then have "\<forall>f \<in> set fs. frec_ok V f \<and> (fr_kind f \<in> {FR_C, FR_CP} \<longrightarrow> fr_at f - fr_link f div 8 = nat e)"
    using derive_interior [OF d(1)] assms(2) by simp
  then show ?thesis using d(2) by auto
qed

lemma frame_words_patched: "frame_words H co f W \<Longrightarrow> patched H H' \<Longrightarrow> frame_words H' co f W"
  unfolding frame_words_def by (simp only: patchedD(2))

text \<open>C6: A restored coroutine persists again as it was: read back from the stack the way \<open>p_thread\<close> reads it, every
  frame is the record it was restored from, none is refused, and the bytes it is then written as are read as
  that record again.\<close>

theorem frames_stable:
  assumes "u_stack V U st = Inr (r, st')" "f \<in> set (rs_frames r)"
  shows "frame_record V (u_heap st') (rs_co r) (rs_words r) (fr_at f) = Inr f
    \<and> (\<forall>E P P'. p_frame E f P = Inr P' \<longrightarrow>
         (\<exists>bs. w_out (p_w P') = w_out (p_w P) @ bs \<and> (\<forall>rest. r_frame V (bs @ rest) = Inr (f\<lparr>fr_at := 0\<rparr>, rest))))"
proof -
  obtain need sa sb where d: "1 + v_fr2 V \<le> rs_base r"
    "u_frames V (rs_co r) (rs_status r) need (rs_base r) (rs_top r) sa = Inr (rs_frames r, rs_words r, sb)"
    "patched (u_heap sb) (u_heap st')" using u_stack_D [OF assms(1)] by metis
  note u = u_frames_D [OF d(2)]
  have c: "chain (v_fr2 V) (rs_top r) (rs_base r - 1) (rs_frames r) (v_fr2 V)"
    and w: "write_frames V (u_heap sb) (rs_co r) 0 (rs_frames r) (\<lambda>_. None) = Inr (rs_words r)" using u d(1) by auto
  have ok: "frec_ok V f" "fr_kind f \<in> {FR_C, FR_CP} \<longrightarrow> fr_at f - fr_link f div 8 \<le> v_fr2 V"
    using u_frames_ok [OF d(2,1)] assms(2) by auto
  have "frame_words (u_heap sb) (rs_co r) f (rs_words r)" using write_frames_words [OF w c] assms(2) by simp
  then have fw: "frame_words (u_heap st') (rs_co r) f (rs_words r)" using frame_words_patched d(3) by blast
  have "writes_frame V (u_heap st') f (rs_words r)"
    using write_frames_D [OF w c] writes_patched [OF _ d(3)] assms(2) by auto
  then have prv: "frame_prev V (u_heap st') (rs_words r) (fr_at f) = Some (fr_at f - fr_link f div 8)" by (rule writes_prev)
  have "chain fr2 tp pos fs e \<Longrightarrow> f \<in> set fs \<Longrightarrow> fr_link f div 8 \<le> fr_at f" for fr2 tp pos fs e
    by (induction fs arbitrary: pos) auto
  then have "frame_record V (u_heap st') (rs_co r) (rs_words r) (fr_at f) = Inr f"
    using frame_words_record [OF fw ok(1) prv _ ok(2)] c assms(2) by blast
  then show ?thesis using p_frame_emits r_frame_bytes [OF ok(1)] unfolding emits_def by blast
qed

theorem frames_stable_witness:
  "case u_stack vm1 reader1 start1 of Inl e \<Rightarrow> False
   | Inr (r, st') \<Rightarrow> (\<exists>f g. rs_frames r = [f, g] \<and> frame_record vm1 (u_heap st') (rs_co r) (rs_words r) 8 = Inr f)"
proof (cases "u_stack vm1 reader1 start1")
  case (Inr p)
  obtain r st' where p: "p = (r, st')" by (cases p)
  note s = stack1 [unfolded Inr p, simplified]
  obtain f g where f: "rs_frames r = [f, g]" "fr_at f = 8" using s by auto
  then have "frame_record vm1 (u_heap st') (rs_co r) (rs_words r) (fr_at f) = Inr f"
    using frames_stable [of vm1 reader1 start1 r st' f] Inr p by simp
  then show ?thesis using Inr p f by simp
qed (use stack1 in simp)

text \<open>The same coroutine on the persisting side: its replay loop is found.\<close>

definition vmenv1 :: vmenv where
  "vmenv1 =
     \<lparr>x_trace = (\<lambda>_. None), x_kstr = (\<lambda>_ _. None), x_next = 99, x_layout = (\<lambda>_ _. \<lparr>y_array = [], y_node = []\<rparr>),
      x_keyindex = (\<lambda>_ _ _. 0xFFFFFFFF), x_raw = (\<lambda>_. LNil), x_mode = 0\<rparr>"

definition stack_heap1 :: heap where
  "stack_heap1 = heap4\<lparr>h_stack := (\<lambda>a i. if i = 2 then LObj 0 else if i = 4 then LObj 3 else if i = 5 then LObj 2 else if i = 7 then LObj 1 else LNil)\<rparr>"

definition coro1 :: coro where
  "coro1 = \<lparr>c_status = 1, c_base = 9, c_span = 40, c_word = [8 \<mapsto> WPc 7 3, 3 \<mapsto> WFtsz 16 5]\<rparr>"

theorem scan_complete_witness:
  "case elj_forin_scan vm1 vmenv1 stack_heap1 4 coro1 9 [8, 3] 1 of Inl e \<Rightarrow> False | Inr s \<Rightarrow> \<exists>r \<in> set (sc_recs s). fi_ctl r = 6"
proof -
  have c: "elj_forin_count vmenv1 stack_heap1 4 coro1 [8, 3] = Inr 1" by code_simp
  have ok: "case elj_forin_scan vm1 vmenv1 stack_heap1 4 coro1 9 [8, 3] 1 of Inl e \<Rightarrow> False | Inr s \<Rightarrow> True" by code_simp
  have f: "lua_frames stack_heap1 4 (c_word coro1) None [8, 3] = [(3, 7, 2)]" "loop_heads stack_heap1 7 = [1, 2, 3, 4]" by code_simp+
  have "marked_loop vm1 vmenv1 stack_heap1 4 (c_word coro1) 9 3 7 2 3 6"
    by (simp add: marked_loop_def elj_bc_orig_def stack_heap1_def heap4_def loop_proto_def coro1_def vm1_def is_tab_at_def
        is_replay_fn_def fn_at_def lua_type_def elj_loop_body_def bc_j_def Let_def)
  then show ?thesis using scan_complete [OF c, of vm1 9] ok f
    by (fastforce simp: coro1_def split: sum.split_asm sum.split)
qed

end
