(* ===== verification/ErisTop.thy ===== *)
theory ErisTop
  imports ErisGraph ErisFill ErisCo
begin

text \<open>
  serializer/eris_lj.c, the entry points: the settings, \<open>l_persist\<close>, \<open>l_unpersist\<close> with the blob's
  header, fingerprint and checksum. The build's fingerprint, the environments the permanents table
  given to a call leads to, and C's conversion of a double out of range are parameters.
\<close>

section \<open>Settings\<close>

definition ERIS_LJ_MAXREC_DEFAULT :: int where "ERIS_LJ_MAXREC_DEFAULT = 2000"
definition ERIS_LJ_MAXREC_MAX :: int where "ERIS_LJ_MAXREC_MAX = 2000"

definition lstr :: "string \<Rightarrow> lval" where
  "lstr s = LStr (map of_char s)"

definition setting_names :: "string list" where
  "setting_names = [''spkey'', ''path'', ''maxrec'', ''debug'', ''spio'', ''forin'']"

definition forin_modes :: "string list" where
  "forin_modes = [''ignore'', ''warn'', ''refuse'']"

definition push_default :: "nat \<Rightarrow> lval" where
  "push_default opt =
     (if opt = 0 then lstr ''__persist'' else if opt = 1 then LBool False else if opt = 2 then LNum (d_of_int ERIS_LJ_MAXREC_DEFAULT)
      else if opt = 3 then LBool True else if opt = 4 then LBool False else lstr ''ignore'')"

text \<open>The settings table by the index of the name; \<open>None\<close> before the first use.\<close>

type_synonym settings = "(nat \<Rightarrow> lval) option"

definition push_settings :: "settings \<Rightarrow> nat \<Rightarrow> lval" where
  "push_settings S = (case S of Some f \<Rightarrow> f | None \<Rightarrow> push_default)"

text \<open>\<open>c_tonumber\<close>: the number a string reads as; \<open>c_cast\<close>: C's conversion of a double to a 64-bit integer.\<close>

record conv =
  c_tonumber :: "byte list \<Rightarrow> double option"
  c_cast :: "double \<Rightarrow> int"

definition truthy :: "lval \<Rightarrow> bool" where
  "truthy v = (v \<noteq> LNil \<and> v \<noteq> LBool False)"

text \<open>\<open>luaL_checkoption\<close> and \<open>strcmp\<close> see a string up to its first NUL; a number's digits name no option.\<close>

fun index_of :: "lval \<Rightarrow> string list \<Rightarrow> nat option" where
  "index_of (LStr s) ss = find (\<lambda>i. takeWhile (\<lambda>c. c \<noteq> 0) s = map of_char (ss ! i)) [0..<length ss]"
| "index_of v ss = None"

definition checknumber :: "conv \<Rightarrow> lval \<Rightarrow> double option" where
  "checknumber C v = (case v of LNum n \<Rightarrow> Some n | LStr s \<Rightarrow> c_tonumber C s | _ \<Rightarrow> None)"

text \<open>The value is checked, then stored; the answer is the old one. \<open>arg\<close> is None when absent.\<close>

definition settings_check :: "conv \<Rightarrow> nat \<Rightarrow> lval \<Rightarrow> eris_err + unit" where
  "settings_check C opt v =
     (if opt = 0 then (case v of LStr s \<Rightarrow> Inr () | _ \<Rightarrow> Inl (Err ''bad argument'' [2]))
      else if opt = 2 then (if checknumber C v = None then Inl (Err ''bad argument'' [2]) else Inr ())
      else if opt = 4 then (if truthy v then Inl (Err ''the 'spio' setting is not supported'' []) else Inr ())
      else if opt = 5 then (if index_of v forin_modes = None then Inl (Err ''bad argument'' [2]) else Inr ())
      else Inr ())"

definition maxrec_of :: "conv \<Rightarrow> double \<Rightarrow> int" where
  "maxrec_of C v =
     (let iv = c_cast C v;
          iv = (if \<not> d_le (d_of_int 1) v then 1 else iv)
      in if iv > ERIS_LJ_MAXREC_MAX then ERIS_LJ_MAXREC_MAX else iv)"

definition l_settings :: "conv \<Rightarrow> lval \<Rightarrow> lval option \<Rightarrow> settings \<Rightarrow> eris_err + lval \<times> settings" where
  "l_settings C name arg S =
     (case index_of name setting_names of
        None \<Rightarrow> Inl (Err ''bad argument'' [1])
      | Some opt \<Rightarrow>
          ebind (case arg of Some v \<Rightarrow> if v = LNil then Inr () else settings_check C opt v | None \<Rightarrow> Inr ()) (\<lambda>_.
          let f = push_settings S; old = f opt in
          case arg of
            None \<Rightarrow> Inr (old, Some f)
          | Some v \<Rightarrow>
              let new = (if v = LNil then push_default opt
                         else if opt = 2 then LNum (d_of_int (maxrec_of C (case checknumber C v of Some n \<Rightarrow> n | None \<Rightarrow> 0)))
                         else v)
              in Inr (old, Some (f(opt := new)))))"

record loaded_settings =
  o_maxrec :: int
  o_debug :: bool
  o_forin :: nat
  o_spkey :: lval

definition load_settings :: "conv \<Rightarrow> settings \<Rightarrow> loaded_settings" where
  "load_settings C S =
     (let f = push_settings S;
          m = signed_take_bit 31 (case checknumber C (f 2) of Some n \<Rightarrow> c_cast C n | None \<Rightarrow> 0);
          m = (if m \<le> 0 then ERIS_LJ_MAXREC_DEFAULT else m);
          m = (if m > ERIS_LJ_MAXREC_MAX then ERIS_LJ_MAXREC_MAX else m)
      in \<lparr>o_maxrec = m, o_debug = truthy (f 3),
          o_forin = (case index_of (f 5) forin_modes of Some i \<Rightarrow> i | None \<Rightarrow> 0), o_spkey = f 0\<rparr>)"

section \<open>The fingerprint\<close>

text \<open>A mismatch names the field and both sides, quoted.\<close>

datatype top_err = TErr eris_err | FpMismatch nat "byte list" "byte list"

abbreviation BAR :: byte where "BAR \<equiv> 0x7c"

definition fp_quote :: "byte list \<Rightarrow> byte list" where
  "fp_quote p =
     [0x27] @ map (\<lambda>b. if b \<ge> 0x20 \<and> b < 0x7f then b else 0x3f) (take 64 p)
       @ (if length p > 64 then [0x2e, 0x2e, 0x2e] else []) @ [0x27]"

definition fp_report :: "nat \<Rightarrow> byte list \<Rightarrow> byte list \<Rightarrow> top_err" where
  "fp_report field b ours = FpMismatch (min field 4) (fp_quote b) (fp_quote ours)"

function fp_mismatch_loop :: "nat \<Rightarrow> byte list \<Rightarrow> byte list \<Rightarrow> top_err" where
  "fp_mismatch_loop field b ours =
     (let fb = takeWhile (\<lambda>c. c \<noteq> BAR) b; rb = dropWhile (\<lambda>c. c \<noteq> BAR) b;
          fo = takeWhile (\<lambda>c. c \<noteq> BAR) ours; ro = dropWhile (\<lambda>c. c \<noteq> BAR) ours
      in if fb \<noteq> fo then fp_report field fb fo
         else if rb = [] \<or> ro = [] then fp_report (field + 1) (tl rb) (tl ro)
         else fp_mismatch_loop (field + 1) (tl rb) (tl ro))"
  by pat_completeness auto
termination
proof (relation "measure (\<lambda>(field, b, ours). length b)", simp, goal_cases)
  case (1 field b ours fb rb fo ro)
  have "length rb \<le> length b" using 1(2) by (simp add: length_dropWhile_le)
  moreover have "rb \<noteq> []" using 1 by simp
  ultimately show ?case by (cases rb) auto
qed

declare fp_mismatch_loop.simps [simp del]

definition fp_mismatch :: "byte list \<Rightarrow> byte list \<Rightarrow> top_err" where
  "fp_mismatch ours b = fp_mismatch_loop 0 b ours"

section \<open>persist and unpersist\<close>

definition MAGIC :: "byte list" where "MAGIC = [0x45, 0x4C, 0x4A]"
definition ERIS_LJ_FORMAT :: nat where "ERIS_LJ_FORMAT = 3"

text \<open>What the build and the VM give a call: the fingerprint, the environments of the two directions and of
  coroutines, and how the permanents table on a heap is indexed.\<close>

record top =
  t_fp :: "byte list"
  t_conv :: conv
  t_penv :: penv
  t_uenv :: uenv
  t_venv :: venv
  t_vmenv :: vmenv
  t_perms :: "heap \<Rightarrow> addr \<Rightarrow> lval \<Rightarrow> lval"

definition lookup_perms :: "top \<Rightarrow> heap \<Rightarrow> addr option \<Rightarrow> lval \<Rightarrow> lval" where
  "lookup_perms T H perms = (case perms of None \<Rightarrow> (\<lambda>_. LNil) | Some a \<Rightarrow> t_perms T H a)"

text \<open>The arguments: one is the value, and the permanents are a new table; of two the first must be a table.\<close>

definition top_args :: "heap \<Rightarrow> lval list \<Rightarrow> eris_err + addr option \<times> lval" where
  "top_args H args =
     (if length args = 1 then Inr (None, args ! 0)
      else case args of
        LObj a # vs \<Rightarrow>
          if lua_type H (LObj a) \<noteq> 5 then Inl (Err ''bad argument'' [1])
          else if length vs = 1 then Inr (Some a, vs ! 0)
          else if vs = [] then Inl (Err ''bad argument'' [1])
          else Inl (Err ''too many arguments'' [3])
      | _ \<Rightarrow> Inl (Err ''bad argument'' [1]))"


definition restore_env :: "top \<Rightarrow> heap \<Rightarrow> addr option \<Rightarrow> nat \<Rightarrow> uenv" where
  "restore_env T K perms inlen =
     (t_uenv T)\<lparr>f_uperms := lookup_perms T K perms, f_inlen := inlen, f_thread := u_thread (t_venv T), f_fr2 := v_fr2 (t_venv T)\<rparr>"

definition fill_env :: "top \<Rightarrow> heap \<Rightarrow> addr option \<Rightarrow> fenv" where
  "fill_env T K perms =
     \<lparr>l_perms = (case perms of
          None \<Rightarrow> []
        | Some a \<Rightarrow> (case h_obj K a of Some (OTab ps mt) \<Rightarrow> map snd ps | _ \<Rightarrow> [])),
      l_fr2 = v_fr2 (t_venv T), l_call = e_call (t_penv T)\<rparr>"



text \<open>\<open>body_of\<close> is the part of the input the records are read from: empty when the header reaches into
  the checksum, where \<open>r_need\<close> refuses every read as it does at the end of the input.\<close>

definition body_of :: "nat \<Rightarrow> byte list \<Rightarrow> byte list" where
  "body_of fplen b = drop (5 + fplen) (take (length b - 4) b)"

definition l_check_blob :: "top \<Rightarrow> byte list \<Rightarrow> top_err + byte list" where
  "l_check_blob T b =
     (let inlen = length b in
      if inlen < 9 then Inl (TErr (Err ''data too short to be a valid blob'' []))
      else if take 3 b \<noteq> MAGIC then Inl (TErr (Err ''bad magic (not an eris-lj blob)'' []))
      else if unat (b ! 3) \<noteq> ERIS_LJ_FORMAT then Inl (TErr (Err ''format version mismatch'' [int ERIS_LJ_FORMAT]))
      else let fplen = unat (b ! 4) in
        if 5 + fplen > inlen then Inl (TErr (Err ''data too short to be a valid blob'' []))
        else if b ! 4 \<noteq> of_nat (length (t_fp T)) \<or> take fplen (drop 5 b) \<noteq> take fplen (t_fp T)
        then Inl (fp_mismatch (t_fp T) (take fplen (drop 5 b)))
        else ebind (case r_u32le (drop (inlen - 4) b) of Inl e \<Rightarrow> Inl (TErr e) | Inr r \<Rightarrow> Inr r) (\<lambda>(stored, _).
          if stored \<noteq> eris_crc32 (take (inlen - 4) b) then Inl (TErr (Err ''checksum mismatch (corrupt data)'' []))
          else Inr (body_of fplen b)))"

definition l_unpersist :: "top \<Rightarrow> settings \<Rightarrow> heap \<Rightarrow> lval list \<Rightarrow> top_err + lval \<times> heap" where
  "l_unpersist T S K args =
     (case top_args K args of
        Inl e \<Rightarrow> Inl (TErr e)
      | Inr (perms, LStr b) \<Rightarrow>
          let ls = load_settings (t_conv T) S; F = restore_env T K perms (length b - 4) in
          ebind (l_check_blob T b) (\<lambda>body.
            case unpersist F (nat (o_maxrec ls)) (ust_start body K) of
              Inl e \<Rightarrow> Inl (TErr e)
            | Inr (v, U) \<Rightarrow>
                if u_in U \<noteq> [] then Inl (TErr (Err ''trailing bytes after the value'' [int (length (u_in U))]))
                else (case elj_fill (fill_env T K perms) (u_fill U) (u_heap U) of
                        Inl e \<Rightarrow> Inl (TErr e) | Inr K' \<Rightarrow> Inr (v, K')))
      | Inr (perms, _) \<Rightarrow> Inl (TErr (Err ''bad argument'' [2])))"

section \<open>The checksum over header and body\<close>

lemma burst_bytes: "burst w = word_of_bytes w"
proof (induction w)
  case (Cons b w)
  have "ucast b XOR push_bit 8 (burst w) = push_bit 8 (burst w) OR ucast b"
    by (rule bit_word_eqI) (auto simp: bit_xor_iff bit_or_iff bit_push_bit_iff bit_ucast_byte)
  then show ?case using Cons by (simp add: burst_def or_push_byte)
qed (simp add: burst_def)

lemma r_u32le_4: "length c = 4 \<Longrightarrow> r_u32le c = Inr (word_of_bytes c, [])"
  using r_u32le_u32le [of "word_of_bytes c" "[]"] word_bytes_word_of_bytes [where 'a = 32, of c]
  by (simp add: u32le_bytes_def word_bytes_map)

lemma u32le_word: "length c = 4 \<Longrightarrow> u32le_bytes (word_of_bytes c) = c"
  using word_bytes_word_of_bytes [where 'a = 32, of c] by (simp add: u32le_bytes_def word_bytes_map)

text \<open>A checksum after what it sums leaves the register in one state, whatever was summed.\<close>

definition sealed :: "byte list \<Rightarrow> bool" where
  "sealed b = (foldl crc_byte 0xFFFFFFFF b = (crc_bit ^^ 32) (NOT 0))"

lemma sealed_iff: "length c = 4 \<Longrightarrow> sealed (p @ c) \<longleftrightarrow> word_of_bytes c = eris_crc32 p"
proof -
  assume c: "length c = 4"
  have x: "a XOR w = NOT 0 \<longleftrightarrow> w = NOT a" for a w :: u32
  proof
    assume "a XOR w = NOT 0"
    then have "a XOR (a XOR w) = a XOR NOT 0" by simp
    then show "w = NOT a" by (simp add: xor.assoc [symmetric])
  qed (simp add: bit_eq_iff bit_xor_iff bit_not_iff)
  show ?thesis using c x by (simp add: sealed_def crc_fold_burst crc_bits_inj burst_bytes eris_crc32_def)
qed

lemma sealed_burst:
  assumes "sealed (u @ v @ x)" "sealed (u @ w @ x)" "length v = length w" "length w \<le> 4"
  shows "v = w"
proof (rule ccontr)
  assume "v \<noteq> w"
  then show False using crc_burst [OF assms(3,4), of u x] assms(1,2) by (simp add: sealed_def eris_crc32_def)
qed

text \<open>What an accepted input is: header, body, checksum of both.\<close>

definition header :: "top \<Rightarrow> byte list" where
  "header T = MAGIC @ [of_nat ERIS_LJ_FORMAT, of_nat (length (t_fp T))] @ t_fp T"

definition blob :: "top \<Rightarrow> byte list \<Rightarrow> byte list" where
  "blob T body = header T @ body @ u32le_bytes (eris_crc32 (header T @ body))"

lemma unat_fplen: "length (t_fp T) \<le> 255 \<Longrightarrow> unat (of_nat (length (t_fp T)) :: byte) = length (t_fp T)"
  by (simp add: unat_of_nat take_bit_nat_eq_self)


lemma check_blob_D:
  assumes "l_check_blob T b = Inr body" "body \<noteq> []" "length (t_fp T) \<le> 255"
  shows "b = blob T body"
proof -
  let ?n = "length b - 4" and ?k = "length (t_fp T)"
  note c = assms(1) [unfolded l_check_blob_def Let_def]
  have n: "9 \<le> length b" "take 3 b = MAGIC" "unat (b ! 3) = 3" "b ! 4 = of_nat ?k" "take ?k (drop 5 b) = t_fp T"
    "body = drop (5 + ?k) (take ?n b)"
    using c unat_fplen [OF assms(3)] by (auto simp: ERIS_LJ_FORMAT_def body_of_def split: if_splits sum.splits)
  have l: "length (drop ?n b) = 4" using n(1) by simp
  have s: "word_of_bytes (drop ?n b) = eris_crc32 (take ?n b)"
    using c r_u32le_4 [OF l] by (auto split: if_splits)
  have k: "5 + ?k < ?n" using n(6) assms(2) by auto
  have "take 5 b = MAGIC @ [of_nat ERIS_LJ_FORMAT, of_nat ?k]"
  proof -
    have "take 5 b = take 3 b @ [b ! 3, b ! 4]" using n(1) by (simp add: take_Suc_conv_app_nth numeral_eq_Suc)
    moreover have "b ! 3 = of_nat ERIS_LJ_FORMAT" using n(3) by (metis ERIS_LJ_FORMAT_def of_nat_unat ucast_id)
    ultimately show ?thesis using n(2,4) by simp
  qed
  then have "take (5 + ?k) b = header T" using n(5) k by (simp add: take_add header_def)
  moreover have "take ?n b = take (5 + ?k) b @ body" using k n(6) by (simp add: drop_take take_add [symmetric])
  ultimately have t: "take ?n b = header T @ body" by simp
  have "b = take ?n b @ u32le_bytes (eris_crc32 (take ?n b))"
    using u32le_word [OF l] s by simp
  then show ?thesis using t by (simp add: blob_def)
qed

section \<open>The two entry points together\<close>

lemma top_args_last: "top_args K (ps @ [x]) = Inr (perms, y) \<Longrightarrow> y = x \<and> (\<forall>z. top_args K (ps @ [z]) = Inr (perms, z))"
  by (cases ps; cases "tl ps") (auto simp: top_args_def split: lval.splits if_splits)




lemma unpersist_D:
  assumes "l_unpersist T S K args = Inr (v, K')" "length (t_fp T) \<le> 255"
  obtains perms body where "top_args K args = Inr (perms, LStr (blob T body))"
proof -
  obtain perms b body where r: "top_args K args = Inr (perms, LStr b)" "l_check_blob T b = Inr body"
  proof (cases "top_args K args")
    case (Inr p)
    obtain perms y where p: "p = (perms, y)" by (cases p)
    obtain b where y: "y = LStr b" using assms(1) Inr p by (cases y) (simp_all add: l_unpersist_def)
    obtain body where "l_check_blob T b = Inr body"
      using assms(1) Inr p y by (cases "l_check_blob T b") (simp_all add: l_unpersist_def Let_def)
    then show ?thesis using that Inr p y by blast
  qed (use assms(1) in \<open>simp add: l_unpersist_def\<close>)
  have e: "unpersist F n (ust_start [] K) = Inl (ETruncated 1 0)" for F n
    by (cases n) (simp_all add: ur_def r_need_def ust_start_def)
  have "body \<noteq> []" using assms(1) r e by (auto simp: l_unpersist_def Let_def)
  then show ?thesis using check_blob_D [OF r(2) _ assms(2)] r(1) that by blast
qed

lemma blob_sealed: "sealed (blob T body)"
proof -
  have "length (u32le_bytes c) = 4" for c by (simp add: u32le_bytes_def)
  moreover have "word_of_bytes (u32le_bytes c) = c" for c
    using word_of_bytes_word_bytes [of 4 c] by (simp add: u32le_bytes_def word_bytes_map)
  ultimately show ?thesis using sealed_iff [of "u32le_bytes _" "header T @ body"] by (simp add: blob_def)
qed

text \<open>C3: \<open>eris.unpersist\<close> accepts nothing but a header with this build's fingerprint, a body, and the
  checksum of both; and a blob it accepts is refused after any change to up to four consecutive bytes
  of it, wherever they are: in the header, the body or the checksum itself.\<close>

theorem tamper_refused:
  assumes "l_unpersist T S K (ps @ [LStr (u @ v @ x)]) = Inr r" "length (t_fp T) \<le> 255"
  shows "(\<exists>body. u @ v @ x = blob T body)
    \<and> (\<forall>w. length w = length v \<and> length w \<le> 4 \<and> w \<noteq> v \<longrightarrow>
          (\<exists>e. l_unpersist T S' K (ps @ [LStr (u @ w @ x)]) = Inl e))"
proof (intro conjI allI impI)
  obtain perms body where b: "top_args K (ps @ [LStr (u @ v @ x)]) = Inr (perms, LStr (blob T body))"
    using assms(1) by (metis prod.collapse unpersist_D [OF _ assms(2)])
  then show t: "\<exists>body. u @ v @ x = blob T body" using top_args_last [OF b] by (intro exI [of _ body]) simp
  fix w assume w: "length w = length v \<and> length w \<le> 4 \<and> w \<noteq> v"
  show "\<exists>e. l_unpersist T S' K (ps @ [LStr (u @ w @ x)]) = Inl e"
  proof (cases "l_unpersist T S' K (ps @ [LStr (u @ w @ x)])")
    case (Inr q)
    then obtain perms' body' where c: "top_args K (ps @ [LStr (u @ w @ x)]) = Inr (perms', LStr (blob T body'))"
      by (metis prod.collapse unpersist_D [OF _ assms(2)])
    then have "sealed (u @ w @ x)" using top_args_last [OF c] blob_sealed [of T body'] by simp
    moreover have "sealed (u @ v @ x)" using t blob_sealed by auto
    ultimately show ?thesis using sealed_burst w by metis
  qed blast
qed

section \<open>The recursion limit that is enforced\<close>

text \<open>C's conversion of a double: the integral part where it fits 64 bits.\<close>

definition cast_ok :: "conv \<Rightarrow> bool" where
  "cast_ok C = (\<forall>d. d_le (d_of_int 1) d \<longrightarrow> d_less d (d_of_int (2 ^ 63)) \<longrightarrow> c_cast C d = d_trunc d)"

lemma d_of_int_1: "fp_rat (dval (d_of_int 1)) = Some 1"
  using d_of_int_rat_small [of 1] by simp

lemma cast_small:
  assumes "cast_ok C" "1 \<le> i" "i \<le> 2000"
  shows "c_cast C (d_of_int i) = i"
proof -
  have r: "fp_rat (dval (d_of_int i)) = Some (of_int i)" using assms by (intro d_of_int_rat_small) auto
  have l: "d_le (d_of_int 1) (d_of_int i)"
    using assms(2) fp_less_rat [OF d_of_int_1 r] fp_eq_rat [OF d_of_int_1 r] by (auto simp: d_le_def d_less_def d_eq_def)
  have h: "d_less (d_of_int i) (d_of_int (2 ^ 63))"
    using assms(3) fp_less_rat [OF r d_of_int_2p63(1)] by (simp add: d_less_def)
  show ?thesis using assms l h d_trunc_small [of i] by (simp add: cast_ok_def)
qed

lemma trunc_pos: "d_le (d_of_int 1) n \<Longrightarrow> d_less n (d_of_int (2 ^ 63)) \<Longrightarrow> 1 \<le> d_trunc n"
proof -
  assume a: "d_le (d_of_int 1) n" "d_less n (d_of_int (2 ^ 63))"
  obtain r where r: "fp_rat (dval n) = Some r"
  proof (cases "dval n")
    case (FInf s)
    have "fp_less (FInf False) (dval (d_of_int (2 ^ 63))) = False" "fp_less (dval (d_of_int 1)) (FInf True) = False"
        "fp_eq (dval (d_of_int 1)) (FInf True) = False"
      using d_of_int_2p63(1) d_of_int_1 by (cases "dval (d_of_int (2 ^ 63))"; cases "dval (d_of_int 1)"; simp)+
    then show ?thesis using a FInf by (cases s) (simp_all add: d_le_def d_less_def d_eq_def)
  qed (use a that in \<open>auto simp: d_less_def\<close>)
  have "1 \<le> r" using a(1) fp_less_rat [OF d_of_int_1 r] fp_eq_rat [OF d_of_int_1 r]
    by (auto simp: d_le_def d_less_def d_eq_def)
  then show ?thesis using d_trunc_rat [OF r] by (simp add: rat_trunc_def)
qed

lemma index_maxrec: "index_of (lstr ''maxrec'') setting_names = Some 2"
  by code_simp

lemma settings_get: "l_settings C (lstr ''maxrec'') None (Some f) = Inr (f 2, Some f)"
  by (simp add: l_settings_def index_maxrec push_settings_def Let_def)

lemma settings_set:
  assumes "checknumber C v = Some n"
  shows "l_settings C (lstr ''maxrec'') (Some v) S =
    Inr (push_settings S 2, Some ((push_settings S)(2 := LNum (d_of_int (maxrec_of C n)))))"
proof -
  have "v \<noteq> LNil" using assms by (auto simp: checknumber_def)
  then show ?thesis using assms by (simp add: l_settings_def index_maxrec settings_check_def Let_def)
qed

lemma load_maxrec:
  assumes "cast_ok C" "1 \<le> i" "i \<le> 2000"
  shows "o_maxrec (load_settings C (Some (f(2 := LNum (d_of_int i))))) = i"
proof -
  have "signed_take_bit 31 i = i" using assms by (intro signed_take_bit_int_eq_self) auto
  then show ?thesis using assms
    by (simp add: load_settings_def push_settings_def checknumber_def cast_small Let_def ERIS_LJ_MAXREC_MAX_def)
qed

text \<open>Past \<open>2 ^ 63\<close> the conversion is undefined; where it gives the least 64-bit integer, that is what is stored.\<close>

lemma settings_huge:
  assumes "checknumber C v = Some n" "d_le (d_of_int 1) n" "c_cast C n = - (2 ^ 63)"
    "c_cast C (d_of_int (- (2 ^ 63))) = - (2 ^ 63)"
  shows "\<exists>old S'. l_settings C (lstr ''maxrec'') (Some v) S = Inr (old, S')
    \<and> l_settings C (lstr ''maxrec'') None S' = Inr (LNum (d_of_int (- (2 ^ 63))), S')
    \<and> o_maxrec (load_settings C S') = 2000"
proof -
  have m: "maxrec_of C n = - (2 ^ 63)" using assms by (simp add: maxrec_of_def ERIS_LJ_MAXREC_MAX_def Let_def)
  have t: "signed_take_bit 31 (- (2 ^ 63) :: int) = 0" by code_simp
  show ?thesis using assms(4) t unfolding settings_set [OF assms(1)] m
    by (simp add: settings_get load_settings_def push_settings_def checknumber_def
        ERIS_LJ_MAXREC_DEFAULT_def ERIS_LJ_MAXREC_MAX_def Let_def)
qed

text \<open>C40: Whatever is stored, a call runs under a recursion limit from 1 to 2000. A \<open>maxrec\<close> setting below
  \<open>2 ^ 63\<close> is accepted and normalised: a value below 1 and NaN are 1, others are cut to whole numbers and to 2000 at
  most; and the limit the next call enforces is the one the getter reports. For a value from \<open>2 ^ 63\<close> on, where the
  conversion gives the least 64-bit integer, the getter reports that while 2000 is enforced.\<close>

theorem maxrec_enforced:
  assumes "cast_ok C"
  shows "1 \<le> o_maxrec (load_settings C S) \<and> o_maxrec (load_settings C S) \<le> 2000
    \<and> (\<forall>v n. checknumber C v = Some n \<and> (d_le (d_of_int 1) n \<longrightarrow> d_less n (d_of_int (2 ^ 63))) \<longrightarrow>
        (let m = if d_le (d_of_int 1) n then min 2000 (d_trunc n) else 1 in
         \<exists>old S'. l_settings C (lstr ''maxrec'') (Some v) S = Inr (old, S')
           \<and> l_settings C (lstr ''maxrec'') None S' = Inr (LNum (d_of_int m), S')
           \<and> o_maxrec (load_settings C S') = m))
    \<and> (\<forall>v n. checknumber C v = Some n \<and> d_le (d_of_int 1) n \<and> c_cast C n = - (2 ^ 63)
           \<and> c_cast C (d_of_int (- (2 ^ 63))) = - (2 ^ 63) \<longrightarrow>
        (\<exists>old S'. l_settings C (lstr ''maxrec'') (Some v) S = Inr (old, S')
           \<and> l_settings C (lstr ''maxrec'') None S' = Inr (LNum (d_of_int (- (2 ^ 63))), S')
           \<and> o_maxrec (load_settings C S') = 2000))"
proof (intro conjI allI impI)
  show "1 \<le> o_maxrec (load_settings C S)" "o_maxrec (load_settings C S) \<le> 2000"
    by (simp_all add: load_settings_def ERIS_LJ_MAXREC_DEFAULT_def ERIS_LJ_MAXREC_MAX_def Let_def)
  fix v n
  assume v: "checknumber C v = Some n \<and> (d_le (d_of_int 1) n \<longrightarrow> d_less n (d_of_int (2 ^ 63)))"
  let ?m = "if d_le (d_of_int 1) n then min 2000 (d_trunc n) else 1"
  have m: "maxrec_of C n = ?m"
    using assms v by (simp add: maxrec_of_def cast_ok_def ERIS_LJ_MAXREC_MAX_def Let_def)
  have r: "1 \<le> ?m" "?m \<le> 2000" using trunc_pos v by auto
  show "let m = ?m in
         \<exists>old S'. l_settings C (lstr ''maxrec'') (Some v) S = Inr (old, S')
           \<and> l_settings C (lstr ''maxrec'') None S' = Inr (LNum (d_of_int m), S')
           \<and> o_maxrec (load_settings C S') = m"
    using v r by (simp add: settings_set settings_get load_maxrec [OF assms] m Let_def)
qed (use settings_huge in blast)

section \<open>What a fingerprint mismatch names\<close>

lemma split_bar:
  "BAR \<notin> set (takeWhile (\<lambda>c. c \<noteq> BAR) b)"
  "dropWhile (\<lambda>c. c \<noteq> BAR) b = [] \<or> (\<exists>r. dropWhile (\<lambda>c. c \<noteq> BAR) b = BAR # r)"
proof -
  show "BAR \<notin> set (takeWhile (\<lambda>c. c \<noteq> BAR) b)" using set_takeWhileD by fastforce
  show "dropWhile (\<lambda>c. c \<noteq> BAR) b = [] \<or> (\<exists>r. dropWhile (\<lambda>c. c \<noteq> BAR) b = BAR # r)"
    using hd_dropWhile [of "\<lambda>c. c \<noteq> BAR" b] by (cases "dropWhile (\<lambda>c. c \<noteq> BAR) b") auto
qed

text \<open>\<open>b\<close> has \<open>p\<close>, then the field \<open>x\<close>.\<close>

definition field_at :: "byte list \<Rightarrow> byte list \<Rightarrow> byte list \<Rightarrow> bool" where
  "field_at b p x = (BAR \<notin> set x \<and> (p = [] \<or> last p = BAR) \<and> (\<exists>r. b = p @ x @ r \<and> (r = [] \<or> hd r = BAR)))"

definition names_difference :: "nat \<Rightarrow> byte list \<Rightarrow> byte list \<Rightarrow> byte list \<Rightarrow> byte list \<Rightarrow> bool" where
  "names_difference k b ours x y =
     ((\<exists>p. count_list p BAR = k \<and> field_at b p x \<and> field_at ours p y \<and> x \<noteq> y)
      \<or> (k = count_list b BAR + 1 \<and> ours = b @ [BAR] @ y \<and> x = [])
      \<or> (k = count_list ours BAR + 1 \<and> b = ours @ [BAR] @ x \<and> y = []))"

lemma names_start: "BAR \<notin> set x \<Longrightarrow> BAR \<notin> set y \<Longrightarrow> x \<noteq> y \<Longrightarrow> r = [] \<or> hd r = BAR \<Longrightarrow> s = [] \<or> hd s = BAR \<Longrightarrow>
  names_difference 0 (x @ r) (y @ s) x y"
  unfolding names_difference_def by (intro disjI1 exI [of _ "[]"]) (auto simp: field_at_def)

lemma names_cons:
  assumes "names_difference k b ours x y" "BAR \<notin> set f"
  shows "names_difference (Suc k) (f @ BAR # b) (f @ BAR # ours) x y"
proof -
  have f: "field_at (f @ BAR # c) (f @ BAR # p) z" if "field_at c p z" for c p z
    using that by (auto simp: field_at_def)
  consider p where "count_list p BAR = k" "field_at b p x" "field_at ours p y" "x \<noteq> y"
    | "k = count_list b BAR + 1" "ours = b @ [BAR] @ y" "x = []"
    | "k = count_list ours BAR + 1" "b = ours @ [BAR] @ x" "y = []"
    using assms(1) by (auto simp: names_difference_def)
  then show ?thesis
  proof cases
    case 1
    then show ?thesis unfolding names_difference_def
      by (intro disjI1 exI [of _ "f @ BAR # p"]) (simp add: f count_notin [OF assms(2)])
  qed (simp_all add: names_difference_def count_notin [OF assms(2)])
qed

lemma fp_loop_names:
  "b \<noteq> ours \<Longrightarrow> \<exists>k x y. fp_mismatch_loop field b ours = fp_report (field + k) x y \<and> names_difference k b ours x y"
proof (induction field b ours rule: fp_mismatch_loop.induct)
  case (1 field b ours)
  define fb rb fo ro where d: "fb = takeWhile (\<lambda>c. c \<noteq> BAR) b" "rb = dropWhile (\<lambda>c. c \<noteq> BAR) b"
    "fo = takeWhile (\<lambda>c. c \<noteq> BAR) ours" "ro = dropWhile (\<lambda>c. c \<noteq> BAR) ours"
  have b: "b = fb @ rb" and o: "ours = fo @ ro" by (simp_all add: d)
  have n: "BAR \<notin> set fb" "BAR \<notin> set fo" "rb = [] \<or> (\<exists>r. rb = BAR # r)" "ro = [] \<or> (\<exists>r. ro = BAR # r)"
    using split_bar d by simp_all
  have e: "fp_mismatch_loop field b ours =
      (if fb \<noteq> fo then fp_report field fb fo
       else if rb = [] \<or> ro = [] then fp_report (field + 1) (tl rb) (tl ro)
       else fp_mismatch_loop (field + 1) (tl rb) (tl ro))"
    unfolding d by (rule fp_mismatch_loop.simps [of field b ours, unfolded Let_def])
  consider "fb \<noteq> fo" | "fb = fo" "rb = []" "ro \<noteq> []" | "fb = fo" "rb \<noteq> []" "ro = []" | "fb = fo" "rb \<noteq> []" "ro \<noteq> []"
    using 1(2) b o by auto
  then show ?case
  proof cases
    case 1
    have "names_difference 0 b ours fb fo" using names_start [of fb fo rb ro] n 1 b o by auto
    then show ?thesis using e 1 by (intro exI [of _ 0] exI [of _ fb] exI [of _ fo]) simp
  next
    case 2
    then obtain r where "ro = BAR # r" using n(4) by auto
    then have "names_difference 1 b ours [] r" using 2 b o n(1) by (simp add: names_difference_def count_notin)
    then show ?thesis using e 2 \<open>ro = BAR # r\<close> by (intro exI [of _ 1] exI [of _ "[]"] exI [of _ r]) simp
  next
    case 3
    then obtain r where "rb = BAR # r" using n(3) by auto
    then have "names_difference 1 b ours r []" using 3 b o n(2) by (simp add: names_difference_def count_notin)
    then show ?thesis using e 3 \<open>rb = BAR # r\<close> by (intro exI [of _ 1] exI [of _ r] exI [of _ "[]"]) simp
  next
    case 4
    then obtain r s where r: "rb = BAR # r" "ro = BAR # s" using n(3,4) by auto
    then have "r \<noteq> s" using 1(2) 4 b o by auto
    then obtain k x y where k: "fp_mismatch_loop (field + 1) r s = fp_report (field + 1 + k) x y" "names_difference k r s x y"
      using 1(1) [OF d] 4 r by auto
    then have "names_difference (Suc k) b ours x y" using names_cons [OF k(2) n(1)] 4 r b o by simp
    then show ?thesis using e 4 r k(1) by (intro exI [of _ "Suc k"] exI [of _ x] exI [of _ y]) simp
  qed
qed

text \<open>C40: A blob of another build is refused with the first field of the fingerprint that differs: the fields
  before it are equal, the two sides quoted are the field's texts in the blob and in this build (or, where one
  fingerprint ends, nothing and all the other has more), and a field past the four named ones is an extra field.\<close>

theorem fingerprint_names_field:
  assumes "b \<noteq> t_fp T"
  shows "\<exists>k x y. fp_mismatch (t_fp T) b = FpMismatch (min k 4) (fp_quote x) (fp_quote y) \<and> names_difference k b (t_fp T) x y"
  using fp_loop_names [OF assms, of 0] by (auto simp: fp_mismatch_def fp_report_def)

theorem fingerprint_names_field_witness:
  "\<exists>k x y. fp_mismatch [76, 124, 50] [76, 124, 51] = FpMismatch (min k 4) (fp_quote x) (fp_quote y)
     \<and> names_difference k [76, 124, 51] [76, 124, 50] x y"
  using fingerprint_names_field [of "[76, 124, 51]" "\<lparr>t_fp = [76, 124, 50], t_conv = T1, t_penv = T2, t_uenv = T3, t_venv = T5, t_vmenv = T6, t_perms = T4\<rparr>" for T1 T2 T3 T4 T5 T6] by simp

section \<open>One build\<close>

text \<open>A build, a heap with a permanents table beside \<open>world1\<close>'s objects, and one to restore onto.\<close>

definition conv1 :: conv where "conv1 = \<lparr>c_tonumber = (\<lambda>_. None), c_cast = d_trunc\<rparr>"

definition top1 :: top where
  "top1 =
     \<lparr>t_fp = [76, 124, 50], t_conv = conv1, t_penv = g_E world1, t_uenv = g_F world1, t_venv = vm1, t_vmenv = vmenv1,
      t_perms = (\<lambda>H a v. if a = 3 then if v = LObj 2 then LStr [80] else LNil
                          else if v = LStr [80] then LObj 0 else LNil)\<rparr>"

definition settings1 :: settings where
  "settings1 = Some (push_default(2 := LNum (d_of_int 10)))"


definition heap2 :: heap where
  "heap2 = heap1\<lparr>h_obj := (h_obj heap1)(1 \<mapsto> OTab [(LStr [80], LObj 0)] None), h_next := 2\<rparr>"









theorem tamper_refused_witness:
  "\<exists>e. l_unpersist top1 settings1 heap2 ([] @ [LStr (take 8 (blob top1 [TAG_NIL]) @ [TAG_TRUE] @ drop 9 (blob top1 [TAG_NIL]))]) = Inl e"
proof -
  have "(case l_unpersist top1 settings1 heap2 ([] @ [LStr (take 8 (blob top1 [TAG_NIL]) @ [TAG_NIL] @ drop 9 (blob top1 [TAG_NIL]))]) of
           Inr r \<Rightarrow> True | Inl e \<Rightarrow> False)"
    by code_simp
  then obtain r where "l_unpersist top1 settings1 heap2 ([] @ [LStr (take 8 (blob top1 [TAG_NIL]) @ [TAG_NIL] @ drop 9 (blob top1 [TAG_NIL]))]) = Inr r"
    by (cases "l_unpersist top1 settings1 heap2 ([] @ [LStr (take 8 (blob top1 [TAG_NIL]) @ [TAG_NIL] @ drop 9 (blob top1 [TAG_NIL]))])") auto
  then show ?thesis by (rule tamper_refused [THEN conjunct2, rule_format]) (simp_all add: top1_def TAG_TRUE_def TAG_NIL_def)
qed

theorem maxrec_enforced_witness:
  "\<exists>old S'. l_settings conv1 (lstr ''maxrec'') (Some (LNum (d_of_int 5000))) None = Inr (old, S')
     \<and> o_maxrec (load_settings conv1 S') = 2000"
proof -
  have c: "cast_ok conv1" by (simp add: cast_ok_def conv1_def)
  have v: "checknumber conv1 (LNum (d_of_int 5000)) = Some (d_of_int 5000)" by (simp add: checknumber_def)
  have "d_le (d_of_int 1) (d_of_int 5000)" "d_less (d_of_int 5000) (d_of_int (2 ^ 63))" "d_trunc (d_of_int 5000) = 5000"
    by code_simp+
  then show ?thesis using maxrec_enforced [OF c, of None, THEN conjunct2, THEN conjunct2, THEN conjunct1, rule_format, of "LNum (d_of_int 5000)"] v
    by (auto simp: Let_def)
qed

end
