(* ===== verification/Spec2Isabelle.thy ===== *)
theory Spec2Isabelle
  imports StrpackSpec BitWidth ShimBit32 ShimMem ShimStats ShimWd ShimVgc ShimSetup ShimLife ErisTop ErisForin
begin

text \<open>
  OC-LuaJIT: a LuaJIT that an OpenComputers machine can run on. The repository's own C is in three
  places, and this development models each of them.

  \<^item> native/luajit/: changes to LuaJIT itself. oclj\_num53.h reads values as Lua 5.3 integers;
    oclj\_bitop.h, oclj\_bitop\_meta.c, oclj\_bitop\_rec.c and oclj\_bitop\_fold.c are 5.3's
    bitwise operators in the interpreter and in the trace compiler; oclj\_strpack.c is
    string.pack, string.packsize and string.unpack.
  \<^item> native/lj52shim.c (with lj52shim.h): the Lua 5.2 C API on LuaJIT for the Java side. It owns the
    machine's memory (an accounting allocator with a cap, and the emergency collector that makes
    room at the cap) and its deadline watchdog; it creates and closes states, pushes C functions so
    that no push is refused, gives 5.2's operators, bit32 and unsigned accessors, tells Java of
    finalized values, and publishes instruments.
  \<^item> serializer/eris_lj.c: eris.persist and eris.unpersist, which write a machine's whole object
    graph, coroutines included, to a string and rebuild it.

  \<^bold>\<open>Theories.\<close> A theory's definitions carry the names of the C functions; a part of a function that
  became a definition of its own is named after what it does.

  \<^item> Prelude: the C types as words, errors as the left of a sum (\<open>ebind\<close>), little-endian
    bytes. Ieee: doubles and floats as their bits, with the operations the C code uses; IeeeArith:
    where they are exact, and how near they are elsewhere. Machine: the
    locale of a transition system with an invariant; ShimMem, ShimWd, ShimVgc, ShimApi and ShimLife
    interpret it.
  \<^item> Num53: integers from doubles and from numerals. Bitop: the operators' rules and the
    interpreter's slow path with its errors. BitJit: the trace compiler's IR, the recorder and the
    fold rules' bound; BitRec proves the recorder, BitWidth the bound.
  \<^item> Strpack: the three library functions, with the two passes, the buffer and the format walk of
    the code. StrpackSpec: what they promise without any of these, and the proofs.
  \<^item> ShimMem: \<open>lj52_alloc\<close> in both its modes, the credit past the cap, the window, the reserve, the
    collector's arming and its proof, the trace flush. A state is the shim's record and the collector's fields
    of LuaJIT's global state; a step is one allocator call or one move of the collector.
  \<^item> ShimWd: the watchdog's hook, timer thread, arm and disarm on the pthread backend. A step is one
    call from Lua, one pass of the thread, or time going by; the lock makes each of them atomic.
  \<^item> ShimStats: what the instruments publish of the memory. ShimBit32: bit32 and the unsigned accessors.
    ShimVgc: the value finalizer, with the JVM's references and the pending exception.
  \<^item> ShimApi: a Lua state with a stack, a registry and a heap of tables; the memo through which C functions
    are pushed, compare, arith and len. ShimSetup: what \<open>lj52_newstate\<close> gives a new state's registry and
    globals, on the same state. ShimLife: \<open>lj52_newstate\<close> and \<open>lj52_close\<close> as the resources they take
    and free, whichever call fails.
  \<^item> ErisWire: checksum, write buffer, integers and numbers on the wire (locale \<open>codec\<close>). ErisObj: the
    heap of Lua objects and \<open>persist\<close> and \<open>unpersist\<close> over it. ErisIso and ErisRound: the
    correspondence of the two graphs and what each primitive step does to it; ErisGraph: the
    round trip. ErisFill: the order in which special tables are filled. ErisForin: replay of
    suspended for-in loops. ErisThread: coroutines restored. ErisCo: coroutines persisted.
    ErisTop: settings, header, fingerprint, checksum and the two entry points, over the whole.
    A table is its pairs in the order the VM traverses them. Where a written field goes is the VM's,
    so \<open>lua_rawset\<close> takes the order as an argument (\<open>f_order\<close>), and two tables are the same up to a
    permutation of their pairs; every NaN that is read becomes LuaJIT's one (\<open>f_nan\<close>).

  \<^bold>\<open>What is proved\<close>, by group.

  \<^item> Numbers: the integer readers accept exactly the integers of 5.3, and every rounding is the IEEE
    one. Bitwise operators: an operator returns a number exactly when it is exact, errors name
    the right operand, a recorded trace and the interpreter agree on all operands, and the bound
    that lets conversions be dropped holds in every run.
  \<^item> string.pack: it refines a specification by item encodings, unpack undoes it, packsize predicts it, and
    no read leaves the input.
  \<^item> Memory: used bytes are the live blocks' bytes; an allocation past the cap is bounded by the
    credit, in both modes, outside the no-refuse windows; the collector's bookkeeping is an
    invariant; a refusal arms the collector unless the VM owns it; a shrink is never refused; the
    published ceiling is exactly the one the wall keeps. Watchdog: while a deadline is armed the
    thread looks or sleeps, and the time it gave the system to wake it is not after the deadline but
    for the roundings of its conversion; a pass from then on fires; disarm restores what arm found;
    the depth and the hook's skips are bounded; the thread ends.
  \<^item> Lua states: no birth or death of a state leaks a resource, whichever call fails; a new state has the
    registry of 5.2; a C function that is pushed is always the same object and never refused, and
    the overrun that allows is bounded; compare, arith and len are the VM's own operators; the JVM
    holds exactly the references the record names; bit32 is 5.2's but for the displacements and
    fields whose arithmetic C leaves undefined.
  \<^item> Persistence: unpersist after persist gives an isomorphic graph, cycles and shared upvalues
    included, up to the order of tables and the payload of NaNs; a blob that was changed is refused;
    a restored coroutine's frames are a chain the VM can walk, whatever the blob; fill order and
    for-in replay observe nothing a running program could not, where what a recipe can observe is
    stated of the objects (\<open>gives\<close>) apart from the walk.

  \<^bold>\<open>Bounds and fuel.\<close> \<open>persist\<close> and \<open>unpersist\<close> recurse on the code's own depth limit (maxrec, at most 2000),
  which is the error the code raises when it is used up, so no fuel is added. The reachability walk
  recurses on the code's budget; the format walks, the ULEB reader and the digit loops on the
  input left; the width bound on its depth limit. Sizes that the code keeps in a \<open>size_t\<close> and guards
  against overflow are natural numbers with the guard kept; everything whose wrap-around
  matters is a word of its width.

  \<^bold>\<open>Parameters.\<close> LuaJIT's own functions are arguments: the numeral scanner, number formatting, slot
  names, the bytecode writer and loader, the NaN it keeps, the order of a table's pairs, the arena
  behind the allocator, \<open>luaopen_jit\<close>, \<open>emitir\<close> with its fold engine; so are the C library's allocator, the JVM, the clock, pthread results and user code
  (permanents tables, recipes). What a theorem needs of them is a hypothesis with a witness.

  \<^bold>\<open>Not modelled\<close>, and why.

  \<^item> The Win32 backend of the watchdog: the same state machine over an API whose waiting is the operating
    system's.
  \<^item> The JNI entry points, which fetch a state from a Java field and call what is modelled; \<open>lua_rawlen\<close>,
    \<open>lj52_resume\<close> and the openers of bit32 and eris, which are calls of LuaJIT's API only.
  \<^item> Text of messages and diagnostics beyond which message it is and its arguments; trace output.
  \<^item> bench/, prototype/, test/: measurements, frozen copies of the sources above and harnesses.
  \<^item> The Java, Lua, shell and Python sides and the patches to LuaJIT's own files: not C of this
    repository. oclj\_features.h only defines macros.
\<close>

end
